(* ===== verification/Prelude.thy ===== *)
theory Prelude
  imports Main "HOL-Library.Word"
begin

unbundle bit_operations_syntax

text \<open>
  The prelude of the development: the widths of the C types (\<^verbatim>\<open>kernel/types.h\<close>), the
  configuration constants (\<^verbatim>\<open>kernel/param.h\<close>), the result type of kernel functions with
  its laws, and the generic facts on words and lists the components share.

  A kernel function that may panic, that may run into undefined behaviour of C, or that may go
  to sleep for good returns a value of \<open>'a res\<close>: \<open>Inr x\<close> is a normal return, \<open>Inl f\<close> the
  reason why there is none. \<open>bindE\<close> is the sequencing of statements, \<open>okE m Q\<close> says that \<open>m\<close>
  returns normally with a result that satisfies \<open>Q\<close> (total correctness).
\<close>

section \<open>Types of the C code\<close>

type_synonym u8 = "8 word"
type_synonym u16 = "16 word"
type_synonym u32 = "32 word"
type_synonym u64 = "64 word"

text \<open>An \<^verbatim>\<open>int\<close> is a 32-bit word too; where its sign matters it is read with \<open>sint\<close>.\<close>

type_synonym i32 = "32 word"
type_synonym i16 = "16 word"

section \<open>Configuration constants\<close>

definition NPROC :: nat where "NPROC = 64"
definition NCPU :: nat where "NCPU = 8"
definition NOFILE :: nat where "NOFILE = 16"
definition NFILE :: nat where "NFILE = 100"
definition NINODE :: nat where "NINODE = 50"
definition NDEV :: nat where "NDEV = 10"
definition ROOTDEV :: u32 where "ROOTDEV = 1"
definition MAXARG :: nat where "MAXARG = 32"
definition MAXOPBLOCKS :: nat where "MAXOPBLOCKS = 10"
definition LOGSIZE :: nat where "LOGSIZE = MAXOPBLOCKS * 3"
definition NBUF :: nat where "NBUF = MAXOPBLOCKS * 3"
definition FSSIZE :: nat where "FSSIZE = 2000"
definition MAXPATH :: nat where "MAXPATH = 128"

section \<open>Results of kernel functions\<close>

text \<open>
  \<open>Panic m\<close> is a call of \<^verbatim>\<open>panic(m)\<close>, which never returns; \<open>Undef w\<close> is an access the C
  language gives no meaning to (a null or out-of-range pointer); \<open>Blocked w\<close> is a process
  that sleeps and is not woken again within the run considered.
\<close>

datatype fault = Panic string | Undef string | Blocked string

type_synonym 'a res = "fault + 'a"

definition bindE :: "'a res \<Rightarrow> ('a \<Rightarrow> 'b res) \<Rightarrow> 'b res" where
  "bindE m f = (case m of Inl e \<Rightarrow> Inl e | Inr x \<Rightarrow> f x)"

definition okE :: "'a res \<Rightarrow> ('a \<Rightarrow> bool) \<Rightarrow> bool" where
  "okE m Q = (case m of Inl e \<Rightarrow> False | Inr x \<Rightarrow> Q x)"

lemma bindE_Inl [simp]: "bindE (Inl e) f = Inl e"
  by (simp add: bindE_def)

lemma bindE_Inr [simp]: "bindE (Inr x) f = f x"
  by (simp add: bindE_def)

lemma bindE_assoc: "bindE (bindE m f) g = bindE m (\<lambda>x. bindE (f x) g)"
  by (cases m) simp_all

lemma bindE_eq_Inr [simp]: "bindE m f = Inr y \<longleftrightarrow> (\<exists>x. m = Inr x \<and> f x = Inr y)"
  by (cases m) auto

lemma bindE_eq_Inl: "bindE m f = Inl e \<longleftrightarrow> m = Inl e \<or> (\<exists>x. m = Inr x \<and> f x = Inl e)"
  by (cases m) auto

lemma bindE_cong [fundef_cong]:
  "m = m' \<Longrightarrow> (\<And>x. m' = Inr x \<Longrightarrow> f x = g x) \<Longrightarrow> bindE m f = bindE m' g"
  by (cases m') auto

lemma okE_Inr [simp]: "okE (Inr x) Q = Q x"
  by (simp add: okE_def)

lemma okE_Inl [simp]: "okE (Inl e) Q = False"
  by (simp add: okE_def)

lemma okE_iff: "okE m Q \<longleftrightarrow> (\<exists>x. m = Inr x \<and> Q x)"
  by (cases m) auto

lemma okE_bind: "okE (bindE m f) Q \<longleftrightarrow> okE m (\<lambda>x. okE (f x) Q)"
  by (cases m) auto

lemma okE_mono: "okE m P \<Longrightarrow> (\<And>x. P x \<Longrightarrow> Q x) \<Longrightarrow> okE m Q"
  by (cases m) auto

lemma okE_bindI: "okE m P \<Longrightarrow> (\<And>x. P x \<Longrightarrow> okE (f x) Q) \<Longrightarrow> okE (bindE m f) Q"
  by (cases m) auto

section \<open>Facts on words\<close>

text \<open>Adding an offset below an alignment boundary does not carry into the aligned part.\<close>

lemma aligned_add_eq_or:
  fixes a i :: "'a::len word"
  assumes "a AND mask n = 0" and "i AND NOT (mask n) = 0"
  shows "a + i = a OR i"
proof -
  have "a AND i = 0"
    using assms by (auto simp: bit_eq_iff bit_simps)
  then show ?thesis by (metis add_0 word_plus_and_or)
qed

lemma aligned_add_drop:
  fixes a i :: "'a::len word"
  assumes "a AND mask n = 0" and "i AND NOT (mask n) = 0"
  shows "(a + i) AND NOT (mask n) = a"
proof -
  have "(a OR i) AND NOT (mask n) = a"
    using assms by (auto simp: bit_eq_iff bit_simps)
  then show ?thesis using aligned_add_eq_or [OF assms] by simp
qed

lemma aligned_add_low:
  fixes a i :: "'a::len word"
  assumes "a AND mask n = 0" and "i AND NOT (mask n) = 0"
  shows "(a + i) AND mask n = i"
proof -
  have "(a OR i) AND mask n = i"
    using assms by (auto simp: bit_eq_iff bit_simps)
  then show ?thesis using aligned_add_eq_or [OF assms] by simp
qed

lemma less_exp_and_not_mask:
  fixes i :: "'a::len word"
  assumes "unat i < 2 ^ n"
  shows "i AND NOT (mask n) = 0"
proof -
  have "take_bit n i = i"
    using assms by (simp add: take_bit_nat_eq_self_iff unsigned_take_bit_eq word_unat_eq_iff)
  then show ?thesis
    by (metis and.commute and.left_commute and.right_neutral bit.conj_cancel_right take_bit_eq_mask
        word_bitwise_m1_simps(1) bit.conj_zero_right)
qed

lemma bit_u64_less: "bit (w :: u64) n \<Longrightarrow> n < 64"
  using bit_imp_le_length [of w n] by simp

lemma unat_of_nat64: "n < 2 ^ 64 \<Longrightarrow> unat (of_nat n :: u64) = n"
  by (simp add: unat_of_nat)

section \<open>Loops over a list\<close>

text \<open>\<open>foldE f xs s\<close> is \<^verbatim>\<open>for(x in xs) s = f(x, s)\<close>, left at the first fault.\<close>

primrec foldE :: "('a \<Rightarrow> 's \<Rightarrow> 's res) \<Rightarrow> 'a list \<Rightarrow> 's \<Rightarrow> 's res" where
  "foldE f [] s = Inr s"
| "foldE f (x # xs) s = bindE (f x s) (foldE f xs)"

lemma foldE_snoc: "foldE f (xs @ [x]) s = bindE (foldE f xs s) (f x)"
  by (induction xs arbitrary: s) (auto simp: bindE_def split: sum.splits)

lemma foldE_inv:
  assumes "P s" and "\<And>x s. x \<in> set xs \<Longrightarrow> P s \<Longrightarrow> \<exists>s'. f x s = Inr s' \<and> P s'"
  shows "\<exists>s'. foldE f xs s = Inr s' \<and> P s'"
  using assms
proof (induction xs arbitrary: s)
  case (Cons x xs)
  then obtain t where "f x s = Inr t" "P t" by (metis list.set_intros(1))
  then show ?case using Cons by auto
qed simp

section \<open>Characters as integers\<close>

lemma ucast_8_32_8 [simp]: "ucast (ucast (b :: u8) :: i32) = b"
  by (rule bit_word_eqI) (simp add: bit_simps)

lemma unat_ucast_8_32 [simp]: "unat (ucast (b :: u8) :: i32) = unat b"
  using unsigned_less [of b, where 'a = nat] by (simp add: unsigned_ucast_eq take_bit_nat_eq_self)

section \<open>Signed and unsigned reading of an \<^verbatim>\<open>int\<close>\<close>

lemma sint_split: "sint (x :: i32) = uint x - (if x <s 0 then 2 ^ 32 else 0)"
proof -
  have s: "sint x = signed_take_bit 31 (uint x)" by (simp add: sint_uint)
  have "x <s 0 \<longleftrightarrow> bit (uint x) 31" by (simp add: word_sless_alt s signed_take_bit_negative_iff)
  moreover have "take_bit 32 (uint x) = uint x" by (simp add: take_bit_int_eq_self unsigned_less [of x, where 'a = int, simplified])
  ultimately show ?thesis using signed_take_bit_eq_take_bit_minus [of 31 "uint x"] s by simp
qed

lemma neg32: "(x :: i32) <s 0 \<Longrightarrow> int (unat (- x)) = - sint x"
proof -
  assume a: "x <s 0"
  then have "x \<noteq> 0" by auto
  moreover have "uint x mod 2 ^ 32 = uint x"
    using unsigned_less [of x, where 'a = int] by (simp add: mod_pos_pos_trivial)
  ultimately have "uint (- x) = 2 ^ 32 - uint x"
    by (simp add: uint_word_ariths zmod_zminus1_eq_if uint_0_iff)
  then show ?thesis using sint_split [of x] a by simp
qed

lemma pos32: "\<not> (x :: i32) <s 0 \<Longrightarrow> int (unat x) = sint x"
  using sint_split [of x] by simp

end
