(* ===== verification/Cmem.thy ===== *)
theory Cmem
  imports Prelude
begin

text \<open>
  Physical memory as the kernel sees it: a function from 64-bit addresses to bytes, with
  little-endian 64-bit loads and stores, and the address arithmetic of \<^verbatim>\<open>kernel/riscv.h\<close> and
  \<^verbatim>\<open>kernel/memlayout.h\<close>: page rounding, page-table indices, page-table entries.

  \<open>pgof x\<close> (the page an address lies in) is the key of all disjointness arguments: two accesses
  in different pages do not interfere.
\<close>

section \<open>Bytes and words in memory\<close>

type_synonym mem = "u64 \<Rightarrow> u8"

definition byte_of :: "nat \<Rightarrow> u64 \<Rightarrow> u8" where
  "byte_of i v = ucast (drop_bit (8 * i) v)"

definition load64 :: "mem \<Rightarrow> u64 \<Rightarrow> u64" where
  "load64 m a =
     ucast (m a) OR push_bit 8 (ucast (m (a + 1))) OR push_bit 16 (ucast (m (a + 2))) OR
     push_bit 24 (ucast (m (a + 3))) OR push_bit 32 (ucast (m (a + 4))) OR
     push_bit 40 (ucast (m (a + 5))) OR push_bit 48 (ucast (m (a + 6))) OR
     push_bit 56 (ucast (m (a + 7)))"

definition store64 :: "mem \<Rightarrow> u64 \<Rightarrow> u64 \<Rightarrow> mem" where
  "store64 m a v =
     m(a := byte_of 0 v, a + 1 := byte_of 1 v, a + 2 := byte_of 2 v, a + 3 := byte_of 3 v,
       a + 4 := byte_of 4 v, a + 5 := byte_of 5 v, a + 6 := byte_of 6 v, a + 7 := byte_of 7 v)"

lemma bit_byte_of:
  fixes v :: u64
  assumes "n < 64"
  shows "bit (push_bit (8 * k) (ucast (byte_of k v) :: u64)) n \<longleftrightarrow> n div 8 = k \<and> bit v n"
proof -
  have "8 * k \<le> n \<and> n - 8 * k < 8 \<longleftrightarrow> n div 8 = k" by arith
  moreover have "8 * k \<le> n \<Longrightarrow> 8 * k + (n - 8 * k) = n" by simp
  ultimately show ?thesis
    using assms by (auto simp: byte_of_def bit_simps)
qed

lemma bytes_recombine:
  fixes v :: u64
  shows "push_bit (8 * 0) (ucast (byte_of 0 v)) OR push_bit (8 * 1) (ucast (byte_of 1 v)) OR
     push_bit (8 * 2) (ucast (byte_of 2 v)) OR push_bit (8 * 3) (ucast (byte_of 3 v)) OR
     push_bit (8 * 4) (ucast (byte_of 4 v)) OR push_bit (8 * 5) (ucast (byte_of 5 v)) OR
     push_bit (8 * 6) (ucast (byte_of 6 v)) OR push_bit (8 * 7) (ucast (byte_of 7 v)) = v"
    (is "?l = v")
proof (rule bit_word_eqI)
  fix n assume "n < LENGTH(64)"
  then have n: "n < 64" by simp
  then have "n div 8 < 8" by simp
  then have "n div 8 = 0 \<or> n div 8 = 1 \<or> n div 8 = 2 \<or> n div 8 = 3 \<or> n div 8 = 4 \<or>
    n div 8 = 5 \<or> n div 8 = 6 \<or> n div 8 = 7" by arith
  then show "bit ?l n = bit v n"
    by (simp only: bit_or_iff bit_byte_of [OF n]) blast
qed

lemma load64_store64_same [simp]: "load64 (store64 m a v) a = v"
  using bytes_recombine [of v] by (simp add: load64_def store64_def del: One_nat_def)

section \<open>Aligned accesses do not interfere\<close>

definition al8 :: "u64 \<Rightarrow> u64" where
  "al8 x = x AND NOT (mask 3)"

definition aligned8 :: "u64 \<Rightarrow> bool" where
  "aligned8 a \<longleftrightarrow> a AND mask 3 = 0"

lemma al8_add: "aligned8 a \<Longrightarrow> unat i < 8 \<Longrightarrow> al8 (a + i) = a"
  unfolding al8_def aligned8_def
  by (rule aligned_add_drop) (auto intro: less_exp_and_not_mask)

lemma al8_self: "aligned8 a \<Longrightarrow> al8 a = a"
  using al8_add [of a 0] by simp

lemma al8_adds:
  assumes "aligned8 a"
  shows "al8 a = a" "al8 (a + 1) = a" "al8 (a + 2) = a" "al8 (a + 3) = a" "al8 (a + 4) = a"
    "al8 (a + 5) = a" "al8 (a + 6) = a" "al8 (a + 7) = a"
  using assms by (simp_all add: al8_self al8_add)

lemma store64_other: "aligned8 a \<Longrightarrow> al8 x \<noteq> a \<Longrightarrow> store64 m a v x = m x"
  unfolding store64_def using al8_adds [of a] by auto

lemma load64_cong:
  assumes "aligned8 a" and "\<And>x. al8 x = a \<Longrightarrow> m x = m' x"
  shows "load64 m a = load64 m' a"
  unfolding load64_def using al8_adds [OF assms(1)] assms(2) by simp

lemma load64_store64_other:
  "aligned8 a \<Longrightarrow> aligned8 b \<Longrightarrow> a \<noteq> b \<Longrightarrow> load64 (store64 m b v) a = load64 m a"
  by (rule load64_cong) (auto simp: store64_other)

section \<open>Pages and page-table entries (\<^verbatim>\<open>riscv.h\<close>, \<^verbatim>\<open>memlayout.h\<close>)\<close>

definition PGSIZE :: u64 where "PGSIZE = 4096"

definition PGROUNDUP :: "u64 \<Rightarrow> u64" where
  "PGROUNDUP sz = (sz + PGSIZE - 1) AND NOT (PGSIZE - 1)"

definition PGROUNDDOWN :: "u64 \<Rightarrow> u64" where
  "PGROUNDDOWN a = a AND NOT (PGSIZE - 1)"

definition PTE_V :: u64 where "PTE_V = 1"
definition PTE_R :: u64 where "PTE_R = 2"
definition PTE_W :: u64 where "PTE_W = 4"
definition PTE_X :: u64 where "PTE_X = 8"
definition PTE_U :: u64 where "PTE_U = 16"

definition PA2PTE :: "u64 \<Rightarrow> u64" where
  "PA2PTE pa = push_bit 10 (drop_bit 12 pa)"

definition PTE2PA :: "u64 \<Rightarrow> u64" where
  "PTE2PA pte = push_bit 12 (drop_bit 10 pte)"

definition PTE_FLAGS :: "u64 \<Rightarrow> u64" where
  "PTE_FLAGS pte = pte AND 0x3FF"

definition PX :: "nat \<Rightarrow> u64 \<Rightarrow> u64" where
  "PX level va = drop_bit (12 + 9 * level) va AND 0x1FF"

definition MAXVA :: u64 where "MAXVA = push_bit (9 + 9 + 9 + 12 - 1) 1"

definition SATP_SV39 :: u64 where "SATP_SV39 = push_bit 60 8"

definition MAKE_SATP :: "u64 \<Rightarrow> u64" where
  "MAKE_SATP pagetable = SATP_SV39 OR drop_bit 12 pagetable"

definition KERNBASE :: u64 where "KERNBASE = 0x80000000"
definition PHYSTOP :: u64 where "PHYSTOP = KERNBASE + 128 * 1024 * 1024"
definition TRAMPOLINE :: u64 where "TRAMPOLINE = MAXVA - PGSIZE"
definition TRAPFRAME :: u64 where "TRAPFRAME = TRAMPOLINE - PGSIZE"

definition KSTACK :: "nat \<Rightarrow> u64" where
  "KSTACK p = TRAMPOLINE - (of_nat p + 1) * 2 * PGSIZE"

definition page_aligned :: "u64 \<Rightarrow> bool" where
  "page_aligned a \<longleftrightarrow> a AND mask 12 = 0"

lemma mask_12: "(mask 12 :: u64) = 4095"
  by (simp add: mask_eq_exp_minus_1)

lemma PGROUNDDOWN_mask: "PGROUNDDOWN a = a AND NOT (mask 12)"
  by (simp add: PGROUNDDOWN_def PGSIZE_def mask_12)

lemma page_aligned_mod: "page_aligned a \<longleftrightarrow> a mod PGSIZE = 0"
proof -
  have "a mod PGSIZE = take_bit 12 a"
    by (simp add: PGSIZE_def take_bit_eq_mod)
  also have "\<dots> = a AND mask 12" by (rule take_bit_eq_mask)
  finally show ?thesis by (simp only: page_aligned_def)
qed

lemma page_aligned_PGROUNDDOWN [simp]: "page_aligned (PGROUNDDOWN x)"
  by (simp only: page_aligned_def PGROUNDDOWN_mask) (simp add: bit_eq_iff bit_simps)

lemma PGROUNDDOWN_add: "page_aligned a \<Longrightarrow> unat i < 4096 \<Longrightarrow> PGROUNDDOWN (a + i) = a"
  by (simp only: page_aligned_def PGROUNDDOWN_mask)
    (rule aligned_add_drop, auto intro!: less_exp_and_not_mask)

lemma PGROUNDDOWN_id: "page_aligned a \<Longrightarrow> PGROUNDDOWN a = a"
  using PGROUNDDOWN_add [of a 0] by simp

lemma PGROUNDDOWN_al8: "PGROUNDDOWN (al8 x) = PGROUNDDOWN x"
  by (simp only: PGROUNDDOWN_mask al8_def) (auto simp: bit_eq_iff bit_simps)

lemma page_aligned8: "page_aligned a \<Longrightarrow> aligned8 a"
  by (simp only: page_aligned_def aligned8_def) (auto simp: bit_eq_iff bit_simps)

lemma store64_other_page:
  "aligned8 a \<Longrightarrow> PGROUNDDOWN x \<noteq> PGROUNDDOWN a \<Longrightarrow> store64 m a v x = m x"
  by (rule store64_other) (auto simp: PGROUNDDOWN_al8 dest: arg_cong [where f = PGROUNDDOWN])

lemma load64_cong_page:
  assumes "aligned8 a" and "\<And>x. PGROUNDDOWN x = PGROUNDDOWN a \<Longrightarrow> m x = m' x"
  shows "load64 m a = load64 m' a"
  using assms(1)
proof (rule load64_cong)
  fix x assume "al8 x = a"
  then have "PGROUNDDOWN x = PGROUNDDOWN a" by (metis PGROUNDDOWN_al8)
  then show "m x = m' x" by (rule assms(2))
qed

lemma PX_less: "unat (PX l va) < 512"
proof -
  have "PX l va \<le> 0x1FF" unfolding PX_def by (rule word_and_le1)
  then show ?thesis by (simp add: word_le_nat_alt)
qed

lemma unat_8_PX: "unat (8 * PX l va) = 8 * unat (PX l va)"
  using PX_less [of l va] by (simp add: unat_word_ariths)

lemma pte_addr_page: "page_aligned pt \<Longrightarrow> PGROUNDDOWN (pt + 8 * PX l va) = pt"
  using PX_less [of l va] by (intro PGROUNDDOWN_add) (simp_all add: unat_8_PX)

lemma pte_addr_aligned8: "page_aligned pt \<Longrightarrow> aligned8 (pt + 8 * PX l va)"
proof -
  assume "page_aligned pt"
  then have "8 dvd uint pt"
    using page_aligned8 [of pt] and_mask_dvd [of 3 pt] by (simp add: aligned8_def)
  then have "8 dvd unat pt" by (metis int_dvd_int_iff of_nat_numeral uint_nat)
  then have "8 dvd unat (pt + 8 * PX l va)"
    by (simp add: unat_word_ariths unat_8_PX dvd_mod_iff)
  then show ?thesis
    using and_mask_dvd_nat [of 3 "pt + 8 * PX l va"] by (simp add: aligned8_def)
qed

lemma pte_addr_inj: "pt + 8 * PX l va = pt + 8 * PX l' va' \<longleftrightarrow> PX l va = PX l' va'"
proof
  assume "pt + 8 * PX l va = pt + 8 * PX l' va'"
  then have "unat (8 * PX l va) = unat (8 * PX l' va')" by simp
  then show "PX l va = PX l' va'" by (simp add: unat_8_PX word_unat_eq_iff)
qed simp

lemma PTE2PA_PA2PTE:
  assumes "page_aligned pa" and "f AND NOT 0x3FF = 0"
  shows "PTE2PA (PA2PTE pa OR f) = pa"
proof (rule bit_word_eqI)
  fix n assume n: "n < LENGTH(64)"
  have f: "\<not> bit f k" if "10 \<le> k" for k
  proof -
    have "f AND NOT (mask 10) = 0" using assms(2) by (simp add: mask_eq_exp_minus_1)
    then show ?thesis
      using that bit_imp_le_length [of f k] by (auto simp: bit_eq_iff bit_simps)
  qed
  have pa: "\<not> bit pa k" if "k < 12" for k
  proof
    assume "bit pa k"
    then have "bit (pa AND mask 12) k" using that by (simp add: bit_simps)
    then show False using assms(1) by (simp add: page_aligned_def)
  qed
  show "bit (PTE2PA (PA2PTE pa OR f)) n = bit pa n"
    using n pa [of n] f [of "n - 2"]
    by (cases "n < 12") (auto simp: PTE2PA_def PA2PTE_def bit_simps)
qed

lemma PTE_FLAGS_PA2PTE:
  assumes "f AND NOT 0x3FF = 0"
  shows "PTE_FLAGS (PA2PTE pa OR f) = f"
proof -
  have m: "(0x3FF :: u64) = mask 10" by (simp add: mask_eq_exp_minus_1)
  have "bit f k \<Longrightarrow> k < 10" for k
    using assms bit_imp_le_length [of f k] unfolding m by (auto simp: bit_eq_iff bit_simps)
  then show ?thesis
    unfolding PTE_FLAGS_def PA2PTE_def m by (auto simp: bit_eq_iff bit_simps)
qed

text \<open>A virtual page below \<open>MAXVA\<close> is determined by its three table indices.\<close>

lemma va_indices_unique:
  assumes "va < MAXVA" and "va' < MAXVA"
    and "PX 2 va = PX 2 va'" and "PX 1 va = PX 1 va'" and "PX 0 va = PX 0 va'"
  shows "PGROUNDDOWN va = PGROUNDDOWN va'"
proof (rule bit_word_eqI)
  fix n assume n: "n < LENGTH(64)"
  have m: "(0x1FF :: u64) = mask 9" by (simp add: mask_eq_exp_minus_1)
  have px: "bit va (12 + 9 * l + k) = bit va' (12 + 9 * l + k)"
    if "PX l va = PX l va'" "k < 9" for l k
  proof -
    have "bit (PX l va) k = bit (PX l va') k" using that(1) by simp
    then show ?thesis using that(2) by (simp add: PX_def m bit_simps)
  qed
  have high: "\<not> bit w k" if "w < MAXVA" "38 \<le> k" for w :: u64 and k
  proof -
    have "unat w < 2 ^ 38" using that(1) by (simp add: MAXVA_def word_less_nat_alt)
    then have "take_bit 38 w = w"
      by (simp add: take_bit_nat_eq_self_iff unsigned_take_bit_eq word_unat_eq_iff)
    then show ?thesis using that(2) by (metis bit_take_bit_iff not_le)
  qed
  consider "n < 12" | "12 \<le> n" "n < 21" | "21 \<le> n" "n < 30" | "30 \<le> n" "n < 38" | "38 \<le> n"
    by atomize_elim arith
  then show "bit (PGROUNDDOWN va) n = bit (PGROUNDDOWN va') n"
  proof cases
    case 1 then show ?thesis unfolding PGROUNDDOWN_mask by (simp add: bit_simps)
  next
    case 2 then show ?thesis
      using px [OF assms(5), of "n - 12"] unfolding PGROUNDDOWN_mask by (simp add: bit_simps)
  next
    case 3 then show ?thesis
      using px [OF assms(4), of "n - 21"] unfolding PGROUNDDOWN_mask by (simp add: bit_simps)
  next
    case 4 then show ?thesis
      using px [OF assms(3), of "n - 30"] unfolding PGROUNDDOWN_mask by (simp add: bit_simps)
  next
    case 5 then show ?thesis
      using high [OF assms(1), of n] high [OF assms(2), of n]
      unfolding PGROUNDDOWN_mask by (simp add: bit_simps)
  qed
qed

lemma PX_PGROUNDDOWN: "PX l (PGROUNDDOWN va) = PX l va"
  unfolding PX_def PGROUNDDOWN_mask by (auto simp: bit_eq_iff bit_simps dest: bit_u64_less)

lemma PGROUNDDOWN_le: "PGROUNDDOWN a \<le> a"
  unfolding PGROUNDDOWN_def by (rule word_and_le2)

text \<open>Page rounding on the numbers the words stand for.\<close>

lemma unat_PGROUNDDOWN: "unat (PGROUNDDOWN a) = unat a div 4096 * 4096"
proof -
  have "unat (PGROUNDDOWN a) = unat (push_bit 12 (drop_bit 12 a))"
    unfolding PGROUNDDOWN_mask by (rule arg_cong [where f = unat]) (auto simp: bit_eq_iff bit_simps)
  also have "\<dots> = unat a div 4096 * 4096"
  proof -
    have "unat a div 4096 * 4096 < 2 ^ 64"
      using unsigned_less [of a, where 'a = nat] by simp
    then show ?thesis
      by (simp add: push_bit_eq_mult unat_word_ariths unat_drop_bit_eq drop_bit_eq_div mult.commute)
  qed
  finally show ?thesis .
qed

lemma unat_PGROUNDUP:
  assumes "unat a + 4095 < 2 ^ 64"
  shows "unat (PGROUNDUP a) = (unat a + 4095) div 4096 * 4096"
proof -
  have "PGROUNDUP a = PGROUNDDOWN (a + 4095)"
    by (simp add: PGROUNDUP_def PGROUNDDOWN_def PGSIZE_def add.commute)
  then show ?thesis using assms by (simp add: unat_PGROUNDDOWN unat_word_ariths)
qed

lemma page_aligned_PGROUNDUP [simp]: "page_aligned (PGROUNDUP a)"
proof -
  have "PGROUNDUP a = PGROUNDDOWN (a + 4095)"
    by (simp add: PGROUNDUP_def PGROUNDDOWN_def PGSIZE_def add.commute)
  then show ?thesis by simp
qed

lemma page_aligned_unat: "page_aligned a \<longleftrightarrow> unat a mod 4096 = 0"
  using and_mask_dvd_nat [of 12 a] by (simp add: page_aligned_def dvd_eq_mod_eq_0)

lemma page_le_next: "4096 dvd x \<Longrightarrow> 4096 dvd p \<Longrightarrow> x < p + 4096 \<longleftrightarrow> x \<le> (p :: nat)"
  by (elim dvdE) auto

lemma page_roundup_le:
  fixes x k :: nat
  assumes "4096 dvd x"
  shows "(k + 4095) div 4096 * 4096 \<le> x \<longleftrightarrow> k \<le> x"
proof -
  obtain a where a: "x = 4096 * a" using assms by (rule dvdE)
  have "(k + 4095) div 4096 \<le> a \<longleftrightarrow> (k + 4095) div 4096 < Suc a" by auto
  also have "\<dots> \<longleftrightarrow> k + 4095 < Suc a * 4096" by (simp only: div_less_iff_less_mult)
  finally show ?thesis using a by auto
qed

lemma page_aligned_dvd: "page_aligned a \<longleftrightarrow> 4096 dvd unat a"
  by (simp add: page_aligned_unat dvd_eq_mod_eq_0)

lemma PGROUNDUP_le:
  assumes "unat a + 4095 < 2 ^ 64" "page_aligned x"
  shows "PGROUNDUP a \<le> x \<longleftrightarrow> a \<le> x"
  using unat_PGROUNDUP [OF assms(1)] page_roundup_le [of "unat x" "unat a"] assms(2)
  by (simp add: word_le_nat_alt page_aligned_dvd)

end
