(* ===== verification/Cstring.thy ===== *)
theory Cstring
  imports Cmem
begin

text \<open>
  The kernel's string and memory routines, \<^verbatim>\<open>kernel/string.c\<close>. The \<^verbatim>\<open>mem*\<close> routines work
  on memory, since their callers hand them addresses; the \<^verbatim>\<open>str*\<close> routines work on char arrays,
  a pointer into an array being the list of the bytes from there on (so that reading past the end
  of the array is the value \<open>Inl (Undef \<dots>)\<close>).

  Shown: \<^verbatim>\<open>memset\<close> and \<^verbatim>\<open>memmove\<close> equal their reference definitions, \<^verbatim>\<open>memmove\<close> for
  overlapping areas too; \<^verbatim>\<open>strncmp\<close>, \<^verbatim>\<open>strncpy\<close>, \<^verbatim>\<open>safestrcpy\<close> and \<^verbatim>\<open>strlen\<close> agree with
  the C string (\<open>cstr\<close>) their arguments hold.
\<close>

section \<open>Memory areas\<close>

text \<open>\<open>in_area d n x\<close>: address \<open>x\<close> is one of the \<open>n\<close> bytes from \<open>d\<close> on.\<close>

definition in_area :: "u64 \<Rightarrow> nat \<Rightarrow> u64 \<Rightarrow> bool" where
  "in_area d n x \<longleftrightarrow> unat (x - d) < n"

fun memset_loop :: "nat \<Rightarrow> u64 \<Rightarrow> u8 \<Rightarrow> mem \<Rightarrow> mem" where
  "memset_loop 0 d c m = m"
| "memset_loop (Suc n) d c m = memset_loop n (d + 1) c (m(d := c))"

definition memset :: "mem \<Rightarrow> u64 \<Rightarrow> i32 \<Rightarrow> u32 \<Rightarrow> mem" where
  "memset m dst c n = memset_loop (unat n) dst (ucast c) m"

fun copy_up :: "nat \<Rightarrow> u64 \<Rightarrow> u64 \<Rightarrow> mem \<Rightarrow> mem" where
  "copy_up 0 d s m = m"
| "copy_up (Suc n) d s m = copy_up n (d + 1) (s + 1) (m(d := m s))"

fun copy_down :: "nat \<Rightarrow> u64 \<Rightarrow> u64 \<Rightarrow> mem \<Rightarrow> mem" where
  "copy_down 0 d s m = m"
| "copy_down (Suc n) d s m = copy_down n (d - 1) (s - 1) (m(d - 1 := m (s - 1)))"

definition memmove :: "mem \<Rightarrow> u64 \<Rightarrow> u64 \<Rightarrow> u32 \<Rightarrow> mem" where
  "memmove m dst src n =
     (if n = 0 then m
      else if src < dst \<and> src + ucast n > dst
           then copy_down (unat n) (dst + ucast n) (src + ucast n) m
           else copy_up (unat n) dst src m)"

definition memcpy :: "mem \<Rightarrow> u64 \<Rightarrow> u64 \<Rightarrow> u32 \<Rightarrow> mem" where
  "memcpy m dst src n = memmove m dst src n"

section \<open>C strings\<close>

fun memcmp :: "u8 list \<Rightarrow> u8 list \<Rightarrow> nat \<Rightarrow> int res" where
  "memcmp s1 s2 0 = Inr 0"
| "memcmp (a # s1) (b # s2) (Suc n) = (if a \<noteq> b then Inr (uint a - uint b) else memcmp s1 s2 n)"
| "memcmp _ _ (Suc n) = Inl (Undef ''memcmp'')"

fun strncmp :: "u8 list \<Rightarrow> u8 list \<Rightarrow> nat \<Rightarrow> int res" where
  "strncmp p q 0 = Inr 0"
| "strncmp (a # p) (b # q) (Suc n) =
     (if a \<noteq> 0 \<and> a = b then strncmp p q n else Inr (uint a - uint b))"
| "strncmp _ _ (Suc n) = Inl (Undef ''strncmp'')"

fun strncpy_fill :: "u8 list \<Rightarrow> nat \<Rightarrow> u8 list res" where
  "strncpy_fill s 0 = Inr s"
| "strncpy_fill (x # s) (Suc n) = bindE (strncpy_fill s n) (\<lambda>r. Inr (0 # r))"
| "strncpy_fill [] (Suc n) = Inl (Undef ''strncpy'')"

fun strncpy :: "u8 list \<Rightarrow> u8 list \<Rightarrow> nat \<Rightarrow> u8 list res" where
  "strncpy s t 0 = Inr s"
| "strncpy (x # s) (c # t) (Suc n) =
     bindE (if c \<noteq> 0 then strncpy s t n else strncpy_fill s n) (\<lambda>r. Inr (c # r))"
| "strncpy _ _ (Suc n) = Inl (Undef ''strncpy'')"

text \<open>\<open>safestrcpy_loop n\<close> runs the loop with \<open>n\<close> the value of the counter after the decrement.\<close>

fun safestrcpy_loop :: "u8 list \<Rightarrow> u8 list \<Rightarrow> nat \<Rightarrow> u8 list res" where
  "safestrcpy_loop (x # s) t 0 = Inr (0 # s)"
| "safestrcpy_loop (x # s) (c # t) (Suc n) =
     (if c \<noteq> 0 then bindE (safestrcpy_loop s t n) (\<lambda>r. Inr (c # r))
      else case s of [] \<Rightarrow> Inl (Undef ''safestrcpy'') | y # s' \<Rightarrow> Inr (0 # 0 # s'))"
| "safestrcpy_loop _ _ _ = Inl (Undef ''safestrcpy'')"

definition safestrcpy :: "u8 list \<Rightarrow> u8 list \<Rightarrow> int \<Rightarrow> u8 list res" where
  "safestrcpy s t n = (if n \<le> 0 then Inr s else safestrcpy_loop s t (nat (n - 1)))"

fun strlen :: "u8 list \<Rightarrow> nat res" where
  "strlen [] = Inl (Undef ''strlen'')"
| "strlen (c # s) = (if c = 0 then Inr 0 else bindE (strlen s) (\<lambda>n. Inr (Suc n)))"

text \<open>The string a char array holds: the bytes before the first NUL.\<close>

definition cstr :: "u8 list \<Rightarrow> u8 list" where
  "cstr s = takeWhile (\<lambda>c. c \<noteq> 0) s"

section \<open>\<^verbatim>\<open>memset\<close> and \<^verbatim>\<open>memmove\<close> against their reference definitions\<close>

lemma in_area_step: "in_area d (Suc n) x \<longleftrightarrow> x = d \<or> in_area (d + 1) n x"
proof -
  define y where "y = x - d"
  have y: "x - (d + 1) = y - 1" and x: "x = d \<longleftrightarrow> y = 0" by (simp_all add: y_def)
  show ?thesis
  proof (cases "y = 0")
    case True
    then have "x = d" using x by blast
    then show ?thesis by (simp add: in_area_def)
  next
    case False
    then have "unat (x - (d + 1)) = unat (x - d) - 1"
      unfolding y by (simp add: unat_minus_one flip: y_def)
    moreover have "0 < unat (x - d)" using False by (simp add: unat_gt_0 flip: y_def)
    ultimately show ?thesis using False x unfolding in_area_def by auto
  qed
qed

lemma in_area_0 [simp]: "\<not> in_area d 0 x"
  by (simp add: in_area_def)

lemma memset_loop_eq: "memset_loop n d c m = (\<lambda>x. if in_area d n x then c else m x)"
  by (induction n arbitrary: d m) (auto simp: in_area_step fun_eq_iff)

lemma memset_eq: "memset m d c n = (\<lambda>x. if in_area d (unat n) x then ucast c else m x)"
  by (simp add: memset_def memset_loop_eq)

lemma in_area_step_top:
  assumes "n < 2 ^ 64"
  shows "in_area a (Suc n) x \<longleftrightarrow> x = a + of_nat n \<or> in_area a n x"
proof -
  have "unat (x - a) = n \<longleftrightarrow> x = a + of_nat n"
    using unat_of_nat64 [OF assms]
    by (metis add_diff_cancel_left' diff_add_cancel add.commute word_unat_eq_iff)
  then show ?thesis by (auto simp: in_area_def less_Suc_eq)
qed

lemma in_area_conv: "in_area a n x \<longleftrightarrow> (\<exists>j < n. j < 2 ^ 64 \<and> x = a + of_nat j)"
proof
  assume "in_area a n x"
  then show "\<exists>j < n. j < 2 ^ 64 \<and> x = a + of_nat j"
    using unsigned_less [of "x - a", where 'a = nat]
    by (intro exI [of _ "unat (x - a)"]) (simp add: in_area_def)
next
  assume "\<exists>j < n. j < 2 ^ 64 \<and> x = a + of_nat j"
  then show "in_area a n x" by (auto simp: in_area_def unat_of_nat64)
qed

text \<open>Copying upwards is right unless the destination starts inside the source, after its start.\<close>

lemma copy_up_eq:
  assumes "n \<le> 2 ^ 64" and "d = s \<or> n \<le> unat (d - s)"
  shows "copy_up n d s m = (\<lambda>x. if in_area d n x then m (x + (s - d)) else m x)"
  using assms
proof (induction n arbitrary: d s m)
  case (Suc n)
  define m' where "m' = m(d := m s)"
  have IH: "copy_up n (d + 1) (s + 1) m'
      = (\<lambda>x. if in_area (d + 1) n x then m' (x + (s - d)) else m' x)"
    using Suc.IH [of "d + 1" "s + 1" m'] Suc.prems by auto
  have "m' (x + (s - d)) = m (x + (s - d))" if "in_area (d + 1) n x" for x
  proof -
    from that Suc.prems(1) obtain j where j: "j < n" "x = d + 1 + of_nat j"
      by (auto simp: in_area_conv)
    have "x + (s - d) \<noteq> d"
    proof
      assume "x + (s - d) = d"
      then have ds: "d - s = of_nat (Suc j)" using j(2) by (simp add: algebra_simps)
      then have "unat (d - s) = Suc j"
        using j(1) Suc.prems(1) unat_of_nat64 [of "Suc j"] by simp
      then show False using Suc.prems(2) j(1) by auto
    qed
    then show ?thesis by (simp add: m'_def)
  qed
  then show ?case using IH by (auto simp: in_area_step m'_def fun_eq_iff)
qed simp

lemma copy_down_eq:
  assumes "n \<le> 2 ^ 64" and "d = s \<or> n \<le> unat (s - d)"
  shows "copy_down n d s m = (\<lambda>x. if in_area (d - of_nat n) n x then m (x + (s - d)) else m x)"
  using assms
proof (induction n arbitrary: d s m)
  case (Suc n)
  define m' where "m' = m(d - 1 := m (s - 1))"
  define a where "a = d - of_nat (Suc n)"
  have a: "d - 1 - of_nat n = a" "a + of_nat n = d - 1" by (simp_all add: a_def algebra_simps)
  have IH: "copy_down n (d - 1) (s - 1) m'
      = (\<lambda>x. if in_area a n x then m' (x + (s - d)) else m' x)"
    using Suc.IH [of "d - 1" "s - 1" m'] Suc.prems a by auto
  have "m' (x + (s - d)) = m (x + (s - d))" if "in_area a n x" for x
  proof -
    from that Suc.prems(1) obtain j where j: "j < n" "x = a + of_nat j"
      by (auto simp: in_area_conv)
    have "x + (s - d) \<noteq> d - 1"
    proof
      assume "x + (s - d) = d - 1"
      then have "a + (of_nat j + (s - d)) = a + of_nat n" using j(2) a(2) by (simp add: add.assoc)
      then have "of_nat j + (s - d) = of_nat n" by simp
      then have "s - d = of_nat n - of_nat j" by (simp add: eq_diff_eq add.commute)
      then have sd: "s - d = of_nat (n - j)" using j(1) by simp
      then have "unat (s - d) = n - j"
        using j(1) Suc.prems(1) unat_of_nat64 [of "n - j"] by simp
      then show False using Suc.prems(2) j(1) by auto
    qed
    then show ?thesis by (simp add: m'_def)
  qed
  moreover have "in_area a (Suc n) x \<longleftrightarrow> x = d - 1 \<or> in_area a n x" for x
    using in_area_step_top [of n a x] Suc.prems(1) a(2) by simp
  moreover have "m' (d - 1) = m (d - 1 + (s - d))" by (simp add: m'_def algebra_simps)
  moreover have "copy_down (Suc n) d s m = copy_down n (d - 1) (s - 1) m'" by (simp add: m'_def)
  ultimately show ?case
    unfolding a_def [symmetric] using IH by (auto simp: fun_eq_iff m'_def)
qed simp

lemma word_less_diff_unat:
  fixes a b :: u64
  assumes "a < b"
  shows "unat (b - a) = unat b - unat a" "unat (a - b) = 2 ^ 64 - (unat b - unat a)"
  using assms by (auto simp: unat_sub_if' word_less_nat_alt word_size)

lemma memmove_eq:
  assumes "unat dst + unat n \<le> 2 ^ 64" and "unat src + unat n \<le> 2 ^ 64"
  shows "memmove m dst src n
    = (\<lambda>x. if in_area dst (unat n) x then m (x + (src - dst)) else m x)"
proof -
  have n: "unat (ucast n :: u64) = unat n" 
    using unsigned_less [of n, where 'a = nat] by (simp add: unsigned_ucast_eq take_bit_nat_eq_self)
  have n64: "unat n \<le> 2 ^ 64" using assms by simp
  have nn: "(of_nat (unat n) :: u64) = ucast n" by simp
  have sd: "src + ucast n - (dst + ucast n) = src - dst" by simp
  consider "n = 0" | "n \<noteq> 0" "src < dst" "dst < src + ucast n"
    | "n \<noteq> 0" "\<not> (src < dst \<and> dst < src + ucast n)" by blast
  then show ?thesis
  proof cases
    case 1 then show ?thesis by (simp add: memmove_def)
  next
    case 2
    then have "unat n \<le> unat ((src + ucast n) - (dst + ucast n))"
      using assms(1) word_less_diff_unat [OF 2(2)] by simp
    then have "copy_down (unat n) (dst + ucast n) (src + ucast n) m
      = (\<lambda>x. if in_area dst (unat n) x then m (x + (src - dst)) else m x)"
      using copy_down_eq [of "unat n" "dst + ucast n" "src + ucast n" m, unfolded sd] n64 nn
      by simp
    then show ?thesis using 2 by (simp add: memmove_def)
  next
    case 3
    have "dst = src \<or> unat n \<le> unat (dst - src)"
    proof (cases "src < dst")
      case True
      show ?thesis
      proof (cases "unat src + unat n = 2 ^ 64")
        case True
        then show ?thesis using \<open>src < dst\<close> assms(1) by (simp add: word_less_nat_alt)
      next
        case False
        then have "unat (src + ucast n) = unat src + unat n"
          using assms(2) n by (simp add: unat_word_ariths)
        then show ?thesis
          using 3 True word_less_diff_unat [OF True] by (auto simp: word_less_nat_alt)
      qed
    next
      case False
      then consider "dst = src" | "dst < src" by fastforce
      then show ?thesis
      proof cases
        case 2
        then have "unat n \<le> unat (dst - src)"
          using word_less_diff_unat(2) [OF 2] assms(2) by (simp add: word_less_nat_alt)
        then show ?thesis ..
      qed simp
    qed
    then have "copy_up (unat n) dst src m
      = (\<lambda>x. if in_area dst (unat n) x then m (x + (src - dst)) else m x)"
      using copy_up_eq [of "unat n" dst src m] n64 by simp
    then show ?thesis using 3 by (auto simp: memmove_def)
  qed
qed

section \<open>The string routines against the strings they handle\<close>

lemma cstr_Nil [simp]: "cstr [] = []"
  by (simp add: cstr_def)

lemma cstr_Cons [simp]: "cstr (c # s) = (if c = 0 then [] else c # cstr s)"
  by (simp add: cstr_def)

lemma cstr_no_NUL: "0 \<notin> set (cstr s)"
  by (induction s) auto

lemma strlen_eq: "0 \<in> set s \<Longrightarrow> strlen s = Inr (length (cstr s))"
  by (induction s) auto

text \<open>
  \<open>readable n s\<close>: the routine may look at \<open>s\<close> without leaving the array, because the string ends
  in it or it is at least \<open>n\<close> bytes long.
\<close>

definition readable :: "nat \<Rightarrow> u8 list \<Rightarrow> bool" where
  "readable n s \<longleftrightarrow> n \<le> length s \<or> 0 \<in> set s"

lemma strncmp_0_iff:
  "readable n p \<Longrightarrow> readable n q \<Longrightarrow>
     (\<exists>r. strncmp p q n = Inr r) \<and> (strncmp p q n = Inr 0 \<longleftrightarrow> take n (cstr p) = take n (cstr q))"
proof (induction p q n rule: strncmp.induct)
  case (2 a p b q n)
  then show ?case
    by (cases "a \<noteq> 0 \<and> a = b") (auto simp: readable_def uint_0_iff dest: unsigned_word_eqI)
qed (auto simp: readable_def)

lemma strncpy_fill_eq:
  "n \<le> length s \<Longrightarrow> strncpy_fill s n = Inr (replicate n 0 @ drop n s)"
  by (induction s n rule: strncpy_fill.induct) auto

lemma strncpy_eq:
  assumes "n \<le> length s" and "readable n t"
  shows "strncpy s t n = Inr (take n (cstr t) @ replicate (n - length (cstr t)) 0 @ drop n s)"
  using assms
proof (induction s t n rule: strncpy.induct)
  case (2 x s c t n)
  then show ?case
    by (cases "c = 0") (auto simp: readable_def strncpy_fill_eq)
qed (auto simp: readable_def)

lemma safestrcpy_loop_eq:
  assumes "n < length s" and "readable n t"
  shows "\<exists>r. safestrcpy_loop s t n = Inr r \<and> length r = length s \<and> cstr r = take n (cstr t)
    \<and> 0 \<in> set (take (Suc n) r)"
  using assms
proof (induction s t n rule: safestrcpy_loop.induct)
  case (2 x s c t n)
  show ?case
  proof (cases "c = 0")
    case True
    then show ?thesis using 2 by (cases s) auto
  next
    case False
    then have "readable n t" using 2 by (auto simp: readable_def)
    then obtain r where "safestrcpy_loop s t n = Inr r" "length r = length s"
      "cstr r = take n (cstr t)" "0 \<in> set (take (Suc n) r)"
      using 2 False by auto
    then show ?thesis using False by simp
  qed
qed (auto simp: readable_def)

lemma cstr_take_NUL: "0 \<notin> set s \<Longrightarrow> cstr (s @ replicate k 0 @ t) = (if k = 0 then s @ cstr t else s)"
  by (induction s) (auto simp: cstr_def takeWhile_replicate takeWhile_append split: if_splits)

section \<open>Properties\<close>

text \<open>C19: \<^verbatim>\<open>memmove\<close> copies as if through a third area: afterwards the \<open>n\<close> bytes at the destination
  are the \<open>n\<close> bytes that were at the source before the call, and every other byte of memory is
  unchanged, also when the two areas overlap in either direction.
\<close>

theorem memmove_copies:
  assumes "unat dst + unat n \<le> 2 ^ 64" and "unat src + unat n \<le> 2 ^ 64"
  shows "(\<forall>i < unat n. memmove m dst src n (dst + of_nat i) = m (src + of_nat i)) \<and>
    (\<forall>x. unat n \<le> unat (x - dst) \<longrightarrow> memmove m dst src n x = m x)"
proof -
  have "in_area dst (unat n) (dst + of_nat i)" if "i < unat n" for i
    using that unsigned_less [of n, where 'a = nat] by (auto simp: in_area_conv)
  then show ?thesis by (auto simp: memmove_eq [OF assms] in_area_def algebra_simps)
qed

theorem memmove_copies_witness:
  "memmove (\<lambda>x. ucast x) 101 100 4 104 = 103 \<and> memmove (\<lambda>x. ucast x) 101 100 4 105 = 105"
proof -
  have h: "(\<forall>i < unat (4 :: u32). memmove (\<lambda>x. ucast x) 101 100 4 (101 + of_nat i)
      = ucast (100 + of_nat i :: u64)) \<and>
    (\<forall>x. unat (4 :: u32) \<le> unat (x - 101) \<longrightarrow> memmove (\<lambda>x. ucast x) 101 100 4 x = ucast x)"
    by (rule memmove_copies) simp_all
  show ?thesis
    using h [THEN conjunct1, rule_format, of 3] h [THEN conjunct2, rule_format, of 105] by simp
qed

text \<open>C20: a name stored with \<^verbatim>\<open>strncpy\<close> in a field of \<open>n\<close> bytes is found again by \<^verbatim>\<open>strncmp\<close>, and a
  second name compares equal to the field exactly when its first \<open>n\<close> bytes are those of the name
  stored. Neither routine leaves its arrays. This is what directory entries rely on.
\<close>

theorem strncpy_then_strncmp:
  assumes "length field = n" and "readable n name" and "readable n other"
  shows "\<exists>r. strncpy field name n = Inr r \<and> length r = n \<and> strncmp name r n = Inr 0 \<and>
    (strncmp other r n = Inr 0 \<longleftrightarrow> take n (cstr other) = take n (cstr name))"
proof -
  define r where "r = take n (cstr name) @ replicate (n - length (cstr name)) 0"
  have r: "strncpy field name n = Inr r" "length r = n"
    using strncpy_eq [of n field name] assms by (auto simp: r_def)
  have "0 \<notin> set (take n (cstr name))" using cstr_no_NUL [of name] by (auto dest: in_set_takeD)
  then have "take n (cstr r) = take n (cstr name)"
    using cstr_take_NUL [of "take n (cstr name)" "n - length (cstr name)" "[]"]
    by (simp add: r_def split: if_splits)
  moreover have "readable n r" using r(2) by (simp add: readable_def)
  ultimately show ?thesis
    using r strncmp_0_iff [of n name r] strncmp_0_iff [of n other r] assms by auto
qed

theorem strncpy_then_strncmp_witness:
  "\<exists>r. strncpy [7, 7, 7] [1, 2, 0] 3 = Inr r \<and> length r = 3 \<and> strncmp [1, 2, 0] r 3 = Inr 0 \<and>
    (strncmp [1, 0] r 3 = Inr 0 \<longleftrightarrow> take 3 (cstr [1, 0]) = take 3 (cstr [1, 2, 0]))"
  by (rule strncpy_then_strncmp) (simp_all add: readable_def)

text \<open>C21: \<^verbatim>\<open>safestrcpy\<close> into a buffer of \<open>n\<close> bytes always leaves a NUL-terminated string there: the
  first \<open>n - 1\<close> bytes of the source string, never writing outside the buffer.
\<close>

theorem safestrcpy_terminates_string:
  assumes "0 < n" and "n \<le> length s" and "readable (n - 1) t"
  shows "\<exists>r. safestrcpy s t (int n) = Inr r \<and> length r = length s \<and>
    cstr r = take (n - 1) (cstr t) \<and> 0 \<in> set (take n r)"
proof -
  have "nat (int n - 1) = n - 1" and "n - 1 < length s" and "Suc (n - 1) = n"
    using assms by auto
  then show ?thesis
    using safestrcpy_loop_eq [of "n - 1" s t] assms by (simp add: safestrcpy_def)
qed

theorem safestrcpy_terminates_string_witness:
  "\<exists>r. safestrcpy [9, 9, 9] [1, 2, 3, 4] (int 3) = Inr r \<and> length r = length [9, 9, 9 :: u8] \<and>
    cstr r = take (3 - 1) (cstr [1, 2, 3, 4]) \<and> 0 \<in> set (take 3 r)"
  by (rule safestrcpy_terminates_string) (simp_all add: readable_def)

end
