(* ===== verification/Spinlock.thy ===== *)
theory Spinlock
  imports Prelude
begin

text \<open>
  Spin locks, \<^verbatim>\<open>kernel/spinlock.c\<close>, with the interrupt nesting of \<^verbatim>\<open>push_off\<close>/\<^verbatim>\<open>pop_off\<close>.

  The first part follows the C code on the lock words and the per-CPU fields (\<open>lkstate\<close>): the
  functions run on one CPU, a lock that another CPU holds makes \<^verbatim>\<open>acquire\<close> spin
  (\<open>Blocked ''spin''\<close>). The second part is the interleaving of all CPUs on one lock as a step
  relation, for mutual exclusion. The third part is the abstraction the rest of the kernel is
  modelled over: a kernel thread carries the list \<open>held\<close> of the locks it holds (\<open>lk_acquire\<close>,
  \<open>lk_release\<close>); locale \<open>lock_iface\<close> is the contract, interpreted on both levels, and
  \<open>view_acquire\<close>/\<open>view_release\<close> state the refinement between them.
\<close>

section \<open>The lock words and the CPU fields\<close>

record spinlock =
  locked :: bool
  lname :: string
  lcpu :: "nat option"

record cpu =
  noff :: int
  intena :: bool

text \<open>\<open>sie c\<close> is the SIE bit of CPU \<open>c\<close>'s \<^verbatim>\<open>sstatus\<close>: device interrupts enabled.\<close>

record 'l lkstate =
  locks :: "'l \<Rightarrow> spinlock"
  cpus :: "nat \<Rightarrow> cpu"
  sie :: "nat \<Rightarrow> bool"

definition initlock :: "'l \<Rightarrow> string \<Rightarrow> 'l lkstate \<Rightarrow> 'l lkstate" where
  "initlock lk name s =
     s\<lparr>locks := (locks s)(lk := \<lparr>locked = False, lname = name, lcpu = None\<rparr>)\<rparr>"

definition intr_get :: "nat \<Rightarrow> 'l lkstate \<Rightarrow> bool" where
  "intr_get c s = sie s c"

definition intr_on :: "nat \<Rightarrow> 'l lkstate \<Rightarrow> 'l lkstate" where
  "intr_on c s = s\<lparr>sie := (sie s)(c := True)\<rparr>"

definition intr_off :: "nat \<Rightarrow> 'l lkstate \<Rightarrow> 'l lkstate" where
  "intr_off c s = s\<lparr>sie := (sie s)(c := False)\<rparr>"

definition holding :: "nat \<Rightarrow> 'l \<Rightarrow> 'l lkstate \<Rightarrow> bool" where
  "holding c lk s \<longleftrightarrow> locked (locks s lk) \<and> lcpu (locks s lk) = Some c"

definition push_off :: "nat \<Rightarrow> 'l lkstate \<Rightarrow> 'l lkstate" where
  "push_off c s =
     (let old = intr_get c s;
          s1 = intr_off c s;
          s2 = (if noff (cpus s1 c) = 0
                then s1\<lparr>cpus := (cpus s1)(c := (cpus s1 c)\<lparr>intena := old\<rparr>)\<rparr> else s1)
      in s2\<lparr>cpus := (cpus s2)(c := (cpus s2 c)\<lparr>noff := noff (cpus s2 c) + 1\<rparr>)\<rparr>)"

definition pop_off :: "nat \<Rightarrow> 'l lkstate \<Rightarrow> 'l lkstate res" where
  "pop_off c s =
     (if intr_get c s then Inl (Panic ''pop_off - interruptible'')
      else if noff (cpus s c) < 1 then Inl (Panic ''pop_off'')
      else let s1 = s\<lparr>cpus := (cpus s)(c := (cpus s c)\<lparr>noff := noff (cpus s c) - 1\<rparr>)\<rparr>
           in Inr (if noff (cpus s1 c) = 0 \<and> intena (cpus s1 c) then intr_on c s1 else s1))"

definition acquire :: "nat \<Rightarrow> 'l \<Rightarrow> 'l lkstate \<Rightarrow> 'l lkstate res" where
  "acquire c lk s =
     (let s1 = push_off c s in
      if holding c lk s1 then Inl (Panic ''acquire'')
      else if locked (locks s1 lk) then Inl (Blocked ''spin'')
      else Inr (s1\<lparr>locks := (locks s1)(lk := (locks s1 lk)\<lparr>locked := True, lcpu := Some c\<rparr>)\<rparr>))"

definition release :: "nat \<Rightarrow> 'l \<Rightarrow> 'l lkstate \<Rightarrow> 'l lkstate res" where
  "release c lk s =
     (if \<not> holding c lk s then Inl (Panic ''release'')
      else pop_off c (s\<lparr>locks := (locks s)(lk := (locks s lk)\<lparr>lcpu := None, locked := False\<rparr>)\<rparr>))"

section \<open>All CPUs on one lock\<close>

text \<open>
  The accesses of \<^verbatim>\<open>acquire\<close> and \<^verbatim>\<open>release\<close> to the shared words, one step each: the check of
  \<^verbatim>\<open>holding\<close>, the atomic swap (which either finds 0 and wins or finds 1 and retries), the store
  of \<^verbatim>\<open>lk->cpu\<close>; then in \<^verbatim>\<open>release\<close> the check, the store of 0 to \<^verbatim>\<open>lk->cpu\<close>, the atomic
  store of 0 to \<^verbatim>\<open>lk->locked\<close>. \<open>Panicked\<close> is where a failing check leads.
\<close>

datatype lkpc = Outside | Checked | Won | Critical | Leaving | Cleared | Panicked

record race =
  word :: bool
  owner :: "nat option"
  pc :: "nat \<Rightarrow> lkpc"

definition race_init :: race where
  "race_init = \<lparr>word = False, owner = None, pc = (\<lambda>_. Outside)\<rparr>"

inductive race_step :: "race \<Rightarrow> race \<Rightarrow> bool" where
  acq_check: "pc s c = Outside \<Longrightarrow>
     race_step s (s\<lparr>pc := (pc s)(c := if word s \<and> owner s = Some c then Panicked else Checked)\<rparr>)"
| acq_swap_lost: "pc s c = Checked \<Longrightarrow> word s \<Longrightarrow> race_step s s"
| acq_swap_won: "pc s c = Checked \<Longrightarrow> \<not> word s \<Longrightarrow>
     race_step s (s\<lparr>word := True, pc := (pc s)(c := Won)\<rparr>)"
| acq_owner: "pc s c = Won \<Longrightarrow> race_step s (s\<lparr>owner := Some c, pc := (pc s)(c := Critical)\<rparr>)"
| rel_check: "pc s c = Critical \<Longrightarrow>
     race_step s (s\<lparr>pc := (pc s)(c := if word s \<and> owner s = Some c then Leaving else Panicked)\<rparr>)"
| rel_owner: "pc s c = Leaving \<Longrightarrow> race_step s (s\<lparr>owner := None, pc := (pc s)(c := Cleared)\<rparr>)"
| rel_word: "pc s c = Cleared \<Longrightarrow> race_step s (s\<lparr>word := False, pc := (pc s)(c := Outside)\<rparr>)"

inductive race_reach :: "race \<Rightarrow> bool" where
  race_start: "race_reach race_init"
| race_next: "race_reach s \<Longrightarrow> race_step s t \<Longrightarrow> race_reach t"

definition in_lock :: "lkpc \<Rightarrow> bool" where
  "in_lock p \<longleftrightarrow> p \<in> {Won, Critical, Leaving, Cleared}"

text \<open>
  The invariant: no check has failed, and either the word is 0, no CPU is between winning the
  swap and storing 0 and there is no owner, or one CPU is there alone, and it is the owner
  exactly between its two stores to \<^verbatim>\<open>lk->cpu\<close>.
\<close>

definition holds_alone :: "race \<Rightarrow> nat \<Rightarrow> bool" where
  "holds_alone s c \<longleftrightarrow> in_lock (pc s c) \<and> (\<forall>d. d \<noteq> c \<longrightarrow> \<not> in_lock (pc s d)) \<and>
     owner s = (if pc s c \<in> {Critical, Leaving} then Some c else None)"

definition race_inv :: "race \<Rightarrow> bool" where
  "race_inv s \<longleftrightarrow> (\<forall>c. pc s c \<noteq> Panicked) \<and>
     (if word s then \<exists>c. holds_alone s c else owner s = None \<and> (\<forall>c. \<not> in_lock (pc s c)))"

lemma in_lock_simps [simp]:
  "in_lock Won" "in_lock Critical" "in_lock Leaving" "in_lock Cleared"
  "\<not> in_lock Outside" "\<not> in_lock Checked" "\<not> in_lock Panicked"
  by (simp_all add: in_lock_def)

lemma race_inv_init: "race_inv race_init"
  by (simp add: race_inv_def race_init_def)

lemma race_inv_alone:
  "race_inv s \<Longrightarrow> in_lock (pc s c) \<Longrightarrow> word s \<and> holds_alone s c \<and> (\<forall>d. pc s d \<noteq> Panicked)"
proof -
  assume inv: "race_inv s" and c: "in_lock (pc s c)"
  then obtain d where d: "word s" "holds_alone s d" by (auto simp: race_inv_def split: if_splits)
  then have "d = c" using c unfolding holds_alone_def by metis
  with d inv show ?thesis by (simp add: race_inv_def)
qed

lemma race_invI: "holds_alone s c \<Longrightarrow> word s \<Longrightarrow> (\<And>d. pc s d \<noteq> Panicked) \<Longrightarrow> race_inv s"
  by (auto simp: race_inv_def)

lemma race_inv_other:
  assumes "race_inv s" "\<not> in_lock (pc s c)" "\<not> in_lock p" "p \<noteq> Panicked"
  shows "race_inv (s\<lparr>pc := (pc s)(c := p)\<rparr>)"
proof (cases "word s")
  case True
  then obtain d where "holds_alone s d" using assms(1) by (auto simp: race_inv_def)
  with assms True show ?thesis
    by (intro race_invI [of _ d]) (auto simp: race_inv_def holds_alone_def)
next
  case False
  with assms show ?thesis by (simp add: race_inv_def)
qed

lemma race_inv_step: "race_step s t \<Longrightarrow> race_inv s \<Longrightarrow> race_inv t"
proof (induction rule: race_step.induct)
  case (acq_check s c)
  have "\<not> (word s \<and> owner s = Some c)"
  proof
    assume o: "word s \<and> owner s = Some c"
    then obtain d where "holds_alone s d" using acq_check by (auto simp: race_inv_def)
    with o acq_check(1) show False by (auto simp: holds_alone_def split: if_splits)
  qed
  with acq_check show ?case using race_inv_other [of s c Checked] by auto
next
  case (acq_swap_lost s c)
  then show ?case by simp
next
  case (acq_swap_won s c)
  then show ?case by (intro race_invI [of _ c]) (auto simp: race_inv_def holds_alone_def)
next
  case (acq_owner s c)
  show ?case using race_inv_alone [OF acq_owner(2), of c] acq_owner(1)
    by (intro race_invI [of _ c]) (auto simp: holds_alone_def)
next
  case (rel_check s c)
  show ?case using race_inv_alone [OF rel_check(2), of c] rel_check(1)
    by (intro race_invI [of _ c]) (auto simp: holds_alone_def)
next
  case (rel_owner s c)
  show ?case using race_inv_alone [OF rel_owner(2), of c] rel_owner(1)
    by (intro race_invI [of _ c]) (auto simp: holds_alone_def)
next
  case (rel_word s c)
  show ?case using race_inv_alone [OF rel_word(2), of c] rel_word(1)
    by (auto simp: race_inv_def holds_alone_def)
qed

lemma race_reach_inv: "race_reach s \<Longrightarrow> race_inv s"
  by (induction rule: race_reach.induct) (auto intro: race_inv_init race_inv_step)


section \<open>The locks a kernel thread holds\<close>

datatype lockid =
    L_kmem | L_pid | L_wait | L_tick | L_bcache | L_itable | L_ftable | L_log | L_cons | L_uart
  | L_pr | L_vdisk | L_proc nat | L_pipe u64 | L_sleeplock string nat

record kbase =
  held :: "lockid list"

definition lk_acquire :: "lockid \<Rightarrow> 'z kbase_scheme \<Rightarrow> 'z kbase_scheme res" where
  "lk_acquire lk s =
     (if lk \<in> set (held s) then Inl (Panic ''acquire'') else Inr (s\<lparr>held := lk # held s\<rparr>))"

definition lk_release :: "lockid \<Rightarrow> 'z kbase_scheme \<Rightarrow> 'z kbase_scheme res" where
  "lk_release lk s =
     (if lk \<in> set (held s) then Inr (s\<lparr>held := remove1 lk (held s)\<rparr>) else Inl (Panic ''release''))"

definition lk_holding :: "lockid \<Rightarrow> 'z kbase_scheme \<Rightarrow> bool" where
  "lk_holding lk s \<longleftrightarrow> lk \<in> set (held s)"

text \<open>
  The contract: an acquire of a free lock returns and adds exactly that lock, an acquire of a
  lock already held panics, a release gives up exactly that lock, a release of another panics.
\<close>

locale lock_iface =
  fixes acq rel :: "'l \<Rightarrow> 's \<Rightarrow> 's res"
    and hold :: "'l \<Rightarrow> 's \<Rightarrow> bool"
    and free :: "'l \<Rightarrow> 's \<Rightarrow> bool"
    and ok :: "'s \<Rightarrow> bool"
  assumes acq_free: "ok s \<Longrightarrow> free l s \<Longrightarrow> \<exists>s'. acq l s = Inr s' \<and> ok s' \<and>
            (\<forall>k. hold k s' \<longleftrightarrow> k = l \<or> hold k s) \<and> (\<forall>k. k \<noteq> l \<longrightarrow> free k s' = free k s)"
    and acq_held: "ok s \<Longrightarrow> hold l s \<Longrightarrow> acq l s = Inl (Panic ''acquire'')"
    and rel_held: "ok s \<Longrightarrow> hold l s \<Longrightarrow> \<exists>s'. rel l s = Inr s' \<and> ok s' \<and>
            (\<forall>k. hold k s' \<longleftrightarrow> k \<noteq> l \<and> hold k s) \<and> free l s'"
    and rel_other: "\<not> hold l s \<Longrightarrow> rel l s = Inl (Panic ''release'')"
    and free_not_held: "free l s \<Longrightarrow> \<not> hold l s"
begin

lemma critical_section:
  assumes "ok s" "free l s"
  shows "\<exists>s'. bindE (acq l s) (rel l) = Inr s' \<and> ok s' \<and> (\<forall>k. hold k s' = hold k s) \<and> free l s'"
proof -
  obtain t where t: "acq l s = Inr t" "ok t" "\<forall>k. hold k t \<longleftrightarrow> k = l \<or> hold k s"
    using acq_free [OF assms] by blast
  then obtain u where "rel l t = Inr u" "ok u" "\<forall>k. hold k u \<longleftrightarrow> k \<noteq> l \<and> hold k t" "free l u"
    using rel_held [of t l] by blast
  then show ?thesis using t free_not_held [OF assms(2)] by auto
qed

lemma crossed_sections:
  assumes "ok s" "free a s" "free b s" "a \<noteq> b"
  shows "\<exists>s'. bindE (bindE (bindE (acq a s) (acq b)) (rel a)) (rel b) = Inr s' \<and> ok s' \<and>
              (\<forall>k. hold k s' = hold k s)"
proof -
  obtain t where t: "acq a s = Inr t" "ok t" "\<forall>k. hold k t \<longleftrightarrow> k = a \<or> hold k s" "free b t"
    using acq_free [OF assms(1,2)] assms(3,4) by metis
  obtain u where u: "acq b t = Inr u" "ok u" "\<forall>k. hold k u \<longleftrightarrow> k = b \<or> hold k t"
    using acq_free [OF t(2,4)] by blast
  obtain v where v: "rel a u = Inr v" "ok v" "\<forall>k. hold k v \<longleftrightarrow> k \<noteq> a \<and> hold k u"
    using rel_held [of u a] t u by auto
  obtain w where "rel b v = Inr w" "ok w" "\<forall>k. hold k w \<longleftrightarrow> k \<noteq> b \<and> hold k v"
    using rel_held [of v b] u v assms(4) by auto
  then show ?thesis
    using t u v free_not_held [OF assms(2)] free_not_held [OF assms(3)] by auto
qed

end

interpretation klk: lock_iface lk_acquire lk_release lk_holding
  "\<lambda>l s. l \<notin> set (held s)" "\<lambda>s. distinct (held s)"
  by unfold_locales
    (auto simp: lk_acquire_def lk_release_def lk_holding_def)

section \<open>The C code implements the contract\<close>

text \<open>
  \<open>view c s h\<close>: the lock words and CPU fields of \<open>s\<close> show CPU \<open>c\<close> holding exactly the locks
  of \<open>h\<close>, \<^verbatim>\<open>noff\<close> counts them, and interrupts are off while there is one.
\<close>

definition view :: "nat \<Rightarrow> 'l lkstate \<Rightarrow> 'l list \<Rightarrow> bool" where
  "view c s h \<longleftrightarrow> distinct h \<and> set h = {lk. holding c lk s} \<and> noff (cpus s c) = int (length h) \<and>
     (h \<noteq> [] \<longrightarrow> \<not> sie s c)"

lemmas spin_defs = acquire_def release_def push_off_def pop_off_def holding_def intr_get_def
  intr_on_def intr_off_def Let_def

lemma view_acquire:
  "view c s h \<Longrightarrow> \<not> locked (locks s lk) \<Longrightarrow>
   \<exists>s'. acquire c lk s = Inr s' \<and> view c s' (lk # h) \<and>
        intena (cpus s' c) = (if h = [] then sie s c else intena (cpus s c)) \<and>
        (\<forall>k. k \<noteq> lk \<longrightarrow> locks s' k = locks s k) \<and> (\<forall>d. d \<noteq> c \<longrightarrow> cpus s' d = cpus s d \<and> sie s' d = sie s d)"
  by (auto simp: view_def spin_defs)

lemma view_acquire_again:
  "view c s h \<Longrightarrow> lk \<in> set h \<Longrightarrow> acquire c lk s = Inl (Panic ''acquire'')"
  by (auto simp: view_def spin_defs)

lemma acquire_other:
  "locked (locks s lk) \<Longrightarrow> lcpu (locks s lk) \<noteq> Some c \<Longrightarrow> acquire c lk s = Inl (Blocked ''spin'')"
  by (auto simp: spin_defs)

lemma view_release:
  assumes "view c s h" "lk \<in> set h"
  shows "\<exists>s'. release c lk s = Inr s' \<and> view c s' (remove1 lk h) \<and> \<not> locked (locks s' lk) \<and>
        intena (cpus s' c) = intena (cpus s c) \<and> (remove1 lk h = [] \<longrightarrow> sie s' c = intena (cpus s c)) \<and>
        (\<forall>k. k \<noteq> lk \<longrightarrow> locks s' k = locks s k) \<and> (\<forall>d. d \<noteq> c \<longrightarrow> cpus s' d = cpus s d \<and> sie s' d = sie s d)"
proof -
  have n: "0 < length h" "h \<noteq> []" using assms(2) by auto
  then have l: "int (length (remove1 lk h)) = int (length h) - 1"
    using assms(2) by (simp add: length_remove1 of_nat_diff Suc_le_eq)
  have e: "remove1 lk h = [] \<longleftrightarrow> int (length h) - 1 = 0"
    using l by (metis int_eq_iff length_0_conv of_nat_0_eq_iff)
  show ?thesis
    using assms n by (auto simp: view_def spin_defs l e)
qed

interpretation spin: lock_iface "acquire c" "release c" "holding c"
  "\<lambda>l s. \<not> locked (locks s l)" "\<lambda>s. \<exists>h. view c s h" for c
proof
  fix s :: "'a lkstate" and l
  assume "\<exists>h. view c s h" and f: "\<not> locked (locks s l)"
  then obtain h where h: "view c s h" by blast
  obtain s' where s': "acquire c l s = Inr s'" "view c s' (l # h)" "\<forall>k. k \<noteq> l \<longrightarrow> locks s' k = locks s k"
    using view_acquire [OF h f] by blast
  have "holding c k s' \<longleftrightarrow> k = l \<or> holding c k s" for k
    using s'(2) h by (auto simp: view_def)
  then show "\<exists>s'. acquire c l s = Inr s' \<and> (\<exists>h. view c s' h) \<and>
      (\<forall>k. holding c k s' \<longleftrightarrow> k = l \<or> holding c k s) \<and>
      (\<forall>k. k \<noteq> l \<longrightarrow> (\<not> locked (locks s' k)) = (\<not> locked (locks s k)))"
    using s' by (intro exI [of _ s']) auto
next
  fix s :: "'a lkstate" and l
  assume "\<exists>h. view c s h" "holding c l s"
  then show "acquire c l s = Inl (Panic ''acquire'')"
    using view_acquire_again by (fastforce simp: view_def)
next
  fix s :: "'a lkstate" and l
  assume "\<exists>h. view c s h" and hl: "holding c l s"
  then obtain h where h: "view c s h" by blast
  with hl have "l \<in> set h" by (auto simp: view_def)
  from view_release [OF h this] obtain s' where s': "release c l s = Inr s'"
    "view c s' (remove1 l h)" "\<not> locked (locks s' l)" by blast
  have "holding c k s' \<longleftrightarrow> k \<noteq> l \<and> holding c k s" for k
    using s'(2) h by (auto simp: view_def)
  then show "\<exists>s'. release c l s = Inr s' \<and> (\<exists>h. view c s' h) \<and>
      (\<forall>k. holding c k s' \<longleftrightarrow> k \<noteq> l \<and> holding c k s) \<and> \<not> locked (locks s' l)"
    using s' by (intro exI [of _ s']) auto
qed (auto simp: release_def holding_def)

section \<open>Properties\<close>

text \<open>C18: Interrupt nesting. From a CPU that holds no lock, two nested critical sections, released
  in either order, run to the end without a panic; interrupts are off while a lock is held and
  at the end are on again exactly if they were on at the start, with no lock held.\<close>

theorem push_off_nesting:
  assumes "view c s []" "\<not> locked (locks s a)" "\<not> locked (locks s b)" "a \<noteq> b" "x = a \<and> y = b \<or> x = b \<and> y = a"
  shows "\<exists>s1 s2 s3 s4. acquire c a s = Inr s1 \<and> acquire c b s1 = Inr s2 \<and> release c x s2 = Inr s3 \<and>
           release c y s3 = Inr s4 \<and> \<not> sie s1 c \<and> \<not> sie s2 c \<and> \<not> sie s3 c \<and>
           sie s4 = sie s \<and> view c s4 []"
proof -
  obtain s1 where s1: "acquire c a s = Inr s1" "view c s1 [a]" "intena (cpus s1 c) = sie s c"
      "\<not> locked (locks s1 b)" "\<forall>d. d \<noteq> c \<longrightarrow> sie s1 d = sie s d"
    using view_acquire [OF assms(1,2)] assms(3,4) by auto
  obtain s2 where s2: "acquire c b s1 = Inr s2" "view c s2 [b, a]" "intena (cpus s2 c) = sie s c"
      "\<forall>d. d \<noteq> c \<longrightarrow> sie s2 d = sie s d"
    using view_acquire [OF s1(2,4)] s1(3,5) by auto
  have xy: "x \<in> set [b, a]" "remove1 x [b, a] = [y]" using assms(4,5) by auto
  obtain s3 where s3: "release c x s2 = Inr s3" "view c s3 [y]" "intena (cpus s3 c) = sie s c"
      "\<forall>d. d \<noteq> c \<longrightarrow> sie s3 d = sie s d"
    using view_release [OF s2(2) xy(1)] xy(2) s2(3,4) by auto
  obtain s4 where s4: "release c y s3 = Inr s4" "view c s4 []" "sie s4 c = sie s c"
      "\<forall>d. d \<noteq> c \<longrightarrow> sie s4 d = sie s d"
    using view_release [OF s3(2), of y] s3(3,4) by auto
  have "sie s4 = sie s" using s4(3,4) by (intro ext) metis
  then show ?thesis using s1 s2 s3 s4 by (auto simp: view_def)
qed

definition two_locks :: "bool lkstate" where
  "two_locks = \<lparr>locks = (\<lambda>_. \<lparr>locked = False, lname = ''l'', lcpu = None\<rparr>),
     cpus = (\<lambda>_. \<lparr>noff = 0, intena = False\<rparr>), sie = (\<lambda>_. True)\<rparr>"

theorem push_off_nesting_witness:
  "\<exists>s1 s2 s3 s4. acquire 0 True two_locks = Inr s1 \<and> acquire 0 False s1 = Inr s2 \<and>
     release 0 True s2 = Inr s3 \<and> release 0 False s3 = Inr s4 \<and> \<not> sie s1 0 \<and> \<not> sie s2 0 \<and>
     \<not> sie s3 0 \<and> sie s4 = sie two_locks \<and> view 0 s4 []"
  by (rule push_off_nesting) (auto simp: view_def two_locks_def holding_def)

text \<open>C14: Mutual exclusion. In every interleaving of any number of CPUs running the accesses of
  \<^verbatim>\<open>acquire\<close> and \<^verbatim>\<open>release\<close> on one lock, two CPUs are never in the critical section together,
  \<^verbatim>\<open>lk->cpu\<close> names the one inside, and neither of the two panics is ever reached.\<close>

theorem spinlock_mutual_exclusion:
  assumes "race_reach s"
  shows "\<exists>p. (\<forall>c. pc s c = Critical \<longrightarrow> c = p \<and> word s \<and> owner s = Some c) \<and> (\<forall>c. pc s c \<noteq> Panicked)"
proof -
  have inv: "race_inv s" using assms by (rule race_reach_inv)
  show ?thesis
  proof (cases "\<exists>c. pc s c = Critical")
    case True
    then obtain c where c: "pc s c = Critical" by blast
    then have "word s" "holds_alone s c" using race_inv_alone [OF inv, of c] by simp_all
    then show ?thesis using c inv by (intro exI [of _ c]) (auto simp: holds_alone_def race_inv_def)
  next
    case False
    then show ?thesis using inv by (simp add: race_inv_def)
  qed
qed

definition race_demo :: race where
  "race_demo = \<lparr>word = True, owner = Some 0, pc = ((\<lambda>_. Outside)(0 := Checked, 1 := Checked))
     (0 := Won, 0 := Critical)\<rparr>"

lemma race_demo_reach: "race_reach race_demo"
proof -
  let ?s1 = "race_init\<lparr>pc := (pc race_init)(0 := Checked)\<rparr>"
  let ?s2 = "?s1\<lparr>pc := (pc ?s1)(1 := Checked)\<rparr>"
  let ?s3 = "?s2\<lparr>word := True, pc := (pc ?s2)(0 := Won)\<rparr>"
  have 1: "race_reach ?s1"
    using race_next [OF race_start] acq_check [of race_init 0] by (simp add: race_init_def)
  have 2: "race_reach ?s2"
    using race_next [OF 1] acq_check [of ?s1 1] by (simp add: race_init_def)
  have 3: "race_reach ?s3"
    using race_next [OF 2] acq_swap_won [of ?s2 0] by (simp add: race_init_def)
  have "race_demo = ?s3\<lparr>owner := Some 0, pc := (pc ?s3)(0 := Critical)\<rparr>"
    by (simp add: race_demo_def race_init_def)
  then show ?thesis
    using race_next [OF 3] acq_owner [of ?s3 0] by (simp add: race_init_def)
qed

theorem spinlock_mutual_exclusion_witness:
  "\<exists>p. (\<forall>c. pc race_demo c = Critical \<longrightarrow> c = p \<and> word race_demo \<and> owner race_demo = Some c) \<and>
       (\<forall>c. pc race_demo c \<noteq> Panicked)"
  using spinlock_mutual_exclusion [OF race_demo_reach] .

end
