(* ===== verification/Kalloc.thy ===== *)
theory Kalloc
  imports Cstring Spinlock
begin

text \<open>
  The physical page allocator, \<^verbatim>\<open>kernel/kalloc.c\<close>. The free list is threaded through the free
  pages themselves (\<^verbatim>\<open>struct run\<close>): \<open>freelist\<close> is the head pointer and the \<^verbatim>\<open>next\<close> field of a run
  is the 64-bit word at its address in \<open>pmem\<close>.

  \<open>kmem_ok s xs\<close> is the representation invariant: following \<^verbatim>\<open>next\<close> from the head gives exactly
  the list \<open>xs\<close> of distinct valid pages. \<open>kalloc_spec\<close>, \<open>kfree_spec\<close> are the functional
  specifications, locale \<open>page_alloc\<close> the contract the clients rely on.
\<close>

section \<open>State and operations\<close>

text \<open>\<open>k_end\<close>, \<open>k_etext\<close> and \<open>k_trampoline\<close> are the addresses the linker script defines.\<close>

record kmach = kbase +
  pmem :: mem
  freelist :: u64
  k_end :: u64
  k_etext :: u64
  k_trampoline :: u64

definition kfree :: "u64 \<Rightarrow> 'z kmach_scheme \<Rightarrow> 'z kmach_scheme res" where
  "kfree pa s =
     (if pa mod PGSIZE \<noteq> 0 \<or> pa < k_end s \<or> PHYSTOP \<le> pa then Inl (Panic ''kfree'')
      else let s1 = s\<lparr>pmem := memset (pmem s) pa 1 4096\<rparr>
           in bindE (lk_acquire L_kmem s1) (\<lambda>s2.
                lk_release L_kmem (s2\<lparr>pmem := store64 (pmem s2) pa (freelist s2), freelist := pa\<rparr>)))"

definition kalloc :: "'z kmach_scheme \<Rightarrow> (u64 \<times> 'z kmach_scheme) res" where
  "kalloc s =
     bindE (lk_acquire L_kmem s) (\<lambda>s1.
       let r = freelist s1;
           s2 = (if r \<noteq> 0 then s1\<lparr>freelist := load64 (pmem s1) r\<rparr> else s1)
       in bindE (lk_release L_kmem s2) (\<lambda>s3.
            Inr (r, if r \<noteq> 0 then s3\<lparr>pmem := memset (pmem s3) r 5 4096\<rparr> else s3)))"

lemma kfree_guard: "kfree p s = Inr s' \<Longrightarrow> p < PHYSTOP \<and> page_aligned p \<and> k_end s \<le> p"
  by (auto simp: kfree_def page_aligned_mod split: if_splits)

lemma unat_add_PGSIZE: "p < PHYSTOP \<Longrightarrow> unat (p + PGSIZE) = unat p + 4096"
  by (simp add: PHYSTOP_def KERNBASE_def PGSIZE_def word_less_nat_alt unat_word_ariths)

text \<open>The loop only goes on after a \<^verbatim>\<open>kfree\<close> that did not panic, so \<^verbatim>\<open>p\<close> never wraps.\<close>

function freerange_loop :: "u64 \<Rightarrow> u64 \<Rightarrow> 'z kmach_scheme \<Rightarrow> 'z kmach_scheme res" where
  "freerange_loop p pa_end s =
     (if p + PGSIZE \<le> pa_end then bindE (kfree p s) (\<lambda>s'. freerange_loop (p + PGSIZE) pa_end s')
      else Inr s)"
  by pat_completeness auto
termination
  by (relation "measure (\<lambda>(p, e, s). 2 ^ 64 - unat p)")
    (auto dest!: kfree_guard simp: unat_add_PGSIZE PHYSTOP_def KERNBASE_def word_less_nat_alt)

declare freerange_loop.simps [simp del]

definition freerange :: "u64 \<Rightarrow> u64 \<Rightarrow> 'z kmach_scheme \<Rightarrow> 'z kmach_scheme res" where
  "freerange pa_start pa_end s = freerange_loop (PGROUNDUP pa_start) pa_end s"

definition kinit :: "'z kmach_scheme \<Rightarrow> 'z kmach_scheme res" where
  "kinit s = freerange (k_end s) PHYSTOP s"

section \<open>The free list\<close>

fun chain :: "mem \<Rightarrow> u64 \<Rightarrow> u64 list \<Rightarrow> bool" where
  "chain m r [] \<longleftrightarrow> r = 0"
| "chain m r (x # xs) \<longleftrightarrow> r = x \<and> chain m (load64 m x) xs"

definition ram_page :: "'z kmach_scheme \<Rightarrow> u64 \<Rightarrow> bool" where
  "ram_page s x \<longleftrightarrow> page_aligned x \<and> k_end s \<le> x \<and> x < PHYSTOP"

definition kmem_ok :: "'z kmach_scheme \<Rightarrow> u64 list \<Rightarrow> bool" where
  "kmem_ok s xs \<longleftrightarrow> 0 < k_end s \<and> distinct xs \<and> (\<forall>x \<in> set xs. ram_page s x) \<and>
     chain (pmem s) (freelist s) xs"

lemma ram_page_ne0: "ram_page s x \<Longrightarrow> 0 < k_end s \<Longrightarrow> x \<noteq> 0"
  by (auto simp: ram_page_def)

lemma chain_cong:
  "(\<And>x. x \<in> set xs \<Longrightarrow> load64 m x = load64 m' x) \<Longrightarrow> chain m r xs \<longleftrightarrow> chain m' r xs"
  by (induction xs arbitrary: r) auto

lemma chain_unique: "chain m r xs \<Longrightarrow> chain m r ys \<Longrightarrow> 0 \<notin> set xs \<Longrightarrow> 0 \<notin> set ys \<Longrightarrow> xs = ys"
proof (induction xs arbitrary: r ys)
  case Nil
  then show ?case by (cases ys) auto
next
  case (Cons x xs)
  then show ?case by (cases ys) auto
qed

lemma in_area_page: "page_aligned p \<Longrightarrow> in_area p 4096 x \<longleftrightarrow> PGROUNDDOWN x = p"
proof
  assume "page_aligned p" "in_area p 4096 x"
  then show "PGROUNDDOWN x = p"
    using PGROUNDDOWN_add [of p "x - p"] by (simp add: in_area_def)
next
  assume "page_aligned p" "PGROUNDDOWN x = p"
  then have "unat p = unat x div 4096 * 4096" and "p \<le> x"
    using unat_PGROUNDDOWN [of x] PGROUNDDOWN_le [of x] by auto
  then show "in_area p 4096 x"
    by (simp add: in_area_def unat_sub_if' word_le_nat_alt)
qed

lemma memset_page_other:
  "page_aligned p \<Longrightarrow> PGROUNDDOWN x \<noteq> p \<Longrightarrow> memset m p c 4096 x = m x"
  by (simp add: memset_eq in_area_page)

lemma memset_page_in:
  "page_aligned p \<Longrightarrow> PGROUNDDOWN x = p \<Longrightarrow> memset m p c 4096 x = ucast c"
  by (simp add: memset_eq in_area_page)

lemma load64_other_pages:
  "page_aligned p \<Longrightarrow> aligned8 a \<Longrightarrow> PGROUNDDOWN a \<noteq> p \<Longrightarrow>
   (\<And>x. PGROUNDDOWN x \<noteq> p \<Longrightarrow> m x = m' x) \<Longrightarrow> load64 m a = load64 m' a"
  by (rule load64_cong_page) auto

lemma chain_other_page:
  assumes "chain m r xs" "\<forall>x \<in> set xs. page_aligned x" "p \<notin> set xs" "page_aligned p"
    and "\<And>x. PGROUNDDOWN x \<noteq> p \<Longrightarrow> m x = m' x"
  shows "chain m' r xs"
proof -
  have "load64 m x = load64 m' x" if "x \<in> set xs" for x
    using that assms by (intro load64_other_pages [of p]) (auto simp: page_aligned8 PGROUNDDOWN_id)
  then show ?thesis using chain_cong assms(1) by blast
qed

section \<open>Functional specifications\<close>

text \<open>The states after a successful call, as functions of the state before.\<close>

definition kalloc_state :: "'z kmach_scheme \<Rightarrow> 'z kmach_scheme" where
  "kalloc_state s = s\<lparr>freelist := load64 (pmem s) (freelist s),
     pmem := memset (pmem s) (freelist s) 5 4096\<rparr>"

definition kfree_state :: "'z kmach_scheme \<Rightarrow> u64 \<Rightarrow> 'z kmach_scheme" where
  "kfree_state s pa = s\<lparr>pmem := store64 (memset (pmem s) pa 1 4096) pa (freelist s), freelist := pa\<rparr>"

lemma ram_page_more [simp]:
  "ram_page (s\<lparr>pmem := m\<rparr>) x = ram_page s x" "ram_page (s\<lparr>freelist := f\<rparr>) x = ram_page s x"
  "ram_page (s\<lparr>held := h\<rparr>) x = ram_page s x"
  by (simp_all add: ram_page_def)

lemma kalloc_empty: "kmem_ok s [] \<Longrightarrow> L_kmem \<notin> set (held s) \<Longrightarrow> kalloc s = Inr (0, s)"
  by (simp add: kalloc_def kmem_ok_def lk_acquire_def lk_release_def)

lemma kalloc_spec:
  assumes ok: "kmem_ok s (x # xs)" and lk: "L_kmem \<notin> set (held s)"
  shows "kalloc s = Inr (x, kalloc_state s)" and "kmem_ok (kalloc_state s) xs"
    and "ram_page s x" and "x \<notin> set xs"
    and "\<And>a. PGROUNDDOWN a \<noteq> x \<Longrightarrow> pmem (kalloc_state s) a = pmem s a"
    and "\<And>a. PGROUNDDOWN a = x \<Longrightarrow> pmem (kalloc_state s) a = 5"
proof -
  show x: "ram_page s x" and nx: "x \<notin> set xs" using ok by (auto simp: kmem_ok_def)
  have al: "page_aligned x" and f: "freelist s = x" and e: "0 < k_end s"
    using x ok by (auto simp: ram_page_def kmem_ok_def)
  then show "kalloc s = Inr (x, kalloc_state s)"
    using lk ram_page_ne0 [OF x e]
    by (simp add: kalloc_def kalloc_state_def lk_acquire_def lk_release_def)
  show mem: "pmem (kalloc_state s) a = pmem s a" if "PGROUNDDOWN a \<noteq> x" for a
    using that al by (simp add: kalloc_state_def f memset_page_other)
  show "pmem (kalloc_state s) a = 5" if "PGROUNDDOWN a = x" for a
    using that al by (simp add: kalloc_state_def f memset_page_in)
  have "chain (pmem s) (load64 (pmem s) x) xs" using ok by (simp add: kmem_ok_def)
  then have "chain (pmem (kalloc_state s)) (load64 (pmem s) x) xs"
    by (rule chain_other_page [OF _ _ nx al]) (use ok mem in \<open>auto simp: kmem_ok_def ram_page_def\<close>)
  then show "kmem_ok (kalloc_state s) xs"
    using ok by (simp add: kmem_ok_def kalloc_state_def f)
qed

lemma kfree_spec:
  assumes ok: "kmem_ok s xs" and lk: "L_kmem \<notin> set (held s)" and x: "ram_page s x" and nx: "x \<notin> set xs"
  shows "kfree x s = Inr (kfree_state s x)" and "kmem_ok (kfree_state s x) (x # xs)"
    and "\<And>a. PGROUNDDOWN a \<noteq> x \<Longrightarrow> pmem (kfree_state s x) a = pmem s a"
proof -
  have al: "page_aligned x" "aligned8 x" using x by (auto simp: ram_page_def page_aligned8)
  show "kfree x s = Inr (kfree_state s x)"
    using x lk by (simp add: kfree_def kfree_state_def ram_page_def page_aligned_mod
        lk_acquire_def lk_release_def not_less not_le)
  show mem: "pmem (kfree_state s x) a = pmem s a" if "PGROUNDDOWN a \<noteq> x" for a
    using that al by (simp add: kfree_state_def store64_other_page PGROUNDDOWN_id memset_page_other)
  have "chain (pmem (kfree_state s x)) (freelist s) xs"
    by (rule chain_other_page [OF _ _ nx al(1)]) (use ok mem in \<open>auto simp: kmem_ok_def ram_page_def\<close>)
  then show "kmem_ok (kfree_state s x) (x # xs)"
    using ok x nx by (simp add: kmem_ok_def kfree_state_def)
qed

lemma kfree_invalid: "\<not> ram_page s x \<Longrightarrow> kfree x s = Inl (Panic ''kfree'')"
  by (auto simp: ram_page_def kfree_def page_aligned_mod not_less not_le)

section \<open>The allocator contract\<close>

locale page_alloc =
  fixes alloc :: "'s \<Rightarrow> (u64 \<times> 's) res"
    and free :: "u64 \<Rightarrow> 's \<Rightarrow> 's res"
    and avail :: "'s \<Rightarrow> u64 list \<Rightarrow> bool"
    and valid :: "'s \<Rightarrow> u64 \<Rightarrow> bool"
  assumes alloc_none: "avail s [] \<Longrightarrow> alloc s = Inr (0, s)"
    and alloc_some: "avail s (x # xs) \<Longrightarrow> \<exists>s'. alloc s = Inr (x, s') \<and> avail s' xs \<and> valid s' = valid s"
    and free_page: "avail s xs \<Longrightarrow> valid s x \<Longrightarrow> x \<notin> set xs \<Longrightarrow>
          \<exists>s'. free x s = Inr s' \<and> avail s' (x # xs) \<and> valid s' = valid s"
    and avail_valid: "avail s xs \<Longrightarrow> distinct xs \<and> 0 \<notin> set xs \<and> (\<forall>x \<in> set xs. valid s x)"
begin

lemma alloc_free: "avail s (x # xs) \<Longrightarrow> \<exists>s'. bindE (alloc s) (\<lambda>(p, t). free p t) = Inr s' \<and> avail s' (x # xs)"
proof -
  assume a: "avail s (x # xs)"
  then obtain t where t: "alloc s = Inr (x, t)" "avail t xs" "valid t = valid s"
    using alloc_some by blast
  moreover have "valid s x" "x \<notin> set xs" using avail_valid [OF a] by auto
  ultimately show ?thesis using free_page [of t xs x] by auto
qed

lemma free_alloc:
  "avail s xs \<Longrightarrow> valid s x \<Longrightarrow> x \<notin> set xs \<Longrightarrow>
   \<exists>s'. bindE (free x s) alloc = Inr (x, s') \<and> avail s' xs"
  using free_page [of s xs x] alloc_some by fastforce

end

interpretation kmem: page_alloc kalloc kfree
  "\<lambda>s xs. kmem_ok s xs \<and> L_kmem \<notin> set (held s)" ram_page
proof
  fix s :: "'a kmach_scheme" and x xs
  show "kmem_ok s [] \<and> L_kmem \<notin> set (held s) \<Longrightarrow> kalloc s = Inr (0, s)"
    by (simp add: kalloc_empty)
  assume a: "kmem_ok s (x # xs) \<and> L_kmem \<notin> set (held s)"
  then show "\<exists>s'. kalloc s = Inr (x, s') \<and> (kmem_ok s' xs \<and> L_kmem \<notin> set (held s')) \<and> ram_page s' = ram_page s"
    using kalloc_spec [of s x xs] by (auto simp: kalloc_state_def ram_page_def fun_eq_iff)
next
  fix s :: "'a kmach_scheme" and x xs
  assume "kmem_ok s xs \<and> L_kmem \<notin> set (held s)" "ram_page s x" "x \<notin> set xs"
  then show "\<exists>s'. kfree x s = Inr s' \<and> (kmem_ok s' (x # xs) \<and> L_kmem \<notin> set (held s')) \<and> ram_page s' = ram_page s"
    using kfree_spec [of s xs x] by (auto simp: kfree_state_def ram_page_def fun_eq_iff)
next
  fix s :: "'a kmach_scheme" and xs
  assume "kmem_ok s xs \<and> L_kmem \<notin> set (held s)"
  then show "distinct xs \<and> 0 \<notin> set xs \<and> (\<forall>x \<in> set xs. ram_page s x)"
    using ram_page_ne0 by (auto simp: kmem_ok_def)
qed

section \<open>Booting the allocator\<close>

lemma ram_page_below_next:
  assumes "page_aligned p" "p < PHYSTOP" "k_end s \<le> p"
  shows "{x. ram_page s x \<and> x < p + PGSIZE} = insert p {x. ram_page s x \<and> x < p}"
proof -
  have "x < p + PGSIZE \<longleftrightarrow> x = p \<or> x < p" if "page_aligned x" for x
    using page_le_next [of "unat x" "unat p"] that assms(1) unat_add_PGSIZE [OF assms(2)]
    by (auto simp: word_less_nat_alt word_unat_eq_iff page_aligned_dvd)
  then show ?thesis using assms by (auto simp: ram_page_def)
qed

lemma freerange_loop_ok:
  assumes "kmem_ok s xs" "L_kmem \<notin> set (held s)" "set xs = {x. ram_page s x \<and> x < p}"
    "page_aligned p" "k_end s \<le> p" "p \<le> PHYSTOP"
  shows "\<exists>s' ys. freerange_loop p PHYSTOP s = Inr s' \<and> kmem_ok s' ys \<and> held s' = held s \<and>
           set ys = {x. ram_page s x} \<and> ram_page s' = ram_page s"
  using assms
proof (induction p PHYSTOP s arbitrary: xs rule: freerange_loop.induct)
  case (1 p s)
  show ?case
  proof (cases "p = PHYSTOP")
    case True
    have "\<not> PHYSTOP + PGSIZE \<le> PHYSTOP" by (simp add: PHYSTOP_def KERNBASE_def PGSIZE_def)
    then show ?thesis using 1(2-) True
      by (simp add: freerange_loop.simps [of PHYSTOP]) (auto simp: ram_page_def)
  next
    case False
    then have lt: "p < PHYSTOP" using 1(7) by simp
    then have pp: "ram_page s p" using 1(5,6) by (simp add: ram_page_def)
    have le: "p + PGSIZE \<le> PHYSTOP"
    proof -
      have "unat p + 4096 \<le> unat PHYSTOP"
        using lt page_le_next [of "unat PHYSTOP" "unat p"] 1(5)
        by (simp add: PHYSTOP_def KERNBASE_def word_less_nat_alt page_aligned_dvd)
      then show ?thesis using unat_add_PGSIZE [OF lt] by (simp add: word_le_nat_alt)
    qed
    have nx: "p \<notin> set xs" using 1(4) by simp
    note k = kfree_spec [OF 1(2,3) pp nx]
    have al': "page_aligned (p + PGSIZE)"
      using 1(5) unat_add_PGSIZE [OF lt] by (simp add: page_aligned_dvd)
    have "k_end s \<le> p + PGSIZE"
      using 1(6) unat_add_PGSIZE [OF lt] by (simp add: word_le_nat_alt)
    moreover have "ram_page (kfree_state s p) = ram_page s"
      by (simp add: kfree_state_def fun_eq_iff)
    moreover have "set (p # xs) = {x. ram_page s x \<and> x < p + PGSIZE}"
      using ram_page_below_next [OF 1(5) lt 1(6)] 1(4) by simp
    ultimately show ?thesis
      using 1(1) [OF le k(1) k(2)] 1(3) le al' k(1)
      by (simp add: freerange_loop.simps [of p] kfree_state_def)
  qed
qed

lemma kinit_ok:
  assumes "freelist s = 0" "L_kmem \<notin> set (held s)" "0 < k_end s" "k_end s \<le> PHYSTOP"
  shows "\<exists>s' ys. kinit s = Inr s' \<and> kmem_ok s' ys \<and> held s' = held s \<and> set ys = {x. ram_page s x}"
proof -
  have u: "unat (k_end s) + 4095 < 2 ^ 64"
    using assms(4) by (simp add: PHYSTOP_def KERNBASE_def word_le_nat_alt)
  note r = PGROUNDUP_le [OF u]
  have b: "k_end s \<le> PGROUNDUP (k_end s)" using r [of "PGROUNDUP (k_end s)"] by simp
  have "page_aligned PHYSTOP" by (simp add: page_aligned_dvd PHYSTOP_def KERNBASE_def)
  then have t: "PGROUNDUP (k_end s) \<le> PHYSTOP" using r assms(4) by blast
  have none: "\<not> (ram_page s x \<and> x < PGROUNDUP (k_end s))" for x
    using r [of x] by (auto simp: ram_page_def)
  have "kmem_ok s []" using assms by (simp add: kmem_ok_def)
  then show ?thesis
    using freerange_loop_ok [of s "[]" "PGROUNDUP (k_end s)"] assms b t none
    by (auto simp: kinit_def freerange_def)
qed

section \<open>Properties\<close>

text \<open>C16: Booting. \<^verbatim>\<open>kinit\<close> returns (its loop ends, no \<^verbatim>\<open>kfree\<close> panics) and leaves a free list that
  holds every page-aligned address of \<^verbatim>\<open>[end, PHYSTOP)\<close> exactly once.\<close>

theorem kinit_frees_all_ram:
  assumes "freelist s = 0" "L_kmem \<notin> set (held s)" "0 < k_end s" "k_end s \<le> PHYSTOP"
  shows "\<exists>s' ys. kinit s = Inr s' \<and> held s' = held s \<and> chain (pmem s') (freelist s') ys \<and> distinct ys \<and>
           set ys = {x. page_aligned x \<and> k_end s \<le> x \<and> x < PHYSTOP}"
  using kinit_ok [OF assms] by (auto simp: kmem_ok_def ram_page_def)

definition boot_mem :: kmach where
  "boot_mem = \<lparr>held = [], pmem = (\<lambda>_. 0), freelist = 0, k_end = 0x80021d60, k_etext = 0x80008000,
     k_trampoline = 0x80007000\<rparr>"

theorem kinit_frees_all_ram_witness:
  "\<exists>s' ys. kinit boot_mem = Inr s' \<and> held s' = held boot_mem \<and> chain (pmem s') (freelist s') ys \<and>
     distinct ys \<and> set ys = {x. page_aligned x \<and> k_end boot_mem \<le> x \<and> x < PHYSTOP}"
  by (rule kinit_frees_all_ram) (simp_all add: boot_mem_def PHYSTOP_def KERNBASE_def)

text \<open>A client of the allocator: it allocates, and frees pages it was given and still owns
  (the second component is the list of those).\<close>

datatype kop = Alloc | Free nat

fun kclient :: "kop list \<Rightarrow> 'z kmach_scheme \<Rightarrow> u64 list \<Rightarrow> ('z kmach_scheme \<times> u64 list) res" where
  "kclient [] s own = Inr (s, own)"
| "kclient (Alloc # ops) s own =
     bindE (kalloc s) (\<lambda>(r, s'). kclient ops s' (if r = 0 then own else r # own))"
| "kclient (Free i # ops) s own =
     (if i < length own then bindE (kfree (own ! i) s) (\<lambda>s'. kclient ops s' (remove1 (own ! i) own))
      else kclient ops s own)"

text \<open>C15: No page is handed out twice and none is lost. Whatever sequence of \<^verbatim>\<open>kalloc\<close> and \<^verbatim>\<open>kfree\<close>
  calls a client makes, freeing only what it owns, every call returns, the pages it owns are
  distinct and not on the free list, and owned and free pages together are the pages of the
  start.\<close>

theorem kalloc_kfree_exclusive:
  assumes "kmem_ok s xs" "L_kmem \<notin> set (held s)" "distinct own" "set own \<inter> set xs = {}"
    "\<forall>x \<in> set own. ram_page s x"
  shows "\<exists>s' own' ys. kclient ops s own = Inr (s', own') \<and> kmem_ok s' ys \<and> distinct own' \<and>
           set own' \<inter> set ys = {} \<and> set own' \<union> set ys = set own \<union> set xs"
  using assms
proof (induction ops s own arbitrary: xs rule: kclient.induct)
  case (1 s own)
  then show ?case by auto
next
  case (2 ops s own)
  show ?case
  proof (cases xs)
    case Nil
    have e: "kalloc s = Inr (0, s)" using 2(2,3) Nil kalloc_empty by simp
    show ?thesis using 2(1) [OF e refl, of "[]"] 2(2-) Nil e by simp
  next
    case (Cons x ys)
    have ok: "kmem_ok s (x # ys)" using 2(2) Cons by simp
    note k = kalloc_spec [OF ok 2(3)]
    have nz: "x \<noteq> 0" using k(3) ok ram_page_ne0 by (auto simp: kmem_ok_def)
    have "held (kalloc_state s) = held s" "ram_page (kalloc_state s) = ram_page s"
      by (simp_all add: kalloc_state_def fun_eq_iff)
    then show ?thesis
      using 2(1) [OF k(1) refl k(2)] 2(3-) k nz Cons by auto
  qed
next
  case (3 i ops s own)
  show ?case
  proof (cases "i < length own")
    case False
    then show ?thesis using 3 by simp
  next
    case True
    let ?x = "own ! i"
    have x: "?x \<in> set own" using True by simp
    then have "ram_page s ?x" "?x \<notin> set xs" using 3(6,7) by auto
    note k = kfree_spec [OF 3(3,4) this]
    have "held (kfree_state s ?x) = held s" "ram_page (kfree_state s ?x) = ram_page s"
      by (simp_all add: kfree_state_def fun_eq_iff)
    moreover have "set (remove1 ?x own) \<inter> set (?x # xs) = {}"
      "set (remove1 ?x own) \<union> set (?x # xs) = set own \<union> set xs"
      using 3(5,6) x by auto
    moreover have "distinct (remove1 ?x own)" "\<forall>y \<in> set (remove1 ?x own). ram_page s y"
      using 3(5,7) by (auto dest: notin_set_remove1)
    ultimately show ?thesis
      using 3(1) [OF True k(1) k(2)] 3(4) k(1) True by (simp del: set_remove1_eq)
  qed
qed

text \<open>A concrete machine with four free pages.\<close>

definition pool :: kmach where
  "pool = kfree_state (kfree_state (kfree_state (kfree_state boot_mem 0x80025000) 0x80024000) 0x80023000) 0x80022000"

lemma boot_mem_ram: "ram_page boot_mem x \<longleftrightarrow> page_aligned x \<and> 0x80021d60 \<le> x \<and> x < PHYSTOP"
  by (simp add: ram_page_def boot_mem_def)

lemma ram_page_kfree_state [simp]: "ram_page (kfree_state s p) x = ram_page s x"
  by (simp add: kfree_state_def)

lemma held_kfree_state [simp]: "held (kfree_state s p) = held s"
  by (simp add: kfree_state_def)

lemma pool_ok: "kmem_ok pool [0x80022000, 0x80023000, 0x80024000, 0x80025000]"
proof -
  have h: "L_kmem \<notin> set (held boot_mem)" by (simp add: boot_mem_def)
  have r: "ram_page boot_mem 0x80022000" "ram_page boot_mem 0x80023000" "ram_page boot_mem 0x80024000"
    "ram_page boot_mem 0x80025000"
    by (simp_all add: boot_mem_ram page_aligned_def mask_12 PHYSTOP_def KERNBASE_def)
  have "kmem_ok boot_mem []" by (simp add: kmem_ok_def boot_mem_def)
  then show ?thesis
    unfolding pool_def using h r by (intro kfree_spec(2)) simp_all
qed

lemma pool_held [simp]: "held pool = []"
  by (simp add: pool_def boot_mem_def)

theorem kalloc_kfree_exclusive_witness:
  "\<exists>s' own' ys. kclient [Alloc, Alloc, Free 1, Alloc] pool [] = Inr (s', own') \<and> kmem_ok s' ys \<and>
     distinct own' \<and> set own' \<inter> set ys = {} \<and>
     set own' \<union> set ys = set [] \<union> set [0x80022000, 0x80023000, 0x80024000, 0x80025000]"
  by (rule kalloc_kfree_exclusive [OF pool_ok]) simp_all

end
