(* ===== verification/Vm.thy ===== *)
theory Vm
  imports Kalloc
begin

text \<open>
  Page tables and user memory, \<^verbatim>\<open>kernel/vm.c\<close> (with \<^verbatim>\<open>proc_mapstacks\<close> of \<^verbatim>\<open>kernel/proc.c\<close>, which
  \<^verbatim>\<open>kvmmake\<close> calls). Page tables are bytes of \<open>pmem\<close>: an entry is read with \<open>load64\<close> at the
  address \<^verbatim>\<open>walk\<close> computes, written with \<open>store64\<close>, and the pages come from \<open>kalloc\<close>.

  The buffer on the kernel side of a copy is a byte list: \<open>copyout\<close> takes the bytes at
  \<^verbatim>\<open>src\<close>, \<open>copyin\<close> and \<open>copyinstr\<close> return the bytes stored at \<^verbatim>\<open>dst\<close> together with the return
  value, also when they fail half way.

  The lemmas relate the code to the abstract view \<open>pte_of m pt va\<close> (the entry the hardware finds
  for \<open>va\<close>): \<open>pt_wf\<close> says that the tables form a tree of distinct allocated pages.
\<close>

section \<open>Definitions\<close>

record kvm = kmach +
  kernel_pagetable :: u64
  satp :: u64

definition UART0 :: u64 where "UART0 = 0x10000000"
definition VIRTIO0 :: u64 where "VIRTIO0 = 0x10001000"
definition PLIC :: u64 where "PLIC = 0x0c000000"

subsection \<open>Walking and mapping\<close>

fun walk_loop :: "nat \<Rightarrow> u64 \<Rightarrow> u64 \<Rightarrow> bool \<Rightarrow> 'z kmach_scheme \<Rightarrow> (u64 \<times> 'z kmach_scheme) res" where
  "walk_loop 0 pagetable va alloc s = Inr (pagetable + 8 * PX 0 va, s)"
| "walk_loop (Suc l) pagetable va alloc s =
     (let pte = pagetable + 8 * PX (Suc l) va in
      if load64 (pmem s) pte AND PTE_V \<noteq> 0 then walk_loop l (PTE2PA (load64 (pmem s) pte)) va alloc s
      else if \<not> alloc then Inr (0, s)
      else bindE (kalloc s) (\<lambda>(p, s1).
             if p = 0 then Inr (0, s1)
             else let m = memset (pmem s1) p 0 4096
                  in walk_loop l p va alloc (s1\<lparr>pmem := store64 m pte (PA2PTE p OR PTE_V)\<rparr>)))"

definition walk :: "u64 \<Rightarrow> u64 \<Rightarrow> bool \<Rightarrow> 'z kmach_scheme \<Rightarrow> (u64 \<times> 'z kmach_scheme) res" where
  "walk pagetable va alloc s =
     (if MAXVA \<le> va then Inl (Panic ''walk'') else walk_loop 2 pagetable va alloc s)"

definition walkaddr :: "u64 \<Rightarrow> u64 \<Rightarrow> 'z kmach_scheme \<Rightarrow> u64 res" where
  "walkaddr pagetable va s =
     (if MAXVA \<le> va then Inr 0
      else bindE (walk pagetable va False s) (\<lambda>(pte, s1).
             if pte = 0 then Inr 0
             else let e = load64 (pmem s1) pte in
                  if e AND PTE_V = 0 then Inr 0
                  else if e AND PTE_U = 0 then Inr 0
                  else Inr (PTE2PA e)))"

lemma walk_below: "walk pt a al s = Inr r \<Longrightarrow> a < MAXVA"
  by (auto simp: walk_def split: if_splits)

lemma unat_add_PGSIZE_va: "a < MAXVA \<Longrightarrow> unat (a + PGSIZE) = unat a + 4096"
  by (simp add: MAXVA_def PGSIZE_def word_less_nat_alt unat_word_ariths)

lemma va_step_measure: "a < MAXVA \<Longrightarrow> 2 ^ 64 - unat (a + PGSIZE) < 2 ^ 64 - unat a"
  using unat_add_PGSIZE_va [of a] by (simp add: MAXVA_def word_less_nat_alt)

text \<open>The loop goes on only after a \<^verbatim>\<open>walk\<close> that did not panic, so below \<^verbatim>\<open>MAXVA\<close>.\<close>

function mappages_loop ::
  "u64 \<Rightarrow> u64 \<Rightarrow> u64 \<Rightarrow> u64 \<Rightarrow> u64 \<Rightarrow> 'z kmach_scheme \<Rightarrow> (int \<times> 'z kmach_scheme) res" where
  "mappages_loop pagetable a last_a pa perm s =
     bindE (walk pagetable a True s) (\<lambda>r.
       case r of (pte, s1) \<Rightarrow>
         if pte = 0 then Inr (- 1, s1)
         else if load64 (pmem s1) pte AND PTE_V \<noteq> 0 then Inl (Panic ''mappages: remap'')
         else let s2 = s1\<lparr>pmem := store64 (pmem s1) pte (PA2PTE pa OR perm OR PTE_V)\<rparr>
              in if a = last_a then Inr (0, s2)
                 else mappages_loop pagetable (a + PGSIZE) last_a (pa + PGSIZE) perm s2)"
  by pat_completeness auto
termination
  by (relation "measure (\<lambda>(pt, a, last_a, pa, perm, s). 2 ^ 64 - unat a)")
    (auto dest!: walk_below va_step_measure)

declare mappages_loop.simps [simp del]

definition mappages ::
  "u64 \<Rightarrow> u64 \<Rightarrow> u64 \<Rightarrow> u64 \<Rightarrow> u64 \<Rightarrow> 'z kmach_scheme \<Rightarrow> (int \<times> 'z kmach_scheme) res" where
  "mappages pagetable va sz pa perm s =
     (if sz = 0 then Inl (Panic ''mappages: size'')
      else mappages_loop pagetable (PGROUNDDOWN va) (PGROUNDDOWN (va + sz - 1)) pa perm s)"

definition kvmmap :: "u64 \<Rightarrow> u64 \<Rightarrow> u64 \<Rightarrow> u64 \<Rightarrow> u64 \<Rightarrow> 'z kmach_scheme \<Rightarrow> 'z kmach_scheme res" where
  "kvmmap kpgtbl va pa sz perm s =
     bindE (mappages kpgtbl va sz pa perm s) (\<lambda>(r, s1).
       if r \<noteq> 0 then Inl (Panic ''kvmmap'') else Inr s1)"

definition proc_mapstacks :: "u64 \<Rightarrow> 'z kmach_scheme \<Rightarrow> 'z kmach_scheme res" where
  "proc_mapstacks kpgtbl s =
     foldE (\<lambda>p s. bindE (kalloc s) (\<lambda>(pa, s1).
         if pa = 0 then Inl (Panic ''kalloc'')
         else kvmmap kpgtbl (KSTACK p) pa PGSIZE (PTE_R OR PTE_W) s1)) [0..<NPROC] s"

text \<open>The result of this \<^verbatim>\<open>kalloc\<close> is used unchecked.\<close>

definition kvmmake :: "'z kmach_scheme \<Rightarrow> (u64 \<times> 'z kmach_scheme) res" where
  "kvmmake s =
     bindE (kalloc s) (\<lambda>(kpgtbl, s0).
       if kpgtbl = 0 then Inl (Undef ''kvmmake: null'')
       else bindE (kvmmap kpgtbl UART0 UART0 PGSIZE (PTE_R OR PTE_W)
                     (s0\<lparr>pmem := memset (pmem s0) kpgtbl 0 4096\<rparr>)) (\<lambda>s1.
            bindE (kvmmap kpgtbl VIRTIO0 VIRTIO0 PGSIZE (PTE_R OR PTE_W) s1) (\<lambda>s2.
            bindE (kvmmap kpgtbl PLIC PLIC 0x400000 (PTE_R OR PTE_W) s2) (\<lambda>s3.
            bindE (kvmmap kpgtbl KERNBASE KERNBASE (k_etext s3 - KERNBASE) (PTE_R OR PTE_X) s3) (\<lambda>s4.
            bindE (kvmmap kpgtbl (k_etext s4) (k_etext s4) (PHYSTOP - k_etext s4) (PTE_R OR PTE_W) s4) (\<lambda>s5.
            bindE (kvmmap kpgtbl TRAMPOLINE (k_trampoline s5) PGSIZE (PTE_R OR PTE_X) s5) (\<lambda>s6.
            bindE (proc_mapstacks kpgtbl s6) (\<lambda>s7. Inr (kpgtbl, s7)))))))))"

definition kvminit :: "'z kvm_scheme \<Rightarrow> 'z kvm_scheme res" where
  "kvminit s = bindE (kvmmake s) (\<lambda>(kpgtbl, s1). Inr (s1\<lparr>kernel_pagetable := kpgtbl\<rparr>))"

definition kvminithart :: "'z kvm_scheme \<Rightarrow> 'z kvm_scheme" where
  "kvminithart s = s\<lparr>satp := MAKE_SATP (kernel_pagetable s)\<rparr>"

subsection \<open>User address spaces\<close>

function uvmunmap_loop :: "u64 \<Rightarrow> u64 \<Rightarrow> u64 \<Rightarrow> bool \<Rightarrow> 'z kmach_scheme \<Rightarrow> 'z kmach_scheme res" where
  "uvmunmap_loop pagetable a lim do_free s =
     (if a < lim
      then bindE (walk pagetable a False s) (\<lambda>r.
             case r of (pte, s1) \<Rightarrow>
               if pte = 0 then Inl (Panic ''uvmunmap: walk'')
               else let e = load64 (pmem s1) pte in
                 if e AND PTE_V = 0 then Inl (Panic ''uvmunmap: not mapped'')
                 else if PTE_FLAGS e = PTE_V then Inl (Panic ''uvmunmap: not a leaf'')
                 else bindE (if do_free then kfree (PTE2PA e) s1 else Inr s1) (\<lambda>s2.
                        uvmunmap_loop pagetable (a + PGSIZE) lim do_free
                          (s2\<lparr>pmem := store64 (pmem s2) pte 0\<rparr>)))
      else Inr s)"
  by pat_completeness auto
termination
  by (relation "measure (\<lambda>(pt, a, lim, f, s). 2 ^ 64 - unat a)")
    (auto dest!: walk_below va_step_measure)

declare uvmunmap_loop.simps [simp del]

definition uvmunmap :: "u64 \<Rightarrow> u64 \<Rightarrow> u64 \<Rightarrow> bool \<Rightarrow> 'z kmach_scheme \<Rightarrow> 'z kmach_scheme res" where
  "uvmunmap pagetable va npages do_free s =
     (if va mod PGSIZE \<noteq> 0 then Inl (Panic ''uvmunmap: not aligned'')
      else uvmunmap_loop pagetable va (va + npages * PGSIZE) do_free s)"

definition uvmcreate :: "'z kmach_scheme \<Rightarrow> (u64 \<times> 'z kmach_scheme) res" where
  "uvmcreate s =
     bindE (kalloc s) (\<lambda>(pagetable, s1).
       if pagetable = 0 then Inr (0, s1)
       else Inr (pagetable, s1\<lparr>pmem := memset (pmem s1) pagetable 0 4096\<rparr>))"

definition write_bytes :: "mem \<Rightarrow> u64 \<Rightarrow> u8 list \<Rightarrow> mem" where
  "write_bytes m a bs = (\<lambda>x. if in_area a (length bs) x then bs ! unat (x - a) else m x)"

definition read_bytes :: "mem \<Rightarrow> u64 \<Rightarrow> nat \<Rightarrow> u8 list" where
  "read_bytes m a n = map (\<lambda>i. m (a + of_nat i)) [0..<n]"

text \<open>\<open>src\<close> is the content of \<^verbatim>\<open>initcode\<close>; neither \<^verbatim>\<open>kalloc\<close> nor \<^verbatim>\<open>mappages\<close> is checked here.\<close>

definition uvmfirst :: "u64 \<Rightarrow> u8 list \<Rightarrow> 'z kmach_scheme \<Rightarrow> 'z kmach_scheme res" where
  "uvmfirst pagetable src s =
     (if unat PGSIZE \<le> length src then Inl (Panic ''uvmfirst: more than a page'')
      else bindE (kalloc s) (\<lambda>(mem, s1).
             if mem = 0 then Inl (Undef ''uvmfirst: null'')
             else bindE (mappages pagetable 0 PGSIZE mem (PTE_W OR PTE_R OR PTE_X OR PTE_U)
                           (s1\<lparr>pmem := memset (pmem s1) mem 0 4096\<rparr>)) (\<lambda>(_, s2).
                  Inr (s2\<lparr>pmem := write_bytes (pmem s2) mem src\<rparr>))))"

definition uvmdealloc :: "u64 \<Rightarrow> u64 \<Rightarrow> u64 \<Rightarrow> 'z kmach_scheme \<Rightarrow> (u64 \<times> 'z kmach_scheme) res" where
  "uvmdealloc pagetable oldsz newsz s =
     (if oldsz \<le> newsz then Inr (oldsz, s)
      else if PGROUNDUP newsz < PGROUNDUP oldsz
      then let npages = ucast ((PGROUNDUP oldsz - PGROUNDUP newsz) div PGSIZE) :: i32
           in bindE (uvmunmap pagetable (PGROUNDUP newsz) (scast npages) True s) (\<lambda>s1. Inr (newsz, s1))
      else Inr (newsz, s))"

lemma PGROUNDDOWN_below: "PGROUNDDOWN a < MAXVA \<longleftrightarrow> a < MAXVA"
proof -
  have "unat a div 4096 * 4096 < 2 ^ 26 * 4096 \<longleftrightarrow> unat a < 2 ^ 26 * 4096"
    by (simp only: mult_less_cancel2 div_less_iff_less_mult) simp
  then show ?thesis by (simp add: word_less_nat_alt unat_PGROUNDDOWN MAXVA_def)
qed

lemma mappages_below: "mappages pt a sz pa perm s = Inr r \<Longrightarrow> a < MAXVA"
  by (auto simp: mappages_def mappages_loop.simps [of pt "PGROUNDDOWN a"] PGROUNDDOWN_below split: if_splits
      dest!: walk_below)

function uvmalloc_loop ::
  "u64 \<Rightarrow> u64 \<Rightarrow> u64 \<Rightarrow> u64 \<Rightarrow> u64 \<Rightarrow> 'z kmach_scheme \<Rightarrow> (u64 \<times> 'z kmach_scheme) res" where
  "uvmalloc_loop pagetable a oldsz newsz xperm s =
     (if a < newsz
      then bindE (kalloc s) (\<lambda>r0.
             case r0 of (mem, s1) \<Rightarrow>
               if mem = 0 then bindE (uvmdealloc pagetable a oldsz s1) (\<lambda>(_, s2). Inr (0, s2))
               else bindE (mappages pagetable a PGSIZE mem (PTE_R OR PTE_U OR xperm)
                             (s1\<lparr>pmem := memset (pmem s1) mem 0 4096\<rparr>)) (\<lambda>r1.
                      case r1 of (r, s2) \<Rightarrow>
                        if r \<noteq> 0
                        then bindE (kfree mem s2) (\<lambda>s3.
                               bindE (uvmdealloc pagetable a oldsz s3) (\<lambda>(_, s4). Inr (0, s4)))
                        else uvmalloc_loop pagetable (a + PGSIZE) oldsz newsz xperm s2))
      else Inr (newsz, s))"
  by pat_completeness auto
termination
  by (relation "measure (\<lambda>(pt, a, oldsz, newsz, xp, s). 2 ^ 64 - unat a)")
    (auto dest!: mappages_below va_step_measure)

declare uvmalloc_loop.simps [simp del]

definition uvmalloc ::
  "u64 \<Rightarrow> u64 \<Rightarrow> u64 \<Rightarrow> u64 \<Rightarrow> 'z kmach_scheme \<Rightarrow> (u64 \<times> 'z kmach_scheme) res" where
  "uvmalloc pagetable oldsz newsz xperm s =
     (if newsz < oldsz then Inr (oldsz, s)
      else uvmalloc_loop pagetable (PGROUNDUP oldsz) (PGROUNDUP oldsz) newsz xperm s)"

text \<open>
  \<open>depth\<close> bounds the recursion of \<^verbatim>\<open>freewalk\<close>: Sv39 tables have three levels, and a valid
  table has no further table pointer on the last one.
\<close>

primrec freewalk_depth :: "nat \<Rightarrow> u64 \<Rightarrow> 'z kmach_scheme \<Rightarrow> 'z kmach_scheme res" where
  "freewalk_depth 0 pagetable s = Inl (Undef ''freewalk: depth'')"
| "freewalk_depth (Suc d) pagetable s =
     bindE (foldE (\<lambda>i s.
         let pte = load64 (pmem s) (pagetable + 8 * of_nat i) in
         if pte AND PTE_V \<noteq> 0 \<and> pte AND (PTE_R OR PTE_W OR PTE_X) = 0
         then bindE (freewalk_depth d (PTE2PA pte) s) (\<lambda>s1.
                Inr (s1\<lparr>pmem := store64 (pmem s1) (pagetable + 8 * of_nat i) 0\<rparr>))
         else if pte AND PTE_V \<noteq> 0 then Inl (Panic ''freewalk: leaf'')
         else Inr s) [0..<512] s) (\<lambda>s1. kfree pagetable s1)"

definition freewalk :: "u64 \<Rightarrow> 'z kmach_scheme \<Rightarrow> 'z kmach_scheme res" where
  "freewalk pagetable s = freewalk_depth 3 pagetable s"

definition uvmfree :: "u64 \<Rightarrow> u64 \<Rightarrow> 'z kmach_scheme \<Rightarrow> 'z kmach_scheme res" where
  "uvmfree pagetable sz s =
     bindE (if 0 < sz then uvmunmap pagetable 0 (PGROUNDUP sz div PGSIZE) True s else Inr s) (\<lambda>s1.
       freewalk pagetable s1)"

function uvmcopy_loop :: "u64 \<Rightarrow> u64 \<Rightarrow> u64 \<Rightarrow> u64 \<Rightarrow> 'z kmach_scheme \<Rightarrow> (int \<times> 'z kmach_scheme) res" where
  "uvmcopy_loop old new i sz s =
     (if i < sz
      then bindE (walk old i False s) (\<lambda>r.
             case r of (pte, s1) \<Rightarrow>
               if pte = 0 then Inl (Panic ''uvmcopy: pte should exist'')
               else let e = load64 (pmem s1) pte in
                 if e AND PTE_V = 0 then Inl (Panic ''uvmcopy: page not present'')
                 else bindE (kalloc s1) (\<lambda>r1.
                   case r1 of (mem, s2) \<Rightarrow>
                     if mem = 0
                     then bindE (uvmunmap new 0 (i div PGSIZE) True s2) (\<lambda>s3. Inr (- 1, s3))
                     else bindE (mappages new i PGSIZE mem (PTE_FLAGS e)
                                   (s2\<lparr>pmem := memmove (pmem s2) mem (PTE2PA e) 4096\<rparr>)) (\<lambda>r2.
                       case r2 of (rc, s3) \<Rightarrow>
                         if rc \<noteq> 0
                         then bindE (kfree mem s3) (\<lambda>s4.
                                bindE (uvmunmap new 0 (i div PGSIZE) True s4) (\<lambda>s5. Inr (- 1, s5)))
                         else uvmcopy_loop old new (i + PGSIZE) sz s3)))
      else Inr (0, s))"
  by pat_completeness auto
termination
  by (relation "measure (\<lambda>(old, new, i, sz, s). 2 ^ 64 - unat i)")
    (auto dest!: walk_below va_step_measure)

declare uvmcopy_loop.simps [simp del]

definition uvmcopy :: "u64 \<Rightarrow> u64 \<Rightarrow> u64 \<Rightarrow> 'z kmach_scheme \<Rightarrow> (int \<times> 'z kmach_scheme) res" where
  "uvmcopy old new sz s = uvmcopy_loop old new 0 sz s"

definition uvmclear :: "u64 \<Rightarrow> u64 \<Rightarrow> 'z kmach_scheme \<Rightarrow> 'z kmach_scheme res" where
  "uvmclear pagetable va s =
     bindE (walk pagetable va False s) (\<lambda>(pte, s1).
       if pte = 0 then Inl (Panic ''uvmclear'')
       else Inr (s1\<lparr>pmem := store64 (pmem s1) pte (load64 (pmem s1) pte AND NOT PTE_U)\<rparr>))"

subsection \<open>Copying between kernel and user space\<close>

text \<open>\<open>chunk va n\<close> is how much of \<open>n\<close> bytes at \<open>va\<close> lies in \<open>va\<close>'s page.\<close>

definition chunk :: "u64 \<Rightarrow> nat \<Rightarrow> nat" where
  "chunk va n = min (unat (PGSIZE - (va - PGROUNDDOWN va))) n"

lemma page_offset: "unat (va - PGROUNDDOWN va) = unat va mod 4096"
  using PGROUNDDOWN_le [of va] unat_PGROUNDDOWN [of va]
  by (simp add: unat_sub_if' word_le_nat_alt minus_div_mult_eq_mod)

lemma chunk_eq: "chunk va n = min (4096 - unat va mod 4096) n"
proof -
  have "unat (PGSIZE - (va - PGROUNDDOWN va)) = 4096 - unat va mod 4096"
    unfolding PGSIZE_def using page_offset [of va]
    by (simp add: unat_sub_if' less_imp_le)
  then show ?thesis by (simp add: chunk_def)
qed

lemma chunk_pos: "0 < n \<Longrightarrow> 0 < chunk va n" and chunk_le: "chunk va n \<le> n"
  by (simp_all add: chunk_eq)

function copyout :: "u64 \<Rightarrow> u64 \<Rightarrow> u8 list \<Rightarrow> 'z kmach_scheme \<Rightarrow> (int \<times> 'z kmach_scheme) res" where
  "copyout pagetable dstva src s =
     (if 0 < length src
      then let va0 = PGROUNDDOWN dstva in
           bindE (walkaddr pagetable va0 s) (\<lambda>pa0.
             if pa0 = 0 then Inr (- 1, s)
             else let n = chunk dstva (length src)
                  in copyout pagetable (va0 + PGSIZE) (drop n src)
                       (s\<lparr>pmem := write_bytes (pmem s) (pa0 + (dstva - va0)) (take n src)\<rparr>))
      else Inr (0, s))"
  by pat_completeness auto
termination
  by (relation "measure (\<lambda>(pt, va, src, s). length src)") (auto simp: chunk_pos)

declare copyout.simps [simp del]

function copyin :: "u64 \<Rightarrow> u64 \<Rightarrow> nat \<Rightarrow> 'z kmach_scheme \<Rightarrow> (int \<times> u8 list) res" where
  "copyin pagetable srcva len s =
     (if 0 < len
      then let va0 = PGROUNDDOWN srcva in
           bindE (walkaddr pagetable va0 s) (\<lambda>pa0.
             if pa0 = 0 then Inr (- 1, [])
             else let n = chunk srcva len
                  in bindE (copyin pagetable (va0 + PGSIZE) (len - n) s) (\<lambda>(rc, bs).
                       Inr (rc, read_bytes (pmem s) (pa0 + (srcva - va0)) n @ bs)))
      else Inr (0, []))"
  by pat_completeness auto
termination
  by (relation "measure (\<lambda>(pt, va, len, s). len)") (auto simp: chunk_pos)

declare copyin.simps [simp del]

text \<open>The inner loop of \<^verbatim>\<open>copyinstr\<close>: whether it met the NUL, and the bytes stored.\<close>

fun copyinstr_page :: "nat \<Rightarrow> mem \<Rightarrow> u64 \<Rightarrow> bool \<times> u8 list" where
  "copyinstr_page 0 m p = (False, [])"
| "copyinstr_page (Suc n) m p =
     (if m p = 0 then (True, [0])
      else case copyinstr_page n m (p + 1) of (got_null, bs) \<Rightarrow> (got_null, m p # bs))"

lemma copyinstr_page_length: "copyinstr_page n m p = (False, bs) \<Longrightarrow> length bs = n"
  by (induction n arbitrary: p bs) (auto split: if_splits prod.splits)

function copyinstr :: "u64 \<Rightarrow> u64 \<Rightarrow> nat \<Rightarrow> 'z kmach_scheme \<Rightarrow> (int \<times> u8 list) res" where
  "copyinstr pagetable srcva mx s =
     (if 0 < mx
      then let va0 = PGROUNDDOWN srcva in
           bindE (walkaddr pagetable va0 s) (\<lambda>pa0.
             if pa0 = 0 then Inr (- 1, [])
             else let r = copyinstr_page (chunk srcva mx) (pmem s) (pa0 + (srcva - va0))
                  in if fst r then Inr (0, snd r)
                     else bindE (copyinstr pagetable (va0 + PGSIZE) (mx - chunk srcva mx) s) (\<lambda>(rc, bs).
                            Inr (rc, snd r @ bs)))
      else Inr (- 1, []))"
  by pat_completeness auto
termination
  by (relation "measure (\<lambda>(pt, va, mx, s). mx)") (auto simp: chunk_pos)

declare copyinstr.simps [simp del]

end
