(* ===== verification/Printf.thy ===== *)
theory Printf
  imports Vm
begin

text \<open>
  Kernel output: \<^verbatim>\<open>kernel/printf.c\<close>, with the polled UART transmission (\<^verbatim>\<open>uartputc_sync\<close> of
  \<^verbatim>\<open>kernel/uart.c\<close>) and \<^verbatim>\<open>consputc\<close> of \<^verbatim>\<open>kernel/console.c\<close> below it.

  The device is a parameter of the state: \<open>tx_idle\<close> is the sequence of values the next reads of
  the transmitter-idle bit of LSR will give, \<open>u_in\<close> the bytes waiting to be received, \<open>u_out\<close>
  what has been written to THR so far. \<^verbatim>\<open>printint\<close> writes its digits into a buffer of 16
  bytes; the model has the bound as a fault, and the lemmas show that it is never reached and
  that the digits printed denote the number.
\<close>

section \<open>Definitions\<close>

record kdev = kvm +
  u_out :: "u8 list"
  u_in :: "u8 list"
  tx_idle :: "bool list"
  panicked :: bool
  pr_locking :: bool

definition asc :: "string \<Rightarrow> u8 list" where
  "asc s = map of_char s"

text \<open>A spin on LSR that the device never ends, and the freeze after a panic, are \<open>Blocked\<close>.\<close>

definition uartputc_sync :: "i32 \<Rightarrow> 'z kdev_scheme \<Rightarrow> 'z kdev_scheme res" where
  "uartputc_sync c s =
     (if panicked s then Inl (Blocked ''panicked'')
      else case dropWhile Not (tx_idle s) of
             [] \<Rightarrow> Inl (Blocked ''uart'')
           | _ # r \<Rightarrow> Inr (s\<lparr>tx_idle := r, u_out := u_out s @ [ucast c]\<rparr>))"

definition BACKSPACE :: i32 where "BACKSPACE = 0x100"

definition consputc :: "i32 \<Rightarrow> 'z kdev_scheme \<Rightarrow> 'z kdev_scheme res" where
  "consputc c s =
     (if c = BACKSPACE
      then bindE (uartputc_sync 8 s) (\<lambda>s1. bindE (uartputc_sync 32 s1) (\<lambda>s2. uartputc_sync 8 s2))
      else uartputc_sync c s)"

definition putbytes :: "u8 list \<Rightarrow> 'z kdev_scheme \<Rightarrow> 'z kdev_scheme res" where
  "putbytes bs s = foldE (\<lambda>b. consputc (ucast b)) bs s"

definition digits :: "u8 list" where
  "digits = asc ''0123456789abcdef'' @ [0]"

text \<open>\<open>room\<close> is what is left of \<^verbatim>\<open>buf\<close>; the result is \<^verbatim>\<open>buf[0..i)\<close>, least significant digit first.\<close>

fun printint_loop :: "nat \<Rightarrow> u32 \<Rightarrow> u32 \<Rightarrow> u8 list res" where
  "printint_loop 0 x base = Inl (Undef ''printint: buf'')"
| "printint_loop (Suc room) x base =
     (if base = 0 \<or> length digits \<le> unat (x mod base) then Inl (Undef ''printint: digits'')
      else let d = digits ! unat (x mod base) in
           if x div base = 0 then Inr [d]
           else bindE (printint_loop room (x div base) base) (\<lambda>r. Inr (d # r)))"

definition printint :: "i32 \<Rightarrow> u32 \<Rightarrow> bool \<Rightarrow> 'z kdev_scheme \<Rightarrow> 'z kdev_scheme res" where
  "printint xx base sign s =
     (let neg = sign \<and> xx <s 0;
          x = (if neg then - xx else xx)
      in bindE (printint_loop 16 x base) (\<lambda>buf.
           bindE (if neg then if length buf < 16 then Inr (buf @ asc ''-'') else Inl (Undef ''printint: buf'')
                  else Inr buf) (\<lambda>buf'. putbytes (rev buf') s)))"

fun printptr_loop :: "nat \<Rightarrow> u64 \<Rightarrow> u8 list" where
  "printptr_loop 0 x = []"
| "printptr_loop (Suc n) x = digits ! unat (drop_bit 60 x) # printptr_loop n (push_bit 4 x)"

definition printptr :: "u64 \<Rightarrow> 'z kdev_scheme \<Rightarrow> 'z kdev_scheme res" where
  "printptr x s = putbytes (asc ''0x'' @ printptr_loop 16 x) s"

text \<open>The arguments \<^verbatim>\<open>va_arg\<close> delivers; a string is its bytes before the NUL, or a null pointer.\<close>

datatype varg = AInt i32 | APtr u64 | AStr "u8 list option"

fun printf_loop :: "u8 list \<Rightarrow> varg list \<Rightarrow> 'z kdev_scheme \<Rightarrow> 'z kdev_scheme res" where
  "printf_loop [] ap s = Inr s"
| "printf_loop [c] ap s = (if c = of_char CHR ''%'' then Inr s else consputc (ucast c) s)"
| "printf_loop (c # d # fmt) ap s =
     (if c \<noteq> of_char CHR ''%'' then bindE (consputc (ucast c) s) (printf_loop (d # fmt) ap)
      else if d = of_char CHR ''d'' then
        (case ap of AInt x # ap' \<Rightarrow> bindE (printint x 10 True s) (printf_loop fmt ap')
         | _ \<Rightarrow> Inl (Undef ''va_arg''))
      else if d = of_char CHR ''x'' then
        (case ap of AInt x # ap' \<Rightarrow> bindE (printint x 16 True s) (printf_loop fmt ap')
         | _ \<Rightarrow> Inl (Undef ''va_arg''))
      else if d = of_char CHR ''p'' then
        (case ap of APtr x # ap' \<Rightarrow> bindE (printptr x s) (printf_loop fmt ap')
         | _ \<Rightarrow> Inl (Undef ''va_arg''))
      else if d = of_char CHR ''s'' then
        (case ap of AStr x # ap' \<Rightarrow>
           bindE (putbytes (case x of None \<Rightarrow> asc ''(null)'' | Some b \<Rightarrow> b) s) (printf_loop fmt ap')
         | _ \<Rightarrow> Inl (Undef ''va_arg''))
      else if d = of_char CHR ''%'' then bindE (consputc (ucast d) s) (printf_loop fmt ap)
      else bindE (consputc (ucast c) s) (\<lambda>s1. bindE (consputc (ucast d) s1) (printf_loop fmt ap)))"

definition printf :: "string \<Rightarrow> varg list \<Rightarrow> 'z kdev_scheme \<Rightarrow> 'z kdev_scheme res" where
  "printf fmt ap s =
     (let locking = pr_locking s in
      bindE (if locking then lk_acquire L_pr s else Inr s) (\<lambda>s1.
      bindE (printf_loop (asc fmt) ap s1) (\<lambda>s2.
        if locking then lk_release L_pr s2 else Inr s2)))"

text \<open>The state \<^verbatim>\<open>panic\<close> stops in. Elsewhere a call of \<^verbatim>\<open>panic(m)\<close> is the fault \<open>Panic m\<close>.\<close>

definition panic :: "string \<Rightarrow> 'z kdev_scheme \<Rightarrow> 'z kdev_scheme res" where
  "panic m s =
     bindE (printf ''panic: '' [] (s\<lparr>pr_locking := False\<rparr>)) (\<lambda>s1.
     bindE (printf m [] s1) (\<lambda>s2.
     bindE (printf [CHR 0x0A] [] s2) (\<lambda>s3. Inr (s3\<lparr>panicked := True\<rparr>))))"

definition printfinit :: "'z kdev_scheme \<Rightarrow> 'z kdev_scheme" where
  "printfinit s = s\<lparr>pr_locking := True\<rparr>"

section \<open>Output with an idle transmitter\<close>

text \<open>\<open>ready s n\<close>: the device accepts at least \<open>n\<close> more bytes, and the kernel has not panicked.\<close>

definition ready :: "'z kdev_scheme \<Rightarrow> nat \<Rightarrow> bool" where
  "ready s n \<longleftrightarrow> \<not> panicked s \<and> n \<le> count_list (tx_idle s) True"

definition sent :: "u8 list \<Rightarrow> 'z kdev_scheme \<Rightarrow> 'z kdev_scheme \<Rightarrow> bool" where
  "sent bs s s' \<longleftrightarrow> (\<exists>n. s' = s\<lparr>tx_idle := drop n (tx_idle s), u_out := u_out s @ bs\<rparr> \<and>
     count_list (take n (tx_idle s)) True = length bs)"

lemma dropWhile_idle:
  "0 < count_list xs True \<Longrightarrow> \<exists>n. dropWhile Not xs = True # drop (Suc n) xs \<and> count_list (take (Suc n) xs) True = 1"
proof (induction xs)
  case (Cons x xs)
  show ?case
  proof (cases x)
    case True
    then show ?thesis by (intro exI [of _ 0]) simp
  next
    case False
    then obtain n where "dropWhile Not xs = True # drop (Suc n) xs" "count_list (take (Suc n) xs) True = 1"
      using Cons by auto
    then show ?thesis using False by (intro exI [of _ "Suc n"]) simp
  qed
qed simp

lemma count_list_split: "count_list xs x = count_list (take n xs) x + count_list (drop n xs) x"
  using count_list_append [of "take n xs" "drop n xs" x] by simp

lemma sent_refl: "sent [] s s"
  unfolding sent_def by (intro exI [of _ 0]) simp

lemma sent_trans: "sent as s t \<Longrightarrow> sent bs t u \<Longrightarrow> sent (as @ bs) s u"
proof -
  assume "sent as s t" "sent bs t u"
  then obtain n k where n: "t = s\<lparr>tx_idle := drop n (tx_idle s), u_out := u_out s @ as\<rparr>"
      "count_list (take n (tx_idle s)) True = length as"
    and k: "u = t\<lparr>tx_idle := drop k (tx_idle t), u_out := u_out t @ bs\<rparr>"
      "count_list (take k (tx_idle t)) True = length bs" unfolding sent_def by blast
  have "count_list (take (n + k) (tx_idle s)) True = length as + length bs"
    using n(2) k(2) by (simp add: n(1) take_add)
  then show ?thesis
    using n k unfolding sent_def by (intro exI [of _ "n + k"]) (simp add: add.commute)
qed

lemma sent_ready:
  assumes "sent bs s s'" "ready s (length bs + n)"
  shows "ready s' n"
proof -
  obtain k where "s' = s\<lparr>tx_idle := drop k (tx_idle s), u_out := u_out s @ bs\<rparr>"
    "count_list (take k (tx_idle s)) True = length bs" using assms(1) unfolding sent_def by blast
  then show ?thesis
    using assms(2) count_list_split [of "tx_idle s" True k] by (simp add: ready_def)
qed

lemma uartputc_sync_sent: "ready s 1 \<Longrightarrow> \<exists>s'. uartputc_sync c s = Inr s' \<and> sent [ucast c] s s'"
proof -
  assume r: "ready s 1"
  then obtain n where n: "dropWhile Not (tx_idle s) = True # drop (Suc n) (tx_idle s)"
    "count_list (take (Suc n) (tx_idle s)) True = 1"
    using dropWhile_idle [of "tx_idle s"] by (auto simp: ready_def)
  then show ?thesis
    using r by (auto simp: uartputc_sync_def ready_def sent_def intro!: exI [of _ "Suc n"])
qed

lemma ucast_byte_ne_BACKSPACE: "(ucast (b :: u8) :: i32) \<noteq> BACKSPACE"
proof
  assume "(ucast b :: i32) = BACKSPACE"
  then have "unat (ucast b :: i32) = 256" by (simp add: BACKSPACE_def)
  moreover have lt: "unat b < 256" using unsigned_less [of b, where 'a = nat] by simp
  ultimately show False by simp
qed

lemma consputc_sent: "ready s 1 \<Longrightarrow> \<exists>s'. consputc (ucast b) s = Inr s' \<and> sent [b :: u8] s s'"
  using uartputc_sync_sent [of s "ucast b"] by (simp add: consputc_def ucast_byte_ne_BACKSPACE)

lemma putbytes_sent: "ready s (length bs) \<Longrightarrow> \<exists>s'. putbytes bs s = Inr s' \<and> sent bs s s'"
proof (induction bs arbitrary: s)
  case Nil
  then show ?case by (simp add: putbytes_def sent_refl)
next
  case (Cons b bs)
  then obtain t where t: "consputc (ucast b) s = Inr t" "sent [b] s t"
    using consputc_sent [of s b] by (auto simp: ready_def)
  then have "ready t (length bs)" using sent_ready [of "[b]" s t "length bs"] Cons(2) by simp
  then obtain u where "putbytes bs t = Inr u" "sent bs t u" using Cons.IH by blast
  then show ?case using t sent_trans [of "[b]" s t bs u] by (auto simp: putbytes_def)
qed

section \<open>The digits denote the number\<close>

text \<open>The ASCII code of a digit, and the number a list of digits (most significant first) denotes.\<close>

definition digit_char :: "nat \<Rightarrow> u8" where
  "digit_char d = of_nat (if d < 10 then 48 + d else 87 + d)"

definition numval :: "nat \<Rightarrow> nat list \<Rightarrow> nat" where
  "numval b ds = foldl (\<lambda>v d. v * b + d) 0 ds"

text \<open>\<open>ds\<close> is the numeral of \<open>n\<close> to the base \<open>b\<close>: digits below the base and no leading zero.\<close>

definition numeral_of :: "nat \<Rightarrow> nat \<Rightarrow> nat list \<Rightarrow> bool" where
  "numeral_of b n ds \<longleftrightarrow> ds \<noteq> [] \<and> (\<forall>d \<in> set ds. d < b) \<and> (hd ds = 0 \<longrightarrow> ds = [0]) \<and> numval b ds = n"

lemma numeral_of_digit: "n < b \<Longrightarrow> numeral_of b n [n]"
  by (simp add: numeral_of_def numval_def)

lemma numeral_of_snoc:
  assumes "numeral_of b (n div b) ds" "n div b \<noteq> 0" "0 < b"
  shows "numeral_of b n (ds @ [n mod b])"
proof -
  have "hd ds \<noteq> 0" using assms(1,2) by (auto simp: numeral_of_def numval_def)
  then show ?thesis using assms by (simp add: numeral_of_def numval_def)
qed

lemma digits_length [simp]: "length digits = 17"
  by (simp add: digits_def asc_def)

lemma digits_char: "n < 16 \<Longrightarrow> digits ! n = digit_char n"
proof -
  assume "n < 16"
  then have "n \<in> set [0..<16]" by simp
  moreover have "\<forall>k \<in> set [0..<16]. digits ! k = digit_char k" by code_simp
  ultimately show ?thesis by blast
qed

lemma printint_loop_ok:
  assumes "2 \<le> unat base" "unat base \<le> 16" "unat x < unat base ^ k" "0 < k" "k \<le> room"
  shows "\<exists>ds. printint_loop room x base = Inr (map digit_char (rev ds)) \<and> length ds \<le> k \<and> numeral_of (unat base) (unat x) ds"
  using assms(3-5)
proof (induction k arbitrary: x room)
  case (Suc k)
  obtain r where r: "room = Suc r" using Suc(4) by (cases room) auto
  have b: "base \<noteq> 0" "0 < unat base" using assms(1) by auto
  have m: "unat (x mod base) = unat x mod unat base" "unat (x div base) = unat x div unat base"
    by (simp_all add: unat_mod_distrib unat_div_distrib)
  have lt: "unat x mod unat base < 16" using assms(1,2) mod_less_divisor [of "unat base" "unat x"] by linarith
  have d: "digits ! unat (x mod base) = digit_char (unat x mod unat base)" using m lt digits_char by simp
  show ?case
  proof (cases "x div base = 0")
    case True
    then have z: "unat x div unat base = 0" using m(2) by (metis unsigned_0)
    then have e: "unat x mod unat base = unat x" "unat x < unat base" using assms(1) by (auto simp: div_eq_0_iff)
    then show ?thesis using True r b lt m d numeral_of_digit [OF e(2)] by (intro exI [of _ "[unat x]"]) simp
  next
    case False
    then have nz: "unat x div unat base \<noteq> 0" using m(2) by (simp add: word_unat_eq_iff)
    have k: "0 < k" using Suc(2) nz by (cases k) auto
    have "unat (x div base) < unat base ^ k"
      unfolding m(2) using Suc(2) assms(1) by (simp add: div_less_iff_less_mult mult.commute)
    then obtain ds where ds: "printint_loop r (x div base) base = Inr (map digit_char (rev ds))" "length ds \<le> k"
      "numeral_of (unat base) (unat x div unat base) ds"
      using Suc.IH [of "x div base" r] k Suc(4) r m(2) by auto
    then show ?thesis using False r b lt m d numeral_of_snoc [OF ds(3) nz b(2)]
      by (intro exI [of _ "ds @ [unat x mod unat base]"]) (simp add: Let_def)
  qed
qed simp

lemma length_bound:
  "unat (x :: u32) < 10 ^ 10" "unat x < 16 ^ 8"
  using unsigned_less [of x, where 'a = nat] by simp_all

section \<open>Properties\<close>

text \<open>C34: \<^verbatim>\<open>printint\<close> prints the number. For bases 10 and 16 its 16-byte buffer never overflows, and
  on a device that accepts the output it sends exactly a minus sign for a negative argument and then
  the ASCII digits (\<^verbatim>\<open>0\<close> to \<^verbatim>\<open>9\<close>, \<^verbatim>\<open>a\<close> to \<^verbatim>\<open>f\<close>) of the numeral of the absolute value: most significant first,
  each below the base, without leading zeros, at most ten of them.\<close>

theorem printint_correct:
  assumes "base = 10 \<or> base = 16" "ready s 11"
  shows "\<exists>s' ds. printint xx base True s = Inr s' \<and> length ds \<le> 10 \<and>
    numeral_of (unat base) (nat \<bar>sint xx\<bar>) ds \<and>
    sent ((if xx <s 0 then [45] else []) @ map digit_char ds) s s'"
proof -
  define x where "x = (if xx <s 0 then - xx else xx)"
  have "unat x < unat base ^ 10" using assms(1) length_bound [of x] by auto
  then obtain ds where b: "printint_loop 16 x base = Inr (map digit_char (rev ds))" "length ds \<le> 10"
    "numeral_of (unat base) (unat x) ds"
    using printint_loop_ok [of base x 10 16] assms(1) by auto
  let ?out = "(if xx <s 0 then [45] else []) @ map digit_char ds"
  have "ready s (length ?out)" using assms(2) b(2) by (simp add: ready_def)
  then obtain s' where s': "putbytes ?out s = Inr s'" "sent ?out s s'" using putbytes_sent by blast
  have "printint xx base True s = Inr s'"
    using b(1,2) s'(1) by (cases "xx <s 0") (simp_all add: printint_def x_def rev_map asc_def)
  moreover have "int (unat x) = \<bar>sint xx\<bar>"
    using neg32 [of xx] pos32 [of xx] by (cases "xx <s 0") (auto simp: x_def word_sless_alt)
  then have "nat \<bar>sint xx\<bar> = unat x" by linarith
  ultimately show ?thesis using b s'(2) by (intro exI [of _ s'] exI [of _ ds]) simp
qed

definition console0 :: kdev where
  "console0 = \<lparr>held = [], pmem = (\<lambda>_. 0), freelist = 0, k_end = 0x80021d60, k_etext = 0x80008000,
     k_trampoline = 0x80007000, kernel_pagetable = 0, satp = 0, u_out = [], u_in = [],
     tx_idle = concat (replicate 20 [False, True]), panicked = False, pr_locking = True\<rparr>"

theorem printint_correct_witness:
  "\<exists>s' ds. printint (- 42) 10 True console0 = Inr s' \<and> length ds \<le> 10 \<and>
    numeral_of (unat (10 :: u32)) (nat \<bar>sint (- 42 :: i32)\<bar>) ds \<and>
    sent ((if (- 42 :: i32) <s 0 then [45] else []) @ map digit_char ds) console0 s'"
  by (rule printint_correct) (simp_all add: ready_def console0_def eval_nat_numeral)

end
