(* ===== verification/Endian.thy ===== *)
theory Endian
  imports Prelude
begin

text \<open>
  Integers inside byte arrays: the little-endian layout the RISC-V compiler gives \<^verbatim>\<open>short\<close>, \<^verbatim>\<open>int\<close> and
  \<^verbatim>\<open>uint\<close> fields of a struct in a buffer, with the round trips the on-disk structures rely on.
\<close>

definition le16 :: "u16 \<Rightarrow> u8 list" where
  "le16 x = [ucast x, ucast (drop_bit 8 x)]"

definition le32 :: "u32 \<Rightarrow> u8 list" where
  "le32 x = [ucast x, ucast (drop_bit 8 x), ucast (drop_bit 16 x), ucast (drop_bit 24 x)]"

definition un16 :: "u8 list \<Rightarrow> u16" where
  "un16 bs = ucast (bs ! 0) OR push_bit 8 (ucast (bs ! 1))"

definition un32 :: "u8 list \<Rightarrow> u32" where
  "un32 bs = ucast (bs ! 0) OR push_bit 8 (ucast (bs ! 1)) OR push_bit 16 (ucast (bs ! 2)) OR push_bit 24 (ucast (bs ! 3))"

definition put_bytes :: "nat \<Rightarrow> u8 list \<Rightarrow> u8 list \<Rightarrow> u8 list" where
  "put_bytes off bs buf = take off buf @ bs @ drop (off + length bs) buf"

definition get_bytes :: "nat \<Rightarrow> nat \<Rightarrow> u8 list \<Rightarrow> u8 list" where
  "get_bytes off n buf = take n (drop off buf)"

definition get16 :: "u8 list \<Rightarrow> nat \<Rightarrow> u16" where "get16 buf off = un16 (get_bytes off 2 buf)"
definition get32 :: "u8 list \<Rightarrow> nat \<Rightarrow> u32" where "get32 buf off = un32 (get_bytes off 4 buf)"
definition put16 :: "nat \<Rightarrow> u16 \<Rightarrow> u8 list \<Rightarrow> u8 list" where "put16 off v buf = put_bytes off (le16 v) buf"
definition put32 :: "nat \<Rightarrow> u32 \<Rightarrow> u8 list \<Rightarrow> u8 list" where "put32 off v buf = put_bytes off (le32 v) buf"

lemma length_le [simp]: "length (le16 x) = 2" "length (le32 y) = 4"
  by (simp_all add: le16_def le32_def)

lemma un16_le16 [simp]: "un16 (le16 x) = x"
  by (rule bit_word_eqI) (auto simp: un16_def le16_def bit_simps)

lemma un32_le32 [simp]: "un32 (le32 x) = x"
proof (rule bit_word_eqI)
  fix n assume "n < LENGTH(32)"
  then consider "n < 8" | "8 \<le> n" "n < 16" | "16 \<le> n" "n < 24" | "24 \<le> n" "n < 32" by fastforce
  then show "bit (un32 (le32 x)) n = bit x n"
    by cases (auto simp: un32_def le32_def bit_simps)
qed

lemma length_put_bytes [simp]: "off + length bs \<le> length buf \<Longrightarrow> length (put_bytes off bs buf) = length buf"
  by (simp add: put_bytes_def)

lemma length_put [simp]:
  "off + 2 \<le> length buf \<Longrightarrow> length (put16 off v buf) = length buf"
  "off + 4 \<le> length buf \<Longrightarrow> length (put32 off w buf) = length buf"
  by (simp_all add: put16_def put32_def)

lemma nth_put_bytes:
  "off + length bs \<le> length buf \<Longrightarrow> i < length buf \<Longrightarrow>
   put_bytes off bs buf ! i = (if off \<le> i \<and> i < off + length bs then bs ! (i - off) else buf ! i)"
  by (auto simp: put_bytes_def nth_append)

lemma get_put_bytes [simp]:
  "off + length bs \<le> length buf \<Longrightarrow> n = length bs \<Longrightarrow> get_bytes off n (put_bytes off bs buf) = bs"
  by (simp add: put_bytes_def get_bytes_def)

lemma get_put_bytes_other:
  assumes "off + length bs \<le> length buf" "at + n \<le> off \<or> off + length bs \<le> at" "at + n \<le> length buf"
  shows "get_bytes at n (put_bytes off bs buf) = get_bytes at n buf"
  by (rule nth_equalityI) (use assms in \<open>auto simp: get_bytes_def nth_put_bytes\<close>)

lemma get_put16 [simp]: "off + 2 \<le> length buf \<Longrightarrow> get16 (put16 off v buf) off = v"
  by (simp add: get16_def put16_def)

lemma get_put32 [simp]: "off + 4 \<le> length buf \<Longrightarrow> get32 (put32 off v buf) off = v"
  by (simp add: get32_def put32_def)

lemma get32_put32_other:
  "off + 4 \<le> length buf \<Longrightarrow> at + 4 \<le> length buf \<Longrightarrow> at + 4 \<le> off \<or> off + 4 \<le> at \<Longrightarrow>
   get32 (put32 off v buf) at = get32 buf at"
  by (simp add: get32_def put32_def get_put_bytes_other)

end
