(* ===== verification/Proc.thy ===== *)
theory Proc
  imports Printf Endian
begin

text \<open>
  Processes, \<^verbatim>\<open>kernel/proc.c\<close> and \<^verbatim>\<open>kernel/proc.h\<close>: the process table, allocation and freeing of
  processes, \<^verbatim>\<open>sleep\<close>/\<^verbatim>\<open>wakeup\<close>, \<^verbatim>\<open>kill\<close>, \<^verbatim>\<open>wait\<close>, the two schedulers and the priority handling of
  \<^verbatim>\<open>sched\<close> and \<^verbatim>\<open>yield\<close>, and \<^verbatim>\<open>ps\<close>. (\<^verbatim>\<open>fork\<close>, \<^verbatim>\<open>exit\<close>, \<^verbatim>\<open>userinit\<close> and \<^verbatim>\<open>forkret\<close> also use
  files and inodes.)

  A pointer to a process is its index in the table. The model follows one kernel thread: what
  the rest of the system does while it is switched out is the parameter \<open>E\<close>, a function on
  states; \<open>nswitch\<close> counts the switches, so \<open>E\<close> may act differently each time. In the
  schedulers it is the other way round: \<open>R i\<close> is what process \<open>i\<close> does until it switches back.
  A loop around \<^verbatim>\<open>sleep\<close> has a bound on its rounds and is \<open>Blocked\<close> when that is used up.
\<close>

section \<open>State\<close>

datatype procstate = UNUSED | USED | SLEEPING | RUNNABLE | RUNNING | ZOMBIE

datatype chan =
    C_null | C_proc nat | C_ticks | C_log | C_sleeplock string nat | C_nread u64 | C_nwrite u64
  | C_cons_r | C_uart_tx_r | C_disk | C_buf nat

record kcontext =
  c_ra :: u64
  c_sp :: u64
  c_s :: "u64 list"

record proc =
  p_state :: procstate
  p_chan :: chan
  p_killed :: i32
  p_xstate :: i32
  p_pid :: i32
  p_priority :: u32
  p_promotion_timer :: i32
  p_parent :: "nat option"
  p_kstack :: u64
  p_sz :: u64
  p_pagetable :: u64
  p_trapframe :: u64
  p_context :: kcontext
  p_ofile :: "nat \<Rightarrow> nat option"
  p_cwd :: "nat option"
  p_name :: "u8 list"

datatype sched_impl = rr_impl | mlfq_impl

record kproc = kdev +
  ptable :: "nat \<Rightarrow> proc"
  nextpid :: i32
  initproc :: "nat option"
  cur :: "nat option"
  sched_pointer :: sched_impl
  forkret_first :: bool
  ticks :: u32
  nswitch :: nat
  k_forkret :: u64

definition upd_proc :: "nat \<Rightarrow> (proc \<Rightarrow> proc) \<Rightarrow> 'z kproc_scheme \<Rightarrow> 'z kproc_scheme" where
  "upd_proc i f s = s\<lparr>ptable := (ptable s)(i := f (ptable s i))\<rparr>"

definition MAX_PRIO :: u32 where "MAX_PRIO = 1"
definition PROM_TIME :: i32 where "PROM_TIME = 5"

section \<open>The process table\<close>

definition procinit :: "'z kproc_scheme \<Rightarrow> 'z kproc_scheme" where
  "procinit s = fold (\<lambda>i. upd_proc i (\<lambda>p. p\<lparr>p_state := UNUSED, p_kstack := KSTACK i\<rparr>)) [0..<NPROC] s"

text \<open>\<open>myproc\<close> is the field of this CPU; \<open>thisproc\<close> is \<^verbatim>\<open>myproc()\<close> where the code dereferences it.\<close>

definition myproc :: "'z kproc_scheme \<Rightarrow> nat option" where
  "myproc s = cur s"

definition thisproc :: "'z kproc_scheme \<Rightarrow> nat res" where
  "thisproc s = (case myproc s of None \<Rightarrow> Inl (Undef ''null proc'') | Some i \<Rightarrow> Inr i)"

definition allocpid :: "'z kproc_scheme \<Rightarrow> (i32 \<times> 'z kproc_scheme) res" where
  "allocpid s =
     bindE (lk_acquire L_pid s) (\<lambda>s1.
       let pid = nextpid s1 in
       bindE (lk_release L_pid (s1\<lparr>nextpid := pid + 1\<rparr>)) (\<lambda>s2. Inr (pid, s2)))"

definition proc_pagetable :: "nat \<Rightarrow> 'z kproc_scheme \<Rightarrow> (u64 \<times> 'z kproc_scheme) res" where
  "proc_pagetable i s =
     bindE (uvmcreate s) (\<lambda>(pt, s1).
       if pt = 0 then Inr (0, s1)
       else bindE (mappages pt TRAMPOLINE PGSIZE (k_trampoline s1) (PTE_R OR PTE_X) s1) (\<lambda>(r, s2).
         if r < 0 then bindE (uvmfree pt 0 s2) (\<lambda>s3. Inr (0, s3))
         else bindE (mappages pt TRAPFRAME PGSIZE (p_trapframe (ptable s2 i)) (PTE_R OR PTE_W) s2) (\<lambda>(r, s3).
           if r < 0
           then bindE (uvmunmap pt TRAMPOLINE 1 False s3) (\<lambda>s4. bindE (uvmfree pt 0 s4) (\<lambda>s5. Inr (0, s5)))
           else Inr (pt, s3))))"

definition proc_freepagetable :: "u64 \<Rightarrow> u64 \<Rightarrow> 'z kproc_scheme \<Rightarrow> 'z kproc_scheme res" where
  "proc_freepagetable pt size_b s =
     bindE (uvmunmap pt TRAMPOLINE 1 False s) (\<lambda>s1.
     bindE (uvmunmap pt TRAPFRAME 1 False s1) (\<lambda>s2. uvmfree pt size_b s2))"

definition freeproc :: "nat \<Rightarrow> 'z kproc_scheme \<Rightarrow> 'z kproc_scheme res" where
  "freeproc i s =
     bindE (if p_trapframe (ptable s i) \<noteq> 0 then kfree (p_trapframe (ptable s i)) s else Inr s) (\<lambda>s1.
     let s2 = upd_proc i (\<lambda>p. p\<lparr>p_trapframe := 0\<rparr>) s1 in
     bindE (if p_pagetable (ptable s2 i) \<noteq> 0
            then proc_freepagetable (p_pagetable (ptable s2 i)) (p_sz (ptable s2 i)) s2 else Inr s2) (\<lambda>s3.
       Inr (upd_proc i (\<lambda>p. p\<lparr>p_pagetable := 0, p_sz := 0, p_pid := 0, p_parent := None,
              p_name := (p_name p)[0 := 0], p_chan := C_null, p_killed := 0, p_xstate := 0,
              p_state := UNUSED\<rparr>) s3)))"

text \<open>The scan of \<^verbatim>\<open>allocproc\<close>: the lock of the slot found stays held.\<close>

fun find_unused :: "nat list \<Rightarrow> 'z kproc_scheme \<Rightarrow> (nat option \<times> 'z kproc_scheme) res" where
  "find_unused [] s = Inr (None, s)"
| "find_unused (i # is) s =
     bindE (lk_acquire (L_proc i) s) (\<lambda>s1.
       if p_state (ptable s1 i) = UNUSED then Inr (Some i, s1)
       else bindE (lk_release (L_proc i) s1) (find_unused is))"

definition allocproc :: "'z kproc_scheme \<Rightarrow> (nat option \<times> 'z kproc_scheme) res" where
  "allocproc s =
     bindE (find_unused [0..<NPROC] s) (\<lambda>(r, s1).
       case r of None \<Rightarrow> Inr (None, s1)
       | Some i \<Rightarrow>
         bindE (allocpid s1) (\<lambda>(pid, s2).
         let s3 = upd_proc i (\<lambda>p. p\<lparr>p_pid := pid, p_state := USED, p_priority := 0, p_promotion_timer := 0\<rparr>) s2 in
         bindE (kalloc s3) (\<lambda>(tf, s4).
         let s5 = upd_proc i (\<lambda>p. p\<lparr>p_trapframe := tf\<rparr>) s4 in
         if tf = 0
         then bindE (freeproc i s5) (\<lambda>s6. bindE (lk_release (L_proc i) s6) (\<lambda>s7. Inr (None, s7)))
         else bindE (proc_pagetable i s5) (\<lambda>(pt, s6).
           let s7 = upd_proc i (\<lambda>p. p\<lparr>p_pagetable := pt\<rparr>) s6 in
           if pt = 0
           then bindE (freeproc i s7) (\<lambda>s8. bindE (lk_release (L_proc i) s8) (\<lambda>s9. Inr (None, s9)))
           else Inr (Some i, upd_proc i (\<lambda>p. p\<lparr>p_context :=
                  \<lparr>c_ra = k_forkret s7, c_sp = p_kstack p + PGSIZE, c_s = replicate 12 0\<rparr>\<rparr>) s7)))))"

definition growproc :: "i32 \<Rightarrow> 'z kproc_scheme \<Rightarrow> (int \<times> 'z kproc_scheme) res" where
  "growproc n s =
     bindE (thisproc s) (\<lambda>i.
       let p = ptable s i; size_b = p_sz p in
       if 0 <s n
       then bindE (uvmalloc (p_pagetable p) size_b (size_b + scast n) PTE_W s) (\<lambda>(sz', s1).
              if sz' = 0 then Inr (- 1, s1) else Inr (0, upd_proc i (\<lambda>p. p\<lparr>p_sz := sz'\<rparr>) s1))
       else if n <s 0
       then bindE (uvmdealloc (p_pagetable p) size_b (size_b + scast n) s) (\<lambda>(sz', s1).
              Inr (0, upd_proc i (\<lambda>p. p\<lparr>p_sz := sz'\<rparr>) s1))
       else Inr (0, upd_proc i (\<lambda>p. p\<lparr>p_sz := size_b\<rparr>) s))"

section \<open>\<^verbatim>\<open>ps\<close>\<close>

fun state_num :: "procstate \<Rightarrow> i32" where
  "state_num UNUSED = 0"
| "state_num USED = 1"
| "state_num SLEEPING = 2"
| "state_num RUNNABLE = 3"
| "state_num RUNNING = 4"
| "state_num ZOMBIE = 5"

text \<open>Sizes as the compiler lays the structs out: \<^verbatim>\<open>struct user_proc\<close>, and the array \<^verbatim>\<open>proc\<close>.\<close>

definition USER_PROC_SIZE :: nat where "USER_PROC_SIZE = 36"
definition PROC_ARRAY_SIZE :: nat where "PROC_ARRAY_SIZE = 368 * NPROC"

definition copy_array :: "u8 list \<Rightarrow> nat \<Rightarrow> nat \<Rightarrow> u8 list \<Rightarrow> u8 list" where
  "copy_array src off len buf = put_bytes off (take len src) buf"

text \<open>One filled entry of \<^verbatim>\<open>loc_result\<close>; \<^verbatim>\<open>parent_id\<close> is left as it was when there is no parent.\<close>

definition ps_entry :: "nat \<Rightarrow> nat \<Rightarrow> 'z kproc_scheme \<Rightarrow> u8 list \<Rightarrow> u8 list" where
  "ps_entry k i s buf =
     (let p = ptable s i; at = USER_PROC_SIZE * k;
          b1 = put_bytes at (le32 (state_num (p_state p))) buf;
          b2 = put_bytes (at + 4) (le32 (p_killed p)) b1;
          b3 = put_bytes (at + 8) (le32 (p_xstate p)) b2;
          b4 = put_bytes (at + 12) (le32 (p_pid p)) b3;
          b5 = copy_array (p_name p) (at + 20) 16 b4
      in case p_parent p of None \<Rightarrow> b5
         | Some q \<Rightarrow> put_bytes (at + 16) (le32 (p_pid (ptable s q))) b5)"

fun ps_loop :: "nat list \<Rightarrow> nat \<Rightarrow> nat \<Rightarrow> u8 list \<Rightarrow> 'z kproc_scheme \<Rightarrow> (nat \<times> u8 list \<times> 'z kproc_scheme) res" where
  "ps_loop [] localCount count buf s = Inr (localCount, buf, s)"
| "ps_loop (i # is) localCount count buf s =
     (if localCount = count then Inr (localCount, buf, s)
      else bindE (lk_acquire (L_proc i) s) (\<lambda>s1.
        if p_state (ptable s1 i) = UNUSED
        then bindE (lk_release (L_proc i) s1) (\<lambda>s2.
               Inr (localCount, put_bytes (USER_PROC_SIZE * localCount) (le32 (state_num UNUSED)) buf, s2))
        else let buf1 = ps_entry localCount i s1 buf in
             bindE (lk_release (L_proc i) s1) (\<lambda>s2. ps_loop is (localCount + 1) count buf1 s2)))"

text \<open>\<open>junk\<close> is what the uninitialised \<^verbatim>\<open>loc_result\<close> holds; the result of \<^verbatim>\<open>copyout\<close> is ignored.\<close>

definition ps :: "u8 \<Rightarrow> u8 \<Rightarrow> u8 list \<Rightarrow> 'z kproc_scheme \<Rightarrow> (u64 \<times> 'z kproc_scheme) res" where
  "ps start count junk s =
     bindE (thisproc s) (\<lambda>me.
       let result = p_sz (ptable s me) in
       if count = 0 then Inr (0, s)
       else bindE (growproc (of_nat (unat count * USER_PROC_SIZE)) s) (\<lambda>(r, s1).
         if r < 0 then Inr (0, s1)
         else let p = unat start * PROC_ARRAY_SIZE in
           if NPROC \<le> p then Inr (0, s1)
           else bindE (ps_loop [p..<NPROC] 0 (unat count) junk s1) (\<lambda>(localCount, buf, s2).
             let buf1 = (if localCount < unat count
                         then put_bytes (USER_PROC_SIZE * localCount) (le32 (state_num UNUSED)) buf else buf)
             in bindE (copyout (p_pagetable (ptable s2 me)) result (take (unat count * USER_PROC_SIZE) buf1) s2)
                  (\<lambda>(_, s3). Inr (result, s3)))))"

section \<open>Switching, sleeping and waking\<close>

definition promote :: "proc \<Rightarrow> proc" where
  "promote p =
     (if 0 < p_priority p
      then let t = p_promotion_timer p - 1
           in p\<lparr>p_promotion_timer := t, p_priority := if t = 0 then 0 else p_priority p\<rparr>
      else p)"

text \<open>
  \<^verbatim>\<open>noff\<close> is the number of locks held; \<^verbatim>\<open>swtch\<close> to the scheduler and the eventual switch back is
  \<open>E\<close>. Interrupts are off because a lock is held.
\<close>

definition sched :: "('z kproc_scheme \<Rightarrow> 'z kproc_scheme) \<Rightarrow> 'z kproc_scheme \<Rightarrow> 'z kproc_scheme res" where
  "sched E s =
     (let s1 = fold (\<lambda>i. upd_proc i promote) [0..<NPROC] s in
      bindE (thisproc s1) (\<lambda>i.
        if \<not> lk_holding (L_proc i) s1 then Inl (Panic ''sched p->lock'')
        else if length (held s1) \<noteq> 1 then Inl (Panic ''sched locks'')
        else if p_state (ptable s1 i) = RUNNING then Inl (Panic ''sched running'')
        else Inr (E (s1\<lparr>nswitch := nswitch s1 + 1\<rparr>))))"

datatype yield_reason = YIELD_TIMER | YIELD_OTHER

definition demote :: "proc \<Rightarrow> proc" where
  "demote p = p\<lparr>p_priority := if MAX_PRIO < p_priority p + 1 then p_priority p else p_priority p + 1,
     p_promotion_timer := PROM_TIME\<rparr>"

definition yield :: "('z kproc_scheme \<Rightarrow> 'z kproc_scheme) \<Rightarrow> yield_reason \<Rightarrow> 'z kproc_scheme \<Rightarrow> 'z kproc_scheme res" where
  "yield E reason s =
     bindE (thisproc s) (\<lambda>i.
     bindE (lk_acquire (L_proc i) s) (\<lambda>s1.
     let s2 = upd_proc i (\<lambda>p. p\<lparr>p_state := RUNNABLE\<rparr>) s1;
         s3 = (if reason = YIELD_TIMER then upd_proc i demote s2 else s2)
     in bindE (sched E s3) (\<lambda>s4. lk_release (L_proc i) s4)))"

definition sleep :: "('z kproc_scheme \<Rightarrow> 'z kproc_scheme) \<Rightarrow> chan \<Rightarrow> lockid \<Rightarrow> 'z kproc_scheme \<Rightarrow> 'z kproc_scheme res" where
  "sleep E ch lk s =
     bindE (thisproc s) (\<lambda>i.
     bindE (lk_acquire (L_proc i) s) (\<lambda>s1.
     bindE (lk_release lk s1) (\<lambda>s2.
     bindE (sched E (upd_proc i (\<lambda>p. p\<lparr>p_chan := ch, p_state := SLEEPING\<rparr>) s2)) (\<lambda>s3.
     bindE (lk_release (L_proc i) (upd_proc i (\<lambda>p. p\<lparr>p_chan := C_null\<rparr>) s3)) (\<lambda>s4.
       lk_acquire lk s4)))))"

definition wake_one :: "chan \<Rightarrow> nat \<Rightarrow> 'z kproc_scheme \<Rightarrow> 'z kproc_scheme res" where
  "wake_one ch i s =
     (if myproc s = Some i then Inr s
      else bindE (lk_acquire (L_proc i) s) (\<lambda>s1.
        lk_release (L_proc i)
          (if p_state (ptable s1 i) = SLEEPING \<and> p_chan (ptable s1 i) = ch
           then upd_proc i (\<lambda>p. p\<lparr>p_state := RUNNABLE\<rparr>) s1 else s1)))"

definition wakeup :: "chan \<Rightarrow> 'z kproc_scheme \<Rightarrow> 'z kproc_scheme res" where
  "wakeup ch s = foldE (wake_one ch) [0..<NPROC] s"

fun kill_loop :: "nat list \<Rightarrow> i32 \<Rightarrow> 'z kproc_scheme \<Rightarrow> (int \<times> 'z kproc_scheme) res" where
  "kill_loop [] pid s = Inr (- 1, s)"
| "kill_loop (i # is) pid s =
     bindE (lk_acquire (L_proc i) s) (\<lambda>s1.
       if p_pid (ptable s1 i) = pid
       then let s2 = upd_proc i (\<lambda>p. p\<lparr>p_killed := 1\<rparr>) s1;
                s3 = (if p_state (ptable s2 i) = SLEEPING
                      then upd_proc i (\<lambda>p. p\<lparr>p_state := RUNNABLE\<rparr>) s2 else s2)
            in bindE (lk_release (L_proc i) s3) (\<lambda>s4. Inr (0, s4))
       else bindE (lk_release (L_proc i) s1) (kill_loop is pid))"

definition kill :: "i32 \<Rightarrow> 'z kproc_scheme \<Rightarrow> (int \<times> 'z kproc_scheme) res" where
  "kill pid s = kill_loop [0..<NPROC] pid s"

definition setkilled :: "nat \<Rightarrow> 'z kproc_scheme \<Rightarrow> 'z kproc_scheme res" where
  "setkilled i s =
     bindE (lk_acquire (L_proc i) s) (\<lambda>s1. lk_release (L_proc i) (upd_proc i (\<lambda>p. p\<lparr>p_killed := 1\<rparr>) s1))"

definition killed :: "nat \<Rightarrow> 'z kproc_scheme \<Rightarrow> (i32 \<times> 'z kproc_scheme) res" where
  "killed i s =
     bindE (lk_acquire (L_proc i) s) (\<lambda>s1.
       let k = p_killed (ptable s1 i) in bindE (lk_release (L_proc i) s1) (\<lambda>s2. Inr (k, s2)))"

section \<open>Children\<close>

definition proc_chan :: "nat option \<Rightarrow> chan" where
  "proc_chan q = (case q of None \<Rightarrow> C_null | Some i \<Rightarrow> C_proc i)"

definition reparent :: "nat \<Rightarrow> 'z kproc_scheme \<Rightarrow> 'z kproc_scheme res" where
  "reparent i s =
     foldE (\<lambda>j s. if p_parent (ptable s j) = Some i
              then wakeup (proc_chan (initproc s)) (upd_proc j (\<lambda>p. p\<lparr>p_parent := initproc s\<rparr>) s)
              else Inr s) [0..<NPROC] s"

text \<open>
  One scan of \<^verbatim>\<open>wait\<close>: \<open>Inl (r, s)\<close> inside the result if it returns \<open>r\<close> (with \<^verbatim>\<open>wait_lock\<close> released),
  \<open>Inr (havekids, s)\<close> if it comes to the end of the table.
\<close>

fun wait_scan ::
  "nat list \<Rightarrow> bool \<Rightarrow> nat \<Rightarrow> u64 \<Rightarrow> 'z kproc_scheme \<Rightarrow> ((int \<times> 'z kproc_scheme) + (bool \<times> 'z kproc_scheme)) res" where
  "wait_scan [] havekids me addr s = Inr (Inr (havekids, s))"
| "wait_scan (j # js) havekids me addr s =
     (if p_parent (ptable s j) = Some me
      then bindE (lk_acquire (L_proc j) s) (\<lambda>s1.
        if p_state (ptable s1 j) = ZOMBIE
        then let pid = p_pid (ptable s1 j) in
             bindE (if addr \<noteq> 0
                    then copyout (p_pagetable (ptable s1 me)) addr (le32 (p_xstate (ptable s1 j))) s1
                    else Inr (0, s1)) (\<lambda>(r, s2).
             if r < 0
             then bindE (lk_release (L_proc j) s2) (\<lambda>s3.
                  bindE (lk_release L_wait s3) (\<lambda>s4. Inr (Inl (- 1, s4))))
             else bindE (freeproc j s2) (\<lambda>s3.
                  bindE (lk_release (L_proc j) s3) (\<lambda>s4.
                  bindE (lk_release L_wait s4) (\<lambda>s5. Inr (Inl (sint pid, s5))))))
        else bindE (lk_release (L_proc j) s1) (wait_scan js True me addr))
      else wait_scan js havekids me addr s)"

fun wait_loop ::
  "nat \<Rightarrow> ('z kproc_scheme \<Rightarrow> 'z kproc_scheme) \<Rightarrow> nat \<Rightarrow> u64 \<Rightarrow> 'z kproc_scheme \<Rightarrow> (int \<times> 'z kproc_scheme) res" where
  "wait_loop 0 E me addr s = Inl (Blocked ''wait'')"
| "wait_loop (Suc n) E me addr s =
     bindE (wait_scan [0..<NPROC] False me addr s) (\<lambda>r.
       case r of Inl ret \<Rightarrow> Inr ret
       | Inr (havekids, s1) \<Rightarrow>
           bindE (if \<not> havekids then Inr (1, s1) else killed me s1) (\<lambda>(k, s2).
             if k \<noteq> 0 then bindE (lk_release L_wait s2) (\<lambda>s3. Inr (- 1, s3))
             else bindE (sleep E (C_proc me) L_wait s2) (wait_loop n E me addr)))"

definition wait :: "nat \<Rightarrow> ('z kproc_scheme \<Rightarrow> 'z kproc_scheme) \<Rightarrow> u64 \<Rightarrow> 'z kproc_scheme \<Rightarrow> (int \<times> 'z kproc_scheme) res" where
  "wait fuel E addr s =
     bindE (thisproc s) (\<lambda>me. bindE (lk_acquire L_wait s) (wait_loop fuel E me addr))"

section \<open>The schedulers\<close>

definition run_proc :: "(nat \<Rightarrow> 'z kproc_scheme \<Rightarrow> 'z kproc_scheme) \<Rightarrow> nat \<Rightarrow> 'z kproc_scheme \<Rightarrow> 'z kproc_scheme" where
  "run_proc R i s = R i ((upd_proc i (\<lambda>p. p\<lparr>p_state := RUNNING\<rparr>) s)\<lparr>cur := Some i\<rparr>)"

definition rr_step :: "(nat \<Rightarrow> 'z kproc_scheme \<Rightarrow> 'z kproc_scheme) \<Rightarrow> nat \<Rightarrow> 'z kproc_scheme \<Rightarrow> 'z kproc_scheme res" where
  "rr_step R i s =
     bindE (lk_acquire (L_proc i) s) (\<lambda>s1.
       lk_release (L_proc i)
         (if p_state (ptable s1 i) = RUNNABLE then (run_proc R i s1)\<lparr>cur := None\<rparr> else s1))"

definition rr_scheduler :: "(nat \<Rightarrow> 'z kproc_scheme \<Rightarrow> 'z kproc_scheme) \<Rightarrow> 'z kproc_scheme \<Rightarrow> 'z kproc_scheme res" where
  "rr_scheduler R s = foldE (rr_step R) [0..<NPROC] (s\<lparr>cur := None\<rparr>)"

text \<open>A pass over the high priority processes: \<open>(True, _, s)\<close> if the function returns in it.\<close>

fun mlfq_high :: "(nat \<Rightarrow> 'z kproc_scheme \<Rightarrow> 'z kproc_scheme) \<Rightarrow> nat list \<Rightarrow> bool \<Rightarrow> 'z kproc_scheme \<Rightarrow> (bool \<times> bool \<times> 'z kproc_scheme) res" where
  "mlfq_high R [] high_avail s = Inr (False, high_avail, s)"
| "mlfq_high R (i # is) high_avail s =
     bindE (lk_acquire (L_proc i) s) (\<lambda>s1.
       if 0 < p_priority (ptable s1 i)
       then bindE (lk_release (L_proc i) s1) (mlfq_high R is high_avail)
       else if p_state (ptable s1 i) = RUNNABLE
       then let s2 = run_proc R i s1 in
            if sched_pointer s2 \<noteq> mlfq_impl
            then bindE (lk_release (L_proc i) s2) (\<lambda>s3. Inr (True, True, s3))
            else bindE (lk_release (L_proc i) (s2\<lparr>cur := None\<rparr>)) (mlfq_high R is True)
       else bindE (lk_release (L_proc i) s1) (mlfq_high R is high_avail))"

fun mlfq_low :: "(nat \<Rightarrow> 'z kproc_scheme \<Rightarrow> 'z kproc_scheme) \<Rightarrow> nat list \<Rightarrow> 'z kproc_scheme \<Rightarrow> 'z kproc_scheme res" where
  "mlfq_low R [] s = Inr s"
| "mlfq_low R (i # is) s =
     bindE (lk_acquire (L_proc i) s) (\<lambda>s1.
       if p_priority (ptable s1 i) = 0 \<and> p_state (ptable s1 i) = RUNNABLE
       then lk_release (L_proc i) s1
       else if p_state (ptable s1 i) = RUNNABLE
       then let s2 = run_proc R i s1 in
            if sched_pointer s2 \<noteq> mlfq_impl then lk_release (L_proc i) s2
            else bindE (lk_release (L_proc i) (s2\<lparr>cur := None\<rparr>)) (mlfq_low R is)
       else bindE (lk_release (L_proc i) s1) (mlfq_low R is))"

text \<open>The do-while loop of \<^verbatim>\<open>mlfq_scheduler\<close> goes on as long as a high priority process was run; \<open>n\<close>
  bounds the passes.\<close>

fun mlfq_loop :: "nat \<Rightarrow> (nat \<Rightarrow> 'z kproc_scheme \<Rightarrow> 'z kproc_scheme) \<Rightarrow> 'z kproc_scheme \<Rightarrow> 'z kproc_scheme res" where
  "mlfq_loop 0 R s = Inl (Blocked ''mlfq_scheduler'')"
| "mlfq_loop (Suc n) R s =
     bindE (mlfq_high R [0..<NPROC] False s) (\<lambda>(ret, high_avail, s1).
       if ret then Inr s1
       else if high_avail then mlfq_loop n R s1
       else mlfq_low R [0..<NPROC] s1)"

definition mlfq_scheduler :: "nat \<Rightarrow> (nat \<Rightarrow> 'z kproc_scheme \<Rightarrow> 'z kproc_scheme) \<Rightarrow> 'z kproc_scheme \<Rightarrow> 'z kproc_scheme res" where
  "mlfq_scheduler n R s = mlfq_loop n R (s\<lparr>cur := None\<rparr>)"

text \<open>\<open>rounds\<close> rounds of the endless loop of \<^verbatim>\<open>scheduler\<close>.\<close>

primrec scheduler :: "nat \<Rightarrow> nat \<Rightarrow> (nat \<Rightarrow> 'z kproc_scheme \<Rightarrow> 'z kproc_scheme) \<Rightarrow> 'z kproc_scheme \<Rightarrow> 'z kproc_scheme res" where
  "scheduler 0 n R s = Inr s"
| "scheduler (Suc rounds) n R s =
     bindE (case sched_pointer s of rr_impl \<Rightarrow> rr_scheduler R s | mlfq_impl \<Rightarrow> mlfq_scheduler n R s)
       (scheduler rounds n R)"

section \<open>Copies and listings\<close>

text \<open>
  A kernel destination or source is a variable of the caller: \<open>either_copyout\<close> then leaves the
  state alone (the caller has the bytes), \<open>either_copyin\<close> takes the bytes of the source.
\<close>

definition either_copyout :: "bool \<Rightarrow> u64 \<Rightarrow> u8 list \<Rightarrow> 'z kproc_scheme \<Rightarrow> (int \<times> 'z kproc_scheme) res" where
  "either_copyout user_dst dst src s =
     (if user_dst then bindE (thisproc s) (\<lambda>i. copyout (p_pagetable (ptable s i)) dst src s)
      else Inr (0, s))"

datatype iosrc = USrc u64 | KSrc "u8 list"

fun src_add :: "iosrc \<Rightarrow> nat \<Rightarrow> iosrc" where
  "src_add (USrc a) n = USrc (a + of_nat n)"
| "src_add (KSrc bs) n = KSrc (drop n bs)"

definition either_copyin :: "iosrc \<Rightarrow> nat \<Rightarrow> 'z kproc_scheme \<Rightarrow> (int \<times> u8 list) res" where
  "either_copyin src len s =
     (case src of USrc a \<Rightarrow> bindE (thisproc s) (\<lambda>i. copyin (p_pagetable (ptable s i)) a len s)
      | KSrc bs \<Rightarrow> if len \<le> length bs then Inr (0, take len bs) else Inl (Undef ''either_copyin''))"

fun state_name :: "procstate \<Rightarrow> string" where
  "state_name UNUSED = ''unused''"
| "state_name USED = ''used''"
| "state_name SLEEPING = ''sleep ''"
| "state_name RUNNABLE = ''runble''"
| "state_name RUNNING = ''run   ''"
| "state_name ZOMBIE = ''zombie''"

definition nl :: char where "nl = CHR 0x0A"
definition tab :: char where "tab = CHR 0x09"

definition procdump :: "'z kproc_scheme \<Rightarrow> 'z kproc_scheme res" where
  "procdump s =
     bindE (printf [nl] [] s) (\<lambda>s1.
       foldE (\<lambda>i s.
         if p_state (ptable s i) = UNUSED then Inr s
         else bindE (printf ''%d <%s %s'' [AInt (p_pid (ptable s i)), AStr (Some (asc (state_name (p_state (ptable s i))))),
                       AStr (Some (cstr (p_name (ptable s i))))] s) (\<lambda>s2. printf [nl] [] s2)) [0..<NPROC] s1)"

text \<open>The table \<^verbatim>\<open>available_schedulers\<close> and the two functions of the scheduler system calls.\<close>

definition available_schedulers :: "(string \<times> sched_impl \<times> i32) list" where
  "available_schedulers = [(''Round Robin'', rr_impl, 1), (''MLFQ Sched'', mlfq_impl, 2)]"

definition schedls :: "'z kproc_scheme \<Rightarrow> 'z kproc_scheme res" where
  "schedls s =
     bindE (printf (''[ ]'' @ [tab] @ ''Scheduler Name'' @ [tab] @ ''Scheduler ID'' @ [nl]) [] s) (\<lambda>s1.
     bindE (printf (replicate 36 (CHR ''='') @ [nl]) [] s1) (\<lambda>s2.
     bindE (foldE (\<lambda>(name, impl, ident) s.
         bindE (if impl = sched_pointer s then printf (''[*]'' @ [tab]) [] s else printf (''   '' @ [tab]) [] s) (\<lambda>s'.
           printf (''%s'' @ [tab] @ ''%d'' @ [nl]) [AStr (Some (asc name)), AInt ident] s')) available_schedulers s2) (\<lambda>s3.
       printf ([nl] @ ''*: current scheduler'' @ [nl, nl]) [] s3)))"

definition schedset :: "i32 \<Rightarrow> 'z kproc_scheme \<Rightarrow> 'z kproc_scheme res" where
  "schedset ident s =
     (let k = sint (ident - 1) in
      if k < 0 \<or> int (length available_schedulers) \<le> k then Inl (Undef ''schedset: index'')
      else let (name, impl, _) = available_schedulers ! nat k in
           printf (''Scheduler successfully changed to %s'' @ [nl]) [AStr (Some (asc name))]
             (s\<lparr>sched_pointer := impl\<rparr>))"

end
