(* ===== verification/Pagetable.thy ===== *)
theory Pagetable
  imports Vm
begin

text \<open>
  Correctness of the page-table code of \<open>Vm\<close>: the abstract view of a table (\<open>tnode\<close>, \<open>pte_of\<close>),
  the invariant \<open>vm_ok\<close> that the tables form a tree of distinct allocated pages, and what
  \<^verbatim>\<open>walk\<close>, \<^verbatim>\<open>mappages\<close>, \<^verbatim>\<open>uvmunmap\<close> and the copies do to that view.
\<close>

section \<open>The abstract view\<close>

text \<open>\<open>tnode m pt k va\<close>: the table page the hardware reaches for \<open>va\<close> after \<open>k\<close> steps.\<close>

fun tnode :: "mem \<Rightarrow> u64 \<Rightarrow> nat \<Rightarrow> u64 \<Rightarrow> u64 option" where
  "tnode m pt 0 va = Some pt"
| "tnode m pt (Suc k) va =
     (case tnode m pt k va of None \<Rightarrow> None
      | Some t \<Rightarrow> let e = load64 m (t + 8 * PX (2 - k) va)
                  in if e AND PTE_V \<noteq> 0 then Some (PTE2PA e) else None)"

definition pte_of :: "mem \<Rightarrow> u64 \<Rightarrow> u64 \<Rightarrow> u64" where
  "pte_of m pt va = (case tnode m pt 2 va of None \<Rightarrow> 0 | Some t \<Rightarrow> load64 m (t + 8 * PX 0 va))"

definition pte_addr :: "mem \<Rightarrow> u64 \<Rightarrow> u64 \<Rightarrow> u64" where
  "pte_addr m pt va = (case tnode m pt 2 va of None \<Rightarrow> 0 | Some t \<Rightarrow> t + 8 * PX 0 va)"

definition agree :: "nat \<Rightarrow> u64 \<Rightarrow> u64 \<Rightarrow> bool" where
  "agree k va va' \<longleftrightarrow> (\<forall>j < k. PX (2 - j) va = PX (2 - j) va')"

definition tnodes :: "mem \<Rightarrow> u64 \<Rightarrow> u64 set" where
  "tnodes m pt = {t. \<exists>k \<le> 2. \<exists>va. tnode m pt k va = Some t}"

definition tree :: "mem \<Rightarrow> u64 \<Rightarrow> bool" where
  "tree m pt \<longleftrightarrow> (\<forall>k k' va va' t. k \<le> 2 \<longrightarrow> k' \<le> 2 \<longrightarrow> tnode m pt k va = Some t \<longrightarrow>
     tnode m pt k' va' = Some t \<longrightarrow> k = k' \<and> agree k va va')"

definition vm_ok :: "'z kmach_scheme \<Rightarrow> u64 list \<Rightarrow> u64 \<Rightarrow> bool" where
  "vm_ok s xs pt \<longleftrightarrow> kmem_ok s xs \<and> L_kmem \<notin> set (held s) \<and> tree (pmem s) pt \<and>
     (\<forall>t \<in> tnodes (pmem s) pt. ram_page s t \<and> t \<notin> set xs)"

lemma agree_0 [simp]: "agree 0 va va'"
  and agree_Suc: "agree (Suc k) va va' \<longleftrightarrow> agree k va va' \<and> PX (2 - k) va = PX (2 - k) va'"
  by (auto simp: agree_def less_Suc_eq)

lemma agree_refl [simp]: "agree k va va"
  by (simp add: agree_def)

lemma agree_tnode: "agree k va va' \<Longrightarrow> tnode m pt k va = tnode m pt k va'"
  by (induction k) (auto simp: agree_Suc split: option.splits)

lemma agree_page:
  assumes "va < MAXVA" "va' < MAXVA"
  shows "agree 3 va va' \<longleftrightarrow> PGROUNDDOWN va = PGROUNDDOWN va'"
proof
  assume "agree 3 va va'"
  then have "PX 2 va = PX 2 va'" "PX 1 va = PX 1 va'" "PX 0 va = PX 0 va'"
    by (auto simp: agree_def eval_nat_numeral less_Suc_eq)
  then show "PGROUNDDOWN va = PGROUNDDOWN va'" using assms by (intro va_indices_unique)
next
  assume "PGROUNDDOWN va = PGROUNDDOWN va'"
  then show "agree 3 va va'" by (metis agree_def PX_PGROUNDDOWN)
qed

lemma agree_3: "agree 3 va va' \<longleftrightarrow> agree 2 va va' \<and> PX 0 va = PX 0 va'"
  using agree_Suc [of 2] by (simp add: eval_nat_numeral)

lemma tree_eq: "tree m pt \<Longrightarrow> k \<le> 2 \<Longrightarrow> k' \<le> 2 \<Longrightarrow> tnode m pt k va = Some t \<Longrightarrow>
    tnode m pt k' va' = Some t \<Longrightarrow> k = k' \<and> agree k va va'"
  unfolding tree_def by blast

lemma tnodesI: "k \<le> 2 \<Longrightarrow> tnode m pt k va = Some t \<Longrightarrow> t \<in> tnodes m pt"
  unfolding tnodes_def by blast

lemma vm_ok_node:
  assumes "vm_ok s xs pt" "k \<le> 2" "tnode (pmem s) pt k va = Some t"
  shows "ram_page s t" "page_aligned t" "t \<notin> set xs" "t \<noteq> 0"
  using assms tnodesI [OF assms(2,3)] ram_page_ne0
  by (auto simp: vm_ok_def ram_page_def kmem_ok_def)

lemma PTE2PA_aligned [simp]: "page_aligned (PTE2PA e)"
  by (auto simp: page_aligned_def PTE2PA_def bit_eq_iff bit_simps)

section \<open>\<^verbatim>\<open>walk\<close> without allocation\<close>

lemma walk_noalloc:
  "va < MAXVA \<Longrightarrow> walk pt va False s = Inr (pte_addr (pmem s) pt va, s)"
  by (simp add: walk_def pte_addr_def numeral_2_eq_2 Let_def not_le split: option.splits)

lemma walkaddr_eq:
  assumes "vm_ok s xs pt"
  shows "walkaddr pt va s =
    Inr (if va < MAXVA \<and> pte_of (pmem s) pt va AND PTE_V \<noteq> 0 \<and> pte_of (pmem s) pt va AND PTE_U \<noteq> 0
         then PTE2PA (pte_of (pmem s) pt va) else 0)"
proof (cases "tnode (pmem s) pt 2 va")
  case None
  then show ?thesis
    by (auto simp: walkaddr_def walk_noalloc pte_addr_def pte_of_def not_less)
next
  case (Some t)
  have "t + 8 * PX 0 va \<noteq> 0"
    using vm_ok_node [OF assms _ Some] pte_addr_page [of t 0 va] by (auto simp: PGROUNDDOWN_def)
  with Some show ?thesis
    by (auto simp: walkaddr_def walk_noalloc pte_addr_def pte_of_def not_less Let_def)
qed

section \<open>Writing a leaf entry\<close>

text \<open>A store to an entry of a table page is seen by that entry alone.\<close>

lemma load64_entry:
  assumes "page_aligned t" "page_aligned t'"
  shows "load64 (store64 m (t + 8 * PX l va) e) (t' + 8 * PX l' va') =
    (if t' = t \<and> PX l' va' = PX l va then e else load64 m (t' + 8 * PX l' va'))"
proof (cases "t' = t \<and> PX l' va' = PX l va")
  case False
  then have "t' + 8 * PX l' va' \<noteq> t + 8 * PX l va"
    using assms pte_addr_page [of t l va] pte_addr_page [of t' l' va'] pte_addr_inj [of t l va l' va']
    by metis
  then show ?thesis
    using False by (auto simp: load64_store64_other pte_addr_aligned8 assms)
qed simp

lemma tnode_leaf_store:
  assumes ok: "vm_ok s xs pt" and t: "tnode (pmem s) pt 2 va = Some t" and "k \<le> 2"
  shows "tnode (store64 (pmem s) (t + 8 * PX 0 va) e) pt k va' = tnode (pmem s) pt k va'"
  using assms(3)
proof (induction k)
  case (Suc k)
  show ?case
  proof (cases "tnode (pmem s) pt k va'")
    case None
    then show ?thesis using Suc by simp
  next
    case (Some t')
    have tr: "tree (pmem s) pt" using ok by (simp add: vm_ok_def)
    have "t' \<noteq> t" using tree_eq [OF tr _ _ Some, of 2 va] t Suc(2) by auto
    moreover have "page_aligned t" "page_aligned t'"
      using vm_ok_node(2) [OF ok _ t] vm_ok_node(2) [OF ok _ Some] Suc(2) by simp_all
    ultimately show ?thesis using Suc Some by (simp add: load64_entry)
  qed
qed simp

lemma pte_of_leaf_store:
  assumes ok: "vm_ok s xs pt" and t: "tnode (pmem s) pt 2 va = Some t"
    and va: "va < MAXVA" "va' < MAXVA"
  shows "pte_of (store64 (pmem s) (t + 8 * PX 0 va) e) pt va' =
    (if PGROUNDDOWN va' = PGROUNDDOWN va then e else pte_of (pmem s) pt va')"
proof (cases "tnode (pmem s) pt 2 va'")
  case None
  then have "PGROUNDDOWN va' \<noteq> PGROUNDDOWN va"
    using t agree_page [OF va] agree_tnode [of 2 va va'] by (auto simp: agree_3)
  then show ?thesis using None by (simp add: pte_of_def tnode_leaf_store [OF ok t])
next
  case (Some t')
  have "t' = t \<and> PX 0 va' = PX 0 va \<longleftrightarrow> PGROUNDDOWN va' = PGROUNDDOWN va"
    using agree_page [OF va] tree_eq [of "pmem s" pt 2 2 va t va'] ok t Some agree_tnode [of 2 va va']
    by (auto simp: agree_3 vm_ok_def)
  then show ?thesis
    using Some vm_ok_node(2) [OF ok _ t] vm_ok_node(2) [OF ok _ Some]
    by (simp add: pte_of_def tnode_leaf_store [OF ok t] load64_entry)
qed

section \<open>\<^verbatim>\<open>walk\<close> with allocation\<close>

lemma PTE_V_or [simp]: "(x OR PTE_V) AND PTE_V \<noteq> 0"
proof -
  have "bit ((x OR PTE_V) AND PTE_V) 0" by (simp add: PTE_V_def bit_simps)
  then show ?thesis by (metis bit_0_eq bot_apply bot_bool_def)
qed

lemma PTE_V_ne0 [simp]: "PTE_V \<noteq> 0"
  by (simp add: PTE_V_def)

lemma PTE2PA_table: "page_aligned p \<Longrightarrow> PTE2PA (PA2PTE p OR PTE_V) = p"
  by (rule PTE2PA_PA2PTE) (simp_all add: PTE_V_def)

text \<open>The memory after one allocation step of \<^verbatim>\<open>walk\<close>: page \<open>p\<close> zeroed and hung under entry
  \<open>2 - k\<close> of table \<open>t\<close>.\<close>

definition grow_mem :: "mem \<Rightarrow> u64 \<Rightarrow> u64 \<Rightarrow> nat \<Rightarrow> u64 \<Rightarrow> mem" where
  "grow_mem m p t k va = store64 (memset m p 0 4096) (t + 8 * PX (2 - k) va) (PA2PTE p OR PTE_V)"

lemma load64_grow:
  assumes al: "page_aligned p" "page_aligned t" "page_aligned t'" and "p \<noteq> t"
    and same: "\<And>x. PGROUNDDOWN x \<noteq> p \<Longrightarrow> m1 x = m x"
  shows "load64 (grow_mem m1 p t k va) (t' + 8 * PX l va') =
    (if t' = p then 0 else if t' = t \<and> PX l va' = PX (2 - k) va then PA2PTE p OR PTE_V
     else load64 m (t' + 8 * PX l va'))"
proof -
  have "load64 (memset m1 p 0 4096) (t' + 8 * PX l va') =
      (if t' = p then 0 else load64 m (t' + 8 * PX l va'))"
  proof (cases "t' = p")
    case True
    have "load64 (memset m1 p 0 4096) (p + 8 * PX l va') = load64 (\<lambda>_. 0) (p + 8 * PX l va')"
      using al(1) by (intro load64_cong_page) (auto simp: pte_addr_aligned8 pte_addr_page memset_page_in)
    also have "\<dots> = 0" by (simp add: load64_def)
    finally show ?thesis using True by simp
  next
    case False
    have "load64 (memset m1 p 0 4096) (t' + 8 * PX l va') = load64 m (t' + 8 * PX l va')"
      using al False same
      by (intro load64_cong_page) (auto simp: pte_addr_aligned8 pte_addr_page memset_page_other)
    then show ?thesis using False by simp
  qed
  then show ?thesis using al \<open>p \<noteq> t\<close> by (auto simp: grow_mem_def load64_entry split: if_splits)
qed

definition can_grow :: "mem \<Rightarrow> mem \<Rightarrow> u64 \<Rightarrow> u64 \<Rightarrow> u64 \<Rightarrow> nat \<Rightarrow> u64 \<Rightarrow> bool" where
  "can_grow m m1 pt p t k va \<longleftrightarrow> tree m pt \<and> (\<forall>x \<in> tnodes m pt. page_aligned x \<and> x \<noteq> p) \<and>
     page_aligned p \<and> k < 2 \<and> tnode m pt k va = Some t \<and>
     load64 m (t + 8 * PX (2 - k) va) AND PTE_V = 0 \<and> (\<forall>x. PGROUNDDOWN x \<noteq> p \<longrightarrow> m1 x = m x)"

lemma tnode_grow:
  assumes g: "can_grow m m1 pt p t k va" and "j \<le> 2"
  shows "tnode (grow_mem m1 p t k va) pt j va' =
    (if k < j \<and> agree (Suc k) va va' then if j = Suc k then Some p else None else tnode m pt j va')"
  using assms(2)
proof (induction j)
  case (Suc j)
  let ?m = "grow_mem m1 p t k va"
  have tr: "tree m pt" and p: "page_aligned p" and t: "tnode m pt k va = Some t" and k: "k < 2"
    using g by (auto simp: can_grow_def)
  have al: "page_aligned x \<and> x \<noteq> p" if "i \<le> 2" "tnode m pt i w = Some x" for i w x
    using g tnodesI [OF that] by (auto simp: can_grow_def)
  have same: "\<And>x. PGROUNDDOWN x \<noteq> p \<Longrightarrow> m1 x = m x" using g by (auto simp: can_grow_def)
  have ld: "load64 ?m (t' + 8 * PX l va') = (if t' = p then 0 else
      if t' = t \<and> PX l va' = PX (2 - k) va then PA2PTE p OR PTE_V else load64 m (t' + 8 * PX l va'))"
    if "page_aligned t'" for t' l
    using load64_grow [of p t t' m1 m k va l va'] that p same al [OF _ t] k by auto
  have IH: "tnode ?m pt j va' =
      (if k < j \<and> agree (Suc k) va va' then if j = Suc k then Some p else None else tnode m pt j va')"
    using Suc by simp
  show ?case
  proof (cases "k < j \<and> agree (Suc k) va va'")
    case True
    then have "j = Suc k" using Suc(2) by simp
    then show ?thesis using True IH ld [OF p] by simp
  next
    case False
    then have T: "tnode ?m pt j va' = tnode m pt j va'" by (subst IH) (rule if_not_P)
    show ?thesis
    proof (cases "tnode m pt j va'")
      case None
      have "\<not> (k < Suc j \<and> agree (Suc k) va va')"
        using False None t agree_tnode [of k va va' m pt] by (auto simp: agree_Suc less_Suc_eq)
      then show ?thesis using T None by auto
    next
      case (Some t')
      have "t' = t \<Longrightarrow> j = k \<and> agree k va va'" using tree_eq [OF tr _ _ t, of j va'] Some Suc(2) k by auto
      moreover have "j = k \<Longrightarrow> agree k va va' \<Longrightarrow> t' = t" using Some t agree_tnode [of k va va' m pt] by simp
      ultimately have iff: "t' = t \<and> PX (2 - j) va' = PX (2 - k) va \<longleftrightarrow> j = k \<and> agree (Suc k) va va'"
        by (auto simp: agree_Suc)
      have t': "page_aligned t'" "t' \<noteq> p" using al [OF _ Some] Suc(2) by simp_all
      have "k < Suc j \<and> agree (Suc k) va va' \<longleftrightarrow> j = k \<and> agree (Suc k) va va'" using False by auto
      then show ?thesis
        using T Some t' iff ld [OF t'(1), of "2 - j"] PTE2PA_table [OF p] by auto
    qed
  qed
qed simp

lemma pte_of_grow:
  assumes "can_grow m m1 pt p t k va"
  shows "pte_of (grow_mem m1 p t k va) pt va' = pte_of m pt va'"
proof -
  let ?m = "grow_mem m1 p t k va"
  have p: "page_aligned p" and t: "tnode m pt k va = Some t" and k: "k < 2"
    using assms by (auto simp: can_grow_def)
  have al: "page_aligned x \<and> x \<noteq> p" if "i \<le> 2" "tnode m pt i w = Some x" for i w x
    using assms tnodesI [OF that] by (auto simp: can_grow_def)
  have pt': "p \<noteq> t" "page_aligned t" using al [OF _ t] k by auto
  have same: "\<And>x. PGROUNDDOWN x \<noteq> p \<Longrightarrow> m1 x = m x" using assms by (auto simp: can_grow_def)
  note tn = tnode_grow [OF assms order_refl, of va']
  show ?thesis
  proof (cases "agree (Suc k) va va'")
    case True
    have "tnode m pt (Suc k) va' = None"
      using True t assms agree_tnode [of k va va' m pt] by (auto simp: can_grow_def agree_Suc)
    moreover have "k = 0 \<or> Suc k = 2" using k by arith
    ultimately have "tnode m pt 2 va' = None" by (auto simp: numeral_2_eq_2)
    moreover have "load64 ?m (p + 8 * PX 0 va') = 0"
      using load64_grow [OF p pt'(2) p pt'(1) same] by simp
    ultimately show ?thesis using True tn k by (auto simp: pte_of_def)
  next
    case False
    show ?thesis
    proof (cases "tnode m pt 2 va'")
      case (Some t')
      have "t' \<noteq> t" using tree_eq [of m pt 2 k va' t' va] assms t Some k by (auto simp: can_grow_def)
      then have "load64 ?m (t' + 8 * PX 0 va') = load64 m (t' + 8 * PX 0 va')"
        using load64_grow [OF p pt'(2) _ pt'(1) same, of t'] al [OF _ Some] by simp
      then show ?thesis using tn False Some by (simp add: pte_of_def)
    qed (use tn False in \<open>simp add: pte_of_def\<close>)
  qed
qed

lemma tree_grow:
  assumes g: "can_grow m m1 pt p t k va"
  shows "tree (grow_mem m1 p t k va) pt"
    and "tnodes (grow_mem m1 p t k va) pt \<subseteq> insert p (tnodes m pt)"
proof -
  let ?m = "grow_mem m1 p t k va"
  have new: "tnode ?m pt j w = Some x \<Longrightarrow> j \<le> 2 \<Longrightarrow>
      x = p \<and> j = Suc k \<and> agree (Suc k) va w \<or> x \<noteq> p \<and> tnode m pt j w = Some x" for j w x
    using tnode_grow [OF g, of j w] g tnodesI [of j m pt w x]
    by (auto simp: can_grow_def split: if_splits)
  show "tree ?m pt"
    unfolding tree_def
  proof (intro allI impI)
    fix i j w w' x
    assume "i \<le> 2" "j \<le> 2" "tnode ?m pt i w = Some x" "tnode ?m pt j w' = Some x"
    then show "i = j \<and> agree i w w'"
      using new [of i w x] new [of j w' x] tree_eq [of m pt i j w x w'] g
      by (auto simp: can_grow_def agree_def)
  qed
  show "tnodes ?m pt \<subseteq> insert p (tnodes m pt)"
    using new tnodesI by (fastforce simp: tnodes_def [of ?m])
qed

text \<open>
  \<open>vm_step s xs s' ys pt\<close>: from \<open>s\<close> to \<open>s'\<close> some pages \<open>zs\<close> left the head of the free list and
  became tables of \<open>pt\<close>; only they and the tables themselves were written.
\<close>

definition vm_step :: "'z kmach_scheme \<Rightarrow> u64 list \<Rightarrow> 'z kmach_scheme \<Rightarrow> u64 list \<Rightarrow> u64 \<Rightarrow> bool" where
  "vm_step s xs s' ys pt \<longleftrightarrow> vm_ok s' ys pt \<and> s' = s\<lparr>pmem := pmem s', freelist := freelist s'\<rparr> \<and>
     (\<exists>zs. xs = zs @ ys \<and> tnodes (pmem s') pt \<subseteq> tnodes (pmem s) pt \<union> set zs \<and>
        (\<forall>x. PGROUNDDOWN x \<notin> tnodes (pmem s) pt \<union> set zs \<longrightarrow> pmem s' x = pmem s x))"

lemma vm_step_refl: "vm_ok s xs pt \<Longrightarrow> vm_step s xs s xs pt"
  by (auto simp: vm_step_def)

lemma vm_step_trans:
  assumes "vm_step s xs t ys pt" "vm_step t ys u zs pt"
  shows "vm_step s xs u zs pt"
proof -
  obtain as bs where a: "xs = as @ ys" "tnodes (pmem t) pt \<subseteq> tnodes (pmem s) pt \<union> set as"
      "\<forall>x. PGROUNDDOWN x \<notin> tnodes (pmem s) pt \<union> set as \<longrightarrow> pmem t x = pmem s x"
    and b: "ys = bs @ zs" "tnodes (pmem u) pt \<subseteq> tnodes (pmem t) pt \<union> set bs"
      "\<forall>x. PGROUNDDOWN x \<notin> tnodes (pmem t) pt \<union> set bs \<longrightarrow> pmem u x = pmem t x"
    using assms unfolding vm_step_def by blast
  have st: "t = s\<lparr>pmem := pmem t, freelist := freelist t\<rparr>" and
    tu: "u = t\<lparr>pmem := pmem u, freelist := freelist u\<rparr>" using assms by (simp_all add: vm_step_def)
  have "u = (s\<lparr>pmem := pmem t, freelist := freelist t\<rparr>)\<lparr>pmem := pmem u, freelist := freelist u\<rparr>"
    using tu by (subst st [symmetric])
  then have su: "u = s\<lparr>pmem := pmem u, freelist := freelist u\<rparr>" by simp
  have "tnodes (pmem u) pt \<subseteq> tnodes (pmem s) pt \<union> set (as @ bs)" using a b by auto
  moreover have "\<forall>x. PGROUNDDOWN x \<notin> tnodes (pmem s) pt \<union> set (as @ bs) \<longrightarrow> pmem u x = pmem s x"
    using a b by auto
  ultimately show ?thesis
    using assms a b su unfolding vm_step_def by (metis append.assoc)
qed

lemma vm_step_ok: "vm_step s xs s' ys pt \<Longrightarrow> vm_ok s' ys pt"
  by (simp add: vm_step_def)

lemma vm_step_ram:
  assumes "vm_step s xs s' ys pt"
  shows "ram_page s' x = ram_page s x"
proof -
  have "s' = s\<lparr>pmem := pmem s', freelist := freelist s'\<rparr>" using assms by (simp add: vm_step_def)
  then have "k_end s' = k_end (s\<lparr>pmem := pmem s', freelist := freelist s'\<rparr>)" by (rule arg_cong)
  then show ?thesis by (simp add: ram_page_def)
qed

text \<open>Writing inside a table page of \<open>pt\<close> keeps the free list.\<close>

lemma kmem_ok_store:
  assumes "kmem_ok s xs" "page_aligned p" "p \<notin> set xs" "\<And>x. PGROUNDDOWN x \<noteq> p \<Longrightarrow> m x = pmem s x"
  shows "kmem_ok (s\<lparr>pmem := m\<rparr>) xs"
proof -
  have "chain m (freelist s) xs"
    by (rule chain_other_page [of "pmem s" _ _ p]) (use assms in \<open>auto simp: kmem_ok_def ram_page_def\<close>)
  then show ?thesis using assms by (simp add: kmem_ok_def)
qed

lemma grow_step:
  assumes ok: "vm_ok s (p # xs) pt" and k: "k < 2" and t: "tnode (pmem s) pt k va = Some t"
    and e: "load64 (pmem s) (t + 8 * PX (2 - k) va) AND PTE_V = 0"
  defines "m' \<equiv> grow_mem (pmem (kalloc_state s)) p t k va"
  defines "s' \<equiv> (kalloc_state s)\<lparr>pmem := m'\<rparr>"
  shows "kalloc s = Inr (p, kalloc_state s)" and "p \<noteq> 0"
    and "vm_step s (p # xs) s' xs pt" and "\<And>w. pte_of m' pt w = pte_of (pmem s) pt w"
    and "tnode m' pt (Suc k) va = Some p"
proof -
  have km: "kmem_ok s (p # xs)" and lk: "L_kmem \<notin> set (held s)" using ok by (auto simp: vm_ok_def)
  note kal = kalloc_spec [OF km lk]
  show "kalloc s = Inr (p, kalloc_state s)" by (rule kal(1))
  show p0: "p \<noteq> 0" using kal(3) km ram_page_ne0 by (auto simp: kmem_ok_def)
  have p: "page_aligned p" using kal(3) by (simp add: ram_page_def)
  have nodes: "x \<in> tnodes (pmem s) pt \<Longrightarrow> ram_page s x \<and> x \<noteq> p \<and> x \<notin> set xs" for x
    using ok by (auto simp: vm_ok_def)
  have g: "can_grow (pmem s) (pmem (kalloc_state s)) pt p t k va"
    using ok k t e p kal(5) nodes by (auto simp: can_grow_def vm_ok_def ram_page_def)
  show "pte_of m' pt w = pte_of (pmem s) pt w" for w
    unfolding m'_def by (rule pte_of_grow [OF g])
  show "tnode m' pt (Suc k) va = Some p" using tnode_grow [OF g, of "Suc k" va] k by (simp add: m'_def)
  note tg = tree_grow [OF g, folded m'_def]
  have tn: "t \<in> tnodes (pmem s) pt" using k t by (intro tnodesI [of k]) auto
  then have al: "page_aligned t" using nodes by (auto simp: ram_page_def)
  have mem1: "m' x = pmem (kalloc_state s) x" if "PGROUNDDOWN x \<noteq> p" "PGROUNDDOWN x \<noteq> t" for x
    using that al p
    by (simp add: m'_def grow_mem_def store64_other_page pte_addr_page pte_addr_aligned8 memset_page_other)
  have "kmem_ok ((kalloc_state s)\<lparr>pmem := memset (pmem (kalloc_state s)) p 0 4096\<rparr>) xs" (is "kmem_ok ?s1 xs")
    using kal(2,4) p by (intro kmem_ok_store [where p = p]) (auto simp: memset_page_other)
  then have "kmem_ok (?s1\<lparr>pmem := m'\<rparr>) xs"
    using tn nodes al
    by (intro kmem_ok_store [of ?s1 xs t m'])
      (auto simp: m'_def grow_mem_def store64_other_page pte_addr_page pte_addr_aligned8)
  then have "kmem_ok s' xs" by (simp add: s'_def)
  moreover have "L_kmem \<notin> set (held s')" "ram_page s' = ram_page s"
    using lk by (simp_all add: s'_def kalloc_state_def ram_page_def fun_eq_iff)
  ultimately have "vm_ok s' xs pt"
    using tg nodes kal(3,4) by (auto simp: vm_ok_def s'_def)
  moreover have "s' = s\<lparr>pmem := pmem s', freelist := freelist s'\<rparr>" by (simp add: s'_def kalloc_state_def)
  moreover have "pmem s' x = pmem s x" if "PGROUNDDOWN x \<notin> tnodes (pmem s) pt \<union> set [p]" for x
    using that tn mem1 [of x] kal(5) [of x] by (auto simp: s'_def)
  moreover have "tnodes (pmem s') pt \<subseteq> tnodes (pmem s) pt \<union> set [p]"
    using tg(2) by (simp add: s'_def)
  ultimately show "vm_step s (p # xs) s' xs pt"
    unfolding vm_step_def by (intro conjI exI [of _ "[p]"]) simp_all
qed

lemma walk_loop_alloc:
  assumes "vm_ok s xs pt" "d \<le> 2" "tnode (pmem s) pt (2 - d) va = Some t"
  shows "\<exists>r s' ys. walk_loop d t va True s = Inr (r, s') \<and> vm_step s xs s' ys pt \<and>
    (\<forall>w. pte_of (pmem s') pt w = pte_of (pmem s) pt w) \<and>
    (r = 0 \<and> ys = [] \<and> length xs < d \<or> (\<exists>t'. tnode (pmem s') pt 2 va = Some t' \<and> r = t' + 8 * PX 0 va))"
  using assms
proof (induction d arbitrary: s xs t)
  case 0
  then show ?case using vm_step_refl by fastforce
next
  case (Suc d)
  let ?a = "t + 8 * PX (Suc d) va"
  have k: "Suc (2 - Suc d) = 2 - d" "2 - (2 - Suc d) = Suc d" "2 - Suc d < 2" using Suc(3) by auto
  have k': "2 - (Suc 0 - d) = Suc d" using Suc(3) by auto
  show ?case
  proof (cases "load64 (pmem s) ?a AND PTE_V = 0")
    case False
    then have "tnode (pmem s) pt (2 - d) va = Some (PTE2PA (load64 (pmem s) ?a))"
      using Suc(4) k by (simp flip: k(1))
    with Suc.IH [OF Suc(2)] Suc(3) False show ?thesis by (simp add: Let_def) (metis less_SucI)
  next
    case True
    show ?thesis
    proof (cases xs)
      case Nil
      then have "kalloc s = Inr (0, s)" using Suc(2) kalloc_empty by (auto simp: vm_ok_def)
      then have "walk_loop (Suc d) t va True s = Inr (0, s)" using True by (simp add: Let_def)
      then show ?thesis using vm_step_refl [OF Suc(2)] Nil by auto
    next
      case (Cons p xs')
      note gs = grow_step [OF Suc(2) [unfolded Cons] k(3) Suc(4), unfolded k, OF True]
      let ?s' = "(kalloc_state s)\<lparr>pmem := grow_mem (pmem (kalloc_state s)) p t (2 - Suc d) va\<rparr>"
      have eq: "walk_loop (Suc d) t va True s = walk_loop d p va True ?s'"
        using True gs(1,2) by (simp add: Let_def grow_mem_def k')
      obtain r s2 ys where r: "walk_loop d p va True ?s' = Inr (r, s2)" "vm_step ?s' xs' s2 ys pt"
        "\<forall>w. pte_of (pmem s2) pt w = pte_of (pmem ?s') pt w"
        "r = 0 \<and> ys = [] \<and> length xs' < d \<or> (\<exists>t'. tnode (pmem s2) pt 2 va = Some t' \<and> r = t' + 8 * PX 0 va)"
        using Suc.IH [OF vm_step_ok [OF gs(3)], of p] gs(5) Suc(3) by auto
      show ?thesis
        using eq r gs(4) vm_step_trans [OF gs(3) r(2)] Cons by auto
    qed
  qed
qed

lemma walk_alloc:
  assumes "vm_ok s xs pt" "va < MAXVA"
  obtains r s' ys where "walk pt va True s = Inr (r, s')" "vm_step s xs s' ys pt"
    "\<And>w. pte_of (pmem s') pt w = pte_of (pmem s) pt w"
    "r = 0 \<and> ys = [] \<and> length xs < 2 \<or> (\<exists>t. tnode (pmem s') pt 2 va = Some t \<and> r = t + 8 * PX 0 va \<and> r \<noteq> 0)"
proof -
  obtain r s' ys where r: "walk_loop 2 pt va True s = Inr (r, s')" "vm_step s xs s' ys pt"
    "\<forall>w. pte_of (pmem s') pt w = pte_of (pmem s) pt w"
    "r = 0 \<and> ys = [] \<and> length xs < 2 \<or> (\<exists>t'. tnode (pmem s') pt 2 va = Some t' \<and> r = t' + 8 * PX 0 va)"
    using walk_loop_alloc [OF assms(1), of 2 va pt] by auto
  have "t + 8 * PX 0 va \<noteq> 0" if "tnode (pmem s') pt 2 va = Some t" for t
    using vm_ok_node [OF vm_step_ok [OF r(2)] _ that] pte_addr_page [of t 0 va] by (auto simp: PGROUNDDOWN_def)
  then show thesis
    by (intro that [of r s' ys]) (use r assms(2) in \<open>auto simp: walk_def\<close>)
qed

section \<open>\<^verbatim>\<open>mappages\<close>\<close>

lemma leaf_step:
  assumes ok: "vm_ok s xs pt" and t: "tnode (pmem s) pt 2 va = Some t"
  shows "vm_step s xs (s\<lparr>pmem := store64 (pmem s) (t + 8 * PX 0 va) e\<rparr>) xs pt"
proof -
  let ?m = "store64 (pmem s) (t + 8 * PX 0 va) e"
  note n = vm_ok_node [OF ok _ t, simplified]
  have other: "?m x = pmem s x" if "PGROUNDDOWN x \<noteq> t" for x
    using that n(2) by (simp add: store64_other_page pte_addr_page pte_addr_aligned8)
  have tn: "k \<le> 2 \<Longrightarrow> tnode ?m pt k w = tnode (pmem s) pt k w" for k w
    by (rule tnode_leaf_store [OF ok t])
  then have nodes: "tnodes ?m pt = tnodes (pmem s) pt" by (simp add: tnodes_def cong: conj_cong)
  have "tree ?m pt" using ok tn by (simp add: vm_ok_def tree_def)
  moreover have "kmem_ok (s\<lparr>pmem := ?m\<rparr>) xs"
    using ok n other by (intro kmem_ok_store [of _ _ t]) (auto simp: vm_ok_def)
  ultimately have "vm_ok (s\<lparr>pmem := ?m\<rparr>) xs pt"
    using ok nodes by (simp add: vm_ok_def)
  moreover have "?m x = pmem s x" if "PGROUNDDOWN x \<notin> tnodes (pmem s) pt" for x
    using that other [of x] tnodesI [OF order_refl t] by blast
  ultimately show ?thesis using nodes by (simp add: vm_step_def)
qed

lemma in_area_range:
  assumes "unat a + n \<le> 2 ^ 64"
  shows "in_area a n w \<longleftrightarrow> unat a \<le> unat w \<and> unat w < unat a + n"
  using assms unsigned_less [of w, where 'a = nat] by (auto simp: in_area_def unat_sub_if' word_le_nat_alt)

lemma in_area_pages:
  assumes "page_aligned a" "unat a + 4096 * Suc j < 2 ^ 64"
  shows "in_area a (4096 * Suc j) w \<longleftrightarrow> PGROUNDDOWN w = a \<or> in_area (a + PGSIZE) (4096 * j) w"
proof -
  have "unat (a + PGSIZE) = unat a + 4096"
    using assms(2) by (simp add: PGSIZE_def unat_word_ariths)
  then show ?thesis
    using assms in_area_page [OF assms(1), of w]
    by (auto simp: in_area_range)
qed

lemma MAXVA_unat: "unat MAXVA = 2 ^ 38"
  by (simp add: MAXVA_def)

text \<open>
  What mapping \<open>j\<close> pages at \<open>a\<close> to the physical pages at \<open>pa\<close> does to the view: the entries of
  the range are replaced, all others kept.
\<close>

definition map_range :: "u64 \<Rightarrow> nat \<Rightarrow> u64 \<Rightarrow> u64 \<Rightarrow> (u64 \<Rightarrow> u64) \<Rightarrow> u64 \<Rightarrow> u64" where
  "map_range a j pa perm f w =
     (if in_area a (4096 * j) w then PA2PTE (pa + (PGROUNDDOWN w - a)) OR perm OR PTE_V else f w)"

lemma map_range_Suc:
  assumes "page_aligned a" "unat a + 4096 * Suc j < 2 ^ 64"
  shows "map_range a (Suc j) pa perm f w =
    map_range (a + PGSIZE) j (pa + PGSIZE) perm
      (\<lambda>w. if PGROUNDDOWN w = a then PA2PTE pa OR perm OR PTE_V else f w) w"
proof -
  have "pa + (PGROUNDDOWN w - a) = pa + PGSIZE + (PGROUNDDOWN w - (a + PGSIZE))" by simp
  moreover have "PGROUNDDOWN w = a \<Longrightarrow> \<not> in_area (a + PGSIZE) (4096 * j) w"
    using assms in_area_page [OF assms(1), of w] unat_word_ariths(1) [of a PGSIZE]
    by (auto simp: in_area_range PGSIZE_def)
  ultimately show ?thesis
    unfolding map_range_def in_area_pages [OF assms] by auto
qed

lemma mappages_step:
  assumes ok: "vm_ok s xs pt" and a: "a < MAXVA" "page_aligned a" and free: "pte_of (pmem s) pt a AND PTE_V = 0"
  obtains (full) s' where "mappages_loop pt a l pa perm s = Inr (- 1, s')" "vm_step s xs s' [] pt" "length xs < 2"
      "\<And>w. pte_of (pmem s') pt w = pte_of (pmem s) pt w"
    | (mapped) s' ys where "mappages_loop pt a l pa perm s =
        (if a = l then Inr (0, s') else mappages_loop pt (a + PGSIZE) l (pa + PGSIZE) perm s')"
      "vm_step s xs s' ys pt"
      "\<And>w. w < MAXVA \<Longrightarrow> pte_of (pmem s') pt w =
         (if PGROUNDDOWN w = a then PA2PTE pa OR perm OR PTE_V else pte_of (pmem s) pt w)"
proof -
  obtain r s1 ys where w: "walk pt a True s = Inr (r, s1)" "vm_step s xs s1 ys pt"
    "\<And>w. pte_of (pmem s1) pt w = pte_of (pmem s) pt w"
    "r = 0 \<and> ys = [] \<and> length xs < 2 \<or> (\<exists>t. tnode (pmem s1) pt 2 a = Some t \<and> r = t + 8 * PX 0 a \<and> r \<noteq> 0)"
    using walk_alloc [OF ok a(1)] by metis
  show thesis
  proof (cases "r = 0")
    case True
    then show thesis using w by (intro full [of s1]) (auto simp: mappages_loop.simps [of pt a])
  next
    case False
    then obtain t where t: "tnode (pmem s1) pt 2 a = Some t" "r = t + 8 * PX 0 a" using w(4) by auto
    have e: "load64 (pmem s1) r AND PTE_V = 0" using free w(3) [of a] t by (simp add: pte_of_def)
    note ok1 = vm_step_ok [OF w(2)]
    show thesis
      by (rule mapped [OF _ vm_step_trans [OF w(2) leaf_step [OF ok1 t(1), of "PA2PTE pa OR perm OR PTE_V"]]])
        (use w e False t pte_of_leaf_store [OF ok1 t(1) a(1)] PGROUNDDOWN_id [OF a(2)] in
          \<open>simp_all add: mappages_loop.simps [of pt a]\<close>)
  qed
qed

lemma mappages_loop_spec:
  assumes "vm_ok s xs pt" "page_aligned a" "unat a + 4096 * Suc n \<le> 2 ^ 38"
    "\<And>w. in_area a (4096 * Suc n) w \<Longrightarrow> pte_of (pmem s) pt w AND PTE_V = 0"
  shows "\<exists>rc s' ys j. mappages_loop pt a (a + of_nat (4096 * n)) pa perm s = Inr (rc, s') \<and>
    vm_step s xs s' ys pt \<and> (rc = 0 \<and> j = Suc n \<or> rc = - 1 \<and> j \<le> n \<and> ys = []) \<and>
    (\<forall>w < MAXVA. pte_of (pmem s') pt w = map_range a j pa perm (pte_of (pmem s) pt) w)"
  using assms
proof (induction n arbitrary: s xs a pa)
  case (0 s xs a pa)
  have a: "a < MAXVA" "unat a + 4096 * Suc 0 < 2 ^ 64" using 0(3) by (simp_all add: word_less_nat_alt MAXVA_unat)
  have "pte_of (pmem s) pt a AND PTE_V = 0" using 0(4) [of a] by (simp add: in_area_def)
  with 0(1) a(1) 0(2) show ?case
  proof (cases rule: mappages_step [where l = a and pa = pa and perm = perm])
    case (full s')
    then show ?thesis by (intro exI [of _ "- 1"] exI [of _ s'] exI [of _ "[]"] exI [of _ 0]) (simp add: map_range_def)
  next
    case (mapped s' ys)
    then show ?thesis using map_range_Suc [OF 0(2) a(2)]
      by (intro exI [of _ 0] exI [of _ s'] exI [of _ ys] exI [of _ "Suc 0"]) (simp add: map_range_def [of _ 0])
  qed
next
  case (Suc n s xs a pa)
  have a: "a < MAXVA" "unat a + 4096 * Suc n < 2 ^ 64" using Suc(4) by (simp_all add: word_less_nat_alt MAXVA_unat)
  have n: "unat (of_nat (4096 * Suc n) :: u64) = 4096 * Suc n" using Suc(4) by (intro unat_of_nat64) simp
  have "(of_nat (4096 * Suc n) :: u64) \<noteq> 0"
    using n by (metis unsigned_0 mult_eq_0_iff nat.distinct(1) zero_neq_numeral)
  then have l: "a \<noteq> a + of_nat (4096 * Suc n)" by (metis add_cancel_right_right)
  have a': "unat (a + PGSIZE) = unat a + 4096" using unat_add_PGSIZE_va [OF a(1)] .
  have l': "a + PGSIZE + of_nat (4096 * n) = a + of_nat (4096 * Suc n)" by (simp add: PGSIZE_def)
  have "pte_of (pmem s) pt a AND PTE_V = 0" using Suc(5) [of a] by (simp add: in_area_def)
  with Suc(2) a(1) Suc(3) show ?case
  proof (cases rule: mappages_step [where l = "a + of_nat (4096 * Suc n)" and pa = pa and perm = perm])
    case (full s')
    then show ?thesis by (intro exI [of _ "- 1"] exI [of _ s'] exI [of _ "[]"] exI [of _ 0]) (simp add: map_range_def)
  next
    case (mapped s1 ys)
    have al: "page_aligned (a + PGSIZE)" using Suc(3) a' by (simp add: page_aligned_dvd)
    have u: "pte_of (pmem s1) pt w AND PTE_V = 0" if w: "in_area (a + PGSIZE) (4096 * Suc n) w" for w
    proof -
      have "w < MAXVA" "in_area a (4096 * Suc (Suc n)) w" "PGROUNDDOWN w \<noteq> a"
        using w a' Suc(4) in_area_page [OF Suc(3), of w] by (auto simp: in_area_range word_less_nat_alt MAXVA_unat)
      then show ?thesis using Suc(5) mapped(3) by simp
    qed
    obtain rc s' zs j where r: "mappages_loop pt (a + PGSIZE) (a + of_nat (4096 * Suc n)) (pa + PGSIZE) perm s1 = Inr (rc, s')"
      "vm_step s1 ys s' zs pt" "rc = 0 \<and> j = Suc n \<or> rc = - 1 \<and> j \<le> n \<and> zs = []"
      "\<And>w. w < MAXVA \<Longrightarrow> pte_of (pmem s') pt w = map_range (a + PGSIZE) j (pa + PGSIZE) perm (pte_of (pmem s1) pt) w"
      using Suc.IH [OF vm_step_ok [OF mapped(2)] al _ u, of "pa + PGSIZE"] a' Suc(4) unfolding l' by auto
    have j: "unat a + 4096 * Suc j < 2 ^ 64" using r(3) Suc(4) by auto
    have "map_range (a + PGSIZE) j (pa + PGSIZE) perm (pte_of (pmem s1) pt) w = map_range a (Suc j) pa perm (pte_of (pmem s) pt) w"
      if "w < MAXVA" for w
      using mapped(3) [OF that] unfolding map_range_Suc [OF Suc(3) j] by (simp add: map_range_def)
    then show ?thesis
      using r l mapped(1) vm_step_trans [OF mapped(2) r(2)]
      by (intro exI [of _ rc] exI [of _ s'] exI [of _ zs] exI [of _ "Suc j"]) auto
  qed
qed

definition npages :: "u64 \<Rightarrow> u64 \<Rightarrow> nat" where
  "npages va sz = Suc ((unat va + unat sz - 1) div 4096 - unat va div 4096)"

lemma mappages_spec:
  assumes "vm_ok s xs pt" "sz \<noteq> 0" "unat va + unat sz \<le> 2 ^ 38"
    "\<And>w. in_area (PGROUNDDOWN va) (4096 * npages va sz) w \<Longrightarrow> pte_of (pmem s) pt w AND PTE_V = 0"
  shows "\<exists>rc s' ys j. mappages pt va sz pa perm s = Inr (rc, s') \<and> vm_step s xs s' ys pt \<and>
    (rc = 0 \<and> j = npages va sz \<or> rc = - 1 \<and> j < npages va sz \<and> ys = []) \<and>
    (\<forall>w < MAXVA. pte_of (pmem s') pt w = map_range (PGROUNDDOWN va) j pa perm (pte_of (pmem s) pt) w)"
proof -
  define n where "n = (unat va + unat sz - 1) div 4096 - unat va div 4096"
  have sz: "0 < unat sz" using assms(2) by (simp add: unat_gt_0)
  have "unat (va + sz - 1) = unat (va + sz) - 1"
    using sz assms(3) by (simp add: unat_sub_if' unat_word_ariths word_le_nat_alt)
  then have u: "unat (va + sz - 1) = unat va + unat sz - 1"
    using assms(3) by (simp add: unat_word_ariths)
  have le: "unat va div 4096 \<le> (unat va + unat sz - 1) div 4096" using sz by (intro div_le_mono) simp
  have n: "unat va div 4096 * 4096 + 4096 * n = (unat va + unat sz - 1) div 4096 * 4096"
    using le by (simp add: n_def algebra_simps diff_mult_distrib2)
  also have "\<dots> \<le> unat va + unat sz - 1" by simp
  finally have "unat va div 4096 * 4096 + 4096 * n < 2 ^ 26 * 4096" using assms(3) sz by simp
  then have "unat va div 4096 + n < 2 ^ 26" by linarith
  then have b: "unat (PGROUNDDOWN va) + 4096 * Suc n \<le> 2 ^ 38"
    unfolding unat_PGROUNDDOWN by simp
  have u64: "unat (PGROUNDDOWN va) + 4096 * n < 2 ^ 64" "4096 * n < 2 ^ 64" using b by simp_all
  then have "unat (of_nat (4096 * n) :: u64) = 4096 * n" by (intro unat_of_nat64)
  then have "unat (PGROUNDDOWN va + of_nat (4096 * n)) = unat (PGROUNDDOWN va) + 4096 * n"
    using u64(1) unat_word_ariths(1) [of "PGROUNDDOWN va" "of_nat (4096 * n)"] by simp
  then have last: "PGROUNDDOWN (va + sz - 1) = PGROUNDDOWN va + of_nat (4096 * n)"
    using n u by (intro iffD2 [OF word_unat_eq_iff]) (simp only: unat_PGROUNDDOWN)
  show ?thesis
    using mappages_loop_spec [OF assms(1) _ b, of pa perm] assms(2,4)
    by (simp add: mappages_def last n_def npages_def less_Suc_eq_le)
qed

section \<open>Memory outside the tables\<close>

lemma tnode_cong:
  assumes nodes: "\<And>x. x \<in> tnodes m pt \<Longrightarrow> page_aligned x"
    and same: "\<And>x. PGROUNDDOWN x \<in> tnodes m pt \<Longrightarrow> m' x = m x" and "k \<le> 2"
  shows "tnode m' pt k va = tnode m pt k va"
  using assms(3)
proof (induction k)
  case (Suc k)
  show ?case
  proof (cases "tnode m pt k va")
    case (Some t)
    then have t: "t \<in> tnodes m pt" using Suc(2) by (intro tnodesI [of k]) auto
    then have "load64 m' (t + 8 * PX (2 - k) va) = load64 m (t + 8 * PX (2 - k) va)"
      using nodes same by (intro load64_cong_page) (auto simp: pte_addr_page pte_addr_aligned8)
    then show ?thesis using Suc Some by simp
  qed (use Suc in simp)
qed simp

lemma pte_of_cong:
  assumes nodes: "\<And>x. x \<in> tnodes m pt \<Longrightarrow> page_aligned x"
    and same: "\<And>x. PGROUNDDOWN x \<in> tnodes m pt \<Longrightarrow> m' x = m x"
  shows "pte_of m' pt va = pte_of m pt va"
proof (cases "tnode m pt 2 va")
  case (Some t)
  then have t: "t \<in> tnodes m pt" by (intro tnodesI [of 2]) auto
  then have "load64 m' (t + 8 * PX 0 va) = load64 m (t + 8 * PX 0 va)"
    using nodes same by (intro load64_cong_page) (auto simp: pte_addr_page pte_addr_aligned8)
  then show ?thesis using Some tnode_cong [of m pt m' 2 va] nodes same by (simp add: pte_of_def)
qed (use tnode_cong [of m pt m' 2 va] nodes same in \<open>simp add: pte_of_def\<close>)

text \<open>Writing a page that is neither a table nor free keeps the invariant and the view.\<close>

lemma vm_ok_other_page:
  assumes ok: "vm_ok s xs pt" and q: "page_aligned q" "q \<notin> set xs" "q \<notin> tnodes (pmem s) pt"
    and m: "\<And>x. PGROUNDDOWN x \<noteq> q \<Longrightarrow> m x = pmem s x"
  shows "vm_ok (s\<lparr>pmem := m\<rparr>) xs pt" and "\<And>w. pte_of m pt w = pte_of (pmem s) pt w"
    and "tnodes m pt = tnodes (pmem s) pt" and "\<And>k w. k \<le> 2 \<Longrightarrow> tnode m pt k w = tnode (pmem s) pt k w"
proof -
  have al: "x \<in> tnodes (pmem s) pt \<Longrightarrow> page_aligned x" for x using ok by (auto simp: vm_ok_def ram_page_def)
  have same: "PGROUNDDOWN x \<in> tnodes (pmem s) pt \<Longrightarrow> m x = pmem s x" for x using q(3) m [of x] by metis
  show tc: "k \<le> 2 \<Longrightarrow> tnode m pt k w = tnode (pmem s) pt k w" for k w by (rule tnode_cong [OF al same])
  show "pte_of m pt w = pte_of (pmem s) pt w" for w by (rule pte_of_cong [OF al same])
  show n: "tnodes m pt = tnodes (pmem s) pt" using tc by (simp add: tnodes_def cong: conj_cong)
  have "tree m pt" using ok tc by (simp add: vm_ok_def tree_def)
  then show "vm_ok (s\<lparr>pmem := m\<rparr>) xs pt"
    using ok q n m kmem_ok_store [of s xs q m] by (simp add: vm_ok_def)
qed

section \<open>An empty address space\<close>

lemma load64_zero_page:
  assumes "page_aligned pt" "\<And>x. PGROUNDDOWN x = pt \<Longrightarrow> m x = 0"
  shows "load64 m (pt + 8 * PX l va) = 0"
proof -
  have "load64 m (pt + 8 * PX l va) = load64 (\<lambda>_. 0) (pt + 8 * PX l va)"
    using assms by (intro load64_cong_page) (auto simp: pte_addr_aligned8 pte_addr_page)
  then show ?thesis by (simp add: load64_def)
qed

lemma empty_table:
  assumes "page_aligned pt" "\<And>x. PGROUNDDOWN x = pt \<Longrightarrow> m x = 0"
  shows "tnode m pt (Suc k) va = None" and "tnodes m pt = {pt}" and "tree m pt" and "pte_of m pt va = 0"
proof -
  have none: "tnode m pt (Suc k) va = None" for k va
    by (induction k) (auto simp: load64_zero_page [OF assms] split: option.splits)
  show "tnode m pt (Suc k) va = None" by (rule none)
  have some: "tnode m pt k w = Some t \<Longrightarrow> k = 0 \<and> t = pt" for k w t using none by (cases k) auto
  then show "tnodes m pt = {pt}" by (auto simp: tnodes_def intro: exI [of _ 0])
  show "tree m pt" unfolding tree_def using some by (metis agree_0)
  show "pte_of m pt va = 0" using none [of 1 va] by (simp add: pte_of_def numeral_2_eq_2)
qed

lemma uvmcreate_spec:
  assumes "kmem_ok s (p # xs)" "L_kmem \<notin> set (held s)"
  shows "\<exists>s'. uvmcreate s = Inr (p, s') \<and> vm_ok s' xs p \<and> (\<forall>va. pte_of (pmem s') p va = 0) \<and>
    s' = s\<lparr>pmem := pmem s', freelist := freelist s'\<rparr> \<and>
    (\<forall>x. PGROUNDDOWN x \<noteq> p \<longrightarrow> pmem s' x = pmem s x)"
proof -
  note k = kalloc_spec [OF assms]
  have p: "page_aligned p" "p \<noteq> 0" using k(3) assms ram_page_ne0 by (auto simp: ram_page_def kmem_ok_def)
  let ?m = "memset (pmem (kalloc_state s)) p 0 4096"
  let ?s = "(kalloc_state s)\<lparr>pmem := ?m\<rparr>"
  have z: "PGROUNDDOWN x = p \<Longrightarrow> ?m x = 0" for x using p by (simp add: memset_page_in)
  note e = empty_table [OF p(1) z]
  have "kmem_ok ?s xs" using k(2,4) p by (intro kmem_ok_store [of _ _ p]) (auto simp: memset_page_other)
  moreover have "ram_page ?s = ram_page s" "held ?s = held s" by (auto simp: kalloc_state_def fun_eq_iff)
  ultimately have "vm_ok ?s xs p" using e k(3,4) assms(2) by (simp add: vm_ok_def)
  moreover have "?s = s\<lparr>pmem := pmem ?s, freelist := freelist ?s\<rparr>" by (simp add: kalloc_state_def)
  ultimately show ?thesis
    using e(4) k(1,5) p by (intro exI [of _ ?s]) (simp add: uvmcreate_def memset_page_other)
qed

section \<open>\<^verbatim>\<open>uvmunmap\<close> with freeing\<close>

lemma unmap_step:
  assumes ok: "vm_ok s xs pt" and a: "a < MAXVA" "page_aligned a" "a < lim"
    and e: "pte_of (pmem s) pt a AND PTE_V \<noteq> 0" "PTE_FLAGS (pte_of (pmem s) pt a) \<noteq> PTE_V"
    and q: "q = PTE2PA (pte_of (pmem s) pt a)" "ram_page s q" "q \<notin> set xs" "q \<notin> tnodes (pmem s) pt"
  obtains s' where "uvmunmap_loop pt a lim True s = uvmunmap_loop pt (a + PGSIZE) lim True s'"
    "vm_ok s' (q # xs) pt" "ram_page s' = ram_page s" "tnodes (pmem s') pt = tnodes (pmem s) pt"
    "\<And>w. w < MAXVA \<Longrightarrow> pte_of (pmem s') pt w = (if PGROUNDDOWN w = a then 0 else pte_of (pmem s) pt w)"
    "\<And>x. PGROUNDDOWN x \<notin> insert q (tnodes (pmem s) pt) \<Longrightarrow> pmem s' x = pmem s x"
proof -
  obtain t where t: "tnode (pmem s) pt 2 a = Some t" "pte_of (pmem s) pt a = load64 (pmem s) (t + 8 * PX 0 a)"
    using e(1) by (auto simp: pte_of_def split: option.splits)
  have km: "kmem_ok s xs" and lk: "L_kmem \<notin> set (held s)" using ok by (auto simp: vm_ok_def)
  note kf = kfree_spec [OF km lk q(2,3)]
  let ?s1 = "kfree_state s q" and ?p = "t + 8 * PX 0 a"
  have al: "page_aligned q" using q(2) by (simp add: ram_page_def)
  note o = vm_ok_other_page [OF ok al q(3,4) kf(3)]
  have ok1: "vm_ok ?s1 (q # xs) pt"
    using o ok kf(2) q(4) by (auto simp: vm_ok_def)
  have t1: "tnode (pmem ?s1) pt 2 a = Some t" using o(4) t(1) by simp
  note ls = leaf_step [OF ok1 t1, of 0]
  let ?s2 = "?s1\<lparr>pmem := store64 (pmem ?s1) ?p 0\<rparr>"
  have nz: "?p \<noteq> 0"
    using vm_ok_node [OF ok _ t(1)] pte_addr_page [of t 0 a] by (auto simp: PGROUNDDOWN_def)
  have "uvmunmap_loop pt a lim True s = uvmunmap_loop pt (a + PGSIZE) lim True ?s2"
    using a e t kf(1) q(1) nz
    by (simp add: uvmunmap_loop.simps [of pt a] walk_noalloc pte_addr_def Let_def)
  moreover have "vm_ok ?s2 (q # xs) pt" using vm_step_ok [OF ls] .
  moreover have "tnodes (pmem ?s2) pt = tnodes (pmem s) pt"
    using o(3) tnode_leaf_store [OF ok1 t1] by (simp add: tnodes_def cong: conj_cong)
  moreover have "w < MAXVA \<Longrightarrow> pte_of (pmem ?s2) pt w = (if PGROUNDDOWN w = a then 0 else pte_of (pmem s) pt w)" for w
    using pte_of_leaf_store [OF ok1 t1 a(1)] o(2) PGROUNDDOWN_id [OF a(2)] by simp
  moreover have "pmem ?s2 x = pmem s x" if "PGROUNDDOWN x \<notin> insert q (tnodes (pmem s) pt)" for x
    using that kf(3) [of x] vm_ok_node(2) [OF ok _ t(1)] tnodesI [OF order_refl t(1)]
    by (simp add: store64_other_page pte_addr_page pte_addr_aligned8) (metis store64_other_page pte_addr_page pte_addr_aligned8)
  moreover have "ram_page ?s2 = ram_page s" by (simp add: fun_eq_iff)
  ultimately show thesis by (intro that [of ?s2])
qed

text \<open>\<open>owned s xs pt qs a\<close>: the consecutive pages from \<open>a\<close> are leaf mappings of the distinct
  allocated pages \<open>qs\<close>, none of them a table or free.\<close>

fun owned :: "'z kmach_scheme \<Rightarrow> u64 list \<Rightarrow> u64 \<Rightarrow> u64 list \<Rightarrow> u64 \<Rightarrow> bool" where
  "owned s xs pt [] a \<longleftrightarrow> True"
| "owned s xs pt (q # qs) a \<longleftrightarrow>
     (let e = pte_of (pmem s) pt a in e AND PTE_V \<noteq> 0 \<and> PTE_FLAGS e \<noteq> PTE_V \<and> PTE2PA e = q) \<and>
     ram_page s q \<and> q \<notin> set xs \<and> q \<notin> tnodes (pmem s) pt \<and> q \<notin> set qs \<and> owned s xs pt qs (a + PGSIZE)"

lemma owned_step:
  assumes "owned s xs pt qs a" "q \<notin> set qs" "ram_page s' = ram_page s" "tnodes (pmem s') pt = tnodes (pmem s) pt"
    "unat a + 4096 * length qs \<le> 2 ^ 38" "b < a" "page_aligned a" "page_aligned b"
    "\<And>w. w < MAXVA \<Longrightarrow> pte_of (pmem s') pt w = (if PGROUNDDOWN w = b then 0 else pte_of (pmem s) pt w)"
  shows "owned s' (q # xs) pt qs a"
  using assms
proof (induction qs arbitrary: a)
  case (Cons x qs)
  have lt: "a < MAXVA" using Cons(6) by (simp add: word_less_nat_alt MAXVA_unat)
  note a' = unat_add_PGSIZE_va [OF lt]
  have "PGROUNDDOWN a \<noteq> b" using Cons(7,8) PGROUNDDOWN_id by force
  then have e: "pte_of (pmem s') pt a = pte_of (pmem s) pt a" using Cons(10) lt by simp
  have "b < a + PGSIZE" "page_aligned (a + PGSIZE)"
    using Cons(7,8) a' by (auto simp: word_less_nat_alt page_aligned_dvd)
  then have "owned s' (q # xs) pt qs (a + PGSIZE)"
    using Cons(2-) a' by (intro Cons.IH) auto
  then show ?case using Cons(2-5) e by auto
qed simp

lemma uvmunmap_loop_spec:
  assumes "vm_ok s xs pt" "page_aligned a" "unat a + 4096 * length qs \<le> 2 ^ 38" "owned s xs pt qs a"
  shows "\<exists>s'. uvmunmap_loop pt a (a + of_nat (4096 * length qs)) True s = Inr s' \<and> vm_ok s' (rev qs @ xs) pt \<and>
    (\<forall>w < MAXVA. pte_of (pmem s') pt w = (if in_area a (4096 * length qs) w then 0 else pte_of (pmem s) pt w)) \<and>
    (\<forall>x. PGROUNDDOWN x \<notin> set qs \<union> tnodes (pmem s) pt \<longrightarrow> pmem s' x = pmem s x)"
  using assms
proof (induction qs arbitrary: s xs a)
  case Nil
  then show ?case by (auto simp: uvmunmap_loop.simps [of pt a])
next
  case (Cons q qs)
  let ?lim = "a + of_nat (4096 * length (q # qs)) :: u64"
  have lt: "a < MAXVA" using Cons(4) by (simp add: word_less_nat_alt MAXVA_unat)
  note a' = unat_add_PGSIZE_va [OF lt]
  have u: "unat (of_nat (4096 * length (q # qs)) :: u64) = 4096 * length (q # qs)"
    using Cons(4) by (intro unat_of_nat64) simp
  have "unat ?lim = unat a + 4096 * length (q # qs)"
    using Cons(4) u unat_word_ariths(1) [of a "of_nat (4096 * length (q # qs))"] by simp
  then have al: "a < ?lim" by (simp add: word_less_nat_alt)
  have ow: "pte_of (pmem s) pt a AND PTE_V \<noteq> 0" "PTE_FLAGS (pte_of (pmem s) pt a) \<noteq> PTE_V"
    "q = PTE2PA (pte_of (pmem s) pt a)" "ram_page s q" "q \<notin> set xs" "q \<notin> tnodes (pmem s) pt"
    "q \<notin> set qs" "owned s xs pt qs (a + PGSIZE)"
    using Cons(5) by (auto simp: Let_def)
  obtain s1 where s1: "uvmunmap_loop pt a ?lim True s = uvmunmap_loop pt (a + PGSIZE) ?lim True s1"
    "vm_ok s1 (q # xs) pt" "ram_page s1 = ram_page s" "tnodes (pmem s1) pt = tnodes (pmem s) pt"
    "\<And>w. w < MAXVA \<Longrightarrow> pte_of (pmem s1) pt w = (if PGROUNDDOWN w = a then 0 else pte_of (pmem s) pt w)"
    "\<And>x. PGROUNDDOWN x \<notin> insert q (tnodes (pmem s) pt) \<Longrightarrow> pmem s1 x = pmem s x"
    using unmap_step [OF Cons(2) lt Cons(3) al ow(1-6)] by metis
  have p': "page_aligned (a + PGSIZE)" "a < a + PGSIZE" "unat (a + PGSIZE) + 4096 * length qs \<le> 2 ^ 38"
    using Cons(3,4) a' by (auto simp: page_aligned_dvd word_less_nat_alt)
  have "owned s1 (q # xs) pt qs (a + PGSIZE)"
    by (rule owned_step [OF ow(8,7) s1(3,4) p'(3,2,1) Cons(3) s1(5)])
  with Cons.IH [OF s1(2) p'(1,3)] obtain s' where s':
    "uvmunmap_loop pt (a + PGSIZE) (a + PGSIZE + of_nat (4096 * length qs)) True s1 = Inr s'"
    "vm_ok s' (rev qs @ q # xs) pt"
    "\<forall>w < MAXVA. pte_of (pmem s') pt w = (if in_area (a + PGSIZE) (4096 * length qs) w then 0 else pte_of (pmem s1) pt w)"
    "\<forall>x. PGROUNDDOWN x \<notin> set qs \<union> tnodes (pmem s1) pt \<longrightarrow> pmem s' x = pmem s1 x" by blast
  have lim: "?lim = a + PGSIZE + of_nat (4096 * length qs)" by (simp add: PGSIZE_def)
  have "unat a + 4096 * Suc (length qs) < 2 ^ 64" using Cons(4) by simp
  note ar = in_area_pages [OF Cons(3) this]
  have "uvmunmap_loop pt a ?lim True s = Inr s'" using s1(1) s'(1) by (simp only: lim)
  then show ?case
    using s'(2-) s1(4-) ar by (intro exI [of _ s']) auto
qed

section \<open>Properties\<close>

text \<open>C11: \<^verbatim>\<open>mappages\<close> maps exactly the range it is asked for. On a well-formed table whose
  entries for the pages of \<^verbatim>\<open>[va, va+size)\<close> are unused, it returns 0 with the \<open>i\<close>-th page of
  the range translated to \<^verbatim>\<open>pa + i*PGSIZE\<close> with the permissions given, or, only when the free
  list has run out, -1 with a prefix of the range mapped. Every other translation is kept, the
  table stays well-formed, and only tables and pages taken from the free list are written.\<close>

theorem mappages_correct:
  assumes "vm_ok s xs pt" "sz \<noteq> 0" "unat va + unat sz \<le> unat MAXVA"
    "\<forall>w. in_area (PGROUNDDOWN va) (4096 * npages va sz) w \<longrightarrow> pte_of (pmem s) pt w AND PTE_V = 0"
  shows "\<exists>rc s' ys j. mappages pt va sz pa perm s = Inr (rc, s') \<and> vm_step s xs s' ys pt \<and>
    (rc = 0 \<and> j = npages va sz \<or> rc = - 1 \<and> j < npages va sz \<and> ys = []) \<and>
    (\<forall>w < MAXVA. pte_of (pmem s') pt w =
       (if in_area (PGROUNDDOWN va) (4096 * j) w
        then PA2PTE (pa + (PGROUNDDOWN w - PGROUNDDOWN va)) OR perm OR PTE_V
        else pte_of (pmem s) pt w))"
  using mappages_spec [OF assms(1,2)] assms(3,4) by (simp add: MAXVA_unat map_range_def)

text \<open>A fresh table over the concrete machine: one page of the pool used, three left.\<close>

definition fresh :: kmach where
  "fresh = (case uvmcreate pool of Inr (_, s) \<Rightarrow> s | Inl _ \<Rightarrow> pool)"

lemma fresh_eq:
  "fresh = (kalloc_state pool)\<lparr>pmem := memset (pmem (kalloc_state pool)) 0x80022000 0 4096\<rparr>"
  using kalloc_spec(1) [OF pool_ok] by (simp add: fresh_def uvmcreate_def)

lemma fresh_zero: "PGROUNDDOWN x = 0x80022000 \<Longrightarrow> pmem fresh x = 0"
  by (simp add: fresh_eq memset_page_in page_aligned_def mask_12)

lemma fresh_ram: "ram_page fresh x = ram_page boot_mem x"
  by (simp add: fresh_eq kalloc_state_def pool_def)

lemma fresh_ok:
  "vm_ok fresh [0x80023000, 0x80024000, 0x80025000] 0x80022000" "pte_of (pmem fresh) 0x80022000 va = 0"
proof -
  obtain s' where s': "uvmcreate pool = Inr (0x80022000, s')"
    "vm_ok s' [0x80023000, 0x80024000, 0x80025000] 0x80022000" "\<forall>va. pte_of (pmem s') 0x80022000 va = 0"
    using uvmcreate_spec [OF pool_ok] by auto
  then have "fresh = s'" by (simp add: fresh_def)
  with s' show "vm_ok fresh [0x80023000, 0x80024000, 0x80025000] 0x80022000"
    "pte_of (pmem fresh) 0x80022000 va = 0" by simp_all
qed

theorem mappages_correct_witness:
  "\<exists>rc s' ys j. mappages 0x80022000 0x1000 0x2000 0x80040000 (PTE_R OR PTE_U) fresh = Inr (rc, s') \<and>
    vm_step fresh [0x80023000, 0x80024000, 0x80025000] s' ys 0x80022000 \<and>
    (rc = 0 \<and> j = npages 0x1000 0x2000 \<or> rc = - 1 \<and> j < npages 0x1000 0x2000 \<and> ys = []) \<and>
    (\<forall>w < MAXVA. pte_of (pmem s') 0x80022000 w =
       (if in_area (PGROUNDDOWN 0x1000) (4096 * j) w
        then PA2PTE (0x80040000 + (PGROUNDDOWN w - PGROUNDDOWN 0x1000)) OR (PTE_R OR PTE_U) OR PTE_V
        else pte_of (pmem fresh) 0x80022000 w))"
  by (rule mappages_correct [OF fresh_ok(1)]) (simp_all add: fresh_ok MAXVA_unat)

end
