(* ===== verification/Usermem.thy ===== *)
theory Usermem
  imports Pagetable
begin

text \<open>
  Copies between kernel and user memory (\<^verbatim>\<open>copyout\<close>, \<^verbatim>\<open>copyin\<close>, \<^verbatim>\<open>copyinstr\<close> of \<open>Vm\<close>)
  against the user's own view of its memory, \<open>uview\<close>: the byte the hardware delivers for a
  virtual address. The copies go page by page through the table; the theorems say that they
  transfer the bytes of the range, stop at the first address that is not a user page, and
  touch nothing else.
\<close>

section \<open>The user's view\<close>

definition user_va :: "mem \<Rightarrow> u64 \<Rightarrow> u64 \<Rightarrow> bool" where
  "user_va m pt w \<longleftrightarrow> w < MAXVA \<and> pte_of m pt w AND PTE_V \<noteq> 0 \<and> pte_of m pt w AND PTE_U \<noteq> 0"

definition upage :: "mem \<Rightarrow> u64 \<Rightarrow> u64 \<Rightarrow> u64" where
  "upage m pt w = PTE2PA (pte_of m pt w)"

definition uview :: "mem \<Rightarrow> u64 \<Rightarrow> u64 \<Rightarrow> u8" where
  "uview m pt w = m (upage m pt w + (w - PGROUNDDOWN w))"

text \<open>The user pages are real, outside the set \<open>F\<close>, and different for different virtual pages.\<close>

definition umap_ok :: "(u64 \<Rightarrow> bool) \<Rightarrow> (u64 \<Rightarrow> u64) \<Rightarrow> u64 set \<Rightarrow> bool" where
  "umap_ok U P F \<longleftrightarrow> (\<forall>w. U w \<longrightarrow> P w \<noteq> 0 \<and> P w \<notin> F) \<and>
     (\<forall>w w'. U w \<longrightarrow> U w' \<longrightarrow> P w = P w' \<longrightarrow> PGROUNDDOWN w = PGROUNDDOWN w')"

definition uspace_ok :: "'z kmach_scheme \<Rightarrow> u64 list \<Rightarrow> u64 \<Rightarrow> bool" where
  "uspace_ok s xs pt \<longleftrightarrow> vm_ok s xs pt \<and>
     umap_ok (user_va (pmem s) pt) (upage (pmem s) pt) (set xs \<union> tnodes (pmem s) pt)"

lemma umap_okD:
  "umap_ok U P F \<Longrightarrow> U w \<Longrightarrow> P w \<noteq> 0" "umap_ok U P F \<Longrightarrow> U w \<Longrightarrow> P w \<notin> F"
  "umap_ok U P F \<Longrightarrow> U w \<Longrightarrow> U w' \<Longrightarrow> PGROUNDDOWN w \<noteq> PGROUNDDOWN w' \<Longrightarrow> P w \<noteq> P w'"
  unfolding umap_ok_def by blast+

lemma tnode_PGROUNDDOWN: "tnode m pt k (PGROUNDDOWN w) = tnode m pt k w"
  by (induction k) (auto simp: PX_PGROUNDDOWN split: option.splits)

lemma pte_of_PGROUNDDOWN: "pte_of m pt (PGROUNDDOWN w) = pte_of m pt w"
  by (auto simp: pte_of_def tnode_PGROUNDDOWN PX_PGROUNDDOWN split: option.splits)

lemma user_va_PGROUNDDOWN [simp]: "user_va m pt (PGROUNDDOWN w) = user_va m pt w"
  by (simp add: user_va_def pte_of_PGROUNDDOWN PGROUNDDOWN_below)

lemma upage_PGROUNDDOWN [simp]: "upage m pt (PGROUNDDOWN w) = upage m pt w"
  by (simp add: upage_def pte_of_PGROUNDDOWN)

lemma user_va_same_page: "PGROUNDDOWN w = PGROUNDDOWN w' \<Longrightarrow> user_va m pt w = user_va m pt w'"
  using user_va_PGROUNDDOWN by metis

lemma upage_same_page: "PGROUNDDOWN w = PGROUNDDOWN w' \<Longrightarrow> upage m pt w = upage m pt w'"
  using upage_PGROUNDDOWN by metis

lemma upage_aligned [simp]: "page_aligned (upage m pt w)"
  by (simp add: upage_def)

lemma walkaddr_user:
  assumes "uspace_ok s xs pt"
  shows "walkaddr pt (PGROUNDDOWN w) s =
    Inr (if user_va (pmem s) pt w then upage (pmem s) pt w else 0)"
proof -
  have "vm_ok s xs pt" using assms by (simp add: uspace_ok_def)
  then show ?thesis
    by (simp add: walkaddr_eq user_va_def upage_def pte_of_PGROUNDDOWN PGROUNDDOWN_below)
qed

section \<open>Chunks\<close>

lemma chunk_page:
  assumes "i < chunk va n"
  shows "PGROUNDDOWN (va + of_nat i) = PGROUNDDOWN va" "unat va mod 4096 + i < 4096"
proof -
  show i: "unat va mod 4096 + i < 4096" using assms by (auto simp: chunk_eq)
  have "va + of_nat i = PGROUNDDOWN va + ((va - PGROUNDDOWN va) + of_nat i)" by simp
  moreover have "unat ((va - PGROUNDDOWN va) + of_nat i) = unat va mod 4096 + i"
    using i page_offset [of va] unat_of_nat64 [of i] by (simp add: unat_word_ariths)
  ultimately show "PGROUNDDOWN (va + of_nat i) = PGROUNDDOWN va"
    using i PGROUNDDOWN_add [OF page_aligned_PGROUNDDOWN, of "(va - PGROUNDDOWN va) + of_nat i" va] by simp
qed

lemma chunk_next:
  assumes "chunk va n < n" "va < MAXVA"
  shows "PGROUNDDOWN va + PGSIZE = va + of_nat (chunk va n)"
proof -
  have c: "chunk va n = 4096 - unat va mod 4096" using assms(1) by (auto simp: chunk_eq min_def split: if_splits)
  have d: "unat va = unat (PGROUNDDOWN va) + unat va mod 4096" by (simp add: unat_PGROUNDDOWN)
  have b: "unat va < 2 ^ 38" using assms(2) by (simp add: word_less_nat_alt MAXVA_unat)
  have "unat (va + of_nat (chunk va n)) = unat va + chunk va n"
    using b unat_of_nat64 [of "chunk va n"] by (simp add: c unat_word_ariths)
  also have "\<dots> = unat (PGROUNDDOWN va) + 4096" using d c by (simp add: less_imp_le)
  also have "\<dots> = unat (PGROUNDDOWN va + PGSIZE)"
    using b d by (simp add: PGSIZE_def unat_word_ariths)
  finally show ?thesis by (simp add: word_unat_eq_iff)
qed

section \<open>\<^verbatim>\<open>copyin\<close>\<close>

text \<open>\<open>reach m pt va n k\<close>: the first \<open>k\<close> of \<open>n\<close> bytes at \<open>va\<close> are user memory, and \<open>k\<close> is all of
  them or the next one is not.\<close>

definition reach :: "mem \<Rightarrow> u64 \<Rightarrow> u64 \<Rightarrow> nat \<Rightarrow> nat \<Rightarrow> bool" where
  "reach m pt va n k \<longleftrightarrow> k \<le> n \<and> (\<forall>i < k. user_va m pt (va + of_nat i)) \<and>
     (k < n \<longrightarrow> \<not> user_va m pt (va + of_nat k))"

lemma reach_chunk:
  assumes "user_va m pt va" "0 < n" "n = chunk va n + r"
    and "reach m pt (PGROUNDDOWN va + PGSIZE) r k"
  shows "reach m pt va n (chunk va n + k)"
proof (cases "r = 0")
  case True
  then show ?thesis
    using assms chunk_page(1) [of _ va n]
    by (auto simp: reach_def dest!: user_va_same_page)
next
  case False
  let ?c = "chunk va n"
  have nx: "PGROUNDDOWN va + PGSIZE = va + of_nat ?c"
    using False assms(1,3) by (intro chunk_next) (auto simp: user_va_def)
  have sh: "PGROUNDDOWN va + PGSIZE + of_nat j = va + of_nat (?c + j)" for j by (simp add: nx)
  have "user_va m pt (va + of_nat i)" if "i < ?c + k" for i
  proof (cases "i < ?c")
    case True
    then show ?thesis using chunk_page(1) [OF True] assms(1) user_va_same_page by metis
  next
    case False
    then have "i - ?c < k" using that by arith
    then have "user_va m pt (PGROUNDDOWN va + PGSIZE + of_nat (i - ?c))"
      using assms(4) unfolding reach_def by blast
    then show ?thesis using False sh [of "i - ?c"] by (metis le_add_diff_inverse not_less)
  qed
  then show ?thesis using assms(3,4) sh [of k] by (auto simp: reach_def)
qed

lemma uview_chunk:
  assumes "i < chunk va n"
  shows "m (upage m pt va + (va - PGROUNDDOWN va) + of_nat i) = uview m pt (va + of_nat i)"
  using chunk_page(1) [OF assms] upage_same_page [of "va + of_nat i" va m pt]
  by (simp add: uview_def algebra_simps)

lemma read_bytes_chunk:
  "read_bytes m (upage m pt va + (va - PGROUNDDOWN va)) (chunk va n) =
   map (\<lambda>i. uview m pt (va + of_nat i)) [0..<chunk va n]"
  by (auto simp: read_bytes_def uview_chunk)

lemma map_chunk:
  assumes "user_va m pt va" "chunk va n + r = n" "reach m pt (PGROUNDDOWN va + PGSIZE) r k"
  shows "map (\<lambda>i. f (va + of_nat i)) [0..<chunk va n + k] =
    map (\<lambda>i. f (va + of_nat i)) [0..<chunk va n] @ map (\<lambda>i. f (PGROUNDDOWN va + PGSIZE + of_nat i)) [0..<k]"
proof -
  let ?c = "chunk va n"
  have sp: "[0..<?c + k] = [0..<?c] @ map (\<lambda>i. i + ?c) [0..<k]"
    using upt_add_eq_append [of 0 ?c k] by (simp add: map_add_upt add.commute)
  have "PGROUNDDOWN va + PGSIZE + of_nat i = va + of_nat (i + ?c)" if "i < k" for i
    using that assms chunk_next [of va n] by (auto simp: reach_def user_va_def)
  then show ?thesis by (simp add: sp del: of_nat_add)
qed

lemma copyin_spec:
  assumes "uspace_ok s xs pt"
  shows "\<exists>k rc. copyin pt va n s = Inr (rc, map (\<lambda>i. uview (pmem s) pt (va + of_nat i)) [0..<k]) \<and>
    reach (pmem s) pt va n k \<and> rc = (if k = n then 0 else - 1)"
proof (induction n arbitrary: va rule: less_induct)
  case (less n va)
  note w = walkaddr_user [OF assms, of va]
  show ?case
  proof (cases "n = 0")
    case True
    then show ?thesis by (auto simp: copyin.simps [of pt va] reach_def)
  next
    case n: False
    show ?thesis
    proof (cases "user_va (pmem s) pt va")
      case False
      then show ?thesis using n w
        by (intro exI [of _ 0] exI [of _ "- 1"]) (simp add: copyin.simps [of pt va] Let_def reach_def)
    next
      case True
      let ?c = "chunk va n" and ?va = "PGROUNDDOWN va + PGSIZE"
      have c: "0 < ?c" "?c \<le> n" using n chunk_pos chunk_le by auto
      obtain k rc where k: "copyin pt ?va (n - ?c) s = Inr (rc, map (\<lambda>i. uview (pmem s) pt (?va + of_nat i)) [0..<k])"
        "reach (pmem s) pt ?va (n - ?c) k" "rc = (if k = n - ?c then 0 else - 1)"
        using less [of "n - ?c" ?va] c by auto
      have up: "upage (pmem s) pt va \<noteq> 0" using assms True by (auto simp: uspace_ok_def dest: umap_okD)
      have "copyin pt va n s = Inr (rc, map (\<lambda>i. uview (pmem s) pt (va + of_nat i)) [0..<?c + k])"
        using n True w k(1,2) up read_bytes_chunk c map_chunk [of "pmem s" pt va n "n - ?c" k "uview (pmem s) pt"]
        by (simp add: copyin.simps [of pt va] Let_def)
      moreover have "reach (pmem s) pt va n (?c + k)"
        using True n c k(2) by (intro reach_chunk [of _ _ _ _ "n - ?c"]) auto
      ultimately show ?thesis using k(3) c by (intro exI [of _ "?c + k"] exI [of _ rc]) auto
    qed
  qed
qed

section \<open>\<^verbatim>\<open>copyout\<close>\<close>

lemma in_area_split:
  assumes "c + k < 2 ^ 64"
  shows "in_area a (c + k) w \<longleftrightarrow> in_area a c w \<or> in_area (a + of_nat c) k w"
    and "in_area (a + of_nat c) k w \<Longrightarrow> \<not> in_area a c w \<and> unat (w - a) = c + unat (w - (a + of_nat c))"
proof -
  have c: "unat (of_nat c :: u64) = c" using assms by (intro unat_of_nat64) simp
  define y where "y = w - a"
  have d: "w - (a + of_nat c) = y - of_nat c" by (simp add: y_def diff_diff_add)
  have lt: "unat y < 2 ^ 64" using unsigned_less [of y, where 'a = nat] by simp
  have u: "unat (y - of_nat c) = (if c \<le> unat y then unat y - c else unat y + 2 ^ 64 - c)"
    using c lt by (simp add: unat_sub_if' word_le_nat_alt)
  show "in_area a (c + k) w \<longleftrightarrow> in_area a c w \<or> in_area (a + of_nat c) k w"
    unfolding in_area_def d u using assms by (auto simp: y_def [symmetric])
  show "in_area (a + of_nat c) k w \<Longrightarrow> \<not> in_area a c w \<and> unat (w - a) = c + unat (w - (a + of_nat c))"
    unfolding in_area_def d u using assms by (auto simp: y_def [symmetric] split: if_splits)
qed

lemma in_area_chunk_page: "in_area va (chunk va n) w \<Longrightarrow> PGROUNDDOWN w = PGROUNDDOWN va"
  using chunk_page(1) by (auto simp: in_area_conv)

lemma write_page:
  assumes "length bs = chunk va n" "page_aligned q"
    "in_area (q + (va - PGROUNDDOWN va)) (length bs) x"
  shows "PGROUNDDOWN x = q"
proof -
  obtain j where j: "j < length bs" "j < 2 ^ 64" "x = q + (va - PGROUNDDOWN va) + of_nat j"
    using assms(3) by (auto simp: in_area_conv)
  have lt: "unat va mod 4096 + j < 4096" using chunk_page(2) [of j va n] j(1) assms(1) by simp
  have "unat ((va - PGROUNDDOWN va) + of_nat j) = unat va mod 4096 + j"
    using lt page_offset [of va] unat_of_nat64 [OF j(2)] by (simp add: unat_word_ariths)
  then show ?thesis
    using PGROUNDDOWN_add [OF assms(2), of "(va - PGROUNDDOWN va) + of_nat j"] lt j(3)
    by (simp add: add.assoc)
qed

lemma uspace_write:
  assumes ok: "uspace_ok s xs pt" and va: "user_va (pmem s) pt va" and bs: "length bs = chunk va n"
  defines "m \<equiv> write_bytes (pmem s) (upage (pmem s) pt va + (va - PGROUNDDOWN va)) bs"
  shows "uspace_ok (s\<lparr>pmem := m\<rparr>) xs pt" and "\<And>w. pte_of m pt w = pte_of (pmem s) pt w"
    and "\<And>w. user_va (pmem s) pt w \<Longrightarrow> uview m pt w =
           (if in_area va (length bs) w then bs ! unat (w - va) else uview (pmem s) pt w)"
    and "\<And>x. PGROUNDDOWN x \<noteq> upage (pmem s) pt va \<Longrightarrow> m x = pmem s x"
proof -
  let ?q = "upage (pmem s) pt va" and ?o = "va - PGROUNDDOWN va"
  show other: "m x = pmem s x" if "PGROUNDDOWN x \<noteq> ?q" for x
    using that write_page [OF bs, of ?q x] by (auto simp: m_def write_bytes_def)
  have q: "?q \<notin> set xs" "?q \<notin> tnodes (pmem s) pt" and vm: "vm_ok s xs pt"
    using ok va by (auto simp: uspace_ok_def dest: umap_okD(2))
  note v = vm_ok_other_page [OF vm upage_aligned q other]
  show "pte_of m pt w = pte_of (pmem s) pt w" for w by (rule v(2))
  have uv: "user_va m pt = user_va (pmem s) pt" "upage m pt = upage (pmem s) pt"
    using v(2) by (simp_all add: user_va_def upage_def fun_eq_iff)
  show "uspace_ok (s\<lparr>pmem := m\<rparr>) xs pt"
    using ok v(1,3) uv by (simp add: uspace_ok_def)
  show "uview m pt w = (if in_area va (length bs) w then bs ! unat (w - va) else uview (pmem s) pt w)"
    if w: "user_va (pmem s) pt w" for w
  proof (cases "PGROUNDDOWN w = PGROUNDDOWN va")
    case True
    have "(?q + (w - PGROUNDDOWN w)) - (?q + ?o) = w - va" using True by simp
    then show ?thesis
      using upage_same_page [OF True, of "pmem s" pt] uv
      by (simp add: uview_def m_def write_bytes_def in_area_def)
  next
    case False
    then have ne: "upage (pmem s) pt w \<noteq> ?q" using ok va w unfolding uspace_ok_def by (metis umap_okD(3))
    have "unat (w - PGROUNDDOWN w) < 4096" by (simp add: page_offset)
    then have "PGROUNDDOWN (upage (pmem s) pt w + (w - PGROUNDDOWN w)) = upage (pmem s) pt w"
      by (rule PGROUNDDOWN_add [OF upage_aligned])
    then have "m (upage (pmem s) pt w + (w - PGROUNDDOWN w)) = pmem s (upage (pmem s) pt w + (w - PGROUNDDOWN w))"
      using ne by (intro other) simp
    moreover have "\<not> in_area va (length bs) w" using in_area_chunk_page [of va n w] False bs by auto
    ultimately show ?thesis using uv by (simp add: uview_def)
  qed
qed

text \<open>
  \<open>copied s pt xs va src k s'\<close>: the step from \<open>s\<close> to \<open>s'\<close> put the first \<open>k\<close> bytes of \<open>src\<close> at the
  user address \<open>va\<close>, and wrote only the pages behind that range.
\<close>

definition copied :: "'z kmach_scheme \<Rightarrow> u64 \<Rightarrow> u64 list \<Rightarrow> u64 \<Rightarrow> u8 list \<Rightarrow> nat \<Rightarrow> 'z kmach_scheme \<Rightarrow> bool" where
  "copied s pt xs va src k s' \<longleftrightarrow> uspace_ok s' xs pt \<and> s' = s\<lparr>pmem := pmem s'\<rparr> \<and>
    (\<forall>w. pte_of (pmem s') pt w = pte_of (pmem s) pt w) \<and>
    (\<forall>w. user_va (pmem s) pt w \<longrightarrow> uview (pmem s') pt w =
       (if in_area va k w then src ! unat (w - va) else uview (pmem s) pt w)) \<and>
    (\<forall>x. (\<forall>w. user_va (pmem s) pt w \<longrightarrow> in_area va k w \<longrightarrow> PGROUNDDOWN x \<noteq> upage (pmem s) pt w) \<longrightarrow>
       pmem s' x = pmem s x)"

lemma copied_0: "uspace_ok s xs pt \<Longrightarrow> copied s pt xs va src 0 s"
  by (simp add: copied_def)

lemma copied_chunk:
  assumes ok: "uspace_ok s xs pt" and u: "user_va (pmem s) pt va" and n: "src \<noteq> []"
    and c: "c = chunk va (length src)"
    and m: "m = write_bytes (pmem s) (upage (pmem s) pt va + (va - PGROUNDDOWN va)) (take c src)"
    and k: "copied (s\<lparr>pmem := m\<rparr>) pt xs (PGROUNDDOWN va + PGSIZE) (drop c src) k s'"
    and b: "c + k < 2 ^ 64" and nx: "k = 0 \<or> PGROUNDDOWN va + PGSIZE = va + of_nat c"
  shows "copied s pt xs va src (c + k) s'"
proof -
  let ?va = "PGROUNDDOWN va + PGSIZE"
  have c0: "0 < c" "c \<le> length src" using n c chunk_pos chunk_le by auto
  have len: "length (take c src) = chunk va (length src)" using c0 c by simp
  note W = uspace_write [OF ok u len, folded m]
  have uv: "user_va m pt = user_va (pmem s) pt" "upage m pt = upage (pmem s) pt"
    using W(2) by (simp_all add: user_va_def upage_def fun_eq_iff)
  have ar: "in_area va (c + k) w \<longleftrightarrow> in_area va c w \<or> in_area ?va k w"
    "in_area ?va k w \<Longrightarrow> \<not> in_area va c w \<and> unat (w - va) = c + unat (w - ?va)" for w
    using nx in_area_split [OF b, of va w] by auto
  have lc: "length (take c src) = c" using c0 by simp
  have K: "uspace_ok s' xs pt" "s' = s\<lparr>pmem := pmem s'\<rparr>" "pte_of (pmem s') pt w = pte_of (pmem s) pt w"
    "user_va (pmem s) pt w \<Longrightarrow> uview (pmem s') pt w = (if in_area ?va k w then drop c src ! unat (w - ?va) else uview m pt w)"
    "(\<And>w. user_va (pmem s) pt w \<Longrightarrow> in_area ?va k w \<Longrightarrow> PGROUNDDOWN x \<noteq> upage (pmem s) pt w) \<Longrightarrow> pmem s' x = m x" for w x
    using k W(2) unfolding copied_def by (simp_all add: uv)
  have view: "uview (pmem s') pt w = (if in_area va (c + k) w then src ! unat (w - va) else uview (pmem s) pt w)"
    if "user_va (pmem s) pt w" for w
    using K(4) [OF that] W(3) [OF that] ar [of w] c0 by (auto simp: in_area_def lc)
  have "pmem s' x = pmem s x"
    if x: "\<forall>w. user_va (pmem s) pt w \<longrightarrow> in_area va (c + k) w \<longrightarrow> PGROUNDDOWN x \<noteq> upage (pmem s) pt w" for x
  proof -
    have "in_area va c va" using c0 by (simp add: in_area_def)
    then have "PGROUNDDOWN x \<noteq> upage (pmem s) pt va" using x u ar(1) by blast
    then have "m x = pmem s x" by (rule W(4))
    then show ?thesis using K(5) [of x] x ar(1) by metis
  qed
  then show ?thesis using K(1-3) view unfolding copied_def by blast
qed

lemma copyout_spec:
  assumes "uspace_ok s xs pt" "length src < 2 ^ 64"
  shows "\<exists>k s'. copyout pt va src s = Inr (if k = length src then 0 else - 1, s') \<and>
    reach (pmem s) pt va (length src) k \<and> copied s pt xs va src k s'"
  using assms
proof (induction "length src" arbitrary: src va s rule: less_induct)
  case (less src va s)
  note w = walkaddr_user [OF less(2), of va]
  let ?n = "length src" let ?c = "chunk va ?n" and ?va = "PGROUNDDOWN va + PGSIZE"
  show ?case
  proof (cases "src = [] \<or> \<not> user_va (pmem s) pt va")
    case True
    then show ?thesis using w copied_0 [OF less(2)]
      by (intro exI [of _ 0] exI [of _ s])
        (auto simp: copyout.simps [of pt va] Let_def reach_def)
  next
    case False
    then have n: "src \<noteq> []" and u: "user_va (pmem s) pt va" by auto
    have c: "0 < ?c" "?c \<le> ?n" using n chunk_pos chunk_le by auto
    have up: "upage (pmem s) pt va \<noteq> 0" using less(2) u by (auto simp: uspace_ok_def dest: umap_okD)
    define m where "m = write_bytes (pmem s) (upage (pmem s) pt va + (va - PGROUNDDOWN va)) (take ?c src)"
    have len: "length (take ?c src) = ?c" using c by simp
    note W = uspace_write [OF less(2) u len, folded m_def]
    have uv: "user_va m pt = user_va (pmem s) pt"
      using W(2) by (simp add: user_va_def fun_eq_iff)
    have lt: "length (drop ?c src) < length src" and lt64: "length (drop ?c src) < 2 ^ 64"
      using c less(3) by auto
    have re: "reach m pt = reach (pmem s) pt" using uv by (simp add: reach_def fun_eq_iff)
    obtain k s' where k: "copyout pt ?va (drop ?c src) (s\<lparr>pmem := m\<rparr>) = Inr (if k = ?n - ?c then 0 else - 1, s')"
      "reach (pmem s) pt ?va (?n - ?c) k" "copied (s\<lparr>pmem := m\<rparr>) pt xs ?va (drop ?c src) k s'"
      using less(1) [OF lt W(1) lt64, of ?va] by (auto simp: re)
    have r: "reach (pmem s) pt va ?n (?c + k)"
      using u n c k(2) by (intro reach_chunk [of _ _ _ _ "?n - ?c"]) auto
    have b: "?c + k < 2 ^ 64" using r less(3) by (simp add: reach_def)
    have nx: "k = 0 \<or> ?va = va + of_nat ?c"
      using k(2) u by (cases "?n - ?c = 0") (auto simp: reach_def user_va_def intro!: chunk_next)
    have "copyout pt va src s = copyout pt ?va (drop ?c src) (s\<lparr>pmem := m\<rparr>)"
      using n u w up by (simp add: copyout.simps [of pt va] Let_def m_def)
    then show ?thesis
      using k(1) r c copied_chunk [OF less(2) u n refl m_def k(3) b nx]
      by (intro exI [of _ "?c + k"] exI [of _ s']) auto
  qed
qed

section \<open>\<^verbatim>\<open>copyinstr\<close>\<close>

lemma reach_ex: "\<exists>k. reach m pt va n k"
proof (cases "\<forall>i < n. user_va m pt (va + of_nat i)")
  case True
  then show ?thesis by (auto simp: reach_def)
next
  case False
  define k where "k = (LEAST i. \<not> user_va m pt (va + of_nat i))"
  obtain j where j: "j < n" "\<not> user_va m pt (va + of_nat j)" using False by blast
  have "\<not> user_va m pt (va + of_nat k)" "k \<le> j"
    unfolding k_def using LeastI [of "\<lambda>i. \<not> user_va m pt (va + of_nat i)", OF j(2)]
      Least_le [of "\<lambda>i. \<not> user_va m pt (va + of_nat i)", OF j(2)] by auto
  moreover have "user_va m pt (va + of_nat i)" if "i < k" for i using that not_less_Least unfolding k_def by blast
  ultimately show ?thesis using j(1) by (intro exI [of _ k]) (auto simp: reach_def)
qed

lemma read_bytes_Suc: "read_bytes m p (Suc n) = m p # read_bytes m (p + 1) n"
  by (simp add: read_bytes_def upt_conv_Cons map_Suc_upt [symmetric] comp_def algebra_simps del: upt_Suc)

lemma copyinstr_page_eq:
  "copyinstr_page n m p = (let bs = read_bytes m p n in if 0 \<in> set bs then (True, cstr bs @ [0]) else (False, bs))"
proof (induction n arbitrary: p)
  case 0
  then show ?case by (simp add: read_bytes_def)
qed (auto simp: read_bytes_Suc Let_def)

lemma cstr_append: "cstr (xs @ ys) = (if 0 \<in> set xs then cstr xs else xs @ cstr ys)"
  by (induction xs) auto

lemma copyinstr_spec:
  assumes "uspace_ok s xs pt"
  shows "\<exists>k bs. reach (pmem s) pt va n k \<and> bs = map (\<lambda>i. uview (pmem s) pt (va + of_nat i)) [0..<k] \<and>
    copyinstr pt va n s = Inr (if 0 \<in> set bs then (0, cstr bs @ [0]) else (- 1, bs))"
proof (induction n arbitrary: va rule: less_induct)
  case (less n va)
  note w = walkaddr_user [OF assms, of va]
  show ?case
  proof (cases "n = 0 \<or> \<not> user_va (pmem s) pt va")
    case True
    then show ?thesis using w
      by (intro exI [of _ 0]) (auto simp: copyinstr.simps [of pt va] Let_def reach_def)
  next
    case False
    then have n: "0 < n" and u: "user_va (pmem s) pt va" by auto
    let ?c = "chunk va n" and ?va = "PGROUNDDOWN va + PGSIZE"
    let ?v = "\<lambda>i. uview (pmem s) pt (va + of_nat i)"
    have c: "0 < ?c" "?c \<le> n" using n chunk_pos chunk_le by auto
    have up: "upage (pmem s) pt va \<noteq> 0" using assms u by (auto simp: uspace_ok_def dest: umap_okD)
    have page: "copyinstr_page ?c (pmem s) (upage (pmem s) pt va + (va - PGROUNDDOWN va)) =
        (let bs = map ?v [0..<?c] in if 0 \<in> set bs then (True, cstr bs @ [0]) else (False, bs))"
      by (simp only: copyinstr_page_eq read_bytes_chunk)
    have sp: "map ?v [0..<?c + k] = map ?v [0..<?c] @ map (\<lambda>i. uview (pmem s) pt (?va + of_nat i)) [0..<k]"
      if "reach (pmem s) pt ?va (n - ?c) k" for k
      using that u c by (intro map_chunk [of _ _ _ _ "n - ?c"]) auto
    have re: "reach (pmem s) pt va n (?c + k)" if "reach (pmem s) pt ?va (n - ?c) k" for k
      using that u n c by (intro reach_chunk [of _ _ _ _ "n - ?c"]) auto
    show ?thesis
    proof (cases "0 \<in> set (map ?v [0..<?c])")
      case True
      obtain k where k: "reach (pmem s) pt ?va (n - ?c) k" using reach_ex by blast
      have "copyinstr pt va n s = Inr (0, cstr (map ?v [0..<?c]) @ [0])"
        using n u w up page True by (simp add: copyinstr.simps [of pt va] Let_def del: set_map)
      then show ?thesis
        using True re [OF k] sp [OF k] by (intro exI [of _ "?c + k"] exI [of _ "map ?v [0..<?c + k]"]) (simp add: cstr_append del: set_map)
    next
      case False
      obtain k bs where k: "reach (pmem s) pt ?va (n - ?c) k"
        "bs = map (\<lambda>i. uview (pmem s) pt (?va + of_nat i)) [0..<k]"
        "copyinstr pt ?va (n - ?c) s = Inr (if 0 \<in> set bs then (0, cstr bs @ [0]) else (- 1, bs))"
        using less [of "n - ?c" ?va] c by auto
      have "copyinstr pt va n s = Inr (if 0 \<in> set bs then (0, map ?v [0..<?c] @ cstr bs @ [0]) else (- 1, map ?v [0..<?c] @ bs))"
        using n u w up page False k(3) by (simp add: copyinstr.simps [of pt va] Let_def del: set_map)
      then show ?thesis
        using False re [OF k(1)] sp [OF k(1)] k(2)
        by (intro exI [of _ "?c + k"] exI [of _ "map ?v [0..<?c + k]"]) (simp add: cstr_append del: set_map)
    qed
  qed
qed

section \<open>Properties\<close>

text \<open>A concrete address space: one user page at address 0, backed by \<open>0x80040000\<close>.\<close>

definition demo_pt :: u64 where "demo_pt = 0x80022000"

definition demo :: kmach where
  "demo = (case mappages demo_pt 0 4096 0x80040000 (PTE_R OR PTE_W OR PTE_U) fresh of
             Inr (_, s) \<Rightarrow> s | Inl _ \<Rightarrow> fresh)"

lemma demo_space:
  obtains ys where "uspace_ok demo ys demo_pt" "\<And>w. user_va (pmem demo) demo_pt w \<longleftrightarrow> w < 4096"
    "pte_of (pmem demo) demo_pt 0 = PA2PTE 0x80040000 OR (PTE_R OR PTE_W OR PTE_U) OR PTE_V"
    "0x80040000 \<notin> set ys" "0x80040000 \<notin> tnodes (pmem demo) demo_pt" "ram_page demo 0x80040000"
proof -
  let ?e = "PA2PTE 0x80040000 OR (PTE_R OR PTE_W OR PTE_U) OR PTE_V"
  let ?xs = "[0x80023000, 0x80024000, 0x80025000] :: u64 list"
  have ok: "vm_ok fresh ?xs demo_pt" and z: "\<And>w. pte_of (pmem fresh) demo_pt w = 0"
    using fresh_ok by (simp_all add: demo_pt_def)
  have P0: "PGROUNDDOWN 0 = 0" by (simp add: PGROUNDDOWN_def)
  have mp: "mappages demo_pt 0 4096 0x80040000 (PTE_R OR PTE_W OR PTE_U) fresh =
      mappages_loop demo_pt 0 0 0x80040000 (PTE_R OR PTE_W OR PTE_U) fresh"
    by (simp add: mappages_def P0) (simp add: PGROUNDDOWN_def PGSIZE_def)
  have lt: "(0 :: u64) < MAXVA" "page_aligned 0" by (simp_all add: MAXVA_def page_aligned_def)
  have f: "pte_of (pmem fresh) demo_pt 0 AND PTE_V = 0" using z by simp
  obtain s1 ys where s1: "demo = s1" "vm_step fresh ?xs s1 ys demo_pt"
      "\<And>w. w < MAXVA \<Longrightarrow> pte_of (pmem s1) demo_pt w = (if PGROUNDDOWN w = 0 then ?e else 0)"
    by (cases rule: mappages_step [OF ok lt f, where l = 0 and pa = "0x80040000" and perm = "PTE_R OR PTE_W OR PTE_U"])
      (auto simp: demo_def mp z)
  obtain zs where zs: "?xs = zs @ ys" "tnodes (pmem s1) demo_pt \<subseteq> tnodes (pmem fresh) demo_pt \<union> set zs"
    using s1(2) by (auto simp: vm_step_def)
  have sub: "set zs \<subseteq> set ?xs" "set ys \<subseteq> set ?xs" using zs(1) by (metis set_append sup_ge1 sup_ge2)+
  have fz: "PGROUNDDOWN x = demo_pt \<Longrightarrow> pmem fresh x = 0" for x using fresh_zero by (simp add: demo_pt_def)
  have pal: "page_aligned demo_pt" by (simp add: demo_pt_def page_aligned_def mask_12)
  have "tnodes (pmem fresh) demo_pt = {demo_pt}" by (rule empty_table(2) [OF pal fz])
  then have "tnodes (pmem s1) demo_pt \<subseteq> {0x80022000, 0x80023000, 0x80024000, 0x80025000}"
    using zs(2) sub(1) unfolding demo_pt_def by fastforce
  then have nt: "0x80040000 \<notin> tnodes (pmem s1) demo_pt" by auto
  have ny: "0x80040000 \<notin> set ys" using sub by auto
  have zero: "PGROUNDDOWN w = 0 \<longleftrightarrow> w < 4096" for w
    using in_area_page [of 0 w] by (simp add: page_aligned_def in_area_def word_less_nat_alt)
  have e: "?e AND PTE_V \<noteq> 0" "?e AND PTE_U \<noteq> 0"
    by (simp_all add: PTE_V_def PTE_U_def PTE_R_def PTE_W_def PA2PTE_def)
  have uv: "user_va (pmem demo) demo_pt w \<longleftrightarrow> w < 4096" for w
    using s1(1) s1(3) [of w] e zero [of w] by (auto simp: user_va_def MAXVA_def word_less_nat_alt)
  have up: "user_va (pmem demo) demo_pt w \<Longrightarrow> upage (pmem demo) demo_pt w = 0x80040000" for w
    using s1(1) s1(3) [of w] zero [of w] uv [of w]
    by (auto simp: user_va_def upage_def PTE_V_def PTE_U_def PTE_R_def PTE_W_def PA2PTE_def PTE2PA_def)
  have "umap_ok (user_va (pmem demo) demo_pt) (upage (pmem demo) demo_pt) (set ys \<union> tnodes (pmem demo) demo_pt)"
    unfolding umap_ok_def using up uv ny nt s1(1) by (auto simp: zero [THEN iffD2])
  then have "uspace_ok demo ys demo_pt" using s1(1,2) by (simp add: uspace_ok_def vm_step_def)
  moreover have "ram_page demo 0x80040000"
  proof -
    show ?thesis using vm_step_ram [OF s1(2)] fresh_ram s1(1)
      by (simp add: boot_mem_ram page_aligned_def mask_12 PHYSTOP_def KERNBASE_def)
  qed
  ultimately show thesis using that uv s1(1) s1(3) [of 0] lt(1) P0 ny nt by simp
qed

text \<open>C12: \<^verbatim>\<open>copyout\<close> is isolated. It always returns; it stores the longest prefix of \<open>src\<close> that
  lies in user pages (\<open>PTE_V\<close> and \<open>PTE_U\<close> set) and returns 0 exactly if that is all of \<open>src\<close>;
  the user's view changes in that range only, and physical memory outside the user pages of
  the range, the page tables included, is not written.\<close>

theorem copyout_isolated:
  assumes "uspace_ok s xs pt" "length src < 2 ^ 64"
  shows "\<exists>k s'. copyout pt va src s = Inr (if k = length src then 0 else - 1, s') \<and>
    k \<le> length src \<and> (\<forall>i < k. user_va (pmem s) pt (va + of_nat i)) \<and>
    (k < length src \<longrightarrow> \<not> user_va (pmem s) pt (va + of_nat k)) \<and>
    (\<forall>w. pte_of (pmem s') pt w = pte_of (pmem s) pt w) \<and>
    (\<forall>w. user_va (pmem s) pt w \<longrightarrow> uview (pmem s') pt w =
       (if in_area va k w then src ! unat (w - va) else uview (pmem s) pt w)) \<and>
    (\<forall>x. (\<forall>w. user_va (pmem s) pt w \<longrightarrow> in_area va k w \<longrightarrow> PGROUNDDOWN x \<noteq> upage (pmem s) pt w) \<longrightarrow>
       pmem s' x = pmem s x)"
proof -
  obtain k s' where "copyout pt va src s = Inr (if k = length src then 0 else - 1, s')"
    "reach (pmem s) pt va (length src) k" "copied s pt xs va src k s'"
    using copyout_spec [OF assms] by blast
  then show ?thesis
    unfolding reach_def copied_def by (intro exI [of _ k] exI [of _ s'] conjI) simp_all
qed

theorem copyout_isolated_witness:
  "\<exists>k s'. copyout demo_pt 0xFFE [1, 2, 3, 4] demo = Inr (if k = length [1, 2, 3, 4 :: u8] then 0 else - 1, s') \<and>
    k \<le> length [1, 2, 3, 4 :: u8] \<and> (\<forall>i < k. user_va (pmem demo) demo_pt (0xFFE + of_nat i)) \<and>
    (k < length [1, 2, 3, 4 :: u8] \<longrightarrow> \<not> user_va (pmem demo) demo_pt (0xFFE + of_nat k)) \<and>
    (\<forall>w. pte_of (pmem s') demo_pt w = pte_of (pmem demo) demo_pt w) \<and>
    (\<forall>w. user_va (pmem demo) demo_pt w \<longrightarrow> uview (pmem s') demo_pt w =
       (if in_area 0xFFE k w then [1, 2, 3, 4] ! unat (w - 0xFFE) else uview (pmem demo) demo_pt w)) \<and>
    (\<forall>x. (\<forall>w. user_va (pmem demo) demo_pt w \<longrightarrow> in_area 0xFFE k w \<longrightarrow> PGROUNDDOWN x \<noteq> upage (pmem demo) demo_pt w) \<longrightarrow>
       pmem s' x = pmem demo x)"
proof (rule demo_space)
  fix ys assume "uspace_ok demo ys demo_pt"
  then show ?thesis by (rule copyout_isolated) simp
qed

text \<open>C13: Round trip. What \<^verbatim>\<open>copyout\<close> stored with return value 0, \<^verbatim>\<open>copyin\<close> of the same range
  returns with 0, and \<^verbatim>\<open>copyinstr\<close> returns up to its first NUL.\<close>

theorem copyout_copyin_roundtrip:
  assumes "uspace_ok s xs pt" "length src < 2 ^ 64" "copyout pt va src s = Inr (0, s')"
  shows "copyin pt va (length src) s' = Inr (0, src) \<and>
    (0 \<in> set src \<longrightarrow> copyinstr pt va (length src) s' = Inr (0, cstr src @ [0]))"
proof -
  let ?n = "length src" and ?v = "\<lambda>i. uview (pmem s') pt (va + of_nat i)"
  obtain k where "reach (pmem s) pt va ?n k" "copied s pt xs va src k s'" "k = ?n"
    using copyout_spec [OF assms(1,2), of va] assms(3) by (auto split: if_splits)
  then have r: "reach (pmem s) pt va ?n ?n" and c: "copied s pt xs va src ?n s'" by auto
  have uv: "user_va (pmem s') pt = user_va (pmem s) pt"
    using c by (simp add: copied_def user_va_def fun_eq_iff)
  have ok: "uspace_ok s' xs pt" using c by (simp add: copied_def)
  have same: "k = ?n" if "reach (pmem s') pt va ?n k" for k
    using that r uv by (auto simp: reach_def)
  have v: "map ?v [0..<?n] = src"
  proof (rule nth_equalityI)
    fix i assume "i < length (map ?v [0..<?n])"
    then have i: "i < ?n" by simp
    then have u: "unat (of_nat i :: u64) = i" using assms(2) by (intro unat_of_nat64) simp
    have "user_va (pmem s) pt (va + of_nat i)" using r i by (simp add: reach_def)
    then have "?v i = src ! i" using c i u by (simp add: copied_def in_area_def)
    then show "map ?v [0..<?n] ! i = src ! i" using i by simp
  qed simp
  obtain k rc where ki: "copyin pt va ?n s' = Inr (rc, map ?v [0..<k])" "reach (pmem s') pt va ?n k"
    "rc = (if k = ?n then 0 else - 1)" using copyin_spec [OF ok, of va ?n] by blast
  have in_ok: "copyin pt va ?n s' = Inr (0, src)" using ki(1,3) same [OF ki(2)] v by simp
  obtain k bs where ks: "reach (pmem s') pt va ?n k" "bs = map ?v [0..<k]"
    "copyinstr pt va ?n s' = Inr (if 0 \<in> set bs then (0, cstr bs @ [0]) else (- 1, bs))"
    using copyinstr_spec [OF ok, of va ?n] by blast
  have "bs = src" using ks(2) same [OF ks(1)] v by simp
  then show ?thesis using in_ok ks(3) by simp
qed

theorem copyout_copyin_roundtrip_witness:
  "\<exists>s'. copyout demo_pt 16 [104, 105, 0, 7] demo = Inr (0, s') \<and>
     copyin demo_pt 16 (length [104, 105, 0, 7 :: u8]) s' = Inr (0, [104, 105, 0, 7]) \<and>
     (0 \<in> set [104, 105, 0, 7 :: u8] \<longrightarrow>
      copyinstr demo_pt 16 (length [104, 105, 0, 7 :: u8]) s' = Inr (0, cstr [104, 105, 0, 7] @ [0]))"
proof (rule demo_space)
  let ?src = "[104, 105, 0, 7] :: u8 list"
  fix ys assume ok: "uspace_ok demo ys demo_pt" and uv: "\<And>w. user_va (pmem demo) demo_pt w \<longleftrightarrow> w < 4096"
  have len: "length ?src < 2 ^ 64" by simp
  obtain k s' where k: "copyout demo_pt 16 ?src demo = Inr (if k = length ?src then 0 else - 1, s')"
    "reach (pmem demo) demo_pt 16 (length ?src) k"
    using copyout_spec [OF ok len, of 16] by blast
  have "k \<le> 4" and nk: "k < 4 \<longrightarrow> \<not> user_va (pmem demo) demo_pt (16 + of_nat k)" using k(2) by (auto simp: reach_def)
  moreover have "\<not> k < 4"
  proof
    assume "k < 4"
    then have "k = 0 \<or> k = 1 \<or> k = 2 \<or> k = 3" by arith
    then have "user_va (pmem demo) demo_pt (16 + of_nat k)" unfolding uv by auto
    with nk \<open>k < 4\<close> show False by simp
  qed
  ultimately have "copyout demo_pt 16 ?src demo = Inr (0, s')" using k(1) by simp
  then show ?thesis using copyout_copyin_roundtrip [OF ok len] by blast
qed

text \<open>C17: \<^verbatim>\<open>uvmunmap\<close> with \<^verbatim>\<open>do_free\<close> gives back exactly the pages it unmaps. If the pages of the
  range are leaf mappings of distinct allocated pages, it returns; their entries become 0, all
  other translations stay, and the physical pages are back on the free list, last one first.\<close>

theorem uvmunmap_frees:
  assumes "vm_ok s xs pt" "page_aligned va" "unat va + 4096 * length qs \<le> unat MAXVA" "owned s xs pt qs va"
  shows "\<exists>s'. uvmunmap pt va (of_nat (length qs)) True s = Inr s' \<and> vm_ok s' (rev qs @ xs) pt \<and>
    (\<forall>w < MAXVA. pte_of (pmem s') pt w = (if in_area va (4096 * length qs) w then 0 else pte_of (pmem s) pt w)) \<and>
    (\<forall>x. PGROUNDDOWN x \<notin> set qs \<union> tnodes (pmem s) pt \<longrightarrow> pmem s' x = pmem s x)"
proof -
  have "of_nat (length qs) * PGSIZE = of_nat (4096 * length qs)" by (simp add: PGSIZE_def)
  then show ?thesis
    using uvmunmap_loop_spec [OF assms(1,2) _ assms(4)] assms(2,3)
    by (simp add: uvmunmap_def page_aligned_mod MAXVA_unat)
qed

theorem uvmunmap_frees_witness:
  "\<exists>ys s'. uvmunmap demo_pt 0 (of_nat (length [0x80040000 :: u64])) True demo = Inr s' \<and>
    vm_ok s' (rev [0x80040000] @ ys) demo_pt \<and>
    (\<forall>w < MAXVA. pte_of (pmem s') demo_pt w =
       (if in_area 0 (4096 * length [0x80040000 :: u64]) w then 0 else pte_of (pmem demo) demo_pt w)) \<and>
    (\<forall>x. PGROUNDDOWN x \<notin> set [0x80040000] \<union> tnodes (pmem demo) demo_pt \<longrightarrow> pmem s' x = pmem demo x)"
proof (rule demo_space)
  fix ys assume a: "uspace_ok demo ys demo_pt"
    "pte_of (pmem demo) demo_pt 0 = PA2PTE 0x80040000 OR (PTE_R OR PTE_W OR PTE_U) OR PTE_V"
    "0x80040000 \<notin> set ys" "0x80040000 \<notin> tnodes (pmem demo) demo_pt" "ram_page demo 0x80040000"
  have "owned demo ys demo_pt [0x80040000] 0"
    using a by (simp add: PTE_V_def PTE_U_def PTE_R_def PTE_W_def PA2PTE_def PTE2PA_def PTE_FLAGS_def)
  then show ?thesis
    using a(1) by (intro exI [of _ ys] uvmunmap_frees) (simp_all add: uspace_ok_def page_aligned_def MAXVA_unat)
qed

end
