(* ===== verification/Procspec.thy ===== *)
theory Procspec
  imports Proc Usermem
begin

text \<open>
  What the operations of \<open>Proc\<close> do: \<^verbatim>\<open>wakeup\<close>, \<^verbatim>\<open>kill\<close>, the locking discipline of \<^verbatim>\<open>sleep\<close> and
  \<^verbatim>\<open>sched\<close>, the priorities, and the two schedulers.
\<close>

section \<open>Locks and table updates\<close>

lemma lk_acquire_free [simp]: "l \<notin> set (held s) \<Longrightarrow> lk_acquire l s = Inr (s\<lparr>held := l # held s\<rparr>)"
  by (simp add: lk_acquire_def)

lemma lk_release_top [simp]: "held s = l # h \<Longrightarrow> lk_release l s = Inr (s\<lparr>held := h\<rparr>)"
  by (simp add: lk_release_def)

lemma upd_proc_sel [simp]:
  "held (upd_proc i f s) = held s" "cur (upd_proc i f s) = cur s" "nextpid (upd_proc i f s) = nextpid s"
  "initproc (upd_proc i f s) = initproc s" "sched_pointer (upd_proc i f s) = sched_pointer s"
  "pmem (upd_proc i f s) = pmem s" "freelist (upd_proc i f s) = freelist s" "nswitch (upd_proc i f s) = nswitch s"
  "ptable (upd_proc i f s) j = (if j = i then f (ptable s i) else ptable s j)"
  by (simp_all add: upd_proc_def)

lemma upd_proc_held [simp]: "(upd_proc i f s)\<lparr>held := h\<rparr> = upd_proc i f (s\<lparr>held := h\<rparr>)"
  by (simp add: upd_proc_def)

lemma upd_proc_id: "f (ptable s i) = ptable s i \<Longrightarrow> upd_proc i f s = s"
  by (simp add: upd_proc_def)

text \<open>\<open>map_procs is f s\<close>: entry \<open>i\<close> becomes \<open>f i\<close> of itself, for the entries listed.\<close>

definition map_procs :: "nat list \<Rightarrow> (nat \<Rightarrow> proc \<Rightarrow> proc) \<Rightarrow> 'z kproc_scheme \<Rightarrow> 'z kproc_scheme" where
  "map_procs is f s = s\<lparr>ptable := (\<lambda>i. if i \<in> set is then f i (ptable s i) else ptable s i)\<rparr>"

lemma map_procs_Nil [simp]: "map_procs [] f s = s"
  by (simp add: map_procs_def)

lemma map_procs_Cons: "i \<notin> set is \<Longrightarrow> map_procs (i # is) f s = map_procs is f (upd_proc i (f i) s)"
  by (auto simp: map_procs_def upd_proc_def fun_eq_iff intro: kproc.fold_congs)

lemma fold_upd_proc: "distinct is \<Longrightarrow> fold (\<lambda>i. upd_proc i (f i)) is s = map_procs is f s"
  by (induction "is" arbitrary: s) (simp_all add: map_procs_Cons)

lemma map_procs_sel [simp]:
  "held (map_procs is f s) = held s" "cur (map_procs is f s) = cur s"
  "ptable (map_procs is f s) i = (if i \<in> set is then f i (ptable s i) else ptable s i)"
  by (simp_all add: map_procs_def)

text \<open>No lock of a process in \<open>is\<close> is held.\<close>

definition procs_free :: "nat list \<Rightarrow> 'z kproc_scheme \<Rightarrow> bool" where
  "procs_free is s \<longleftrightarrow> (\<forall>i \<in> set is. L_proc i \<notin> set (held s))"

section \<open>\<^verbatim>\<open>wakeup\<close> and \<^verbatim>\<open>kill\<close>\<close>

definition woken :: "chan \<Rightarrow> proc \<Rightarrow> proc" where
  "woken ch p = (if p_state p = SLEEPING \<and> p_chan p = ch then p\<lparr>p_state := RUNNABLE\<rparr> else p)"

lemma wake_one_eq:
  "myproc s = Some i \<or> L_proc i \<notin> set (held s) \<Longrightarrow>
   wake_one ch i s = Inr (upd_proc i (if myproc s = Some i then id else woken ch) s)"
  by (cases "myproc s = Some i") (simp_all add: wake_one_def woken_def upd_proc_def)

lemma wakeup_eq:
  assumes "\<forall>i < NPROC. myproc s = Some i \<or> L_proc i \<notin> set (held s)"
  shows "wakeup ch s = Inr (map_procs [0..<NPROC] (\<lambda>i. if myproc s = Some i then id else woken ch) s)"
proof -
  have "foldE (wake_one ch) is s = Inr (map_procs is (\<lambda>i. if myproc s = Some i then id else woken ch) s)"
    if "distinct is" "\<forall>i \<in> set is. myproc s = Some i \<or> L_proc i \<notin> set (held s)" for "is"
    using that
  proof (induction "is" arbitrary: s)
    case (Cons i "is")
    let ?t = "upd_proc i (if myproc s = Some i then id else woken ch) s"
    have w: "wake_one ch i s = Inr ?t" using Cons(3) by (intro wake_one_eq) auto
    have "myproc ?t = myproc s" by (simp add: myproc_def)
    then show ?case using Cons w by (simp add: map_procs_Cons)
  qed simp
  then show ?thesis using assms by (simp add: wakeup_def)
qed

definition victim :: "proc \<Rightarrow> proc" where
  "victim p = p\<lparr>p_killed := 1, p_state := if p_state p = SLEEPING then RUNNABLE else p_state p\<rparr>"

lemma kill_loop_eq:
  assumes "procs_free is s"
  shows "kill_loop is pid s = Inr (case find (\<lambda>i. p_pid (ptable s i) = pid) is of
      None \<Rightarrow> (- 1, s) | Some i \<Rightarrow> (0, upd_proc i victim s))"
  using assms
proof (induction "is" arbitrary: s)
  case (Cons i "is")
  then have f: "L_proc i \<notin> set (held s)" by (simp add: procs_free_def)
  show ?case
  proof (cases "p_pid (ptable s i) = pid")
    case True
    then show ?thesis using f by (simp add: Let_def victim_def upd_proc_def)
  next
    case False
    then show ?thesis using f Cons by (simp add: procs_free_def)
  qed
qed simp

section \<open>\<^verbatim>\<open>sched\<close>, \<^verbatim>\<open>yield\<close> and \<^verbatim>\<open>sleep\<close>\<close>

lemma sched_eq:
  assumes "cur s = Some i" "held s = [L_proc i]" "p_state (ptable s i) \<noteq> RUNNING"
  shows "sched E s = Inr (E ((map_procs [0..<NPROC] (\<lambda>_. promote) s)\<lparr>nswitch := nswitch s + 1\<rparr>))"
proof -
  have "p_state (promote p) = p_state p" for p by (simp add: promote_def Let_def)
  then show ?thesis
    using assms fold_upd_proc [of "[0..<NPROC]" "\<lambda>_. promote" s]
    by (simp add: sched_def thisproc_def myproc_def lk_holding_def Let_def map_procs_def)
qed

text \<open>
  \<open>resumes E i\<close>: when process \<open>i\<close> was switched out holding its own lock, the rest of the system
  switches back to it, running and holding that lock and no other.
\<close>

definition resumes :: "('z kproc_scheme \<Rightarrow> 'z kproc_scheme) \<Rightarrow> nat \<Rightarrow> bool" where
  "resumes E i \<longleftrightarrow> (\<forall>s. cur s = Some i \<longrightarrow> held s = [L_proc i] \<longrightarrow>
     cur (E s) = Some i \<and> held (E s) = [L_proc i] \<and> p_state (ptable (E s) i) = RUNNING)"

text \<open>What the rest of the system sees when process \<open>i\<close> has gone to sleep on \<open>ch\<close>.\<close>

definition switched_out :: "nat \<Rightarrow> chan \<Rightarrow> 'z kproc_scheme \<Rightarrow> 'z kproc_scheme" where
  "switched_out i ch s =
     (map_procs [0..<NPROC] (\<lambda>_. promote) (upd_proc i (\<lambda>p. p\<lparr>p_chan := ch, p_state := SLEEPING\<rparr>) (s\<lparr>held := [L_proc i]\<rparr>)))
       \<lparr>nswitch := nswitch s + 1\<rparr>"

lemma switched_out_sel: "cur (switched_out i ch s) = cur s" "held (switched_out i ch s) = [L_proc i]"
  by (simp_all add: switched_out_def)

lemma sleep_eq:
  assumes "cur s = Some i" "held s = [lk]" "lk \<noteq> L_proc i" "held (E (switched_out i ch s)) = [L_proc i]"
  shows "sleep E ch lk s =
    Inr ((upd_proc i (\<lambda>p. p\<lparr>p_chan := C_null\<rparr>) (E (switched_out i ch s)))\<lparr>held := [lk]\<rparr>)"
proof -
  define s1 where "s1 = upd_proc i (\<lambda>p. p\<lparr>p_chan := ch, p_state := SLEEPING\<rparr>) (s\<lparr>held := [L_proc i]\<rparr>)"
  have s1: "cur s1 = Some i" "held s1 = [L_proc i]" "p_state (ptable s1 i) \<noteq> RUNNING" "nswitch s1 = nswitch s"
    using assms by (simp_all add: s1_def)
  have "lk_release lk (s\<lparr>held := [L_proc i, lk]\<rparr>) = Inr (s\<lparr>held := [L_proc i]\<rparr>)"
    using assms(3) by (simp add: lk_release_def)
  then have "sleep E ch lk s = bindE (sched E s1) (\<lambda>s3.
      bindE (lk_release (L_proc i) (upd_proc i (\<lambda>p. p\<lparr>p_chan := C_null\<rparr>) s3)) (\<lambda>s4. lk_acquire lk s4))"
    using assms by (simp add: sleep_def thisproc_def myproc_def s1_def)
  moreover have "sched E s1 = Inr (E (switched_out i ch s))"
    using sched_eq [OF s1(1-3)] s1(4) by (simp add: switched_out_def s1_def)
  ultimately show ?thesis using assms(4) by simp
qed

lemma sleep_ok:
  assumes E: "resumes E i" and "cur s = Some i" "held s = [lk]" "lk \<noteq> L_proc i"
  shows "\<exists>s'. sleep E ch lk s = Inr s' \<and> held s' = [lk] \<and> cur s' = Some i \<and>
    p_state (ptable s' i) = RUNNING \<and> p_chan (ptable s' i) = C_null"
proof -
  have "cur (switched_out i ch s) = Some i" using assms(2) by (simp add: switched_out_sel)
  note r = E [unfolded resumes_def, rule_format, OF this switched_out_sel(2)]
  then show ?thesis using sleep_eq [of s i lk E ch] assms(2-4) by simp
qed

text \<open>What the rest of the system sees when process \<open>i\<close> has yielded.\<close>

definition yielded :: "nat \<Rightarrow> yield_reason \<Rightarrow> 'z kproc_scheme \<Rightarrow> 'z kproc_scheme" where
  "yielded i reason s =
     (map_procs [0..<NPROC] (\<lambda>_. promote)
        (upd_proc i (\<lambda>p. (if reason = YIELD_TIMER then demote else id) (p\<lparr>p_state := RUNNABLE\<rparr>)) (s\<lparr>held := [L_proc i]\<rparr>)))
       \<lparr>nswitch := nswitch s + 1\<rparr>"

lemma yield_eq:
  assumes "cur s = Some i" "held s = []"
  shows "yield E reason s = lk_release (L_proc i) (E (yielded i reason s))"
proof -
  define s1 where "s1 = upd_proc i (\<lambda>p. (if reason = YIELD_TIMER then demote else id) (p\<lparr>p_state := RUNNABLE\<rparr>))
    (s\<lparr>held := [L_proc i]\<rparr>)"
  have s1: "cur s1 = Some i" "held s1 = [L_proc i]" "p_state (ptable s1 i) \<noteq> RUNNING" "nswitch s1 = nswitch s"
    using assms by (simp_all add: s1_def demote_def)
  have "yield E reason s = bindE (sched E s1) (lk_release (L_proc i))"
    using assms by (cases reason) (simp_all add: yield_def thisproc_def myproc_def s1_def Let_def upd_proc_def)
  then show ?thesis using sched_eq [OF s1(1-3)] s1(4) by (simp add: yielded_def s1_def)
qed

lemma yield_ok:
  assumes E: "resumes E i" and "cur s = Some i" "held s = []"
  shows "\<exists>s'. yield E reason s = Inr s' \<and> held s' = [] \<and> cur s' = Some i \<and> p_state (ptable s' i) = RUNNING"
proof -
  have "cur (yielded i reason s) = Some i" "held (yielded i reason s) = [L_proc i]"
    using assms by (simp_all add: yielded_def)
  note r = E [unfolded resumes_def, rule_format, OF this]
  then show ?thesis using yield_eq [OF assms(2,3)] by simp
qed

section \<open>Priorities\<close>

text \<open>The invariant of the two priority levels: a low priority process has a running timer.\<close>

definition prio_ok :: "proc \<Rightarrow> bool" where
  "prio_ok p \<longleftrightarrow> p_priority p = 0 \<or> p_priority p = 1 \<and> 1 \<le> sint (p_promotion_timer p) \<and> sint (p_promotion_timer p) \<le> 5"

lemma prio_ok_demote: "prio_ok p \<Longrightarrow> prio_ok (demote p) \<and> p_priority (demote p) = 1 \<and> p_promotion_timer (demote p) = 5"
  by (auto simp: prio_ok_def demote_def MAX_PRIO_def PROM_TIME_def)

lemma timer_cases:
  "1 \<le> sint (t :: i32) \<Longrightarrow> sint t \<le> 5 \<Longrightarrow> t = 1 \<or> t = 2 \<or> t = 3 \<or> t = 4 \<or> t = 5"
proof -
  assume a: "1 \<le> sint t" "sint t \<le> 5"
  then have "sint t = 1 \<or> sint t = 2 \<or> sint t = 3 \<or> sint t = 4 \<or> sint t = 5" by arith
  moreover have "t = word_of_int k" if "sint t = k" for k using that by auto
  ultimately show ?thesis by fastforce
qed

lemma prio_ok_promote: "prio_ok p \<Longrightarrow> prio_ok (promote p)"
  using timer_cases [of "p_promotion_timer p"]
  by (auto simp: prio_ok_def promote_def Let_def)

lemma promote_low:
  "p_priority q = 1 \<Longrightarrow> p_promotion_timer (promote q) = p_promotion_timer q - 1 \<and>
   p_priority (promote q) = (if p_promotion_timer q = 1 then 0 else 1)"
  by (auto simp: promote_def Let_def)

lemma promote_high: "p_priority p = 0 \<Longrightarrow> promote p = p"
  by (simp add: promote_def)

text \<open>
  \<open>runs_to_sched i f\<close>: \<open>f\<close> is what the scheduler and the process it picks do up to that process's call of
  \<^verbatim>\<open>sched\<close> (it holds its own lock and no other and has left the running state), without a change of the
  priority of process \<open>i\<close>.
\<close>

definition runs_to_sched :: "nat \<Rightarrow> ('z kproc_scheme \<Rightarrow> 'z kproc_scheme) \<Rightarrow> bool" where
  "runs_to_sched i f \<longleftrightarrow> (\<forall>s. (\<exists>j. cur (f s) = Some j \<and> held (f s) = [L_proc j] \<and> p_state (ptable (f s) j) \<noteq> RUNNING) \<and>
     p_priority (ptable (f s) i) = p_priority (ptable s i) \<and>
     p_promotion_timer (ptable (f s) i) = p_promotion_timer (ptable s i))"

definition sched_runs :: "('z kproc_scheme \<Rightarrow> 'z kproc_scheme) list \<Rightarrow> 'z kproc_scheme \<Rightarrow> 'z kproc_scheme res" where
  "sched_runs fs s = foldE (\<lambda>f s. sched id (f s)) fs s"

lemma sched_run_one:
  assumes "runs_to_sched i f" "i < NPROC"
  obtains t where "sched id (f s) = Inr t"
    "p_priority (ptable t i) = p_priority (promote (ptable s i))"
    "p_promotion_timer (ptable t i) = p_promotion_timer (promote (ptable s i))"
proof -
  obtain j where "cur (f s) = Some j" "held (f s) = [L_proc j]" "p_state (ptable (f s) j) \<noteq> RUNNING"
    using assms(1) unfolding runs_to_sched_def by metis
  moreover have "p_priority (ptable (f s) i) = p_priority (ptable s i)"
    "p_promotion_timer (ptable (f s) i) = p_promotion_timer (ptable s i)"
    using assms(1) by (simp_all add: runs_to_sched_def)
  ultimately show thesis using that sched_eq [of "f s" j id] assms(2) by (simp add: promote_def Let_def)
qed

lemma sched_runs_high:
  assumes "\<forall>f \<in> set fs. runs_to_sched i f" "i < NPROC" "p_priority (ptable s i) = 0"
  shows "\<exists>t. sched_runs fs s = Inr t \<and> p_priority (ptable t i) = 0"
  using assms(1,3)
proof (induction fs arbitrary: s)
  case (Cons f fs)
  obtain t where "sched id (f s) = Inr t" "p_priority (ptable t i) = p_priority (promote (ptable s i))"
    using sched_run_one [of i f s] Cons(2) assms(2) by auto
  then show ?case using Cons promote_high [of "ptable s i"] by (simp add: sched_runs_def)
qed (simp add: sched_runs_def)

lemma sched_runs_low:
  assumes "\<forall>f \<in> set fs. runs_to_sched i f" "i < NPROC" "p_priority (ptable s i) = 1"
    "p_promotion_timer (ptable s i) = of_nat k" "0 < k" "k \<le> 5"
  shows "\<exists>t. sched_runs fs s = Inr t \<and> prio_ok (ptable t i) \<and> p_priority (ptable t i) = (if length fs < k then 1 else 0)"
  using assms(1,3-6)
proof (induction fs arbitrary: s k)
  case Nil
  then have "k = 1 \<or> k = 2 \<or> k = 3 \<or> k = 4 \<or> k = 5" by arith
  then show ?case using Nil by (auto simp: sched_runs_def prio_ok_def)
next
  case (Cons f fs)
  obtain t where t: "sched id (f s) = Inr t" "p_priority (ptable t i) = p_priority (promote (ptable s i))"
    "p_promotion_timer (ptable t i) = p_promotion_timer (promote (ptable s i))"
    using sched_run_one [of i f s] Cons(2) assms(2) by auto
  have one: "(of_nat k :: i32) = 1 \<longleftrightarrow> k = 1" using Cons(5,6) by (auto simp: word_unat_eq_iff unat_of_nat)
  show ?case
  proof (cases "k = 1")
    case True
    then have "p_priority (ptable t i) = 0" using t(2) promote_low [OF Cons(3)] Cons(4) by simp
    then show ?thesis using sched_runs_high [of fs i t] Cons(2) assms(2) t(1) True
      by (auto simp: sched_runs_def prio_ok_def)
  next
    case False
    then have "p_priority (ptable t i) = 1" "p_promotion_timer (ptable t i) = of_nat (k - 1)"
      using t promote_low [OF Cons(3)] Cons(4,5) one by (simp_all add: of_nat_diff)
    moreover have "0 < k - 1" "k - 1 \<le> 5" "length fs < k - 1 \<longleftrightarrow> length (f # fs) < k" using Cons(5,6) False by auto
    ultimately show ?thesis using Cons.IH [of t "k - 1"] Cons(2) t(1) by (simp add: sched_runs_def)
  qed
qed

section \<open>The schedulers\<close>

text \<open>A kernel state with a ghost log of the processes run, and the assumption on a running process:
  it comes back to the scheduler with the locks as they were, and does not take another process
  off the ready state.\<close>

record klog = kproc +
  runlog :: "nat list"

definition runner_ok :: "(nat \<Rightarrow> klog \<Rightarrow> klog) \<Rightarrow> bool" where
  "runner_ok R \<longleftrightarrow> (\<forall>i s. held (R i s) = held s \<and> runlog (R i s) = runlog s @ [i] \<and>
     (\<forall>j. j \<noteq> i \<longrightarrow> p_state (ptable s j) = RUNNABLE \<longrightarrow> p_state (ptable (R i s) j) = RUNNABLE))"

lemma rr_step_ok:
  assumes R: "runner_ok R" and f: "L_proc i \<notin> set (held s)"
  obtains t where "rr_step R i s = Inr t" "held t = held s"
    "runlog t = runlog s @ (if p_state (ptable s i) = RUNNABLE then [i] else [])"
    "\<And>j. j \<noteq> i \<Longrightarrow> p_state (ptable s j) = RUNNABLE \<Longrightarrow> p_state (ptable t j) = RUNNABLE"
proof (cases "p_state (ptable s i) = RUNNABLE")
  case True
  let ?s1 = "s\<lparr>held := L_proc i # held s\<rparr>"
  let ?s2 = "(upd_proc i (\<lambda>p. p\<lparr>p_state := RUNNING\<rparr>) ?s1)\<lparr>cur := Some i\<rparr>"
  have r: "held (R i ?s2) = L_proc i # held s" "runlog (R i ?s2) = runlog s @ [i]"
    "\<And>j. j \<noteq> i \<Longrightarrow> p_state (ptable s j) = RUNNABLE \<Longrightarrow> p_state (ptable (R i ?s2) j) = RUNNABLE"
    using R by (auto simp: runner_ok_def upd_proc_def)
  have "rr_step R i s = Inr ((R i ?s2)\<lparr>cur := None, held := held s\<rparr>)"
    using True f r(1) by (simp add: rr_step_def run_proc_def)
  then show thesis using r True by (intro that [of "(R i ?s2)\<lparr>cur := None, held := held s\<rparr>"]) simp_all
next
  case False
  then show thesis using f by (intro that [of s]) (simp_all add: rr_step_def)
qed

lemma rr_fold_ok:
  assumes "runner_ok R" "procs_free is s" "sorted_wrt (<) is"
  shows "\<exists>t run. foldE (rr_step R) is s = Inr t \<and> held t = held s \<and> runlog t = runlog s @ run \<and>
    sorted_wrt (<) run \<and> set run \<subseteq> set is \<and> {i \<in> set is. p_state (ptable s i) = RUNNABLE} \<subseteq> set run"
  using assms
proof (induction "is" arbitrary: s)
  case Nil
  then show ?case by auto
next
  case (Cons i "is")
  have "L_proc i \<notin> set (held s)" using Cons(3) by (simp add: procs_free_def)
  from rr_step_ok [OF Cons(2) this] obtain t where t: "rr_step R i s = Inr t" "held t = held s"
    "runlog t = runlog s @ (if p_state (ptable s i) = RUNNABLE then [i] else [])"
    "\<And>j. j \<noteq> i \<Longrightarrow> p_state (ptable s j) = RUNNABLE \<Longrightarrow> p_state (ptable t j) = RUNNABLE" by metis
  have "procs_free is t" using Cons(3) t(2) by (simp add: procs_free_def)
  then obtain u run where u: "foldE (rr_step R) is t = Inr u" "held u = held t" "runlog u = runlog t @ run"
    "sorted_wrt (<) run" "set run \<subseteq> set is" "{j \<in> set is. p_state (ptable t j) = RUNNABLE} \<subseteq> set run"
    using Cons by force
  let ?run = "(if p_state (ptable s i) = RUNNABLE then [i] else []) @ run"
  have lt: "\<forall>j \<in> set is. i < j" using Cons(4) by simp
  then have "sorted_wrt (<) ?run" using u(4,5) by auto
  moreover have "j \<in> set run" if "j \<in> set is" "p_state (ptable s j) = RUNNABLE" for j
    using that t(4) [of j] lt u(6) by blast
  then have "{j \<in> set (i # is). p_state (ptable s j) = RUNNABLE} \<subseteq> set ?run" by auto
  ultimately show ?case
    using t(1-3) u(1-5) by (intro exI [of _ u] exI [of _ ?run]) auto
qed

lemma mlfq_high_pass:
  "L_proc i \<notin> set (held s) \<Longrightarrow> \<not> (p_priority (ptable s i) = 0 \<and> p_state (ptable s i) = RUNNABLE) \<Longrightarrow>
   mlfq_high R (i # is) h s = mlfq_high R is h s"
  by (cases "p_state (ptable s i) = RUNNABLE") (auto simp: word_gt_0)

lemma mlfq_high_none:
  assumes "procs_free is s" "mlfq_high R is h s = Inr (False, False, t)"
  shows "\<not> h \<and> t = s \<and> (\<forall>i \<in> set is. \<not> (p_priority (ptable s i) = 0 \<and> p_state (ptable s i) = RUNNABLE))"
  using assms
proof (induction "is" arbitrary: s h)
  case (Cons i "is")
  have f: "L_proc i \<notin> set (held s)" using Cons(2) by (simp add: procs_free_def)
  have fr: "procs_free is s" using Cons(2) by (simp add: procs_free_def)
  have once: "mlfq_high R js True u \<noteq> Inr (False, False, v)" for js u v
    by (induction R js True u rule: mlfq_high.induct) (auto simp: Let_def)
  show ?case
  proof (cases "p_priority (ptable s i) = 0 \<and> p_state (ptable s i) = RUNNABLE")
    case True
    then show ?thesis using Cons(3) f once by (auto simp: Let_def split: if_splits)
  next
    case False
    then have "mlfq_high R is h s = Inr (False, False, t)" using Cons(3) unfolding mlfq_high_pass [OF f False] by simp
    then show ?thesis using Cons.IH [OF fr] False by auto
  qed
qed auto

text \<open>
  A ghost log of the processes the scheduler runs: the process, its priority at that moment, and the high
  priority processes that were ready then.
\<close>

record kpick = kproc +
  picks :: "(nat \<times> u32 \<times> nat list) list"

definition high_ready :: "'z kproc_scheme \<Rightarrow> nat list" where
  "high_ready s = filter (\<lambda>k. p_priority (ptable s k) = 0 \<and> p_state (ptable s k) = RUNNABLE) [0..<NPROC]"

definition watch :: "(nat \<Rightarrow> kpick \<Rightarrow> kpick) \<Rightarrow> nat \<Rightarrow> kpick \<Rightarrow> kpick" where
  "watch R i s = R i (s\<lparr>picks := picks s @ [(i, p_priority (ptable s i), high_ready s)]\<rparr>)"

text \<open>The assumption on the processes: they come back with the locks as they were, and the log is a ghost.\<close>

definition returns :: "(nat \<Rightarrow> kpick \<Rightarrow> kpick) \<Rightarrow> bool" where
  "returns R \<longleftrightarrow> (\<forall>i s. held (R i s) = held s \<and> picks (R i s) = picks s)"

lemma high_ready_sel [simp]:
  "high_ready (s\<lparr>held := h\<rparr>) = high_ready s" "high_ready (s\<lparr>cur := c\<rparr>) = high_ready s"
  by (simp_all add: high_ready_def)

lemma high_ready_picks [simp]: "high_ready (s\<lparr>picks := q\<rparr>) = high_ready s"
  by (simp add: high_ready_def)

lemma run_watch:
  assumes "returns R" "held s = l # hl"
  shows "held (run_proc (watch R) i s) = l # hl" 
    "picks (run_proc (watch R) i s) = picks s @ [(i, p_priority (ptable s i), filter (\<lambda>k. k \<noteq> i) (high_ready s))]"
proof -
  have "high_ready (upd_proc i (\<lambda>p. p\<lparr>p_state := RUNNING\<rparr>) s) = filter (\<lambda>k. k \<noteq> i) (high_ready s)"
    by (auto simp: high_ready_def intro: filter_cong)
  then show "held (run_proc (watch R) i s) = l # hl"
    "picks (run_proc (watch R) i s) = picks s @ [(i, p_priority (ptable s i), filter (\<lambda>k. k \<noteq> i) (high_ready s))]"
    using assms by (simp_all add: run_proc_def watch_def returns_def) (simp_all add: upd_proc_def)
qed

lemma mlfq_high_picks:
  assumes "returns R" "procs_free is s"
  shows "\<exists>ret h' t hs. mlfq_high (watch R) is h s = Inr (ret, h', t) \<and> held t = held s \<and>
    picks t = picks s @ hs \<and> (\<forall>(i, prio, H) \<in> set hs. prio = 0)"
  using assms(2)
proof (induction "is" arbitrary: s h)
  case (Cons i "is")
  have f: "L_proc i \<notin> set (held s)" and fr: "procs_free is s" using Cons(2) by (simp_all add: procs_free_def)
  show ?case
  proof (cases "p_priority (ptable s i) = 0 \<and> p_state (ptable s i) = RUNNABLE")
    case False
    show ?thesis unfolding mlfq_high_pass [OF f False] by (rule Cons.IH [OF fr])
  next
    case True
    let ?u = "run_proc (watch R) i (s\<lparr>held := L_proc i # held s\<rparr>)"
    note w = run_watch [OF assms(1), of "s\<lparr>held := L_proc i # held s\<rparr>" "L_proc i" "held s" i]
    have "procs_free is (?u\<lparr>cur := None, held := held s\<rparr>)" using fr by (simp add: procs_free_def)
    from Cons.IH [OF this, of True] show ?thesis using True f w
      by (cases "sched_pointer ?u = mlfq_impl") (auto simp: Let_def)
  qed
qed auto

text \<open>One picked process of the low pass and the next one: the high priority processes ready at the second
  are not between the two.\<close>

definition low_next :: "nat \<times> u32 \<times> nat list \<Rightarrow> nat \<times> u32 \<times> nat list \<Rightarrow> bool" where
  "low_next x y \<longleftrightarrow> fst x < fst y \<and> (\<forall>k \<in> set (snd (snd y)). k \<le> fst x \<or> fst y < k)"

lemma mlfq_low_picks:
  assumes "returns R" "procs_free [m..<NPROC] s"
  shows "\<exists>t ls. mlfq_low (watch R) [m..<NPROC] s = Inr t \<and> picks t = picks s @ ls \<and>
    (\<forall>(i, prio, H) \<in> set ls. 0 < prio) \<and> successively low_next ls \<and>
    (ls \<noteq> [] \<longrightarrow> m \<le> fst (hd ls) \<and> snd (snd (hd ls)) = high_ready s \<and>
       (\<forall>k \<in> set (high_ready s). k < m \<or> fst (hd ls) < k))"
  using assms(2)
proof (induction "NPROC - m" arbitrary: m s)
  case 0
  then show ?case by simp
next
  case (Suc d)
  then have m: "[m..<NPROC] = m # [Suc m..<NPROC]" "d = NPROC - Suc m" by (simp_all add: upt_rec)
  have f: "L_proc m \<notin> set (held s)" and fr: "procs_free [Suc m..<NPROC] s"
    using Suc(3) by (simp_all add: procs_free_def m(1))
  note IH = Suc(1) [OF m(2)]
  consider (high) "p_priority (ptable s m) = 0" "p_state (ptable s m) = RUNNABLE"
    | (low) "p_priority (ptable s m) \<noteq> 0" "p_state (ptable s m) = RUNNABLE" | (not) "p_state (ptable s m) \<noteq> RUNNABLE" by blast
  then show ?case
  proof cases
    case high
    then show ?thesis using f by (simp add: m(1))
  next
    case not
    then have e: "mlfq_low (watch R) [m..<NPROC] s = mlfq_low (watch R) [Suc m..<NPROC] s" using f by (simp add: m(1))
    have "m \<notin> set (high_ready s)" using not by (simp add: high_ready_def)
    then show ?thesis using IH [OF fr] unfolding e by (metis Suc_leD less_Suc_eq)
  next
    case low
    let ?u = "run_proc (watch R) m (s\<lparr>held := L_proc m # held s\<rparr>)"
    let ?p = "(m, p_priority (ptable s m), high_ready s)"
    have nm: "filter (\<lambda>k. k \<noteq> m) (high_ready s) = high_ready s" using low by (auto simp: high_ready_def intro: filter_cong)
    have w: "held ?u = L_proc m # held s" "picks ?u = picks s @ [?p]"
      using run_watch [OF assms(1), of "s\<lparr>held := L_proc m # held s\<rparr>" "L_proc m" "held s" m] nm by simp_all
    have hm: "\<forall>k \<in> set (high_ready s). k < m \<or> m < k" using low by (auto simp: high_ready_def) (metis nat_neq_iff)
    show ?thesis
    proof (cases "sched_pointer ?u = mlfq_impl")
      case False
      then show ?thesis using low f w hm by (intro exI [of _ "?u\<lparr>held := held s\<rparr>"] exI [of _ "[?p]"]) (simp add: m(1) Let_def word_gt_0)
    next
      case True
      let ?v = "?u\<lparr>cur := None, held := held s\<rparr>"
      have "procs_free [Suc m..<NPROC] ?v" using fr by (simp add: procs_free_def)
      from IH [OF this] obtain t ls where t: "mlfq_low (watch R) [Suc m..<NPROC] ?v = Inr t" "picks t = picks ?v @ ls"
        "\<forall>(i, prio, H) \<in> set ls. 0 < prio" "successively low_next ls"
        "ls \<noteq> [] \<longrightarrow> Suc m \<le> fst (hd ls) \<and> snd (snd (hd ls)) = high_ready ?v \<and>
           (\<forall>k \<in> set (high_ready ?v). k < Suc m \<or> fst (hd ls) < k)" by blast
      have "mlfq_low (watch R) [m..<NPROC] s = Inr t" using low f w t(1) True by (simp add: m(1) Let_def)
      moreover have "successively low_next (?p # ls)"
        using t(4,5) by (cases ls) (auto simp: low_next_def less_Suc_eq_le)
      ultimately show ?thesis using t(2,3) w(2) low(1) hm by (intro exI [of _ t] exI [of _ "?p # ls"]) (simp add: word_gt_0)
    qed
  qed
qed

lemma mlfq_high_drains:
  assumes "returns R" "\<forall>i s. set (high_ready (R i s)) \<subseteq> set (high_ready s)" "procs_free is s"
    "mlfq_high (watch R) is h s = Inr (ret, h', t)"
  shows "ret \<or> set (high_ready t) \<subseteq> set (high_ready s) - set is"
  using assms(3,4)
proof (induction "is" arbitrary: s h)
  case (Cons i "is")
  have f: "L_proc i \<notin> set (held s)" and fr: "procs_free is s" using Cons(2) by (simp_all add: procs_free_def)
  show ?case
  proof (cases "p_priority (ptable s i) = 0 \<and> p_state (ptable s i) = RUNNABLE")
    case False
    have "mlfq_high (watch R) is h s = Inr (ret, h', t)" using Cons(3) unfolding mlfq_high_pass [OF f False] by simp
    moreover have "i \<notin> set (high_ready s)" using False by (auto simp: high_ready_def)
    ultimately show ?thesis using Cons.IH [OF fr] by auto
  next
    case True
    let ?s = "s\<lparr>held := L_proc i # held s\<rparr>"
    let ?u = "run_proc (watch R) i ?s"
    note w = run_watch [OF assms(1), of ?s "L_proc i" "held s" i]
    have "set (high_ready ?u) \<subseteq> set (high_ready ?s) - {i}"
      unfolding run_proc_def watch_def by (rule order_trans [OF assms(2) [rule_format]]) (auto simp: high_ready_def)
    moreover have "procs_free is (?u\<lparr>cur := None, held := held s\<rparr>)" using fr by (simp add: procs_free_def)
    note IH = Cons.IH [OF this, of True]
    ultimately show ?thesis using True f w Cons(3) IH
      by (cases "sched_pointer ?u = mlfq_impl") (auto simp: Let_def)
  qed
qed auto

text \<open>The order of the processes run in one call: high priority ones, then low priority ones, the first of these
  while no high priority process is ready.\<close>

definition high_then_low :: "(nat \<times> u32 \<times> nat list) list \<Rightarrow> bool" where
  "high_then_low xs \<longleftrightarrow> (\<exists>hs ls. xs = hs @ ls \<and> (\<forall>(i, prio, H) \<in> set hs. prio = 0) \<and>
     (\<forall>(i, prio, H) \<in> set ls. 0 < prio) \<and> (ls \<noteq> [] \<longrightarrow> snd (snd (hd ls)) = []) \<and> successively low_next ls)"

lemma high_then_lowI:
  "\<forall>(i, prio, H) \<in> set hs. prio = 0 \<Longrightarrow> \<forall>(i, prio, H) \<in> set ls. 0 < prio \<Longrightarrow>
   ls \<noteq> [] \<longrightarrow> snd (snd (hd ls)) = [] \<Longrightarrow> successively low_next ls \<Longrightarrow> high_then_low (hs @ ls)"
  unfolding high_then_low_def by (intro exI conjI) (rule refl)

lemma high_then_low_append:
  assumes "\<forall>(i, prio, H) \<in> set hs. prio = 0" "high_then_low xs"
  shows "high_then_low (hs @ xs)"
proof -
  obtain hs' ls where p: "xs = hs' @ ls" "\<forall>(i, prio, H) \<in> set hs'. prio = 0" "\<forall>(i, prio, H) \<in> set ls. 0 < prio"
    "ls \<noteq> [] \<longrightarrow> snd (snd (hd ls)) = []" "successively low_next ls" using assms(2) unfolding high_then_low_def by blast
  have "\<forall>(i, prio, H) \<in> set (hs @ hs'). prio = 0" using assms(1) p(2) by (simp add: ball_Un)
  from high_then_lowI [OF this p(3-5)] show ?thesis by (simp add: p(1))
qed

lemma mlfq_loop_picks:
  assumes "returns R" "procs_free [0..<NPROC] s"
  shows "case mlfq_loop n (watch R) s of Inl f \<Rightarrow> f = Blocked ''mlfq_scheduler''
    | Inr t \<Rightarrow> \<exists>xs. picks t = picks s @ xs \<and> high_then_low xs"
  using assms(2)
proof (induction n arbitrary: s)
  case (Suc n)
  obtain ret h' t hs where t: "mlfq_high (watch R) [0..<NPROC] False s = Inr (ret, h', t)" "held t = held s"
    "picks t = picks s @ hs" "\<forall>(i, prio, H) \<in> set hs. prio = 0"
    using mlfq_high_picks [OF assms(1) Suc(2), of False] by blast
  have fr: "procs_free [0..<NPROC] t" using Suc(2) t(2) by (simp add: procs_free_def)
  note hl = high_then_low_append [OF t(4)]
  have nil: "high_then_low []" using high_then_lowI [of "[]" "[]"] by simp
  consider (ret) ret | (again) "\<not> ret" h' | (low) "\<not> ret" "\<not> h'" by blast
  then show ?case
  proof cases
    case ret
    then show ?thesis using t(1,3) hl [OF nil] by simp
  next
    case again
    then have e: "mlfq_loop (Suc n) (watch R) s = mlfq_loop n (watch R) t" using t(1) by simp
    show ?thesis using Suc.IH [OF fr] t(3) hl unfolding e by (cases "mlfq_loop n (watch R) t") auto
  next
    case low
    then have e: "mlfq_loop (Suc n) (watch R) s = mlfq_low (watch R) [0..<NPROC] t" using t(1) by simp
    have "mlfq_high (watch R) [0..<NPROC] False s = Inr (False, False, t)" using t(1) low by simp
    from mlfq_high_none [OF Suc(2) this] have n: "high_ready t = []" by (auto simp: high_ready_def filter_empty_conv)
    obtain u ls where u: "mlfq_low (watch R) [0..<NPROC] t = Inr u" "picks u = picks t @ ls"
      "\<forall>(i, prio, H) \<in> set ls. 0 < prio" "successively low_next ls" "ls \<noteq> [] \<longrightarrow> snd (snd (hd ls)) = []"
      using mlfq_low_picks [OF assms(1) fr] n by auto
    show ?thesis unfolding e u(1) using u(2) t(3) high_then_lowI [OF t(4) u(3,5,4)] by simp
  qed
qed simp

lemma mlfq_high_idle:
  assumes "procs_free is s" "set (high_ready s) \<inter> set is = {}" "set is \<subseteq> {..<NPROC}"
  shows "mlfq_high R is h s = Inr (False, h, s)"
  using assms
proof (induction "is")
  case (Cons i "is")
  then have i: "L_proc i \<notin> set (held s)" "\<not> (p_priority (ptable s i) = 0 \<and> p_state (ptable s i) = RUNNABLE)"
    by (auto simp: procs_free_def high_ready_def)
  show ?case unfolding mlfq_high_pass [OF i] using Cons by (auto simp: procs_free_def)
qed simp

lemma mlfq_loop_ends:
  assumes "returns R" "\<forall>i s. set (high_ready (R i s)) \<subseteq> set (high_ready s)" "procs_free [0..<NPROC] s" "2 \<le> n"
  shows "\<exists>t. mlfq_loop n (watch R) s = Inr t"
proof -
  obtain k where n: "n = Suc (Suc k)" using assms(4) by (metis Suc_le_D Suc_le_mono numeral_2_eq_2)
  obtain ret h' t where t: "mlfq_high (watch R) [0..<NPROC] False s = Inr (ret, h', t)" "held t = held s"
    using mlfq_high_picks [OF assms(1,3), of False] by blast
  have fr: "procs_free [0..<NPROC] t" using assms(3) t(2) by (simp add: procs_free_def)
  have "set (high_ready s) - set [0..<NPROC] = {}" by (auto simp: high_ready_def)
  then have "ret \<or> set (high_ready t) \<subseteq> {}" using mlfq_high_drains [OF assms(1-3) t(1)] by (simp only:)
  then have "ret \<or> high_ready t = []" by simp
  moreover obtain u where u: "mlfq_low (watch R) [0..<NPROC] t = Inr u" using mlfq_low_picks [OF assms(1) fr] by blast
  have "mlfq_loop (Suc k) (watch R) t = Inr u" if "high_ready t = []"
  proof -
    have "mlfq_high (watch R) [0..<NPROC] False t = Inr (False, False, t)"
      by (rule mlfq_high_idle [OF fr]) (auto simp: that)
    then show ?thesis using u by simp
  qed
  ultimately show ?thesis using t(1) u unfolding n by (cases ret; cases h') (simp_all del: mlfq_loop.simps add: mlfq_loop.simps(2) [of "Suc k"])
qed

section \<open>Properties\<close>

text \<open>A concrete process table: process 0 (pid 1) running, 1 (pid 2) asleep, 2 (pid 3) runnable, the
  rest unused.\<close>

definition proc_at :: "nat \<Rightarrow> proc" where
  "proc_at i = \<lparr>p_state = (if i = 0 then RUNNING else if i = 1 then SLEEPING else if i = 2 then RUNNABLE else UNUSED),
     p_chan = (if i = 1 then C_ticks else C_null), p_killed = 0, p_xstate = 0,
     p_pid = (if i < 3 then of_nat (i + 1) else 0), p_priority = 0, p_promotion_timer = 0,
     p_parent = (if i = 1 \<or> i = 2 then Some 0 else None), p_kstack = KSTACK i, p_sz = 4096, p_pagetable = 0,
     p_trapframe = 0, p_context = \<lparr>c_ra = 0, c_sp = 0, c_s = []\<rparr>, p_ofile = (\<lambda>_. None), p_cwd = None,
     p_name = replicate 16 0\<rparr>"

definition klog0 :: klog where
  "klog0 = \<lparr>held = [], pmem = (\<lambda>_. 0), freelist = 0, k_end = 0x80021d60, k_etext = 0x80008000,
     k_trampoline = 0x80007000, kernel_pagetable = 0, satp = 0, u_out = [], u_in = [],
     tx_idle = [], panicked = False, pr_locking = True, ptable = proc_at, nextpid = 4,
     initproc = Some 0, cur = Some 0, sched_pointer = rr_impl, forkret_first = False, ticks = 0,
     nswitch = 0, k_forkret = 0x80001000, runlog = []\<rparr>"

text \<open>C32: \<^verbatim>\<open>wakeup\<close> is exact. Called without another process's lock it returns, makes exactly the
  processes sleeping on the channel (the caller apart) runnable, and changes nothing else.\<close>

theorem wakeup_exact:
  assumes "\<forall>i < NPROC. cur s = Some i \<or> L_proc i \<notin> set (held s)"
  shows "\<exists>s'. wakeup ch s = Inr s' \<and> s' = s\<lparr>ptable := ptable s'\<rparr> \<and>
    (\<forall>i. ptable s' i =
       (if i < NPROC \<and> cur s \<noteq> Some i \<and> p_state (ptable s i) = SLEEPING \<and> p_chan (ptable s i) = ch
        then (ptable s i)\<lparr>p_state := RUNNABLE\<rparr> else ptable s i))"
  using wakeup_eq [of s ch] assms
  by (auto simp: myproc_def map_procs_def woken_def)

theorem wakeup_exact_witness:
  "\<exists>s'. wakeup C_ticks klog0 = Inr s' \<and> s' = klog0\<lparr>ptable := ptable s'\<rparr> \<and>
    (\<forall>i. ptable s' i =
       (if i < NPROC \<and> cur klog0 \<noteq> Some i \<and> p_state (ptable klog0 i) = SLEEPING \<and> p_chan (ptable klog0 i) = C_ticks
        then (ptable klog0 i)\<lparr>p_state := RUNNABLE\<rparr> else ptable klog0 i))"
  by (rule wakeup_exact) (simp add: klog0_def)

text \<open>C33: \<^verbatim>\<open>kill\<close> hits the first table entry with the pid: it returns 0 and marks that process killed,
  making it runnable if it slept, or returns -1 and changes nothing if there is none.\<close>

theorem kill_exact:
  assumes "\<forall>i < NPROC. L_proc i \<notin> set (held s)"
  shows "(\<exists>i < NPROC. p_pid (ptable s i) = pid \<and> (\<forall>j < i. p_pid (ptable s j) \<noteq> pid) \<and>
           kill pid s = Inr (0, s\<lparr>ptable := (ptable s)(i := (ptable s i)\<lparr>p_killed := 1,
             p_state := if p_state (ptable s i) = SLEEPING then RUNNABLE else p_state (ptable s i)\<rparr>)\<rparr>)) \<or>
         (\<forall>i < NPROC. p_pid (ptable s i) \<noteq> pid) \<and> kill pid s = Inr (- 1, s)"
proof -
  have k: "kill pid s = Inr (case find (\<lambda>i. p_pid (ptable s i) = pid) [0..<NPROC] of
      None \<Rightarrow> (- 1, s) | Some i \<Rightarrow> (0, upd_proc i victim s))"
    unfolding kill_def using assms by (intro kill_loop_eq) (simp add: procs_free_def)
  show ?thesis
  proof (cases "find (\<lambda>i. p_pid (ptable s i) = pid) [0..<NPROC]")
    case None
    then have "kill pid s = Inr (- 1, s)" using k by simp
    moreover have "\<forall>i < NPROC. p_pid (ptable s i) \<noteq> pid" using None by (simp add: find_None_iff)
    ultimately show ?thesis by simp
  next
    case (Some i)
    then have "kill pid s = Inr (0, upd_proc i victim s)" using k by simp
    moreover have "i < NPROC" "p_pid (ptable s i) = pid" "\<forall>j < i. p_pid (ptable s j) \<noteq> pid"
      using Some by (auto simp: find_Some_iff)
    ultimately show ?thesis by (intro disjI1 exI [of _ i]) (simp add: upd_proc_def victim_def)
  qed
qed

theorem kill_exact_witness:
  "(\<exists>i < NPROC. p_pid (ptable klog0 i) = 2 \<and> (\<forall>j < i. p_pid (ptable klog0 j) \<noteq> 2) \<and>
      kill 2 klog0 = Inr (0, klog0\<lparr>ptable := (ptable klog0)(i := (ptable klog0 i)\<lparr>p_killed := 1,
        p_state := if p_state (ptable klog0 i) = SLEEPING then RUNNABLE else p_state (ptable klog0 i)\<rparr>)\<rparr>)) \<or>
    (\<forall>i < NPROC. p_pid (ptable klog0 i) \<noteq> 2) \<and> kill 2 klog0 = Inr (- 1, klog0)"
  by (rule kill_exact) (simp add: klog0_def)

text \<open>C31: \<^verbatim>\<open>sleep\<close> never panics and gives the lock back. Called by the running process with just the
  condition lock held, in a system that eventually switches back to a sleeper, it returns with
  that lock held again and nothing else, the process running and its channel cleared.\<close>

theorem sleep_reacquires:
  assumes "resumes E i" "cur s = Some i" "held s = [lk]" "lk \<noteq> L_proc i"
  shows "\<exists>s'. sleep E ch lk s = Inr s' \<and> held s' = [lk] \<and> cur s' = Some i \<and>
    p_state (ptable s' i) = RUNNING \<and> p_chan (ptable s' i) = C_null"
  using assms by (rule sleep_ok)

definition env_demo :: "klog \<Rightarrow> klog" where
  "env_demo s = (case cur s of None \<Rightarrow> s | Some i \<Rightarrow> upd_proc i (\<lambda>p. p\<lparr>p_state := RUNNING\<rparr>) s)"

theorem sleep_reacquires_witness:
  "\<exists>s'. sleep env_demo C_ticks L_tick (klog0\<lparr>held := [L_tick]\<rparr>) = Inr s' \<and> held s' = [L_tick] \<and>
    cur s' = Some 0 \<and> p_state (ptable s' 0) = RUNNING \<and> p_chan (ptable s' 0) = C_null"
  by (rule sleep_reacquires) (simp_all add: resumes_def env_demo_def klog0_def)

text \<open>C28: The round-robin scheduler starves nobody. In one call, every process that is runnable at the
  start runs, each process runs at most once, and they run in table order; here running
  processes may do anything except take others off the ready state or keep locks.\<close>

theorem rr_runs_every_runnable:
  assumes "runner_ok R" "\<forall>i < NPROC. L_proc i \<notin> set (held s)"
  shows "\<exists>t run. rr_scheduler R s = Inr t \<and> held t = held s \<and> runlog t = runlog s @ run \<and>
    sorted_wrt (<) run \<and> (\<forall>i < NPROC. p_state (ptable s i) = RUNNABLE \<longrightarrow> i \<in> set run) \<and>
    (\<forall>i \<in> set run. i < NPROC)"
proof -
  have "procs_free [0..<NPROC] (s\<lparr>cur := None\<rparr>)" using assms(2) by (simp add: procs_free_def)
  from rr_fold_ok [OF assms(1) this] obtain t run where
    "foldE (rr_step R) [0..<NPROC] (s\<lparr>cur := None\<rparr>) = Inr t" "held t = held s" "runlog t = runlog s @ run"
    "sorted_wrt (<) run" "set run \<subseteq> {0..<NPROC}"
    "{i \<in> {0..<NPROC}. p_state (ptable s i) = RUNNABLE} \<subseteq> set run"
    by auto
  then show ?thesis by (intro exI [of _ t] exI [of _ run]) (auto simp: rr_scheduler_def)
qed

definition runner_demo :: "nat \<Rightarrow> klog \<Rightarrow> klog" where
  "runner_demo i s = (upd_proc i (\<lambda>p. p\<lparr>p_state := SLEEPING\<rparr>) s)\<lparr>runlog := runlog s @ [i]\<rparr>"

lemma runner_demo_ok: "runner_ok runner_demo"
  by (simp add: runner_ok_def runner_demo_def upd_proc_def)

theorem rr_runs_every_runnable_witness:
  "\<exists>t run. rr_scheduler runner_demo klog0 = Inr t \<and> held t = held klog0 \<and> runlog t = runlog klog0 @ run \<and>
    sorted_wrt (<) run \<and> (\<forall>i < NPROC. p_state (ptable klog0 i) = RUNNABLE \<longrightarrow> i \<in> set run) \<and>
    (\<forall>i \<in> set run. i < NPROC)"
  by (rule rr_runs_every_runnable [OF runner_demo_ok]) (simp add: klog0_def)

text \<open>C29: Priorities of the MLFQ scheduler. In every call of \<^verbatim>\<open>mlfq_scheduler\<close> the processes run are first high
  priority ones and then low priority ones. The first low priority process is run only when no high
  priority process is ready at all; the next ones in table order, never past a high priority process that
  became ready between the last one and it. No call panics, and when the processes run make no high
  priority process ready (those that use up their slice are demoted), the scheduler returns after at most
  two passes of its loop.\<close>

theorem mlfq_low_only_without_high:
  assumes "returns R" "\<forall>i < NPROC. L_proc i \<notin> set (held s)"
  shows "case mlfq_scheduler n (watch R) s of
      Inl f \<Rightarrow> f = Blocked ''mlfq_scheduler'' \<and> (n < 2 \<or> \<not> (\<forall>i s. set (high_ready (R i s)) \<subseteq> set (high_ready s)))
    | Inr t \<Rightarrow> (\<exists>xs. picks t = picks s @ xs \<and> high_then_low xs)"
proof -
  have fr: "procs_free [0..<NPROC] (s\<lparr>cur := None\<rparr>)" using assms(2) by (simp add: procs_free_def)
  show ?thesis using mlfq_loop_picks [OF assms(1) fr, of n] mlfq_loop_ends [OF assms(1) _ fr, of n]
    by (cases "n < 2") (auto simp: mlfq_scheduler_def split: sum.splits)
qed

definition runner_quiet :: "nat \<Rightarrow> kpick \<Rightarrow> kpick" where
  "runner_quiet i s = upd_proc i (\<lambda>p. p\<lparr>p_state := SLEEPING\<rparr>) s"

text \<open>Process 0 has high, process 2 low priority; both are ready.\<close>

definition kpick0 :: kpick where
  "kpick0 = \<lparr>held = [], pmem = (\<lambda>_. 0), freelist = 0, k_end = 0x80021d60, k_etext = 0x80008000,
     k_trampoline = 0x80007000, kernel_pagetable = 0, satp = 0, u_out = [], u_in = [],
     tx_idle = [], panicked = False, pr_locking = True,
     ptable = (\<lambda>i. (proc_at i)\<lparr>p_state := if i = 0 then RUNNABLE else p_state (proc_at i), p_priority := if i = 2 then 1 else 0\<rparr>),
     nextpid = 4, initproc = Some 0, cur = None, sched_pointer = mlfq_impl, forkret_first = False, ticks = 0,
     nswitch = 0, k_forkret = 0x80001000, picks = []\<rparr>"

theorem mlfq_low_only_without_high_witness:
  "\<exists>t. mlfq_scheduler 2 (watch runner_quiet) kpick0 = Inr t \<and> high_then_low (picks t)"
proof -
  have "returns runner_quiet" "\<forall>i < NPROC. L_proc i \<notin> set (held kpick0)" "picks kpick0 = []"
    by (simp_all add: returns_def runner_quiet_def kpick0_def) (simp add: upd_proc_def)
  moreover have "\<forall>i s. set (high_ready (runner_quiet i s)) \<subseteq> set (high_ready s)"
    by (auto simp: runner_quiet_def high_ready_def split: if_splits)
  ultimately show ?thesis using mlfq_low_only_without_high [of runner_quiet kpick0 2]
    by (cases "mlfq_scheduler 2 (watch runner_quiet) kpick0") auto
qed

text \<open>C30: Demotion lasts \<open>PROM_TIME\<close> calls of \<^verbatim>\<open>sched\<close>. A process that used its full time slice is switched
  out by \<^verbatim>\<open>yield\<close> with priority 1. Whatever processes then run and call \<^verbatim>\<open>sched\<close> (which counts down in every
  table entry), it keeps priority 1 until \<open>PROM_TIME\<close> calls were made, its own included, and has priority 0
  from then on.\<close>

theorem demotion_expires:
  assumes "cur s = Some i" "i < NPROC" "held s = []" "prio_ok (ptable s i)" "\<forall>f \<in> set fs. runs_to_sched i f"
  shows "\<exists>u t. (\<forall>E. yield E YIELD_TIMER s = lk_release (L_proc i) (E u)) \<and> p_priority (ptable u i) = 1 \<and>
    sched_runs fs u = Inr t \<and> prio_ok (ptable t i) \<and>
    p_priority (ptable t i) = (if int (length fs) + 1 < sint PROM_TIME then 1 else 0)"
proof -
  define u where "u = yielded i YIELD_TIMER s"
  have "prio_ok ((ptable s i)\<lparr>p_state := RUNNABLE\<rparr>)" using assms(4) by (simp add: prio_ok_def)
  then have d: "p_priority (demote ((ptable s i)\<lparr>p_state := RUNNABLE\<rparr>)) = 1"
    "p_promotion_timer (demote ((ptable s i)\<lparr>p_state := RUNNABLE\<rparr>)) = 5" using prio_ok_demote by simp_all
  then have u: "p_priority (ptable u i) = 1" "p_promotion_timer (ptable u i) = of_nat 4"
    using assms(2) promote_low [OF d(1)] by (simp_all add: u_def yielded_def)
  obtain t where "sched_runs fs u = Inr t" "prio_ok (ptable t i)" "p_priority (ptable t i) = (if length fs < 4 then 1 else 0)"
    using sched_runs_low [OF assms(5,2) u] by auto
  moreover have "int (length fs) + 1 < sint PROM_TIME \<longleftrightarrow> length fs < 4" by (auto simp: PROM_TIME_def)
  ultimately show ?thesis using yield_eq [OF assms(1,3)] u(1) unfolding u_def by auto
qed

text \<open>Process 2 is picked and yields.\<close>

definition other_yields :: "klog \<Rightarrow> klog" where
  "other_yields s = (upd_proc 2 (\<lambda>p. p\<lparr>p_state := RUNNABLE\<rparr>) s)\<lparr>cur := Some 2, held := [L_proc 2]\<rparr>"

theorem demotion_expires_witness:
  "\<exists>u t. (\<forall>E. yield E YIELD_TIMER klog0 = lk_release (L_proc 0) (E u)) \<and> p_priority (ptable u 0) = 1 \<and>
    sched_runs (replicate 4 other_yields) u = Inr t \<and> prio_ok (ptable t 0) \<and>
    p_priority (ptable t 0) = (if int (length (replicate 4 other_yields)) + 1 < sint PROM_TIME then 1 else 0)"
  by (rule demotion_expires)
    (simp_all add: klog0_def proc_at_def NPROC_def prio_ok_def runs_to_sched_def other_yields_def)

end
