(* ===== verification/Sleepwake.thy ===== *)
theory Sleepwake
  imports Procspec
begin

text \<open>
  A process that sleeps and one that wakes it, interleaved. \<^verbatim>\<open>sleep\<close> and \<^verbatim>\<open>wakeup\<close> of \<open>Proc\<close> are cut at
  their lock operations into lists of atomic actions on the kernel state (\<open>sleep_run\<close> and \<open>wakeup_run\<close>: the
  lists run in one go are the two functions). The step relation runs the actions of
  \<^verbatim>\<open>acquire(lk); while(!cond) sleep(chan, lk); release(lk)\<close> on one CPU and of
  \<^verbatim>\<open>acquire(lk); cond = 1; wakeup(chan); release(lk)\<close> on another in any order the locks allow.
\<close>

section \<open>Actions\<close>

text \<open>The kernel state with the condition the sleeper waits for.\<close>

record kcnd = kproc +
  cnd :: bool

text \<open>
  \<open>Mark\<close> and \<open>Clear\<close> are the stores of \<^verbatim>\<open>sleep\<close>, \<open>Switch\<close> its call of \<^verbatim>\<open>sched\<close> up to the switch; \<open>WkAcq\<close>, \<open>WkSet\<close>
  and \<open>WkRel\<close> the body of the loop of \<^verbatim>\<open>wakeup\<close>; \<open>Test\<close> is the test of the condition and \<open>Pick\<close> that of the
  scheduler, which runs the process if it is runnable.
\<close>

datatype act = Acq lockid | Rel lockid | Mark nat chan | Switch | Clear nat | SetCnd
  | WkAcq nat | WkSet chan nat | WkRel nat | Test | Pick nat

fun exec :: "act \<Rightarrow> kcnd \<Rightarrow> kcnd res" where
  "exec (Acq l) s = lk_acquire l s"
| "exec (Rel l) s = lk_release l s"
| "exec (Mark i ch) s = Inr (upd_proc i (\<lambda>p. p\<lparr>p_chan := ch, p_state := SLEEPING\<rparr>) s)"
| "exec Switch s = sched id s"
| "exec (Clear i) s = Inr (upd_proc i (\<lambda>p. p\<lparr>p_chan := C_null\<rparr>) s)"
| "exec SetCnd s = Inr (s\<lparr>cnd := True\<rparr>)"
| "exec (WkAcq i) s = (if myproc s = Some i then Inr s else lk_acquire (L_proc i) s)"
| "exec (WkSet ch i) s =
     Inr (if myproc s \<noteq> Some i \<and> p_state (ptable s i) = SLEEPING \<and> p_chan (ptable s i) = ch
          then upd_proc i (\<lambda>p. p\<lparr>p_state := RUNNABLE\<rparr>) s else s)"
| "exec (WkRel i) s = (if myproc s = Some i then Inr s else lk_release (L_proc i) s)"
| "exec Test s = Inr s"
| "exec (Pick i) s = Inr (if p_state (ptable s i) = RUNNABLE then upd_proc i (\<lambda>p. p\<lparr>p_state := RUNNING\<rparr>) s else s)"

definition run :: "act list \<Rightarrow> kcnd \<Rightarrow> kcnd res" where
  "run as s = foldE exec as s"

definition sleep_enter :: "nat \<Rightarrow> chan \<Rightarrow> lockid \<Rightarrow> act list" where
  "sleep_enter i ch lk = [Acq (L_proc i), Rel lk, Mark i ch, Switch]"

definition sleep_leave :: "nat \<Rightarrow> lockid \<Rightarrow> act list" where
  "sleep_leave i lk = [Clear i, Rel (L_proc i), Acq lk]"

definition wakeup_from :: "chan \<Rightarrow> nat \<Rightarrow> act list" where
  "wakeup_from ch k = concat (map (\<lambda>i. [WkAcq i, WkSet ch i, WkRel i]) [k..<NPROC])"

section \<open>The actions make up \<^verbatim>\<open>sleep\<close> and \<^verbatim>\<open>wakeup\<close>\<close>

lemma run_fun: "run [] = Inr" "run (a # as) = (\<lambda>s. bindE (exec a s) (run as))" "bindE m Inr = m"
  by (simp_all add: fun_eq_iff run_def bindE_def split: sum.split)

lemma run_append: "run (as @ bs) s = bindE (run as s) (run bs)"
  by (induction as arbitrary: s) (simp_all add: run_fun bindE_assoc cong: bindE_cong)

lemma sched_id: "sched E s = bindE (sched id s) (\<lambda>t. Inr (E t))"
  by (simp add: sched_def Let_def bindE_assoc if_distrib [of "\<lambda>r. bindE r _"] cong: if_cong)

lemma sleep_run:
  "sleep E ch lk s = bindE (thisproc s) (\<lambda>i. bindE (run (sleep_enter i ch lk) s) (\<lambda>t. run (sleep_leave i lk) (E t)))"
  unfolding sleep_def sched_id [of E] by (simp add: run_fun sleep_enter_def sleep_leave_def bindE_assoc)

lemma wake_one_run: "run [WkAcq i, WkSet ch i, WkRel i] s = wake_one ch i s"
proof (cases "myproc s = Some i")
  case True
  then show ?thesis by (simp add: run_def wake_one_def)
next
  case False
  then have "myproc (s\<lparr>held := h\<rparr>) \<noteq> Some i" "myproc (upd_proc i f (s\<lparr>held := h\<rparr>)) \<noteq> Some i" for f h
    by (simp_all add: myproc_def)
  then show ?thesis using False by (simp add: run_def wake_one_def lk_acquire_def)
qed

lemma wakeup_run: "wakeup ch s = run (wakeup_from ch 0) s"
proof -
  have "foldE (wake_one ch) is s = run (concat (map (\<lambda>i. [WkAcq i, WkSet ch i, WkRel i]) is)) s" for "is" s
  proof (induction "is" arbitrary: s)
    case (Cons i "is")
    have "run (concat (map (\<lambda>i. [WkAcq i, WkSet ch i, WkRel i]) (i # is))) s =
      bindE (run [WkAcq i, WkSet ch i, WkRel i] s) (run (concat (map (\<lambda>i. [WkAcq i, WkSet ch i, WkRel i]) is)))"
      by (simp only: list.map concat.simps run_append)
    then show ?case using Cons by (simp add: wake_one_run cong: bindE_cong)
  qed (simp add: run_def)
  then show ?thesis by (simp add: wakeup_def wakeup_from_def)
qed

section \<open>Interleavings\<close>

record sw =
  mem :: kcnd
  s_held :: "lockid list"
  s_todo :: "act list"
  w_held :: "lockid list"
  w_todo :: "act list"

text \<open>Process \<open>p\<close> on a CPU that holds the locks \<open>h\<close>.\<close>

definition on_cpu :: "nat \<Rightarrow> lockid list \<Rightarrow> kcnd \<Rightarrow> kcnd" where
  "on_cpu p h m = m\<lparr>held := h, cur := Some p\<rparr>"

text \<open>
  The sleeper's way back into its loop: after the switch the scheduler releases \<^verbatim>\<open>p->lock\<close>; whenever it comes
  by it takes the lock and looks whether the process is runnable.
\<close>

definition sleep_back :: "nat \<Rightarrow> lockid \<Rightarrow> act list" where
  "sleep_back i lk = Acq (L_proc i) # Pick i # sleep_leave i lk @ [Test]"

fun follow :: "nat \<Rightarrow> chan \<Rightarrow> lockid \<Rightarrow> act \<Rightarrow> kcnd \<Rightarrow> act list \<Rightarrow> act list" where
  "follow i ch lk Test m as =
     (if cnd m then [Rel lk] else sleep_enter i ch lk @ Rel (L_proc i) # sleep_back i lk)"
| "follow i ch lk (Pick p) m as =
     (if p_state (ptable m p) = RUNNABLE then as else Rel (L_proc i) # sleep_back i lk)"
| "follow i ch lk _ m as = as"

text \<open>An action that would take a lock the other CPU holds is not possible: \<^verbatim>\<open>acquire\<close> spins.\<close>

inductive sw_step :: "nat \<Rightarrow> nat \<Rightarrow> chan \<Rightarrow> lockid \<Rightarrow> sw \<Rightarrow> sw \<Rightarrow> bool" for i j ch lk where
  s_step: "s_todo c = a # as \<Longrightarrow> exec a (on_cpu i (s_held c) (mem c)) = Inr m \<Longrightarrow> set (held m) \<inter> set (w_held c) = {} \<Longrightarrow>
    sw_step i j ch lk c (c\<lparr>mem := m, s_held := held m, s_todo := follow i ch lk a (mem c) as\<rparr>)"
| w_step: "w_todo c = a # as \<Longrightarrow> exec a (on_cpu j (w_held c) (mem c)) = Inr m \<Longrightarrow> set (held m) \<inter> set (s_held c) = {} \<Longrightarrow>
    sw_step i j ch lk c (c\<lparr>mem := m, w_held := held m, w_todo := as\<rparr>)"

definition sw_init :: "chan \<Rightarrow> lockid \<Rightarrow> kcnd \<Rightarrow> sw" where
  "sw_init ch lk m = \<lparr>mem = m, s_held = [], s_todo = [Acq lk, Test], w_held = [],
     w_todo = Acq lk # SetCnd # wakeup_from ch 0 @ [Rel lk]\<rparr>"

section \<open>The invariant\<close>

text \<open>
  Where the sleeper can be, what it holds and the state of its table entry \<open>p\<close>. \<open>u\<close>: the condition is still to
  be set; \<open>w\<close>: the waker's visit at the sleeper is still to come.
\<close>

inductive s_ok :: "nat \<Rightarrow> chan \<Rightarrow> lockid \<Rightarrow> act list \<Rightarrow> lockid list \<Rightarrow> proc \<Rightarrow> bool \<Rightarrow> bool \<Rightarrow> bool" for i ch lk where
  s_start: "p_state p = RUNNING \<Longrightarrow> s_ok i ch lk [Acq lk, Test] [] p u w"
| s_test: "p_state p = RUNNING \<Longrightarrow> s_ok i ch lk [Test] [lk] p u w"
| s_exit: "p_state p = RUNNING \<Longrightarrow> s_ok i ch lk [Rel lk] [lk] p u w"
| s_done: "p_state p = RUNNING \<Longrightarrow> s_ok i ch lk [] [] p u w"
| s_enter: "p_state p = RUNNING \<Longrightarrow> s_ok i ch lk (sleep_enter i ch lk @ Rel (L_proc i) # sleep_back i lk) [lk] p True w"
| s_both: "p_state p = RUNNING \<Longrightarrow> s_ok i ch lk (Rel lk # Mark i ch # Switch # Rel (L_proc i) # sleep_back i lk) [L_proc i, lk] p True w"
| s_mark: "p_state p = RUNNING \<Longrightarrow> s_ok i ch lk (Mark i ch # Switch # Rel (L_proc i) # sleep_back i lk) [L_proc i] p u True"
| s_switch: "p_state p = SLEEPING \<Longrightarrow> p_chan p = ch \<Longrightarrow> s_ok i ch lk (Switch # Rel (L_proc i) # sleep_back i lk) [L_proc i] p u True"
| s_out: "p_state p = SLEEPING \<Longrightarrow> p_chan p = ch \<Longrightarrow> s_ok i ch lk (Rel (L_proc i) # sleep_back i lk) [L_proc i] p u True"
| s_wait: "p_state p = RUNNABLE \<or> p_state p = SLEEPING \<and> p_chan p = ch \<and> w \<Longrightarrow> s_ok i ch lk (sleep_back i lk) [] p u w"
| s_pick: "p_state p = RUNNABLE \<or> p_state p = SLEEPING \<and> p_chan p = ch \<and> w \<Longrightarrow> s_ok i ch lk (tl (sleep_back i lk)) [L_proc i] p u w"
| s_back: "p_state p = RUNNING \<Longrightarrow> s_ok i ch lk (sleep_leave i lk @ [Test]) [L_proc i] p u w"
| s_rel: "p_state p = RUNNING \<Longrightarrow> s_ok i ch lk [Rel (L_proc i), Acq lk, Test] [L_proc i] p u w"

lemma s_ok_set: "s_ok i ch lk t h p u w \<Longrightarrow> lk \<notin> set h \<Longrightarrow> s_ok i ch lk t h p u' w"
  by (erule s_ok.cases) (auto intro: s_ok.intros)

lemma s_ok_woken: "s_ok i ch lk t h p u w \<Longrightarrow> L_proc i \<notin> set h \<Longrightarrow> s_ok i ch lk t h (woken ch p) u w'"
  by (erule s_ok.cases) (auto simp: woken_def intro: s_ok.intros)

text \<open>The waker is between the visits of two processes, or holds the lock of the one it visits.\<close>

inductive w_ok :: "nat \<Rightarrow> chan \<Rightarrow> lockid \<Rightarrow> act list \<Rightarrow> lockid list \<Rightarrow> bool" for j ch lk where
  w_start: "w_ok j ch lk (Acq lk # SetCnd # wakeup_from ch 0 @ [Rel lk]) []"
| w_set: "w_ok j ch lk (SetCnd # wakeup_from ch 0 @ [Rel lk]) [lk]"
| w_loop: "k \<le> NPROC \<Longrightarrow> w_ok j ch lk (wakeup_from ch k @ [Rel lk]) [lk]"
| w_look: "k < NPROC \<Longrightarrow> h = (if k = j then [lk] else [L_proc k, lk]) \<Longrightarrow>
    w_ok j ch lk (WkSet ch k # WkRel k # wakeup_from ch (Suc k) @ [Rel lk]) h"
| w_rel: "k < NPROC \<Longrightarrow> h = (if k = j then [lk] else [L_proc k, lk]) \<Longrightarrow>
    w_ok j ch lk (WkRel k # wakeup_from ch (Suc k) @ [Rel lk]) h"
| w_done: "w_ok j ch lk [] []"

lemma wakeup_from_rec: "wakeup_from ch k = (if k < NPROC then WkAcq k # WkSet ch k # WkRel k # wakeup_from ch (Suc k) else [])"
  by (simp add: wakeup_from_def upt_rec)

lemma wakeup_from_set [simp]:
  "SetCnd \<notin> set (wakeup_from ch k)" "WkSet ch i \<in> set (wakeup_from ch k) \<longleftrightarrow> k \<le> i \<and> i < NPROC"
  by (auto simp: wakeup_from_def)

definition sw_inv :: "nat \<Rightarrow> nat \<Rightarrow> chan \<Rightarrow> lockid \<Rightarrow> sw \<Rightarrow> bool" where
  "sw_inv i j ch lk c \<longleftrightarrow>
     s_ok i ch lk (s_todo c) (s_held c) (ptable (mem c) i) (SetCnd \<in> set (w_todo c)) (WkSet ch i \<in> set (w_todo c)) \<and>
     w_ok j ch lk (w_todo c) (w_held c) \<and> set (s_held c) \<inter> set (w_held c) = {} \<and>
     (SetCnd \<in> set (w_todo c) \<or> cnd (mem c))"

lemma on_cpu_sel [simp]:
  "held (on_cpu p h m) = h" "cur (on_cpu p h m) = Some p" "ptable (on_cpu p h m) = ptable m" "cnd (on_cpu p h m) = cnd m"
  "myproc (on_cpu p h m) = Some p"
  by (simp_all add: on_cpu_def myproc_def)

lemma lk_eq_Inr:
  "lk_acquire l s = Inr m \<longleftrightarrow> l \<notin> set (held s) \<and> m = s\<lparr>held := l # held s\<rparr>"
  "lk_release l s = Inr m \<longleftrightarrow> l \<in> set (held s) \<and> m = s\<lparr>held := remove1 l (held s)\<rparr>"
  by (auto simp: lk_acquire_def lk_release_def)

lemma exec_Switch:
  assumes "p_state (ptable m i) \<noteq> RUNNING" "exec Switch (on_cpu i [L_proc i] m) = Inr m'" "i < NPROC"
  shows "held m' = [L_proc i]" "ptable m' i = promote (ptable m i)" "cnd m' = cnd m"
proof -
  let ?s = "on_cpu i [L_proc i] m"
  have "m' = (map_procs [0..<NPROC] (\<lambda>_. promote) ?s)\<lparr>nswitch := nswitch ?s + 1\<rparr>"
    using assms(1,2) sched_eq [of ?s i id] by simp
  then show "held m' = [L_proc i]" "ptable m' i = promote (ptable m i)" "cnd m' = cnd m"
    using assms(3) by (simp_all add: map_procs_def)
qed

lemma promote_sel [simp]: "p_state (promote p) = p_state p" "p_chan (promote p) = p_chan p"
  by (simp_all add: promote_def Let_def)

lemma upd_proc_cnd [simp]: "cnd (upd_proc k f m) = cnd m"
  by (simp add: upd_proc_def)

lemmas s_lists = sleep_enter_def sleep_back_def sleep_leave_def

lemma s_step_ok:
  assumes "s_ok i ch lk (a # as) h (ptable m i) u w" "exec a (on_cpu i h m) = Inr m'"
    "lk \<noteq> L_proc i" "u \<or> cnd m" "u \<longrightarrow> w" "i < NPROC"
  shows "s_ok i ch lk (follow i ch lk a m as) (held m') (ptable m' i) u w \<and> cnd m' = cnd m"
  using assms(1)
proof (cases rule: s_ok.cases)
  case s_start
  then show ?thesis using assms(2) s_test by (auto simp: lk_eq_Inr)
next
  case s_test
  then show ?thesis using assms(2,4) s_exit s_enter by auto
next
  case s_exit
  then show ?thesis using assms(2) s_done by (auto simp: lk_eq_Inr)
next
  case s_enter
  then show ?thesis using assms(2) s_both by (auto simp: lk_eq_Inr s_lists)
next
  case s_both
  then show ?thesis using assms(2,3,5) s_mark by (auto simp: lk_eq_Inr)
next
  case s_mark
  then show ?thesis using assms(2) s_switch by (auto simp: upd_proc_def)
next
  case s_switch
  then have "p_state (ptable m i) \<noteq> RUNNING" by simp
  from exec_Switch [OF this _ assms(6)] show ?thesis using s_switch assms(2) s_out by auto
next
  case s_out
  then show ?thesis using assms(2) s_wait by (auto simp: lk_eq_Inr)
next
  case s_wait
  then show ?thesis using assms(2) s_pick [of "ptable m i" ch w i lk u] by (auto simp: lk_eq_Inr s_lists)
next
  case s_pick
  then show ?thesis using assms(2) s_out s_back by (auto simp: s_lists)
next
  case s_back
  then show ?thesis using assms(2) s_rel by (auto simp: s_lists)
next
  case s_rel
  then show ?thesis using assms(2) s_start by (auto simp: lk_eq_Inr)
qed

text \<open>The waker goes on, sets the condition, and its visit at \<open>i\<close> does to the entry what \<open>woken\<close> says.\<close>

lemma w_step_ok:
  assumes "w_ok j ch lk (a # as) h" "exec a (on_cpu j h m) = Inr m'" "\<forall>k. lk \<noteq> L_proc k" "i \<noteq> j"
  shows "w_ok j ch lk as (held m')" "cnd m' = (a = SetCnd \<or> cnd m)"
    "ptable m' i = (if a = WkSet ch i then woken ch (ptable m i) else ptable m i)"
proof -
  have "w_ok j ch lk as (held m') \<and> cnd m' = (a = SetCnd \<or> cnd m) \<and>
    ptable m' i = (if a = WkSet ch i then woken ch (ptable m i) else ptable m i)"
    using assms(1)
  proof (cases rule: w_ok.cases)
    case w_start
    then show ?thesis using assms(2) w_set by (auto simp: lk_eq_Inr)
  next
    case w_set
    then show ?thesis using assms(2) w_loop [of 0] by auto
  next
    case (w_loop k)
    show ?thesis
    proof (cases "k < NPROC")
      case True
      then have "a = WkAcq k" "as = WkSet ch k # WkRel k # wakeup_from ch (Suc k) @ [Rel lk]"
        using w_loop(1) by (simp_all add: wakeup_from_rec [of ch k])
      then show ?thesis using assms(2) w_loop(2) w_look [OF True refl, of j ch lk]
        by (auto simp: lk_eq_Inr split: if_splits)
    next
      case False
      then have "a = Rel lk" "as = []" using w_loop(1) by (simp_all add: wakeup_from_rec [of ch k])
      then show ?thesis using assms(2) w_loop(2) w_done by (auto simp: lk_eq_Inr)
    qed
  next
    case (w_look k)
    then show ?thesis using assms(2,4) by (auto simp: woken_def upd_proc_def intro: w_ok.w_rel split: if_splits)
  next
    case (w_rel k)
    then show ?thesis using assms(2,3) w_ok.w_loop [of "Suc k" j ch lk] by (auto simp: lk_eq_Inr split: if_splits)
  qed
  then show "w_ok j ch lk as (held m')" "cnd m' = (a = SetCnd \<or> cnd m)"
    "ptable m' i = (if a = WkSet ch i then woken ch (ptable m i) else ptable m i)" by simp_all
qed

text \<open>Who sets the condition holds its lock, who visits a process holds the process's lock; the condition is set
  once and before the visits.\<close>

lemma w_ok_facts:
  assumes "w_ok j ch lk (a # as) h" "i < NPROC" "i \<noteq> j"
  shows "a = SetCnd \<Longrightarrow> lk \<in> set h" "a = WkSet ch i \<Longrightarrow> L_proc i \<in> set h"
    "a \<noteq> SetCnd \<Longrightarrow> (SetCnd \<in> set (a # as)) = (SetCnd \<in> set as)"
    "a \<noteq> WkSet ch i \<Longrightarrow> (WkSet ch i \<in> set (a # as)) = (WkSet ch i \<in> set as)"
proof -
  have "(a = SetCnd \<longrightarrow> lk \<in> set h) \<and> (a = WkSet ch i \<longrightarrow> L_proc i \<in> set h)" using assms(1)
  proof (cases rule: w_ok.cases)
    case (w_loop k)
    then have "a = WkAcq k \<or> a = Rel lk" by (simp add: wakeup_from_rec [of ch k] split: if_splits)
    then show ?thesis by auto
  qed (use assms(3) in auto)
  then show "a = SetCnd \<Longrightarrow> lk \<in> set h" "a = WkSet ch i \<Longrightarrow> L_proc i \<in> set h" by simp_all
qed auto

lemma w_ok_order: "w_ok j ch lk t h \<Longrightarrow> SetCnd \<in> set t \<Longrightarrow> i < NPROC \<Longrightarrow> WkSet ch i \<in> set t"
  by (erule w_ok.cases) auto

lemma sw_inv_step:
  assumes "sw_step i j ch lk c d" "sw_inv i j ch lk c" "\<forall>k. lk \<noteq> L_proc k" "i < NPROC" "i \<noteq> j"
  shows "sw_inv i j ch lk d"
  using assms(1)
proof cases
  case (s_step a as m)
  note v = assms(2) [unfolded sw_inv_def s_step(2)]
  have "SetCnd \<in> set (w_todo c) \<longrightarrow> WkSet ch i \<in> set (w_todo c)" using w_ok_order v assms(4) by blast
  from s_step_ok [OF _ s_step(3) _ _ this assms(4), of ch lk as] have "s_ok i ch lk (follow i ch lk a (mem c) as) (held m)
      (ptable m i) (SetCnd \<in> set (w_todo c)) (WkSet ch i \<in> set (w_todo c)) \<and> cnd m = cnd (mem c)"
    using v assms(3) by blast
  then show ?thesis using v s_step(4) unfolding s_step(1) sw_inv_def by simp
next
  case (w_step a as m)
  note v = assms(2) [unfolded sw_inv_def w_step(2)]
  then have w: "w_ok j ch lk (a # as) (w_held c)" and s: "s_ok i ch lk (s_todo c) (s_held c) (ptable (mem c) i)
      (SetCnd \<in> set (a # as)) (WkSet ch i \<in> set (a # as))" and dj: "set (s_held c) \<inter> set (w_held c) = {}" by blast+
  note ok = w_step_ok [OF w w_step(3) assms(3,5)] and f = w_ok_facts [OF w assms(4,5)]
  have "s_ok i ch lk (s_todo c) (s_held c) (ptable m i) (SetCnd \<in> set as) (WkSet ch i \<in> set as)"
  proof (cases "a = SetCnd \<or> a = WkSet ch i")
    case True
    then show ?thesis
    proof
      assume a: "a = SetCnd"
      then have "lk \<notin> set (s_held c)" using f(1) dj by blast
      then show ?thesis using s_ok_set [OF s] f(4) a ok(3) by simp
    next
      assume a: "a = WkSet ch i"
      then have "L_proc i \<notin> set (s_held c)" using f(2) dj by blast
      then show ?thesis using s_ok_woken [OF s] f(3) a ok(3) by simp
    qed
  next
    case False
    then show ?thesis using s f(3,4) ok(3) by simp
  qed
  moreover have "SetCnd \<in> set as \<or> cnd m" using v ok(2) by auto
  ultimately show ?thesis using ok(1) w_step(4) unfolding w_step(1) sw_inv_def by (simp add: Int_commute)
qed

lemma sw_inv_reach:
  assumes "(sw_step i j ch lk)\<^sup>*\<^sup>* (sw_init ch lk m) c" "p_state (ptable m i) = RUNNING" "\<forall>k. lk \<noteq> L_proc k" "i < NPROC" "i \<noteq> j"
  shows "sw_inv i j ch lk c"
  using assms(1)
proof induction
  case base
  show ?case using assms(2) by (auto simp: sw_inv_def sw_init_def intro: s_start w_start)
next
  case (step c d)
  then show ?case using sw_inv_step assms(3-5) by blast
qed

section \<open>The sleeper gets on\<close>

definition finishes :: "nat \<Rightarrow> nat \<Rightarrow> chan \<Rightarrow> lockid \<Rightarrow> sw \<Rightarrow> bool" where
  "finishes i j ch lk c \<longleftrightarrow> (\<exists>d. (sw_step i j ch lk)\<^sup>*\<^sup>* c d \<and> s_todo d = [])"

lemma finishes_step:
  assumes "s_todo c = a # as" "w_held c = []" "exec a (on_cpu i (s_held c) (mem c)) = Inr m"
    "finishes i j ch lk (c\<lparr>mem := m, s_held := held m, s_todo := follow i ch lk a (mem c) as\<rparr>)"
  shows "finishes i j ch lk c"
proof -
  have "sw_step i j ch lk c (c\<lparr>mem := m, s_held := held m, s_todo := follow i ch lk a (mem c) as\<rparr>)"
    by (rule s_step [OF assms(1,3)]) (simp add: assms(2))
  then show ?thesis using assms(4) unfolding finishes_def by (blast intro: converse_rtranclp_into_rtranclp)
qed

lemma finishes_exit:
  assumes "w_held c = []" "s_todo c = [Rel lk]" "s_held c = [lk]"
  shows "finishes i j ch lk c"
  by (rule finishes_step [OF assms(2,1)]) (use assms in \<open>auto simp: finishes_def\<close>)

lemma finishes_test:
  assumes "w_held c = []" "cnd (mem c)" "s_todo c = [Test]" "s_held c = [lk]"
  shows "finishes i j ch lk c"
  by (rule finishes_step [OF assms(3,1)]) (use assms in \<open>auto intro!: finishes_exit\<close>)

lemma finishes_start:
  assumes "w_held c = []" "cnd (mem c)" "s_todo c = [Acq lk, Test]" "s_held c = []"
  shows "finishes i j ch lk c"
  by (rule finishes_step [OF assms(3,1)]) (use assms in \<open>auto intro!: finishes_test simp: on_cpu_def\<close>)

lemma finishes_rel:
  assumes "w_held c = []" "cnd (mem c)" "s_todo c = [Rel (L_proc i), Acq lk, Test]" "s_held c = [L_proc i]"
  shows "finishes i j ch lk c"
  by (rule finishes_step [OF assms(3,1)]) (use assms in \<open>auto intro!: finishes_start simp: on_cpu_def\<close>)

lemma finishes_back:
  assumes "w_held c = []" "cnd (mem c)" "s_todo c = sleep_leave i lk @ [Test]" "s_held c = [L_proc i]"
  shows "finishes i j ch lk c"
  by (rule finishes_step [OF assms(3) [unfolded sleep_leave_def append_Cons append_Nil] assms(1)])
    (use assms in \<open>auto intro!: finishes_rel\<close>)

lemma finishes_pick:
  assumes "w_held c = []" "cnd (mem c)" "p_state (ptable (mem c) i) = RUNNABLE"
    "s_todo c = tl (sleep_back i lk)" "s_held c = [L_proc i]"
  shows "finishes i j ch lk c"
  by (rule finishes_step [OF assms(4) [unfolded sleep_back_def list.sel] assms(1)])
    (use assms in \<open>auto intro!: finishes_back\<close>)

lemma finishes_wait:
  assumes "w_held c = []" "cnd (mem c)" "p_state (ptable (mem c) i) = RUNNABLE"
    "s_todo c = sleep_back i lk" "s_held c = []"
  shows "finishes i j ch lk c"
  by (rule finishes_step [OF assms(4) [unfolded sleep_back_def] assms(1)])
    (use assms in \<open>auto intro!: finishes_pick simp: on_cpu_def sleep_back_def\<close>)

lemmas finishes_phases = finishes_exit finishes_test finishes_start finishes_rel finishes_back finishes_pick finishes_wait

lemma sw_finish:
  assumes "sw_inv i j ch lk c" "w_todo c = []"
  shows "p_state (ptable (mem c) i) \<noteq> SLEEPING" "finishes i j ch lk c"
proof -
  have s: "s_ok i ch lk (s_todo c) (s_held c) (ptable (mem c) i) False False" and c: "cnd (mem c)" and w: "w_held c = []"
    using assms by (auto simp: sw_inv_def elim: w_ok.cases)
  show "p_state (ptable (mem c) i) \<noteq> SLEEPING" using s by (auto elim: s_ok.cases)
  show "finishes i j ch lk c" using s
  proof (cases rule: s_ok.cases)
    case s_done
    then show ?thesis by (auto simp: finishes_def)
  qed (simp_all add: finishes_phases w c)
qed

section \<open>Running one of the two alone\<close>

lemma exec_cur: "exec a s = Inr m \<Longrightarrow> cur m = cur s"
proof (cases a)
  case Switch
  assume "exec a s = Inr m"
  moreover have "cur (fold (\<lambda>i. upd_proc i promote) is s) = cur s" for "is" and s :: kcnd
    by (induction "is" arbitrary: s) simp_all
  ultimately show ?thesis using Switch by (auto simp: sched_def Let_def split: if_splits)
qed (auto simp: lk_eq_Inr split: if_splits)

lemma on_cpu_back: "exec a (on_cpu p h s) = Inr m \<Longrightarrow> on_cpu p (held m) m = m"
  using exec_cur [of a "on_cpu p h s" m] by (simp add: on_cpu_def)

lemma w_alone:
  assumes "w_todo c = as" "s_held c = []" "as \<noteq> []" "run as (on_cpu j (w_held c) (mem c)) = Inr m"
  shows "(sw_step i j ch lk)\<^sup>*\<^sup>* c (c\<lparr>mem := m, w_held := held m, w_todo := []\<rparr>)"
  using assms
proof (induction as arbitrary: c)
  case (Cons a as)
  obtain n where n: "exec a (on_cpu j (w_held c) (mem c)) = Inr n" "run as n = Inr m" using Cons(5) by (auto simp: run_fun)
  let ?d = "c\<lparr>mem := n, w_held := held n, w_todo := as\<rparr>"
  have s: "sw_step i j ch lk c ?d" by (rule w_step [OF Cons(2) n(1)]) (simp add: Cons(3))
  show ?case
  proof (cases "as = []")
    case True
    then show ?thesis using s n(2) by (auto simp: run_fun)
  next
    case False
    have "run as (on_cpu j (w_held ?d) (mem ?d)) = Inr m" using n by (simp add: on_cpu_back)
    with Cons.IH [of ?d] False Cons(3) have "(sw_step i j ch lk)\<^sup>*\<^sup>* ?d (c\<lparr>mem := m, w_held := held m, w_todo := []\<rparr>)" by simp
    then show ?thesis using s by (rule converse_rtranclp_into_rtranclp [rotated])
  qed
qed simp

lemma s_alone:
  assumes "s_todo c = as @ bs" "w_held c = []" "as \<noteq> []" "run as (on_cpu i (s_held c) (mem c)) = Inr m"
    "\<forall>a \<in> set as. a \<noteq> Test \<and> (\<forall>k. a \<noteq> Pick k)"
  shows "(sw_step i j ch lk)\<^sup>*\<^sup>* c (c\<lparr>mem := m, s_held := held m, s_todo := bs\<rparr>)"
  using assms
proof (induction as arbitrary: c)
  case (Cons a as)
  obtain n where n: "exec a (on_cpu i (s_held c) (mem c)) = Inr n" "run as n = Inr m" using Cons(5) by (auto simp: run_fun)
  let ?d = "c\<lparr>mem := n, s_held := held n, s_todo := as @ bs\<rparr>"
  have "follow i ch lk a (mem c) (as @ bs) = as @ bs" using Cons(6) by (cases a) auto
  then have s: "sw_step i j ch lk c ?d" using s_step [of c a "as @ bs" i n j ch lk] n(1) Cons(2,3) by simp
  show ?case
  proof (cases "as = []")
    case True
    then show ?thesis using s n(2) by (auto simp: run_fun)
  next
    case False
    have "run as (on_cpu i (s_held ?d) (mem ?d)) = Inr m" using n by (simp add: on_cpu_back)
    with Cons.IH [of ?d] False Cons(3,6) have "(sw_step i j ch lk)\<^sup>*\<^sup>* ?d (c\<lparr>mem := m, s_held := held m, s_todo := bs\<rparr>)" by simp
    then show ?thesis using s by (rule converse_rtranclp_into_rtranclp [rotated])
  qed
qed simp

lemma run_enter:
  assumes "lk \<noteq> L_proc i"
  shows "\<exists>m'. run (sleep_enter i ch lk @ [Rel (L_proc i)]) (on_cpu i [lk] m) = Inr m' \<and> held m' = []"
proof -
  let ?u = "upd_proc i (\<lambda>p. p\<lparr>p_chan := ch, p_state := SLEEPING\<rparr>) (on_cpu i [L_proc i] m)"
  have "sched id ?u = Inr ((map_procs [0..<NPROC] (\<lambda>_. promote) ?u)\<lparr>nswitch := nswitch ?u + 1\<rparr>)"
    using sched_eq [of ?u i id] by simp
  moreover have "run [Acq (L_proc i), Rel lk, Mark i ch] (on_cpu i [lk] m) = Inr ?u"
    using assms by (simp add: run_fun lk_release_def on_cpu_def upd_proc_def)
  moreover have "sleep_enter i ch lk @ [Rel (L_proc i)] = [Acq (L_proc i), Rel lk, Mark i ch] @ [Switch, Rel (L_proc i)]"
    by (simp add: sleep_enter_def)
  ultimately show ?thesis by (simp only: run_append) (simp add: run_fun)
qed

lemma run_waker:
  assumes "\<forall>k. lk \<noteq> L_proc k"
  shows "\<exists>m'. run (Acq lk # SetCnd # wakeup_from ch 0 @ [Rel lk]) (on_cpu j [] m) = Inr m'"
proof -
  let ?u = "(on_cpu j [lk] m)\<lparr>cnd := True\<rparr>"
  have "run (wakeup_from ch 0) ?u = Inr (map_procs [0..<NPROC] (\<lambda>i. if myproc ?u = Some i then id else woken ch) ?u)"
    unfolding wakeup_run [symmetric] by (rule wakeup_eq) (use assms in auto)
  moreover have "run [Acq lk, SetCnd] (on_cpu j [] m) = Inr ?u" by (simp add: run_fun on_cpu_def)
  moreover have "Acq lk # SetCnd # wakeup_from ch 0 @ [Rel lk] = [Acq lk, SetCnd] @ wakeup_from ch 0 @ [Rel lk]" by simp
  ultimately show ?thesis by (simp only: run_append) (simp add: run_fun run_append)
qed

text \<open>The sleeper goes to sleep, then the waker runs to its end.\<close>

lemma sleeps_then_woken:
  assumes "\<forall>k. lk \<noteq> L_proc k" "\<not> cnd m"
  obtains c where "(sw_step i j ch lk)\<^sup>*\<^sup>* (sw_init ch lk m) c" "w_todo c = []"
proof -
  let ?c0 = "sw_init ch lk m" and ?m1 = "on_cpu i [lk] m"
  let ?c1 = "?c0\<lparr>mem := ?m1, s_held := [lk], s_todo := [Test]\<rparr>"
  let ?c2 = "?c1\<lparr>s_todo := sleep_enter i ch lk @ Rel (L_proc i) # sleep_back i lk\<rparr>"
  have "(sw_step i j ch lk)\<^sup>*\<^sup>* ?c0 (?c0\<lparr>mem := ?m1, s_held := held ?m1, s_todo := [Test]\<rparr>)"
    by (rule s_alone [of _ "[Acq lk]"]) (simp_all add: sw_init_def run_fun on_cpu_def)
  then have 1: "(sw_step i j ch lk)\<^sup>*\<^sup>* ?c0 ?c1" by simp
  have "on_cpu i [lk] ?m1 = ?m1" by (simp add: on_cpu_def)
  then have 2: "sw_step i j ch lk ?c1 ?c2"
    using s_step [of ?c1 Test "[]" i ?m1 j ch lk] assms(2) by (simp add: sw_init_def)
  obtain m3 where m3: "run (sleep_enter i ch lk @ [Rel (L_proc i)]) (on_cpu i [lk] ?m1) = Inr m3" "held m3 = []"
    using run_enter assms(1) by blast
  let ?c3 = "?c2\<lparr>mem := m3, s_held := [], s_todo := sleep_back i lk\<rparr>"
  have 3: "(sw_step i j ch lk)\<^sup>*\<^sup>* ?c2 ?c3"
    using s_alone [of ?c2 "sleep_enter i ch lk @ [Rel (L_proc i)]" "sleep_back i lk" i m3] m3
    by (simp add: sw_init_def sleep_enter_def)
  obtain m4 where "run (Acq lk # SetCnd # wakeup_from ch 0 @ [Rel lk]) (on_cpu j [] m3) = Inr m4"
    using run_waker assms(1) by blast
  then have 4: "(sw_step i j ch lk)\<^sup>*\<^sup>* ?c3 (?c3\<lparr>mem := m4, w_held := held m4, w_todo := []\<rparr>)"
    by (intro w_alone [OF refl]) (simp_all add: sw_init_def)
  have "(sw_step i j ch lk)\<^sup>*\<^sup>* ?c0 (?c3\<lparr>mem := m4, w_held := held m4, w_todo := []\<rparr>)"
    using rtranclp_trans [OF 1 converse_rtranclp_into_rtranclp [OF 2 rtranclp_trans [OF 3 4]]] .
  then show thesis by (rule that) simp
qed

section \<open>Properties\<close>

text \<open>C22: No lost wakeup. The theorem cuts \<^verbatim>\<open>sleep\<close> and \<^verbatim>\<open>wakeup\<close> into atomic actions, lock operation by lock operation:
  from every state the lists run in one go are the two functions. However the actions of a process that
  waits for a condition with \<^verbatim>\<open>sleep\<close> and of one that sets it and calls \<^verbatim>\<open>wakeup\<close> interleave, once the second
  is done the first is not asleep, and it can run to the end of its loop.\<close>

theorem no_lost_wakeup:
  assumes "i < NPROC" "i \<noteq> j" "\<forall>k. lk \<noteq> L_proc k" "p_state (ptable m i) = RUNNING"
    "(sw_step i j ch lk)\<^sup>*\<^sup>* (sw_init ch lk m) c" "w_todo c = []"
  shows "(\<forall>E s. sleep E ch lk s =
      bindE (thisproc s) (\<lambda>p. bindE (run (sleep_enter p ch lk) s) (\<lambda>t. run (sleep_leave p lk) (E t)))) \<and>
    (\<forall>s. wakeup ch s = run (wakeup_from ch 0) s) \<and>
    p_state (ptable (mem c) i) \<noteq> SLEEPING \<and> (\<exists>d. (sw_step i j ch lk)\<^sup>*\<^sup>* c d \<and> s_todo d = [])"
  using sw_finish [OF sw_inv_reach [OF assms(5,4,3,1,2)] assms(6)] sleep_run wakeup_run
  unfolding finishes_def by blast

definition sw_mem :: kcnd where
  "sw_mem = \<lparr>held = [], pmem = (\<lambda>_. 0), freelist = 0, k_end = 0x80021d60, k_etext = 0x80008000,
     k_trampoline = 0x80007000, kernel_pagetable = 0, satp = 0, u_out = [], u_in = [],
     tx_idle = [], panicked = False, pr_locking = True, ptable = proc_at, nextpid = 4,
     initproc = Some 0, cur = Some 0, sched_pointer = rr_impl, forkret_first = False, ticks = 0,
     nswitch = 0, k_forkret = 0x80001000, cnd = False\<rparr>"

theorem no_lost_wakeup_witness:
  "\<exists>c. (sw_step 0 2 C_ticks L_tick)\<^sup>*\<^sup>* (sw_init C_ticks L_tick sw_mem) c \<and> w_todo c = [] \<and>
    p_state (ptable (mem c) 0) \<noteq> SLEEPING \<and> (\<exists>d. (sw_step 0 2 C_ticks L_tick)\<^sup>*\<^sup>* c d \<and> s_todo d = [])"
proof -
  obtain c where c: "(sw_step 0 2 C_ticks L_tick)\<^sup>*\<^sup>* (sw_init C_ticks L_tick sw_mem) c" "w_todo c = []"
    using sleeps_then_woken [of L_tick sw_mem 0 2 C_ticks] by (auto simp: sw_mem_def)
  have "0 < NPROC" "(0 :: nat) \<noteq> 2" "\<forall>k. L_tick \<noteq> L_proc k" "p_state (ptable sw_mem 0) = RUNNING"
    by (simp_all add: NPROC_def sw_mem_def proc_at_def)
  from no_lost_wakeup [OF this c] c show ?thesis by blast
qed

end
