(* ===== verification/Psspec.thy ===== *)
theory Psspec
  imports Procspec
begin

text \<open>
  What the \<^verbatim>\<open>ps\<close> system call leaves in the memory of its caller: one record for each process of the table up
  to the first unused entry, at the old end of the process.
\<close>

section \<open>Entries\<close>

text \<open>Record \<open>k\<close> of the byte array \<open>ub\<close> describes process \<open>i\<close> of the table \<open>T\<close>.\<close>

definition reported :: "u8 list \<Rightarrow> nat \<Rightarrow> (nat \<Rightarrow> proc) \<Rightarrow> nat \<Rightarrow> bool" where
  "reported ub k T i \<longleftrightarrow>
     get32 ub (36 * k) = state_num (p_state (T i)) \<and> get32 ub (36 * k + 4) = p_killed (T i) \<and>
     get32 ub (36 * k + 8) = p_xstate (T i) \<and> get32 ub (36 * k + 12) = p_pid (T i) \<and>
     (\<forall>q. p_parent (T i) = Some q \<longrightarrow> get32 ub (36 * k + 16) = p_pid (T q)) \<and>
     get_bytes (36 * k + 20) 16 ub = p_name (T i)"

text \<open>\<open>below n a b\<close>: the arrays have the same length and the same first \<open>n\<close> bytes.\<close>

definition below :: "nat \<Rightarrow> u8 list \<Rightarrow> u8 list \<Rightarrow> bool" where
  "below n a b \<longleftrightarrow> length b = length a \<and> (\<forall>x m. x + m \<le> n \<longrightarrow> get_bytes x m b = get_bytes x m a)"

lemma below_refl [simp]: "below n a a"
  by (simp add: below_def)

lemma below_trans: "below n a b \<Longrightarrow> below m b c \<Longrightarrow> n \<le> m \<Longrightarrow> below n a c"
  by (simp add: below_def)

lemma below_put: "n \<le> off \<Longrightarrow> off + length bs \<le> length a \<Longrightarrow> below n a (put_bytes off bs a)"
  by (simp add: below_def get_put_bytes_other)

lemma reported_below: "reported a k T i \<Longrightarrow> below (36 * Suc k) a b \<Longrightarrow> reported b k T i"
  by (simp add: reported_def below_def get32_def)

lemma ps_entry_reported:
  assumes "36 * Suc k \<le> length buf" "length (p_name (ptable s i)) = 16"
  shows "reported (ps_entry k i s buf) k (ptable s) i" "below (36 * k) buf (ps_entry k i s buf)"
proof -
  let ?n = "36 * k"
  note d = ps_entry_def Let_def copy_array_def USER_PROC_SIZE_def
  show "below ?n buf (ps_entry k i s buf)"
    using assms by (auto simp: d below_def get_put_bytes_other split: option.split)
  show "reported (ps_entry k i s buf) k (ptable s) i"
    using assms by (auto simp: d reported_def get32_def get_put_bytes_other split: option.split)
qed

section \<open>The loop\<close>

definition in_use :: "'z kproc_scheme \<Rightarrow> nat list \<Rightarrow> nat list" where
  "in_use s is = takeWhile (\<lambda>i. p_state (ptable s i) \<noteq> UNUSED) is"

lemma ps_loop_reports:
  assumes "procs_free is s" "\<forall>i \<in> set is. length (p_name (ptable s i)) = 16" "length buf = 36 * count" "lc \<le> count"
  shows "\<exists>buf'. ps_loop is lc count buf s = Inr (lc + length (take (count - lc) (in_use s is)), buf', s) \<and>
    below (36 * lc) buf buf' \<and>
    (\<forall>k < length (take (count - lc) (in_use s is)). reported buf' (lc + k) (ptable s) (in_use s is ! k))"
  using assms
proof (induction "is" arbitrary: lc buf)
  case Nil
  then show ?case by (simp add: in_use_def)
next
  case (Cons i "is")
  have f: "L_proc i \<notin> set (held s)" using Cons(2) by (simp add: procs_free_def)
  consider (full) "lc = count" | (unused) "lc < count" "p_state (ptable s i) = UNUSED" | (used) "lc < count" "p_state (ptable s i) \<noteq> UNUSED"
    using Cons(5) by linarith
  then show ?case
  proof cases
    case full
    then show ?thesis by simp
  next
    case unused
    then show ?thesis using f Cons(4) by (simp add: in_use_def below_put USER_PROC_SIZE_def)
  next
    case used
    let ?buf = "ps_entry lc i s buf"
    have len: "36 * Suc lc \<le> length buf" using used(1) Cons(4) by simp
    have nm: "length (p_name (ptable s i)) = 16" using Cons(3) by simp
    note e = ps_entry_reported [OF len nm]
    have lb: "length ?buf = 36 * count" using e(2) Cons(4) by (simp add: below_def)
    have m: "take (count - lc) (in_use s (i # is)) = i # take (count - Suc lc) (in_use s is)"
      using used by (simp add: in_use_def take_Cons' diff_Suc_eq_diff_pred [symmetric])
    have fr: "procs_free is s" using Cons(2) by (simp add: procs_free_def)
    obtain buf' where b: "ps_loop is (Suc lc) count ?buf s = Inr (Suc lc + length (take (count - Suc lc) (in_use s is)), buf', s)"
      "below (36 * Suc lc) ?buf buf'"
      "\<forall>k < length (take (count - Suc lc) (in_use s is)). reported buf' (Suc lc + k) (ptable s) (in_use s is ! k)"
      using Cons.IH [OF fr _ lb, of "Suc lc"] Cons(3) used(1) by auto
    have "ps_loop (i # is) lc count buf s = ps_loop is (Suc lc) count ?buf s"
    proof -
      have "ps_entry lc i (s\<lparr>held := L_proc i # held s\<rparr>) buf = ?buf" by (simp add: ps_entry_def Let_def split: option.split)
      then show ?thesis using used f by (simp add: Let_def)
    qed
    moreover have "below (36 * lc) buf buf'" using below_trans [OF e(2) b(2)] by simp
    moreover have "reported buf' (lc + k) (ptable s) (in_use s (i # is) ! k)" if "k < Suc (length (take (count - Suc lc) (in_use s is)))" for k
    proof (cases k)
      case 0
      then show ?thesis using reported_below [OF e(1) b(2)] used(2) by (simp add: in_use_def)
    next
      case (Suc k')
      then show ?thesis using b(3) that used(2) by (simp add: in_use_def)
    qed
    ultimately show ?thesis using b(1) by (simp add: m)
  qed
qed

section \<open>Growing and copying\<close>

lemma uvmalloc_loop_size: "uvmalloc_loop pt a old new x s = Inr (sz, s') \<Longrightarrow> sz = 0 \<or> sz = new"
proof (induction pt a old new x s arbitrary: sz s' rule: uvmalloc_loop.induct)
  case (1 pt a old new x s)
  from 1(2) show ?case
    by (subst (asm) uvmalloc_loop.simps) (auto split: if_splits prod.splits dest: 1(1))
qed

lemma growproc_size:
  assumes "cur s = Some me" "0 <s n" "growproc n s = Inr (0, s1)" "p_sz (ptable s me) \<le> p_sz (ptable s me) + scast n"
  shows "p_sz (ptable s1 me) = p_sz (ptable s me) + scast n"
  using assms
  by (auto simp: growproc_def thisproc_def myproc_def uvmalloc_def Let_def split: if_splits dest: uvmalloc_loop_size)

lemma copied_view:
  assumes "copied s pt xs va src (length src) s'" "\<forall>i < length src. user_va (pmem s) pt (va + of_nat i)" "length src < 2 ^ 64"
  shows "map (\<lambda>i. uview (pmem s') pt (va + of_nat i)) [0..<length src] = src"
proof (rule nth_equalityI)
  fix i assume "i < length (map (\<lambda>i. uview (pmem s') pt (va + of_nat i)) [0..<length src])"
  then have i: "i < length src" by simp
  then have "unat (of_nat i :: u64) = i" using assms(3) by (intro unat_of_nat64) simp
  then show "map (\<lambda>i. uview (pmem s') pt (va + of_nat i)) [0..<length src] ! i = src ! i"
    using assms(1,2) i by (simp add: copied_def in_area_def)
qed simp

lemma copyout_all:
  assumes "uspace_ok s xs pt" "length src < 2 ^ 64" "\<forall>i < length src. user_va (pmem s) pt (va + of_nat i)"
  obtains s' where "copyout pt va src s = Inr (0, s')" "copied s pt xs va src (length src) s'"
proof -
  obtain k s' where k: "copyout pt va src s = Inr (if k = length src then 0 else - 1, s')"
    "reach (pmem s) pt va (length src) k" "copied s pt xs va src k s'" using copyout_spec [OF assms(1,2)] by blast
  then have "k = length src" using assms(3) unfolding reach_def by (metis le_neq_implies_less)
  then show thesis using that k by simp
qed

lemma ps_bytes: "count \<noteq> 0 \<Longrightarrow> 0 < unat (count :: u8) * USER_PROC_SIZE"
  by (simp add: USER_PROC_SIZE_def unat_gt_0)

lemma ps_bytes_less: "unat (count :: u8) * USER_PROC_SIZE < 9200"
  using unsigned_less [of count, where 'a = nat] by (simp add: USER_PROC_SIZE_def)

lemma ps_grow:
  assumes "n < 9200" "0 < n"
  shows "0 <s (of_nat n :: i32)" "(scast (of_nat n :: i32) :: u64) = of_nat n"
proof -
  have u: "uint (of_nat n :: i32) = int n" using assms by (simp add: uint_nat unat_of_nat)
  have s: "sint (of_nat n :: i32) = int n" using assms by (simp add: sint_uint u signed_take_bit_int_eq_self)
  then show "0 <s (of_nat n :: i32)" using assms by (simp add: word_sless_alt)
  show "(scast (of_nat n :: i32) :: u64) = of_nat n" unfolding scast_eq s by simp
qed

lemma ps_grown:
  assumes "cur s = Some me" "(count :: u8) \<noteq> 0" "growproc (of_nat (unat count * USER_PROC_SIZE)) s = Inr (0, s1)"
    "p_sz (ptable s me) < MAXVA"
  shows "p_sz (ptable s1 me) = p_sz (ptable s me) + of_nat (unat count * USER_PROC_SIZE)"
proof -
  let ?n = "unat count * USER_PROC_SIZE" and ?va = "p_sz (ptable s me)"
  note g = ps_grow [OF ps_bytes_less ps_bytes [OF assms(2)]]
  have "unat ?va < 2 ^ 38" using assms(4) by (simp add: word_less_nat_alt MAXVA_def)
  moreover have "unat (of_nat ?n :: u64) = ?n" using ps_bytes_less [of count] by (intro unat_of_nat64) simp
  ultimately have "unat (?va + of_nat ?n) = unat ?va + ?n" using ps_bytes_less [of count] by (simp add: unat_word_ariths)
  then have "?va \<le> ?va + of_nat ?n" by (simp add: word_le_nat_alt)
  then show ?thesis using growproc_size [OF assms(1) g(1) assms(3)] g(2) by simp
qed

lemma ps_far:
  assumes "cur s = Some me" "count \<noteq> 0" "growproc (of_nat (unat count * USER_PROC_SIZE)) s = Inr (0, s1)" "start \<noteq> 0"
  shows "ps start count junk s = Inr (0, s1)"
proof -
  have "NPROC \<le> unat start * PROC_ARRAY_SIZE" using assms(4) by (simp add: NPROC_def PROC_ARRAY_SIZE_def unat_gt_0 Suc_leI)
  then show ?thesis using assms(1-3) by (simp add: ps_def thisproc_def myproc_def Let_def)
qed

text \<open>The array \<^verbatim>\<open>ps\<close> copies out: the loop and the store behind it.\<close>

lemma ps_array:
  assumes "procs_free [0..<NPROC] s" "\<forall>i < NPROC. length (p_name (ptable s i)) = 16" "length junk = 36 * count"
    "ids = take count (in_use s [0..<NPROC])"
  obtains buf ub where "ps_loop [0..<NPROC] 0 count junk s = Inr (length ids, buf, s)"
    "ub = (if length ids < count then put_bytes (36 * length ids) (le32 (state_num UNUSED)) buf else buf)"
    "length ub = 36 * count" "\<forall>k < length ids. reported ub k (ptable s) (ids ! k)"
    "length ids < count \<longrightarrow> get32 ub (36 * length ids) = state_num UNUSED"
proof -
  have nm: "\<forall>i \<in> set [0..<NPROC]. length (p_name (ptable s i)) = 16" using assms(2) by simp
  obtain buf where b: "ps_loop [0..<NPROC] 0 count junk s = Inr (length ids, buf, s)" "length buf = 36 * count"
    "\<forall>k < length ids. reported buf k (ptable s) (ids ! k)"
    using ps_loop_reports [OF assms(1) nm assms(3), of 0] assms(3,4) by (auto simp: below_def)
  define ub where "ub = (if length ids < count then put_bytes (36 * length ids) (le32 (state_num UNUSED)) buf else buf)"
  have room: "36 * length ids + 4 \<le> length buf" if "length ids < count" using that b(2) by simp
  show thesis
  proof (rule that [OF b(1) ub_def])
    show "length ub = 36 * count" using b(2) room by (simp add: ub_def)
    show "\<forall>k < length ids. reported ub k (ptable s) (ids ! k)"
      using b(3) room by (auto simp: ub_def intro!: reported_below [OF _ below_put])
    show "length ids < count \<longrightarrow> get32 ub (36 * length ids) = state_num UNUSED"
      using room by (simp add: ub_def get32_def)
  qed
qed

section \<open>Properties\<close>

text \<open>C35: \<^verbatim>\<open>ps\<close> reports the process table. It grows the caller by \<^verbatim>\<open>count\<close> records. With \<^verbatim>\<open>start\<close> 0 it returns the old end
  of the process and leaves there, for the first \<^verbatim>\<open>count\<close> table entries before the first unused one, records
  with state, flags, exit status, pid, parent and name, behind them (if there is room) a record marked
  unused, and changes no other memory of the process. With \<^verbatim>\<open>start\<close> above 0 the index is scaled by the size of
  the whole array, so that it is always beyond the table: \<^verbatim>\<open>ps\<close> returns 0 and reports nothing, although the
  process was grown.\<close>

theorem ps_reports:
  assumes "cur s = Some me" "count \<noteq> 0" "growproc (of_nat (unat count * USER_PROC_SIZE)) s = Inr (0, s1)"
    "\<forall>i < NPROC. L_proc i \<notin> set (held s1) \<and> length (p_name (ptable s1 i)) = 16"
    "length junk = unat count * USER_PROC_SIZE" "pt = p_pagetable (ptable s1 me)" "uspace_ok s1 xs pt" "va = p_sz (ptable s me)"
    "\<forall>i < unat count * USER_PROC_SIZE. user_va (pmem s1) pt (va + of_nat i)"
  shows "p_sz (ptable s1 me) = va + of_nat (unat count * USER_PROC_SIZE) \<and>
    (start \<noteq> 0 \<longrightarrow> ps start count junk s = Inr (0, s1)) \<and>
    (\<exists>s' ub ids. ps 0 count junk s = Inr (va, s') \<and> s' = s1\<lparr>pmem := pmem s'\<rparr> \<and>
      ub = map (\<lambda>i. uview (pmem s') pt (va + of_nat i)) [0..<unat count * USER_PROC_SIZE] \<and>
      ids = take (unat count) (takeWhile (\<lambda>i. p_state (ptable s1 i) \<noteq> UNUSED) [0..<NPROC]) \<and>
      (\<forall>k < length ids. reported ub k (ptable s1) (ids ! k)) \<and>
      (length ids < unat count \<longrightarrow> get32 ub (36 * length ids) = state_num UNUSED) \<and>
      (\<forall>w. user_va (pmem s1) pt w \<longrightarrow> \<not> in_area va (unat count * USER_PROC_SIZE) w \<longrightarrow>
        uview (pmem s') pt w = uview (pmem s1) pt w))"
proof -
  let ?n = "unat count * USER_PROC_SIZE"
  have "va + of_nat 0 < MAXVA" using assms(9) ps_bytes [OF assms(2)] unfolding user_va_def by blast
  then have sz: "p_sz (ptable s1 me) = va + of_nat ?n" using ps_grown [OF assms(1-3)] assms(8) by simp
  have pf: "procs_free [0..<NPROC] s1" "\<forall>i < NPROC. length (p_name (ptable s1 i)) = 16"
    using assms(4) by (simp_all add: procs_free_def)
  have lj: "length junk = 36 * unat count" using assms(5) by (simp add: USER_PROC_SIZE_def)
  define ids where "ids = take (unat count) (in_use s1 [0..<NPROC])"
  obtain buf ub where b: "ps_loop [0..<NPROC] 0 (unat count) junk s1 = Inr (length ids, buf, s1)"
    "ub = (if length ids < unat count then put_bytes (36 * length ids) (le32 (state_num UNUSED)) buf else buf)"
    "length ub = 36 * unat count" "\<forall>k < length ids. reported ub k (ptable s1) (ids ! k)"
    "length ids < unat count \<longrightarrow> get32 ub (36 * length ids) = state_num UNUSED"
    by (rule ps_array [OF pf lj ids_def])
  have ln: "length ub = ?n" using b(3) by (simp add: USER_PROC_SIZE_def)
  then have acc: "\<forall>i < length ub. user_va (pmem s1) pt (va + of_nat i)" using assms(9) by simp
  have lt: "length ub < 2 ^ 64" using ps_bytes_less [of count] ln by simp
  obtain s' where s': "copyout pt va ub s1 = Inr (0, s')" "copied s1 pt xs va ub (length ub) s'"
    using copyout_all [OF assms(7) lt acc] .
  have "take ?n ub = ub" using ln by simp
  then have "ps 0 count junk s = Inr (va, s')" using assms(1-3,6,8) b(1,2) s'(1)
    by (cases "length ids < unat count")
      (simp_all add: ps_def thisproc_def myproc_def Let_def NPROC_def USER_PROC_SIZE_def del: state_num.simps)
  moreover have "ub = map (\<lambda>i. uview (pmem s') pt (va + of_nat i)) [0..<?n]"
    using copied_view [OF s'(2) acc lt] ln by simp
  moreover have "s' = s1\<lparr>pmem := pmem s'\<rparr>" "\<forall>w. user_va (pmem s1) pt w \<longrightarrow> \<not> in_area va ?n w \<longrightarrow> uview (pmem s') pt w = uview (pmem s1) pt w"
    using s'(2) ln by (simp_all add: copied_def)
  ultimately show ?thesis using sz ps_far [OF assms(1-3)] b(4,5) ids_def unfolding in_use_def by blast
qed

text \<open>A process whose 100 bytes are mapped; processes 0 to 2 are in use.\<close>

definition kps :: kproc where
  "kps = \<lparr>held = [], pmem = pmem demo, freelist = freelist demo, k_end = k_end demo, k_etext = 0x80008000,
     k_trampoline = 0x80007000, kernel_pagetable = 0, satp = 0, u_out = [], u_in = [],
     tx_idle = [], panicked = False, pr_locking = True, ptable = (\<lambda>i. (proc_at i)\<lparr>p_pagetable := demo_pt, p_sz := 100\<rparr>),
     nextpid = 4, initproc = Some 0, cur = Some 0, sched_pointer = rr_impl, forkret_first = False, ticks = 0,
     nswitch = 0, k_forkret = 0x80001000\<rparr>"

lemma kps_grown: "growproc (of_nat (unat (4 :: u8) * USER_PROC_SIZE)) kps = Inr (0, upd_proc 0 (\<lambda>p. p\<lparr>p_sz := 244\<rparr>) kps)"
proof -
  have "uvmalloc demo_pt 100 (100 + 144) PTE_W kps = Inr (244, kps)"
    by (simp add: uvmalloc_def PGROUNDUP_def PGSIZE_def uvmalloc_loop.simps [of demo_pt 4096])
  then show ?thesis by (simp add: growproc_def thisproc_def myproc_def Let_def kps_def USER_PROC_SIZE_def word_sless_alt)
qed

theorem ps_reports_witness:
  "\<exists>s1. growproc (of_nat (unat (4 :: u8) * USER_PROC_SIZE)) kps = Inr (0, s1) \<and> p_sz (ptable s1 0) = 244 \<and>
    ps 1 4 (replicate 144 0) kps = Inr (0, s1) \<and>
    (\<exists>s' ub. ps 0 4 (replicate 144 0) kps = Inr (100, s') \<and>
      ub = map (\<lambda>i. uview (pmem s') demo_pt (100 + of_nat i)) [0..<144] \<and>
      (\<forall>k < 3. reported ub k (ptable s1) k) \<and> get32 ub 108 = state_num UNUSED)"
proof (rule demo_space)
  fix ys assume ok: "uspace_ok demo ys demo_pt" and u: "\<And>w. user_va (pmem demo) demo_pt w \<longleftrightarrow> w < 4096"
  let ?s1 = "upd_proc 0 (\<lambda>p. p\<lparr>p_sz := 244\<rparr>) kps"
  have "held demo = held kps \<or> L_kmem \<notin> set (held kps)" by (simp add: kps_def)
  then have ok1: "uspace_ok ?s1 ys demo_pt" using ok
    by (auto simp: uspace_ok_def vm_ok_def kmem_ok_def ram_page_def kps_def upd_proc_def)
  have acc: "\<forall>i < unat (4 :: u8) * USER_PROC_SIZE. user_va (pmem ?s1) demo_pt (100 + of_nat i)"
    using u by (auto simp: kps_def USER_PROC_SIZE_def word_less_nat_alt unat_word_ariths unat_of_nat)
  have lv: "takeWhile (\<lambda>i. p_state (ptable ?s1 i) \<noteq> UNUSED) [0..<NPROC] = [0, 1, 2]"
    by (simp add: kps_def proc_at_def NPROC_def upt_conv_Cons)
  have k: "cur kps = Some 0" "(4 :: u8) \<noteq> 0" "demo_pt = p_pagetable (ptable ?s1 0)" "100 = p_sz (ptable kps 0)"
    "length (replicate 144 (0 :: u8)) = unat (4 :: u8) * USER_PROC_SIZE" "p_sz (ptable ?s1 0) = 244"
    by (simp_all add: kps_def USER_PROC_SIZE_def)
  have nm: "\<forall>i < NPROC. L_proc i \<notin> set (held ?s1) \<and> length (p_name (ptable ?s1 i)) = 16"
    by (simp add: kps_def proc_at_def)
  note r = ps_reports [OF k(1,2) kps_grown nm k(5,3) ok1 k(4) acc, of 1, unfolded lv]
  then obtain s' ub ids where s': "ps 0 4 (replicate 144 0) kps = Inr (100, s')"
    "ub = map (\<lambda>i. uview (pmem s') demo_pt (100 + of_nat i)) [0..<unat (4 :: u8) * USER_PROC_SIZE]"
    "ids = take (unat (4 :: u8)) [0, 1, 2]" "\<forall>k < length ids. reported ub k (ptable ?s1) (ids ! k)"
    "length ids < unat (4 :: u8) \<longrightarrow> get32 ub (36 * length ids) = state_num UNUSED" by blast
  have ids: "ids = [0, 1, 2]" using s'(3) by simp
  have "reported ub k (ptable ?s1) k" if "k < 3" for k
  proof -
    have "k = 0 \<or> k = 1 \<or> k = 2" using that by arith
    then have "ids ! k = k" "k < length ids" using ids by auto
    then show ?thesis using s'(4) by metis
  qed
  moreover have "get32 ub 108 = state_num UNUSED" using s'(5) ids by simp
  moreover have "ps 1 4 (replicate 144 0) kps = Inr (0, ?s1)" using r by simp
  moreover have "ub = map (\<lambda>i. uview (pmem s') demo_pt (100 + of_nat i)) [0..<144]" using s'(2) by (simp only: USER_PROC_SIZE_def) simp
  ultimately show ?thesis using kps_grown k(6) s'(1) by blast
qed

end
