(* ===== verification/Ring.thy ===== *)
theory Ring
  imports Prelude
begin

text \<open>
  Ring buffers with free-running indices, as the pipe, the console input and the UART output
  have them: entry \<open>k\<close> of the stream is stored at index \<open>k mod N\<close>, reader and writer keep word
  counters that wrap around. \<open>ring_list\<close> is the abstract content. Locale \<open>bounded_fifo\<close> is the
  contract of a bounded first-in first-out queue; the three buffers interpret it.
\<close>

section \<open>The content of a ring\<close>

definition ring_list :: "nat \<Rightarrow> 'a list \<Rightarrow> 'b::len word \<Rightarrow> 'b word \<Rightarrow> 'a list" where
  "ring_list N buf r w = map (\<lambda>i. buf ! (unat (r + of_nat i) mod N)) [0..<unat (w - r)]"

definition ring_ok :: "nat \<Rightarrow> 'a list \<Rightarrow> 'b::len word \<Rightarrow> 'b word \<Rightarrow> bool" where
  "ring_ok N buf r w \<longleftrightarrow> length buf = N \<and> 0 < N \<and> N < 2 ^ LENGTH('b) \<and> N dvd 2 ^ LENGTH('b) \<and> unat (w - r) \<le> N"

lemma unat_add_mod:
  fixes r :: "'b::len word"
  assumes "N dvd 2 ^ LENGTH('b)"
  shows "unat (r + of_nat i) mod N = (unat r + i) mod N"
proof -
  have "unat (r + of_nat i) = (unat r + i) mod 2 ^ LENGTH('b)"
    by (simp add: unat_word_ariths unsigned_of_nat take_bit_eq_mod mod_simps)
  then show ?thesis using assms by (simp add: mod_mod_cancel)
qed

lemma unat_succ_diff:
  fixes r w :: "'b::len word"
  assumes "unat (w - r) < N" "N < 2 ^ LENGTH('b)"
  shows "unat (w + 1 - r) = Suc (unat (w - r))"
proof -
  have "unat ((w - r) + 1) = Suc (unat (w - r))"
    using assms unat_word_ariths(1) [of "w - r" 1] by (simp add: Suc_lessI)
  moreover have "w + 1 - r = (w - r) + 1" by (simp add: algebra_simps)
  ultimately show ?thesis by (simp only:)
qed

lemma ring_put:
  fixes r w :: "'b::len word"
  assumes ok: "ring_ok N buf r w" and "unat (w - r) < N"
  shows "ring_list N (buf[unat w mod N := x]) r (w + 1) = ring_list N buf r w @ [x]"
    and "ring_ok N (buf[unat w mod N := x]) r (w + 1)"
proof -
  let ?n = "unat (w - r)"
  have N: "N dvd 2 ^ LENGTH('b)" "length buf = N" "0 < N" "N < 2 ^ LENGTH('b)" using ok by (auto simp: ring_ok_def)
  have s: "unat (w + 1 - r) = Suc ?n" using assms(2) N(4) by (intro unat_succ_diff)
  have w: "unat w mod N = (unat r + ?n) mod N"
    using unat_add_mod [OF N(1), of r ?n] by simp
  have "(unat r + ?n) mod N \<noteq> (unat r + i) mod N" if "i < ?n" for i
  proof
    assume "(unat r + ?n) mod N = (unat r + i) mod N"
    then have "N dvd (unat r + ?n) - (unat r + i)" using that by (metis add_le_cancel_left less_imp_le mod_eq_dvd_iff_nat)
    then show False using that assms(2) by (auto dest: dvd_imp_le)
  qed
  then show "ring_list N (buf[unat w mod N := x]) r (w + 1) = ring_list N buf r w @ [x]"
    unfolding ring_list_def s using N by (auto simp: unat_add_mod [OF N(1)] w)
  show "ring_ok N (buf[unat w mod N := x]) r (w + 1)"
    using ok assms(2) s by (simp add: ring_ok_def)
qed

lemma ring_get:
  fixes r w :: "'b::len word"
  assumes ok: "ring_ok N buf r w" and "r \<noteq> w"
  shows "ring_list N buf r w = buf ! (unat r mod N) # ring_list N buf (r + 1) w"
    and "ring_ok N buf (r + 1) w" and "unat (w - (r + 1)) = unat (w - r) - 1"
proof -
  have nz: "w - r \<noteq> 0" using assms(2) by simp
  then have pos: "0 < unat (w - r)" by (simp add: unat_gt_0)
  have "w - (r + 1) = (w - r) - 1" by (simp add: algebra_simps)
  then show d: "unat (w - (r + 1)) = unat (w - r) - 1" using unat_minus_one [OF nz] by (simp only:)
  obtain k where k: "unat (w - r) = Suc k" using pos by (cases "unat (w - r)") auto
  have "[0..<Suc k] = 0 # map Suc [0..<k]" by (simp add: upt_conv_Cons map_Suc_upt del: upt_Suc)
  then show "ring_list N buf r w = buf ! (unat r mod N) # ring_list N buf (r + 1) w"
    unfolding ring_list_def d k by (simp add: comp_def add.assoc del: upt_Suc)
  show "ring_ok N buf (r + 1) w" using ok d by (auto simp: ring_ok_def)
qed

lemma ring_unput:
  fixes r w :: "'b::len word"
  assumes ok: "ring_ok N buf r w" and "r \<noteq> w"
  shows "ring_list N buf r w = ring_list N buf r (w - 1) @ [buf ! (unat (w - 1) mod N)]"
    and "ring_ok N buf r (w - 1)" and "unat (w - 1 - r) = unat (w - r) - 1"
proof -
  have nz: "w - r \<noteq> 0" using assms(2) by simp
  then have pos: "0 < unat (w - r)" by (simp add: unat_gt_0)
  have e: "w - 1 - r = (w - r) - 1" by (simp add: algebra_simps)
  then show d: "unat (w - 1 - r) = unat (w - r) - 1" using unat_minus_one [OF nz] by (simp only:)
  obtain k where k: "unat (w - r) = Suc k" using pos by (cases "unat (w - r)") auto
  have "r + of_nat (unat (w - 1 - r)) = w - 1" by simp
  then have "r + of_nat k = w - 1" unfolding d k by simp
  then show "ring_list N buf r w = ring_list N buf r (w - 1) @ [buf ! (unat (w - 1) mod N)]"
    unfolding ring_list_def d k by simp
  show "ring_ok N buf r (w - 1)" using ok d by (auto simp: ring_ok_def)
qed

lemma ring_empty: "ring_ok N buf r w \<Longrightarrow> ring_list N buf r w = [] \<longleftrightarrow> r = w"
  by (auto simp: ring_list_def unat_eq_0)

lemma ring_length: "length (ring_list N buf r w) = unat (w - r)"
  by (simp add: ring_list_def)

lemma ring_full:
  fixes r w :: "'b::len word"
  assumes "ring_ok N buf r w"
  shows "w = r + of_nat N \<longleftrightarrow> unat (w - r) = N"
proof
  have N: "unat (of_nat N :: 'b word) = N"
    using assms by (simp add: ring_ok_def unsigned_of_nat take_bit_nat_eq_self)
  { assume "w = r + of_nat N" then show "unat (w - r) = N" using N by simp }
  assume "unat (w - r) = N"
  then have "w - r = of_nat N" using N by (simp add: word_unat_eq_iff)
  then show "w = r + of_nat N" by (metis add_diff_cancel_left' add.commute diff_add_cancel)
qed

section \<open>The contract\<close>

locale bounded_fifo =
  fixes put :: "'a \<Rightarrow> 's \<Rightarrow> 's"
    and get :: "'s \<Rightarrow> 'a \<times> 's"
    and is_full is_empty :: "'s \<Rightarrow> bool"
    and content :: "'s \<Rightarrow> 'a list"
    and inv :: "'s \<Rightarrow> bool"
    and capacity :: nat
  assumes put_content: "inv s \<Longrightarrow> \<not> is_full s \<Longrightarrow> content (put x s) = content s @ [x] \<and> inv (put x s)"
    and get_content: "inv s \<Longrightarrow> \<not> is_empty s \<Longrightarrow> content s = fst (get s) # content (snd (get s)) \<and> inv (snd (get s))"
    and full_iff: "inv s \<Longrightarrow> is_full s \<longleftrightarrow> length (content s) = capacity"
    and empty_iff: "inv s \<Longrightarrow> is_empty s \<longleftrightarrow> content s = []"
    and content_bound: "inv s \<Longrightarrow> length (content s) \<le> capacity"
begin

text \<open>A run of attempts: \<open>Some x\<close> puts \<open>x\<close> unless the queue is full, \<open>None\<close> takes one unless it is
  empty. The result is the final state, what was accepted and what came out.\<close>

fun run :: "'a option list \<Rightarrow> 's \<Rightarrow> 's \<times> 'a list \<times> 'a list" where
  "run [] s = (s, [], [])"
| "run (Some x # ops) s =
     (if is_full s then run ops s
      else case run ops (put x s) of (s', ins, outs) \<Rightarrow> (s', x # ins, outs))"
| "run (None # ops) s =
     (if is_empty s then run ops s
      else case get s of (y, s1) \<Rightarrow> case run ops s1 of (s', ins, outs) \<Rightarrow> (s', ins, y # outs))"

lemma run_fifo:
  "inv s \<Longrightarrow> run ops s = (s', ins, outs) \<Longrightarrow> inv s' \<and> content s @ ins = outs @ content s'"
proof (induction ops s arbitrary: s' ins outs rule: run.induct)
  case (2 x ops s)
  then show ?case using put_content [of s x] by (auto split: if_splits prod.splits)
next
  case (3 ops s)
  then show ?case using get_content [of s] by (auto split: if_splits prod.splits)
qed auto

lemma get_put_empty: "inv s \<Longrightarrow> is_empty s \<Longrightarrow> 0 < capacity \<Longrightarrow> \<not> is_full s \<and> fst (get (put x s)) = x"
proof -
  assume a: "inv s" "is_empty s" "0 < capacity"
  then have e: "content s = []" "\<not> is_full s" using empty_iff full_iff by auto
  then have p: "content (put x s) = [x]" "inv (put x s)" using put_content [of s x] a by auto
  then have "\<not> is_empty (put x s)" using empty_iff by auto
  then show ?thesis using get_content [of "put x s"] p e by auto
qed

end

end
