(* ===== verification/Pipe.thy ===== *)
theory Pipe
  imports Procspec Ring
begin

text \<open>
  Pipes, \<^verbatim>\<open>kernel/pipe.c\<close> (\<^verbatim>\<open>pipealloc\<close>, which builds two files, is with the file table). A pipe is
  identified by the address of the page it was allocated in; \<open>pipes\<close> has the structs of the
  live pipes. The buffer is a \<open>bounded_fifo\<close>; \<^verbatim>\<open>pipewrite\<close> appends the user's bytes to its
  content and \<^verbatim>\<open>piperead\<close> delivers the front of it.
\<close>

section \<open>Definitions\<close>

definition PIPESIZE :: nat where "PIPESIZE = 512"

record pipe =
  pi_data :: "u8 list"
  nread :: u32
  nwrite :: u32
  readopen :: bool
  writeopen :: bool

record kpipe = kproc +
  pipes :: "u64 \<Rightarrow> pipe option"

definition pipe_put :: "u8 \<Rightarrow> pipe \<Rightarrow> pipe" where
  "pipe_put ch p = p\<lparr>pi_data := (pi_data p)[unat (nwrite p) mod PIPESIZE := ch], nwrite := nwrite p + 1\<rparr>"

definition pipe_get :: "pipe \<Rightarrow> u8 \<times> pipe" where
  "pipe_get p = (pi_data p ! (unat (nread p) mod PIPESIZE), p\<lparr>nread := nread p + 1\<rparr>)"

definition pipe_full :: "pipe \<Rightarrow> bool" where
  "pipe_full p \<longleftrightarrow> nwrite p = nread p + of_nat PIPESIZE"

definition pipe_empty :: "pipe \<Rightarrow> bool" where
  "pipe_empty p \<longleftrightarrow> nread p = nwrite p"

definition the_pipe :: "u64 \<Rightarrow> 'z kpipe_scheme \<Rightarrow> pipe res" where
  "the_pipe pi s = (case pipes s pi of None \<Rightarrow> Inl (Undef ''dangling pipe'') | Some p \<Rightarrow> Inr p)"

definition set_pipe :: "u64 \<Rightarrow> pipe \<Rightarrow> 'z kpipe_scheme \<Rightarrow> 'z kpipe_scheme" where
  "set_pipe pi p s = s\<lparr>pipes := (pipes s)(pi := Some p)\<rparr>"

definition pipeclose :: "u64 \<Rightarrow> bool \<Rightarrow> 'z kpipe_scheme \<Rightarrow> 'z kpipe_scheme res" where
  "pipeclose pi writable s =
     bindE (lk_acquire (L_pipe pi) s) (\<lambda>s1.
     bindE (the_pipe pi s1) (\<lambda>p.
     bindE (if writable then wakeup (C_nread pi) (set_pipe pi (p\<lparr>writeopen := False\<rparr>) s1)
            else wakeup (C_nwrite pi) (set_pipe pi (p\<lparr>readopen := False\<rparr>) s1)) (\<lambda>s2.
     bindE (the_pipe pi s2) (\<lambda>q.
     bindE (lk_release (L_pipe pi) s2) (\<lambda>s3.
       if \<not> readopen q \<and> \<not> writeopen q
       then bindE (kfree pi s3) (\<lambda>s4. Inr (s4\<lparr>pipes := (pipes s4)(pi := None)\<rparr>))
       else Inr s3)))))"

text \<open>The end of \<^verbatim>\<open>pipewrite\<close>: wake readers, release, return the count.\<close>

definition pipewrite_end :: "u64 \<Rightarrow> int \<Rightarrow> 'z kpipe_scheme \<Rightarrow> (int \<times> 'z kpipe_scheme) res" where
  "pipewrite_end pi i s =
     bindE (wakeup (C_nread pi) s) (\<lambda>s1. bindE (lk_release (L_pipe pi) s1) (\<lambda>s2. Inr (i, s2)))"

fun pipewrite_loop ::
  "nat \<Rightarrow> ('z kpipe_scheme \<Rightarrow> 'z kpipe_scheme) \<Rightarrow> nat \<Rightarrow> u64 \<Rightarrow> u64 \<Rightarrow> int \<Rightarrow> int \<Rightarrow> 'z kpipe_scheme
     \<Rightarrow> (int \<times> 'z kpipe_scheme) res" where
  "pipewrite_loop 0 E pr pi addr n i s = Inl (Blocked ''pipewrite'')"
| "pipewrite_loop (Suc fuel) E pr pi addr n i s =
     (if i < n
      then bindE (the_pipe pi s) (\<lambda>p0.
           bindE (if \<not> readopen p0 then Inr (1, s) else killed pr s) (\<lambda>(k, s1).
             if k \<noteq> 0 then bindE (lk_release (L_pipe pi) s1) (\<lambda>s2. Inr (- 1, s2))
             else bindE (the_pipe pi s1) (\<lambda>p.
               if pipe_full p
               then bindE (wakeup (C_nread pi) s1) (\<lambda>s2.
                    bindE (sleep E (C_nwrite pi) (L_pipe pi) s2) (\<lambda>s3.
                      pipewrite_loop fuel E pr pi addr n i s3))
               else bindE (copyin (p_pagetable (ptable s1 pr)) (addr + word_of_int i) 1 s1) (\<lambda>(r, bs).
                 if r = - 1 then pipewrite_end pi i s1
                 else pipewrite_loop fuel E pr pi addr n (i + 1) (set_pipe pi (pipe_put (hd bs) p) s1)))))
      else pipewrite_end pi i s)"

definition pipewrite ::
  "nat \<Rightarrow> ('z kpipe_scheme \<Rightarrow> 'z kpipe_scheme) \<Rightarrow> u64 \<Rightarrow> u64 \<Rightarrow> i32 \<Rightarrow> 'z kpipe_scheme \<Rightarrow> (int \<times> 'z kpipe_scheme) res" where
  "pipewrite fuel E pi addr n s =
     bindE (thisproc s) (\<lambda>pr.
     bindE (lk_acquire (L_pipe pi) s) (\<lambda>s1. pipewrite_loop fuel E pr pi addr (sint n) 0 s1))"

text \<open>The wait of \<^verbatim>\<open>piperead\<close>: \<open>Inl\<close> inside the result if the function returns -1.\<close>

fun piperead_wait ::
  "nat \<Rightarrow> ('z kpipe_scheme \<Rightarrow> 'z kpipe_scheme) \<Rightarrow> nat \<Rightarrow> u64 \<Rightarrow> 'z kpipe_scheme
     \<Rightarrow> ('z kpipe_scheme + 'z kpipe_scheme) res" where
  "piperead_wait 0 E pr pi s = Inl (Blocked ''piperead'')"
| "piperead_wait (Suc fuel) E pr pi s =
     bindE (the_pipe pi s) (\<lambda>p.
       if pipe_empty p \<and> writeopen p
       then bindE (killed pr s) (\<lambda>(k, s1).
         if k \<noteq> 0 then bindE (lk_release (L_pipe pi) s1) (\<lambda>s2. Inr (Inl s2))
         else bindE (sleep E (C_nread pi) (L_pipe pi) s1) (piperead_wait fuel E pr pi))
       else Inr (Inr s))"

text \<open>The copy loop, for the \<open>k\<close> iterations left.\<close>

fun piperead_copy :: "nat \<Rightarrow> nat \<Rightarrow> u64 \<Rightarrow> u64 \<Rightarrow> int \<Rightarrow> 'z kpipe_scheme \<Rightarrow> (int \<times> 'z kpipe_scheme) res" where
  "piperead_copy 0 pr pi addr i s = Inr (i, s)"
| "piperead_copy (Suc k) pr pi addr i s =
     bindE (the_pipe pi s) (\<lambda>p.
       if pipe_empty p then Inr (i, s)
       else let (ch, p') = pipe_get p; s1 = set_pipe pi p' s in
            bindE (copyout (p_pagetable (ptable s1 pr)) (addr + word_of_int i) [ch] s1) (\<lambda>(r, s2).
              if r = - 1 then Inr (i, s2) else piperead_copy k pr pi addr (i + 1) s2))"

definition piperead ::
  "nat \<Rightarrow> ('z kpipe_scheme \<Rightarrow> 'z kpipe_scheme) \<Rightarrow> u64 \<Rightarrow> u64 \<Rightarrow> i32 \<Rightarrow> 'z kpipe_scheme \<Rightarrow> (int \<times> 'z kpipe_scheme) res" where
  "piperead fuel E pi addr n s =
     bindE (thisproc s) (\<lambda>pr.
     bindE (lk_acquire (L_pipe pi) s) (\<lambda>s1.
     bindE (piperead_wait fuel E pr pi s1) (\<lambda>r.
       case r of Inl s2 \<Rightarrow> Inr (- 1, s2)
       | Inr s2 \<Rightarrow>
           bindE (piperead_copy (nat (sint n)) pr pi addr 0 s2) (\<lambda>(i, s3).
           bindE (wakeup (C_nwrite pi) s3) (\<lambda>s4.
           bindE (lk_release (L_pipe pi) s4) (\<lambda>s5. Inr (i, s5)))))))"

section \<open>The buffer is a bounded queue\<close>

definition pipe_content :: "pipe \<Rightarrow> u8 list" where
  "pipe_content p = ring_list PIPESIZE (pi_data p) (nread p) (nwrite p)"

definition pipe_inv :: "pipe \<Rightarrow> bool" where
  "pipe_inv p \<longleftrightarrow> ring_ok PIPESIZE (pi_data p) (nread p) (nwrite p)"

interpretation pipeq: bounded_fifo pipe_put pipe_get pipe_full pipe_empty pipe_content pipe_inv PIPESIZE
proof
  fix p :: pipe and x
  assume inv: "pipe_inv p"
  show "length (pipe_content p) \<le> PIPESIZE"
    using inv by (simp add: pipe_inv_def ring_ok_def pipe_content_def ring_length)
  show f: "pipe_full p \<longleftrightarrow> length (pipe_content p) = PIPESIZE"
    using ring_full inv by (auto simp: pipe_inv_def pipe_full_def pipe_content_def ring_length)
  show "pipe_empty p \<longleftrightarrow> pipe_content p = []"
    using ring_empty inv by (auto simp: pipe_inv_def pipe_empty_def pipe_content_def)
  show "\<not> pipe_full p \<Longrightarrow> pipe_content (pipe_put x p) = pipe_content p @ [x] \<and> pipe_inv (pipe_put x p)"
    using inv f ring_put [of PIPESIZE "pi_data p" "nread p" "nwrite p" x]
    by (auto simp: pipe_inv_def pipe_put_def pipe_content_def ring_length ring_ok_def)
  show "\<not> pipe_empty p \<Longrightarrow> pipe_content p = fst (pipe_get p) # pipe_content (snd (pipe_get p)) \<and> pipe_inv (snd (pipe_get p))"
    using inv ring_get [of PIPESIZE "pi_data p" "nread p" "nwrite p"]
    by (auto simp: pipe_inv_def pipe_get_def pipe_empty_def pipe_content_def)
qed

section \<open>Writing\<close>

lemma killed_eq: "L_proc i \<notin> set (held s) \<Longrightarrow> killed i s = Inr (p_killed (ptable s i), s)"
  by (simp add: killed_def)

lemma the_pipe_Some [simp]: "pipes s pi = Some p \<Longrightarrow> the_pipe pi s = Inr p"
  by (simp add: the_pipe_def)

lemma set_pipe_sel [simp]:
  "pipes (set_pipe pi p s) = (pipes s)(pi := Some p)" "held (set_pipe pi p s) = held s" "cur (set_pipe pi p s) = cur s"
  "pmem (set_pipe pi p s) = pmem s" "ptable (set_pipe pi p s) = ptable s" "set_pipe pi q (set_pipe pi p s) = set_pipe pi q s"
  by (simp_all add: set_pipe_def)

lemma uspace_ok_set_pipe [simp]: "uspace_ok (set_pipe pi p s) xs pt = uspace_ok s xs pt"
  by (simp add: uspace_ok_def vm_ok_def kmem_ok_def ram_page_def set_pipe_def)

lemma copyin_1:
  assumes "uspace_ok s xs pt"
  shows "\<exists>bs. copyin pt va 1 s = Inr (if user_va (pmem s) pt va then (0, [uview (pmem s) pt va]) else (- 1, bs))"
proof -
  obtain k rc where k: "copyin pt va 1 s = Inr (rc, map (\<lambda>i. uview (pmem s) pt (va + of_nat i)) [0..<k])"
    "reach (pmem s) pt va 1 k" "rc = (if k = 1 then 0 else - 1)" using copyin_spec [OF assms] by blast
  from k(2) have "k = (if user_va (pmem s) pt va then 1 else 0)" by (auto simp: reach_def le_Suc_eq)
  then show ?thesis using k(1,3) by auto
qed

lemma reach_Suc:
  "reach m pt va (Suc n) k \<longleftrightarrow>
   (if user_va m pt va then \<exists>j. k = Suc j \<and> reach m pt (va + 1) n j else k = 0)"
proof (cases k)
  case (Suc j)
  have "(\<forall>i < Suc j. user_va m pt (va + of_nat i)) \<longleftrightarrow>
      user_va m pt va \<and> (\<forall>i < j. user_va m pt (va + 1 + of_nat i))"
    by (simp add: All_less_Suc2 algebra_simps)
  then show ?thesis using Suc by (auto simp: reach_def algebra_simps)
qed (auto simp: reach_def)

lemma pipewrite_loop_room:
  assumes "uspace_ok s xs (p_pagetable (ptable s pr))" "p_killed (ptable s pr) = 0" "L_proc pr \<notin> set (held s)"
    and "pipes s pi = Some p" "pipe_inv p" "readopen p" "length (pipe_content p) + m \<le> PIPESIZE" "m < fuel"
    and "reach (pmem s) (p_pagetable (ptable s pr)) (addr + word_of_int i) m k" "n = i + int m"
  shows "\<exists>p'. pipewrite_loop fuel E pr pi addr n i s = pipewrite_end pi (i + int k) (set_pipe pi p' s) \<and>
    pipe_inv p' \<and> readopen p' \<and> writeopen p' = writeopen p \<and>
    pipe_content p' = pipe_content p @
      map (\<lambda>j. uview (pmem s) (p_pagetable (ptable s pr)) (addr + word_of_int i + of_nat j)) [0..<k]"
  using assms
proof (induction m arbitrary: fuel i k p s)
  case 0
  then obtain f where "fuel = Suc f" by (cases fuel) auto
  moreover have "k = 0" using 0 by (simp add: reach_def)
  moreover have "set_pipe pi p s = s" using 0(4) by (simp add: set_pipe_def fun_upd_idem)
  ultimately show ?case using 0 by (intro exI [of _ p]) simp
next
  case (Suc m)
  let ?pt = "p_pagetable (ptable s pr)" and ?a = "addr + word_of_int i"
  obtain f where f: "fuel = Suc f" using Suc.prems(8) by (cases fuel) auto
  have nf: "\<not> pipe_full p" using pipeq.full_iff Suc.prems by auto
  obtain bs where c: "copyin ?pt ?a 1 s =
      Inr (if user_va (pmem s) ?pt ?a then (0, [uview (pmem s) ?pt ?a]) else (- 1, bs))"
    using copyin_1 [OF Suc.prems(1)] by blast
  show ?case
  proof (cases "user_va (pmem s) ?pt ?a")
    case False
    have "k = 0" using Suc.prems(9) False by (simp add: reach_Suc)
    moreover have "set_pipe pi p s = s" using Suc.prems(4) by (simp add: set_pipe_def fun_upd_idem)
    ultimately show ?thesis using Suc.prems f nf c False by (intro exI [of _ p]) (simp add: killed_eq)
  next
    case True
    define p1 where "p1 = pipe_put (uview (pmem s) ?pt ?a) p"
    let ?s = "set_pipe pi p1 s"
    have p1: "pipe_content p1 = pipe_content p @ [uview (pmem s) ?pt ?a]" "pipe_inv p1"
      using pipeq.put_content Suc.prems(5) nf by (auto simp: p1_def)
    have p1': "readopen p1 = readopen p" "writeopen p1 = writeopen p" by (simp_all add: p1_def pipe_put_def)
    obtain j where j: "k = Suc j" "reach (pmem s) ?pt (addr + word_of_int (i + 1)) m j"
      using Suc.prems(9) True by (auto simp: reach_Suc algebra_simps)
    have lp: "pipewrite_loop fuel E pr pi addr n i s = pipewrite_loop f E pr pi addr n (i + 1) ?s"
      using Suc.prems f nf c True by (simp add: killed_eq p1_def)
    obtain p' where p': "pipewrite_loop f E pr pi addr n (i + 1) ?s = pipewrite_end pi (i + 1 + int j) (set_pipe pi p' ?s)"
      "pipe_inv p'" "readopen p'" "writeopen p' = writeopen p1"
      "pipe_content p' = pipe_content p1 @ map (\<lambda>h. uview (pmem s) ?pt (addr + word_of_int (i + 1) + of_nat h)) [0..<j]"
      using Suc.IH [of ?s p1 f "i + 1" j] Suc.prems p1 p1' j f by (auto simp: set_pipe_sel)
    have "map (\<lambda>h. uview (pmem s) ?pt (?a + of_nat h)) [0..<Suc j] =
        uview (pmem s) ?pt ?a # map (\<lambda>h. uview (pmem s) ?pt (addr + word_of_int (i + 1) + of_nat h)) [0..<j]"
      by (simp add: upt_conv_Cons map_Suc_upt [symmetric] comp_def algebra_simps del: upt_Suc)
    then show ?thesis using lp p' p1 p1' j(1) by (intro exI [of _ p']) (simp add: algebra_simps)
  qed
qed

lemma map_procs_more [simp]:
  "pipes (map_procs is f s) = pipes s" "pmem (map_procs is f s) = pmem s"
  by (simp_all add: map_procs_def)

lemma wakeup_frame:
  assumes "\<forall>i < NPROC. L_proc i \<notin> set (held s)"
  shows "\<exists>t. wakeup ch s = Inr (s\<lparr>ptable := t\<rparr>)"
  using wakeup_eq [of s ch] assms by (auto simp: map_procs_def)

lemma pipewrite_end_ok:
  assumes "held s = [L_pipe pi]"
  shows "\<exists>t. pipewrite_end pi i s = Inr (i, s\<lparr>ptable := t, held := []\<rparr>)"
proof -
  obtain t where "wakeup (C_nread pi) s = Inr (s\<lparr>ptable := t\<rparr>)" using wakeup_frame [of s] assms by auto
  then show ?thesis using assms by (auto simp: pipewrite_end_def)
qed

section \<open>Reading\<close>

lemma piperead_wait_ready:
  "pipes s pi = Some p \<Longrightarrow> \<not> pipe_empty p \<or> \<not> writeopen p \<Longrightarrow> piperead_wait (Suc fuel) E pr pi s = Inr (Inr s)"
  by auto

text \<open>\<open>taken s xs pt va bs s'\<close>: the memory of \<open>s'\<close> is that of \<open>s\<close> with \<open>bs\<close> stored at user address \<open>va\<close>.\<close>

definition taken :: "'z kmach_scheme \<Rightarrow> u64 list \<Rightarrow> u64 \<Rightarrow> u64 \<Rightarrow> u8 list \<Rightarrow> 'z kmach_scheme \<Rightarrow> bool" where
  "taken s xs pt va bs s' \<longleftrightarrow> uspace_ok s' xs pt \<and>
    (\<forall>w. pte_of (pmem s') pt w = pte_of (pmem s) pt w) \<and>
    (\<forall>w. user_va (pmem s) pt w \<longrightarrow> uview (pmem s') pt w =
       (if in_area va (length bs) w then bs ! unat (w - va) else uview (pmem s) pt w))"

lemma user_va_cong: "(\<And>w. pte_of m pt w = pte_of m' pt w) \<Longrightarrow> user_va m pt v = user_va m' pt v"
  by (simp add: user_va_def)

lemma copied_taken:
  assumes "copied s pt xs va [b] 1 s1"
  shows "taken s xs pt va [b] s1"
proof -
  have "length [b] = 1" by simp
  then show ?thesis using assms unfolding copied_def taken_def by metis
qed

lemma taken_Cons:
  assumes a: "taken s xs pt va [b] s1" and b: "taken s1 xs pt (va + 1) bs s2" and l: "length bs < 2 ^ 32"
  shows "taken s xs pt va (b # bs) s2"
proof -
  have p: "pte_of (pmem s1) pt w = pte_of (pmem s) pt w" for w using a by (simp add: taken_def)
  have "uview (pmem s2) pt w = (if in_area va (length (b # bs)) w then (b # bs) ! unat (w - va) else uview (pmem s) pt w)"
    if u: "user_va (pmem s) pt w" for w
  proof -
    have u1: "user_va (pmem s1) pt w" using u user_va_cong [OF p] by simp
    have v2: "uview (pmem s2) pt w = (if in_area (va + 1) (length bs) w then bs ! unat (w - (va + 1)) else uview (pmem s1) pt w)"
      using b u1 by (simp add: taken_def)
    have v1: "uview (pmem s1) pt w = (if in_area va 1 w then [b] ! unat (w - va) else uview (pmem s) pt w)"
      using a u by (simp add: taken_def)
    have sp: "in_area va (1 + length bs) w \<longleftrightarrow> in_area va 1 w \<or> in_area (va + 1) (length bs) w"
      "in_area (va + 1) (length bs) w \<Longrightarrow> \<not> in_area va 1 w \<and> unat (w - va) = 1 + unat (w - (va + 1))"
      using in_area_split [of 1 "length bs" va w] l by simp_all
    have "in_area va 1 w \<Longrightarrow> unat (w - va) = 0" by (simp add: in_area_def)
    then show ?thesis using sp v1 v2 by (cases "in_area (va + 1) (length bs) w") (auto simp: nth_Cons')
  qed
  then show ?thesis using b p by (simp add: taken_def)
qed

lemma copyout_1:
  assumes "uspace_ok s xs pt"
  shows "\<exists>s'. copyout pt va [b] s = Inr (if user_va (pmem s) pt va then 0 else - 1, s') \<and>
    (if user_va (pmem s) pt va then copied s pt xs va [b] 1 s' else copied s pt xs va [b] 0 s')"
proof -
  obtain k s' where k: "copyout pt va [b] s = Inr (if k = length [b] then 0 else - 1, s')"
    "reach (pmem s) pt va (length [b]) k" "copied s pt xs va [b] k s'" using copyout_spec [OF assms, of "[b]" va] by auto
  from k(2) have "k = (if user_va (pmem s) pt va then 1 else 0)" by (auto simp: reach_def le_Suc_eq)
  then show ?thesis using k(1,3) by (intro exI [of _ s']) auto
qed

lemma piperead_copy_ok:
  assumes "uspace_ok s xs pt" "pt = p_pagetable (ptable s pr)" "pipes s pi = Some p" "pipe_inv p"
    and "reach (pmem s) pt (addr + word_of_int i) (min n (length (pipe_content p))) k"
  shows "\<exists>p' m. piperead_copy n pr pi addr i s = Inr (i + int k, (set_pipe pi p' s)\<lparr>pmem := m\<rparr>) \<and>
    pipe_inv p' \<and> readopen p' = readopen p \<and> writeopen p' = writeopen p \<and>
    pipe_content p' = drop (if k < min n (length (pipe_content p)) then k + 1 else k) (pipe_content p) \<and>
    taken s xs pt (addr + word_of_int i) (take k (pipe_content p)) ((set_pipe pi p' s)\<lparr>pmem := m\<rparr>)"
  using assms
proof (induction n arbitrary: i k p s)
  case 0
  then have "k = 0" by (simp add: reach_def)
  then show ?case using 0 by (intro exI [of _ p] exI [of _ "pmem s"]) (simp add: taken_def set_pipe_def fun_upd_idem)
next
  case (Suc n)
  let ?a = "addr + word_of_int i" and ?c = "pipe_content p"
  show ?case
  proof (cases "pipe_empty p")
    case True
    then have c: "?c = []" using pipeq.empty_iff Suc.prems by simp
    then have "k = 0" using Suc.prems by (simp add: reach_def)
    then show ?thesis using Suc.prems True c
      by (intro exI [of _ p] exI [of _ "pmem s"]) (simp add: taken_def set_pipe_def fun_upd_idem)
  next
    case False
    obtain ch p1 where g: "pipe_get p = (ch, p1)" by fastforce
    have p1: "?c = ch # pipe_content p1" "pipe_inv p1" using pipeq.get_content [OF Suc.prems(4) False] g by simp_all
    have p1': "readopen p1 = readopen p" "writeopen p1 = writeopen p" using g by (auto simp: pipe_get_def)
    define s1 where "s1 = set_pipe pi p1 s"
    have s1: "uspace_ok s1 xs pt" "pmem s1 = pmem s" "ptable s1 = ptable s" using Suc.prems by (simp_all add: s1_def)
    obtain s2 where s2: "copyout pt ?a [ch] s1 = Inr (if user_va (pmem s) pt ?a then 0 else - 1, s2)"
      "if user_va (pmem s) pt ?a then copied s1 pt xs ?a [ch] 1 s2 else copied s1 pt xs ?a [ch] 0 s2"
      using copyout_1 [OF s1(1), of ?a ch] s1(2) by auto
    have "copied s1 pt xs ?a [ch] 1 s2 \<or> copied s1 pt xs ?a [ch] 0 s2" using s2(2) by metis
    then have f2: "s2 = s1\<lparr>pmem := pmem s2\<rparr>" "uspace_ok s2 xs pt" "\<And>w. pte_of (pmem s2) pt w = pte_of (pmem s) pt w"
      using s1(2) by (auto simp: copied_def)
    obtain m where m: "s2 = s1\<lparr>pmem := m\<rparr>" using f2(1) by blast
    have t2: "ptable s2 = ptable s" "pipes s2 pi = Some p1" "pmem s2 = m" "set_pipe pi q s2 = (set_pipe pi q s)\<lparr>pmem := m\<rparr>" for q
      unfolding m s1_def by (simp_all add: set_pipe_def)
    have step: "piperead_copy (Suc n) pr pi addr i s =
        (if user_va (pmem s) pt ?a then piperead_copy n pr pi addr (i + 1) s2 else Inr (i, s2))"
      using Suc.prems False g s2(1) s1(3) by (simp add: s1_def [symmetric])
    show ?thesis
    proof (cases "user_va (pmem s) pt ?a")
      case u: False
      then have "k = 0" using Suc.prems(5) p1(1) by (simp add: reach_Suc)
      moreover have "taken s xs pt ?a [] s2" using s2(2) u f2 s1(2) by (simp add: taken_def copied_def)
      moreover have "s2 = (set_pipe pi p1 s)\<lparr>pmem := m\<rparr>" using m s1_def by simp
      ultimately show ?thesis using step u p1 p1' t2(3) by (intro exI [of _ p1] exI [of _ m]) (simp del: piperead_copy.simps)
    next
      case u: True
      obtain j where j: "k = Suc j" "reach (pmem s) pt (addr + word_of_int (i + 1)) (min n (length (pipe_content p1))) j"
        using Suc.prems(5) u p1(1) by (auto simp: reach_Suc algebra_simps)
      have "reach (pmem s2) pt (addr + word_of_int (i + 1)) (min n (length (pipe_content p1))) j"
        using j(2) user_va_cong [OF f2(3)] by (simp add: reach_def)
      then obtain p' m' where IH: "piperead_copy n pr pi addr (i + 1) s2 = Inr (i + 1 + int j, (set_pipe pi p' s)\<lparr>pmem := m'\<rparr>)"
        "pipe_inv p'" "readopen p' = readopen p1" "writeopen p' = writeopen p1"
        "pipe_content p' = drop (if j < min n (length (pipe_content p1)) then j + 1 else j) (pipe_content p1)"
        "taken s2 xs pt (addr + word_of_int (i + 1)) (take j (pipe_content p1)) ((set_pipe pi p' s)\<lparr>pmem := m'\<rparr>)"
        using Suc.IH [of s2 p1 "i + 1" j] f2(2) t2 p1(2) Suc.prems(2) by auto
      have "length (take j (pipe_content p1)) < 2 ^ 32"
        using pipeq.content_bound [OF p1(2)] by (simp add: PIPESIZE_def)
      moreover have "copied s1 pt xs ?a [ch] 1 s2" using s2(2) u by simp
      ultimately have "taken s1 xs pt ?a (ch # take j (pipe_content p1)) ((set_pipe pi p' s)\<lparr>pmem := m'\<rparr>)"
        using IH(6) by (intro taken_Cons [OF copied_taken]) (simp_all add: algebra_simps)
      then have tk: "taken s xs pt ?a (take k ?c) ((set_pipe pi p' s)\<lparr>pmem := m'\<rparr>)" using j(1) p1(1) s1(2) by (simp add: taken_def)
      show ?thesis using step u IH p1 p1' j(1) tk by (intro exI [of _ p'] exI [of _ m']) (simp add: algebra_simps del: piperead_copy.simps)
    qed
  qed
qed

section \<open>Properties\<close>

text \<open>A running process with the address space of \<open>demo\<close>, and one open pipe with three bytes in it whose
  counters are about to wrap around.\<close>

definition pipe0 :: pipe where
  "pipe0 = \<lparr>pi_data = replicate 510 0 @ [10, 20], nread = 0xFFFFFFFE, nwrite = 1, readopen = True, writeopen = True\<rparr>"

definition kpipe0 :: kpipe where
  "kpipe0 = \<lparr>held = [], pmem = pmem demo, freelist = freelist demo, k_end = k_end demo, k_etext = 0x80008000,
     k_trampoline = 0x80007000, kernel_pagetable = 0, satp = 0, u_out = [], u_in = [],
     tx_idle = [], panicked = False, pr_locking = True, ptable = (\<lambda>i. (proc_at i)\<lparr>p_pagetable := demo_pt\<rparr>), nextpid = 4,
     initproc = Some 0, cur = Some 0, sched_pointer = rr_impl, forkret_first = False, ticks = 0,
     nswitch = 0, k_forkret = 0x80001000, pipes = [0x80050000 \<mapsto> pipe0]\<rparr>"

lemma kpipe0_facts:
  obtains ys where "uspace_ok kpipe0 ys demo_pt" "\<And>w. user_va (pmem kpipe0) demo_pt w \<longleftrightarrow> w < 4096"
    "cur kpipe0 = Some 0" "held kpipe0 = []" "p_pagetable (ptable kpipe0 0) = demo_pt" "p_killed (ptable kpipe0 0) = 0"
    "pipes kpipe0 0x80050000 = Some pipe0" "pipe_inv pipe0" "length (pipe_content pipe0) = 3" "readopen pipe0"
proof (rule demo_space)
  fix ys assume ok: "uspace_ok demo ys demo_pt" and u: "\<And>w. user_va (pmem demo) demo_pt w \<longleftrightarrow> w < 4096"
  have "held demo = held kpipe0 \<or> L_kmem \<notin> set (held kpipe0)" by (simp add: kpipe0_def)
  then have "uspace_ok kpipe0 ys demo_pt" using ok
    by (auto simp: uspace_ok_def vm_ok_def kmem_ok_def ram_page_def kpipe0_def)
  then show thesis using u
    by (intro that [of ys])
      (simp_all add: kpipe0_def proc_at_def pipe0_def pipe_inv_def ring_ok_def PIPESIZE_def pipe_content_def ring_list_def)
qed

text \<open>C23: \<^verbatim>\<open>pipewrite\<close> with room in the buffer returns the number of bytes readable in the caller's memory
  (all \<open>n\<close>, or up to the first unmapped address), appends exactly these bytes to the pipe's
  content, and leaves no lock held.\<close>

theorem pipewrite_appends:
  assumes "uspace_ok s xs pt" "cur s = Some pr" "pt = p_pagetable (ptable s pr)" "p_killed (ptable s pr) = 0"
    and "held s = []" "pipes s pi = Some p" "pipe_inv p" "readopen p"
    and "0 \<le> sint n" "length (pipe_content p) + nat (sint n) \<le> PIPESIZE" "nat (sint n) < fuel"
  shows "\<exists>k p' s'. pipewrite fuel E pi addr n s = Inr (int k, s') \<and>
    k \<le> nat (sint n) \<and> (\<forall>j < k. user_va (pmem s) pt (addr + of_nat j)) \<and>
    (k < nat (sint n) \<longrightarrow> \<not> user_va (pmem s) pt (addr + of_nat k)) \<and>
    pipes s' = (pipes s)(pi \<mapsto> p') \<and> pipe_inv p' \<and>
    pipe_content p' = pipe_content p @ map (\<lambda>j. uview (pmem s) pt (addr + of_nat j)) [0..<k] \<and>
    held s' = [] \<and> pmem s' = pmem s"
proof -
  let ?s = "s\<lparr>held := [L_pipe pi]\<rparr>"
  have u: "uspace_ok ?s xs pt" using assms(1) by (simp add: uspace_ok_def vm_ok_def kmem_ok_def ram_page_def)
  obtain k where k: "reach (pmem s) pt addr (nat (sint n)) k" using reach_ex by blast
  obtain p' where p': "pipewrite_loop fuel E pr pi addr (sint n) 0 ?s = pipewrite_end pi (int k) (set_pipe pi p' ?s)"
    "pipe_inv p'" "pipe_content p' = pipe_content p @ map (\<lambda>j. uview (pmem s) pt (addr + of_nat j)) [0..<k]"
    using pipewrite_loop_room [of ?s xs pr pi p "nat (sint n)" fuel addr 0 k "sint n" E] u k assms by auto
  obtain t where "pipewrite_end pi (int k) (set_pipe pi p' ?s) = Inr (int k, (set_pipe pi p' ?s)\<lparr>ptable := t, held := []\<rparr>)"
    using pipewrite_end_ok [of "set_pipe pi p' ?s"] by auto
  then have "pipewrite fuel E pi addr n s = Inr (int k, (set_pipe pi p' ?s)\<lparr>ptable := t, held := []\<rparr>)"
    using assms p'(1) by (simp add: pipewrite_def thisproc_def myproc_def)
  then show ?thesis using p' k by (auto simp: reach_def set_pipe_def)
qed

theorem pipewrite_appends_witness:
  "\<exists>k p' s'. pipewrite 6 id 0x80050000 0xFFE 5 kpipe0 = Inr (int k, s') \<and>
    k \<le> nat (sint (5 :: i32)) \<and> (\<forall>j < k. user_va (pmem kpipe0) demo_pt (0xFFE + of_nat j)) \<and>
    (k < nat (sint (5 :: i32)) \<longrightarrow> \<not> user_va (pmem kpipe0) demo_pt (0xFFE + of_nat k)) \<and>
    pipes s' = (pipes kpipe0)(0x80050000 \<mapsto> p') \<and> pipe_inv p' \<and>
    pipe_content p' = pipe_content pipe0 @ map (\<lambda>j. uview (pmem kpipe0) demo_pt (0xFFE + of_nat j)) [0..<k] \<and>
    held s' = [] \<and> pmem s' = pmem kpipe0"
proof (rule kpipe0_facts)
  fix ys assume f: "uspace_ok kpipe0 ys demo_pt" "cur kpipe0 = Some 0" "held kpipe0 = []"
    "p_pagetable (ptable kpipe0 0) = demo_pt" "p_killed (ptable kpipe0 0) = 0"
    "pipes kpipe0 0x80050000 = Some pipe0" "pipe_inv pipe0" "length (pipe_content pipe0) = 3" "readopen pipe0"
  show ?thesis
    using f by (intro pipewrite_appends [where xs = ys and pr = 0]) (simp_all add: PIPESIZE_def)
qed

text \<open>C24: \<^verbatim>\<open>piperead\<close> on a pipe with data (or without writers) returns at once: it delivers the first
  bytes of the content, in order, into the caller's memory and nothing else there, takes them
  off the pipe, and leaves no lock held. If the copy faults at byte \<open>k\<close>, that byte is lost.\<close>

theorem piperead_delivers:
  assumes "uspace_ok s xs pt" "cur s = Some pr" "pt = p_pagetable (ptable s pr)" "held s = []"
    and "pipes s pi = Some p" "pipe_inv p" "pipe_content p \<noteq> [] \<or> writeopen p = False"
    and "m = min (nat (sint n)) (length (pipe_content p))"
  shows "\<exists>k p' s'. piperead (Suc fuel) E pi addr n s = Inr (int k, s') \<and>
    k \<le> m \<and> (\<forall>j < k. user_va (pmem s) pt (addr + of_nat j)) \<and> (k < m \<longrightarrow> \<not> user_va (pmem s) pt (addr + of_nat k)) \<and>
    (\<forall>w. user_va (pmem s) pt w \<longrightarrow> uview (pmem s') pt w =
       (if unat (w - addr) < k then pipe_content p ! unat (w - addr) else uview (pmem s) pt w)) \<and>
    pipes s' = (pipes s)(pi \<mapsto> p') \<and> pipe_inv p' \<and>
    pipe_content p' = drop (if k < m then k + 1 else k) (pipe_content p) \<and> held s' = []"
proof -
  let ?s = "s\<lparr>held := [L_pipe pi]\<rparr>"
  have u: "uspace_ok ?s xs pt" using assms(1) by (simp add: uspace_ok_def vm_ok_def kmem_ok_def ram_page_def)
  obtain k where k: "reach (pmem s) pt addr m k" using reach_ex by blast
  have ne: "\<not> pipe_empty p \<or> \<not> writeopen p" using pipeq.empty_iff assms by simp
  obtain p' m' where r: "piperead_copy (nat (sint n)) pr pi addr 0 ?s = Inr (int k, (set_pipe pi p' ?s)\<lparr>pmem := m'\<rparr>)"
    "pipe_inv p'" "pipe_content p' = drop (if k < m then k + 1 else k) (pipe_content p)"
    "taken ?s xs pt addr (take k (pipe_content p)) ((set_pipe pi p' ?s)\<lparr>pmem := m'\<rparr>)"
    using piperead_copy_ok [of ?s xs pt pr pi p addr 0 "nat (sint n)" k] u k assms by auto
  define s' where "s' = (set_pipe pi p' ?s)\<lparr>pmem := m'\<rparr>"
  have h: "held s' = [L_pipe pi]" "pipes s' = (pipes s)(pi \<mapsto> p')" by (simp_all add: s'_def set_pipe_def)
  obtain t where "wakeup (C_nwrite pi) s' = Inr (s'\<lparr>ptable := t\<rparr>)" using wakeup_frame [of s'] h by auto
  then have "piperead (Suc fuel) E pi addr n s = Inr (int k, s'\<lparr>ptable := t, held := []\<rparr>)"
    using assms r(1) h ne s'_def by (simp add: piperead_def thisproc_def myproc_def piperead_wait_ready del: piperead_wait.simps)
  moreover have "k \<le> m" using k by (simp add: reach_def)
  moreover have "length (take k (pipe_content p)) = k" using \<open>k \<le> m\<close> assms(8) by simp
  ultimately show ?thesis
    using r h k s'_def by (intro exI [of _ k] exI [of _ p'] exI [of _ "s'\<lparr>ptable := t, held := []\<rparr>"])
      (simp add: taken_def in_area_def reach_def)
qed

theorem piperead_delivers_witness:
  "\<exists>k p' s'. piperead (Suc 0) id 0x80050000 0xFFF 2 kpipe0 = Inr (int k, s') \<and>
    k \<le> 2 \<and> (\<forall>j < k. user_va (pmem kpipe0) demo_pt (0xFFF + of_nat j)) \<and>
    (k < 2 \<longrightarrow> \<not> user_va (pmem kpipe0) demo_pt (0xFFF + of_nat k)) \<and>
    (\<forall>w. user_va (pmem kpipe0) demo_pt w \<longrightarrow> uview (pmem s') demo_pt w =
       (if unat (w - 0xFFF) < k then pipe_content pipe0 ! unat (w - 0xFFF) else uview (pmem kpipe0) demo_pt w)) \<and>
    pipes s' = (pipes kpipe0)(0x80050000 \<mapsto> p') \<and> pipe_inv p' \<and>
    pipe_content p' = drop (if k < 2 then k + 1 else k) (pipe_content pipe0) \<and> held s' = []"
proof (rule kpipe0_facts)
  fix ys assume f: "uspace_ok kpipe0 ys demo_pt" "cur kpipe0 = Some 0" "held kpipe0 = []"
    "p_pagetable (ptable kpipe0 0) = demo_pt"
    "pipes kpipe0 0x80050000 = Some pipe0" "pipe_inv pipe0" "length (pipe_content pipe0) = 3"
  then have "pipe_content pipe0 \<noteq> []" by auto
  then show ?thesis
    using f by (intro piperead_delivers [where xs = ys and pr = 0]) simp_all
qed

end
