(* ===== verification/Sleeplock.thy ===== *)
theory Sleeplock
  imports Pipe
begin

text \<open>
  Sleep locks, \<^verbatim>\<open>kernel/sleeplock.c\<close>. A sleep lock is named by the array it lives in (\<open>''buffer''\<close> or
  \<open>''inode''\<close>) and its index there; the spin lock inside it is \<open>L_sleeplock\<close> of that name. A call that
  may wait takes an environment: how often it may find the lock taken (the fuel) and what the rest of
  the system does meanwhile.
\<close>

section \<open>Definitions\<close>

record sleeplock =
  sl_locked :: bool
  sl_pid :: i32

record kslp = kpipe +
  slock :: "string \<Rightarrow> nat \<Rightarrow> sleeplock"

type_synonym 's senv = "nat \<times> ('s \<Rightarrow> 's)"

definition set_slock :: "string \<Rightarrow> nat \<Rightarrow> sleeplock \<Rightarrow> 'z kslp_scheme \<Rightarrow> 'z kslp_scheme" where
  "set_slock nm i l s = s\<lparr>slock := (slock s)(nm := (slock s nm)(i := l))\<rparr>"

definition initsleeplock :: "string \<Rightarrow> nat \<Rightarrow> 'z kslp_scheme \<Rightarrow> 'z kslp_scheme" where
  "initsleeplock nm i s = set_slock nm i \<lparr>sl_locked = False, sl_pid = 0\<rparr> s"

fun acquiresleep_loop :: "nat \<Rightarrow> ('z kslp_scheme \<Rightarrow> 'z kslp_scheme) \<Rightarrow> string \<Rightarrow> nat \<Rightarrow> 'z kslp_scheme \<Rightarrow> 'z kslp_scheme res" where
  "acquiresleep_loop 0 E nm i s = Inl (Blocked ''acquiresleep'')"
| "acquiresleep_loop (Suc fuel) E nm i s =
     (if sl_locked (slock s nm i)
      then bindE (sleep E (C_sleeplock nm i) (L_sleeplock nm i) s) (acquiresleep_loop fuel E nm i)
      else Inr s)"

definition acquiresleep :: "'z kslp_scheme senv \<Rightarrow> string \<Rightarrow> nat \<Rightarrow> 'z kslp_scheme \<Rightarrow> 'z kslp_scheme res" where
  "acquiresleep e nm i s =
     bindE (lk_acquire (L_sleeplock nm i) s) (\<lambda>s1.
     bindE (acquiresleep_loop (fst e) (snd e) nm i s1) (\<lambda>s2.
     bindE (thisproc s2) (\<lambda>p.
       lk_release (L_sleeplock nm i)
         (set_slock nm i \<lparr>sl_locked = True, sl_pid = p_pid (ptable s2 p)\<rparr> s2))))"

definition releasesleep :: "string \<Rightarrow> nat \<Rightarrow> 'z kslp_scheme \<Rightarrow> 'z kslp_scheme res" where
  "releasesleep nm i s =
     bindE (lk_acquire (L_sleeplock nm i) s) (\<lambda>s1.
     bindE (wakeup (C_sleeplock nm i) (set_slock nm i \<lparr>sl_locked = False, sl_pid = 0\<rparr> s1)) (\<lambda>s2.
       lk_release (L_sleeplock nm i) s2))"

definition holdingsleep :: "string \<Rightarrow> nat \<Rightarrow> 'z kslp_scheme \<Rightarrow> (bool \<times> 'z kslp_scheme) res" where
  "holdingsleep nm i s =
     bindE (lk_acquire (L_sleeplock nm i) s) (\<lambda>s1.
     bindE (if sl_locked (slock s1 nm i)
            then bindE (thisproc s1) (\<lambda>p. Inr (sl_pid (slock s1 nm i) = p_pid (ptable s1 p)))
            else Inr False) (\<lambda>r.
     bindE (lk_release (L_sleeplock nm i) s1) (\<lambda>s2. Inr (r, s2))))"

section \<open>What they do\<close>

text \<open>
  \<open>running s p\<close>: process \<open>p\<close> runs and no lock of a process or sleep lock is held, the situation in
  which file system code calls these functions. \<open>mine s nm i\<close>: the sleep lock is held by the
  running process.
\<close>

definition quiet :: "lockid \<Rightarrow> bool" where
  "quiet l \<longleftrightarrow> (case l of L_proc _ \<Rightarrow> False | L_sleeplock _ _ \<Rightarrow> False | L_bcache \<Rightarrow> False | L_log \<Rightarrow> False
     | L_vdisk \<Rightarrow> False | _ \<Rightarrow> True)"

definition running :: "'z kslp_scheme \<Rightarrow> nat \<Rightarrow> bool" where
  "running s p \<longleftrightarrow> cur s = Some p \<and> (\<forall>l \<in> set (held s). quiet l)"

definition mine :: "'z kslp_scheme \<Rightarrow> string \<Rightarrow> nat \<Rightarrow> bool" where
  "mine s nm i \<longleftrightarrow> sl_locked (slock s nm i) \<and> (\<exists>p. cur s = Some p \<and> sl_pid (slock s nm i) = p_pid (ptable s p))"

text \<open>\<open>psame p q\<close>: two table entries that differ in \<^verbatim>\<open>p->state\<close> at most.\<close>

definition psame :: "proc \<Rightarrow> proc \<Rightarrow> bool" where
  "psame p q \<longleftrightarrow> p\<lparr>p_state := UNUSED\<rparr> = q\<lparr>p_state := UNUSED\<rparr>"

lemma psame_refl [simp]: "psame p p"
  and psame_trans: "psame p q \<Longrightarrow> psame q r \<Longrightarrow> psame p r"
  and psame_state [simp]: "psame p (p\<lparr>p_state := st\<rparr>)"
  by (simp_all add: psame_def)

lemma psame_fields:
  assumes "psame p q"
  shows "p_pid q = p_pid p" "p_pagetable q = p_pagetable p" "p_cwd q = p_cwd p" "p_ofile q = p_ofile p"
    "p_killed q = p_killed p" "p_sz q = p_sz p" "p_trapframe q = p_trapframe p" "p_name q = p_name p" "p_parent q = p_parent p"
  using assms by (cases p; cases q; simp add: psame_def)+

lemma running_free:
  "running s p \<Longrightarrow> L_sleeplock nm i \<notin> set (held s)" "running s p \<Longrightarrow> L_proc j \<notin> set (held s)"
  "running s p \<Longrightarrow> L_bcache \<notin> set (held s)" "running s p \<Longrightarrow> L_log \<notin> set (held s)" "running s p \<Longrightarrow> L_vdisk \<notin> set (held s)"
  by (auto simp: running_def quiet_def)

lemma acquiresleep_free:
  assumes "running s p" "\<not> sl_locked (slock s nm i)" "0 < fst e"
  shows "acquiresleep e nm i s = Inr (set_slock nm i \<lparr>sl_locked = True, sl_pid = p_pid (ptable s p)\<rparr> s)"
proof -
  obtain f where "fst e = Suc f" using assms(3) by (cases "fst e") auto
  moreover have "cur s = Some p" using assms(1) by (simp add: running_def)
  ultimately show ?thesis using assms(2) running_free(1) [OF assms(1), of nm i]
    by (simp add: acquiresleep_def thisproc_def myproc_def set_slock_def)
qed

lemma holdingsleep_mine:
  assumes "running s p"
  shows "holdingsleep nm i s = Inr (mine s nm i, s)"
proof -
  have "cur s = Some p" using assms by (simp add: running_def)
  then show ?thesis using running_free(1) [OF assms, of nm i]
    by (simp add: holdingsleep_def mine_def thisproc_def myproc_def)
qed

text \<open>\<^verbatim>\<open>releasesleep\<close> opens the lock and, of the processes, changes only the state of the sleepers on it.\<close>

lemma releasesleep_ok:
  assumes "running s p"
  obtains t where "releasesleep nm i s = Inr ((set_slock nm i \<lparr>sl_locked = False, sl_pid = 0\<rparr> s)\<lparr>ptable := t\<rparr>)"
    "\<And>j. psame (ptable s j) (t j)"
proof -
  let ?s = "set_slock nm i \<lparr>sl_locked = False, sl_pid = 0\<rparr> (s\<lparr>held := L_sleeplock nm i # held s\<rparr>)"
  let ?f = "\<lambda>j. if myproc ?s = Some j then id else woken (C_sleeplock nm i)"
  have w: "wakeup (C_sleeplock nm i) ?s = Inr (map_procs [0..<NPROC] ?f ?s)"
    using running_free(2) [OF assms] by (intro wakeup_eq) (auto simp: set_slock_def)
  define t where "t = ptable (map_procs [0..<NPROC] ?f ?s)"
  have "map_procs [0..<NPROC] ?f ?s = ?s\<lparr>ptable := t\<rparr>" by (simp add: t_def map_procs_def)
  then have "releasesleep nm i s = Inr ((set_slock nm i \<lparr>sl_locked = False, sl_pid = 0\<rparr> s)\<lparr>ptable := t\<rparr>)"
    using w running_free(1) [OF assms, of nm i] by (simp add: releasesleep_def set_slock_def)
  moreover have "psame (ptable s j) (t j)" for j by (simp add: t_def set_slock_def woken_def)
  ultimately show thesis by (rule that)
qed

end
