(* ===== verification/Bio.thy ===== *)
theory Bio
  imports Sleeplock
begin

text \<open>
  The buffer cache, \<^verbatim>\<open>kernel/bio.c\<close>. The 30 buffers and the list head (index \<open>bhead\<close>) form a doubly
  linked list through \<^verbatim>\<open>prev\<close> and \<^verbatim>\<open>next\<close>. \<open>disk\<close> is the content of the disk by block number and
  \<open>dwrites\<close> the history of the writes it received; \<open>disk_rw\<close> is what a call of the disk driver does
  to them. The specifications see the cache through \<open>blk\<close>, the content of each block as the file system
  reads it, \<open>refs\<close>, the references to it, and \<open>lckd\<close>, whether its buffer is locked.
\<close>

section \<open>Definitions\<close>

definition BSIZE :: nat where "BSIZE = 1024"

record buf =
  b_valid :: bool
  b_disk :: bool
  b_dev :: u32
  b_blockno :: u32
  b_refcnt :: u32
  b_prev :: nat
  b_next :: nat
  b_data :: "u8 list"

record kbuf = kslp +
  bcache :: "nat \<Rightarrow> buf"
  disk :: "u32 \<Rightarrow> u8 list"
  dwrites :: "(u32 \<times> u8 list) list"

definition bhead :: nat where "bhead = NBUF"

definition upd_buf :: "nat \<Rightarrow> (buf \<Rightarrow> buf) \<Rightarrow> 'z kbuf_scheme \<Rightarrow> 'z kbuf_scheme" where
  "upd_buf b f s = s\<lparr>bcache := (bcache s)(b := f (bcache s b))\<rparr>"

definition set_next :: "nat \<Rightarrow> nat \<Rightarrow> 'z kbuf_scheme \<Rightarrow> 'z kbuf_scheme" where
  "set_next b n s = upd_buf b (\<lambda>x. x\<lparr>b_next := n\<rparr>) s"

definition set_prev :: "nat \<Rightarrow> nat \<Rightarrow> 'z kbuf_scheme \<Rightarrow> 'z kbuf_scheme" where
  "set_prev b p s = upd_buf b (\<lambda>x. x\<lparr>b_prev := p\<rparr>) s"

abbreviation nxt :: "'z kbuf_scheme \<Rightarrow> nat \<Rightarrow> nat" where "nxt s b \<equiv> b_next (bcache s b)"

abbreviation prv :: "'z kbuf_scheme \<Rightarrow> nat \<Rightarrow> nat" where "prv s b \<equiv> b_prev (bcache s b)"

text \<open>The four assignments that put \<open>b\<close> behind the head; \<^verbatim>\<open>binit\<close> initialises the lock in between.\<close>

definition link_front :: "nat \<Rightarrow> 'z kbuf_scheme \<Rightarrow> 'z kbuf_scheme" where
  "link_front b s =
     (let s1 = set_next b (nxt s bhead) s;
          s2 = set_prev b bhead s1;
          s3 = set_prev (nxt s2 bhead) b s2
      in set_next bhead b s3)"

definition unlink :: "nat \<Rightarrow> 'z kbuf_scheme \<Rightarrow> 'z kbuf_scheme" where
  "unlink b s = (let s1 = set_prev (nxt s b) (prv s b) s in set_next (prv s1 b) (nxt s1 b) s1)"

definition binit :: "'z kbuf_scheme \<Rightarrow> 'z kbuf_scheme" where
  "binit s =
     (let s1 = set_next bhead bhead (set_prev bhead bhead s)
      in fold (\<lambda>b t. link_front b (initsleeplock ''buffer'' b t)) [0..<NBUF] s1)"

text \<open>The two scans of \<^verbatim>\<open>bget\<close> from buffer \<open>b\<close> on; the fuel bounds the nodes visited.\<close>

fun bget_cached :: "nat \<Rightarrow> u32 \<Rightarrow> u32 \<Rightarrow> nat \<Rightarrow> 'z kbuf_scheme \<Rightarrow> nat option res" where
  "bget_cached 0 dev blockno b s = Inl (Blocked ''bget'')"
| "bget_cached (Suc fuel) dev blockno b s =
     (if b = bhead then Inr None
      else if b_dev (bcache s b) = dev \<and> b_blockno (bcache s b) = blockno then Inr (Some b)
      else bget_cached fuel dev blockno (nxt s b) s)"

fun bget_unused :: "nat \<Rightarrow> nat \<Rightarrow> 'z kbuf_scheme \<Rightarrow> nat option res" where
  "bget_unused 0 b s = Inl (Blocked ''bget'')"
| "bget_unused (Suc fuel) b s =
     (if b = bhead then Inr None
      else if b_refcnt (bcache s b) = 0 then Inr (Some b)
      else bget_unused fuel (prv s b) s)"

definition bget :: "'z kbuf_scheme senv \<Rightarrow> u32 \<Rightarrow> u32 \<Rightarrow> 'z kbuf_scheme \<Rightarrow> (nat \<times> 'z kbuf_scheme) res" where
  "bget e dev blockno s =
     bindE (lk_acquire L_bcache s) (\<lambda>s1.
     bindE (bget_cached (Suc NBUF) dev blockno (nxt s1 bhead) s1) (\<lambda>r.
     bindE (case r of
         Some b \<Rightarrow> Inr (b, upd_buf b (\<lambda>x. x\<lparr>b_refcnt := b_refcnt x + 1\<rparr>) s1)
       | None \<Rightarrow> bindE (bget_unused (Suc NBUF) (prv s1 bhead) s1) (\<lambda>u.
           case u of
             None \<Rightarrow> Inl (Panic ''bget: no buffers'')
           | Some b \<Rightarrow> Inr (b, upd_buf b (\<lambda>x. x\<lparr>b_dev := dev, b_blockno := blockno, b_valid := False, b_refcnt := 1\<rparr>) s1)))
       (\<lambda>(b, s2).
         bindE (lk_release L_bcache s2) (\<lambda>s3.
         bindE (acquiresleep e ''buffer'' b s3) (\<lambda>s4. Inr (b, s4))))))"

definition disk_rw :: "nat \<Rightarrow> bool \<Rightarrow> 'z kbuf_scheme \<Rightarrow> 'z kbuf_scheme" where
  "disk_rw b write s =
     (let n = b_blockno (bcache s b) in
      if write then s\<lparr>disk := (disk s)(n := b_data (bcache s b)), dwrites := dwrites s @ [(n, b_data (bcache s b))]\<rparr>
      else upd_buf b (\<lambda>x. x\<lparr>b_data := disk s n\<rparr>) s)"

definition bread :: "'z kbuf_scheme senv \<Rightarrow> u32 \<Rightarrow> u32 \<Rightarrow> 'z kbuf_scheme \<Rightarrow> (nat \<times> 'z kbuf_scheme) res" where
  "bread e dev blockno s =
     bindE (bget e dev blockno s) (\<lambda>(b, s1).
       if \<not> b_valid (bcache s1 b) then Inr (b, upd_buf b (\<lambda>x. x\<lparr>b_valid := True\<rparr>) (disk_rw b False s1))
       else Inr (b, s1))"

definition bwrite :: "nat \<Rightarrow> 'z kbuf_scheme \<Rightarrow> 'z kbuf_scheme res" where
  "bwrite b s =
     bindE (holdingsleep ''buffer'' b s) (\<lambda>(h, s1).
       if \<not> h then Inl (Panic ''bwrite'') else Inr (disk_rw b True s1))"

definition brelse :: "nat \<Rightarrow> 'z kbuf_scheme \<Rightarrow> 'z kbuf_scheme res" where
  "brelse b s =
     bindE (holdingsleep ''buffer'' b s) (\<lambda>(h, s1).
       if \<not> h then Inl (Panic ''brelse'')
       else bindE (releasesleep ''buffer'' b s1) (\<lambda>s2.
            bindE (lk_acquire L_bcache s2) (\<lambda>s3.
              let s4 = upd_buf b (\<lambda>x. x\<lparr>b_refcnt := b_refcnt x - 1\<rparr>) s3;
                  s5 = (if b_refcnt (bcache s4 b) = 0 then link_front b (unlink b s4) else s4)
              in lk_release L_bcache s5)))"

definition bpin :: "nat \<Rightarrow> 'z kbuf_scheme \<Rightarrow> 'z kbuf_scheme res" where
  "bpin b s =
     bindE (lk_acquire L_bcache s) (\<lambda>s1.
       lk_release L_bcache (upd_buf b (\<lambda>x. x\<lparr>b_refcnt := b_refcnt x + 1\<rparr>) s1))"

definition bunpin :: "nat \<Rightarrow> 'z kbuf_scheme \<Rightarrow> 'z kbuf_scheme res" where
  "bunpin b s =
     bindE (lk_acquire L_bcache s) (\<lambda>s1.
       lk_release L_bcache (upd_buf b (\<lambda>x. x\<lparr>b_refcnt := b_refcnt x - 1\<rparr>) s1))"

section \<open>The linked list\<close>

fun dseg :: "(nat \<Rightarrow> nat) \<Rightarrow> (nat \<Rightarrow> nat) \<Rightarrow> nat \<Rightarrow> nat list \<Rightarrow> nat \<Rightarrow> bool" where
  "dseg nx pv a [] z \<longleftrightarrow> nx a = z \<and> pv z = a"
| "dseg nx pv a (x # xs) z \<longleftrightarrow> nx a = x \<and> pv x = a \<and> dseg nx pv x xs z"

definition dring :: "(nat \<Rightarrow> nat) \<Rightarrow> (nat \<Rightarrow> nat) \<Rightarrow> nat \<Rightarrow> nat list \<Rightarrow> bool" where
  "dring nx pv h xs \<longleftrightarrow> dseg nx pv h xs h \<and> distinct (h # xs)"

lemma dseg_append: "dseg nx pv a (xs @ x # ys) z \<longleftrightarrow> dseg nx pv a xs x \<and> dseg nx pv x ys z"
  by (induction xs arbitrary: a) auto

lemma dseg_frame:
  "dseg nx pv a xs z \<Longrightarrow> (\<And>y. y = a \<or> y \<in> set xs \<Longrightarrow> nx' y = nx y) \<Longrightarrow> (\<And>y. y = z \<or> y \<in> set xs \<Longrightarrow> pv' y = pv y) \<Longrightarrow>
   dseg nx' pv' a xs z"
  by (induction xs arbitrary: a) auto

text \<open>The last node before the end of a segment.\<close>

lemma dseg_snoc: "dseg nx pv a (xs @ [y]) z \<longleftrightarrow> dseg nx pv a xs y \<and> nx y = z \<and> pv z = y"
  by (simp add: dseg_append)

lemma dring_unlink:
  assumes "dring nx pv h (xs @ b # ys)" "nx' = nx(pv b := nx b)" "pv' = pv(nx b := pv b)"
  shows "dring nx' pv' h (xs @ ys)"
proof -
  have d: "distinct (h # xs @ b # ys)" and s: "dseg nx pv h xs b" "dseg nx pv b ys h"
    using assms(1) by (auto simp: dring_def dseg_append)
  obtain p xs' where p: "h # xs = xs' @ [p]" by (metis append_butlast_last_id list.distinct(1))
  obtain q ys' where q: "ys @ [h] = q # ys'" by (cases ys) auto
  have pb: "pv b = p" and nb: "nx b = q" using s p q
    by (cases xs rule: rev_cases; auto simp: dseg_snoc; fail) (use s q in \<open>cases ys; auto\<close>)
  show ?thesis
  proof (cases ys)
    case Nil
    then have "q = h" using q by simp
    show ?thesis
    proof (cases xs rule: rev_cases)
      case Nil': Nil
      then show ?thesis using Nil p pb nb \<open>q = h\<close> assms by (auto simp: dring_def)
    next
      case (snoc zs z)
      then have "z = p" using p by (cases xs') auto
      then show ?thesis using Nil snoc s d pb nb \<open>q = h\<close> assms(2,3)
        by (auto simp: dring_def dseg_snoc elim!: dseg_frame)
    qed
  next
    case (Cons y zs)
    then have "q = y" using q by simp
    show ?thesis
    proof (cases xs rule: rev_cases)
      case Nil
      then show ?thesis using Cons p pb nb s d \<open>q = y\<close> assms(2,3) by (auto simp: dring_def elim!: dseg_frame)
    next
      case (snoc us u)
      then have "u = p" using p by (cases xs') auto
      then show ?thesis using Cons snoc s d pb nb \<open>q = y\<close> assms(2,3)
        by (auto simp: dring_def dseg_append elim!: dseg_frame)
    qed
  qed
qed

lemma dring_link_front:
  assumes "dring nx pv h xs" "b \<notin> set (h # xs)" "nx' = nx(b := nx h, h := b)" "pv' = pv(b := h, nx h := b)"
  shows "dring nx' pv' h (b # xs)"
  using assms by (cases xs) (auto simp: dring_def elim!: dseg_frame)

declare bget_cached.simps [simp del] bget_unused.simps [simp del]

section \<open>The cache as the file system sees it\<close>

definition cached :: "'z kbuf_scheme \<Rightarrow> u32 \<Rightarrow> nat \<Rightarrow> bool" where
  "cached s n b \<longleftrightarrow> b < NBUF \<and> b_dev (bcache s b) = ROOTDEV \<and> b_blockno (bcache s b) = n"

definition bufof :: "'z kbuf_scheme \<Rightarrow> u32 \<Rightarrow> nat option" where
  "bufof s n = find (\<lambda>b. b_dev (bcache s b) = ROOTDEV \<and> b_blockno (bcache s b) = n) [0..<NBUF]"

definition blk :: "'z kbuf_scheme \<Rightarrow> u32 \<Rightarrow> u8 list" where
  "blk s n = (case bufof s n of None \<Rightarrow> disk s n
     | Some b \<Rightarrow> if b_valid (bcache s b) then b_data (bcache s b) else disk s n)"

definition refs :: "'z kbuf_scheme \<Rightarrow> u32 \<Rightarrow> u32" where
  "refs s n = (case bufof s n of None \<Rightarrow> 0 | Some b \<Rightarrow> b_refcnt (bcache s b))"

definition lckd :: "'z kbuf_scheme \<Rightarrow> u32 \<Rightarrow> bool" where
  "lckd s n = (case bufof s n of None \<Rightarrow> False | Some b \<Rightarrow> sl_locked (slock s ''buffer'' b))"

text \<open>
  The invariant: the list is a ring of all buffers, no block is cached twice, an unused buffer is
  unlocked and, if valid, equal to the disk.
\<close>

definition buf_ok :: "(u32 \<Rightarrow> u8 list) \<Rightarrow> buf \<Rightarrow> bool \<Rightarrow> bool" where
  "buf_ok d x lk \<longleftrightarrow> length (b_data x) = BSIZE \<and> (b_dev x = 0 \<or> b_dev x = ROOTDEV) \<and>
     (b_dev x = 0 \<longrightarrow> \<not> b_valid x \<and> b_refcnt x = 0) \<and>
     (b_refcnt x = 0 \<longrightarrow> \<not> lk \<and> (b_valid x \<longrightarrow> b_data x = d (b_blockno x)))"

definition bc_ok :: "'z kbuf_scheme \<Rightarrow> bool" where
  "bc_ok s \<longleftrightarrow> (\<exists>xs. dring (nxt s) (prv s) bhead xs \<and> set xs = {..<NBUF}) \<and>
     inj_on (\<lambda>b. b_blockno (bcache s b)) {b. b < NBUF \<and> b_dev (bcache s b) = ROOTDEV} \<and>
     (\<forall>b < NBUF. buf_ok (disk s) (bcache s b) (sl_locked (slock s ''buffer'' b))) \<and>
     (\<forall>n. length (disk s n) = BSIZE)"

text \<open>\<open>bsame s s'\<close>: only buffers, buffer locks and the states of sleeping processes changed.\<close>

definition bsame :: "'z kbuf_scheme \<Rightarrow> 'z kbuf_scheme \<Rightarrow> bool" where
  "bsame s s' \<longleftrightarrow> (\<exists>bc sl pt. s' = s\<lparr>bcache := bc, slock := sl, ptable := pt\<rparr> \<and>
     (\<forall>j. psame (ptable s j) (pt j)) \<and> (\<forall>nm. nm \<noteq> ''buffer'' \<longrightarrow> sl nm = slock s nm))"

text \<open>\<open>holds s b n\<close>: the running process holds buffer \<open>b\<close>, which has block \<open>n\<close>.\<close>

definition holds :: "'z kbuf_scheme \<Rightarrow> nat \<Rightarrow> u32 \<Rightarrow> bool" where
  "holds s b n \<longleftrightarrow> cached s n b \<and> b_valid (bcache s b) \<and> b_refcnt (bcache s b) \<noteq> 0 \<and> mine s ''buffer'' b"

lemma cached_unique: "bc_ok s \<Longrightarrow> cached s n b \<Longrightarrow> cached s n b' \<Longrightarrow> b' = b"
  unfolding bc_ok_def cached_def inj_on_def by blast

lemma bufof_cached: "bc_ok s \<Longrightarrow> cached s n b \<Longrightarrow> bufof s n = Some b"
proof -
  assume "bc_ok s" "cached s n b"
  moreover have "bufof s n \<noteq> None" using \<open>cached s n b\<close> by (auto simp: bufof_def cached_def find_None_iff)
  then obtain b' where "bufof s n = Some b'" by blast
  moreover from this have "cached s n b'" by (auto simp: bufof_def cached_def find_Some_iff)
  ultimately show ?thesis using cached_unique by metis
qed

lemma bufof_none: "\<forall>b. \<not> cached s n b \<Longrightarrow> bufof s n = None"
  by (auto simp: bufof_def cached_def find_None_iff)

lemma view_cached:
  assumes "bc_ok s" "cached s n b"
  shows "blk s n = (if b_valid (bcache s b) then b_data (bcache s b) else disk s n)"
    "refs s n = b_refcnt (bcache s b)" "lckd s n = sl_locked (slock s ''buffer'' b)"
  using bufof_cached [OF assms] by (simp_all add: blk_def refs_def lckd_def)

lemma view_none:
  assumes "\<forall>b. \<not> cached s n b"
  shows "blk s n = disk s n" "refs s n = 0" "lckd s n = False"
  using bufof_none [OF assms] by (simp_all add: blk_def refs_def lckd_def)

lemma bsame_refl [simp]: "bsame s s"
  unfolding bsame_def by (intro exI [of _ "bcache s"] exI [of _ "slock s"] exI [of _ "ptable s"]) simp

lemma bsameE:
  assumes "bsame s s'"
  obtains bc sl pt where "s' = s\<lparr>bcache := bc, slock := sl, ptable := pt\<rparr>" "\<And>j. psame (ptable s j) (pt j)"
    "\<And>nm. nm \<noteq> ''buffer'' \<Longrightarrow> sl nm = slock s nm"
proof -
  from assms obtain bc sl pt where a: "s' = s\<lparr>bcache := bc, slock := sl, ptable := pt\<rparr> \<and>
     (\<forall>j. psame (ptable s j) (pt j)) \<and> (\<forall>nm. nm \<noteq> ''buffer'' \<longrightarrow> sl nm = slock s nm)"
    unfolding bsame_def by (elim exE)
  show thesis by (rule that [of pt sl bc]) (use a in simp_all)
qed

lemma bsameI:
  "s' = s\<lparr>bcache := bc, slock := sl, ptable := pt\<rparr> \<Longrightarrow> (\<And>j. psame (ptable s j) (pt j)) \<Longrightarrow>
   (\<And>nm. nm \<noteq> ''buffer'' \<Longrightarrow> sl nm = slock s nm) \<Longrightarrow> bsame s s'"
  unfolding bsame_def by (intro exI [of _ bc] exI [of _ sl] exI [of _ pt]) simp

lemma bsame_trans:
  assumes "bsame s t" "bsame t u"
  shows "bsame s u"
proof (rule bsameE [OF assms(1)], rule bsameE [OF assms(2)])
  fix bc sl pt bc' sl' pt'
  assume t: "t = s\<lparr>bcache := bc, slock := sl, ptable := pt\<rparr>" "\<And>j. psame (ptable s j) (pt j)"
      "\<And>nm. nm \<noteq> ''buffer'' \<Longrightarrow> sl nm = slock s nm"
    and u: "u = t\<lparr>bcache := bc', slock := sl', ptable := pt'\<rparr>" "\<And>j. psame (ptable t j) (pt' j)"
      "\<And>nm. nm \<noteq> ''buffer'' \<Longrightarrow> sl' nm = slock t nm"
  have "psame (ptable s j) (pt' j)" for j using t(2) u(2) psame_trans by (simp add: t(1)) blast
  then show ?thesis unfolding bsame_def
    using t(3) u(3) by (intro exI [of _ bc'] exI [of _ sl'] exI [of _ pt']) (simp add: t(1) u(1))
qed

lemma bsame_fields:
  assumes "bsame s s'"
  shows "cur s' = cur s" "held s' = held s" "disk s' = disk s" "dwrites s' = dwrites s" "pmem s' = pmem s"
    "psame (ptable s j) (ptable s' j)" "p_pid (ptable s' j) = p_pid (ptable s j)" "nm \<noteq> ''buffer'' \<Longrightarrow> slock s' nm = slock s nm"
  by (rule bsameE [OF assms]; simp add: psame_fields)+

lemma bsame_running: "bsame s s' \<Longrightarrow> running s p \<Longrightarrow> running s' p"
  using bsame_fields(1,2) [of s s'] by (simp add: running_def)

section \<open>The scans of \<^verbatim>\<open>bget\<close>\<close>

lemma bget_cached_find:
  assumes "dseg (nxt s) (prv s) a xs bhead" "bhead \<notin> set xs" "length xs < fuel"
  shows "bget_cached fuel dev n (nxt s a) s =
    Inr (find (\<lambda>b. b_dev (bcache s b) = dev \<and> b_blockno (bcache s b) = n) xs)"
  using assms
proof (induction xs arbitrary: a fuel)
  case Nil
  then show ?case by (cases fuel) (auto simp: bget_cached.simps)
next
  case (Cons x xs)
  then obtain f where "fuel = Suc f" "length xs < f" by (cases fuel) auto
  then show ?case using Cons by (auto simp: bget_cached.simps)
qed

lemma bget_unused_find:
  assumes "dseg (nxt s) (prv s) bhead xs z" "bhead \<notin> set xs" "length xs < fuel"
  shows "bget_unused fuel (prv s z) s = Inr (find (\<lambda>b. b_refcnt (bcache s b) = 0) (rev xs))"
  using assms
proof (induction xs arbitrary: z fuel rule: rev_induct)
  case Nil
  then show ?case by (cases fuel) (auto simp: bget_unused.simps)
next
  case (snoc x xs)
  then obtain f where "fuel = Suc f" "length xs < f" by (cases fuel) auto
  then show ?case using snoc by (auto simp: dseg_snoc bget_unused.simps)
qed

lemma bc_ok_scan:
  assumes "bc_ok s"
  shows "bget_cached (Suc NBUF) ROOTDEV n (nxt s bhead) s = Inr (bufof s n)"
    and "\<exists>u. bget_unused (Suc NBUF) (prv s bhead) s = Inr u \<and>
      (case u of None \<Rightarrow> \<forall>b < NBUF. b_refcnt (bcache s b) \<noteq> 0 | Some b \<Rightarrow> b < NBUF \<and> b_refcnt (bcache s b) = 0)"
proof -
  obtain xs where xs: "dring (nxt s) (prv s) bhead xs" "set xs = {..<NBUF}" using assms by (auto simp: bc_ok_def)
  have d: "distinct xs" "bhead \<notin> set xs" "dseg (nxt s) (prv s) bhead xs bhead" using xs by (auto simp: dring_def)
  have l: "length xs = NBUF" using d(1) xs(2) distinct_card [of xs] by simp
  let ?P = "\<lambda>b. b_dev (bcache s b) = ROOTDEV \<and> b_blockno (bcache s b) = n"
  have "find ?P xs = bufof s n"
  proof (cases "find ?P xs")
    case None
    then have "\<forall>b. \<not> cached s n b" using xs(2) by (auto simp: find_None_iff cached_def)
    then show ?thesis using None bufof_none by metis
  next
    case (Some b)
    then have "b \<in> set xs \<and> ?P b" by (auto simp: find_Some_iff)
    then have "cached s n b" using xs(2) by (auto simp: cached_def)
    then show ?thesis using Some bufof_cached assms by metis
  qed
  then show "bget_cached (Suc NBUF) ROOTDEV n (nxt s bhead) s = Inr (bufof s n)"
    using bget_cached_find [OF d(3,2), of "Suc NBUF" ROOTDEV n] l by simp
  have "case find (\<lambda>b. b_refcnt (bcache s b) = 0) (rev xs) of None \<Rightarrow> \<forall>b < NBUF. b_refcnt (bcache s b) \<noteq> 0
      | Some b \<Rightarrow> b < NBUF \<and> b_refcnt (bcache s b) = 0"
  proof (cases "find (\<lambda>b. b_refcnt (bcache s b) = 0) (rev xs)")
    case None
    then have "\<forall>b < NBUF. b_refcnt (bcache s b) \<noteq> 0" using xs(2) by (auto simp: find_None_iff)
    then show ?thesis using None by simp
  next
    case (Some b)
    then have "b \<in> set (rev xs) \<and> b_refcnt (bcache s b) = 0" by (auto simp: find_Some_iff) (metis nth_mem length_rev set_rev)
    then show ?thesis using Some xs(2) by auto
  qed
  then show "\<exists>u. bget_unused (Suc NBUF) (prv s bhead) s = Inr u \<and>
      (case u of None \<Rightarrow> \<forall>b < NBUF. b_refcnt (bcache s b) \<noteq> 0 | Some b \<Rightarrow> b < NBUF \<and> b_refcnt (bcache s b) = 0)"
    using bget_unused_find [OF d(3,2), of "Suc NBUF"] l by simp
qed

section \<open>Changing one buffer\<close>

text \<open>\<open>put_buf b x lk s s'\<close>: \<open>s'\<close> has buffer \<open>b\<close> replaced by \<open>x\<close>, linked as before, with its lock as
  \<open>lk\<close> says; the invariant of \<open>b\<close> holds and no other buffer has its block.\<close>

definition put_buf :: "nat \<Rightarrow> buf \<Rightarrow> bool \<Rightarrow> 'z kbuf_scheme \<Rightarrow> 'z kbuf_scheme \<Rightarrow> bool" where
  "put_buf b x lk s s' \<longleftrightarrow> b < NBUF \<and> bcache s' = (bcache s)(b := x) \<and> b_next x = nxt s b \<and> b_prev x = prv s b \<and>
     disk s' = disk s \<and> (\<forall>b'. b' \<noteq> b \<longrightarrow> slock s' ''buffer'' b' = slock s ''buffer'' b') \<and>
     sl_locked (slock s' ''buffer'' b) = lk \<and> buf_ok (disk s) x lk \<and>
     (b_dev x = ROOTDEV \<longrightarrow> (\<forall>b'. b' \<noteq> b \<longrightarrow> \<not> cached s (b_blockno x) b'))"

lemma put_buf_ok:
  assumes ok: "bc_ok s" and p: "put_buf b x lk s s'"
  shows "bc_ok s'"
proof -
  have c: "bcache s' = (bcache s)(b := x)" "b_next x = nxt s b" "b_prev x = prv s b" "disk s' = disk s" "b < NBUF"
    using p by (auto simp: put_buf_def)
  have "nxt s' = nxt s" "prv s' = prv s" using c by auto
  then have "\<exists>xs. dring (nxt s') (prv s') bhead xs \<and> set xs = {..<NBUF}" using ok by (simp add: bc_ok_def)
  moreover have "inj_on (\<lambda>b. b_blockno (bcache s' b)) {b. b < NBUF \<and> b_dev (bcache s' b) = ROOTDEV}"
  proof (rule inj_onI)
    fix u v
    assume u: "u \<in> {b. b < NBUF \<and> b_dev (bcache s' b) = ROOTDEV}" and v: "v \<in> {b. b < NBUF \<and> b_dev (bcache s' b) = ROOTDEV}"
      and e: "b_blockno (bcache s' u) = b_blockno (bcache s' v)"
    have oth: "\<And>b'. b_dev x = ROOTDEV \<Longrightarrow> b' \<noteq> b \<Longrightarrow> \<not> cached s (b_blockno x) b'" using p by (auto simp: put_buf_def)
    show "u = v"
    proof (cases "u = b \<or> v = b")
      case True
      then show ?thesis using u v e oth [of u] oth [of v] c(1) by (auto simp: cached_def split: if_splits)
    next
      case False
      then have "cached s (b_blockno (bcache s u)) u" "cached s (b_blockno (bcache s u)) v" using u v e c(1) by (auto simp: cached_def)
      then show ?thesis using cached_unique [OF ok] by metis
    qed
  qed
  moreover have "buf_ok (disk s') (bcache s' b') (sl_locked (slock s' ''buffer'' b'))" if "b' < NBUF" for b'
    using p ok that by (cases "b' = b") (auto simp: put_buf_def bc_ok_def)
  ultimately show ?thesis using ok c(4) by (simp add: bc_ok_def)
qed

lemma put_buf_view:
  assumes ok: "bc_ok s" and p: "put_buf b x lk s s'" and k: "b_dev x = ROOTDEV" "b_blockno x = n"
    and old: "cached s n b \<or> b_refcnt (bcache s b) = 0"
  shows "blk s' = (blk s)(n := if b_valid x then b_data x else disk s n)"
    "refs s' = (refs s)(n := b_refcnt x)" "lckd s' = (lckd s)(n := lk)"
proof -
  note ok' = put_buf_ok [OF ok p]
  have d: "bcache s' = (bcache s)(b := x)" "disk s' = disk s" "b < NBUF" "sl_locked (slock s' ''buffer'' b) = lk"
    "\<And>b'. b' \<noteq> b \<Longrightarrow> slock s' ''buffer'' b' = slock s ''buffer'' b'" using p by (auto simp: put_buf_def)
  have b: "cached s' n b" using d k by (simp add: cached_def)
  have oth: "b' \<noteq> b \<Longrightarrow> cached s' m b' = cached s m b'" for m b' using d(1) by (simp add: cached_def)
  have "blk s' m = (if m = n then if b_valid x then b_data x else disk s n else blk s m) \<and>
      refs s' m = (if m = n then b_refcnt x else refs s m) \<and> lckd s' m = (if m = n then lk else lckd s m)" for m
  proof (cases "m = n")
    case True
    then show ?thesis using view_cached [OF ok' b] d by simp
  next
    case ne: False
    then have nb: "\<not> cached s' m b" using d(1) k by (simp add: cached_def)
    show ?thesis
    proof (cases "\<exists>b'. cached s' m b'")
      case True
      then obtain b' where b': "cached s' m b'" by blast
      then have "b' \<noteq> b" using nb by auto
      then show ?thesis using ne view_cached [OF ok' b'] view_cached [OF ok, of m b'] oth b' d by simp
    next
      case none: False
      then have n': "blk s' m = disk s m" "refs s' m = 0" "lckd s' m = False" using view_none [of s' m] d(2) by auto
      show ?thesis
      proof (cases "cached s m b")
        case True
        then have "b_refcnt (bcache s b) = 0" using old ne by (auto simp: cached_def)
        moreover have "buf_ok (disk s) (bcache s b) (sl_locked (slock s ''buffer'' b))" using ok d(3) by (simp add: bc_ok_def)
        ultimately show ?thesis using n' ne view_cached [OF ok True] True by (auto simp: buf_ok_def cached_def)
      next
        case False
        then have "\<forall>b'. \<not> cached s m b'" using none oth by metis
        from view_none [OF this] show ?thesis using n' ne by simp
      qed
    qed
  qed
  then show "blk s' = (blk s)(n := if b_valid x then b_data x else disk s n)"
    "refs s' = (refs s)(n := b_refcnt x)" "lckd s' = (lckd s)(n := lk)" by auto
qed

section \<open>The operations\<close>

text \<open>The state after \<^verbatim>\<open>bread\<close> returned buffer \<open>b\<close>, which became \<open>x\<close>.\<close>

definition locked_buf :: "nat \<Rightarrow> nat \<Rightarrow> buf \<Rightarrow> 'z kbuf_scheme \<Rightarrow> 'z kbuf_scheme" where
  "locked_buf p b x s =
     set_slock ''buffer'' b \<lparr>sl_locked = True, sl_pid = p_pid (ptable s p)\<rparr> (s\<lparr>bcache := (bcache s)(b := x)\<rparr>)"

lemma locked_buf_sel [simp]:
  "bcache (locked_buf p b x s) = (bcache s)(b := x)" "disk (locked_buf p b x s) = disk s" "cur (locked_buf p b x s) = cur s"
  "ptable (locked_buf p b x s) = ptable s"
  "slock (locked_buf p b x s) ''buffer'' b' = (if b' = b then \<lparr>sl_locked = True, sl_pid = p_pid (ptable s p)\<rparr> else slock s ''buffer'' b')"
  by (simp_all add: locked_buf_def set_slock_def)

lemma bsame_locked_buf: "bsame s (locked_buf p b x s)"
  unfolding bsame_def locked_buf_def set_slock_def
  by (intro exI [of _ "(bcache s)(b := x)"]
      exI [of _ "(slock s)(''buffer'' := (slock s ''buffer'')(b := \<lparr>sl_locked = True, sl_pid = p_pid (ptable s p)\<rparr>))"]
      exI [of _ "ptable s"]) simp

lemma bget_ok:
  assumes ok: "bc_ok s" and run: "running s p" and e: "0 < fst e" and free: "\<not> lckd s n"
    and av: "refs s n \<noteq> 0 \<or> (\<exists>b < NBUF. b_refcnt (bcache s b) = 0)"
  obtains b x where "bget e ROOTDEV n s = Inr (b, locked_buf p b x s)"
    "cached s n b \<and> x = (bcache s b)\<lparr>b_refcnt := b_refcnt (bcache s b) + 1\<rparr> \<or>
     (\<forall>b'. \<not> cached s n b') \<and> b < NBUF \<and> b_refcnt (bcache s b) = 0 \<and>
     x = (bcache s b)\<lparr>b_dev := ROOTDEV, b_blockno := n, b_valid := False, b_refcnt := 1\<rparr>"
proof -
  let ?s1 = "s\<lparr>held := L_bcache # held s\<rparr>"
  have ok1: "bc_ok ?s1" using ok by (simp add: bc_ok_def)
  have bo: "bufof ?s1 n = bufof s n" by (simp add: bufof_def)
  have nb: "L_bcache \<notin> set (held s)" using running_free(3) [OF run] .
  note sc = bc_ok_scan(1) [OF ok1, of n, unfolded bo] bc_ok_scan(2) [OF ok1]
  have asl: "acquiresleep e ''buffer'' b (s\<lparr>bcache := c\<rparr>) =
      Inr (set_slock ''buffer'' b \<lparr>sl_locked = True, sl_pid = p_pid (ptable s p)\<rparr> (s\<lparr>bcache := c\<rparr>))"
    if "\<not> sl_locked (slock s ''buffer'' b)" for b c
    using acquiresleep_free [of "s\<lparr>bcache := c\<rparr>" p "''buffer''" b e] run that e by (simp add: running_def)
  show thesis
  proof (cases "bufof s n")
    case (Some b)
    then have c: "cached s n b" by (auto simp: bufof_def cached_def find_Some_iff)
    then have "\<not> sl_locked (slock s ''buffer'' b)" using free view_cached(3) [OF ok] by simp
    then have "bget e ROOTDEV n s = Inr (b, locked_buf p b ((bcache s b)\<lparr>b_refcnt := b_refcnt (bcache s b) + 1\<rparr>) s)"
      using sc(1) Some nb asl by (simp add: bget_def upd_buf_def locked_buf_def)
    then show thesis using that c by blast
  next
    case None
    then have nc: "\<forall>b'. \<not> cached s n b'" using bufof_cached [OF ok] by force
    then have "refs s n = 0" using view_none by blast
    then have ex: "\<exists>b < NBUF. b_refcnt (bcache s b) = 0" using av by simp
    obtain u where u: "bget_unused (Suc NBUF) (prv ?s1 bhead) ?s1 = Inr u"
      "case u of None \<Rightarrow> \<forall>b < NBUF. b_refcnt (bcache ?s1 b) \<noteq> 0 | Some b \<Rightarrow> b < NBUF \<and> b_refcnt (bcache ?s1 b) = 0"
      using sc(2) by blast
    then obtain b where b: "u = Some b" "b < NBUF" "b_refcnt (bcache s b) = 0" using ex by (cases u) auto
    then have "\<not> sl_locked (slock s ''buffer'' b)" using ok by (auto simp: bc_ok_def buf_ok_def)
    then have "bget e ROOTDEV n s =
        Inr (b, locked_buf p b ((bcache s b)\<lparr>b_dev := ROOTDEV, b_blockno := n, b_valid := False, b_refcnt := 1\<rparr>) s)"
      using sc(1) None u(1) b nb asl by (simp add: bget_def upd_buf_def locked_buf_def)
    then show thesis using that b nc by blast
  qed
qed

lemma upd_locked_buf: "upd_buf b f (locked_buf p b x s) = locked_buf p b (f x) s"
  by (simp add: upd_buf_def locked_buf_def set_slock_def)

lemma buf_okD: "bc_ok s \<Longrightarrow> b < NBUF \<Longrightarrow> buf_ok (disk s) (bcache s b) (sl_locked (slock s ''buffer'' b))"
  by (simp add: bc_ok_def)

lemma cached_ROOTDEV: "cached s n b \<Longrightarrow> b < NBUF" "cached s n b \<Longrightarrow> b_dev (bcache s b) = ROOTDEV"
  "cached s n b \<Longrightarrow> b_blockno (bcache s b) = n"
  by (simp_all add: cached_def)

text \<open>\<open>others b s s'\<close>: the buffers other than \<open>b\<close> are as they were, but for their links.\<close>

definition bsim :: "buf \<Rightarrow> buf \<Rightarrow> bool" where
  "bsim x y \<longleftrightarrow> x\<lparr>b_next := 0, b_prev := 0\<rparr> = y\<lparr>b_next := 0, b_prev := 0\<rparr>"

definition others :: "nat \<Rightarrow> 'z kbuf_scheme \<Rightarrow> 'z kbuf_scheme \<Rightarrow> bool" where
  "others b s s' \<longleftrightarrow> (\<forall>b'. b' \<noteq> b \<longrightarrow> bsim (bcache s b') (bcache s' b') \<and> slock s' ''buffer'' b' = slock s ''buffer'' b')"

lemma bsim_refl [simp]: "bsim x x"
  and bsim_next [simp]: "bsim x (y\<lparr>b_next := v\<rparr>) = bsim x y"
  and bsim_prev [simp]: "bsim x (y\<lparr>b_prev := v\<rparr>) = bsim x y"
  by (simp_all add: bsim_def)

lemma bsim_fields:
  assumes "bsim x y"
  shows "b_valid y = b_valid x" "b_dev y = b_dev x" "b_blockno y = b_blockno x" "b_refcnt y = b_refcnt x" "b_data y = b_data x"
  using assms by (cases x; cases y; simp add: bsim_def)+

lemma holds_others:
  assumes "others b s s'" "bsame s s'" "b' \<noteq> b" "holds s b' m"
  shows "holds s' b' m" "b_data (bcache s' b') = b_data (bcache s b')"
proof -
  have b: "bsim (bcache s b') (bcache s' b')" "slock s' ''buffer'' b' = slock s ''buffer'' b'" using assms by (auto simp: others_def)
  show "holds s' b' m" "b_data (bcache s' b') = b_data (bcache s b')"
    using assms(4) bsim_fields [OF b(1)] b(2) bsame_fields [OF assms(2)] by (auto simp: holds_def cached_def mine_def)
qed

lemma holds_ne: "holds s b n \<Longrightarrow> holds s b' m \<Longrightarrow> n \<noteq> m \<Longrightarrow> b' \<noteq> b"
  by (auto simp: holds_def cached_def)

text \<open>\<open>got s n b s'\<close>: what \<^verbatim>\<open>bread\<close> of block \<open>n\<close> does when it returns buffer \<open>b\<close>.\<close>

definition got :: "'z kbuf_scheme \<Rightarrow> u32 \<Rightarrow> nat \<Rightarrow> 'z kbuf_scheme \<Rightarrow> bool" where
  "got s n b s' \<longleftrightarrow> bsame s s' \<and> bc_ok s' \<and> holds s' b n \<and> b_data (bcache s' b) = blk s n \<and> blk s' = blk s \<and>
     refs s' = (refs s)(n := refs s n + 1) \<and> lckd s' = (lckd s)(n := True) \<and>
     others b s s'"

lemma got_locked_buf:
  assumes ok: "bc_ok s" and run: "running s p" and r: "refs s n + 1 \<noteq> 0" and b: "b < NBUF"
    and c: "cached s n b \<or> (\<forall>b'. \<not> cached s n b') \<and> b_refcnt (bcache s b) = 0"
    and x: "x = (bcache s b)\<lparr>b_dev := ROOTDEV, b_blockno := n, b_valid := True, b_refcnt := refs s n + 1, b_data := blk s n\<rparr>"
  shows "got s n b (locked_buf p b x s)"
proof -
  have len: "length (blk s n) = BSIZE"
    using ok c buf_okD [OF ok b] view_cached(1) [OF ok, of n b] view_none(1) [of s n] by (auto simp: bc_ok_def buf_ok_def)
  have "\<not> cached s n b'" if "b' \<noteq> b" for b' using c that cached_unique [OF ok, of n b b'] by auto
  then have p: "put_buf b x True s (locked_buf p b x s)"
    using b r len by (auto simp: put_buf_def x buf_ok_def ROOTDEV_def)
  have old: "cached s n b \<or> b_refcnt (bcache s b) = 0" using c by auto
  have xs: "b_dev x = ROOTDEV" "b_blockno x = n" by (simp_all add: x)
  note v = put_buf_view [OF ok p xs old]
  have "mine (locked_buf p b x s) ''buffer'' b" using run by (auto simp: mine_def running_def)
  then have "holds (locked_buf p b x s) b n" using b r by (simp add: holds_def cached_def x)
  then show ?thesis
    using put_buf_ok [OF ok p] v bsame_locked_buf by (auto simp: got_def x others_def)
qed

lemma bread_ok:
  assumes ok: "bc_ok s" and run: "running s p" and e: "0 < fst e" and free: "\<not> lckd s n"
    and av: "refs s n \<noteq> 0 \<or> (\<exists>b < NBUF. b_refcnt (bcache s b) = 0)" and r: "refs s n + 1 \<noteq> 0"
  obtains b s' where "bread e ROOTDEV n s = Inr (b, s')" "got s n b s'"
proof -
  obtain b x where g: "bget e ROOTDEV n s = Inr (b, locked_buf p b x s)"
    and x: "cached s n b \<and> x = (bcache s b)\<lparr>b_refcnt := b_refcnt (bcache s b) + 1\<rparr> \<or>
     (\<forall>b'. \<not> cached s n b') \<and> b < NBUF \<and> b_refcnt (bcache s b) = 0 \<and>
     x = (bcache s b)\<lparr>b_dev := ROOTDEV, b_blockno := n, b_valid := False, b_refcnt := 1\<rparr>"
    using bget_ok [OF ok run e free av] by metis
  define y where "y = (bcache s b)\<lparr>b_dev := ROOTDEV, b_blockno := n, b_valid := True, b_refcnt := refs s n + 1, b_data := blk s n\<rparr>"
  have b: "b < NBUF" using x by (auto simp: cached_def)
  have bn: "b_blockno x = n" using x by (auto simp: cached_def)
  have y: "y = (if b_valid x then x else x\<lparr>b_data := disk s n, b_valid := True\<rparr>)"
    using x
  proof
    assume a: "cached s n b \<and> x = (bcache s b)\<lparr>b_refcnt := b_refcnt (bcache s b) + 1\<rparr>"
    then show ?thesis using view_cached [OF ok, of n b] cached_ROOTDEV [of s n b] by (cases "bcache s b") (simp add: y_def)
  next
    assume "(\<forall>b'. \<not> cached s n b') \<and> b < NBUF \<and> b_refcnt (bcache s b) = 0 \<and>
     x = (bcache s b)\<lparr>b_dev := ROOTDEV, b_blockno := n, b_valid := False, b_refcnt := 1\<rparr>"
    then show ?thesis using view_none [of s n] by (simp add: y_def)
  qed
  have "bread e ROOTDEV n s = Inr (b, locked_buf p b y s)"
    using g bn y by (simp add: bread_def disk_rw_def upd_locked_buf)
  moreover have "got s n b (locked_buf p b y s)"
    by (rule got_locked_buf [OF ok run r b _ y_def]) (use x in auto)
  ultimately show thesis by (rule that)
qed

lemma link_sel [simp]:
  "nxt (set_next a v s) x = (if x = a then v else nxt s x)" "prv (set_next a v s) x = prv s x"
  "nxt (set_prev a v s) x = nxt s x" "prv (set_prev a v s) x = (if x = a then v else prv s x)"
  by (simp_all add: set_next_def set_prev_def upd_buf_def)

lemma bsim_links [simp]:
  "bsim x (bcache (set_next a v s) b) = bsim x (bcache s b)" "bsim x (bcache (set_prev a v s) b) = bsim x (bcache s b)"
  by (auto simp: set_next_def set_prev_def upd_buf_def)

lemma relink_held: "link_front b (unlink b (s\<lparr>held := h\<rparr>)) = (link_front b (unlink b s))\<lparr>held := h\<rparr>"
  by (simp add: link_front_def unlink_def Let_def set_next_def set_prev_def upd_buf_def)

lemma relink:
  assumes "dring (nxt s) (prv s) bhead xs" "b \<in> set xs"
  obtains c where "link_front b (unlink b s) = s\<lparr>bcache := c\<rparr>" "\<And>b'. bsim (bcache s b') (c b')"
    "dring (\<lambda>b. b_next (c b)) (\<lambda>b. b_prev (c b)) bhead (b # remove1 b xs)"
proof -
  let ?u = "unlink b s" and ?t = "link_front b (unlink b s)"
  obtain us vs where xs: "xs = us @ b # vs" using assms(2) by (meson split_list)
  have d: "distinct (bhead # us @ b # vs)" using assms(1) xs by (simp add: dring_def)
  have "nxt s b \<noteq> b" using assms(1) d unfolding xs dring_def dseg_append by (cases vs) auto
  then have u: "nxt ?u = (nxt s)(prv s b := nxt s b)" "prv ?u = (prv s)(nxt s b := prv s b)"
    by (auto simp: unlink_def Let_def fun_eq_iff)
  have r1: "dring (nxt ?u) (prv ?u) bhead (us @ vs)" by (rule dring_unlink [OF assms(1) [unfolded xs] u])
  have t: "nxt ?t = (nxt ?u)(b := nxt ?u bhead, bhead := b)" "prv ?t = (prv ?u)(b := bhead, nxt ?u bhead := b)"
    using d by (auto simp: link_front_def Let_def fun_eq_iff)
  have r2: "dring (nxt ?t) (prv ?t) bhead (b # us @ vs)" by (rule dring_link_front [OF r1 _ t]) (use d in auto)
  have rm: "remove1 b xs = us @ vs" using d xs by (simp add: remove1_append)
  have "?t = s\<lparr>bcache := bcache ?t\<rparr>" by (simp add: link_front_def unlink_def Let_def set_next_def set_prev_def upd_buf_def)
  moreover have "bsim (bcache s b') (bcache ?t b')" for b' by (simp add: link_front_def unlink_def Let_def)
  ultimately show thesis using r2 rm by (intro that [of "bcache ?t"]) auto
qed

lemma relink_view:
  assumes ok: "bc_ok s" and sim: "\<And>b. bsim (bcache s b) (c b)"
    and r: "dring (\<lambda>b. b_next (c b)) (\<lambda>b. b_prev (c b)) bhead ys" "set ys = {..<NBUF}"
  shows "bc_ok (s\<lparr>bcache := c\<rparr>)" "blk (s\<lparr>bcache := c\<rparr>) = blk s" "refs (s\<lparr>bcache := c\<rparr>) = refs s" "lckd (s\<lparr>bcache := c\<rparr>) = lckd s"
proof -
  have f: "b_valid (c b) = b_valid (bcache s b)" "b_dev (c b) = b_dev (bcache s b)" "b_blockno (c b) = b_blockno (bcache s b)"
    "b_refcnt (c b) = b_refcnt (bcache s b)" "b_data (c b) = b_data (bcache s b)" for b using bsim_fields [OF sim] by auto
  have o: "buf_ok d (c b) l = buf_ok d (bcache s b) l" for d b l by (simp add: buf_ok_def f)
  show "bc_ok (s\<lparr>bcache := c\<rparr>)" using ok r by (auto simp: bc_ok_def f o)
  have "bufof (s\<lparr>bcache := c\<rparr>) = bufof s" by (simp add: bufof_def f fun_eq_iff)
  then show "blk (s\<lparr>bcache := c\<rparr>) = blk s" "refs (s\<lparr>bcache := c\<rparr>) = refs s" "lckd (s\<lparr>bcache := c\<rparr>) = lckd s"
    by (auto simp: blk_def refs_def lckd_def f fun_eq_iff split: option.splits)
qed

text \<open>\<open>gave s n b s'\<close>: what \<^verbatim>\<open>brelse\<close> of buffer \<open>b\<close> with block \<open>n\<close> does.\<close>

definition gave :: "'z kbuf_scheme \<Rightarrow> u32 \<Rightarrow> nat \<Rightarrow> 'z kbuf_scheme \<Rightarrow> bool" where
  "gave s n b s' \<longleftrightarrow> bsame s s' \<and> bc_ok s' \<and> blk s' = blk s \<and> refs s' = (refs s)(n := refs s n - 1) \<and>
     lckd s' = (lckd s)(n := False) \<and> others b s s'"

lemma holds_view:
  assumes "bc_ok s" "holds s b n"
  shows "b_data (bcache s b) = blk s n" "b_refcnt (bcache s b) = refs s n" "refs s n \<noteq> 0" "b < NBUF" "lckd s n"
  using assms view_cached [OF assms(1), of n b] by (auto simp: holds_def cached_def mine_def)

lemma brelse_ok:
  assumes ok: "bc_ok s" and run: "running s p" and h: "holds s b n" and clean: "refs s n = 1 \<Longrightarrow> blk s n = disk s n"
  obtains s' where "brelse b s = Inr s'" "gave s n b s'"
proof -
  define x where "x = (bcache s b)\<lparr>b_refcnt := b_refcnt (bcache s b) - 1\<rparr>"
  note hv = holds_view [OF ok h]
  have c: "cached s n b" and m: "mine s ''buffer'' b" and v: "b_valid (bcache s b)" using h by (auto simp: holds_def)
  obtain t where t: "releasesleep ''buffer'' b s = Inr ((set_slock ''buffer'' b \<lparr>sl_locked = False, sl_pid = 0\<rparr> s)\<lparr>ptable := t\<rparr>)"
    "\<And>j. psame (ptable s j) (t j)" using releasesleep_ok [OF run] by metis
  define s4 where "s4 = ((set_slock ''buffer'' b \<lparr>sl_locked = False, sl_pid = 0\<rparr> s)\<lparr>ptable := t\<rparr>)\<lparr>bcache := (bcache s)(b := x)\<rparr>"
  have "b_refcnt x = 0 \<Longrightarrow> refs s n = 1" using hv(2) by (simp add: x_def)
  then have "b_refcnt x = 0 \<Longrightarrow> b_data x = disk s (b_blockno x)" using clean hv(1) c by (simp add: x_def cached_def)
  moreover have "b_dev x = ROOTDEV" "length (b_data x) = BSIZE" using buf_okD [OF ok hv(4)] c by (simp_all add: buf_ok_def x_def cached_def)
  ultimately have bo: "buf_ok (disk s) x False" by (simp add: buf_ok_def ROOTDEV_def)
  have oth: "\<not> cached s n b'" if "b' \<noteq> b" for b' using that cached_unique [OF ok c] by metis
  have xk: "b_dev x = ROOTDEV" "b_blockno x = n" using c by (simp_all add: x_def cached_def)
  have p: "put_buf b x False s s4"
    using hv(4) oth bo xk(2) by (simp add: put_buf_def s4_def set_slock_def) (simp add: x_def)
  note ok4 = put_buf_ok [OF ok p] and v4 = put_buf_view [OF ok p xk disjI1 [OF c]]
  have blk4: "blk s4 = blk s" "refs s4 = (refs s)(n := refs s n - 1)" using v4 v hv by (auto simp: x_def)
  define s5 where "s5 = (if b_refcnt x = 0 then link_front b (unlink b s4) else s4)"
  obtain c' where s5: "s5 = s4\<lparr>bcache := c'\<rparr>" "\<And>b'. bsim (bcache s4 b') (c' b')"
    and ok5: "bc_ok s5" "blk s5 = blk s4" "refs s5 = refs s4" "lckd s5 = lckd s4"
  proof (cases "b_refcnt x = 0")
    case True
    obtain xs where xs: "dring (nxt s4) (prv s4) bhead xs" "set xs = {..<NBUF}" using ok4 by (auto simp: bc_ok_def)
    then obtain c' where c': "link_front b (unlink b s4) = s4\<lparr>bcache := c'\<rparr>" "\<And>b'. bsim (bcache s4 b') (c' b')"
      "dring (\<lambda>b. b_next (c' b)) (\<lambda>b. b_prev (c' b)) bhead (b # remove1 b xs)" using relink hv(4) by (metis lessThan_iff)
    have "set (b # remove1 b xs) = {..<NBUF}" using xs hv(4) by (auto simp: dring_def)
    then show thesis using that [of c'] c' True relink_view [OF ok4 c'(2,3)] by (simp add: s5_def)
  next
    case False
    then show thesis using that [of "bcache s4"] ok4 by (simp add: s5_def)
  qed
  have "brelse b s = Inr s5"
  proof -
    let ?s2 = "(set_slock ''buffer'' b \<lparr>sl_locked = False, sl_pid = 0\<rparr> s)\<lparr>ptable := t\<rparr>"
    have a: "lk_acquire L_bcache ?s2 = Inr (?s2\<lparr>held := L_bcache # held s\<rparr>)"
      using running_free(3) [OF run] by (simp add: set_slock_def)
    have u: "upd_buf b (\<lambda>x. x\<lparr>b_refcnt := b_refcnt x - 1\<rparr>) (?s2\<lparr>held := L_bcache # held s\<rparr>) = s4\<lparr>held := L_bcache # held s\<rparr>"
      by (simp add: s4_def upd_buf_def set_slock_def x_def)
    have h4: "held s4 = held s" "bcache s4 b = x" by (simp_all add: s4_def set_slock_def)
    have "held s5 = held s" using s5(1) h4 by simp
    then have "s5\<lparr>held := held s\<rparr> = s5" by simp
    then have r: "lk_release L_bcache (s5\<lparr>held := L_bcache # held s\<rparr>) = Inr s5" by simp
    have "b_refcnt x = 0 \<Longrightarrow> link_front b (unlink b (s4\<lparr>held := L_bcache # held s\<rparr>)) = s5\<lparr>held := L_bcache # held s\<rparr>"
      "b_refcnt x \<noteq> 0 \<Longrightarrow> s4 = s5" by (simp_all add: s5_def relink_held)
    then show ?thesis using m t(1) a u r h4
      by (cases "b_refcnt x = 0") (simp_all add: brelse_def holdingsleep_mine [OF run] Let_def del: lk_acquire_free lk_release_top)
  qed
  moreover have "bsame s s5" unfolding bsame_def s5(1) s4_def set_slock_def
    by (intro exI [of _ c'] exI [of _ "(slock s)(''buffer'' := (slock s ''buffer'')(b := \<lparr>sl_locked = False, sl_pid = 0\<rparr>))"]
        exI [of _ t]) (simp add: t(2))
  moreover have "others b s s5"
    using s5(2) unfolding others_def s5(1) by (auto simp: s4_def set_slock_def split: if_splits) metis
  ultimately show thesis using that ok5 blk4 v4(3) by (simp add: gave_def)
qed

text \<open>Storing into the data of a held buffer, and pinning.\<close>

definition set_data :: "nat \<Rightarrow> u8 list \<Rightarrow> 'z kbuf_scheme \<Rightarrow> 'z kbuf_scheme" where
  "set_data b d s = upd_buf b (\<lambda>x. x\<lparr>b_data := d\<rparr>) s"

lemma bsame_bcache: "bsame s (s\<lparr>bcache := c\<rparr>)"
  unfolding bsame_def by (intro exI [of _ c] exI [of _ "slock s"] exI [of _ "ptable s"]) simp

lemma change_held_buf:
  assumes ok: "bc_ok s" and h: "holds s b n" and x: "b_valid x" "b_refcnt x \<noteq> 0" "length (b_data x) = BSIZE"
    and k: "b_dev x = ROOTDEV" "b_blockno x = n" and l: "b_next x = nxt s b" "b_prev x = prv s b"
    and s': "s' = s\<lparr>bcache := (bcache s)(b := x)\<rparr>"
  shows "bsame s s'" "bc_ok s'" "holds s' b n" "others b s s'" "blk s' = (blk s)(n := b_data x)"
    "refs s' = (refs s)(n := b_refcnt x)" "lckd s' = lckd s"
proof -
  have c: "cached s n b" and m: "mine s ''buffer'' b" using h by (auto simp: holds_def)
  have oth: "\<not> cached s n b'" if "b' \<noteq> b" for b' using that cached_unique [OF ok c] by metis
  have "sl_locked (slock s ''buffer'' b)" using m by (simp add: mine_def)
  then have p: "put_buf b x True s s'"
    using holds_view(4) [OF ok h] oth x k l by (simp add: put_buf_def s' buf_ok_def ROOTDEV_def)
  show "bsame s s'" by (simp add: s' bsame_bcache)
  show "bc_ok s'" by (rule put_buf_ok [OF ok p])
  show "holds s' b n" using m x k holds_view(4) [OF ok h] by (simp add: holds_def s' cached_def mine_def)
  show "others b s s'" by (simp add: others_def s')
  have "lckd s n" by (rule holds_view(5) [OF ok h])
  then show "blk s' = (blk s)(n := b_data x)" "refs s' = (refs s)(n := b_refcnt x)" "lckd s' = lckd s"
    using put_buf_view [OF ok p k disjI1 [OF c]] x(1) by (auto simp: fun_upd_idem)
qed

lemma set_data_ok:
  assumes "bc_ok s" "holds s b n" "length d = BSIZE"
  shows "bsame s (set_data b d s)" "bc_ok (set_data b d s)" "holds (set_data b d s) b n" "others b s (set_data b d s)"
    "blk (set_data b d s) = (blk s)(n := d)" "refs (set_data b d s) = refs s" "lckd (set_data b d s) = lckd s"
proof -
  let ?x = "(bcache s b)\<lparr>b_data := d\<rparr>"
  have x: "b_valid ?x" "b_refcnt ?x \<noteq> 0" "length (b_data ?x) = BSIZE" "b_dev ?x = ROOTDEV" "b_blockno ?x = n"
    "b_next ?x = nxt s b" "b_prev ?x = prv s b" using assms(2,3) by (auto simp: holds_def cached_def)
  have e: "set_data b d s = s\<lparr>bcache := (bcache s)(b := ?x)\<rparr>" by (simp add: set_data_def upd_buf_def)
  note c = change_held_buf [OF assms(1,2) x e]
  have "refs s n = b_refcnt ?x" using holds_view(2) [OF assms(1,2)] by simp
  then have "(refs s)(n := b_refcnt ?x) = refs s" by (simp add: fun_upd_idem)
  then show "refs (set_data b d s) = refs s" using c(6) by simp
  show "bsame s (set_data b d s)" "bc_ok (set_data b d s)" "holds (set_data b d s) b n" "others b s (set_data b d s)"
    "blk (set_data b d s) = (blk s)(n := d)" "lckd (set_data b d s) = lckd s"
    using c(1-5,7) by simp_all
qed

lemma bpin_ok:
  assumes ok: "bc_ok s" and run: "running s p" and h: "holds s b n" and r: "refs s n + 1 \<noteq> 0"
  obtains s' where "bpin b s = Inr s'" "bsame s s'" "bc_ok s'" "holds s' b n" "others b s s'" "blk s' = blk s"
    "refs s' = (refs s)(n := refs s n + 1)" "lckd s' = lckd s"
proof -
  let ?x = "(bcache s b)\<lparr>b_refcnt := b_refcnt (bcache s b) + 1\<rparr>"
  let ?s = "s\<lparr>bcache := (bcache s)(b := ?x)\<rparr>"
  note hv = holds_view [OF ok h]
  have x: "b_valid ?x" "b_refcnt ?x \<noteq> 0" "length (b_data ?x) = BSIZE" "b_dev ?x = ROOTDEV" "b_blockno ?x = n"
    "b_next ?x = nxt s b" "b_prev ?x = prv s b"
    using h hv r buf_okD [OF ok hv(4)] by (auto simp: holds_def cached_def buf_ok_def)
  note c = change_held_buf [OF ok h x refl]
  have d: "b_data ?x = blk s n" "b_refcnt ?x = refs s n + 1" using hv by simp_all
  have "bpin b s = Inr ?s" using running_free(3) [OF run] by (simp add: bpin_def upd_buf_def)
  then show thesis
  proof (rule that [OF _ c(1-4)])
    show "blk ?s = blk s" using c(5) d(1) by (simp add: fun_upd_idem)
    show "refs ?s = (refs s)(n := refs s n + 1)" using c(6) d(2) by simp
  qed (rule c(7))
qed

lemma bunpin_ok:
  assumes ok: "bc_ok s" and run: "running s p" and h: "holds s b n" and r: "refs s n \<noteq> 1"
  obtains s' where "bunpin b s = Inr s'" "bsame s s'" "bc_ok s'" "holds s' b n" "others b s s'" "blk s' = blk s"
    "refs s' = (refs s)(n := refs s n - 1)" "lckd s' = lckd s"
proof -
  let ?x = "(bcache s b)\<lparr>b_refcnt := b_refcnt (bcache s b) - 1\<rparr>"
  let ?s = "s\<lparr>bcache := (bcache s)(b := ?x)\<rparr>"
  note hv = holds_view [OF ok h]
  have x: "b_valid ?x" "b_refcnt ?x \<noteq> 0" "length (b_data ?x) = BSIZE" "b_dev ?x = ROOTDEV" "b_blockno ?x = n"
    "b_next ?x = nxt s b" "b_prev ?x = prv s b"
    using h hv r buf_okD [OF ok hv(4)] by (auto simp: holds_def cached_def buf_ok_def)
  note c = change_held_buf [OF ok h x refl]
  have d: "b_data ?x = blk s n" "b_refcnt ?x = refs s n - 1" using hv by simp_all
  have "bunpin b s = Inr ?s" using running_free(3) [OF run] by (simp add: bunpin_def upd_buf_def)
  then show thesis
  proof (rule that [OF _ c(1-4)])
    show "blk ?s = blk s" using c(5) d(1) by (simp add: fun_upd_idem)
    show "refs ?s = (refs s)(n := refs s n - 1)" using c(6) d(2) by simp
  qed (rule c(7))
qed

lemma bwrite_ok:
  assumes ok: "bc_ok s" and run: "running s p" and h: "holds s b n"
  shows "bwrite b s = Inr (s\<lparr>disk := (disk s)(n := blk s n), dwrites := dwrites s @ [(n, blk s n)]\<rparr>)"
    "bc_ok (s\<lparr>disk := (disk s)(n := blk s n), dwrites := dwrites s @ [(n, blk s n)]\<rparr>)"
    "blk (s\<lparr>disk := (disk s)(n := blk s n), dwrites := w\<rparr>) = blk s"
proof -
  note hv = holds_view [OF ok h]
  have c: "cached s n b" and v: "b_valid (bcache s b)" and m: "mine s ''buffer'' b" using h by (auto simp: holds_def)
  show "bwrite b s = Inr (s\<lparr>disk := (disk s)(n := blk s n), dwrites := dwrites s @ [(n, blk s n)]\<rparr>)"
    using m hv(1) cached_ROOTDEV(3) [OF c] by (simp add: bwrite_def holdingsleep_mine [OF run] disk_rw_def Let_def)
  have oth: "b_blockno (bcache s b') \<noteq> n \<or> b_dev (bcache s b') = 0" if "b' \<noteq> b" "b' < NBUF" for b'
    using that cached_unique [OF ok c, of b'] buf_okD [OF ok that(2)] by (auto simp: cached_def buf_ok_def)
  have "buf_ok ((disk s)(n := blk s n)) (bcache s b') (sl_locked (slock s ''buffer'' b'))" if "b' < NBUF" for b'
    using buf_okD [OF ok that] oth [OF _ that] hv(2,3) by (cases "b' = b") (auto simp: buf_ok_def)
  moreover have "length (blk s n) = BSIZE" using hv(1) buf_okD [OF ok hv(4)] by (simp add: buf_ok_def)
  ultimately show "bc_ok (s\<lparr>disk := (disk s)(n := blk s n), dwrites := dwrites s @ [(n, blk s n)]\<rparr>)"
    using ok by (simp add: bc_ok_def)
  have "bufof (s\<lparr>disk := d, dwrites := w\<rparr>) = bufof s" for d by (simp add: bufof_def fun_eq_iff)
  then show "blk (s\<lparr>disk := (disk s)(n := blk s n), dwrites := w\<rparr>) = blk s"
    by (auto simp: blk_def fun_eq_iff split: option.splits)
qed

section \<open>How many buffers are in use\<close>

definition busy :: "'z kbuf_scheme \<Rightarrow> u32 set" where
  "busy s = {n. refs s n \<noteq> 0}"

lemma busy_card:
  assumes "bc_ok s"
  shows "card (busy s) = card {b. b < NBUF \<and> b_refcnt (bcache s b) \<noteq> 0}"
proof -
  let ?B = "{b. b < NBUF \<and> b_refcnt (bcache s b) \<noteq> 0}" and ?f = "\<lambda>b. b_blockno (bcache s b)"
  have dev: "b_dev (bcache s b) = ROOTDEV" if "b \<in> ?B" for b
    using buf_okD [OF assms, of b] that by (auto simp: buf_ok_def)
  then have c: "cached s (?f b) b" if "b \<in> ?B" for b using that by (simp add: cached_def)
  have "inj_on ?f ?B"
  proof (rule inj_onI)
    fix u v assume uv: "u \<in> ?B" "v \<in> ?B" "?f u = ?f v"
    have "cached s (?f v) u" using c [OF uv(1)] uv(3) by simp
    from cached_unique [OF assms this c [OF uv(2)]] show "u = v" by simp
  qed
  moreover have "?f ` ?B = busy s"
  proof (intro equalityI subsetI)
    fix n assume "n \<in> ?f ` ?B"
    then obtain b where "b \<in> ?B" "n = ?f b" by blast
    then show "n \<in> busy s" using view_cached(2) [OF assms c [OF \<open>b \<in> ?B\<close>]] by (simp add: busy_def)
  next
    fix n assume "n \<in> busy s"
    then have "refs s n \<noteq> 0" by (simp add: busy_def)
    then obtain b where "cached s n b" using view_none(2) [of s n] by blast
    then have "n = ?f b" "b \<in> ?B" using view_cached(2) [OF assms, of n b] \<open>refs s n \<noteq> 0\<close> by (simp_all add: cached_def)
    then show "n \<in> ?f ` ?B" by (rule image_eqI)
  qed
  ultimately show ?thesis using card_image [of ?f ?B] by simp
qed

lemma buffer_free: "bc_ok s \<Longrightarrow> card (busy s) < NBUF \<Longrightarrow> \<exists>b < NBUF. b_refcnt (bcache s b) = 0"
proof (rule ccontr)
  assume a: "bc_ok s" "card (busy s) < NBUF" "\<not> (\<exists>b < NBUF. b_refcnt (bcache s b) = 0)"
  then have "{b. b < NBUF \<and> b_refcnt (bcache s b) \<noteq> 0} = {..<NBUF}" by auto
  then show False using a(2) busy_card [OF a(1)] by simp
qed

lemma busy_finite: "bc_ok s \<Longrightarrow> finite (busy s)"
proof -
  assume ok: "bc_ok s"
  have "busy s \<subseteq> (\<lambda>b. b_blockno (bcache s b)) ` {..<NBUF}"
  proof
    fix n assume "n \<in> busy s"
    then obtain b where "cached s n b" using view_none(2) [of s n] by (auto simp: busy_def)
    then show "n \<in> (\<lambda>b. b_blockno (bcache s b)) ` {..<NBUF}" by (auto simp: cached_def)
  qed
  then show ?thesis using finite_surj by auto
qed

text \<open>\<^verbatim>\<open>bread\<close> and \<^verbatim>\<open>brelse\<close> in terms of the view only.\<close>

lemma bread_view:
  assumes "bc_ok s" "running s p" "0 < fst e" "\<not> lckd s n" "refs s n \<noteq> 0 \<or> card (busy s) < NBUF" "refs s n + 1 \<noteq> 0"
  obtains b s' where "bread e ROOTDEV n s = Inr (b, s')" "got s n b s'" "running s' p"
proof -
  have "refs s n \<noteq> 0 \<or> (\<exists>b < NBUF. b_refcnt (bcache s b) = 0)" using assms(5) buffer_free [OF assms(1)] by auto
  from bread_ok [OF assms(1-4) this assms(6)] obtain b s' where r: "bread e ROOTDEV n s = Inr (b, s')" "got s n b s'" .
  have "bsame s s'" using r(2) by (simp add: got_def)
  then show thesis using that [OF r] bsame_running assms(2) by blast
qed

lemma idle_clean:
  assumes ok: "bc_ok s" and r: "refs s n = 0"
  shows "blk s n = disk s n"
proof (cases "\<exists>b. cached s n b")
  case True
  then obtain b where c: "cached s n b" by blast
  note v = view_cached [OF ok c]
  have "buf_ok (disk s) (bcache s b) (sl_locked (slock s ''buffer'' b))" using buf_okD [OF ok] c by (simp add: cached_def)
  then show ?thesis using v r cached_ROOTDEV(3) [OF c] by (simp add: buf_ok_def)
next
  case False
  then show ?thesis using view_none(1) by blast
qed

section \<open>\<^verbatim>\<open>binit\<close>\<close>

lemma link_front_ring:
  assumes "dring (nxt s) (prv s) bhead xs" "b \<notin> set (bhead # xs)"
  shows "dring (nxt (link_front b s)) (prv (link_front b s)) bhead (b # xs)"
proof (rule dring_link_front [OF assms])
  show "nxt (link_front b s) = (nxt s)(b := nxt s bhead, bhead := b)"
    "prv (link_front b s) = (prv s)(b := bhead, nxt s bhead := b)"
    using assms(2) by (auto simp: link_front_def Let_def fun_eq_iff)
qed

lemma link_front_sel [simp]:
  "bsim x (bcache (link_front b s) b') = bsim x (bcache s b')" "disk (link_front b s) = disk s"
  "slock (link_front b s) = slock s" "held (link_front b s) = held s" "cur (link_front b s) = cur s"
  by (simp_all add: link_front_def Let_def) (simp_all add: set_next_def set_prev_def upd_buf_def)

lemma initsleeplock_sel [simp]:
  "bcache (initsleeplock nm b s) = bcache s" "disk (initsleeplock nm b s) = disk s"
  "held (initsleeplock nm b s) = held s" "cur (initsleeplock nm b s) = cur s"
  by (simp_all add: initsleeplock_def set_slock_def)

lemma binit_fold:
  assumes "dring (nxt s) (prv s) bhead xs" "distinct bs" "set bs \<inter> set (bhead # xs) = {}"
  shows "\<exists>t. fold (\<lambda>b t. link_front b (initsleeplock ''buffer'' b t)) bs s = t \<and>
    dring (nxt t) (prv t) bhead (rev bs @ xs) \<and> (\<forall>b. bsim (bcache s b) (bcache t b)) \<and> disk t = disk s \<and>
    held t = held s \<and> cur t = cur s \<and>
    (\<forall>b. sl_locked (slock t ''buffer'' b) \<longrightarrow> b \<notin> set bs \<and> sl_locked (slock s ''buffer'' b))"
  using assms
proof (induction bs arbitrary: s xs)
  case (Cons b bs)
  let ?s = "link_front b (initsleeplock ''buffer'' b s)"
  have r: "dring (nxt ?s) (prv ?s) bhead (b # xs)" using Cons.prems by (intro link_front_ring) auto
  obtain t where "fold (\<lambda>b t. link_front b (initsleeplock ''buffer'' b t)) bs ?s = t"
    "dring (nxt t) (prv t) bhead (rev bs @ b # xs)" "\<forall>b. bsim (bcache ?s b) (bcache t b)" "disk t = disk ?s"
    "held t = held ?s" "cur t = cur ?s"
    "\<forall>b. sl_locked (slock t ''buffer'' b) \<longrightarrow> b \<notin> set bs \<and> sl_locked (slock ?s ''buffer'' b)"
    using Cons.IH [OF r] Cons.prems by auto
  moreover have "bsim (bcache s c) (bcache ?s c)" for c by simp
  ultimately show ?case
    by (intro exI [of _ t]) (auto simp: bsim_def initsleeplock_def set_slock_def split: if_splits)
qed auto

lemma binit_establishes:
  assumes z: "\<forall>b < NBUF. b_dev (bcache s b) = 0 \<and> \<not> b_valid (bcache s b) \<and> b_refcnt (bcache s b) = 0 \<and> length (b_data (bcache s b)) = BSIZE"
    and d: "\<forall>n. length (disk s n) = BSIZE"
  shows "bc_ok (binit s)" "dring (nxt (binit s)) (prv (binit s)) bhead (rev [0..<NBUF])" "blk (binit s) = disk s"
    "refs (binit s) n = 0" "lckd (binit s) n = False" "held (binit s) = held s" "cur (binit s) = cur s"
    "b < NBUF \<Longrightarrow> b_refcnt (bcache (binit s) b) = 0" "disk (binit s) = disk s" "b < NBUF \<Longrightarrow> b_dev (bcache (binit s) b) = 0"
    "b < NBUF \<Longrightarrow> \<not> sl_locked (slock (binit s) ''buffer'' b)"
proof -
  let ?s = "set_next bhead bhead (set_prev bhead bhead s)"
  have r0: "dring (nxt ?s) (prv ?s) bhead []" by (simp add: dring_def)
  have e: "fold (\<lambda>b t. link_front b (initsleeplock ''buffer'' b t)) [0..<NBUF] ?s = binit s" by (simp add: binit_def Let_def)
  have t: "dring (nxt (binit s)) (prv (binit s)) bhead (rev [0..<NBUF])" "\<And>b. bsim (bcache ?s b) (bcache (binit s) b)"
    "disk (binit s) = disk ?s" "held (binit s) = held ?s" "cur (binit s) = cur ?s"
    "\<And>b. sl_locked (slock (binit s) ''buffer'' b) \<Longrightarrow> b \<notin> set [0..<NBUF]"
    using binit_fold [OF r0, of "[0..<NBUF]"] e by (auto simp: bhead_def)
  have s: "disk ?s = disk s" "held ?s = held s" "cur ?s = cur s" by (simp_all add: set_next_def set_prev_def upd_buf_def)
  have bs: "bsim (bcache s b) (bcache (binit s) b)" for b using t(2) [of b] by (simp add: bsim_def set_next_def set_prev_def upd_buf_def split: if_splits)
  have f: "b_dev (bcache (binit s) b) = 0" "\<not> b_valid (bcache (binit s) b)" "b_refcnt (bcache (binit s) b) = 0"
    "length (b_data (bcache (binit s) b)) = BSIZE" "\<not> sl_locked (slock (binit s) ''buffer'' b)" if "b < NBUF" for b
    using z that bsim_fields [OF bs [of b]] t(6) [of b] by auto
  show "dring (nxt (binit s)) (prv (binit s)) bhead (rev [0..<NBUF])" by (rule t(1))
  moreover have "set (rev [0..<NBUF]) = {..<NBUF}" by auto
  moreover have em: "{b. b < NBUF \<and> b_dev (bcache (binit s) b) = ROOTDEV} = {}" using f(1) by (auto simp: ROOTDEV_def)
  ultimately show "bc_ok (binit s)" using f d t(3) s(1) unfolding bc_ok_def em by (auto simp: buf_ok_def)
  have nc: "\<forall>b. \<not> cached (binit s) m b" for m using em by (auto simp: cached_def)
  show "blk (binit s) = disk s" using view_none(1) [OF nc] t(3) s(1) by auto
  show "refs (binit s) n = 0" "lckd (binit s) n = False" using view_none [OF nc] by auto
  show "held (binit s) = held s" "cur (binit s) = cur s" "b < NBUF \<Longrightarrow> b_refcnt (bcache (binit s) b) = 0" "disk (binit s) = disk s"
    "b < NBUF \<Longrightarrow> b_dev (bcache (binit s) b) = 0" "b < NBUF \<Longrightarrow> \<not> sl_locked (slock (binit s) ''buffer'' b)"
    using t s f by auto
qed

section \<open>Properties\<close>

text \<open>A machine before \<^verbatim>\<open>binit\<close>: process 0 runs, all buffers are zero, the disk has block \<open>n\<close> filled with \<open>n\<close>.\<close>

definition kbuf_raw :: kbuf where
  "kbuf_raw = \<lparr>held = [], pmem = (\<lambda>_. 0), freelist = 0, k_end = 0x80021d60, k_etext = 0x80008000,
     k_trampoline = 0x80007000, kernel_pagetable = 0, satp = 0, u_out = [], u_in = [],
     tx_idle = [], panicked = False, pr_locking = True, ptable = proc_at, nextpid = 4,
     initproc = Some 0, cur = Some 0, sched_pointer = rr_impl, forkret_first = False, ticks = 0,
     nswitch = 0, k_forkret = 0x80001000, pipes = Map.empty, slock = (\<lambda>_ _. \<lparr>sl_locked = False, sl_pid = 0\<rparr>),
     bcache = (\<lambda>_. \<lparr>b_valid = False, b_disk = False, b_dev = 0, b_blockno = 0, b_refcnt = 0, b_prev = 0, b_next = 0,
                  b_data = replicate BSIZE 0\<rparr>),
     disk = (\<lambda>n. replicate BSIZE (ucast n)), dwrites = []\<rparr>"

definition kbuf0 :: kbuf where "kbuf0 = binit kbuf_raw"

text \<open>C38: \<^verbatim>\<open>binit\<close> links all buffers into one ring, the last one initialised first in it, and sets up an
  empty, consistent cache: every block reads as the disk has it and no block is referenced or locked.\<close>

theorem binit_correct:
  assumes "\<forall>b < NBUF. b_dev (bcache s b) = 0 \<and> \<not> b_valid (bcache s b) \<and> b_refcnt (bcache s b) = 0 \<and> length (b_data (bcache s b)) = BSIZE"
    and "\<forall>n. length (disk s n) = BSIZE"
  shows "bc_ok (binit s) \<and> dring (nxt (binit s)) (prv (binit s)) bhead (rev [0..<NBUF]) \<and>
    blk (binit s) = disk s \<and> refs (binit s) n = 0 \<and> \<not> lckd (binit s) n"
  using binit_establishes [OF assms] by simp

lemma kbuf_raw_facts:
  "\<forall>b < NBUF. b_dev (bcache kbuf_raw b) = 0 \<and> \<not> b_valid (bcache kbuf_raw b) \<and> b_refcnt (bcache kbuf_raw b) = 0 \<and>
     length (b_data (bcache kbuf_raw b)) = BSIZE" "\<forall>n. length (disk kbuf_raw n) = BSIZE"
  by (simp_all add: kbuf_raw_def)

lemma kbuf0_facts:
  "bc_ok kbuf0" "blk kbuf0 = disk kbuf_raw" "refs kbuf0 n = 0" "\<not> lckd kbuf0 n" "running kbuf0 0"
  "b < NBUF \<Longrightarrow> b_refcnt (bcache kbuf0 b) = 0" "disk kbuf0 = disk kbuf_raw"
  using binit_establishes [OF kbuf_raw_facts] by (simp_all add: kbuf0_def running_def) (simp_all add: kbuf_raw_def)

theorem binit_correct_witness:
  "bc_ok (binit kbuf_raw) \<and> dring (nxt (binit kbuf_raw)) (prv (binit kbuf_raw)) bhead (rev [0..<NBUF]) \<and>
    blk (binit kbuf_raw) = disk kbuf_raw \<and> refs (binit kbuf_raw) 7 = 0 \<and> \<not> lckd (binit kbuf_raw) 7"
  by (rule binit_correct [OF kbuf_raw_facts])

text \<open>C2: The cache implements an array of blocks. \<^verbatim>\<open>bread\<close> of a block nobody has locked, while a buffer can
  be had, returns a buffer locked by the caller with the block's current content, whichever buffer had to
  be recycled. A store of \<open>d\<close> into it, \<^verbatim>\<open>bwrite\<close> or not, and \<^verbatim>\<open>brelse\<close> then change exactly that block to \<open>d\<close>:
  on the disk, with one disk write, if \<^verbatim>\<open>bwrite\<close> was called, and only in the cache if not (for a changed
  block the caller must then have a second reference to it, as \<^verbatim>\<open>bpin\<close> takes). Invariant, references and
  locks are as before.\<close>

theorem bcache_transparent:
  assumes "bc_ok s" "running s p" "0 < fst e" "\<not> lckd s n" "refs s n + 1 \<noteq> 0"
    and "refs s n \<noteq> 0 \<or> (\<exists>b < NBUF. b_refcnt (bcache s b) = 0)"
    and "length d = BSIZE" "w \<or> d = blk s n \<or> refs s n \<noteq> 0"
  shows "\<exists>b s1 s2 s3. bread e ROOTDEV n s = Inr (b, s1) \<and> b_data (bcache s1 b) = blk s n \<and> mine s1 ''buffer'' b \<and>
    bc_ok s1 \<and> blk s1 = blk s \<and> disk s1 = disk s \<and>
    (if w then bwrite b (set_data b d s1) else Inr (set_data b d s1)) = Inr s2 \<and> brelse b s2 = Inr s3 \<and>
    bc_ok s3 \<and> blk s3 = (blk s)(n := d) \<and> refs s3 = refs s \<and> lckd s3 = lckd s \<and>
    disk s3 = (if w then (disk s)(n := d) else disk s) \<and> dwrites s3 = dwrites s @ (if w then [(n, d)] else [])"
proof -
  obtain b s1 where r: "bread e ROOTDEV n s = Inr (b, s1)" "got s n b s1" using bread_ok assms(1-6) by metis
  then have g: "bsame s s1" "bc_ok s1" "holds s1 b n" "b_data (bcache s1 b) = blk s n" "blk s1 = blk s"
    "refs s1 = (refs s)(n := refs s n + 1)" "lckd s1 = (lckd s)(n := True)" by (auto simp: got_def)
  define t where "t = set_data b d s1"
  note so = set_data_ok [OF g(2,3) assms(7), folded t_def]
  have run: "running t p" using bsame_running g(1) so(1) assms(2) by blast
  have sd: "disk s1 = disk s" "disk t = disk s" "dwrites t = dwrites s"
    using bsame_fields(3,4) [OF g(1)] bsame_fields(3,4) [OF so(1)] by simp_all
  define s2 where "s2 = (if w then t\<lparr>disk := (disk t)(n := blk t n), dwrites := dwrites t @ [(n, blk t n)]\<rparr> else t)"
  have w2: "(if w then bwrite b t else Inr t) = Inr s2" "bc_ok s2" "blk s2 = (blk s)(n := d)"
    using bwrite_ok [OF so(2) run so(3)] so(2,5) g(5) by (simp_all add: s2_def)
  have vw: "refs (t\<lparr>disk := a, dwrites := c\<rparr>) = refs t" "lckd (t\<lparr>disk := a, dwrites := c\<rparr>) = lckd t"
    "holds (t\<lparr>disk := a, dwrites := c\<rparr>) b n" "running (t\<lparr>disk := a, dwrites := c\<rparr>) p" for a c
    using so(3) run by (simp_all add: refs_def lckd_def bufof_def holds_def mine_def cached_def running_def fun_eq_iff split: option.split)
  have h2: "holds s2 b n" "running s2 p" "refs s2 = refs s1" "lckd s2 = lckd s1"
    using so(3,6,7) run vw by (simp_all add: s2_def)
  have d2: "disk s2 = (if w then (disk s)(n := d) else disk s)" "dwrites s2 = dwrites s @ (if w then [(n, d)] else [])"
    using sd so(5) by (simp_all add: s2_def)
  have cl: "blk s2 n = disk s2 n" if "refs s2 n = 1"
  proof -
    have "refs s n = 0" using that g(6) h2(3) by simp
    then show ?thesis using idle_clean [OF assms(1)] assms(8) w2(3) d2(1) by auto
  qed
  obtain s3 where r3: "brelse b s2 = Inr s3" "gave s2 n b s3" using brelse_ok [OF w2(2) h2(2,1) cl] .
  then have v3: "bc_ok s3" "blk s3 = blk s2" "refs s3 = refs s" "lckd s3 = lckd s" "bsame s2 s3"
    using g(6,7) h2(3,4) assms(4) by (auto simp: gave_def fun_upd_idem)
  have "mine s1 ''buffer'' b" using g(3) by (simp add: holds_def)
  then show ?thesis using r(1) g(2,4,5) sd(1) w2(1,3) r3(1) v3 d2 bsame_fields(3,4) [OF v3(5)]
    by - (rule exI [of _ b], rule exI [of _ s1], rule exI [of _ s2], rule exI [of _ s3], simp add: t_def split: if_splits)
qed

theorem bcache_transparent_witness:
  "\<exists>b s1 s2 s3. bread (1, id) ROOTDEV 33 kbuf0 = Inr (b, s1) \<and> b_data (bcache s1 b) = blk kbuf0 33 \<and>
    mine s1 ''buffer'' b \<and> bc_ok s1 \<and> blk s1 = blk kbuf0 \<and> disk s1 = disk kbuf0 \<and>
    (if True then bwrite b (set_data b (replicate BSIZE 7) s1) else Inr (set_data b (replicate BSIZE 7) s1)) = Inr s2 \<and>
    brelse b s2 = Inr s3 \<and> bc_ok s3 \<and> blk s3 = (blk kbuf0)(33 := replicate BSIZE 7) \<and> refs s3 = refs kbuf0 \<and>
    lckd s3 = lckd kbuf0 \<and>
    disk s3 = (if True then (disk kbuf0)(33 := replicate BSIZE 7) else disk kbuf0) \<and>
    dwrites s3 = dwrites kbuf0 @ (if True then [(33, replicate BSIZE 7)] else [])"
proof (rule bcache_transparent [OF _ kbuf0_facts(5)])
  show "refs kbuf0 33 \<noteq> 0 \<or> (\<exists>b < NBUF. b_refcnt (bcache kbuf0 b) = 0)"
    using kbuf0_facts(6) [of 0] by (intro disjI2 exI [of _ 0]) (simp add: NBUF_def MAXOPBLOCKS_def)
qed (simp_all add: kbuf0_facts)

end
