(* ===== verification/Log.thy ===== *)
theory Log
  imports Bio
begin

text \<open>
  The redo log, \<^verbatim>\<open>kernel/log.c\<close>. Every function that reads blocks takes the environment of the sleep
  locks; loops over the logged blocks are loops over their indices. The on-disk header is the block
  \<open>l_start\<close>: the number of blocks and their home locations as little-endian integers.
\<close>

section \<open>Definitions\<close>

record superblock =
  sb_magic :: u32
  sb_size :: u32
  sb_nblocks :: u32
  sb_ninodes :: u32
  sb_nlog :: u32
  sb_logstart :: u32
  sb_inodestart :: u32
  sb_bmapstart :: u32

record logstate =
  l_start :: u32
  l_size :: i32
  l_outstanding :: i32
  l_committing :: bool
  l_dev :: u32
  lh_n :: i32
  lh_block :: "u32 list"

record kfslog = kbuf +
  log :: logstate

definition upd_log :: "(logstate \<Rightarrow> logstate) \<Rightarrow> 'z kfslog_scheme \<Rightarrow> 'z kfslog_scheme" where
  "upd_log f s = s\<lparr>log := f (log s)\<rparr>"

abbreviation logged :: "'z kfslog_scheme \<Rightarrow> nat" where
  "logged s \<equiv> nat (sint (lh_n (log s)))"

definition install_one :: "'z kfslog_scheme senv \<Rightarrow> bool \<Rightarrow> nat \<Rightarrow> 'z kfslog_scheme \<Rightarrow> 'z kfslog_scheme res" where
  "install_one e recovering tail s =
     bindE (bread e (l_dev (log s)) (l_start (log s) + of_nat tail + 1) s) (\<lambda>(lbuf, s1).
     bindE (bread e (l_dev (log s1)) (lh_block (log s1) ! tail) s1) (\<lambda>(dbuf, s2).
     bindE (bwrite dbuf (set_data dbuf (b_data (bcache s2 lbuf)) s2)) (\<lambda>s3.
     bindE (if recovering then Inr s3 else bunpin dbuf s3) (\<lambda>s4.
     bindE (brelse lbuf s4) (\<lambda>s5. brelse dbuf s5)))))"

definition install_trans :: "'z kfslog_scheme senv \<Rightarrow> bool \<Rightarrow> 'z kfslog_scheme \<Rightarrow> 'z kfslog_scheme res" where
  "install_trans e recovering s = foldE (install_one e recovering) [0..<logged s] s"

definition read_head :: "'z kfslog_scheme senv \<Rightarrow> 'z kfslog_scheme \<Rightarrow> 'z kfslog_scheme res" where
  "read_head e s =
     bindE (bread e (l_dev (log s)) (l_start (log s)) s) (\<lambda>(b, s1).
       let lh = b_data (bcache s1 b); n = get32 lh 0; k = nat (sint n) in
       if LOGSIZE < k then Inl (Undef ''log.lh.block index'')
       else brelse b (upd_log (\<lambda>l. l\<lparr>lh_n := n,
              lh_block := map (\<lambda>i. get32 lh (4 + 4 * i)) [0..<k] @ drop k (lh_block l)\<rparr>) s1))"

text \<open>The header block \<open>hb\<close> with the first \<open>n\<close> of \<open>bl\<close> stored into it.\<close>

definition put_head :: "i32 \<Rightarrow> u32 list \<Rightarrow> u8 list \<Rightarrow> u8 list" where
  "put_head n bl hb = fold (\<lambda>i d. put32 (4 + 4 * i) (bl ! i) d) [0..<nat (sint n)] (put32 0 n hb)"

definition write_head :: "'z kfslog_scheme senv \<Rightarrow> 'z kfslog_scheme \<Rightarrow> 'z kfslog_scheme res" where
  "write_head e s =
     bindE (bread e (l_dev (log s)) (l_start (log s)) s) (\<lambda>(b, s1).
       let hb = put_head (lh_n (log s1)) (lh_block (log s1)) (b_data (bcache s1 b)) in
       bindE (bwrite b (set_data b hb s1)) (\<lambda>s2. brelse b s2))"

definition recover_from_log :: "'z kfslog_scheme senv \<Rightarrow> 'z kfslog_scheme \<Rightarrow> 'z kfslog_scheme res" where
  "recover_from_log e s =
     bindE (read_head e s) (\<lambda>s1.
     bindE (install_trans e True s1) (\<lambda>s2. write_head e (upd_log (\<lambda>l. l\<lparr>lh_n := 0\<rparr>) s2)))"

definition initlog :: "'z kfslog_scheme senv \<Rightarrow> u32 \<Rightarrow> superblock \<Rightarrow> 'z kfslog_scheme \<Rightarrow> 'z kfslog_scheme res" where
  "initlog e dev sb s =
     (if BSIZE \<le> 4 + 4 * LOGSIZE then Inl (Panic ''initlog: too big logheader'')
      else recover_from_log e (upd_log (\<lambda>l. l\<lparr>l_start := sb_logstart sb, l_size := sb_nlog sb, l_dev := dev\<rparr>) s))"

fun begin_op_loop :: "nat \<Rightarrow> ('z kfslog_scheme \<Rightarrow> 'z kfslog_scheme) \<Rightarrow> 'z kfslog_scheme \<Rightarrow> 'z kfslog_scheme res" where
  "begin_op_loop 0 E s = Inl (Blocked ''begin_op'')"
| "begin_op_loop (Suc fuel) E s =
     (if l_committing (log s) then bindE (sleep E C_log L_log s) (begin_op_loop fuel E)
      else if int LOGSIZE < sint (lh_n (log s)) + (sint (l_outstanding (log s)) + 1) * int MAXOPBLOCKS
      then bindE (sleep E C_log L_log s) (begin_op_loop fuel E)
      else lk_release L_log (upd_log (\<lambda>l. l\<lparr>l_outstanding := l_outstanding l + 1\<rparr>) s))"

definition begin_op :: "'z kfslog_scheme senv \<Rightarrow> 'z kfslog_scheme \<Rightarrow> 'z kfslog_scheme res" where
  "begin_op e s = bindE (lk_acquire L_log s) (begin_op_loop (fst e) (snd e))"

definition write_log_one :: "'z kfslog_scheme senv \<Rightarrow> nat \<Rightarrow> 'z kfslog_scheme \<Rightarrow> 'z kfslog_scheme res" where
  "write_log_one e tail s =
     bindE (bread e (l_dev (log s)) (l_start (log s) + of_nat tail + 1) s) (\<lambda>(dst, s1).
     bindE (bread e (l_dev (log s1)) (lh_block (log s1) ! tail) s1) (\<lambda>(from, s2).
     bindE (bwrite dst (set_data dst (b_data (bcache s2 from)) s2)) (\<lambda>s3.
     bindE (brelse from s3) (\<lambda>s4. brelse dst s4))))"

definition write_log :: "'z kfslog_scheme senv \<Rightarrow> 'z kfslog_scheme \<Rightarrow> 'z kfslog_scheme res" where
  "write_log e s = foldE (write_log_one e) [0..<logged s] s"

definition commit :: "'z kfslog_scheme senv \<Rightarrow> 'z kfslog_scheme \<Rightarrow> 'z kfslog_scheme res" where
  "commit e s =
     (if 0 < sint (lh_n (log s))
      then bindE (write_log e s) (\<lambda>s1.
           bindE (write_head e s1) (\<lambda>s2.
           bindE (install_trans e False s2) (\<lambda>s3. write_head e (upd_log (\<lambda>l. l\<lparr>lh_n := 0\<rparr>) s3))))
      else Inr s)"

definition end_op :: "'z kfslog_scheme senv \<Rightarrow> 'z kfslog_scheme \<Rightarrow> 'z kfslog_scheme res" where
  "end_op e s =
     bindE (lk_acquire L_log s) (\<lambda>s1.
       let s2 = upd_log (\<lambda>l. l\<lparr>l_outstanding := l_outstanding l - 1\<rparr>) s1 in
       if l_committing (log s2) then Inl (Panic ''log.committing'')
       else if l_outstanding (log s2) = 0
       then bindE (lk_release L_log (upd_log (\<lambda>l. l\<lparr>l_committing := True\<rparr>) s2)) (\<lambda>s3.
            bindE (commit e s3) (\<lambda>s4.
            bindE (lk_acquire L_log s4) (\<lambda>s5.
            bindE (wakeup C_log (upd_log (\<lambda>l. l\<lparr>l_committing := False\<rparr>) s5)) (\<lambda>s6. lk_release L_log s6))))
       else bindE (wakeup C_log s2) (\<lambda>s3. lk_release L_log s3))"

text \<open>The index at which \<^verbatim>\<open>log_write\<close> records block \<open>bno\<close>: an old entry (absorption) or the end.\<close>

fun log_slot :: "nat \<Rightarrow> u32 list \<Rightarrow> u32 \<Rightarrow> nat" where
  "log_slot 0 bl bno = 0"
| "log_slot (Suc k) bl bno = (if hd bl = bno then 0 else Suc (log_slot k (tl bl) bno))"

definition log_write :: "nat \<Rightarrow> 'z kfslog_scheme \<Rightarrow> 'z kfslog_scheme res" where
  "log_write b s =
     bindE (lk_acquire L_log s) (\<lambda>s1.
       let l = log s1; bno = b_blockno (bcache s1 b) in
       if int LOGSIZE \<le> sint (lh_n l) \<or> sint (l_size l) - 1 \<le> sint (lh_n l) then Inl (Panic ''too big a transaction'')
       else if sint (l_outstanding l) < 1 then Inl (Panic ''log_write outside of trans'')
       else let i = log_slot (logged s1) (lh_block l) bno;
                s2 = upd_log (\<lambda>l. l\<lparr>lh_block := (lh_block l)[i := bno]\<rparr>) s1
            in bindE (if int i = sint (lh_n l)
                      then bindE (bpin b s2) (\<lambda>s3. Inr (upd_log (\<lambda>l. l\<lparr>lh_n := lh_n l + 1\<rparr>) s3))
                      else Inr s2) (\<lambda>s4. lk_release L_log s4))"

end
