(* ===== verification/Fs.thy ===== *)
theory Fs
  imports Log
begin

text \<open>
  The file system, \<^verbatim>\<open>kernel/fs.c\<close> with \<^verbatim>\<open>kernel/fs.h\<close>, \<^verbatim>\<open>kernel/stat.h\<close> and the in-memory inodes of
  \<^verbatim>\<open>kernel/file.h\<close>: block allocation, inodes, their content, directories and path names. A pointer to
  an inode is its index in \<^verbatim>\<open>itable\<close>, \<open>None\<close> where the code has a null pointer. Loops whose counter
  runs to a bound fixed at entry are folds or recursions over the values of the counter. A read into
  a kernel variable returns the bytes; \<open>name\<close> arguments are the \<open>DIRSIZ\<close> bytes of the caller's array.
\<close>

section \<open>On-disk structures\<close>

definition ROOTINO :: u32 where "ROOTINO = 1"
definition FSMAGIC :: u32 where "FSMAGIC = 0x10203040"
definition NDIRECT :: nat where "NDIRECT = 12"
definition NINDIRECT :: nat where "NINDIRECT = BSIZE div 4"
definition MAXFILE :: nat where "MAXFILE = NDIRECT + NINDIRECT"
definition IPB :: nat where "IPB = BSIZE div 64"
definition BPB :: nat where "BPB = BSIZE * 8"
definition DIRSIZ :: nat where "DIRSIZ = 14"
definition T_DIR :: u16 where "T_DIR = 1"
definition T_FILE :: u16 where "T_FILE = 2"
definition T_DEVICE :: u16 where "T_DEVICE = 3"

definition IBLOCK :: "u32 \<Rightarrow> superblock \<Rightarrow> u32" where
  "IBLOCK i sb = i div of_nat IPB + sb_inodestart sb"

definition BBLOCK :: "u32 \<Rightarrow> superblock \<Rightarrow> u32" where
  "BBLOCK b sb = b div of_nat BPB + sb_bmapstart sb"

record dinode =
  d_type :: u16
  d_major :: u16
  d_minor :: u16
  d_nlink :: u16
  d_size :: u32
  d_addrs :: "u32 list"

definition dinode_bytes :: "dinode \<Rightarrow> u8 list" where
  "dinode_bytes d = le16 (d_type d) @ le16 (d_major d) @ le16 (d_minor d) @ le16 (d_nlink d) @ le32 (d_size d) @
     concat (map le32 (d_addrs d))"

definition get_dinode :: "nat \<Rightarrow> u8 list \<Rightarrow> dinode" where
  "get_dinode k data =
     (let o0 = 64 * k in
      \<lparr>d_type = get16 data o0, d_major = get16 data (o0 + 2), d_minor = get16 data (o0 + 4), d_nlink = get16 data (o0 + 6),
       d_size = get32 data (o0 + 8), d_addrs = map (\<lambda>i. get32 data (o0 + 12 + 4 * i)) [0..<NDIRECT + 1]\<rparr>)"

definition put_dinode :: "nat \<Rightarrow> dinode \<Rightarrow> u8 list \<Rightarrow> u8 list" where
  "put_dinode k d data = put_bytes (64 * k) (dinode_bytes d) data"

record inode =
  i_dev :: u32
  i_inum :: u32
  i_ref :: i32
  i_valid :: bool
  i_type :: u16
  i_major :: u16
  i_minor :: u16
  i_nlink :: u16
  i_size :: u32
  i_addrs :: "u32 list"

record kstat =
  st_dev :: i32
  st_ino :: u32
  st_type :: u16
  st_nlink :: u16
  st_size :: u64

record kfs = kfslog +
  sb :: superblock
  itable :: "nat \<Rightarrow> inode"

definition upd_inode :: "nat \<Rightarrow> (inode \<Rightarrow> inode) \<Rightarrow> 'z kfs_scheme \<Rightarrow> 'z kfs_scheme" where
  "upd_inode ip f s = s\<lparr>itable := (itable s)(ip := f (itable s ip))\<rparr>"

section \<open>Super block and blocks\<close>

definition readsb :: "'z kfs_scheme senv \<Rightarrow> u32 \<Rightarrow> 'z kfs_scheme \<Rightarrow> 'z kfs_scheme res" where
  "readsb e dev s =
     bindE (bread e dev 1 s) (\<lambda>(bp, s1).
       let d = b_data (bcache s1 bp) in
       brelse bp (s1\<lparr>sb := \<lparr>sb_magic = get32 d 0, sb_size = get32 d 4, sb_nblocks = get32 d 8, sb_ninodes = get32 d 12,
         sb_nlog = get32 d 16, sb_logstart = get32 d 20, sb_inodestart = get32 d 24, sb_bmapstart = get32 d 28\<rparr>\<rparr>))"

definition fsinit :: "'z kfs_scheme senv \<Rightarrow> u32 \<Rightarrow> 'z kfs_scheme \<Rightarrow> 'z kfs_scheme res" where
  "fsinit e dev s =
     bindE (readsb e dev s) (\<lambda>s1.
       if sb_magic (sb s1) \<noteq> FSMAGIC then Inl (Panic ''invalid file system'') else initlog e dev (sb s1) s1)"

definition bzero :: "'z kfs_scheme senv \<Rightarrow> u32 \<Rightarrow> u32 \<Rightarrow> 'z kfs_scheme \<Rightarrow> 'z kfs_scheme res" where
  "bzero e dev bno s =
     bindE (bread e dev bno s) (\<lambda>(bp, s1).
     bindE (log_write bp (set_data bp (replicate BSIZE 0) s1)) (\<lambda>s2. brelse bp s2))"

text \<open>The bit of block \<open>bi\<close> in a bitmap block, and the block with that bit set or cleared.\<close>

definition bmap_used :: "u8 list \<Rightarrow> nat \<Rightarrow> bool" where
  "bmap_used data bi \<longleftrightarrow> data ! (bi div 8) AND push_bit (bi mod 8) 1 \<noteq> 0"

definition bmap_set :: "nat \<Rightarrow> u8 list \<Rightarrow> u8 list" where
  "bmap_set bi data = data[bi div 8 := data ! (bi div 8) OR push_bit (bi mod 8) 1]"

definition bmap_clear :: "nat \<Rightarrow> u8 list \<Rightarrow> u8 list" where
  "bmap_clear bi data = data[bi div 8 := data ! (bi div 8) AND NOT (push_bit (bi mod 8) 1)]"

text \<open>The outer loop of \<^verbatim>\<open>balloc\<close> over the numbers of the bitmap blocks; its counter \<^verbatim>\<open>b\<close> is an \<^verbatim>\<open>int\<close>.\<close>

fun balloc_loop :: "'z kfs_scheme senv \<Rightarrow> u32 \<Rightarrow> nat list \<Rightarrow> 'z kfs_scheme \<Rightarrow> (u32 \<times> 'z kfs_scheme) res" where
  "balloc_loop e dev [] s = bindE (printf ''balloc: out of blocks\<newline>'' [] s) (\<lambda>s1. Inr (0, s1))"
| "balloc_loop e dev (g # gs) s =
     (let b = g * BPB in
      bindE (bread e dev (BBLOCK (of_nat b) (sb s)) s) (\<lambda>(bp, s1).
        case find (\<lambda>bi. \<not> bmap_used (b_data (bcache s1 bp)) bi) [0..<min BPB (unat (sb_size (sb s1)) - b)] of
          Some bi \<Rightarrow>
            bindE (log_write bp (set_data bp (bmap_set bi (b_data (bcache s1 bp))) s1)) (\<lambda>s2.
            bindE (brelse bp s2) (\<lambda>s3.
            bindE (bzero e dev (of_nat (b + bi)) s3) (\<lambda>s4. Inr (of_nat (b + bi), s4))))
        | None \<Rightarrow> bindE (brelse bp s1) (\<lambda>s2.
            if 2 ^ 31 \<le> b + BPB then Inl (Undef ''balloc: int overflow'') else balloc_loop e dev gs s2)))"

definition balloc :: "'z kfs_scheme senv \<Rightarrow> u32 \<Rightarrow> 'z kfs_scheme \<Rightarrow> (u32 \<times> 'z kfs_scheme) res" where
  "balloc e dev s = balloc_loop e dev [0..<(unat (sb_size (sb s)) + BPB - 1) div BPB] s"

definition bfree :: "'z kfs_scheme senv \<Rightarrow> u32 \<Rightarrow> u32 \<Rightarrow> 'z kfs_scheme \<Rightarrow> 'z kfs_scheme res" where
  "bfree e dev b s =
     bindE (bread e dev (BBLOCK b (sb s)) s) (\<lambda>(bp, s1).
       let bi = unat b mod BPB; data = b_data (bcache s1 bp) in
       if \<not> bmap_used data bi then Inl (Panic ''freeing free block'')
       else bindE (log_write bp (set_data bp (bmap_clear bi data) s1)) (\<lambda>s2. brelse bp s2))"

section \<open>Inodes\<close>

definition iinit :: "'z kfs_scheme \<Rightarrow> 'z kfs_scheme" where
  "iinit s = fold (initsleeplock ''inode'') [0..<NINODE] s"

text \<open>The scan of \<^verbatim>\<open>iget\<close>: the entry of the inode, if there is one, and the first empty one seen.\<close>

fun iget_scan :: "nat list \<Rightarrow> nat option \<Rightarrow> u32 \<Rightarrow> u32 \<Rightarrow> 'z kfs_scheme \<Rightarrow> nat option \<times> nat option" where
  "iget_scan [] emp dev inum s = (None, emp)"
| "iget_scan (ip # ips) emp dev inum s =
     (let i = itable s ip in
      if 0 < sint (i_ref i) \<and> i_dev i = dev \<and> i_inum i = inum then (Some ip, emp)
      else iget_scan ips (if emp = None \<and> i_ref i = 0 then Some ip else emp) dev inum s)"

definition iget :: "u32 \<Rightarrow> u32 \<Rightarrow> 'z kfs_scheme \<Rightarrow> (nat \<times> 'z kfs_scheme) res" where
  "iget dev inum s =
     bindE (lk_acquire L_itable s) (\<lambda>s1.
       case iget_scan [0..<NINODE] None dev inum s1 of
         (Some ip, _) \<Rightarrow>
           bindE (lk_release L_itable (upd_inode ip (\<lambda>i. i\<lparr>i_ref := i_ref i + 1\<rparr>) s1)) (\<lambda>s2. Inr (ip, s2))
       | (None, None) \<Rightarrow> Inl (Panic ''iget: no inodes'')
       | (None, Some ip) \<Rightarrow>
           bindE (lk_release L_itable
             (upd_inode ip (\<lambda>i. i\<lparr>i_dev := dev, i_inum := inum, i_ref := 1, i_valid := False\<rparr>) s1)) (\<lambda>s2. Inr (ip, s2)))"

fun ialloc_loop :: "'z kfs_scheme senv \<Rightarrow> u32 \<Rightarrow> u16 \<Rightarrow> nat list \<Rightarrow> 'z kfs_scheme \<Rightarrow> (nat option \<times> 'z kfs_scheme) res" where
  "ialloc_loop e dev type [] s = bindE (printf ''ialloc: no inodes\<newline>'' [] s) (\<lambda>s1. Inr (None, s1))"
| "ialloc_loop e dev type (inum # inums) s =
     bindE (bread e dev (IBLOCK (of_nat inum) (sb s)) s) (\<lambda>(bp, s1).
        let data = b_data (bcache s1 bp) in
        if d_type (get_dinode (inum mod IPB) data) = 0
        then let zeroed = put_bytes (64 * (inum mod IPB)) (replicate 64 0) data in
             bindE (log_write bp (set_data bp (put16 (64 * (inum mod IPB)) type zeroed) s1)) (\<lambda>s2.
             bindE (brelse bp s2) (\<lambda>s3.
             bindE (iget dev (of_nat inum) s3) (\<lambda>(ip, s4). Inr (Some ip, s4))))
        else bindE (brelse bp s1) (\<lambda>s2.
          if 2 ^ 31 \<le> Suc inum then Inl (Undef ''ialloc: int overflow'') else ialloc_loop e dev type inums s2))"

definition ialloc :: "'z kfs_scheme senv \<Rightarrow> u32 \<Rightarrow> u16 \<Rightarrow> 'z kfs_scheme \<Rightarrow> (nat option \<times> 'z kfs_scheme) res" where
  "ialloc e dev type s = ialloc_loop e dev type [1..<unat (sb_ninodes (sb s))] s"

definition dinode_of :: "inode \<Rightarrow> dinode" where
  "dinode_of i = \<lparr>d_type = i_type i, d_major = i_major i, d_minor = i_minor i, d_nlink = i_nlink i,
     d_size = i_size i, d_addrs = i_addrs i\<rparr>"

definition iupdate :: "'z kfs_scheme senv \<Rightarrow> nat \<Rightarrow> 'z kfs_scheme \<Rightarrow> 'z kfs_scheme res" where
  "iupdate e ip s =
     bindE (bread e (i_dev (itable s ip)) (IBLOCK (i_inum (itable s ip)) (sb s)) s) (\<lambda>(bp, s1).
       let i = itable s1 ip in
       bindE (log_write bp (set_data bp (put_dinode (unat (i_inum i) mod IPB) (dinode_of i) (b_data (bcache s1 bp))) s1))
         (\<lambda>s2. brelse bp s2))"

definition idup :: "nat \<Rightarrow> 'z kfs_scheme \<Rightarrow> (nat \<times> 'z kfs_scheme) res" where
  "idup ip s =
     bindE (lk_acquire L_itable s) (\<lambda>s1.
     bindE (lk_release L_itable (upd_inode ip (\<lambda>i. i\<lparr>i_ref := i_ref i + 1\<rparr>) s1)) (\<lambda>s2. Inr (ip, s2)))"

definition ilock :: "'z kfs_scheme senv \<Rightarrow> nat option \<Rightarrow> 'z kfs_scheme \<Rightarrow> 'z kfs_scheme res" where
  "ilock e ipp s =
     (case ipp of None \<Rightarrow> Inl (Panic ''ilock'')
      | Some ip \<Rightarrow>
        if sint (i_ref (itable s ip)) < 1 then Inl (Panic ''ilock'')
        else bindE (acquiresleep e ''inode'' ip s) (\<lambda>s1.
          if \<not> i_valid (itable s1 ip)
          then bindE (bread e (i_dev (itable s1 ip)) (IBLOCK (i_inum (itable s1 ip)) (sb s1)) s1) (\<lambda>(bp, s2).
            let d = get_dinode (unat (i_inum (itable s2 ip)) mod IPB) (b_data (bcache s2 bp));
                s3 = upd_inode ip (\<lambda>i. i\<lparr>i_type := d_type d, i_major := d_major d, i_minor := d_minor d,
                       i_nlink := d_nlink d, i_size := d_size d, i_addrs := d_addrs d\<rparr>) s2
            in bindE (brelse bp s3) (\<lambda>s4.
                 let s5 = upd_inode ip (\<lambda>i. i\<lparr>i_valid := True\<rparr>) s4 in
                 if i_type (itable s5 ip) = 0 then Inl (Panic ''ilock: no type'') else Inr s5))
          else Inr s1))"

definition iunlock :: "nat option \<Rightarrow> 'z kfs_scheme \<Rightarrow> 'z kfs_scheme res" where
  "iunlock ipp s =
     (case ipp of None \<Rightarrow> Inl (Panic ''iunlock'')
      | Some ip \<Rightarrow> bindE (holdingsleep ''inode'' ip s) (\<lambda>(h, s1).
          if \<not> h \<or> sint (i_ref (itable s1 ip)) < 1 then Inl (Panic ''iunlock'')
          else releasesleep ''inode'' ip s1))"

definition itrunc_direct :: "'z kfs_scheme senv \<Rightarrow> nat \<Rightarrow> nat \<Rightarrow> 'z kfs_scheme \<Rightarrow> 'z kfs_scheme res" where
  "itrunc_direct e ip i s =
     (let a = i_addrs (itable s ip) ! i in
      if a \<noteq> 0
      then bindE (bfree e (i_dev (itable s ip)) a s) (\<lambda>s1. Inr (upd_inode ip (\<lambda>x. x\<lparr>i_addrs := (i_addrs x)[i := 0]\<rparr>) s1))
      else Inr s)"

definition itrunc_entry :: "'z kfs_scheme senv \<Rightarrow> nat \<Rightarrow> nat \<Rightarrow> nat \<Rightarrow> 'z kfs_scheme \<Rightarrow> 'z kfs_scheme res" where
  "itrunc_entry e ip bp j s =
     (let a = get32 (b_data (bcache s bp)) (4 * j) in
      if a \<noteq> 0 then bfree e (i_dev (itable s ip)) a s else Inr s)"

definition itrunc :: "'z kfs_scheme senv \<Rightarrow> nat \<Rightarrow> 'z kfs_scheme \<Rightarrow> 'z kfs_scheme res" where
  "itrunc e ip s =
     bindE (foldE (itrunc_direct e ip) [0..<NDIRECT] s) (\<lambda>s1.
     bindE (let a = i_addrs (itable s1 ip) ! NDIRECT in
            if a \<noteq> 0
            then bindE (bread e (i_dev (itable s1 ip)) a s1) (\<lambda>(bp, s2).
                 bindE (foldE (itrunc_entry e ip bp) [0..<NINDIRECT] s2) (\<lambda>s3.
                 bindE (brelse bp s3) (\<lambda>s4.
                 bindE (bfree e (i_dev (itable s4 ip)) (i_addrs (itable s4 ip) ! NDIRECT) s4) (\<lambda>s5.
                   Inr (upd_inode ip (\<lambda>x. x\<lparr>i_addrs := (i_addrs x)[NDIRECT := 0]\<rparr>) s5)))))
            else Inr s1) (\<lambda>s6.
     iupdate e ip (upd_inode ip (\<lambda>x. x\<lparr>i_size := 0\<rparr>) s6)))"

definition iput :: "'z kfs_scheme senv \<Rightarrow> nat \<Rightarrow> 'z kfs_scheme \<Rightarrow> 'z kfs_scheme res" where
  "iput e ip s =
     bindE (lk_acquire L_itable s) (\<lambda>s1.
     bindE (let i = itable s1 ip in
            if i_ref i = 1 \<and> i_valid i \<and> i_nlink i = 0
            then bindE (acquiresleep e ''inode'' ip s1) (\<lambda>s2.
                 bindE (lk_release L_itable s2) (\<lambda>s3.
                 bindE (itrunc e ip s3) (\<lambda>s4.
                 bindE (iupdate e ip (upd_inode ip (\<lambda>x. x\<lparr>i_type := 0\<rparr>) s4)) (\<lambda>s5.
                 bindE (releasesleep ''inode'' ip (upd_inode ip (\<lambda>x. x\<lparr>i_valid := False\<rparr>) s5)) (\<lambda>s6.
                   lk_acquire L_itable s6)))))
            else Inr s1) (\<lambda>s7.
     lk_release L_itable (upd_inode ip (\<lambda>x. x\<lparr>i_ref := i_ref x - 1\<rparr>) s7)))"

definition iunlockput :: "'z kfs_scheme senv \<Rightarrow> nat option \<Rightarrow> 'z kfs_scheme \<Rightarrow> 'z kfs_scheme res" where
  "iunlockput e ipp s =
     bindE (iunlock ipp s) (\<lambda>s1. case ipp of None \<Rightarrow> Inl (Undef ''null inode'') | Some ip \<Rightarrow> iput e ip s1)"

section \<open>Inode content\<close>

text \<open>The two halves of \<^verbatim>\<open>bmap\<close>: an entry of \<^verbatim>\<open>ip->addrs\<close>, allocated when it is zero, and an entry of the indirect block.\<close>

definition bmap_direct :: "'z kfs_scheme senv \<Rightarrow> nat \<Rightarrow> nat \<Rightarrow> 'z kfs_scheme \<Rightarrow> (u32 \<times> 'z kfs_scheme) res" where
  "bmap_direct e ip i s =
     (let addr = i_addrs (itable s ip) ! i in
      if addr = 0
      then bindE (balloc e (i_dev (itable s ip)) s) (\<lambda>(addr, s1).
             if addr = 0 then Inr (0, s1)
             else Inr (addr, upd_inode ip (\<lambda>x. x\<lparr>i_addrs := (i_addrs x)[i := addr]\<rparr>) s1))
      else Inr (addr, s))"

definition bmap_indirect :: "'z kfs_scheme senv \<Rightarrow> nat \<Rightarrow> nat \<Rightarrow> u32 \<Rightarrow> 'z kfs_scheme \<Rightarrow> (u32 \<times> 'z kfs_scheme) res" where
  "bmap_indirect e ip i ind s =
     bindE (bread e (i_dev (itable s ip)) ind s) (\<lambda>(bp, s1).
     bindE (let addr = get32 (b_data (bcache s1 bp)) (4 * i) in
            if addr = 0
            then bindE (balloc e (i_dev (itable s1 ip)) s1) (\<lambda>(addr, s2).
                   if addr \<noteq> 0
                   then bindE (log_write bp (set_data bp (put32 (4 * i) addr (b_data (bcache s2 bp))) s2)) (\<lambda>s3. Inr (addr, s3))
                   else Inr (addr, s2))
            else Inr (addr, s1)) (\<lambda>(addr, s4).
     bindE (brelse bp s4) (\<lambda>s5. Inr (addr, s5))))"

definition bmap :: "'z kfs_scheme senv \<Rightarrow> nat \<Rightarrow> u32 \<Rightarrow> 'z kfs_scheme \<Rightarrow> (u32 \<times> 'z kfs_scheme) res" where
  "bmap e ip bn s =
     (if unat bn < NDIRECT then bmap_direct e ip (unat bn) s
      else let bn = bn - of_nat NDIRECT in
           if unat bn < NINDIRECT
           then bindE (bmap_direct e ip NDIRECT s) (\<lambda>(ind, s1).
                  if ind = 0 then Inr (0, s1) else bmap_indirect e ip (unat bn) ind s1)
           else Inl (Panic ''bmap: out of range''))"

definition stati :: "nat \<Rightarrow> 'z kfs_scheme \<Rightarrow> kstat" where
  "stati ip s =
     (let i = itable s ip in
      \<lparr>st_dev = i_dev i, st_ino = i_inum i, st_type = i_type i, st_nlink = i_nlink i, st_size = ucast (i_size i)\<rparr>)"

text \<open>
  In the loops of \<^verbatim>\<open>readi\<close> and \<^verbatim>\<open>writei\<close> the counters \<^verbatim>\<open>off\<close>, \<^verbatim>\<open>tot\<close> and \<^verbatim>\<open>n\<close> are natural numbers: the
  checks before the loops leave no room for wrap-around.
\<close>

function readi_loop :: "'z kfs_scheme senv \<Rightarrow> nat \<Rightarrow> bool \<Rightarrow> u64 \<Rightarrow> nat \<Rightarrow> nat \<Rightarrow> nat \<Rightarrow> 'z kfs_scheme \<Rightarrow>
    (i32 \<times> u8 list \<times> 'z kfs_scheme) res" where
  "readi_loop e ip user_dst dst off tot n s =
     (if tot < n
      then let m = min (n - tot) (BSIZE - off mod BSIZE) in
        bindE (bmap e ip (of_nat (off div BSIZE)) s) (\<lambda>(addr, s1).
          if addr = 0 then Inr (of_nat tot, [], s1)
          else bindE (bread e (i_dev (itable s1 ip)) addr s1) (\<lambda>(bp, s2).
            let bs = get_bytes (off mod BSIZE) m (b_data (bcache s2 bp)) in
            bindE (either_copyout user_dst dst bs s2) (\<lambda>(r, s3).
              if r = -1 then bindE (brelse bp s3) (\<lambda>s4. Inr (-1, [], s4))
              else bindE (brelse bp s3) (\<lambda>s4.
                   bindE (readi_loop e ip user_dst (dst + of_nat m) (off + m) (tot + m) n s4) (\<lambda>(r, ds, s5).
                     Inr (r, bs @ ds, s5))))))
      else Inr (of_nat tot, [], s))"
  by pat_completeness auto
termination
  by (relation "measure (\<lambda>(e, ip, u, d, off, tot, n, s). n - tot)") (auto simp: BSIZE_def)

declare readi_loop.simps [simp del]

definition readi :: "'z kfs_scheme senv \<Rightarrow> nat \<Rightarrow> bool \<Rightarrow> u64 \<Rightarrow> u32 \<Rightarrow> u32 \<Rightarrow> 'z kfs_scheme \<Rightarrow>
    (i32 \<times> u8 list \<times> 'z kfs_scheme) res" where
  "readi e ip user_dst dst off n s =
     (let sz = i_size (itable s ip) in
      if sz < off \<or> off + n < off then Inr (0, [], s)
      else readi_loop e ip user_dst dst (unat off) 0 (unat (if sz < off + n then sz - off else n)) s)"

function writei_loop :: "'z kfs_scheme senv \<Rightarrow> nat \<Rightarrow> iosrc \<Rightarrow> nat \<Rightarrow> nat \<Rightarrow> nat \<Rightarrow> 'z kfs_scheme \<Rightarrow>
    (nat \<times> nat \<times> 'z kfs_scheme) res" where
  "writei_loop e ip src off tot n s =
     (if tot < n
      then let m = min (n - tot) (BSIZE - off mod BSIZE) in
        bindE (bmap e ip (of_nat (off div BSIZE)) s) (\<lambda>(addr, s1).
          if addr = 0 then Inr (tot, off, s1)
          else bindE (bread e (i_dev (itable s1 ip)) addr s1) (\<lambda>(bp, s2).
            bindE (either_copyin src m s2) (\<lambda>(r, bs).
              let s3 = set_data bp (put_bytes (off mod BSIZE) bs (b_data (bcache s2 bp))) s2 in
              if r = -1 then bindE (brelse bp s3) (\<lambda>s4. Inr (tot, off, s4))
              else bindE (log_write bp s3) (\<lambda>s4.
                   bindE (brelse bp s4) (writei_loop e ip (src_add src m) (off + m) (tot + m) n)))))
      else Inr (tot, off, s))"
  by pat_completeness auto
termination
  by (relation "measure (\<lambda>(e, ip, src, off, tot, n, s). n - tot)") (auto simp: BSIZE_def)

declare writei_loop.simps [simp del]

definition writei :: "'z kfs_scheme senv \<Rightarrow> nat \<Rightarrow> iosrc \<Rightarrow> u32 \<Rightarrow> u32 \<Rightarrow> 'z kfs_scheme \<Rightarrow> (i32 \<times> 'z kfs_scheme) res" where
  "writei e ip src off n s =
     (if i_size (itable s ip) < off \<or> off + n < off then Inr (-1, s)
      else if MAXFILE * BSIZE < unat (off + n) then Inr (-1, s)
      else bindE (writei_loop e ip src (unat off) 0 (unat n) s) (\<lambda>(tot, off, s1).
           bindE (iupdate e ip (if unat (i_size (itable s1 ip)) < off then upd_inode ip (\<lambda>x. x\<lparr>i_size := of_nat off\<rparr>) s1 else s1))
             (\<lambda>s2. Inr (of_nat tot, s2))))"

section \<open>Directories\<close>

definition namecmp :: "u8 list \<Rightarrow> u8 list \<Rightarrow> int res" where
  "namecmp s t = strncmp s t DIRSIZ"

definition de_inum :: "u8 list \<Rightarrow> u16" where "de_inum de = get16 de 0"
definition de_name :: "u8 list \<Rightarrow> u8 list" where "de_name de = drop 2 de"

text \<open>The byte offsets of the directory entries below \<open>sz\<close>.\<close>

definition dirent_offs :: "u32 \<Rightarrow> nat list" where
  "dirent_offs sz = map (\<lambda>k. 16 * k) [0..<(unat sz + 15) div 16]"

fun dirlookup_loop :: "'z kfs_scheme senv \<Rightarrow> nat \<Rightarrow> u8 list \<Rightarrow> nat list \<Rightarrow> 'z kfs_scheme \<Rightarrow>
    ((nat \<times> u32) option \<times> 'z kfs_scheme) res" where
  "dirlookup_loop e dp name [] s = Inr (None, s)"
| "dirlookup_loop e dp name (off # offs) s =
     bindE (readi e dp False 0 (of_nat off) 16 s) (\<lambda>(r, de, s1).
       if r \<noteq> 16 then Inl (Panic ''dirlookup read'')
       else if de_inum de = 0 then dirlookup_loop e dp name offs s1
       else bindE (namecmp name (de_name de)) (\<lambda>c.
         if c = 0 then bindE (iget (i_dev (itable s1 dp)) (ucast (de_inum de)) s1) (\<lambda>(ip, s2). Inr (Some (ip, of_nat off), s2))
         else dirlookup_loop e dp name offs s1))"

definition dirlookup :: "'z kfs_scheme senv \<Rightarrow> nat \<Rightarrow> u8 list \<Rightarrow> 'z kfs_scheme \<Rightarrow> ((nat \<times> u32) option \<times> 'z kfs_scheme) res" where
  "dirlookup e dp name s =
     (if i_type (itable s dp) \<noteq> T_DIR then Inl (Panic ''dirlookup not DIR'')
      else dirlookup_loop e dp name (dirent_offs (i_size (itable s dp))) s)"

text \<open>The search of \<^verbatim>\<open>dirlink\<close> for an empty entry; \<open>stop\<close> is the value of \<^verbatim>\<open>off\<close> after the last one.\<close>

fun dirlink_loop :: "'z kfs_scheme senv \<Rightarrow> nat \<Rightarrow> nat \<Rightarrow> nat list \<Rightarrow> 'z kfs_scheme \<Rightarrow> (nat \<times> 'z kfs_scheme) res" where
  "dirlink_loop e dp stop [] s = Inr (stop, s)"
| "dirlink_loop e dp stop (off # offs) s =
     bindE (readi e dp False 0 (of_nat off) 16 s) (\<lambda>(r, de, s1).
       if r \<noteq> 16 then Inl (Panic ''dirlink read'')
       else if de_inum de = 0 then Inr (off, s1) else dirlink_loop e dp stop offs s1)"

definition dirlink :: "'z kfs_scheme senv \<Rightarrow> nat \<Rightarrow> u8 list \<Rightarrow> u32 \<Rightarrow> 'z kfs_scheme \<Rightarrow> (int \<times> 'z kfs_scheme) res" where
  "dirlink e dp name inum s =
     bindE (dirlookup e dp name s) (\<lambda>(r, s1).
       case r of
         Some (ip, _) \<Rightarrow> bindE (iput e ip s1) (\<lambda>s2. Inr (-1, s2))
       | None \<Rightarrow>
           let offs = dirent_offs (i_size (itable s1 dp)) in
           bindE (dirlink_loop e dp (16 * length offs) offs s1) (\<lambda>(off, s2).
           bindE (strncpy (replicate DIRSIZ 0) name DIRSIZ) (\<lambda>nm.
           bindE (writei e dp (KSrc (le16 (ucast inum) @ nm)) (of_nat off) 16 s2) (\<lambda>(w, s3).
             if w \<noteq> 16 then Inr (-1, s3) else Inr (0, s3)))))"

section \<open>Paths\<close>

abbreviation slash :: u8 where "slash \<equiv> 47"

fun skip_slashes :: "u8 list \<Rightarrow> u8 list res" where
  "skip_slashes [] = Inl (Undef ''skipelem'')"
| "skip_slashes (c # cs) = (if c = slash then skip_slashes cs else Inr (c # cs))"

fun elem_len :: "u8 list \<Rightarrow> nat res" where
  "elem_len [] = Inl (Undef ''skipelem'')"
| "elem_len (c # cs) = (if c \<noteq> slash \<and> c \<noteq> 0 then bindE (elem_len cs) (\<lambda>k. Inr (Suc k)) else Inr 0)"

definition skipelem :: "u8 list \<Rightarrow> u8 list \<Rightarrow> (u8 list \<times> u8 list) option res" where
  "skipelem path name =
     bindE (skip_slashes path) (\<lambda>p.
       if hd p = 0 then Inr None
       else bindE (elem_len p) (\<lambda>len.
            let nm = (if DIRSIZ \<le> len then take DIRSIZ p else (put_bytes 0 (take len p) name)[len := 0])
            in bindE (skip_slashes (drop len p)) (\<lambda>rest. Inr (Some (rest, nm)))))"

text \<open>The loop of \<^verbatim>\<open>namex\<close>; every round shortens the path, so its length bounds the rounds.\<close>

fun namex_loop :: "nat \<Rightarrow> 'z kfs_scheme senv \<Rightarrow> u8 list \<Rightarrow> bool \<Rightarrow> u8 list \<Rightarrow> nat \<Rightarrow> 'z kfs_scheme \<Rightarrow>
    (nat option \<times> u8 list \<times> 'z kfs_scheme) res" where
  "namex_loop 0 e path nameiparent name ip s = Inl (Blocked ''namex'')"
| "namex_loop (Suc fuel) e path nameiparent name ip s =
     bindE (skipelem path name) (\<lambda>r.
       case r of
         None \<Rightarrow> if nameiparent then bindE (iput e ip s) (\<lambda>s1. Inr (None, name, s1)) else Inr (Some ip, name, s)
       | Some (path, name) \<Rightarrow>
         bindE (ilock e (Some ip) s) (\<lambda>s1.
           if i_type (itable s1 ip) \<noteq> T_DIR then bindE (iunlockput e (Some ip) s1) (\<lambda>s2. Inr (None, name, s2))
           else if nameiparent \<and> hd path = 0 then bindE (iunlock (Some ip) s1) (\<lambda>s2. Inr (Some ip, name, s2))
           else bindE (dirlookup e ip name s1) (\<lambda>(d, s2).
             case d of
               None \<Rightarrow> bindE (iunlockput e (Some ip) s2) (\<lambda>s3. Inr (None, name, s3))
             | Some (nx, _) \<Rightarrow> bindE (iunlockput e (Some ip) s2) (namex_loop fuel e path nameiparent name nx))))"

definition namex :: "'z kfs_scheme senv \<Rightarrow> u8 list \<Rightarrow> bool \<Rightarrow> u8 list \<Rightarrow> 'z kfs_scheme \<Rightarrow>
    (nat option \<times> u8 list \<times> 'z kfs_scheme) res" where
  "namex e path nameiparent name s =
     (if path = [] then Inl (Undef ''namex'')
      else bindE (if hd path = slash then iget ROOTDEV ROOTINO s
                  else bindE (thisproc s) (\<lambda>p.
                    case p_cwd (ptable s p) of None \<Rightarrow> Inl (Undef ''null inode'') | Some ip \<Rightarrow> idup ip s))
             (\<lambda>(ip, s1). namex_loop (Suc (length path)) e path nameiparent name ip s1))"

text \<open>The initial bytes of the local array \<^verbatim>\<open>name\<close> have no influence on the result.\<close>

definition namei :: "'z kfs_scheme senv \<Rightarrow> u8 list \<Rightarrow> 'z kfs_scheme \<Rightarrow> (nat option \<times> 'z kfs_scheme) res" where
  "namei e path s = bindE (namex e path False (replicate DIRSIZ 0) s) (\<lambda>(ip, _, s1). Inr (ip, s1))"

definition nameiparent :: "'z kfs_scheme senv \<Rightarrow> u8 list \<Rightarrow> u8 list \<Rightarrow> 'z kfs_scheme \<Rightarrow>
    (nat option \<times> u8 list \<times> 'z kfs_scheme) res" where
  "nameiparent e path name s = namex e path True name s"

end
