(* ===== verification/Logspec.thy ===== *)
theory Logspec
  imports Log
begin

text \<open>
  What the log does. \<open>stepped s B R ws s'\<close> says that a piece of code took \<open>s\<close> to \<open>s'\<close>, leaving the block
  contents \<open>B\<close> and the references \<open>R\<close>, and sent the writes \<open>ws\<close> to the disk in this order. From the writes
  of \<^verbatim>\<open>commit\<close> follows crash atomicity: whatever prefix of them reached the disk, recovery restores the
  state before or after the transaction.
\<close>

section \<open>Steps on buffers\<close>

lemma got_ne:
  assumes ok: "bc_ok s" and g: "got s n b s'" and h: "holds s b' m" and ne: "n \<noteq> m"
  shows "b' \<noteq> b"
proof
  assume e: "b' = b"
  have f: "bc_ok s'" "refs s' = (refs s)(n := refs s n + 1)" "others b s s'" "holds s' b n" using g by (simp_all add: got_def)
  have "refs s' m \<noteq> 0" using f(2) ne holds_view(3) [OF ok h] by simp
  then obtain c where c: "cached s' m c" using view_none(2) [of s' m] by blast
  then have "c \<noteq> b" using f(4) ne by (auto simp: holds_def cached_def)
  then have "bsim (bcache s c) (bcache s' c)" using f(3) by (simp add: others_def)
  then have "cached s m c" using c bsim_fields by (simp add: cached_def)
  moreover have "cached s m b'" using h by (simp add: holds_def)
  ultimately have "c = b'" using cached_unique [OF ok] by metis
  then show False using e \<open>c \<noteq> b\<close> by simp
qed

lemma holds_got:
  assumes ok: "bc_ok s" and g: "got s n b s'" and h: "holds s b' m" and ne: "n \<noteq> m"
  shows "holds s' b' m" "b_data (bcache s' b') = b_data (bcache s b')"
proof -
  have "others b s s'" "bsame s s'" using g by (simp_all add: got_def)
  then show "holds s' b' m" "b_data (bcache s' b') = b_data (bcache s b')"
    using holds_others got_ne [OF assms] h by metis+
qed

lemma holds_gave:
  assumes "gave s n b s'" "holds s b n" "holds s b' m" "n \<noteq> m"
  shows "holds s' b' m"
proof -
  have "others b s s'" "bsame s s'" using assms(1) by (simp_all add: gave_def)
  then show ?thesis using holds_others(1) holds_ne [OF assms(2,3,4)] assms(3) by metis
qed

lemma holds_set_data:
  assumes "bc_ok s" "holds s b n" "length d = BSIZE" "holds s b' m" "n \<noteq> m"
  shows "holds (set_data b d s) b' m"
  using holds_others(1) [OF set_data_ok(4,1) [OF assms(1-3)] holds_ne [OF assms(2,4,5)] assms(4)] .

text \<open>\<open>dsame\<close>: as \<open>bsame\<close>, but the disk may have changed as well.\<close>

definition dsame :: "'z kbuf_scheme \<Rightarrow> 'z kbuf_scheme \<Rightarrow> bool" where
  "dsame s s' \<longleftrightarrow> (\<exists>d w. bsame (s\<lparr>disk := d, dwrites := w\<rparr>) s')"

lemma bsame_dsame: "bsame s s' \<Longrightarrow> dsame s s'"
  unfolding dsame_def by (intro exI [of _ "disk s"] exI [of _ "dwrites s"]) simp

lemma dsame_refl [simp]: "dsame s s"
  by (simp add: bsame_dsame)

lemma dsame_disk: "dsame s (s\<lparr>disk := d, dwrites := w\<rparr>)"
  unfolding dsame_def using bsame_refl by blast

lemma bsame_disk: "bsame s t \<Longrightarrow> bsame (s\<lparr>disk := d, dwrites := w\<rparr>) (t\<lparr>disk := d, dwrites := w\<rparr>)"
proof -
  assume "bsame s t"
  then show ?thesis
  proof (rule bsameE)
    fix bc sl pt
    assume "t = s\<lparr>bcache := bc, slock := sl, ptable := pt\<rparr>" "\<And>j. psame (ptable s j) (pt j)"
      "\<And>nm. nm \<noteq> ''buffer'' \<Longrightarrow> sl nm = slock s nm"
    then show ?thesis unfolding bsame_def by (intro exI [of _ bc] exI [of _ sl] exI [of _ pt]) simp
  qed
qed

lemma dsame_trans:
  assumes "dsame s t" "dsame t u"
  shows "dsame s u"
proof -
  obtain d w where t: "bsame (s\<lparr>disk := d, dwrites := w\<rparr>) t" using assms(1) by (auto simp: dsame_def)
  obtain d' w' where u: "bsame (t\<lparr>disk := d', dwrites := w'\<rparr>) u" using assms(2) by (auto simp: dsame_def)
  have "bsame (s\<lparr>disk := d', dwrites := w'\<rparr>) (t\<lparr>disk := d', dwrites := w'\<rparr>)" using bsame_disk [OF t, of w' d'] by simp
  then show ?thesis unfolding dsame_def using bsame_trans u by blast
qed

lemma dsame_running: "dsame s s' \<Longrightarrow> running s p \<Longrightarrow> running s' p"
  unfolding dsame_def using bsame_running by (fastforce simp: running_def)

lemma dsame_log: "dsame s s' \<Longrightarrow> log s' = log (s :: 'z kfslog_scheme)"
  unfolding dsame_def by (auto elim!: bsameE)

lemma bsame_log: "bsame s s' \<Longrightarrow> log s' = log (s :: 'z kfslog_scheme)"
  using bsame_dsame dsame_log by blast

definition apply_writes :: "(u32 \<times> u8 list) list \<Rightarrow> (u32 \<Rightarrow> u8 list) \<Rightarrow> u32 \<Rightarrow> u8 list" where
  "apply_writes ws d = fold (\<lambda>(n, v) f. f(n := v)) ws d"

lemma apply_writes_simps [simp]:
  "apply_writes [] d = d" "apply_writes ((n, v) # ws) d = apply_writes ws (d(n := v))"
  "apply_writes (us @ ws) d = apply_writes ws (apply_writes us d)"
  by (simp_all add: apply_writes_def)

definition stepped :: "'z kbuf_scheme \<Rightarrow> (u32 \<Rightarrow> u8 list) \<Rightarrow> (u32 \<Rightarrow> u32) \<Rightarrow> (u32 \<times> u8 list) list \<Rightarrow> 'z kbuf_scheme \<Rightarrow> bool" where
  "stepped s B R ws s' \<longleftrightarrow> dsame s s' \<and> bc_ok s' \<and> blk s' = B \<and> refs s' = R \<and> lckd s' = lckd s \<and>
     disk s' = apply_writes ws (disk s) \<and> dwrites s' = dwrites s @ ws"

lemma stepped_refl: "bc_ok s \<Longrightarrow> stepped s (blk s) (refs s) [] s"
  by (simp add: stepped_def)

lemma stepped_trans: "stepped s B R ws t \<Longrightarrow> stepped t B' R' ws' u \<Longrightarrow> stepped s B' R' (ws @ ws') u"
  using dsame_trans [of s t u] by (simp add: stepped_def)

text \<open>Reading two blocks, storing one into the other's buffer and on disk, releasing both.\<close>

lemma two_breads:
  assumes ok: "bc_ok s" and run: "running s p" and e: "0 < fst e" and ne: "m \<noteq> n"
    and m: "\<not> lckd s m" "refs s m + 1 \<noteq> 0" and n: "\<not> lckd s n" "refs s n + 1 \<noteq> 0"
    and av: "card (busy s) + (if refs s m = 0 then 1 else 0) + (if refs s n = 0 then 1 else 0) \<le> NBUF"
  obtains b s1 c s2 where "bread e ROOTDEV m s = Inr (b, s1)" "bread e ROOTDEV n s1 = Inr (c, s2)"
    "bsame s s1" "bsame s s2" "bc_ok s2" "running s2 p" "holds s2 b m" "holds s2 c n" "b_data (bcache s2 b) = blk s m"
    "b_data (bcache s2 c) = blk s n" "blk s2 = blk s" "refs s2 = (refs s)(m := refs s m + 1, n := refs s n + 1)"
    "lckd s2 = (lckd s)(m := True, n := True)"
proof -
  have "refs s m \<noteq> 0 \<or> card (busy s) < NBUF" using av by (auto split: if_splits)
  from bread_view [OF ok run e m(1) this m(2)]
  obtain b s1 where 1: "bread e ROOTDEV m s = Inr (b, s1)" "got s m b s1" "running s1 p" .
  then have g1: "bsame s s1" "bc_ok s1" "holds s1 b m" "b_data (bcache s1 b) = blk s m" "blk s1 = blk s"
    "refs s1 = (refs s)(m := refs s m + 1)" "lckd s1 = (lckd s)(m := True)" by (simp_all add: got_def)
  have "busy s1 = insert m (busy s)" using g1(6) m(2) by (auto simp: busy_def)
  then have "card (busy s1) = card (busy s) + (if refs s m = 0 then 1 else 0)"
    using busy_finite [OF ok] by (simp add: card_insert_if busy_def)
  then have av1: "refs s1 n \<noteq> 0 \<or> card (busy s1) < NBUF" using av ne g1(6) by (auto split: if_splits)
  have "\<not> lckd s1 n" "refs s1 n + 1 \<noteq> 0" "refs s1 n = refs s n" using n ne g1 by simp_all
  from bread_view [OF g1(2) 1(3) e this(1) av1 this(2)]
  obtain c s2 where 2: "bread e ROOTDEV n s1 = Inr (c, s2)" "got s1 n c s2" "running s2 p" .
  then have g2: "bsame s1 s2" "bc_ok s2" "holds s2 c n" "b_data (bcache s2 c) = blk s1 n" "blk s2 = blk s1"
    "refs s2 = (refs s1)(n := refs s1 n + 1)" "lckd s2 = (lckd s1)(n := True)" by (simp_all add: got_def)
  note h = holds_got [OF g1(2) 2(2) g1(3) ne [symmetric]]
  show thesis
    using that [OF 1(1) 2(1) g1(1) bsame_trans [OF g1(1) g2(1)] g2(2) 2(3) h(1) g2(3)] g1 g2 h \<open>refs s1 n = refs s n\<close>
    by simp
qed

lemma two_brelses:
  assumes ok: "bc_ok s" and run: "running s p" and b: "holds s b m" and c: "holds s c n" and ne: "m \<noteq> n"
    and cl: "refs s m = 1 \<Longrightarrow> blk s m = disk s m" "refs s n = 1 \<Longrightarrow> blk s n = disk s n"
  obtains s1 s2 where "brelse b s = Inr s1" "brelse c s1 = Inr s2" "bsame s s2" "bc_ok s2" "blk s2 = blk s"
    "refs s2 = (refs s)(m := refs s m - 1, n := refs s n - 1)" "lckd s2 = (lckd s)(m := False, n := False)"
proof -
  obtain s1 where 1: "brelse b s = Inr s1" "gave s m b s1" using brelse_ok [OF ok run b cl(1)] .
  then have g1: "bsame s s1" "bc_ok s1" "blk s1 = blk s" "refs s1 = (refs s)(m := refs s m - 1)" "lckd s1 = (lckd s)(m := False)"
    by (simp_all add: gave_def)
  have cl2: "blk s1 n = disk s1 n" if "refs s1 n = 1" using that g1 cl(2) ne bsame_fields(3) [OF g1(1)] by simp
  obtain s2 where 2: "brelse c s1 = Inr s2" "gave s1 n c s2"
    using brelse_ok [OF g1(2) bsame_running [OF g1(1) run] holds_gave [OF 1(2) b c ne] cl2] .
  then have g2: "bsame s1 s2" "bc_ok s2" "blk s2 = blk s1" "refs s2 = (refs s1)(n := refs s1 n - 1)" "lckd s2 = (lckd s1)(n := False)"
    by (simp_all add: gave_def)
  show thesis
    using that [OF 1(1) 2(1) bsame_trans [OF g1(1) g2(1)] g2(2)] g1 g2 ne by simp
qed

lemma store_block:
  assumes ok: "bc_ok s" and run: "running s p" and h: "holds s b n" and d: "length d = BSIZE"
  obtains s' where "bwrite b (set_data b d s) = Inr s'" "dsame s s'" "bc_ok s'" "running s' p" "holds s' b n"
    "blk s' = (blk s)(n := d)" "refs s' = refs s" "lckd s' = lckd s" "disk s' = (disk s)(n := d)" "dwrites s' = dwrites s @ [(n, d)]"
    "\<forall>c m. holds s c m \<longrightarrow> n \<noteq> m \<longrightarrow> holds s' c m"
proof -
  note sd = set_data_ok [OF ok h d]
  have run': "running (set_data b d s) p" using bsame_running [OF sd(1) run] .
  have bd: "blk (set_data b d s) n = d" using sd(5) by simp
  note w = bwrite_ok [OF sd(2) run' sd(3), unfolded bd]
  define s' where "s' = (set_data b d s)\<lparr>disk := (disk (set_data b d s))(n := d), dwrites := dwrites (set_data b d s) @ [(n, d)]\<rparr>"
  have f: "disk (set_data b d s) = disk s" "dwrites (set_data b d s) = dwrites s" by (simp_all add: set_data_def upd_buf_def)
  have hh: "holds s' c m = holds (set_data b d s) c m" for c m by (simp add: s'_def holds_def cached_def mine_def)
  have v: "bufof s' = bufof (set_data b d s)" by (simp add: s'_def bufof_def fun_eq_iff)
  have bs: "bcache s' = bcache (set_data b d s)" "slock s' = slock (set_data b d s)" by (simp_all add: s'_def)
  have rl: "refs s' = refs (set_data b d s)" "lckd s' = lckd (set_data b d s)"
    unfolding refs_def [abs_def] lckd_def [abs_def] v bs by (rule refl)+
  show thesis
  proof (rule that)
    show "bwrite b (set_data b d s) = Inr s'" using w(1) by (simp add: s'_def)
    show "dsame s s'" using dsame_trans [OF bsame_dsame [OF sd(1)] dsame_disk] by (simp add: s'_def)
    show "bc_ok s'" using w(2) by (simp add: s'_def)
    show "running s' p" using run' by (simp add: s'_def running_def)
    show "holds s' b n" using hh sd(3) by simp
    show "blk s' = (blk s)(n := d)" using w(3) sd(5) by (simp add: s'_def)
    show "refs s' = refs s" "lckd s' = lckd s" using rl sd(6,7) by simp_all
    show "disk s' = (disk s)(n := d)" "dwrites s' = dwrites s @ [(n, d)]" using f by (simp_all add: s'_def)
    show "\<forall>c m. holds s c m \<longrightarrow> n \<noteq> m \<longrightarrow> holds s' c m" using hh holds_set_data [OF ok h d] by simp
  qed
qed

section \<open>The functions of the log\<close>

text \<open>\<open>can_read s n\<close>: a block that can be read now; \<open>spare s k\<close>: \<open>k\<close> buffers are to be had.\<close>

definition can_read :: "'z kbuf_scheme \<Rightarrow> u32 \<Rightarrow> bool" where
  "can_read s n \<longleftrightarrow> \<not> lckd s n \<and> refs s n + 1 \<noteq> 0"

definition spare :: "'z kbuf_scheme \<Rightarrow> nat \<Rightarrow> bool" where
  "spare s k \<longleftrightarrow> card (busy s) + k \<le> NBUF"

lemma blk_length: "bc_ok s \<Longrightarrow> length (blk s n) = BSIZE"
proof (cases "\<exists>b. cached s n b")
  case True
  assume ok: "bc_ok s"
  from True obtain b where c: "cached s n b" by blast
  then show ?thesis using view_cached(1) [OF ok c] buf_okD [OF ok, of b] ok by (simp add: cached_def buf_ok_def bc_ok_def)
next
  case False
  assume "bc_ok s"
  then show ?thesis using view_none(1) [of s n] False by (simp add: bc_ok_def)
qed

lemma fun_upd_undo: "a \<noteq> b \<Longrightarrow> f(a := x, b := y, a := f a, b := f b) = f"
  by (simp add: fun_eq_iff)

lemma write_log_one_ok:
  assumes ok: "bc_ok s" and run: "running s p" and e: "0 < fst e" and dev: "l_dev (log s) = ROOTDEV"
    and dst: "dst = l_start (log s) + of_nat tail + 1" and src: "src = lh_block (log s) ! tail" and ne: "dst \<noteq> src"
    and rd: "can_read s dst" "can_read s src" "refs s dst = 0" "refs s src \<noteq> 0" and sp: "spare s 1"
  shows "\<exists>s'. write_log_one e tail s = Inr s' \<and> stepped s ((blk s)(dst := blk s src)) (refs s) [(dst, blk s src)] s'"
proof -
  obtain b s1 c s2 where r: "bread e ROOTDEV dst s = Inr (b, s1)" "bread e ROOTDEV src s1 = Inr (c, s2)"
    and b1: "bsame s s1" and g: "bsame s s2" "bc_ok s2" "running s2 p" "holds s2 b dst" "holds s2 c src"
    "b_data (bcache s2 b) = blk s dst" "b_data (bcache s2 c) = blk s src" "blk s2 = blk s"
    "refs s2 = (refs s)(dst := refs s dst + 1, src := refs s src + 1)" "lckd s2 = (lckd s)(dst := True, src := True)"
    by (rule two_breads [OF ok run e ne]) (use rd sp in \<open>auto simp: can_read_def spare_def\<close>)
  obtain s3 where w: "bwrite b (set_data b (blk s src) s2) = Inr s3" "dsame s2 s3" "bc_ok s3" "running s3 p" "holds s3 b dst"
    "blk s3 = (blk s2)(dst := blk s src)" "refs s3 = refs s2" "lckd s3 = lckd s2" "disk s3 = (disk s2)(dst := blk s src)"
    "dwrites s3 = dwrites s2 @ [(dst, blk s src)]" "\<forall>c m. holds s2 c m \<longrightarrow> dst \<noteq> m \<longrightarrow> holds s3 c m"
    using store_block [OF g(2,3,4) blk_length [OF ok, of src]] .
  have cl: "refs s3 src = 1 \<Longrightarrow> blk s3 src = disk s3 src" "refs s3 dst = 1 \<Longrightarrow> blk s3 dst = disk s3 dst"
    using w g rd(4) by simp_all
  obtain s4 s5 where q: "brelse c s3 = Inr s4" "brelse b s4 = Inr s5" "bsame s3 s5" "bc_ok s5" "blk s5 = blk s3"
    "refs s5 = (refs s3)(src := refs s3 src - 1, dst := refs s3 dst - 1)" "lckd s5 = (lckd s3)(src := False, dst := False)"
    using two_brelses [OF w(3,4) w(11) [rule_format, OF g(5) ne] w(5) ne [symmetric] cl] .
  have "write_log_one e tail s = Inr s5"
    using r w(1) q(1,2) g(7) dev dst src bsame_log [OF b1] by (simp add: write_log_one_def)
  moreover have "dsame s s5" using dsame_trans [OF bsame_dsame [OF g(1)]] dsame_trans [OF w(2) bsame_dsame [OF q(3)]] by blast
  moreover have "refs s5 = refs s" using q(6) w(7) g(9) ne by (auto simp: fun_eq_iff)
  moreover have "lckd s5 = lckd s" using q(7) w(8) g(10) rd(1,2) by (auto simp: fun_eq_iff can_read_def)
  ultimately show ?thesis
    using q w g bsame_fields(3,4) [OF g(1)] bsame_fields(3,4) [OF q(3)] by (auto simp: stepped_def)
qed

lemma install_one_ok:
  assumes ok: "bc_ok s" and run: "running s p" and e: "0 < fst e" and dev: "l_dev (log s) = ROOTDEV"
    and src: "src = l_start (log s) + of_nat tail + 1" and dst: "dst = lh_block (log s) ! tail" and ne: "src \<noteq> dst"
    and rd: "can_read s src" "can_read s dst" "refs s src = 0" and rec: "recovering \<or> refs s dst \<noteq> 0" and sp: "spare s 2"
  shows "\<exists>s'. install_one e recovering tail s = Inr s' \<and>
    stepped s ((blk s)(dst := blk s src)) ((refs s)(dst := refs s dst - (if recovering then 0 else 1))) [(dst, blk s src)] s'"
proof -
  obtain b s1 c s2 where r: "bread e ROOTDEV src s = Inr (b, s1)" "bread e ROOTDEV dst s1 = Inr (c, s2)"
    and b1: "bsame s s1" and g: "bsame s s2" "bc_ok s2" "running s2 p" "holds s2 b src" "holds s2 c dst"
    "b_data (bcache s2 b) = blk s src" "b_data (bcache s2 c) = blk s dst" "blk s2 = blk s"
    "refs s2 = (refs s)(src := refs s src + 1, dst := refs s dst + 1)" "lckd s2 = (lckd s)(src := True, dst := True)"
    by (rule two_breads [OF ok run e ne]) (use rd sp in \<open>auto simp: can_read_def spare_def\<close>)
  obtain s3 where w: "bwrite c (set_data c (blk s src) s2) = Inr s3" "dsame s2 s3" "bc_ok s3" "running s3 p" "holds s3 c dst"
    "blk s3 = (blk s2)(dst := blk s src)" "refs s3 = refs s2" "lckd s3 = lckd s2" "disk s3 = (disk s2)(dst := blk s src)"
    "dwrites s3 = dwrites s2 @ [(dst, blk s src)]" "\<forall>c m. holds s2 c m \<longrightarrow> dst \<noteq> m \<longrightarrow> holds s3 c m"
    using store_block [OF g(2,3,5) blk_length [OF ok, of src]] .
  obtain s4 where u: "(if recovering then Inr s3 else bunpin c s3) = Inr s4" "bsame s3 s4" "bc_ok s4" "holds s4 c dst" "holds s4 b src"
    "blk s4 = blk s3" "refs s4 = (refs s3)(dst := refs s3 dst - (if recovering then 0 else 1))" "lckd s4 = lckd s3"
  proof (cases recovering)
    case True
    then show thesis using that [of s3] w g ne by simp
  next
    case False
    then have "refs s3 dst \<noteq> 1" using w g rec by simp
    from bunpin_ok [OF w(3,4,5) this] obtain s4 where u: "bunpin c s3 = Inr s4" "bsame s3 s4" "bc_ok s4" "holds s4 c dst" "others c s3 s4"
      "blk s4 = blk s3" "refs s4 = (refs s3)(dst := refs s3 dst - 1)" "lckd s4 = lckd s3" .
    have hb: "holds s3 b src" using w(11) [rule_format, OF g(4)] ne by simp
    then have "holds s4 b src" using holds_others(1) [OF u(5,2) holds_ne [OF w(5) hb] hb] ne by simp
    then show thesis using that [of s4] u False by simp
  qed
  have run4: "running s4 p" using bsame_running [OF u(2) w(4)] .
  have d4: "disk s4 = (disk s2)(dst := blk s src)" using bsame_fields(3) [OF u(2)] w(9) by simp
  have cl: "refs s4 src = 1 \<Longrightarrow> blk s4 src = disk s4 src" "refs s4 dst = 1 \<Longrightarrow> blk s4 dst = disk s4 dst"
    using u w g d4 ne idle_clean [OF ok rd(3)] bsame_fields(3) [OF g(1)] by simp_all
  obtain s5 s6 where q: "brelse b s4 = Inr s5" "brelse c s5 = Inr s6" "bsame s4 s6" "bc_ok s6" "blk s6 = blk s4"
    "refs s6 = (refs s4)(src := refs s4 src - 1, dst := refs s4 dst - 1)" "lckd s6 = (lckd s4)(src := False, dst := False)"
    using two_brelses [OF u(3) run4 u(5,4) ne cl] .
  have "install_one e recovering tail s = Inr s6"
    using r w(1) u(1) q(1,2) g(6) dev dst src bsame_log [OF b1] by (simp add: install_one_def)
  moreover have "dsame s s6"
    using dsame_trans [OF bsame_dsame [OF g(1)] dsame_trans [OF w(2) bsame_dsame [OF bsame_trans [OF u(2) q(3)]]]] .
  moreover have "refs s6 = (refs s)(dst := refs s dst - (if recovering then 0 else 1))" using q(6) u(7) w(7) g(9) ne by (auto simp: fun_eq_iff)
  moreover have "lckd s6 = lckd s" using q(7) u(8) w(8) g(10) rd(1,2) by (auto simp: fun_eq_iff can_read_def)
  moreover have "disk s6 = (disk s)(dst := blk s src)" "dwrites s6 = dwrites s @ [(dst, blk s src)]"
    using bsame_fields(3,4) [OF g(1)] bsame_fields(3,4) [OF u(2)] bsame_fields(3,4) [OF q(3)] w(9,10) by simp_all
  ultimately show ?thesis using q(4,5) u(6) w(6) g(8) by (auto simp: stepped_def)
qed

text \<open>Nothing of the cache depends on the log.\<close>

lemma upd_log_view [simp]:
  "bc_ok (upd_log f s) = bc_ok s" "blk (upd_log f s) = blk s" "refs (upd_log f s) = refs s" "lckd (upd_log f s) = lckd s"
  "running (upd_log f s) p = running s p" "holds (upd_log f s) b n = holds s b n" "disk (upd_log f s) = disk s"
  "dwrites (upd_log f s) = dwrites s" "can_read (upd_log f s) n = can_read s n" "spare (upd_log f s) k = spare s k"
  "log (upd_log f s) = f (log s)" "bcache (upd_log f s) = bcache s"
proof -
  have u: "bcache (upd_log f s) = bcache s" "slock (upd_log f s) = slock s" "disk (upd_log f s) = disk s"
    "cur (upd_log f s) = cur s" "held (upd_log f s) = held s" "ptable (upd_log f s) = ptable s" by (simp_all add: upd_log_def)
  show b: "bc_ok (upd_log f s) = bc_ok s" by (simp add: bc_ok_def u)
  have bo: "bufof (upd_log f s) = bufof s" by (simp add: bufof_def u fun_eq_iff)
  show "blk (upd_log f s) = blk s" "lckd (upd_log f s) = lckd s"
    unfolding blk_def [abs_def] lckd_def [abs_def] bo u by (rule refl)+
  show "refs (upd_log f s) = refs s" unfolding refs_def [abs_def] bo u by (rule refl)
  then show "can_read (upd_log f s) n = can_read s n" "spare (upd_log f s) k = spare s k"
    using \<open>lckd (upd_log f s) = lckd s\<close> by (simp_all add: can_read_def spare_def busy_def)
qed (simp_all add: upd_log_def running_def holds_def cached_def mine_def)

lemma bsame_upd_log:
  assumes "bsame s t"
  shows "bsame (upd_log f s) (upd_log f t)"
proof (rule bsameE [OF assms])
  fix bc sl pt
  assume "t = s\<lparr>bcache := bc, slock := sl, ptable := pt\<rparr>" "\<And>j. psame (ptable s j) (pt j)"
    "\<And>nm. nm \<noteq> ''buffer'' \<Longrightarrow> sl nm = slock s nm"
  then show ?thesis by (intro bsameI [where bc = bc and sl = sl and pt = pt]) (simp_all add: upd_log_def)
qed

text \<open>One block read and released, with a change of the log in between.\<close>

lemma bread_brelse:
  assumes ok: "bc_ok s" and run: "running s p" and e: "0 < fst e" and rd: "can_read s n" and sp: "spare s 1"
  obtains b s1 where "bread e ROOTDEV n s = Inr (b, s1)" "b_data (bcache s1 b) = blk s n" "log s1 = log s"
    "\<And>f. \<exists>s2. brelse b (upd_log f s1) = Inr s2 \<and> stepped (upd_log f s) (blk s) (refs s) [] s2"
proof -
  obtain b s1 where r: "bread e ROOTDEV n s = Inr (b, s1)" "got s n b s1" "running s1 p"
    by (rule bread_view [OF ok run e, of n]) (use rd sp in \<open>auto simp: can_read_def spare_def\<close>)
  then have g: "bsame s s1" "bc_ok s1" "holds s1 b n" "b_data (bcache s1 b) = blk s n" "blk s1 = blk s"
    "refs s1 = (refs s)(n := refs s n + 1)" "lckd s1 = (lckd s)(n := True)" by (simp_all add: got_def)
  have fin: "\<exists>s2. brelse b (upd_log f s1) = Inr s2 \<and> stepped (upd_log f s) (blk s) (refs s) [] s2" for f
  proof -
    have cl: "blk (upd_log f s1) n = disk (upd_log f s1) n" if "refs (upd_log f s1) n = 1"
      using that g idle_clean [OF ok] bsame_fields(3) [OF g(1)] by simp
    obtain s2 where q: "brelse b (upd_log f s1) = Inr s2" "gave (upd_log f s1) n b s2"
      using brelse_ok [OF _ _ _ cl] g r(3) by (metis upd_log_view(1,5,6))
    have b2: "bsame (upd_log f s) s2" using q(2) bsame_trans [OF bsame_upd_log [OF g(1)]] by (simp add: gave_def)
    have "lckd s2 = lckd s" using q(2) g(7) rd by (auto simp: gave_def can_read_def fun_eq_iff)
    then show ?thesis
      using q g(5,6) bsame_fields(3,4) [OF b2] bsame_dsame [OF b2] by (auto simp: gave_def stepped_def)
  qed
  show thesis by (rule that [OF r(1) g(4) bsame_log [OF g(1)] fin])
qed

lemma length_put_head:
  assumes "length hb = BSIZE" "nat (sint n) \<le> LOGSIZE"
  shows "length (put_head n bl hb) = BSIZE"
proof -
  have "length (fold (\<lambda>i d. put32 (4 + 4 * i) (bl ! i) d) [0..<k] d) = BSIZE" if "length d = BSIZE" "k \<le> LOGSIZE" for k d
    using that by (induction k) (auto simp: BSIZE_def LOGSIZE_def MAXOPBLOCKS_def)
  then show ?thesis using assms by (simp add: put_head_def BSIZE_def)
qed

lemma get_put_head:
  assumes "length hb = BSIZE" "nat (sint n) \<le> LOGSIZE"
  shows "get32 (put_head n bl hb) 0 = n" "i < nat (sint n) \<Longrightarrow> get32 (put_head n bl hb) (4 + 4 * i) = bl ! i"
proof -
  have f: "length (fold (\<lambda>i d. put32 (4 + 4 * i) (bl ! i) d) [0..<k] d) = BSIZE \<and>
      get32 (fold (\<lambda>i d. put32 (4 + 4 * i) (bl ! i) d) [0..<k] d) 0 = get32 d 0 \<and>
      (\<forall>i < k. get32 (fold (\<lambda>i d. put32 (4 + 4 * i) (bl ! i) d) [0..<k] d) (4 + 4 * i) = bl ! i)"
    if "length d = BSIZE" "k \<le> LOGSIZE" for k d
    using that
  proof (induction k)
    case (Suc k)
    let ?d = "fold (\<lambda>i d. put32 (4 + 4 * i) (bl ! i) d) [0..<k] d"
    have IH: "length ?d = BSIZE" "get32 ?d 0 = get32 d 0" "\<And>i. i < k \<Longrightarrow> get32 ?d (4 + 4 * i) = bl ! i" using Suc by auto
    have "k < 30" using Suc.prems by (simp add: LOGSIZE_def MAXOPBLOCKS_def)
    then show ?case using IH by (auto simp: get32_put32_other BSIZE_def less_Suc_eq)
  qed simp
  have "length (put32 0 n hb) = BSIZE" "get32 (put32 0 n hb) 0 = n" using assms(1) by (simp_all add: BSIZE_def)
  then show "get32 (put_head n bl hb) 0 = n" "i < nat (sint n) \<Longrightarrow> get32 (put_head n bl hb) (4 + 4 * i) = bl ! i"
    using f [of "put32 0 n hb" "nat (sint n)"] assms(2) by (simp_all add: put_head_def)
qed

lemma write_head_ok:
  assumes ok: "bc_ok s" and run: "running s p" and e: "0 < fst e" and dev: "l_dev (log s) = ROOTDEV" and l: "logged s \<le> LOGSIZE"
    and rd: "can_read s (l_start (log s))" and sp: "spare s 1"
    and h: "h = put_head (lh_n (log s)) (lh_block (log s)) (blk s (l_start (log s)))"
  shows "\<exists>s'. write_head e s = Inr s' \<and> stepped s ((blk s)(l_start (log s) := h)) (refs s) [(l_start (log s), h)] s'"
proof -
  let ?n = "l_start (log s)"
  obtain b s1 where r: "bread e ROOTDEV ?n s = Inr (b, s1)" "got s ?n b s1" "running s1 p"
    by (rule bread_view [OF ok run e, of ?n]) (use rd sp in \<open>auto simp: can_read_def spare_def\<close>)
  then have g: "bsame s s1" "bc_ok s1" "holds s1 b ?n" "b_data (bcache s1 b) = blk s ?n" "blk s1 = blk s"
    "refs s1 = (refs s)(?n := refs s ?n + 1)" "lckd s1 = (lckd s)(?n := True)" by (simp_all add: got_def)
  have hl: "length h = BSIZE" using length_put_head [OF blk_length [OF ok] l] h by simp
  obtain s2 where w: "bwrite b (set_data b h s1) = Inr s2" "dsame s1 s2" "bc_ok s2" "running s2 p" "holds s2 b ?n"
    "blk s2 = (blk s1)(?n := h)" "refs s2 = refs s1" "lckd s2 = lckd s1" "disk s2 = (disk s1)(?n := h)"
    "dwrites s2 = dwrites s1 @ [(?n, h)]" "\<forall>c m. holds s1 c m \<longrightarrow> ?n \<noteq> m \<longrightarrow> holds s2 c m"
    using store_block [OF g(2) r(3) g(3) hl] .
  have cl: "blk s2 ?n = disk s2 ?n" using w by simp
  obtain s3 where q: "brelse b s2 = Inr s3" "gave s2 ?n b s3" using brelse_ok [OF w(3,4,5) cl] .
  have q': "bsame s2 s3" "bc_ok s3" "blk s3 = blk s2" "refs s3 = (refs s2)(?n := refs s2 ?n - 1)" "lckd s3 = (lckd s2)(?n := False)"
    using q(2) by (simp_all add: gave_def)
  have "write_head e s = Inr s3"
    using r(1) w(1) q(1) g(4) dev h bsame_log [OF g(1)] by (simp add: write_head_def Let_def)
  moreover have "dsame s s3" using dsame_trans [OF bsame_dsame [OF g(1)] dsame_trans [OF w(2) bsame_dsame [OF q'(1)]]] .
  moreover have "refs s3 = refs s" using q'(4) w(7) g(6) by (auto simp: fun_eq_iff)
  moreover have "lckd s3 = lckd s" using q'(5) w(8) g(7) rd by (auto simp: fun_eq_iff can_read_def)
  ultimately show ?thesis
    using q' w g bsame_fields(3,4) [OF g(1)] bsame_fields(3,4) [OF q'(1)] by (auto simp: stepped_def)
qed

definition head_n :: "u8 list \<Rightarrow> i32" where "head_n h = get32 h 0"

definition head_blocks :: "u8 list \<Rightarrow> u32 list" where
  "head_blocks h = map (\<lambda>i. get32 h (4 + 4 * i)) [0..<nat (sint (head_n h))]"

lemma read_head_ok:
  assumes ok: "bc_ok s" and run: "running s p" and e: "0 < fst e" and dev: "l_dev (log s) = ROOTDEV"
    and rd: "can_read s (l_start (log s))" and sp: "spare s 1"
    and h: "h = blk s (l_start (log s))" and l: "nat (sint (head_n h)) \<le> LOGSIZE"
  shows "\<exists>s'. read_head e s = Inr s' \<and>
    stepped (upd_log (\<lambda>l. l\<lparr>lh_n := head_n h, lh_block := head_blocks h @ drop (nat (sint (head_n h))) (lh_block l)\<rparr>) s) (blk s) (refs s) [] s'"
proof -
  let ?f = "\<lambda>l. l\<lparr>lh_n := head_n h, lh_block := head_blocks h @ drop (nat (sint (head_n h))) (lh_block l)\<rparr>"
  obtain b s1 where r: "bread e ROOTDEV (l_start (log s)) s = Inr (b, s1)" "b_data (bcache s1 b) = h" "log s1 = log s"
    and q: "\<And>f. \<exists>s2. brelse b (upd_log f s1) = Inr s2 \<and> stepped (upd_log f s) (blk s) (refs s) [] s2"
    using bread_brelse [OF ok run e rd sp] h by metis
  have "read_head e s = brelse b (upd_log ?f s1)"
    using r l dev by (simp add: read_head_def Let_def head_n_def head_blocks_def)
  then show ?thesis using q [of ?f] by simp
qed

text \<open>
  The layout of a log: its area does not wrap around and has none of the logged blocks; these are
  different. \<open>log_ready\<close>: nobody else uses the log area, the logged blocks are pinned.
\<close>

definition log_area :: "logstate \<Rightarrow> u32 set" where
  "log_area l = (\<lambda>i. l_start l + of_nat i) ` {..<LOGSIZE}"

definition log_blocks :: "logstate \<Rightarrow> u32 list" where
  "log_blocks l = take (nat (sint (lh_n l))) (lh_block l)"

definition log_wf :: "logstate \<Rightarrow> bool" where
  "log_wf l \<longleftrightarrow> l_dev l = ROOTDEV \<and> unat (l_start l) + LOGSIZE < 2 ^ 32 \<and> 0 \<le> sint (lh_n l) \<and> sint (lh_n l) < int LOGSIZE \<and>
     length (lh_block l) = LOGSIZE \<and> distinct (log_blocks l) \<and> set (log_blocks l) \<inter> log_area l = {}"

definition log_idle :: "'z kfslog_scheme \<Rightarrow> bool" where
  "log_idle s \<longleftrightarrow> (\<forall>m \<in> log_area (log s). refs s m = 0 \<and> \<not> lckd s m) \<and> spare s 2"

lemma log_pos_inj:
  assumes "log_wf l" "i \<le> LOGSIZE" "j \<le> LOGSIZE"
  shows "l_start l + of_nat i = l_start l + of_nat j \<longleftrightarrow> i = j"
proof -
  have "(of_nat i :: u32) = of_nat j \<longleftrightarrow> i = j"
    using assms(2,3) by (simp add: LOGSIZE_def MAXOPBLOCKS_def word_of_nat_eq_iff take_bit_eq_mod)
  then show ?thesis by simp
qed

lemma log_pos_area: "Suc i < LOGSIZE \<Longrightarrow> l_start l + of_nat i + 1 \<in> log_area l" "l_start l \<in> log_area l"
proof -
  show "Suc i < LOGSIZE \<Longrightarrow> l_start l + of_nat i + 1 \<in> log_area l"
    unfolding log_area_def by (rule image_eqI [of _ _ "Suc i"]) (simp_all add: add_ac)
  show "l_start l \<in> log_area l" unfolding log_area_def by (rule image_eqI [of _ _ 0]) (simp_all add: LOGSIZE_def MAXOPBLOCKS_def)
qed

lemma log_area_less:
  assumes "unat (l_start l) + LOGSIZE < 2 ^ 32" "m \<in> log_area l"
  shows "unat m < unat (l_start l) + LOGSIZE"
proof -
  obtain i where i: "i < LOGSIZE" "m = l_start l + of_nat i" using assms(2) by (auto simp: log_area_def)
  have "unat (of_nat i :: u32) = i" using i(1) by (simp add: unsigned_of_nat take_bit_eq_mod LOGSIZE_def MAXOPBLOCKS_def)
  then have "unat m \<le> unat (l_start l) + i" using i(2) by (simp add: unat_word_ariths)
  then show ?thesis using i(1) by simp
qed

text \<open>The writes of the two loops, for the first \<open>k\<close> logged blocks; \<open>B\<close> gives the content of the blocks.\<close>

definition log_writes :: "logstate \<Rightarrow> (u32 \<Rightarrow> u8 list) \<Rightarrow> nat \<Rightarrow> (u32 \<times> u8 list) list" where
  "log_writes l B k = map (\<lambda>i. (l_start l + of_nat i + 1, B (lh_block l ! i))) [0..<k]"

definition home_writes :: "logstate \<Rightarrow> (u32 \<Rightarrow> u8 list) \<Rightarrow> nat \<Rightarrow> (u32 \<times> u8 list) list" where
  "home_writes l B k = map (\<lambda>i. (lh_block l ! i, B (l_start l + of_nat i + 1))) [0..<k]"

lemma log_writes_Suc: "log_writes l B (Suc k) = log_writes l B k @ [(l_start l + of_nat k + 1, B (lh_block l ! k))]"
  and home_writes_Suc: "home_writes l B (Suc k) = home_writes l B k @ [(lh_block l ! k, B (l_start l + of_nat k + 1))]"
  by (simp_all add: log_writes_def home_writes_def)

lemma apply_writes_notin: "n \<notin> fst ` set ws \<Longrightarrow> apply_writes ws d n = d n"
proof (induction ws arbitrary: d)
  case (Cons w ws)
  then show ?case by (cases w) simp
qed simp

lemma apply_writes_last:
  "apply_writes (ws @ [(n, v)]) d = (apply_writes ws d)(n := v)"
  by simp

lemma log_block_in: "log_wf l \<Longrightarrow> i < nat (sint (lh_n l)) \<Longrightarrow> lh_block l ! i \<in> set (log_blocks l)"
  by (auto simp: log_wf_def log_blocks_def in_set_conv_nth intro!: exI [of _ i])

lemma log_block_eq:
  assumes "log_wf l" "i < nat (sint (lh_n l))" "j < nat (sint (lh_n l))"
  shows "lh_block l ! i = lh_block l ! j \<longleftrightarrow> i = j"
proof -
  have d: "distinct (log_blocks l)" "length (log_blocks l) = nat (sint (lh_n l))" using assms(1) by (auto simp: log_wf_def log_blocks_def)
  have "lh_block l ! k = log_blocks l ! k" if "k < nat (sint (lh_n l))" for k using that by (simp add: log_blocks_def)
  then show ?thesis using nth_eq_iff_index_eq [OF d(1)] d(2) assms(2,3) by simp
qed

lemma log_block_notin: "log_wf l \<Longrightarrow> i < nat (sint (lh_n l)) \<Longrightarrow> lh_block l ! i \<notin> log_area l"
  using log_block_in [of l i] by (auto simp: log_wf_def)

lemma logged_less: "log_wf l \<Longrightarrow> nat (sint (lh_n l)) < LOGSIZE"
  and logged_le: "log_wf l \<Longrightarrow> nat (sint (lh_n l)) \<le> LOGSIZE"
  by (auto simp: log_wf_def LOGSIZE_def)

lemma log_writes_area: "k < LOGSIZE \<Longrightarrow> fst ` set (log_writes l B k) \<subseteq> log_area l"
  by (auto simp: log_writes_def intro!: log_pos_area(1))

lemma write_log_ok:
  assumes ok: "bc_ok s" and run: "running s p" and e: "0 < fst e" and wf: "log_wf (log s)" and idle: "log_idle s"
    and pin: "\<And>m. m \<in> set (log_blocks (log s)) \<Longrightarrow> can_read s m \<and> refs s m \<noteq> 0"
  shows "\<exists>s'. write_log e s = Inr s' \<and>
    stepped s (apply_writes (log_writes (log s) (blk s) (logged s)) (blk s)) (refs s) (log_writes (log s) (blk s) (logged s)) s'"
proof -
  let ?l = "log s"
  have "\<exists>s'. foldE (write_log_one e) [0..<k] s = Inr s' \<and>
      stepped s (apply_writes (log_writes ?l (blk s) k) (blk s)) (refs s) (log_writes ?l (blk s) k) s'" if "k \<le> logged s" for k
    using that
  proof (induction k)
    case 0
    then show ?case using stepped_refl [OF ok] by (simp add: log_writes_def)
  next
    case (Suc k)
    let ?dst = "l_start ?l + of_nat k + 1" and ?src = "lh_block ?l ! k"
    obtain t where t: "foldE (write_log_one e) [0..<k] s = Inr t"
      "stepped s (apply_writes (log_writes ?l (blk s) k) (blk s)) (refs s) (log_writes ?l (blk s) k) t" using Suc by auto
    then have st: "dsame s t" "bc_ok t" "blk t = apply_writes (log_writes ?l (blk s) k) (blk s)" "refs t = refs s" "lckd t = lckd s"
      by (simp_all add: stepped_def)
    have k: "Suc k < LOGSIZE" "k < logged s" using Suc.prems logged_less [OF wf] by auto
    have lt: "log t = ?l" using dsame_log [OF st(1)] .
    have a: "?dst \<in> log_area ?l" "?src \<notin> log_area ?l" "?src \<in> set (log_blocks ?l)"
      using log_pos_area(1) [OF k(1)] log_block_notin [OF wf k(2)] log_block_in [OF wf k(2)] by auto
    have bs: "blk t ?src = blk s ?src" using st(3) a(2) log_writes_area [of k ?l] k(1) by (auto intro!: apply_writes_notin)
    have rd: "can_read t ?dst" "can_read t ?src" "refs t ?dst = 0" "refs t ?src \<noteq> 0" "spare t 1"
      using a pin [OF a(3)] idle st(4,5) by (auto simp: can_read_def log_idle_def spare_def busy_def)
    have ne: "?dst \<noteq> ?src" using a(1,2) by auto
    obtain u where u: "write_log_one e k t = Inr u"
      "stepped t ((blk t)(?dst := blk t ?src)) (refs t) [(?dst, blk t ?src)] u"
      using write_log_one_ok [OF st(2) dsame_running [OF st(1) run] e _ _ _ ne rd, of k] wf lt by (auto simp: log_wf_def)
    have "stepped s (apply_writes (log_writes ?l (blk s) (Suc k)) (blk s)) (refs s) (log_writes ?l (blk s) (Suc k)) u"
      using stepped_trans [OF t(2) u(2)] st(3,4) bs by (simp add: log_writes_Suc)
    then show ?case using t(1) u(1) by (simp add: foldE_snoc)
  qed
  then show ?thesis by (simp add: write_log_def)
qed

lemma spare_mono: "bc_ok s \<Longrightarrow> spare s k \<Longrightarrow> (\<And>m. refs t m \<noteq> 0 \<Longrightarrow> refs s m \<noteq> 0) \<Longrightarrow> spare t k"
  using card_mono [of "busy s" "busy t"] busy_finite [of s] by (fastforce simp: spare_def busy_def)

definition unpinned :: "bool \<Rightarrow> u32 set \<Rightarrow> (u32 \<Rightarrow> u32) \<Rightarrow> u32 \<Rightarrow> u32" where
  "unpinned recovering A R m = (if \<not> recovering \<and> m \<in> A then R m - 1 else R m)"

lemma home_writes_notin: "fst ` set (home_writes l B k) = (\<lambda>i. lh_block l ! i) ` {..<k}"
  by (simp add: home_writes_def image_image atLeast0LessThan)

lemma install_trans_ok:
  assumes ok: "bc_ok s" and run: "running s p" and e: "0 < fst e" and wf: "log_wf (log s)" and idle: "log_idle s"
    and pin: "\<And>m. m \<in> set (log_blocks (log s)) \<Longrightarrow> can_read s m \<and> (recovering \<or> refs s m \<noteq> 0)"
  shows "\<exists>s'. install_trans e recovering s = Inr s' \<and>
    stepped s (apply_writes (home_writes (log s) (blk s) (logged s)) (blk s)) (unpinned recovering (set (log_blocks (log s))) (refs s))
      (home_writes (log s) (blk s) (logged s)) s'"
proof -
  let ?l = "log s"
  let ?A = "\<lambda>k. (\<lambda>i. lh_block ?l ! i) ` {..<k}"
  have "\<exists>s'. foldE (install_one e recovering) [0..<k] s = Inr s' \<and>
      stepped s (apply_writes (home_writes ?l (blk s) k) (blk s)) (unpinned recovering (?A k) (refs s)) (home_writes ?l (blk s) k) s'"
    if "k \<le> logged s" for k
    using that
  proof (induction k)
    case 0
    then show ?case using stepped_refl [OF ok] by (simp add: home_writes_def unpinned_def [abs_def])
  next
    case (Suc k)
    let ?src = "l_start ?l + of_nat k + 1" and ?dst = "lh_block ?l ! k"
    obtain t where t: "foldE (install_one e recovering) [0..<k] s = Inr t"
      "stepped s (apply_writes (home_writes ?l (blk s) k) (blk s)) (unpinned recovering (?A k) (refs s)) (home_writes ?l (blk s) k) t"
      using Suc by auto
    then have st: "dsame s t" "bc_ok t" "blk t = apply_writes (home_writes ?l (blk s) k) (blk s)"
      "refs t = unpinned recovering (?A k) (refs s)" "lckd t = lckd s" by (simp_all add: stepped_def)
    have k: "Suc k < LOGSIZE" "k < logged s" using Suc.prems logged_less [OF wf] by auto
    have lt: "log t = ?l" using dsame_log [OF st(1)] .
    have a: "?src \<in> log_area ?l" "?dst \<notin> log_area ?l" "?dst \<in> set (log_blocks ?l)"
      using log_pos_area(1) [OF k(1)] log_block_notin [OF wf k(2)] log_block_in [OF wf k(2)] by auto
    have area: "m \<in> log_area ?l \<Longrightarrow> m \<notin> ?A k" for m using log_block_notin [OF wf] k(2) by auto
    have "lh_block ?l ! i \<noteq> ?dst" if "i < k" for i using log_block_eq [OF wf _ k(2), of i] k(2) that by simp
    then have dn: "?dst \<notin> ?A k" by fastforce
    have bs: "blk t ?src = blk s ?src" using st(3) area [OF a(1)] home_writes_notin by (metis apply_writes_notin)
    have inA: "m \<in> set (log_blocks ?l)" if "m \<in> ?A k" for m using that log_block_in [OF wf] k(2) by auto
    have sp: "spare t 2"
      by (rule spare_mono [OF ok]) (use idle pin inA in \<open>auto simp: log_idle_def st(4) unpinned_def split: if_splits\<close>)
    have rd: "can_read t ?src" "can_read t ?dst" "refs t ?src = 0" "recovering \<or> refs t ?dst \<noteq> 0"
      using a pin [OF a(3)] idle st(4,5) area [OF a(1)] dn by (auto simp: can_read_def log_idle_def unpinned_def)
    have ne: "?src \<noteq> ?dst" using a(1,2) by auto
    obtain u where u: "install_one e recovering k t = Inr u"
      "stepped t ((blk t)(?dst := blk t ?src)) ((refs t)(?dst := refs t ?dst - (if recovering then 0 else 1))) [(?dst, blk t ?src)] u"
      using install_one_ok [OF st(2) dsame_running [OF st(1) run] e _ _ _ ne rd sp, of k] wf lt by (auto simp: log_wf_def)
    have r: "(refs t)(?dst := refs t ?dst - (if recovering then 0 else 1)) = unpinned recovering (?A (Suc k)) (refs s)"
      using dn by (auto simp: st(4) unpinned_def fun_eq_iff lessThan_Suc)
    have "stepped s (apply_writes (home_writes ?l (blk s) (Suc k)) (blk s)) (unpinned recovering (?A (Suc k)) (refs s))
        (home_writes ?l (blk s) (Suc k)) u"
      using stepped_trans [OF t(2) u(2)] st(3) bs r by (simp add: home_writes_Suc)
    then show ?case using t(1) u(1) by (simp add: foldE_snoc)
  qed
  moreover have "?A (logged s) = set (log_blocks ?l)"
    using nth_image [of "logged s" "lh_block ?l"] logged_le [OF wf] wf
    by (simp add: log_blocks_def atLeast0LessThan log_wf_def)
  ultimately show ?thesis by (metis install_trans_def order_refl)
qed

definition commit_head :: "logstate \<Rightarrow> (u32 \<Rightarrow> u8 list) \<Rightarrow> u8 list" where
  "commit_head l B = put_head (lh_n l) (lh_block l) (B (l_start l))"

definition final_writes :: "logstate \<Rightarrow> (u32 \<Rightarrow> u8 list) \<Rightarrow> nat \<Rightarrow> (u32 \<times> u8 list) list" where
  "final_writes l B k = map (\<lambda>i. (lh_block l ! i, B (lh_block l ! i))) [0..<k]"

definition commit_writes :: "logstate \<Rightarrow> (u32 \<Rightarrow> u8 list) \<Rightarrow> (u32 \<times> u8 list) list" where
  "commit_writes l B = log_writes l B (nat (sint (lh_n l))) @ [(l_start l, commit_head l B)] @
     final_writes l B (nat (sint (lh_n l))) @ [(l_start l, put_head 0 (lh_block l) (commit_head l B))]"

lemma log_writes_at:
  assumes wf: "log_wf l" and i: "i < k" "k \<le> LOGSIZE"
  shows "apply_writes (log_writes l B k) d (l_start l + of_nat i + 1) = B (lh_block l ! i)"
  using i
proof (induction k)
  case (Suc k)
  have "l_start l + of_nat i + 1 = l_start l + of_nat k + 1 \<longleftrightarrow> i = k"
    using log_pos_inj [OF wf, of "Suc i" "Suc k"] Suc.prems by (simp add: add_ac)
  then show ?case using Suc by (auto simp: log_writes_Suc)
qed simp

lemma log_start_notin:
  assumes wf: "log_wf l" and k: "k \<le> LOGSIZE"
  shows "apply_writes (log_writes l B k) d (l_start l) = d (l_start l)"
proof (rule apply_writes_notin)
  have "l_start l + of_nat i + 1 \<noteq> l_start l" if "i < k" for i
    using log_pos_inj [OF wf, of "Suc i" 0] that k by (simp add: add_ac)
  then show "l_start l \<notin> fst ` set (log_writes l B k)" by (force simp: log_writes_def)
qed

lemma final_writes_at:
  "apply_writes (final_writes l B k) d m = (if m \<in> (\<lambda>i. lh_block l ! i) ` {..<k} then B m else d m)"
  by (induction k) (auto simp: final_writes_def lessThan_Suc)

lemma log_idle_stepped:
  assumes "stepped s B R ws t" "log_idle s" "\<And>m. m \<in> log_area (log s) \<Longrightarrow> R m = 0" "bc_ok s" "\<And>m. R m \<noteq> 0 \<Longrightarrow> refs s m \<noteq> 0"
  shows "log_idle t"
proof -
  have t: "refs t = R" "lckd t = lckd s" "log t = log s" using assms(1) dsame_log [of s t] by (auto simp: stepped_def)
  have "spare t 2" by (rule spare_mono [OF assms(4)]) (use assms(2,5) t(1) in \<open>auto simp: log_idle_def\<close>)
  then show ?thesis using assms(2,3) t by (auto simp: log_idle_def)
qed

lemma spare_le: "spare s 2 \<Longrightarrow> spare s 1"
  by (simp add: spare_def)

lemma dsame_upd_log: "dsame s t \<Longrightarrow> dsame (upd_log f s) (upd_log f t)"
proof -
  assume "dsame s t"
  then obtain d w where "bsame (s\<lparr>disk := d, dwrites := w\<rparr>) t" by (auto simp: dsame_def)
  moreover have "upd_log f (s\<lparr>disk := d, dwrites := w\<rparr>) = (upd_log f s)\<lparr>disk := d, dwrites := w\<rparr>" by (simp add: upd_log_def)
  ultimately show ?thesis unfolding dsame_def using bsame_upd_log by metis
qed

lemma stepped_upd_log: "stepped s B R ws t \<Longrightarrow> stepped (upd_log f s) B R ws (upd_log f t)"
  by (simp add: stepped_def dsame_upd_log)

text \<open>The first half of \<^verbatim>\<open>commit\<close>: the blocks in the log and the header written.\<close>

lemma commit_logged:
  assumes ok: "bc_ok s" and run: "running s p" and e: "0 < fst e" and wf: "log_wf (log s)" and idle: "log_idle s"
    and pin: "\<And>m. m \<in> set (log_blocks (log s)) \<Longrightarrow> can_read s m \<and> refs s m \<noteq> 0"
    and H: "H = commit_head (log s) (blk s)" and LW: "LW = log_writes (log s) (blk s) (logged s)"
  obtains s1 s2 where "write_log e s = Inr s1" "write_head e s1 = Inr s2" "log_idle s2" "log s2 = log s"
    "stepped s ((apply_writes LW (blk s))(l_start (log s) := H)) (refs s) (LW @ [(l_start (log s), H)]) s2"
proof -
  let ?l = "log s" and ?st = "l_start (log s)"
  have area0: "m \<in> log_area ?l \<Longrightarrow> refs s m = 0" for m using idle by (simp add: log_idle_def)
  obtain s1 where 1: "write_log e s = Inr s1" "stepped s (apply_writes LW (blk s)) (refs s) LW s1"
    using write_log_ok [OF ok run e wf idle pin] LW by blast
  then have g1: "dsame s s1" "bc_ok s1" "blk s1 = apply_writes LW (blk s)" "refs s1 = refs s" "lckd s1 = lckd s" by (simp_all add: stepped_def)
  have i1: "log_idle s1" by (rule log_idle_stepped [OF 1(2) idle area0 ok])
  have l1: "log s1 = ?l" using dsame_log [OF g1(1)] .
  have h: "put_head (lh_n ?l) (lh_block ?l) (blk s1 ?st) = H"
    using g1(3) log_start_notin [OF wf logged_le [OF wf]] by (simp add: commit_head_def H LW)
  have rd1: "can_read s1 ?st" "spare s1 1" using i1 log_pos_area(2) [of ?l] spare_le by (auto simp: log_idle_def can_read_def l1)
  obtain s2 where 2: "write_head e s1 = Inr s2" "stepped s1 ((blk s1)(?st := H)) (refs s1) [(?st, H)] s2"
    using write_head_ok [OF g1(2) dsame_running [OF g1(1) run] e _ _ _ rd1(2), of H] wf rd1(1) h l1 logged_le [OF wf]
    by (auto simp: log_wf_def)
  note s12 = stepped_trans [OF 1(2) 2(2)]
  have "log_idle s2" by (rule log_idle_stepped [OF s12 idle _ ok]) (use area0 g1(4) in auto)
  moreover have "log s2 = ?l" using dsame_log s12 by (auto simp: stepped_def)
  ultimately show thesis using that 1(1) 2(1) s12 g1(3,4) by simp
qed

lemma commit_ok:
  assumes ok: "bc_ok s" and run: "running s p" and e: "0 < fst e" and wf: "log_wf (log s)" and idle: "log_idle s"
    and pin: "\<And>m. m \<in> set (log_blocks (log s)) \<Longrightarrow> can_read s m \<and> refs s m \<noteq> 0" and n: "0 < sint (lh_n (log s))"
  shows "\<exists>B s'. commit e s = Inr s' \<and> (\<forall>m. m \<notin> log_area (log s) \<longrightarrow> B m = blk s m) \<and>
    stepped (upd_log (\<lambda>l. l\<lparr>lh_n := 0\<rparr>) s) B (unpinned False (set (log_blocks (log s))) (refs s)) (commit_writes (log s) (blk s)) s'"
proof -
  let ?l = "log s" and ?n = "logged s" and ?st = "l_start (log s)" and ?LW = "log_writes (log s) (blk s) (logged s)"
  let ?H = "commit_head ?l (blk s)" and ?FW = "final_writes ?l (blk s) (logged s)"
  let ?R = "unpinned False (set (log_blocks ?l)) (refs s)" and ?f = "\<lambda>l. l\<lparr>lh_n := 0\<rparr>"
  obtain s1 s2 where 12: "write_log e s = Inr s1" "write_head e s1 = Inr s2" "log_idle s2" "log s2 = ?l"
    and s2: "stepped s ((apply_writes ?LW (blk s))(?st := ?H)) (refs s) (?LW @ [(?st, ?H)]) s2"
    using commit_logged [OF ok run e wf idle pin refl refl] by blast
  then have g2: "dsame s s2" "bc_ok s2" "blk s2 = (apply_writes ?LW (blk s))(?st := ?H)" "refs s2 = refs s" "lckd s2 = lckd s"
    by (simp_all add: stepped_def)
  have pin2: "can_read s2 m \<and> (False \<or> refs s2 m \<noteq> 0)" if "m \<in> set (log_blocks (log s2))" for m
    using pin [of m] that g2 12(4) by (simp add: can_read_def)
  have "?st + of_nat i + 1 \<noteq> ?st" if "i < ?n" for i
    using log_pos_inj [OF wf, of "Suc i" 0] that logged_le [OF wf] by (simp add: add_ac)
  then have "blk s2 (?st + of_nat i + 1) = blk s (lh_block ?l ! i)" if "i < ?n" for i
    using log_writes_at [OF wf that logged_le [OF wf]] that g2(3) by simp
  then have hw: "home_writes ?l (blk s2) ?n = ?FW" by (simp add: home_writes_def final_writes_def)
  obtain s3 where 3: "install_trans e False s2 = Inr s3" "stepped s2 (apply_writes ?FW (blk s2)) ?R ?FW s3"
    using install_trans_ok [OF g2(2) dsame_running [OF g2(1) run] e _ 12(3) pin2] wf 12(4) g2(4) hw by auto
  then have g3: "bc_ok s3" "blk s3 = apply_writes ?FW (blk s2)" "refs s3 = ?R" by (simp_all add: stepped_def)
  note s3 = stepped_upd_log [OF stepped_trans [OF s2 3(2)], of ?f]
  have "?st \<notin> fst ` set ?FW" using log_block_notin [OF wf] log_pos_area(2) [of ?l] by (auto simp: final_writes_def)
  then have b3: "blk s3 ?st = ?H" using g3(2) g2(3) apply_writes_notin by simp
  have l3: "log s3 = ?l" using dsame_log [of s2 s3] 12(4) 3(2) by (simp add: stepped_def)
  have "log_idle s3"
    by (rule log_idle_stepped [OF 3(2) 12(3) _ g2(2)]) (use idle wf pin g2(4) 12(4) in \<open>auto simp: log_idle_def unpinned_def log_wf_def split: if_splits\<close>)
  then have rd3: "can_read s3 ?st" "spare s3 1" using log_pos_area(2) [of ?l] spare_le l3 by (auto simp: log_idle_def can_read_def)
  have run3: "running s3 p" using dsame_running [of s2 s3] dsame_running [OF g2(1) run] 3(2) by (simp add: stepped_def)
  obtain s4 where 4: "write_head e (upd_log ?f s3) = Inr s4"
    "stepped (upd_log ?f s3) ((blk s3)(?st := put_head 0 (lh_block ?l) ?H)) ?R [(?st, put_head 0 (lh_block ?l) ?H)] s4"
    using write_head_ok [of "upd_log ?f s3" p e "put_head 0 (lh_block ?l) ?H"] g3(1,3) run3 e wf l3 rd3 b3
    by (auto simp: log_wf_def)
  define B where "B = (blk s3)(?st := put_head 0 (lh_block ?l) ?H)"
  have c: "commit e s = Inr s4" using n 12(1,2) 3(1) 4(1) by (simp add: commit_def)
  have B: "B m = blk s m" if m: "m \<notin> log_area ?l" for m
  proof -
    have "m \<noteq> ?st" "m \<notin> fst ` set ?LW" using m log_pos_area(2) [of ?l] log_writes_area [OF logged_less [OF wf]] by auto
    then show ?thesis using g3(2) g2(3) by (simp add: B_def final_writes_at apply_writes_notin)
  qed
  have "stepped (upd_log ?f s) B ?R (commit_writes ?l (blk s)) s4"
    using stepped_trans [OF s3 4(2)] by (simp add: commit_writes_def B_def)
  then show ?thesis using c B by (intro exI [of _ B] exI [of _ s4]) simp
qed

section \<open>Recovery\<close>

text \<open>What \<^verbatim>\<open>recover_from_log\<close> makes of a disk with the header at \<open>st\<close>.\<close>

definition recovered :: "u32 \<Rightarrow> (u32 \<Rightarrow> u8 list) \<Rightarrow> u32 \<Rightarrow> u8 list" where
  "recovered st d =
     (apply_writes (map (\<lambda>i. (head_blocks (d st) ! i, d (st + of_nat i + 1))) [0..<length (head_blocks (d st))]) d)
       (st := put32 0 0 (d st))"

text \<open>\<open>booted l d t\<close>: a machine just booted from disk \<open>d\<close>, with an empty cache and the log where \<open>l\<close> has it.\<close>

definition booted :: "logstate \<Rightarrow> (u32 \<Rightarrow> u8 list) \<Rightarrow> 'z kfslog_scheme \<Rightarrow> bool" where
  "booted l d t \<longleftrightarrow> bc_ok t \<and> (\<exists>q. running t q) \<and> (\<forall>m. refs t m = 0 \<and> \<not> lckd t m) \<and> disk t = d \<and>
     l_dev (log t) = l_dev l \<and> l_start (log t) = l_start l \<and> length (lh_block (log t)) = LOGSIZE"

definition head_ok :: "logstate \<Rightarrow> u8 list \<Rightarrow> bool" where
  "head_ok l h \<longleftrightarrow> 0 \<le> sint (head_n h) \<and> sint (head_n h) < int LOGSIZE \<and> distinct (head_blocks h) \<and>
     set (head_blocks h) \<inter> log_area l = {}"

lemma booted_busy: "booted l d t \<Longrightarrow> busy t = {}" "booted l d t \<Longrightarrow> blk t = d" "booted l d t \<Longrightarrow> refs t = (\<lambda>_. 0)"
  using idle_clean [of t] by (auto simp: booted_def busy_def fun_eq_iff)

lemma recover_ok:
  assumes b: "booted l d t" and e: "0 < fst e" and l: "l_dev l = ROOTDEV" "unat (l_start l) + LOGSIZE < 2 ^ 32" and h: "head_ok l (d (l_start l))"
  shows "\<exists>t'. recover_from_log e t = Inr t' \<and> disk t' = recovered (l_start l) d \<and> bc_ok t' \<and> blk t' = disk t' \<and> lh_n (log t') = 0"
proof -
  let ?st = "l_start l" and ?h = "d (l_start l)"
  let ?n = "nat (sint (head_n ?h))"
  let ?f = "\<lambda>g. g\<lparr>lh_n := head_n ?h, lh_block := head_blocks ?h @ drop ?n (lh_block g)\<rparr>"
  let ?z = "\<lambda>g. g\<lparr>lh_n := 0\<rparr>"
  obtain q where t: "bc_ok t" "running t q" "\<And>m. refs t m = 0" "\<And>m. \<not> lckd t m" "l_dev (log t) = ROOTDEV" "l_start (log t) = ?st"
    "length (lh_block (log t)) = LOGSIZE" "disk t = d" using b l(1) by (auto simp: booted_def)
  note bb = booted_busy [OF b]
  have cr: "can_read t m" for m using t(3,4) by (simp add: can_read_def)
  have sp: "spare t 2" using bb(1) by (simp add: spare_def NBUF_def MAXOPBLOCKS_def)
  have nl: "?n < LOGSIZE" using h by (auto simp: head_ok_def LOGSIZE_def)
  obtain t1 where 1: "read_head e t = Inr t1" "stepped (upd_log ?f t) d (refs t) [] t1"
    using read_head_ok [OF t(1,2) e t(5) cr spare_le [OF sp] refl] nl bb(2) t(6) by auto
  then have g1: "bc_ok t1" "blk t1 = d" "refs t1 = refs t" "lckd t1 = lckd t" "dsame (upd_log ?f t) t1" "disk t1 = d" by (simp_all add: stepped_def t(8))
  have l1: "log t1 = ?f (log t)" using dsame_log [OF g1(5)] by simp
  have lb: "log_blocks (log t1) = head_blocks ?h" by (simp add: l1 log_blocks_def head_blocks_def)
  have wf: "log_wf (log t1)" using h l t nl lb unfolding log_wf_def
    by (simp add: l1 head_ok_def log_area_def head_blocks_def)
  have idle: "log_idle t1" using g1 t sp by (simp add: log_idle_def spare_def busy_def)
  have pin: "can_read t1 m \<and> (True \<or> refs t1 m \<noteq> 0)" for m using cr g1 by (simp add: can_read_def)
  have run1: "running t1 q" using dsame_running [OF g1(5)] t(2) by simp
  let ?HW = "home_writes (log t1) d (logged t1)"
  obtain t2 where 2: "install_trans e True t1 = Inr t2" "stepped t1 (apply_writes ?HW d) (unpinned True (set (log_blocks (log t1))) (refs t1)) ?HW t2"
    using install_trans_ok [OF g1(1) run1 e wf idle pin] g1(2) by auto
  have l2: "log t2 = log t1" using dsame_log [of t1 t2] 2(2) by (simp add: stepped_def)
  have g2: "bc_ok t2" "blk t2 = apply_writes ?HW d" "refs t2 = (\<lambda>_. 0)" "lckd t2 = lckd t" "disk t2 = apply_writes ?HW d" "running t2 q"
    using 2(2) dsame_running [of t1 t2] run1 g1 bb(3) by (auto simp: stepped_def unpinned_def fun_eq_iff)
  have hw: "?HW = map (\<lambda>i. (head_blocks ?h ! i, d (?st + of_nat i + 1))) [0..<length (head_blocks ?h)]"
    by (simp add: home_writes_def l1 t(6) nth_append head_blocks_def)
  have "l_start (log t1) = ?st" by (simp add: l1 t(6))
  then have "lh_block (log t1) ! i \<noteq> ?st" if "i < logged t1" for i
    using log_block_notin [OF wf that] log_pos_area(2) [of "log t1"] by metis
  then have "?st \<notin> fst ` set ?HW" unfolding home_writes_notin by (metis imageE lessThan_iff)
  then have b2: "blk t2 ?st = ?h" using g2(2) apply_writes_notin by simp
  have sp2: "spare (upd_log ?z t2) 1" using g2(3) by (simp add: spare_def busy_def NBUF_def MAXOPBLOCKS_def)
  have cr2: "can_read (upd_log ?z t2) m" for m using g2(3,4) t(4) by (simp add: can_read_def)
  obtain t3 where 3: "write_head e (upd_log ?z t2) = Inr t3"
    "stepped (upd_log ?z t2) ((blk t2)(?st := put32 0 0 ?h)) (refs t2) [(?st, put32 0 0 ?h)] t3"
    using write_head_ok [of "upd_log ?z t2" q e "put32 0 0 ?h"] g2(1,6) e cr2 sp2 b2 l2 l1 t(5,6) by (auto simp: put_head_def)
  have "recover_from_log e t = Inr t3" using 1(1) 2(1) 3(1) by (simp add: recover_from_log_def)
  moreover have "disk t3 = recovered ?st d" "bc_ok t3" "refs t3 = (\<lambda>_. 0)" using 3(2) g2(3,5) hw by (simp_all add: stepped_def recovered_def)
  moreover have "log t3 = ?z (log t2)" using dsame_log [of "upd_log ?z t2" t3] 3(2) by (simp add: stepped_def)
  ultimately show ?thesis using idle_clean [of t3] by (auto simp: fun_eq_iff)
qed

text \<open>The disk after the first \<open>k\<close> writes of a commit, and what recovery makes of it.\<close>

lemma head_zero: "head_n h = 0 \<Longrightarrow> head_blocks h = []" "head_n h = 0 \<Longrightarrow> head_ok l h"
  by (simp_all add: head_blocks_def head_ok_def LOGSIZE_def MAXOPBLOCKS_def)

lemma recovered_zero: "head_n (d st) = 0 \<Longrightarrow> recovered st d = d(st := put32 0 0 (d st))"
  by (simp add: recovered_def head_zero)

lemma take_writes_notin: "m \<notin> fst ` set ws \<Longrightarrow> apply_writes (take k ws) d m = d m"
  using set_take_subset [of k ws] by (intro apply_writes_notin) auto

lemma take_four: "length xs = n \<Longrightarrow> j \<le> length zs \<Longrightarrow> take (n + Suc j) (xs @ [y] @ zs @ [w]) = xs @ [y] @ take j zs"
  by simp

lemma commit_head_facts:
  assumes wf: "log_wf l" and B: "length (B (l_start l)) = BSIZE"
  shows "head_n (commit_head l B) = lh_n l" "head_blocks (commit_head l B) = log_blocks l" "head_ok l (commit_head l B)"
    "head_n (put_head 0 bl (commit_head l B)) = 0"
proof -
  note g = get_put_head [where bl = "lh_block l", OF B logged_le [OF wf]]
  show 1: "head_n (commit_head l B) = lh_n l" using g(1) by (simp add: head_n_def commit_head_def)
  have len: "length (lh_block l) = LOGSIZE" using wf by (simp add: log_wf_def)
  show 2: "head_blocks (commit_head l B) = log_blocks l"
    by (rule nth_equalityI) (use g(2) [folded commit_head_def] logged_le [OF wf] len in \<open>auto simp: head_blocks_def 1 log_blocks_def\<close>)
  show "head_ok l (commit_head l B)" using wf by (simp add: head_ok_def 1 2 log_wf_def)
  have "length (commit_head l B) = BSIZE" using length_put_head [OF B logged_le [OF wf]] by (simp add: commit_head_def)
  then show "head_n (put_head 0 bl (commit_head l B)) = 0" using get_put_head(1) [of "commit_head l B" 0] by (simp add: head_n_def)
qed

lemma crash_before:
  assumes wf: "log_wf l" and k: "k \<le> nat (sint (lh_n l))" and z: "head_n (d (l_start l)) = 0"
    and dk: "dk = apply_writes (take k (commit_writes l B)) d"
  shows "head_ok l (dk (l_start l))" "m \<notin> log_area l \<Longrightarrow> recovered (l_start l) dk m = d m"
proof -
  have "take k (commit_writes l B) = log_writes l B k"
    using k by (simp add: commit_writes_def log_writes_def take_map)
  then have dk': "dk = apply_writes (log_writes l B k) d" using dk by simp
  have k': "k < LOGSIZE" using k logged_less [OF wf] by simp
  have s: "dk (l_start l) = d (l_start l)" using dk' log_start_notin [OF wf less_imp_le [OF k']] by simp
  then show "head_ok l (dk (l_start l))" using z head_zero(2) by simp
  have "m \<notin> fst ` set (log_writes l B k)" "m \<noteq> l_start l" if "m \<notin> log_area l"
    using that log_writes_area [OF k'] log_pos_area(2) [of l] by auto
  then show "m \<notin> log_area l \<Longrightarrow> recovered (l_start l) dk m = d m"
    using s z by (simp add: recovered_zero dk' apply_writes_notin)
qed

lemma crash_after:
  assumes wf: "log_wf l" and k: "nat (sint (lh_n l)) < k" and B: "length (B (l_start l)) = BSIZE"
    and dk: "dk = apply_writes (take k (commit_writes l B)) d"
  shows "head_ok l (dk (l_start l))"
    "m \<notin> log_area l \<Longrightarrow> recovered (l_start l) dk m = (if m \<in> set (log_blocks l) then B m else d m)"
proof -
  let ?n = "nat (sint (lh_n l))" and ?st = "l_start l" and ?FW = "final_writes l B (nat (sint (lh_n l)))" and ?H = "commit_head l B"
  let ?Z = "put_head 0 (lh_block l) ?H" and ?d1 = "(apply_writes (log_writes l B ?n) d)(?st := ?H)"
  note hf = commit_head_facts [where B = B, OF wf B]
  have A: "(\<lambda>i. lh_block l ! i) ` {..<?n} = set (log_blocks l)"
    using nth_image [of ?n "lh_block l"] logged_le [OF wf] wf by (simp add: log_blocks_def atLeast0LessThan log_wf_def)
  have fw: "fst ` set ?FW = set (log_blocks l)" using A by (simp add: final_writes_def image_image atLeast0LessThan)
  have area: "m \<notin> set (log_blocks l)" if "m \<in> log_area l" for m using wf that by (auto simp: log_wf_def)
  have d1: "?d1 m = d m" if "m \<notin> log_area l" for m
    using that log_writes_area [OF logged_less [OF wf]] log_pos_area(2) [of l] by (auto intro!: apply_writes_notin)
  have L: "length (log_writes l B ?n) = ?n" "length ?FW = ?n" by (simp_all add: log_writes_def final_writes_def)
  have "head_ok l (dk ?st) \<and> (\<forall>m. m \<notin> log_area l \<longrightarrow> recovered ?st dk m = (if m \<in> set (log_blocks l) then B m else d m))"
  proof (cases "k \<le> ?n + 1 + ?n")
    case True
    obtain j where j: "k = ?n + Suc j" "j \<le> ?n" by (rule that [of "k - ?n - 1"]) (use k True in auto)
    have "take (?n + Suc j) (commit_writes l B) = log_writes l B ?n @ [(?st, ?H)] @ take j ?FW"
      unfolding commit_writes_def by (rule take_four) (use j(2) L in simp_all)
    then have e: "dk = apply_writes (take j ?FW) ?d1" using dk j(1) by simp
    have na: "m \<notin> fst ` set ?FW \<Longrightarrow> dk m = ?d1 m" for m using e take_writes_notin by simp
    have st: "dk ?st = ?H" using na area [OF log_pos_area(2)] fw by simp
    have "dk (?st + of_nat i + 1) = B (lh_block l ! i)" if "i < ?n" for i
    proof -
      have "?st + of_nat i + 1 \<noteq> ?st" using log_pos_inj [OF wf, of "Suc i" 0] that logged_le [OF wf] by (simp add: add_ac)
      moreover have "?st + of_nat i + 1 \<in> log_area l" using log_pos_area(1) [of i l] that logged_less [OF wf] by simp
      ultimately show ?thesis using na area fw log_writes_at [OF wf that logged_le [OF wf]] by simp
    qed
    then have "map (\<lambda>i. (log_blocks l ! i, dk (?st + of_nat i + 1))) [0..<length (log_blocks l)] = ?FW"
      using wf by (auto simp: final_writes_def log_wf_def log_blocks_def)
    then have r: "recovered ?st dk = (apply_writes ?FW dk)(?st := put32 0 0 ?H)" by (simp add: recovered_def st hf(2))
    have "m \<notin> log_area l \<Longrightarrow> m \<noteq> ?st" for m using log_pos_area(2) [of l] by auto
    then show ?thesis using st hf(3) na fw d1 A by (auto simp: r final_writes_at)
  next
    case False
    then have "take k (commit_writes l B) = commit_writes l B" using L by (simp add: commit_writes_def)
    then have e: "dk = (apply_writes ?FW ?d1)(?st := ?Z)" using dk by (simp add: commit_writes_def)
    then have z: "head_n (dk ?st) = 0" using hf(4) by simp
    have "m \<notin> log_area l \<Longrightarrow> m \<noteq> ?st" for m using log_pos_area(2) [of l] by auto
    then show ?thesis using z head_zero(2) d1 A by (auto simp: recovered_zero e final_writes_at)
  qed
  then show "head_ok l (dk ?st)"
    "m \<notin> log_area l \<Longrightarrow> recovered ?st dk m = (if m \<in> set (log_blocks l) then B m else d m)" by auto
qed

section \<open>\<^verbatim>\<open>log_write\<close>\<close>

lemma log_slot_facts:
  "k \<le> length bl \<Longrightarrow> log_slot k bl bno \<le> k \<and>
   (log_slot k bl bno = k \<longleftrightarrow> bno \<notin> set (take k bl)) \<and> (log_slot k bl bno < k \<longrightarrow> bl ! log_slot k bl bno = bno)"
proof (induction k bl bno rule: log_slot.induct)
  case (2 k bl bno)
  then show ?case by (cases bl) auto
qed simp

lemma sint_Suc:
  fixes x :: i32
  assumes "sint x < 2 ^ 31 - 1"
  shows "sint (x + 1) = sint x + 1"
proof -
  have "- (2 ^ 31) \<le> sint x" using sint_ge [of x] by simp
  then have "sint (x + 1) = sint x + sint (1 :: i32)"
    using assms by (subst sint_word_ariths) (simp add: signed_take_bit_int_eq_self)
  then show ?thesis by simp
qed

lemma log_write_eq:
  assumes run: "running s p" and n: "b_blockno (bcache s b) = n" and wf: "log_wf (log s)"
    and room: "sint (lh_n (log s)) < int LOGSIZE" "sint (lh_n (log s)) < sint (l_size (log s)) - 1" "1 \<le> sint (l_outstanding (log s))"
  shows "log_write b s =
    (if n \<in> set (log_blocks (log s)) then Inr s
     else bindE (bpin b s) (\<lambda>t. Inr (upd_log (\<lambda>l. l\<lparr>lh_block := (lh_block l)[logged s := n], lh_n := lh_n l + 1\<rparr>) t)))"
proof -
  let ?s1 = "s\<lparr>held := L_log # held s\<rparr>" and ?k = "logged s" and ?bl = "lh_block (log s)"
  have nl: "L_log \<notin> set (held s)" and nb: "L_bcache \<notin> set (held s)" using running_free(3,4) [OF run] by auto
  have k: "?k \<le> length ?bl" "0 \<le> sint (lh_n (log s))" using logged_le [OF wf] wf by (auto simp: log_wf_def)
  note sl = log_slot_facts [OF k(1), of n]
  show ?thesis
  proof (cases "n \<in> set (log_blocks (log s))")
    case True
    then have i: "log_slot ?k ?bl n < ?k" "?bl ! log_slot ?k ?bl n = n" using sl by (auto simp: log_blocks_def)
    then have "?bl[log_slot ?k ?bl n := n] = ?bl" by (metis list_update_id)
    moreover have "int (log_slot ?k ?bl n) \<noteq> sint (lh_n (log s))" using i(1) by linarith
    ultimately show ?thesis using True nl n room by (simp add: log_write_def Let_def upd_log_def)
  next
    case False
    then have i: "log_slot ?k ?bl n = ?k" using sl by (auto simp: log_blocks_def)
    then show ?thesis using False nl nb n room k(2)
      by (simp add: log_write_def Let_def upd_log_def bpin_def upd_buf_def lk_acquire_def lk_release_def)
  qed
qed

lemma log_write_ok:
  assumes ok: "bc_ok s" and run: "running s p" and h: "holds s b n" and wf: "log_wf (log s)"
    and room: "sint (l_size (log s)) \<le> int LOGSIZE" "sint (lh_n (log s)) < sint (l_size (log s)) - 1" "1 \<le> sint (l_outstanding (log s))"
    and n: "n \<notin> log_area (log s)" "refs s n + 1 \<noteq> 0"
  obtains s' where "log_write b s = Inr s'" "bc_ok s'" "holds s' b n" "others b s s'" "blk s' = blk s" "lckd s' = lckd s"
    "refs s' = (if n \<in> set (log_blocks (log s)) then refs s else (refs s)(n := refs s n + 1))"
    "\<exists>f. bsame (upd_log f s) s'" "log_wf (log s')" "set (log_blocks (log s')) = insert n (set (log_blocks (log s)))"
    "l_outstanding (log s') = l_outstanding (log s)" "l_start (log s') = l_start (log s)" "l_size (log s') = l_size (log s)"
proof -
  have bn: "b_blockno (bcache s b) = n" using h by (simp add: holds_def cached_def)
  have "sint (lh_n (log s)) < int LOGSIZE" using room by simp
  note e = log_write_eq [OF run bn wf this room(2,3)]
  have "upd_log (\<lambda>l. l) s = s" by (simp add: upd_log_def)
  then have id: "\<exists>f. bsame (upd_log f s) s" by (metis bsame_refl)
  show thesis
  proof (cases "n \<in> set (log_blocks (log s))")
    case True
    then show thesis using that [of s] e ok h wf id by (auto simp: others_def)
  next
    case False
    let ?f = "\<lambda>l. l\<lparr>lh_block := (lh_block l)[logged s := n], lh_n := lh_n l + 1\<rparr>"
    obtain t where t: "bpin b s = Inr t" "bsame s t" "bc_ok t" "holds t b n" "others b s t" "blk t = blk s"
      "refs t = (refs s)(n := refs s n + 1)" "lckd t = lckd s" using bpin_ok [OF ok run h n(2)] .
    have lt: "log t = log s" using bsame_log [OF t(2)] .
    have k: "logged s < LOGSIZE" "length (lh_block (log s)) = LOGSIZE" "0 \<le> sint (lh_n (log s))" "sint (lh_n (log s)) + 1 < int LOGSIZE"
      using room logged_less [OF wf] wf by (auto simp: log_wf_def)
    have sn: "sint (lh_n (log s) + 1) = sint (lh_n (log s)) + 1" using k by (intro sint_Suc) (auto simp: LOGSIZE_def MAXOPBLOCKS_def)
    have "nat (sint (lh_n (log s)) + 1) = Suc (logged s)" using k(3) by simp
    then have lb: "log_blocks (?f (log s)) = log_blocks (log s) @ [n]"
      using k by (simp add: log_blocks_def sn take_Suc_conv_app_nth)
    have la: "log_area (?f (log s)) = log_area (log s)" by (simp add: log_area_def)
    have wf': "log_wf (?f (log s))" using wf False n(1) k sn unfolding log_wf_def lb la by simp
    have ot: "others b s (upd_log ?f t)" using t(5) by (simp add: others_def upd_log_def)
    show thesis
      by (rule that [of "upd_log ?f t"])
        (use e False t lt wf' lb ot bsame_upd_log [OF t(2), of ?f] in \<open>auto simp del: set_append simp: set_append\<close>)
  qed
qed

section \<open>\<^verbatim>\<open>begin_op\<close>\<close>

lemma begin_op_loop_reserves:
  "begin_op_loop fuel E s = Inr s' \<Longrightarrow> \<not> l_committing (log s') \<and>
     sint (lh_n (log s')) + sint (l_outstanding (log s')) * int MAXOPBLOCKS \<le> int LOGSIZE"
proof (induction fuel arbitrary: s)
  case (Suc fuel)
  show ?case
  proof (cases "l_committing (log s) \<or> int LOGSIZE < sint (lh_n (log s)) + (sint (l_outstanding (log s)) + 1) * int MAXOPBLOCKS")
    case True
    then obtain t where "begin_op_loop fuel E t = Inr s'" using Suc.prems by (auto split: if_splits)
    then show ?thesis by (rule Suc.IH)
  next
    case False
    let ?l = "log s"
    have "- (2 ^ 31) \<le> sint (lh_n ?l)" using sint_ge [of "lh_n ?l"] by simp
    then have "sint (l_outstanding ?l) < 2 ^ 31 - 1" using False by (simp add: LOGSIZE_def MAXOPBLOCKS_def)
    from sint_Suc [OF this] show ?thesis using Suc.prems False
      by (auto simp: lk_release_def upd_log_def split: if_splits)
  qed
qed simp

section \<open>Properties\<close>

text \<open>A transaction with one block: block 40, changed to sevens in buffer 0 and pinned; the log is at block 2.\<close>

definition klog_raw :: kfslog where
  "klog_raw = \<lparr>held = [], pmem = (\<lambda>_. 0), freelist = 0, k_end = 0x80021d60, k_etext = 0x80008000,
     k_trampoline = 0x80007000, kernel_pagetable = 0, satp = 0, u_out = [], u_in = [],
     tx_idle = [], panicked = False, pr_locking = True, ptable = proc_at, nextpid = 4,
     initproc = Some 0, cur = Some 0, sched_pointer = rr_impl, forkret_first = False, ticks = 0,
     nswitch = 0, k_forkret = 0x80001000, pipes = Map.empty, slock = (\<lambda>_ _. \<lparr>sl_locked = False, sl_pid = 0\<rparr>),
     bcache = bcache kbuf_raw, disk = (\<lambda>_. replicate BSIZE 0), dwrites = [],
     log = \<lparr>l_start = 2, l_size = 30, l_outstanding = 0, l_committing = True, l_dev = ROOTDEV, lh_n = 1,
       lh_block = 40 # replicate 29 0\<rparr>\<rparr>"

definition klog_base :: kfslog where "klog_base = binit klog_raw"

definition klog_buf :: buf where
  "klog_buf = (bcache klog_base 0)\<lparr>b_valid := True, b_dev := ROOTDEV, b_blockno := 40, b_refcnt := 1, b_data := replicate BSIZE 7\<rparr>"

definition klog_demo :: kfslog where
  "klog_demo = klog_base\<lparr>bcache := (bcache klog_base)(0 := klog_buf)\<rparr>"

lemma klog_raw_facts:
  "\<forall>b < NBUF. b_dev (bcache klog_raw b) = 0 \<and> \<not> b_valid (bcache klog_raw b) \<and> b_refcnt (bcache klog_raw b) = 0 \<and>
     length (b_data (bcache klog_raw b)) = BSIZE" "\<forall>n. length (disk klog_raw n) = BSIZE"
  using kbuf_raw_facts(1) by (simp_all add: klog_raw_def)

lemma binit_log: "log (binit s) = log s"
proof -
  have "log (fold (\<lambda>b t. link_front b (initsleeplock ''buffer'' b t)) bs t) = log t" for bs and t :: "'a kfslog_scheme"
    by (induction bs arbitrary: t)
      (simp_all add: link_front_def initsleeplock_def set_slock_def Let_def set_next_def set_prev_def upd_buf_def)
  then show ?thesis by (simp add: binit_def Let_def set_next_def set_prev_def upd_buf_def)
qed

lemma klog_base_facts:
  "bc_ok klog_base" "blk klog_base = disk klog_raw" "refs klog_base n = 0" "\<not> lckd klog_base n" "running klog_base 0"
  "b < NBUF \<Longrightarrow> b_refcnt (bcache klog_base b) = 0" "disk klog_base = disk klog_raw" "log klog_base = log klog_raw" "b < NBUF \<Longrightarrow> b_dev (bcache klog_base b) = 0"
  "b < NBUF \<Longrightarrow> \<not> sl_locked (slock klog_base ''buffer'' b)"
  using binit_establishes [OF klog_raw_facts] binit_log [of klog_raw]
  by (simp_all add: klog_base_def running_def) (simp_all add: klog_raw_def)

lemma klog_demo_facts:
  "bc_ok klog_demo" "running klog_demo 0" "log_wf (log klog_demo)" "log_idle klog_demo" "log_blocks (log klog_demo) = [40]"
  "can_read klog_demo 40" "refs klog_demo 40 = 1" "head_n (disk klog_demo (l_start (log klog_demo))) = 0"
proof -
  note f = klog_base_facts
  have z: "0 < NBUF" by (simp add: NBUF_def MAXOPBLOCKS_def)
  have "\<not> cached klog_base 40 b" for b
    using f(9) [of b] by (auto simp: cached_def ROOTDEV_def)
  then have p: "put_buf 0 klog_buf False klog_base klog_demo"
    using z f(10) [OF z] by (simp add: put_buf_def klog_demo_def klog_buf_def buf_ok_def ROOTDEV_def)
  show "bc_ok klog_demo" by (rule put_buf_ok [OF f(1) p])
  have k: "b_dev klog_buf = ROOTDEV" "b_blockno klog_buf = 40" by (simp_all add: klog_buf_def)
  note v = put_buf_view [OF f(1) p k disjI2 [OF f(6) [OF z]]]
  show "running klog_demo 0" using f(5) by (simp add: klog_demo_def running_def)
  have l: "log klog_demo = log klog_raw" using f(8) by (simp add: klog_demo_def)
  show b: "log_blocks (log klog_demo) = [40]" by (simp add: l klog_raw_def log_blocks_def)
  have "40 \<notin> log_area (log klog_demo)" using log_area_less [of "log klog_demo" 40] by (auto simp: l klog_raw_def LOGSIZE_def MAXOPBLOCKS_def)
  then show "log_wf (log klog_demo)" using b by (simp add: log_wf_def) (simp add: l klog_raw_def LOGSIZE_def MAXOPBLOCKS_def)
  show "refs klog_demo 40 = 1" "can_read klog_demo 40" using v f by (simp_all add: can_read_def klog_buf_def)
  have "busy klog_demo = {40}" using v(2) f(3) by (auto simp: busy_def klog_buf_def)
  then show "log_idle klog_demo" using v f \<open>40 \<notin> log_area (log klog_demo)\<close>
    by (auto simp: log_idle_def spare_def NBUF_def MAXOPBLOCKS_def)
  show "head_n (disk klog_demo (l_start (log klog_demo))) = 0"
    using f(7) by (simp add: klog_demo_def f(8)) (simp add: klog_raw_def head_n_def get32_def get_bytes_def un32_def BSIZE_def)
qed

text \<open>C1: Commits are atomic under crashes. \<^verbatim>\<open>commit\<close> returns, having sent a sequence of writes to the disk.
  If the machine stops after any prefix of them, \<^verbatim>\<open>recover_from_log\<close> at the next boot returns, and every
  block outside the log area is as before the commit, or every such block is as after it: the logged
  blocks have their new contents, all others the old one.\<close>

theorem commit_crash_atomic:
  assumes "bc_ok s" "running s p" "0 < fst e" "log_wf (log s)" "log_idle s" "0 < sint (lh_n (log s))"
    and "\<forall>m \<in> set (log_blocks (log s)). can_read s m \<and> refs s m \<noteq> 0" "head_n (disk s (l_start (log s))) = 0"
  shows "\<exists>s' ws. commit e s = Inr s' \<and> dwrites s' = dwrites s @ ws \<and>
    (\<forall>k (t :: 'z kfslog_scheme) e'. booted (log s) (apply_writes (take k ws) (disk s)) t \<longrightarrow> 0 < fst e' \<longrightarrow>
       (\<exists>t'. recover_from_log e' t = Inr t' \<and>
          ((\<forall>m. m \<notin> log_area (log s) \<longrightarrow> disk t' m = disk s m) \<or>
           (\<forall>m. m \<notin> log_area (log s) \<longrightarrow> disk t' m = (if m \<in> set (log_blocks (log s)) then blk s m else disk s m)))))"
proof -
  let ?l = "log s" and ?ws = "commit_writes (log s) (blk s)"
  obtain B s' where c: "commit e s = Inr s'" "stepped (upd_log (\<lambda>l. l\<lparr>lh_n := 0\<rparr>) s) B (unpinned False (set (log_blocks ?l)) (refs s)) ?ws s'"
    using commit_ok [OF assms(1-5) _ assms(6)] assms(7) by blast
  have "dwrites s' = dwrites s @ ?ws" using c(2) by (simp add: stepped_def)
  moreover have "\<exists>t'. recover_from_log e' t = Inr t' \<and> ((\<forall>m. m \<notin> log_area ?l \<longrightarrow> disk t' m = disk s m) \<or>
      (\<forall>m. m \<notin> log_area ?l \<longrightarrow> disk t' m = (if m \<in> set (log_blocks ?l) then blk s m else disk s m)))"
    if b: "booted ?l (apply_writes (take k ?ws) (disk s)) t" and e': "0 < fst e'" for k and t :: "'z kfslog_scheme" and e'
  proof -
    define dk where "dk = apply_writes (take k ?ws) (disk s)"
    have l: "l_dev ?l = ROOTDEV" "unat (l_start ?l) + LOGSIZE < 2 ^ 32" using assms(4) by (auto simp: log_wf_def)
    show ?thesis
    proof (cases "k \<le> logged s")
      case True
      note cb = crash_before [OF assms(4) True assms(8) dk_def]
      obtain t' where "recover_from_log e' t = Inr t'" "disk t' = recovered (l_start ?l) dk"
        using recover_ok [OF b [folded dk_def] e' l cb(1)] by blast
      then show ?thesis using cb(2) by auto
    next
      case False
      then have "nat (sint (lh_n ?l)) < k" by simp
      note ca = crash_after [OF assms(4) this blk_length [OF assms(1)] dk_def]
      obtain t' where "recover_from_log e' t = Inr t'" "disk t' = recovered (l_start ?l) dk"
        using recover_ok [OF b [folded dk_def] e' l ca(1)] by blast
      then show ?thesis using ca(2) by auto
    qed
  qed
  ultimately show ?thesis using c(1) by blast
qed

theorem commit_crash_atomic_witness:
  "\<exists>s' ws. commit (1, id) klog_demo = Inr s' \<and> dwrites s' = dwrites klog_demo @ ws \<and>
    (\<forall>k (t :: kfslog) e'. booted (log klog_demo) (apply_writes (take k ws) (disk klog_demo)) t \<longrightarrow> 0 < fst e' \<longrightarrow>
       (\<exists>t'. recover_from_log e' t = Inr t' \<and>
          ((\<forall>m. m \<notin> log_area (log klog_demo) \<longrightarrow> disk t' m = disk klog_demo m) \<or>
           (\<forall>m. m \<notin> log_area (log klog_demo) \<longrightarrow>
              disk t' m = (if m \<in> set (log_blocks (log klog_demo)) then blk klog_demo m else disk klog_demo m)))))"
proof -
  have "0 < sint (lh_n (log klog_demo))" by (simp add: klog_demo_def klog_base_facts(8)) (simp add: klog_raw_def)
  then show ?thesis
    using commit_crash_atomic [OF klog_demo_facts(1,2) _ klog_demo_facts(3,4), of "(1, id)"] klog_demo_facts(5-8) by simp
qed

end
