(* ===== verification/Fsspec.thy ===== *)
theory Fsspec
  imports Fs Logspec
begin

text \<open>
  Correctness of the file system operations of theory \<open>Fs\<close>, seen through the buffer cache and the
  log: \<open>blk s n\<close> is block \<open>n\<close> as the operations see it, \<open>pins s\<close> the blocks of the running transaction.
\<close>

section \<open>Reading and updating blocks inside a transaction\<close>

definition pins :: "'z kfs_scheme \<Rightarrow> u32 set" where
  "pins s = set (log_blocks (log s))"

text \<open>
  \<open>fsi H s\<close>: a transaction is running and the processes hold exactly the buffers of the blocks \<open>H\<close>;
  beside these, the blocks of the transaction are pinned, and all others are as on disk.
\<close>

definition fsi :: "u32 set \<Rightarrow> 'z kfs_scheme \<Rightarrow> bool" where
  "fsi H s \<longleftrightarrow> bc_ok s \<and> log_wf (log s) \<and> sint (l_size (log s)) = int LOGSIZE \<and> 1 \<le> sint (l_outstanding (log s)) \<and>
     (\<forall>n. lckd s n \<longleftrightarrow> n \<in> H) \<and> (\<forall>n. refs s n = (if n \<in> pins s then 1 else 0) + (if n \<in> H then 1 else 0)) \<and>
     (\<forall>n. n \<notin> pins s \<longrightarrow> blk s n = disk s n)"

definition lsame :: "'z kfs_scheme \<Rightarrow> 'z kfs_scheme \<Rightarrow> bool" where
  "lsame s s' \<longleftrightarrow> (\<exists>f. bsame (upd_log f s) s') \<and> l_start (log s') = l_start (log s)"

lemma bsame_lsame: "bsame s s' \<Longrightarrow> lsame s s'"
proof -
  assume b: "bsame s s'"
  have "upd_log (\<lambda>l. l) s = s" by (simp add: upd_log_def)
  then have "bsame (upd_log (\<lambda>l. l) s) s'" using b by simp
  then show ?thesis using bsame_log [OF b] unfolding lsame_def by metis
qed

lemma lsame_refl [simp]: "lsame s s" by (simp add: bsame_lsame)

lemma lsame_trans:
  assumes "lsame s t" "lsame t u"
  shows "lsame s u"
proof -
  obtain f g where f: "bsame (upd_log f s) t" and g: "bsame (upd_log g t) u" using assms by (auto simp: lsame_def)
  have "upd_log g (upd_log f s) = upd_log (\<lambda>l. g (f l)) s" by (simp add: upd_log_def)
  then have "bsame (upd_log (\<lambda>l. g (f l)) s) u" using bsame_trans [OF bsame_upd_log [OF f, of g] g] by simp
  then show ?thesis using assms unfolding lsame_def by auto
qed

lemma lsame_running: "lsame s s' \<Longrightarrow> running s p \<Longrightarrow> running s' p"
  using bsame_running by (fastforce simp: lsame_def)

lemma bsame_fs:
  assumes "bsame s s'"
  shows "sb s' = sb s" "itable s' = itable (s :: 'z kfs_scheme)" "u_out s' = u_out s"
  using assms by (auto elim!: bsameE)

lemma lsame_fs:
  assumes "lsame s s'"
  shows "sb s' = sb s" "itable s' = itable (s :: 'z kfs_scheme)" "disk s' = disk s" "held s' = held s" "cur s' = cur s"
    "log_area (log s') = log_area (log s)" "pmem s' = pmem s" "p_pid (ptable s' j) = p_pid (ptable s j)" "p_cwd (ptable s' j) = p_cwd (ptable s j)"
    "p_pagetable (ptable s' j) = p_pagetable (ptable s j)" "nm \<noteq> ''buffer'' \<Longrightarrow> slock s' nm = slock s nm"
proof -
  obtain f where f: "bsame (upd_log f s) s'" and st: "l_start (log s') = l_start (log s)" using assms by (auto simp: lsame_def)
  show "sb s' = sb s" "itable s' = itable s" using bsame_fs [OF f] by (simp_all add: upd_log_def)
  show "log_area (log s') = log_area (log s)" by (simp add: log_area_def st)
  note b = bsame_fields [OF f]
  show "disk s' = disk s" "held s' = held s" "cur s' = cur s" "pmem s' = pmem s" "p_pid (ptable s' j) = p_pid (ptable s j)"
    "nm \<noteq> ''buffer'' \<Longrightarrow> slock s' nm = slock s nm" using b by (simp_all add: upd_log_def)
  show "p_cwd (ptable s' j) = p_cwd (ptable s j)" "p_pagetable (ptable s' j) = p_pagetable (ptable s j)"
    using psame_fields [OF b(6) [of j]] by (simp_all add: upd_log_def)
qed

lemma fsiD:
  assumes "fsi H s"
  shows "bc_ok s" "lckd s n \<longleftrightarrow> n \<in> H" "refs s n = (if n \<in> pins s then 1 else 0) + (if n \<in> H then 1 else 0)" "busy s = pins s \<union> H"
    "log_wf (log s)" "sint (l_size (log s)) = int LOGSIZE" "1 \<le> sint (l_outstanding (log s))" "n \<notin> pins s \<Longrightarrow> blk s n = disk s n"
proof -
  show 1: "bc_ok s" "lckd s n \<longleftrightarrow> n \<in> H" "refs s n = (if n \<in> pins s then 1 else 0) + (if n \<in> H then 1 else 0)" for n
    using assms by (simp_all add: fsi_def)
  show "busy s = pins s \<union> H" using 1(3) by (auto simp: busy_def)
qed (use assms in \<open>simp_all add: fsi_def\<close>)

lemma holds_in: "fsi H s \<Longrightarrow> holds s b n \<Longrightarrow> n \<in> H"
  using holds_view(5) fsiD(1,2) by blast

text \<open>\<open>keep A s s'\<close>: the buffers of the blocks in \<open>A\<close> that the running process holds are still held.\<close>

definition keep :: "u32 set \<Rightarrow> 'z kbuf_scheme \<Rightarrow> 'z kbuf_scheme \<Rightarrow> bool" where
  "keep A s s' \<longleftrightarrow> (\<forall>c m. holds s c m \<longrightarrow> m \<in> A \<longrightarrow> holds s' c m)"

lemma keep_refl [simp]: "keep A s s" by (simp add: keep_def)
lemma keep_trans: "keep A s t \<Longrightarrow> keep A t u \<Longrightarrow> keep A s u" by (simp add: keep_def)
lemma keep_mono: "keep A s t \<Longrightarrow> B \<subseteq> A \<Longrightarrow> keep B s t" by (auto simp: keep_def)

lemma bread_fsi:
  assumes i: "fsi H s" and run: "running s p" and e: "0 < fst e" and n: "n \<notin> H" and sp: "card (pins s \<union> H) < NBUF"
  obtains b s' where "bread e ROOTDEV n s = Inr (b, s')" "fsi (insert n H) s'" "bsame s s'" "holds s' b n"
    "b_data (bcache s' b) = blk s n" "blk s' = blk s" "pins s' = pins s" "keep H s s'" "running s' p"
proof -
  note d = fsiD [OF i]
  have "refs s n + 1 \<noteq> 0" using n by (simp add: d(3))
  then obtain b s' where b: "bread e ROOTDEV n s = Inr (b, s')" "got s n b s'" "running s' p"
    using bread_view [OF d(1) run e, of n] n sp d(2,4) by auto
  then have g: "bsame s s'" "bc_ok s'" "holds s' b n" "b_data (bcache s' b) = blk s n" "blk s' = blk s"
    "refs s' = (refs s)(n := refs s n + 1)" "lckd s' = (lckd s)(n := True)" by (auto simp: got_def)
  have l: "log s' = log s" "disk s' = disk s" using bsame_log [OF g(1)] bsame_fields(3) [OF g(1)] by auto
  then have "fsi (insert n H) s'" using i g n by (simp add: fsi_def pins_def)
  moreover have "keep H s s'" using holds_got(1) [OF d(1) b(2)] n by (auto simp: keep_def)
  ultimately show thesis using that [OF b(1)] g b(3) l by (simp add: pins_def)
qed

lemma brelse_fsi:
  assumes i: "fsi H s" and run: "running s p" and h: "holds s b n"
  obtains s' where "brelse b s = Inr s'" "fsi (H - {n}) s'" "bsame s s'" "blk s' = blk s" "pins s' = pins s" "keep (H - {n}) s s'" "running s' p"
proof -
  note d = fsiD [OF i]
  have n: "n \<in> H" by (rule holds_in [OF i h])
  have "refs s n = 1 \<Longrightarrow> blk s n = disk s n" using d(3,8) [of n] n by (cases "n \<in> pins s") auto
  then obtain s' where s': "brelse b s = Inr s'" "gave s n b s'" using brelse_ok [OF d(1) run h] by blast
  then have g: "bsame s s'" "bc_ok s'" "blk s' = blk s" "refs s' = (refs s)(n := refs s n - 1)" "lckd s' = (lckd s)(n := False)"
    by (auto simp: gave_def)
  have l: "log s' = log s" "disk s' = disk s" using bsame_log [OF g(1)] bsame_fields(3) [OF g(1)] by auto
  then have "fsi (H - {n}) s'" using i g n by (simp add: fsi_def pins_def)
  moreover have "keep (H - {n}) s s'" using holds_gave [OF s'(2) h] by (auto simp: keep_def)
  ultimately show thesis using that [OF s'(1)] g l bsame_running [OF g(1) run] by (simp add: pins_def)
qed

lemma card_pins: "log_wf (log s) \<Longrightarrow> card (pins s) = logged s"
  using logged_le [of "log s"] by (simp add: pins_def log_wf_def distinct_card log_blocks_def)

lemma write_fsi:
  assumes i: "fsi H s" and run: "running s p" and h: "holds s b n" and d: "length d = BSIZE"
    and n: "n \<notin> log_area (log s)" and room: "card (pins s) < LOGSIZE - 1"
  obtains s' where "log_write b (set_data b d s) = Inr s'" "fsi H s'" "lsame s s'" "holds s' b n" "blk s' = (blk s)(n := d)"
    "pins s' = insert n (pins s)" "keep H s s'" "running s' p"
proof -
  note f = fsiD [OF i]
  let ?t = "set_data b d s"
  note t = set_data_ok [OF f(1) h d]
  have l: "log ?t = log s" using bsame_log [OF t(1)] .
  have nH: "n \<in> H" by (rule holds_in [OF i h])
  have "logged s < LOGSIZE - 1" "0 \<le> sint (lh_n (log s))" using room card_pins [OF f(5)] f(5) by (simp_all add: log_wf_def)
  then have room': "sint (l_size (log ?t)) \<le> int LOGSIZE" "sint (lh_n (log ?t)) < sint (l_size (log ?t)) - 1" "1 \<le> sint (l_outstanding (log ?t))"
    using f(6,7) l by auto
  have r: "refs ?t n + 1 \<noteq> 0" using t(6) f(3) [of n] by simp
  obtain s' where s': "log_write b ?t = Inr s'" "bc_ok s'" "holds s' b n" "others b ?t s'" "blk s' = blk ?t" "lckd s' = lckd ?t"
    "refs s' = (if n \<in> set (log_blocks (log ?t)) then refs ?t else (refs ?t)(n := refs ?t n + 1))"
    "\<exists>f. bsame (upd_log f ?t) s'" "log_wf (log s')" "set (log_blocks (log s')) = insert n (set (log_blocks (log ?t)))"
    "l_outstanding (log s') = l_outstanding (log ?t)" "l_start (log s') = l_start (log ?t)" "l_size (log s') = l_size (log ?t)"
    using log_write_ok [OF t(2) bsame_running [OF t(1) run] t(3) _ room' _ r] f(5) n l by auto
  have ls: "lsame s s'" using lsame_trans [OF bsame_lsame [OF t(1)]] s'(8,12) by (simp add: lsame_def)
  have p: "pins s' = insert n (pins s)" using s'(10) l by (simp add: pins_def)
  have bl: "blk s' = (blk s)(n := d)" using s'(5) t(5) by simp
  have dk: "disk s' = disk s" by (rule lsame_fs(3) [OF ls])
  have "fsi H s'" using s'(2,9) bl p dk f(2,3,6-8) s'(6,7,11,13) t(6,7) l nH unfolding fsi_def by (auto simp: pins_def)
  moreover have "keep H s s'"
    unfolding keep_def
  proof (intro allI impI)
    fix c m assume cm: "holds s c m"
    show "holds s' c m"
    proof (cases "m = n")
      case True
      have "cached s n c" "cached s n b" using cm h True by (auto simp: holds_def)
      then have "c = b" using cached_unique [OF f(1)] by blast
      then show ?thesis using s'(3) True by simp
    next
      case False
      have cb: "c \<noteq> b" using holds_ne [OF h cm] False by blast
      have h1: "holds ?t c m" using holds_set_data [OF f(1) h d cm] False by blast
      obtain g where g: "bsame (upd_log g ?t) s'" using s'(8) by blast
      have "others b (upd_log g ?t) s'" using s'(4) by (simp add: others_def upd_log_def)
      then show ?thesis using holds_others(1) [OF _ g cb, of m] h1 by simp
    qed
  qed
  ultimately show thesis using that [OF s'(1)] ls s'(3) bl p lsame_running [OF ls run] by simp
qed

text \<open>What one block update leaves: \<open>fs_step H s B P s'\<close> for the same held blocks, block contents \<open>B\<close> and transaction \<open>P\<close>.\<close>

definition fs_step :: "u32 set \<Rightarrow> 'z kfs_scheme \<Rightarrow> (u32 \<Rightarrow> u8 list) \<Rightarrow> u32 set \<Rightarrow> 'z kfs_scheme \<Rightarrow> bool" where
  "fs_step H s B P s' \<longleftrightarrow> fsi H s' \<and> lsame s s' \<and> blk s' = B \<and> pins s' = P \<and> keep H s s'"

lemma fs_step_refl: "fsi H s \<Longrightarrow> fs_step H s (blk s) (pins s) s" by (simp add: fs_step_def)

lemma fs_step_trans: "fs_step H s B P t \<Longrightarrow> fs_step H t B' P' u \<Longrightarrow> fs_step H s B' P' u"
  by (auto simp: fs_step_def intro: lsame_trans keep_trans)

lemma fs_stepD:
  assumes "fs_step H s B P s'"
  shows "fsi H s'" "lsame s s'" "blk s' = B" "pins s' = P" "keep H s s'" "running s p \<Longrightarrow> running s' p"
  using assms lsame_running by (auto simp: fs_step_def)

lemma read_block:
  assumes i: "fsi H s" and run: "running s p" and e: "0 < fst e" and n: "n \<notin> H" and sp: "card (pins s \<union> H) < NBUF"
  obtains b s1 s2 where "bread e ROOTDEV n s = Inr (b, s1)" "b_data (bcache s1 b) = blk s n" "bsame s s1" "holds s1 b n" "brelse b s1 = Inr s2"
    "fs_step H s (blk s) (pins s) s2" "bsame s s2" "running s2 p" "running s1 p" "fsi (insert n H) s1"
proof -
  obtain b s1 where 1: "bread e ROOTDEV n s = Inr (b, s1)" "fsi (insert n H) s1" "bsame s s1" "holds s1 b n"
    "b_data (bcache s1 b) = blk s n" "blk s1 = blk s" "pins s1 = pins s" "keep H s s1" "running s1 p"
    using bread_fsi [OF assms] .
  obtain s2 where 2: "brelse b s1 = Inr s2" "fsi (insert n H - {n}) s2" "bsame s1 s2" "blk s2 = blk s1" "pins s2 = pins s1"
    "keep (insert n H - {n}) s1 s2" "running s2 p" using brelse_fsi [OF 1(2,9,4)] .
  have H: "insert n H - {n} = H" using n by auto
  have bs: "bsame s s2" using bsame_trans [OF 1(3) 2(3)] .
  have "fs_step H s (blk s) (pins s) s2"
    using 1 2 H bsame_lsame [OF bs] keep_trans [OF 1(8)] by (simp add: fs_step_def)
  then show thesis using that 1 2 bs by blast
qed

lemma modify_block:
  assumes i: "fsi H s" and run: "running s p" and e: "0 < fst e" and n: "n \<notin> H" "n \<notin> log_area (log s)"
    and sp: "card (pins s \<union> H) < NBUF" "card (pins s) < LOGSIZE - 1"
  obtains b s1 where "bread e ROOTDEV n s = Inr (b, s1)" "b_data (bcache s1 b) = blk s n" "bsame s s1"
    "\<And>d. length d = BSIZE \<Longrightarrow> \<exists>s2 s3. log_write b (set_data b d s1) = Inr s2 \<and> brelse b s2 = Inr s3 \<and>
       fs_step H s ((blk s)(n := d)) (insert n (pins s)) s3 \<and> running s3 p"
    "\<exists>s3. brelse b s1 = Inr s3 \<and> fs_step H s (blk s) (pins s) s3 \<and> running s3 p"
proof -
  obtain b s1 where 1: "bread e ROOTDEV n s = Inr (b, s1)" "fsi (insert n H) s1" "bsame s s1" "holds s1 b n"
    "b_data (bcache s1 b) = blk s n" "blk s1 = blk s" "pins s1 = pins s" "keep H s s1" "running s1 p"
    using bread_fsi [OF i run e n(1) sp(1)] .
  have H: "insert n H - {n} = H" using n by auto
  have "\<exists>s2 s3. log_write b (set_data b d s1) = Inr s2 \<and> brelse b s2 = Inr s3 \<and>
       fs_step H s ((blk s)(n := d)) (insert n (pins s)) s3 \<and> running s3 p" if d: "length d = BSIZE" for d
  proof -
    have na: "n \<notin> log_area (log s1)" using n(2) bsame_log [OF 1(3)] by simp
    have rm: "card (pins s1) < LOGSIZE - 1" using sp(2) 1(7) by simp
    obtain s2 where 2: "log_write b (set_data b d s1) = Inr s2" "fsi (insert n H) s2" "lsame s1 s2" "holds s2 b n"
      "blk s2 = (blk s1)(n := d)" "pins s2 = insert n (pins s1)" "keep (insert n H) s1 s2" "running s2 p"
      using write_fsi [OF 1(2,9,4) d na rm] .
    obtain s3 where 3: "brelse b s2 = Inr s3" "fsi (insert n H - {n}) s3" "bsame s2 s3" "blk s3 = blk s2" "pins s3 = pins s2"
      "keep (insert n H - {n}) s2 s3" "running s3 p" using brelse_fsi [OF 2(2,8,4)] .
    have "lsame s s3" using lsame_trans [OF bsame_lsame [OF 1(3)] lsame_trans [OF 2(3) bsame_lsame [OF 3(3)]]] .
    moreover have "keep H s s3" using 1(8) 2(7) 3(6) H keep_trans keep_mono by (metis subset_insertI)
    ultimately show ?thesis using 1 2 3 H by (auto simp: fs_step_def)
  qed
  moreover obtain s3 where 3: "brelse b s1 = Inr s3" "fsi (insert n H - {n}) s3" "bsame s1 s3" "blk s3 = blk s1" "pins s3 = pins s1"
      "keep (insert n H - {n}) s1 s3" "running s3 p" using brelse_fsi [OF 1(2,9,4)] .
  moreover have "fs_step H s (blk s) (pins s) s3"
    using 1 3 H bsame_lsame [OF bsame_trans [OF 1(3) 3(3)]] keep_trans [OF 1(8)] by (simp add: fs_step_def)
  ultimately show thesis using that [OF 1(1,5,3)] by blast
qed

text \<open>The use of \<^verbatim>\<open>log_write\<close> the operations make: read a block, store into it, log it, release it.\<close>

definition logged_store :: "'z kfs_scheme senv \<Rightarrow> u32 \<times> u8 list \<Rightarrow> 'z kfs_scheme \<Rightarrow> 'z kfs_scheme res" where
  "logged_store e w s =
     bindE (bread e ROOTDEV (fst w) s) (\<lambda>(b, s1). bindE (log_write b (set_data b (snd w) s1)) (brelse b))"

lemma logged_store_ok:
  assumes "fsi {} s" "running s p" "0 < fst e" "n \<notin> log_area (log s)" "length d = BSIZE" "card (pins s) < LOGSIZE - 1"
  obtains s' where "logged_store e (n, d) s = Inr s'" "fs_step {} s ((blk s)(n := d)) (insert n (pins s)) s'" "running s' p"
proof -
  have "card (pins s \<union> {}) < NBUF" using assms(6) by (simp add: NBUF_def LOGSIZE_def)
  then obtain b s1 where b: "bread e ROOTDEV n s = Inr (b, s1)"
    "\<And>d. length d = BSIZE \<Longrightarrow> \<exists>s2 s3. log_write b (set_data b d s1) = Inr s2 \<and> brelse b s2 = Inr s3 \<and>
       fs_step {} s ((blk s)(n := d)) (insert n (pins s)) s3 \<and> running s3 p"
    using modify_block [OF assms(1-3) _ assms(4) _ assms(6)] by blast
  then show thesis using that b(2) [OF assms(5)] by (auto simp: logged_store_def)
qed

text \<open>With all but one block of the log in use, \<^verbatim>\<open>log_write\<close> panics.\<close>

lemma logged_store_full:
  assumes "fsi {} s" "running s p" "0 < fst e" "card (pins s) = LOGSIZE - 1"
  shows "logged_store e (n, d) s = Inl (Panic ''too big a transaction'')"
proof -
  have "card (pins s \<union> {}) < NBUF" using assms(4) by (simp add: NBUF_def LOGSIZE_def MAXOPBLOCKS_def)
  then obtain b s1 where b: "bread e ROOTDEV n s = Inr (b, s1)" "bsame s s1" "running s1 p"
    using bread_fsi [OF assms(1-3)] by blast
  let ?t = "set_data b d s1"
  have l: "log ?t = log s" "held ?t = held s1" using bsame_log [OF b(2)] by (simp_all add: set_data_def upd_buf_def)
  note f = fsiD [OF assms(1)]
  have "sint (lh_n (log s)) = int LOGSIZE - 1" using assms(4) card_pins [OF f(5)] f(5)
    by (simp add: log_wf_def LOGSIZE_def MAXOPBLOCKS_def)
  then have "log_write b ?t = Inl (Panic ''too big a transaction'')"
    using running_free(4) [OF b(3)] f(6) l by (simp add: log_write_def Let_def)
  then show ?thesis using b(1) by (simp add: logged_store_def)
qed

lemma logged_stores:
  assumes "fsi {} s" "running s p" "0 < fst e" "distinct (map fst ws)"
    "\<forall>(n, d) \<in> set ws. n \<notin> log_area (log s) \<and> n \<notin> pins s \<and> length d = BSIZE" "card (pins s) + length ws \<le> LOGSIZE"
    "card (pins s) < LOGSIZE"
  shows "if card (pins s) + length ws < LOGSIZE
    then \<exists>t. foldE (logged_store e) ws s = Inr t \<and> fs_step {} s (apply_writes ws (blk s)) (pins s \<union> fst ` set ws) t
    else foldE (logged_store e) ws s = Inl (Panic ''too big a transaction'')"
  using assms
proof (induction ws arbitrary: s)
  case Nil
  then show ?case using fs_step_refl by auto
next
  case (Cons w ws)
  obtain n d where w: "w = (n, d)" by (cases w)
  have nd: "n \<notin> log_area (log s)" "n \<notin> pins s" "length d = BSIZE" using Cons(6) w by simp_all
  show ?case
  proof (cases "card (pins s) = LOGSIZE - 1")
    case True
    then have "\<not> card (pins s) + length (w # ws) < LOGSIZE" by simp
    then show ?thesis using logged_store_full [OF Cons(2-4) True, of n d] w by simp
  next
    case False
    then have lt: "card (pins s) < LOGSIZE - 1" using Cons(8) by simp
    obtain u where u: "logged_store e (n, d) s = Inr u" "fs_step {} s ((blk s)(n := d)) (insert n (pins s)) u" "running u p"
      using logged_store_ok [OF Cons(2-4) nd(1,3) lt] .
    note v = fs_stepD [OF u(2)]
    have "finite (pins s)" by (simp add: pins_def)
    then have c: "card (pins u) = Suc (card (pins s))" using v(4) nd(2) by simp
    have "x \<notin> log_area (log u) \<and> x \<notin> pins u \<and> length c = BSIZE" if "(x, c) \<in> set ws" for x c
    proof -
      have "x \<noteq> n" using Cons(5) w image_eqI [of x fst "(x, c)" "set ws"] that by auto
      moreover have "x \<notin> log_area (log s) \<and> x \<notin> pins s \<and> length c = BSIZE" using Cons(6) that by auto
      ultimately show ?thesis using lsame_fs(6) [OF v(2)] v(4) by simp
    qed
    then have "\<forall>(x, c) \<in> set ws. x \<notin> log_area (log u) \<and> x \<notin> pins u \<and> length c = BSIZE" by blast
    then have IH: "if card (pins u) + length ws < LOGSIZE
      then \<exists>t. foldE (logged_store e) ws u = Inr t \<and> fs_step {} u (apply_writes ws (blk u)) (pins u \<union> fst ` set ws) t
      else foldE (logged_store e) ws u = Inl (Panic ''too big a transaction'')"
      using Cons.IH [OF v(1) u(3) Cons(4)] Cons(5,7) lt c by simp
    have e: "foldE (logged_store e) (w # ws) s = foldE (logged_store e) ws u" using u(1) w by simp
    have "pins u \<union> fst ` set ws = pins s \<union> fst ` set (w # ws)" "apply_writes ws (blk u) = apply_writes (w # ws) (blk s)"
      using v(3,4) w by auto
    then show ?thesis using IH c fs_step_trans [OF u(2)] unfolding e by (auto split: if_splits)
  qed
qed

section \<open>Block allocation\<close>

lemma bmap_used_bit: "bmap_used data bi \<longleftrightarrow> bit (data ! (bi div 8)) (bi mod 8)"
  by (simp add: bmap_used_def push_bit_eq_mult and_exp_eq_0_iff_not_bit)

lemma bmap_index: "bi < BPB \<Longrightarrow> length data = BSIZE \<Longrightarrow> bi div 8 < length data"
  by (simp add: BPB_def less_mult_imp_div_less mult.commute)

lemma div_mod_8_eq: "j div 8 = i div 8 \<Longrightarrow> j mod 8 = i mod 8 \<longleftrightarrow> j = (i :: nat)"
  by (metis div_mult_mod_eq)

lemma bmap_set_used:
  assumes "i < BPB" "length data = BSIZE"
  shows "bmap_used (bmap_set i data) j \<longleftrightarrow> j = i \<or> bmap_used data j"
proof (cases "j div 8 = i div 8")
  case True
  have "push_bit (i mod 8) (1 :: u8) = 2 ^ (i mod 8)" by (simp add: push_bit_eq_mult)
  then show ?thesis using bmap_index [OF assms] True div_mod_8_eq [OF True]
    by (auto simp: bmap_used_bit bmap_set_def bit_simps)
qed (auto simp: bmap_used_bit bmap_set_def)

lemma bmap_clear_used:
  assumes "i < BPB" "length data = BSIZE"
  shows "bmap_used (bmap_clear i data) j \<longleftrightarrow> j \<noteq> i \<and> bmap_used data j"
proof (cases "j div 8 = i div 8")
  case True
  have "push_bit (i mod 8) (1 :: u8) = 2 ^ (i mod 8)" by (simp add: push_bit_eq_mult)
  then show ?thesis using bmap_index [OF assms] True div_mod_8_eq [OF True]
    by (auto simp: bmap_used_bit bmap_clear_def bit_simps)
qed (auto simp: bmap_used_bit bmap_clear_def)

lemma length_bmap [simp]: "length (bmap_set i data) = length data" "length (bmap_clear i data) = length data"
  by (simp_all add: bmap_set_def bmap_clear_def)

text \<open>The bitmap block of block \<open>k\<close>, and whether the bitmap has \<open>k\<close> as free.\<close>

definition bb :: "'z kfs_scheme \<Rightarrow> nat \<Rightarrow> u32" where
  "bb s k = of_nat (k div BPB) + sb_bmapstart (sb s)"

definition free_in :: "'z kfs_scheme \<Rightarrow> (u32 \<Rightarrow> u8 list) \<Rightarrow> nat \<Rightarrow> bool" where
  "free_in s B k \<longleftrightarrow> k < unat (sb_size (sb s)) \<and> \<not> bmap_used (B (bb s k)) (k mod BPB)"

lemma unat_of_nat32: "n < 2 ^ 32 \<Longrightarrow> unat (of_nat n :: u32) = n"
  by (simp add: unat_of_nat)

lemma BBLOCK_bb: "BBLOCK b (sb s) = bb s (unat b)"
proof -
  have "b div of_nat BPB = (of_nat (unat b div BPB) :: u32)"
    using unsigned_less [of b, where 'a = nat] by (intro word_unat_eq_iff [THEN iffD2]) (simp add: unat_div unat_of_nat BPB_def BSIZE_def)
  then show ?thesis by (simp add: BBLOCK_def bb_def)
qed

text \<open>
  What the allocator needs of the disk layout: no bitmap block is in the log or held by a process,
  and neither is a block the bitmap has as free; bitmap blocks are not free themselves.
\<close>

definition alloc_wf :: "u32 set \<Rightarrow> 'z kfs_scheme \<Rightarrow> bool" where
  "alloc_wf H s \<longleftrightarrow> unat (sb_size (sb s)) + BPB < 2 ^ 31 \<and>
     (\<forall>k < unat (sb_size (sb s)). bb s k \<notin> log_area (log s) \<union> H \<and>
        (free_in s (blk s) k \<longrightarrow> of_nat k \<notin> log_area (log s) \<union> H \<and> (\<forall>j < unat (sb_size (sb s)). of_nat k \<noteq> bb s j)))"

definition rooms :: "u32 set \<Rightarrow> 'z kfs_scheme \<Rightarrow> nat \<Rightarrow> bool" where
  "rooms H s k \<longleftrightarrow> card (pins s \<union> H) + k \<le> NBUF \<and> card (pins s) + k \<le> LOGSIZE - 1"

lemma card_insert_Suc: "card (insert n A) \<le> Suc (card A)"
  by (cases "finite A") (auto simp: card_insert_if)

lemma rooms_insert: "rooms H s (Suc k) \<Longrightarrow> pins t = insert n (pins s) \<Longrightarrow> rooms H t k"
  using card_insert_Suc [of n "pins s"] card_insert_Suc [of n "pins s \<union> H"] by (simp add: rooms_def)

lemma rooms_mono: "rooms H s j \<Longrightarrow> k \<le> j \<Longrightarrow> rooms H s k"
  by (simp add: rooms_def)

lemma rooms_use: "rooms H s (Suc k) \<Longrightarrow> card (pins s \<union> H) < NBUF" "rooms H s (Suc k) \<Longrightarrow> card (pins s) < LOGSIZE - 1"
  by (simp_all add: rooms_def)

lemma bzero_ok:
  assumes i: "fsi H s" and run: "running s p" and e: "0 < fst e" and n: "n \<notin> log_area (log s) \<union> H" and sp: "rooms H s (Suc k)"
  shows "\<exists>s'. bzero e ROOTDEV n s = Inr s' \<and> fs_step H s ((blk s)(n := replicate BSIZE 0)) (insert n (pins s)) s' \<and> running s' p"
proof -
  have n': "n \<notin> H" "n \<notin> log_area (log s)" using n by auto
  show ?thesis by (rule modify_block [OF i run e n' rooms_use [OF sp]]) (force simp: bzero_def)
qed

lemma alloc_wf_step:
  assumes "lsame s t" "blk t = blk s"
  shows "alloc_wf H t = alloc_wf H s" "bb t k = bb s k" "free_in t B k = free_in s B k"
  using lsame_fs [OF assms(1)] assms(2) by (simp_all add: alloc_wf_def bb_def free_in_def)

text \<open>What \<^verbatim>\<open>balloc\<close> does when it takes block \<open>k\<close>.\<close>

definition took :: "u32 set \<Rightarrow> 'z kfs_scheme \<Rightarrow> nat \<Rightarrow> 'z kfs_scheme \<Rightarrow> bool" where
  "took H s k s' \<longleftrightarrow> fs_step H s ((blk s)(bb s k := bmap_set (k mod BPB) (blk s (bb s k)), of_nat k := replicate BSIZE 0))
     (insert (of_nat k) (insert (bb s k) (pins s))) s'"

lemma find_upt: "P i \<Longrightarrow> i < N \<Longrightarrow> (\<And>j. j < i \<Longrightarrow> \<not> P j) \<Longrightarrow> find P [0..<N] = Some i"
  by (auto simp: find_Some_iff intro!: exI [of _ i])

lemma free_in_group: "free_in s B k \<longleftrightarrow> k mod BPB < unat (sb_size (sb s)) - k div BPB * BPB \<and> \<not> bmap_used (B (bb s k)) (k mod BPB)"
proof -
  have "k = k div BPB * BPB + k mod BPB" by simp
  then have "k < unat (sb_size (sb s)) \<longleftrightarrow> k mod BPB < unat (sb_size (sb s)) - k div BPB * BPB" by linarith
  then show ?thesis by (simp add: free_in_def)
qed

lemma balloc_group:
  assumes i: "fsi H s" and run: "running s p" and e: "0 < fst e" and wf: "alloc_wf H s" and sp: "rooms H s 2"
    and g: "g * BPB < unat (sb_size (sb s))"
  shows "(\<forall>k. free_in s (blk s) k \<longrightarrow> k div BPB \<noteq> g) \<Longrightarrow>
      \<exists>s1. balloc_loop e ROOTDEV (g # gs) s = balloc_loop e ROOTDEV gs s1 \<and> fs_step H s (blk s) (pins s) s1 \<and> running s1 p"
    and "free_in s (blk s) k \<Longrightarrow> k div BPB = g \<Longrightarrow> (\<forall>j < k. j div BPB = g \<longrightarrow> \<not> free_in s (blk s) j) \<Longrightarrow>
      \<exists>s'. balloc_loop e ROOTDEV (g # gs) s = Inr (of_nat k, s') \<and> took H s k s' \<and> running s' p"
proof -
  define n where "n = bb s (g * BPB)"
  let ?N = "min BPB (unat (sb_size (sb s)) - g * BPB)" and ?P = "\<lambda>bi. \<not> bmap_used (blk s n) bi"
  have B: "0 < BPB" by (simp add: BPB_def BSIZE_def)
  have ov: "g * BPB + BPB < 2 ^ 31" and n: "n \<notin> H" "n \<notin> log_area (log s)" using wf g by (auto simp: alloc_wf_def n_def)
  have u: "unat (of_nat (g * BPB) :: u32) = g * BPB" using ov by (intro unat_of_nat32) simp
  have bn: "BBLOCK (of_nat (g * BPB)) (sb s) = n" unfolding BBLOCK_bb u n_def ..
  have bk: "bb s k = n" if "k div BPB = g" for k using that B by (simp add: bb_def n_def)
  obtain b s1 where 1: "bread e ROOTDEV n s = Inr (b, s1)" "b_data (bcache s1 b) = blk s n" "bsame s s1"
    "\<And>d. length d = BSIZE \<Longrightarrow> \<exists>s2 s3. log_write b (set_data b d s1) = Inr s2 \<and> brelse b s2 = Inr s3 \<and>
       fs_step H s ((blk s)(n := d)) (insert n (pins s)) s3 \<and> running s3 p"
    "\<exists>s3. brelse b s1 = Inr s3 \<and> fs_step H s (blk s) (pins s) s3 \<and> running s3 p"
    by (rule modify_block [OF i run e n]) (use rooms_use [of H s 1] sp in \<open>auto simp: numeral_2_eq_2\<close>)
  have sb1: "sb s1 = sb s" using bsame_fs [OF 1(3)] by simp
  note unf = balloc_loop.simps(2) Let_def bn 1(1,2) sb1
  {
    assume no: "\<forall>k. free_in s (blk s) k \<longrightarrow> k div BPB \<noteq> g"
    have "\<not> ?P j" if "j < ?N" for j
      using no [rule_format, of "g * BPB + j"] that B by (auto simp: free_in_group bk)
    then have "find ?P [0..<?N] = None" by (auto simp: find_None_iff)
    then show "\<exists>s1. balloc_loop e ROOTDEV (g # gs) s = balloc_loop e ROOTDEV gs s1 \<and> fs_step H s (blk s) (pins s) s1 \<and> running s1 p"
      using 1(5) ov by (auto simp: unf simp del: of_nat_mult)
  next
    assume f: "free_in s (blk s) k" and kg: "k div BPB = g" and lst: "\<forall>j < k. j div BPB = g \<longrightarrow> \<not> free_in s (blk s) j"
    have k: "k = g * BPB + k mod BPB" using kg by (metis div_mult_mod_eq)
    have m: "k mod BPB < BPB" using B by simp
    have fd: "find ?P [0..<?N] = Some (k mod BPB)"
    proof (rule find_upt)
      show "?P (k mod BPB)" "k mod BPB < ?N" using f bk [OF kg] m by (simp_all add: free_in_group kg)
      fix j assume j: "j < k mod BPB"
      then have "\<not> free_in s (blk s) (g * BPB + j)" using lst k m by (auto dest!: spec [of _ "g * BPB + j"])
      moreover have "j < ?N" using j \<open>k mod BPB < ?N\<close> by simp
      ultimately show "\<not> ?P j" using bk [of "g * BPB + j"] by (auto simp: free_in_group)
    qed
    have len: "length (bmap_set (k mod BPB) (blk s n)) = BSIZE" using blk_length [OF fsiD(1) [OF i]] by simp
    obtain s2 s3 where 2: "log_write b (set_data b (bmap_set (k mod BPB) (blk s n)) s1) = Inr s2" "brelse b s2 = Inr s3"
      "fs_step H s ((blk s)(n := bmap_set (k mod BPB) (blk s n))) (insert n (pins s)) s3" "running s3 p" using 1(4) [OF len] by blast
    note d = fs_stepD [OF 2(3)]
    have kk: "of_nat k \<notin> log_area (log s3) \<union> H" "of_nat k \<noteq> n"
      using wf f g lsame_fs(6) [OF d(2)] by (auto simp: alloc_wf_def free_in_def n_def)
    have "rooms H s3 (Suc 0)" using rooms_insert [of H s 1 s3 n] sp d(4) by (simp add: numeral_2_eq_2)
    then obtain s4 where 4: "bzero e ROOTDEV (of_nat k) s3 = Inr s4"
      "fs_step H s3 ((blk s3)(of_nat k := replicate BSIZE 0)) (insert (of_nat k) (pins s3)) s4" "running s4 p"
      using bzero_ok [OF d(1) 2(4) e kk(1)] by blast
    have "took H s k s4" using fs_step_trans [OF 2(3) 4(2)] by (simp add: took_def d bk [OF kg])
    moreover have "balloc_loop e ROOTDEV (g # gs) s = Inr (of_nat k, s4)"
      using k [symmetric] by (simp add: unf fd 2(1,2) 4(1) del: of_nat_mult of_nat_add)
    ultimately show "\<exists>s'. balloc_loop e ROOTDEV (g # gs) s = Inr (of_nat k, s') \<and> took H s k s' \<and> running s' p" using 4(3) by blast
  }
qed

lemma rooms_step: "fs_step H s B (pins s) t \<Longrightarrow> rooms H t k = rooms H s k"
  by (simp add: rooms_def fs_stepD(4))

lemma balloc_loop_ok:
  assumes "fsi H s" "running s p" "0 < fst e" "alloc_wf H s" "rooms H s 2" "\<forall>g \<in> set gs. g * BPB < unat (sb_size (sb s))" "sorted_wrt (<) gs"
  shows "(\<forall>k. free_in s (blk s) k \<longrightarrow> k div BPB \<notin> set gs) \<Longrightarrow>
      \<exists>s1. balloc_loop e ROOTDEV gs s = bindE (printf ''balloc: out of blocks\<newline>'' [] s1) (\<lambda>s2. Inr (0, s2)) \<and>
        fs_step H s (blk s) (pins s) s1"
    and "free_in s (blk s) k \<Longrightarrow> k div BPB \<in> set gs \<Longrightarrow> (\<forall>j < k. \<not> free_in s (blk s) j) \<Longrightarrow>
      \<exists>s'. balloc_loop e ROOTDEV gs s = Inr (of_nat k, s') \<and> took H s k s' \<and> running s' p"
  using assms
proof (induction gs arbitrary: s)
  case Nil
  { case 1 show ?case using fs_step_refl [OF 1(2)] by auto next case 2 then show ?case by simp }
next
  case (Cons g gs)
  have step: "\<exists>s1. balloc_loop e ROOTDEV (g # gs) s = balloc_loop e ROOTDEV gs s1 \<and> fs_step H s (blk s) (pins s) s1 \<and>
      running s1 p \<and> fsi H s1 \<and> alloc_wf H s1 \<and> rooms H s1 2 \<and> blk s1 = blk s \<and> pins s1 = pins s \<and> sb s1 = sb s \<and>
      (\<forall>k. free_in s1 (blk s1) k = free_in s (blk s) k) \<and> (\<forall>k. bb s1 k = bb s k)"
    if a: "fsi H s" "running s p" "0 < fst e" "alloc_wf H s" "rooms H s 2" "g * BPB < unat (sb_size (sb s))"
      and no: "\<forall>k. free_in s (blk s) k \<longrightarrow> k div BPB \<noteq> g" for s
  proof -
    obtain s1 where s1: "balloc_loop e ROOTDEV (g # gs) s = balloc_loop e ROOTDEV gs s1" "fs_step H s (blk s) (pins s) s1" "running s1 p"
      using balloc_group(1) [OF a no] by blast
    note d = fs_stepD [OF s1(2)]
    show ?thesis using s1 d alloc_wf_step [OF d(2,3)] rooms_step [OF s1(2)] a lsame_fs(1) [OF d(2)] by auto
  qed
  {
    case 1
    then obtain s1 where s1: "balloc_loop e ROOTDEV (g # gs) s = balloc_loop e ROOTDEV gs s1" "fs_step H s (blk s) (pins s) s1"
      "running s1 p" "fsi H s1" "alloc_wf H s1" "rooms H s1 2" "blk s1 = blk s" "pins s1 = pins s" "sb s1 = sb s"
      "\<forall>k. free_in s1 (blk s1) k = free_in s (blk s) k" using step [of s] by auto
    obtain s2 where "balloc_loop e ROOTDEV gs s1 = bindE (printf ''balloc: out of blocks\<newline>'' [] s2) (\<lambda>s2. Inr (0, s2))"
      "fs_step H s1 (blk s1) (pins s1) s2"
      using Cons.IH(1) [of s1] s1(3-10) 1 by auto
    then show ?case using s1(1,7,8) fs_step_trans [OF s1(2)] by auto
  next
    case 2
    show ?case
    proof (cases "k div BPB = g")
      case True
      then show ?thesis using 2 balloc_group(2) [of H s p e g k gs] by auto
    next
      case False
      then have gk: "g < k div BPB" using 2 by auto
      have "j div BPB \<noteq> g" if "free_in s (blk s) j" for j
        using that 2(3) gk by (metis div_le_mono leD leI)
      then obtain s1 where s1: "balloc_loop e ROOTDEV (g # gs) s = balloc_loop e ROOTDEV gs s1" "fs_step H s (blk s) (pins s) s1"
        "running s1 p" "fsi H s1" "alloc_wf H s1" "rooms H s1 2" "blk s1 = blk s" "pins s1 = pins s" "sb s1 = sb s"
        "\<forall>k. free_in s1 (blk s1) k = free_in s (blk s) k" "\<forall>k. bb s1 k = bb s k" using step [of s] 2 by auto
      obtain s' where s': "balloc_loop e ROOTDEV gs s1 = Inr (of_nat k, s')" "took H s1 k s'" "running s' p"
        using Cons.IH(2) [of s1] s1(3-10) 2 False by auto
      have "took H s k s'" using s'(2) fs_step_trans [OF s1(2)] s1(7,8,11) by (simp add: took_def)
      then show ?thesis using s1(1) s'(1,3) by auto
    qed
  }
qed

lemma groups_cover: "k < n \<Longrightarrow> k div BPB \<in> set [0..<(n + BPB - 1) div BPB]" "g \<in> set [0..<(n + BPB - 1) div BPB] \<Longrightarrow> g * BPB < n"
proof -
  have B: "0 < BPB" by (simp add: BPB_def BSIZE_def)
  show "k < n \<Longrightarrow> k div BPB \<in> set [0..<(n + BPB - 1) div BPB]"
  proof -
    assume "k < n"
    then have "(k + BPB) div BPB \<le> (n + BPB - 1) div BPB" by (intro div_le_mono) simp
    moreover have "(k + BPB) div BPB = Suc (k div BPB)" using B by (subst div_add_self2) auto
    ultimately show ?thesis by simp
  qed
  assume "g \<in> set [0..<(n + BPB - 1) div BPB]"
  then have "Suc g \<le> (n + BPB - 1) div BPB" by simp
  then have "Suc g * BPB \<le> n + BPB - 1" using B by (simp add: less_eq_div_iff_mult_less_eq)
  then show "g * BPB < n" using B by simp
qed

lemma balloc_ok:
  assumes a: "fsi H s" "running s p" "0 < fst e" "alloc_wf H s" "rooms H s 2"
  shows "(\<forall>k. \<not> free_in s (blk s) k) \<Longrightarrow>
      \<exists>s1. balloc e ROOTDEV s = bindE (printf ''balloc: out of blocks\<newline>'' [] s1) (\<lambda>s2. Inr (0, s2)) \<and> fs_step H s (blk s) (pins s) s1"
    and "free_in s (blk s) k \<Longrightarrow> (\<forall>j < k. \<not> free_in s (blk s) j) \<Longrightarrow>
      \<exists>s'. balloc e ROOTDEV s = Inr (of_nat k, s') \<and> took H s k s' \<and> running s' p"
proof -
  have g: "\<forall>g \<in> set [0..<(unat (sb_size (sb s)) + BPB - 1) div BPB]. g * BPB < unat (sb_size (sb s))" using groups_cover(2) by blast
  note l = balloc_loop_ok [OF a g sorted_wrt_upt]
  show "(\<forall>k. \<not> free_in s (blk s) k) \<Longrightarrow>
      \<exists>s1. balloc e ROOTDEV s = bindE (printf ''balloc: out of blocks\<newline>'' [] s1) (\<lambda>s2. Inr (0, s2)) \<and> fs_step H s (blk s) (pins s) s1"
    using l(1) unfolding balloc_def by blast
  show "free_in s (blk s) k \<Longrightarrow> (\<forall>j < k. \<not> free_in s (blk s) j) \<Longrightarrow>
      \<exists>s'. balloc e ROOTDEV s = Inr (of_nat k, s') \<and> took H s k s' \<and> running s' p"
    using l(2) groups_cover(1) unfolding balloc_def free_in_def by blast
qed

lemma bb_eq:
  assumes "j < unat (sb_size (sb s))" "k < unat (sb_size (sb s))"
  shows "bb s j = bb s k \<longleftrightarrow> j div BPB = k div BPB"
proof -
  have "j div BPB < 2 ^ 32" "k div BPB < 2 ^ 32"
    using assms unsigned_less [of "sb_size (sb s)", where 'a = nat]
    by (auto intro!: le_less_trans [OF div_le_dividend])
  then show ?thesis unfolding bb_def by (metis add_right_cancel unat_of_nat32)
qed

text \<open>The free blocks after block \<open>k\<close> has been taken, and what else has changed.\<close>

lemma took_free:
  assumes wf: "alloc_wf H s" and f: "free_in s (blk s) k" and t: "took H s k s'" and ok: "bc_ok s"
  shows "free_in s' (blk s') j \<longleftrightarrow> j \<noteq> k \<and> free_in s (blk s) j"
proof -
  note d = fs_stepD [OF t [unfolded took_def]]
  have sb: "sb s' = sb s" using lsame_fs(1) [OF d(2)] .
  have k: "k < unat (sb_size (sb s))" "\<And>j. j < unat (sb_size (sb s)) \<Longrightarrow> bb s j \<noteq> of_nat k"
    using wf f by (auto simp: alloc_wf_def free_in_def) metis
  have m: "i mod BPB < BPB" for i by (simp add: BPB_def BSIZE_def)
  show ?thesis
  proof (cases "j < unat (sb_size (sb s)) \<and> j div BPB = k div BPB")
    case True
    then have "bb s j = bb s k" by (simp add: bb_def)
    moreover have "j mod BPB = k mod BPB \<longleftrightarrow> j = k" using True by (metis div_mult_mod_eq)
    ultimately show ?thesis
      using True k d(3) bmap_set_used [OF m blk_length [OF ok]] by (auto simp: free_in_def sb bb_def)
  next
    case False
    then show ?thesis using bb_eq [OF _ k(1), of j] k(2) [of j] d(3) by (auto simp: free_in_def sb bb_def)
  qed
qed

text \<open>Freeing a block clears its bit; freeing a free block panics.\<close>

lemma bfree_ok:
  assumes i: "fsi H s" and run: "running s p" and e: "0 < fst e" and n: "bb s (unat b) \<notin> log_area (log s) \<union> H" and sp: "rooms H s (Suc k)"
  shows "bfree e ROOTDEV b s = Inl (Panic ''freeing free block'') \<and> \<not> bmap_used (blk s (bb s (unat b))) (unat b mod BPB) \<or>
    bmap_used (blk s (bb s (unat b))) (unat b mod BPB) \<and>
    (\<exists>s'. bfree e ROOTDEV b s = Inr s' \<and> running s' p \<and>
       fs_step H s ((blk s)(bb s (unat b) := bmap_clear (unat b mod BPB) (blk s (bb s (unat b))))) (insert (bb s (unat b)) (pins s)) s')"
proof -
  let ?n = "bb s (unat b)" and ?d = "bmap_clear (unat b mod BPB) (blk s (bb s (unat b)))"
  have n': "?n \<notin> H" "?n \<notin> log_area (log s)" using n by auto
  have len: "length ?d = BSIZE" using blk_length [OF fsiD(1) [OF i]] by simp
  obtain c s1 where 1: "bread e ROOTDEV ?n s = Inr (c, s1)" "b_data (bcache s1 c) = blk s ?n" "bsame s s1"
    "\<And>d. length d = BSIZE \<Longrightarrow> \<exists>s2 s3. log_write c (set_data c d s1) = Inr s2 \<and> brelse c s2 = Inr s3 \<and>
       fs_step H s ((blk s)(?n := d)) (insert ?n (pins s)) s3 \<and> running s3 p"
    by (rule modify_block [OF i run e n' rooms_use [OF sp]]) blast
  show ?thesis using 1(4) [OF len] by (auto simp: bfree_def BBLOCK_bb 1(1,2) Let_def)
qed

lemma clear_free:
  assumes ok: "bc_ok s" and b: "b < unat (sb_size (sb s))" and st: "sb s' = sb s"
    and B: "blk s' = (blk s)(bb s b := bmap_clear (b mod BPB) (blk s (bb s b)))"
  shows "free_in s' (blk s') j \<longleftrightarrow> j = b \<or> free_in s (blk s) j"
proof (cases "j < unat (sb_size (sb s)) \<and> j div BPB = b div BPB")
  case True
  then have "bb s j = bb s b" by (simp add: bb_def)
  moreover have "j mod BPB = b mod BPB \<longleftrightarrow> j = b" using True by (metis div_mult_mod_eq)
  moreover have "b mod BPB < BPB" by (simp add: BPB_def BSIZE_def)
  ultimately show ?thesis using True b bmap_clear_used [OF _ blk_length [OF ok], of "b mod BPB"] by (auto simp: free_in_def st B bb_def)
next
  case False
  then show ?thesis using bb_eq [OF _ b, of j] b by (auto simp: free_in_def st B bb_def)
qed

section \<open>A small file system\<close>

text \<open>
  A disk of 100 blocks with the log at block 2, inodes in block 32, the bitmap in block 45 (blocks 0
  to 47 in use), the root directory in block 46 and a file \<^verbatim>\<open>a\<close> with the content \<^verbatim>\<open>hello\<close> in block 47.
  The first two entries of the inode table refer to the directory and the file.
\<close>

definition pad :: "u8 list \<Rightarrow> u8 list" where
  "pad bs = bs @ replicate (BSIZE - length bs) 0"

definition demo_dir :: dinode where
  "demo_dir = \<lparr>d_type = T_DIR, d_major = 0, d_minor = 0, d_nlink = 1, d_size = 48, d_addrs = 46 # replicate 12 0\<rparr>"

definition demo_file :: dinode where
  "demo_file = \<lparr>d_type = T_FILE, d_major = 0, d_minor = 0, d_nlink = 1, d_size = 5, d_addrs = 47 # replicate 12 0\<rparr>"

definition demo_dirent :: "u16 \<Rightarrow> string \<Rightarrow> u8 list" where
  "demo_dirent i nm = le16 i @ asc nm @ replicate (DIRSIZ - length nm) 0"

definition demo_disk :: "u32 \<Rightarrow> u8 list" where
  "demo_disk n = (if n = 45 then pad (replicate 6 255)
     else if n = 32 then pad (replicate 64 0 @ dinode_bytes demo_dir @ dinode_bytes demo_file)
     else if n = 46 then pad (demo_dirent 1 ''.'' @ demo_dirent 1 ''..'' @ demo_dirent 2 ''a'')
     else if n = 47 then pad (asc ''hello'') else replicate BSIZE 0)"

definition demo_inode :: "u32 \<Rightarrow> dinode \<Rightarrow> inode" where
  "demo_inode i d = \<lparr>i_dev = ROOTDEV, i_inum = i, i_ref = 1, i_valid = True, i_type = d_type d, i_major = d_major d,
     i_minor = d_minor d, i_nlink = d_nlink d, i_size = d_size d, i_addrs = d_addrs d\<rparr>"

definition kfs_raw :: kfs where
  "kfs_raw = \<lparr>held = [], pmem = (\<lambda>_. 0), freelist = 0, k_end = 0x80021d60, k_etext = 0x80008000,
     k_trampoline = 0x80007000, kernel_pagetable = 0, satp = 0, u_out = [], u_in = [],
     tx_idle = [], panicked = False, pr_locking = True, ptable = proc_at, nextpid = 4,
     initproc = Some 0, cur = Some 0, sched_pointer = rr_impl, forkret_first = False, ticks = 0,
     nswitch = 0, k_forkret = 0x80001000, pipes = Map.empty, slock = (\<lambda>_ _. \<lparr>sl_locked = False, sl_pid = 0\<rparr>),
     bcache = bcache kbuf_raw, disk = demo_disk, dwrites = [],
     log = \<lparr>l_start = 2, l_size = 30, l_outstanding = 1, l_committing = False, l_dev = ROOTDEV, lh_n = 0, lh_block = replicate 30 0\<rparr>,
     sb = \<lparr>sb_magic = FSMAGIC, sb_size = 100, sb_nblocks = 54, sb_ninodes = 200, sb_nlog = 30, sb_logstart = 2, sb_inodestart = 32, sb_bmapstart = 45\<rparr>,
     itable = (\<lambda>ip. if ip = 0 then demo_inode 1 demo_dir else if ip = 1 then demo_inode 2 demo_file
                  else (demo_inode 0 demo_file)\<lparr>i_ref := 0, i_valid := False\<rparr>)\<rparr>"

definition kfs0 :: kfs where "kfs0 = binit kfs_raw"

lemma length_dinode_bytes: "length (d_addrs d) = 13 \<Longrightarrow> length (dinode_bytes d) = 64"
  by (simp add: dinode_bytes_def length_concat comp_def sum_list_triv)

lemma demo_disk_length: "length (demo_disk n) = BSIZE"
  by (simp add: demo_disk_def pad_def length_dinode_bytes demo_dir_def demo_file_def demo_dirent_def DIRSIZ_def BSIZE_def asc_def)

lemma binit_fs: "sb (binit s) = sb s" "itable (binit s) = itable s" "ptable (binit s) = ptable s"
proof -
  have "sb (fold (\<lambda>b t. link_front b (initsleeplock ''buffer'' b t)) bs t) = sb t \<and>
      itable (fold (\<lambda>b t. link_front b (initsleeplock ''buffer'' b t)) bs t) = itable t \<and>
      ptable (fold (\<lambda>b t. link_front b (initsleeplock ''buffer'' b t)) bs t) = ptable t" for bs and t :: "'a kfs_scheme"
    by (induction bs arbitrary: t)
      (simp_all add: link_front_def initsleeplock_def set_slock_def Let_def set_next_def set_prev_def upd_buf_def)
  then show "sb (binit s) = sb s" "itable (binit s) = itable s" "ptable (binit s) = ptable s"
    by (simp_all add: binit_def Let_def set_next_def set_prev_def upd_buf_def)
qed

lemma kfs0_facts:
  "fsi {} kfs0" "running kfs0 0" "pins kfs0 = {}" "blk kfs0 = demo_disk" "sb kfs0 = sb kfs_raw" "itable kfs0 = itable kfs_raw"
  "log kfs0 = log kfs_raw" "ptable kfs0 = proc_at" "rooms {} kfs0 28"
proof -
  have a: "\<forall>b < NBUF. b_dev (bcache kfs_raw b) = 0 \<and> \<not> b_valid (bcache kfs_raw b) \<and> b_refcnt (bcache kfs_raw b) = 0 \<and>
     length (b_data (bcache kfs_raw b)) = BSIZE" "\<forall>n. length (disk kfs_raw n) = BSIZE"
    using kbuf_raw_facts(1) by (simp_all add: kfs_raw_def demo_disk_length)
  note f = binit_establishes [OF a, folded kfs0_def]
  show l: "log kfs0 = log kfs_raw" by (simp add: kfs0_def binit_log)
  then show p: "pins kfs0 = {}" by (simp add: pins_def kfs_raw_def log_blocks_def)
  show "fsi {} kfs0" unfolding fsi_def
    using f l p by (simp add: kfs_raw_def log_wf_def log_blocks_def LOGSIZE_def MAXOPBLOCKS_def)
  show "running kfs0 0" using f by (simp add: running_def kfs_raw_def)
  show "blk kfs0 = demo_disk" using f by (simp add: kfs_raw_def)
  show "rooms {} kfs0 28" by (simp add: rooms_def p NBUF_def LOGSIZE_def MAXOPBLOCKS_def)
qed (simp_all add: kfs0_def binit_fs, simp add: kfs_raw_def)

lemma demo_free: "free_in kfs0 demo_disk k \<longleftrightarrow> 48 \<le> k \<and> k < 100" "k < 100 \<Longrightarrow> bb kfs0 k = 45"
proof -
  have s: "sb_size (sb kfs0) = 100" "sb_bmapstart (sb kfs0) = 45" by (simp_all add: kfs0_facts) (simp_all add: kfs_raw_def)
  show b: "bb kfs0 k = 45" if "k < 100" for k using that by (simp add: bb_def s BPB_def BSIZE_def)
  have u: "bmap_used (demo_disk 45) k \<longleftrightarrow> k < 48" if k: "k < 100" for k
  proof (cases "k < 48")
    case True
    then have "k div 8 < 6" by (simp add: less_mult_imp_div_less)
    then have "demo_disk 45 ! (k div 8) = 255" by (simp add: demo_disk_def pad_def nth_append)
    moreover have "bit (mask 8 :: u8) (k mod 8)" by (simp add: bit_mask_iff possible_bit_def)
    ultimately show ?thesis using True by (simp add: bmap_used_bit mask_eq_exp_minus_1)
  next
    case False
    then have "6 \<le> k div 8" "k div 8 < BSIZE" using k by (simp_all add: BSIZE_def)
    then have "demo_disk 45 ! (k div 8) = 0" by (simp add: demo_disk_def pad_def nth_append)
    then show ?thesis using False by (simp add: bmap_used_bit)
  qed
  show "free_in kfs0 demo_disk k \<longleftrightarrow> 48 \<le> k \<and> k < 100"
    using u [of k] b [of k] by (auto simp: free_in_def s BPB_def BSIZE_def)
qed

lemma demo_log_area: "n \<in> log_area (log kfs0) \<Longrightarrow> unat n < 32"
  using log_area_less [of "log kfs0" n] by (simp add: kfs0_facts(7)) (simp add: kfs_raw_def LOGSIZE_def MAXOPBLOCKS_def)

lemma demo_alloc_wf: "alloc_wf {} kfs0"
proof -
  have s: "unat (sb_size (sb kfs0)) = 100" by (simp add: kfs0_facts) (simp add: kfs_raw_def)
  have "(of_nat k :: u32) \<noteq> 45" "unat (of_nat k :: u32) = k" if "48 \<le> k" "k < 100" for k
    using that unat_of_nat32 [of k] by auto
  moreover have "45 \<notin> log_area (log kfs0)" using demo_log_area [of 45] by auto
  ultimately show ?thesis
    using demo_log_area by (auto simp: alloc_wf_def s kfs0_facts(4) demo_free BPB_def BSIZE_def) (fastforce dest: demo_log_area)
qed

section \<open>Properties\<close>

text \<open>C10: Block allocation. Inside a transaction with room in the log, \<^verbatim>\<open>balloc\<close> returns a block the bitmap has as
  free, whenever there is one: it marks this block and no other as used, zeroes it and changes no
  other block but the one with its bit. \<^verbatim>\<open>bfree\<close> of the block gives back the bitmap as it was.\<close>

theorem balloc_bfree:
  assumes "fsi H s" "running s p" "0 < fst e" "alloc_wf H s" "rooms H s 3" "free_in s (blk s) k"
  shows "\<exists>b s' s''. balloc e ROOTDEV s = Inr (b, s') \<and> free_in s (blk s) (unat b) \<and> blk s' b = replicate BSIZE 0 \<and>
    (\<forall>j. free_in s' (blk s') j \<longleftrightarrow> j \<noteq> unat b \<and> free_in s (blk s) j) \<and>
    (\<forall>n. n \<noteq> b \<and> n \<noteq> BBLOCK b (sb s) \<longrightarrow> blk s' n = blk s n) \<and>
    bfree e ROOTDEV b s' = Inr s'' \<and> (\<forall>j. free_in s'' (blk s'') j \<longleftrightarrow> free_in s (blk s) j)"
proof -
  define k where "k = (LEAST k. free_in s (blk s) k)"
  have k: "free_in s (blk s) k" "\<forall>j < k. \<not> free_in s (blk s) j"
    using LeastI [of "free_in s (blk s)", OF assms(6)] not_less_Least by (auto simp: k_def)
  have ks: "k < unat (sb_size (sb s))" using k(1) by (simp add: free_in_def)
  then have u: "unat (of_nat k :: u32) = k" using assms(4) by (intro unat_of_nat32) (simp add: alloc_wf_def)
  have r2: "rooms H s 2" by (rule rooms_mono [OF assms(5)]) simp
  obtain s' where s': "balloc e ROOTDEV s = Inr (of_nat k, s')" "took H s k s'" "running s' p"
    using balloc_ok(2) [OF assms(1-4) r2 k] by blast
  note d = fs_stepD [OF s'(2) [unfolded took_def]]
  have sb: "sb s' = sb s" "bb s' k = bb s k" "log_area (log s') = log_area (log s)" using lsame_fs [OF d(2)] by (simp_all add: bb_def)
  note fr = took_free [OF assms(4) k(1) s'(2) fsiD(1) [OF assms(1)]]
  have ne: "bb s k \<noteq> of_nat k" and bk: "bb s k \<notin> log_area (log s) \<union> H" using assms(4) k(1) ks by (auto simp: alloc_wf_def) metis
  have r1: "rooms H s' (Suc 0)"
    using assms(5) card_insert_Suc [of "of_nat k" "insert (bb s k) (pins s)"] card_insert_Suc [of "bb s k" "pins s"]
      card_insert_Suc [of "of_nat k" "insert (bb s k) (pins s \<union> H)"] card_insert_Suc [of "bb s k" "pins s \<union> H"] by (simp add: rooms_def d(4))
  have "bmap_used (blk s' (bb s' (unat (of_nat k :: u32)))) (unat (of_nat k :: u32) mod BPB)"
    using bmap_set_used [OF _ blk_length [OF fsiD(1) [OF assms(1)]], of "k mod BPB"] ne by (simp add: u sb d(3) BPB_def BSIZE_def)
  then obtain s'' where s'': "bfree e ROOTDEV (of_nat k) s' = Inr s''"
    "fs_step H s' ((blk s')(bb s' k := bmap_clear (k mod BPB) (blk s' (bb s' k)))) (insert (bb s' k) (pins s')) s''"
    using bfree_ok [OF d(1) s'(3) assms(3) _ r1, of "of_nat k"] bk sb by (auto simp: u)
  note d2 = fs_stepD [OF s''(2)]
  have cl: "free_in s'' (blk s'') j \<longleftrightarrow> j = k \<or> free_in s' (blk s') j" for j
    using clear_free [OF fsiD(1) [OF d(1)], of k s''] ks sb d2(3) lsame_fs(1) [OF d2(2)] by simp
  show ?thesis
  proof (intro exI conjI allI impI)
    show "balloc e ROOTDEV s = Inr (of_nat k, s')" "bfree e ROOTDEV (of_nat k) s' = Inr s''" by fact+
    show "free_in s (blk s) (unat (of_nat k :: u32))" "blk s' (of_nat k) = replicate BSIZE 0" using k(1) d(3) by (simp_all add: u)
    show "free_in s' (blk s') j \<longleftrightarrow> j \<noteq> unat (of_nat k :: u32) \<and> free_in s (blk s) j" for j by (simp add: fr u)
    show "free_in s'' (blk s'') j \<longleftrightarrow> free_in s (blk s) j" for j using cl fr k(1) by auto
    show "blk s' n = blk s n" if "n \<noteq> of_nat k \<and> n \<noteq> BBLOCK (of_nat k) (sb s)" for n using that d(3) by (simp add: BBLOCK_bb u)
  qed
qed

theorem balloc_bfree_witness:
  "\<exists>b s' s''. balloc (1, id) ROOTDEV kfs0 = Inr (b, s') \<and> free_in kfs0 (blk kfs0) (unat b) \<and> blk s' b = replicate BSIZE 0 \<and>
    (\<forall>j. free_in s' (blk s') j \<longleftrightarrow> j \<noteq> unat b \<and> free_in kfs0 (blk kfs0) j) \<and>
    (\<forall>n. n \<noteq> b \<and> n \<noteq> BBLOCK b (sb kfs0) \<longrightarrow> blk s' n = blk kfs0 n) \<and>
    bfree (1, id) ROOTDEV b s' = Inr s'' \<and> (\<forall>j. free_in s'' (blk s'') j \<longleftrightarrow> free_in kfs0 (blk kfs0) j)"
  by (rule balloc_bfree [OF kfs0_facts(1,2) _ demo_alloc_wf, of _ 60])
    (simp_all add: kfs0_facts(4) demo_free rooms_mono [OF kfs0_facts(9)])

text \<open>C39: \<^verbatim>\<open>begin_op\<close> reserves log space, and what the reservation is worth. Whatever the other processes do while it
  waits, \<^verbatim>\<open>begin_op\<close> returns only when no commit is under way and the blocks logged so far and \<open>MAXOPBLOCKS\<close> for
  every outstanding operation, the new one included, are at most \<open>LOGSIZE\<close>; with that room it returns at once.
  After it the operations can log further blocks as long as fewer than \<open>LOGSIZE\<close> are logged in all: each
  store changes its block in the cache and nothing on the disk. One block of the log is its header, so
  the last block of a full reservation cannot be logged: when operations use all \<open>LOGSIZE\<close> blocks \<^verbatim>\<open>begin_op\<close>
  hands out, \<^verbatim>\<open>log_write\<close> panics.\<close>

theorem begin_op_reserves:
  assumes "fsi {} (upd_log (\<lambda>l. l\<lparr>l_outstanding := l_outstanding l + 1\<rparr>) s)" "running s p" "0 < fst e" "\<not> l_committing (log s)"
    "sint (lh_n (log s)) + (sint (l_outstanding (log s)) + 1) * int MAXOPBLOCKS \<le> int LOGSIZE"
    "distinct (map fst ws)" "\<forall>(n, d) \<in> set ws. n \<notin> log_area (log s) \<and> n \<notin> pins s \<and> length d = BSIZE"
    "logged s + length ws \<le> LOGSIZE"
  shows "(begin_op f r = Inr r' \<longrightarrow> \<not> l_committing (log r') \<and>
      sint (lh_n (log r')) + sint (l_outstanding (log r')) * int MAXOPBLOCKS \<le> int LOGSIZE) \<and>
    (\<exists>s1. begin_op e s = Inr s1 \<and> l_outstanding (log s1) = l_outstanding (log s) + 1 \<and>
      (if logged s + length ws < LOGSIZE
       then \<exists>t. foldE (logged_store e) ws s1 = Inr t \<and> logged t = logged s + length ws \<and>
         blk t = apply_writes ws (blk s) \<and> disk t = disk s
       else foldE (logged_store e) ws s1 = Inl (Panic ''too big a transaction'')))"
proof -
  define s1 where "s1 = upd_log (\<lambda>l. l\<lparr>l_outstanding := l_outstanding l + 1\<rparr>) s"
  note i = assms(1) [folded s1_def]
  have f: "blk s1 = blk s" "disk s1 = disk s" "running s1 p" "logged s1 = logged s" "l_outstanding (log s1) = l_outstanding (log s) + 1"
    using assms(2) by (simp_all add: s1_def)
  have ps: "pins s1 = pins s" "log_area (log s1) = log_area (log s)" by (simp_all add: s1_def pins_def log_blocks_def log_area_def)
  have 1: "\<not> l_committing (log r') \<and> sint (lh_n (log r')) + sint (l_outstanding (log r')) * int MAXOPBLOCKS \<le> int LOGSIZE"
    if "begin_op f r = Inr r'" using that begin_op_loop_reserves by (auto simp: begin_op_def)
  obtain k where k: "fst e = Suc k" using assms(3) by (cases "fst e") auto
  have 2: "begin_op e s = Inr s1"
    using running_free(4) [OF assms(2)] assms(4,5) by (simp add: begin_op_def k s1_def upd_log_def)
  have c: "card (pins s1) = logged s" "logged s < LOGSIZE" using card_pins [OF fsiD(5) [OF i]] logged_less [OF fsiD(5) [OF i]] f(4) by simp_all
  have ws: "\<forall>(n, d) \<in> set ws. n \<notin> log_area (log s1) \<and> n \<notin> pins s1 \<and> length d = BSIZE" using assms(7) by (simp only: ps)
  note st = logged_stores [OF i f(3) assms(3,6) ws, unfolded c(1), OF assms(8) c(2)]
  have d: "card (pins s1 \<union> fst ` set ws) = logged s + length ws"
  proof -
    have "card (fst ` set ws) = length ws" using assms(6) by (metis distinct_card length_map set_map)
    moreover have "pins s1 \<inter> fst ` set ws = {}" using ws by auto
    ultimately show ?thesis using c(1) by (simp add: card_Un_disjoint pins_def)
  qed
  have t: "logged t = logged s + length ws" "blk t = apply_writes ws (blk s)" "disk t = disk s"
    if "fs_step {} s1 (apply_writes ws (blk s1)) (pins s1 \<union> fst ` set ws) t" for t
    using fs_stepD(1-4) [OF that] card_pins [of t] fsiD(5) [of "{}" t] d lsame_fs(3) [of s1 t] f(1,2) by simp_all
  show ?thesis
  proof (cases "logged s + length ws < LOGSIZE")
    case True
    then obtain t where "foldE (logged_store e) ws s1 = Inr t" "fs_step {} s1 (apply_writes ws (blk s1)) (pins s1 \<union> fst ` set ws) t"
      using st by auto
    then show ?thesis using 1 2 f(5) t [of t] True by auto
  next
    case False
    then show ?thesis using 1 2 f(5) st by auto
  qed
qed

text \<open>Two operations are outstanding and have logged nothing; the third is let in, and together they store ten blocks
  each.\<close>

definition kfs_two :: kfs where
  "kfs_two = upd_log (\<lambda>l. l\<lparr>l_outstanding := 2\<rparr>) kfs0"

definition thirty_stores :: "(u32 \<times> u8 list) list" where
  "thirty_stores = map (\<lambda>i. (of_nat (50 + i), replicate BSIZE 7)) [0..<30]"

lemma kfs_two_facts:
  "fsi {} (upd_log (\<lambda>l. l\<lparr>l_outstanding := l_outstanding l + 1\<rparr>) kfs_two)" "running kfs_two 0" "pins kfs_two = {}"
  "log kfs_two = (log kfs_raw)\<lparr>l_outstanding := 2\<rparr>"
proof -
  have "upd_log (\<lambda>l. l\<lparr>l_outstanding := l_outstanding l + 1\<rparr>) kfs_two = upd_log (\<lambda>l. l\<lparr>l_outstanding := 3\<rparr>) kfs0"
    by (simp add: kfs_two_def upd_log_def)
  moreover have "log_wf ((log kfs0)\<lparr>l_outstanding := 3\<rparr>) = log_wf (log kfs0)"
    by (simp add: log_wf_def log_blocks_def log_area_def)
  ultimately show "fsi {} (upd_log (\<lambda>l. l\<lparr>l_outstanding := l_outstanding l + 1\<rparr>) kfs_two)"
    using kfs0_facts(1) by (simp add: fsi_def pins_def log_blocks_def)
  show "running kfs_two 0" "pins kfs_two = {}" "log kfs_two = (log kfs_raw)\<lparr>l_outstanding := 2\<rparr>"
    using kfs0_facts(2,3,7) by (simp_all add: kfs_two_def pins_def log_blocks_def)
qed

theorem begin_op_reserves_witness:
  "\<exists>s1. begin_op (1, id) kfs_two = Inr s1 \<and> l_outstanding (log s1) = 3 \<and>
    foldE (logged_store (1, id)) thirty_stores s1 = Inl (Panic ''too big a transaction'') \<and>
    sint (lh_n (log s1)) + sint (l_outstanding (log s1)) * int MAXOPBLOCKS \<le> int LOGSIZE"
proof -
  have l: "\<not> l_committing (log kfs_two)" "lh_n (log kfs_two) = 0" "l_outstanding (log kfs_two) = 2"
    "log_area (log kfs_two) = log_area (log kfs0)"
    by (simp_all add: kfs_two_facts(4) kfs0_facts(7) log_area_def) (simp_all add: kfs_raw_def)
  have u: "unat (of_nat (50 + i) :: u32) = 50 + i" if "i < 30" for i using that by (intro unat_of_nat32) simp
  then have "inj_on (\<lambda>i. of_nat (50 + i) :: u32) {0..<30}" by (intro inj_onI) (metis add_left_cancel atLeastLessThan_iff)
  then have d: "distinct (map fst thirty_stores)" by (simp add: thirty_stores_def comp_def distinct_map del: of_nat_add)
  have "of_nat (50 + i) \<notin> log_area (log kfs0)" if "i < 30" for i using demo_log_area u [OF that] by fastforce
  then have w: "\<forall>(n, d) \<in> set thirty_stores. n \<notin> log_area (log kfs_two) \<and> n \<notin> pins kfs_two \<and> length d = BSIZE"
    by (auto simp: thirty_stores_def l(4) kfs_two_facts(3) simp del: of_nat_add)
  have n: "sint (lh_n (log kfs_two)) + (sint (l_outstanding (log kfs_two)) + 1) * int MAXOPBLOCKS \<le> int LOGSIZE"
    "logged kfs_two + length thirty_stores \<le> LOGSIZE" "\<not> logged kfs_two + length thirty_stores < LOGSIZE"
    by (simp_all add: l thirty_stores_def LOGSIZE_def MAXOPBLOCKS_def)
  have "0 < fst (1 :: nat, id :: kfs \<Rightarrow> kfs)" by simp
  note r = begin_op_reserves [OF kfs_two_facts(1,2) this l(1) n(1) d w n(2)]
  then obtain s1 where s1: "begin_op (1, id) kfs_two = Inr s1" "l_outstanding (log s1) = l_outstanding (log kfs_two) + 1"
    "foldE (logged_store (1, id)) thirty_stores s1 = Inl (Panic ''too big a transaction'')"
    using r [THEN conjunct2] n(3) by (simp only: if_False) blast
  with r [of "(1, id)" kfs_two s1] show ?thesis using l(3) by auto
qed

end
