(* ===== verification/Fsinode.thy ===== *)
theory Fsinode
  imports Fsspec
begin

text \<open>
  Inodes and their content: the on-disk layout, \<^verbatim>\<open>ilock\<close> and \<^verbatim>\<open>iupdate\<close>, and \<^verbatim>\<open>bmap\<close>, \<^verbatim>\<open>readi\<close> and \<^verbatim>\<open>writei\<close>
  against a file as a sequence of bytes.
\<close>

section \<open>The layout of an on-disk inode\<close>

lemma get_in_put:
  assumes "off + length bs \<le> length data" "off \<le> at" "at + n \<le> off + length bs"
  shows "get_bytes at n (put_bytes off bs data) = get_bytes (at - off) n bs"
proof (rule nth_equalityI)
  show "length (get_bytes at n (put_bytes off bs data)) = length (get_bytes (at - off) n bs)" using assms by (simp add: get_bytes_def)
  fix i assume "i < length (get_bytes at n (put_bytes off bs data))"
  then have "i < n" using assms by (simp add: get_bytes_def)
  then show "get_bytes at n (put_bytes off bs data) ! i = get_bytes (at - off) n bs ! i"
    using assms by (simp add: get_bytes_def nth_put_bytes)
qed

lemma get_bytes_append: "get_bytes at n (xs @ ys) = (if length xs \<le> at then get_bytes (at - length xs) n ys
    else if at + n \<le> length xs then get_bytes at n xs else take n (drop at xs @ ys))"
  by (auto simp: get_bytes_def)

lemma get_bytes_all [simp]: "length xs = n \<Longrightarrow> get_bytes 0 n xs = xs"
  by (simp add: get_bytes_def)

lemma get_concat_le32: "i < length xs \<Longrightarrow> get_bytes (4 * i) 4 (concat (map le32 xs)) = le32 (xs ! i)"
proof (induction xs arbitrary: i)
  case (Cons x xs)
  then show ?case by (cases i) (simp_all add: get_bytes_append)
qed simp

lemma get_dinode_bytes:
  assumes "length (d_addrs d) = 13"
  shows "un16 (get_bytes 0 2 (dinode_bytes d)) = d_type d" "un16 (get_bytes 2 2 (dinode_bytes d)) = d_major d"
    "un16 (get_bytes 4 2 (dinode_bytes d)) = d_minor d" "un16 (get_bytes 6 2 (dinode_bytes d)) = d_nlink d"
    "un32 (get_bytes 8 4 (dinode_bytes d)) = d_size d" "i < 13 \<Longrightarrow> un32 (get_bytes (12 + 4 * i) 4 (dinode_bytes d)) = d_addrs d ! i"
proof -
  show "un32 (get_bytes (12 + 4 * i) 4 (dinode_bytes d)) = d_addrs d ! i" if "i < 13"
    using get_concat_le32 [of i "d_addrs d"] that assms by (simp add: dinode_bytes_def get_bytes_append)
qed (simp_all add: dinode_bytes_def get_bytes_append)

lemma get_put_dinode:
  assumes d: "length (d_addrs d) = 13" and k: "k < IPB" and l: "length data = BSIZE"
  shows "get_dinode k (put_dinode k d data) = d"
proof -
  have b: "64 * k + 64 \<le> BSIZE" using k by (simp add: IPB_def BSIZE_def)
  note g = get_dinode_bytes [OF d]
  have *: "get_bytes (64 * k + a) n (put_bytes (64 * k) (dinode_bytes d) data) = get_bytes a n (dinode_bytes d)" if "a + n \<le> 64" for a n
    using get_in_put [of "64 * k" "dinode_bytes d" data "64 * k + a" n] that b l length_dinode_bytes [OF d] by simp
  have "map (\<lambda>i. get32 (put_dinode k d data) (64 * k + 12 + 4 * i)) [0..<13] = d_addrs d"
  proof (rule nth_equalityI)
    fix i assume "i < length (map (\<lambda>i. get32 (put_dinode k d data) (64 * k + 12 + 4 * i)) [0..<13])"
    then have i: "i < 13" by simp
    then show "map (\<lambda>i. get32 (put_dinode k d data) (64 * k + 12 + 4 * i)) [0..<13] ! i = d_addrs d ! i"
      using * [of "12 + 4 * i" 4] g(6) [OF i] by (simp add: put_dinode_def get32_def add.assoc)
  qed (simp add: d)
  moreover have "get16 (put_dinode k d data) (64 * k) = d_type d" "get16 (put_dinode k d data) (64 * k + 2) = d_major d"
    "get16 (put_dinode k d data) (64 * k + 4) = d_minor d" "get16 (put_dinode k d data) (64 * k + 6) = d_nlink d"
    "get32 (put_dinode k d data) (64 * k + 8) = d_size d"
    using * [of 0 2] * [of 2 2] * [of 4 2] * [of 6 2] * [of 8 4] g by (simp_all add: put_dinode_def get16_def get32_def)
  ultimately show ?thesis by (simp add: get_dinode_def NDIRECT_def)
qed

lemma get_put_dinode_other:
  assumes d: "length (d_addrs d) = 13" and k: "k < IPB" "j < IPB" "j \<noteq> k" and l: "length data = BSIZE"
  shows "get_dinode j (put_dinode k d data) = get_dinode j data"
proof -
  have b: "64 * k + 64 \<le> BSIZE" "64 * j + 64 \<le> BSIZE" "64 * j + 64 \<le> 64 * k \<or> 64 * k + 64 \<le> 64 * j"
    using k by (auto simp: IPB_def BSIZE_def)
  have *: "get_bytes (64 * j + a) n (put_bytes (64 * k) (dinode_bytes d) data) = get_bytes (64 * j + a) n data" if "a + n \<le> 64" for a n
    using that b l length_dinode_bytes [OF d] by (intro get_put_bytes_other) auto
  have "get32 (put_dinode k d data) (64 * j + 12 + 4 * i) = get32 data (64 * j + 12 + 4 * i)" if "i < 13" for i
    using * [of "12 + 4 * i" 4] that by (simp add: put_dinode_def get32_def add.assoc)
  then have "map (\<lambda>i. get32 (put_dinode k d data) (64 * j + 12 + 4 * i)) [0..<13] = map (\<lambda>i. get32 data (64 * j + 12 + 4 * i)) [0..<13]"
    by simp
  then show ?thesis using * [of 0 2] * [of 2 2] * [of 4 2] * [of 6 2] * [of 8 4]
    by (simp add: get_dinode_def NDIRECT_def put_dinode_def get16_def get32_def Let_def)
qed

section \<open>Updates of the inode table\<close>

definition put_inode :: "nat \<Rightarrow> inode \<Rightarrow> 'z kfs_scheme \<Rightarrow> 'z kfs_scheme" where
  "put_inode ip i s = s\<lparr>itable := (itable s)(ip := i)\<rparr>"

lemma upd_put: "upd_inode ip f s = put_inode ip (f (itable s ip)) s"
  by (simp add: upd_inode_def put_inode_def)

lemma put_inode_sel [simp]:
  "itable (put_inode ip i s) = (itable s)(ip := i)" "sb (put_inode ip i s) = sb s" "log (put_inode ip i s) = log s"
  "bcache (put_inode ip i s) = bcache s" "slock (put_inode ip i s) = slock s" "disk (put_inode ip i s) = disk s"
  "held (put_inode ip i s) = held s" "cur (put_inode ip i s) = cur s" "ptable (put_inode ip i s) = ptable s"
  "pmem (put_inode ip i s) = pmem s"
  by (simp_all add: put_inode_def)

lemma put_inode_view [simp]:
  "blk (put_inode ip i s) = blk s" "refs (put_inode ip i s) = refs s" "lckd (put_inode ip i s) = lckd s"
  "bc_ok (put_inode ip i s) = bc_ok s" "pins (put_inode ip i s) = pins s" "fsi H (put_inode ip i s) = fsi H s"
  "running (put_inode ip i s) p = running s p" "holds (put_inode ip i s) b n = holds s b n" "rooms H (put_inode ip i s) k = rooms H s k"
  "alloc_wf H (put_inode ip i s) = alloc_wf H s" "bb (put_inode ip i s) k = bb s k" "free_in (put_inode ip i s) B k = free_in s B k"
proof -
  have v: "blk (put_inode ip i s) = blk s" "refs (put_inode ip i s) = refs s" "lckd (put_inode ip i s) = lckd s"
    "bc_ok (put_inode ip i s) = bc_ok s"
    unfolding blk_def [abs_def] refs_def [abs_def] lckd_def [abs_def] bufof_def bc_ok_def put_inode_sel by (rule refl)+
  have p: "pins (put_inode ip i s) = pins s" by (simp add: pins_def)
  have w: "bb (put_inode ip i s) k = bb s k" "free_in (put_inode ip i s) B k = free_in s B k" for k B
    by (simp_all add: bb_def free_in_def)
  show "blk (put_inode ip i s) = blk s" "refs (put_inode ip i s) = refs s" "lckd (put_inode ip i s) = lckd s"
    "bc_ok (put_inode ip i s) = bc_ok s" "pins (put_inode ip i s) = pins s" "bb (put_inode ip i s) k = bb s k"
    "free_in (put_inode ip i s) B k = free_in s B k" by fact+
  show "fsi H (put_inode ip i s) = fsi H s" "rooms H (put_inode ip i s) k = rooms H s k" "alloc_wf H (put_inode ip i s) = alloc_wf H s"
    by (simp_all add: fsi_def rooms_def alloc_wf_def v p w)
  show "running (put_inode ip i s) p = running s p" "holds (put_inode ip i s) b n = holds s b n"
    by (simp_all add: running_def holds_def cached_def mine_def)
qed

lemma lsame_put_inode:
  assumes "lsame s t"
  shows "lsame (put_inode ip i s) (put_inode ip i t)"
proof -
  obtain f where f: "bsame (upd_log f s) t" and st: "l_start (log t) = l_start (log s)" using assms by (auto simp: lsame_def)
  obtain bc sl pt where e: "t = (upd_log f s)\<lparr>bcache := bc, slock := sl, ptable := pt\<rparr>" "\<And>j. psame (ptable s j) (pt j)"
    "\<And>nm. nm \<noteq> ''buffer'' \<Longrightarrow> sl nm = slock s nm" using f by (auto elim!: bsameE simp: upd_log_def)
  have "bsame (upd_log f (put_inode ip i s)) (put_inode ip i t)"
    by (rule bsameI [where bc = bc and sl = sl and pt = pt]) (use e in \<open>auto simp: upd_log_def put_inode_def\<close>)
  then show ?thesis using st unfolding lsame_def by auto
qed

lemma put_inode_put [simp]: "put_inode ip i (put_inode ip j s) = put_inode ip i s" "put_inode ip (itable s ip) s = s"
  by (simp_all add: put_inode_def)

text \<open>\<open>fi_step H ip i s B P s'\<close>: block updates with inode table entry \<open>ip\<close> changed to \<open>i\<close>.\<close>

definition fi_step :: "u32 set \<Rightarrow> nat \<Rightarrow> inode \<Rightarrow> 'z kfs_scheme \<Rightarrow> (u32 \<Rightarrow> u8 list) \<Rightarrow> u32 set \<Rightarrow> 'z kfs_scheme \<Rightarrow> bool" where
  "fi_step H ip i s B P s' \<longleftrightarrow> fs_step H (put_inode ip i s) B P s'"

lemma fs_step_put: "fs_step H s B P t \<Longrightarrow> fs_step H (put_inode ip i s) B P (put_inode ip i t)"
  using lsame_put_inode [of s t ip i] by (simp add: fs_step_def keep_def)

lemma fi_stepD:
  assumes "fi_step H ip i s B P s'"
  shows "fsi H s'" "blk s' = B" "pins s' = P" "keep H s s'" "running s p \<Longrightarrow> running s' p" "itable s' = (itable s)(ip := i)" "sb s' = sb s"
    "log_area (log s') = log_area (log s)" "bb s' k = bb s k"
proof -
  note d = fs_stepD [OF assms [unfolded fi_step_def]]
  show "fsi H s'" "blk s' = B" "pins s' = P" "keep H s s'" "running s p \<Longrightarrow> running s' p" using d by (simp_all add: keep_def)
  note l = lsame_fs [OF d(2)]
  show "itable s' = (itable s)(ip := i)" "sb s' = sb s" "log_area (log s') = log_area (log s)" using l by simp_all
  then show "bb s' k = bb s k" by (simp add: bb_def)
qed

lemma fi_step_id: "fs_step H s B P s' \<Longrightarrow> i = itable s ip \<Longrightarrow> fi_step H ip i s B P s'"
  by (simp add: fi_step_def)

lemma fi_step_upd: "fi_step H ip i s B P s' \<Longrightarrow> fi_step H ip j s B P (put_inode ip j s')"
  using fs_step_put [of H "put_inode ip i s" B P s' ip j] by (simp add: fi_step_def)

lemma fi_step_trans: "fi_step H ip i s B P t \<Longrightarrow> fi_step H ip j t B' P' u \<Longrightarrow> fi_step H ip j s B' P' u"
  using fi_step_upd [of H ip i s B P t j] fs_step_trans unfolding fi_step_def by metis

section \<open>\<^verbatim>\<open>iupdate\<close> and \<^verbatim>\<open>ilock\<close>\<close>

abbreviation ino_slot :: "u32 \<Rightarrow> nat" where "ino_slot inum \<equiv> unat inum mod IPB"

lemma iupdate_ok:
  assumes i: "fsi H s" and run: "running s p" and e: "0 < fst e" and dev: "i_dev (itable s ip) = ROOTDEV"
    and ib: "ib = IBLOCK (i_inum (itable s ip)) (sb s)" "ib \<notin> log_area (log s) \<union> H" and l: "length (i_addrs (itable s ip)) = 13" and sp: "rooms H s (Suc k)"
  shows "\<exists>s'. iupdate e ip s = Inr s' \<and> running s' p \<and>
    fs_step H s ((blk s)(ib := put_dinode (ino_slot (i_inum (itable s ip))) (dinode_of (itable s ip)) (blk s ib))) (insert ib (pins s)) s'"
proof -
  let ?k = "ino_slot (i_inum (itable s ip))" and ?d = "dinode_of (itable s ip)"
  have n: "ib \<notin> H" "ib \<notin> log_area (log s)" using ib(2) by auto
  have k: "?k < IPB" by (simp add: IPB_def BSIZE_def)
  then have "64 * ?k + length (dinode_bytes ?d) \<le> BSIZE" using length_dinode_bytes [of ?d] l by (simp add: dinode_of_def IPB_def BSIZE_def)
  then have len: "length (put_dinode ?k ?d (blk s ib)) = BSIZE" using blk_length [OF fsiD(1) [OF i]] by (simp add: put_dinode_def)
  obtain b s1 where 1: "bread e ROOTDEV ib s = Inr (b, s1)" "b_data (bcache s1 b) = blk s ib" "bsame s s1"
    "\<exists>s2 s3. log_write b (set_data b (put_dinode ?k ?d (blk s ib)) s1) = Inr s2 \<and> brelse b s2 = Inr s3 \<and>
       fs_step H s ((blk s)(ib := put_dinode ?k ?d (blk s ib))) (insert ib (pins s)) s3 \<and> running s3 p"
    by (rule modify_block [OF i run e n rooms_use [OF sp]]) (use len in blast)
  then show ?thesis using dev ib(1) bsame_fs(2) [OF 1(3)] by (auto simp: iupdate_def Let_def)
qed

lemma set_slock_view [simp]:
  "blk (set_slock ''inode'' ip l s) = blk s" "refs (set_slock ''inode'' ip l s) = refs s" "lckd (set_slock ''inode'' ip l s) = lckd s"
  "bc_ok (set_slock ''inode'' ip l s) = bc_ok s" "pins (set_slock ''inode'' ip l s) = pins s" "fsi H (set_slock ''inode'' ip l s) = fsi H s"
  "running (set_slock ''inode'' ip l s) p = running s p"
proof -
  have "slock (set_slock ''inode'' ip l s) ''buffer'' = slock s ''buffer''" "bcache (set_slock ''inode'' ip l s) = bcache s"
    "disk (set_slock ''inode'' ip l s) = disk s" for s :: "'a kfs_scheme" by (simp_all add: set_slock_def)
  note a = this
  show v: "blk (set_slock ''inode'' ip l s) = blk s" "refs (set_slock ''inode'' ip l s) = refs s" "lckd (set_slock ''inode'' ip l s) = lckd s"
    "bc_ok (set_slock ''inode'' ip l s) = bc_ok s"
    unfolding blk_def [abs_def] refs_def [abs_def] lckd_def [abs_def] bufof_def bc_ok_def a by (rule refl)+
  show p: "pins (set_slock ''inode'' ip l s) = pins s" by (simp add: pins_def set_slock_def)
  show "fsi H (set_slock ''inode'' ip l s) = fsi H s" using v p by (simp add: fsi_def) (simp add: set_slock_def)
  show "running (set_slock ''inode'' ip l s) p = running s p" by (simp add: running_def set_slock_def)
qed

definition loaded :: "dinode \<Rightarrow> inode \<Rightarrow> inode" where
  "loaded d i = i\<lparr>i_type := d_type d, i_major := d_major d, i_minor := d_minor d, i_nlink := d_nlink d, i_size := d_size d,
     i_addrs := d_addrs d, i_valid := True\<rparr>"

text \<open>\<open>locked_inode\<close>: what \<^verbatim>\<open>ilock\<close> leaves, with the inode loaded from its block.\<close>

definition locked_inode :: "u32 set \<Rightarrow> nat \<Rightarrow> inode \<Rightarrow> 'z kfs_scheme \<Rightarrow> 'z kfs_scheme \<Rightarrow> bool" where
  "locked_inode H ip i s s' \<longleftrightarrow> fsi H s' \<and> blk s' = blk s \<and> pins s' = pins s \<and> itable s' = (itable s)(ip := i) \<and> sb s' = sb s \<and>
     log s' = log s \<and> cur s' = cur s \<and> held s' = held s \<and> mine s' ''inode'' ip \<and> (\<forall>j. psame (ptable s j) (ptable s' j)) \<and>
     (\<forall>jp. jp \<noteq> ip \<longrightarrow> slock s' ''inode'' jp = slock s ''inode'' jp)"

lemma ilock_ok:
  assumes i: "fsi H s" and run: "running s p" and e: "0 < fst e" and dev: "i_dev (itable s ip) = ROOTDEV"
    and ib: "ib = IBLOCK (i_inum (itable s ip)) (sb s)" "ib \<notin> H" and sp: "card (pins s \<union> H) < NBUF"
    and ref: "1 \<le> sint (i_ref (itable s ip))" and un: "\<not> sl_locked (slock s ''inode'' ip)"
    and d: "d = get_dinode (ino_slot (i_inum (itable s ip))) (blk s ib)"
    and ty: "\<not> i_valid (itable s ip) \<Longrightarrow> d_type d \<noteq> 0"
  shows "\<exists>s'. ilock e (Some ip) s = Inr s' \<and> locked_inode H ip (if i_valid (itable s ip) then itable s ip else loaded d (itable s ip)) s s'"
proof -
  let ?t = "set_slock ''inode'' ip \<lparr>sl_locked = True, sl_pid = p_pid (ptable s p)\<rparr> s"
  have c: "cur s = Some p" using run by (simp add: running_def)
  have t: "itable ?t = itable s" "sb ?t = sb s" "log ?t = log s" "cur ?t = cur s" "held ?t = held s" "ptable ?t = ptable s" by (simp_all add: set_slock_def)
  have a: "acquiresleep e ''inode'' ip s = Inr ?t" by (rule acquiresleep_free [OF run un e])
  have m: "mine ?t ''inode'' ip" using c by (simp add: mine_def set_slock_def)
  show ?thesis
  proof (cases "i_valid (itable s ip)")
    case True
    then show ?thesis using ref a m t i by (auto simp: ilock_def locked_inode_def) (simp add: set_slock_def)
  next
    case False
    have "fsi H ?t" "running ?t p" "card (pins ?t \<union> H) < NBUF" using i run sp by simp_all
    then obtain b s1 where 1: "bread e ROOTDEV ib ?t = Inr (b, s1)" "fsi (insert ib H) s1" "bsame ?t s1" "holds s1 b ib"
      "b_data (bcache s1 b) = blk ?t ib" "blk s1 = blk ?t" "pins s1 = pins ?t" "keep H ?t s1" "running s1 p"
      using bread_fsi [of H ?t p e ib] e ib(2) by auto
    have f1: "itable s1 = itable s" "sb s1 = sb s" "log s1 = log s" using bsame_fs [OF 1(3)] bsame_log [OF 1(3)] t by simp_all
    let ?i = "(loaded d (itable s ip))\<lparr>i_valid := False\<rparr>" and ?s2 = "put_inode ip ((loaded d (itable s ip))\<lparr>i_valid := False\<rparr>) s1"
    have "fsi (insert ib H) ?s2" "running ?s2 p" "holds ?s2 b ib" using 1 by simp_all
    then obtain s3 where 3: "brelse b ?s2 = Inr s3" "fsi (insert ib H - {ib}) s3" "bsame ?s2 s3" "blk s3 = blk ?s2" "pins s3 = pins ?s2" "running s3 p"
      using brelse_fsi by metis
    have H: "insert ib H - {ib} = H" using ib(2) by auto
    have f3: "itable s3 = (itable s)(ip := ?i)" "sb s3 = sb s" "log s3 = log s" using bsame_fs [OF 3(3)] bsame_log [OF 3(3)] f1 by simp_all
    let ?s4 = "put_inode ip (loaded d (itable s ip)) s3"
    have u2: "upd_inode ip (\<lambda>i. i\<lparr>i_type := d_type d, i_major := d_major d, i_minor := d_minor d, i_nlink := d_nlink d,
        i_size := d_size d, i_addrs := d_addrs d\<rparr>) s1 = ?s2" using False f1 by (cases "itable s ip") (simp add: upd_put loaded_def)
    have u4: "upd_inode ip (\<lambda>i. i\<lparr>i_valid := True\<rparr>) s3 = ?s4" by (simp add: upd_put loaded_def f3)
    have r: "ilock e (Some ip) s = Inr ?s4" using False ref a 1(1,5) 3(1) f1 t dev ib(1) d u2 u4 ty by (simp add: ilock_def Let_def loaded_def)
    have bt: "bsame ?t s1" "bsame ?s2 s3" by fact+
    note bf = bsame_fields [OF bt(1)] bsame_fields [OF bt(2)]
    have "slock s3 ''inode'' = slock ?t ''inode''" using bf(8,16) by simp
    moreover have "mine ?s4 ''inode'' ip" using m bf calculation t by (simp add: mine_def)
    moreover have "psame (ptable s j) (ptable ?s4 j)" for j using bf(6) [of j] bf(14) [of j] t psame_trans by simp
    moreover have "cur ?s4 = cur s" "held ?s4 = held s" using bf t by simp_all
    ultimately have "locked_inode H ip (loaded d (itable s ip)) s ?s4"
      using 3 H f3 1(6,7) by (auto simp: locked_inode_def) (simp_all add: set_slock_def)
    then show ?thesis using r False by auto
  qed
qed

section \<open>Blocks in use\<close>

text \<open>
  The layout of the disk: \<open>ino_blk\<close> are the blocks with inodes; \<open>fs_wf\<close> says that inode blocks lie
  outside log and bitmap and that none of them, nor block 0, is free. \<open>in_use s n\<close>: block \<open>n\<close> is a data
  block that the bitmap has as allocated.
\<close>

definition ino_blk :: "'z kfs_scheme \<Rightarrow> u32 \<Rightarrow> bool" where
  "ino_blk s n \<longleftrightarrow> (\<exists>i < sb_ninodes (sb s). n = IBLOCK i (sb s))"

definition fs_wf :: "'z kfs_scheme \<Rightarrow> bool" where
  "fs_wf s \<longleftrightarrow> alloc_wf {} s \<and> \<not> free_in s (blk s) 0 \<and> (\<forall>k. free_in s (blk s) k \<longrightarrow> \<not> ino_blk s (of_nat k)) \<and>
     (\<forall>n. ino_blk s n \<longrightarrow> n \<notin> log_area (log s) \<and> (\<forall>j < unat (sb_size (sb s)). n \<noteq> bb s j))"

definition in_use :: "'z kfs_scheme \<Rightarrow> u32 \<Rightarrow> bool" where
  "in_use s n \<longleftrightarrow> n \<notin> log_area (log s) \<and> (\<forall>j < unat (sb_size (sb s)). n \<noteq> bb s j) \<and> \<not> ino_blk s n \<and> \<not> free_in s (blk s) (unat n)"

abbreviation nfree :: "'z kfs_scheme \<Rightarrow> nat" where
  "nfree s \<equiv> card {k. free_in s (blk s) k}"

lemma finite_free: "finite {k. free_in s B k}"
  by (rule finite_subset [of _ "{..<unat (sb_size (sb s))}"]) (auto simp: free_in_def)

lemma wf_cong:
  assumes "sb t = sb s" "log_area (log t) = log_area (log s)" "\<And>j. j < unat (sb_size (sb s)) \<Longrightarrow> blk t (bb s j) = blk s (bb s j)"
  shows "bb t j = bb s j" "free_in t (blk t) k = free_in s (blk s) k" "ino_blk t n = ino_blk s n" "fs_wf t = fs_wf s" "in_use t n = in_use s n"
    "alloc_wf H t = alloc_wf H s" "nfree t = nfree s"
proof -
  show b: "bb t j = bb s j" for j by (simp add: bb_def assms)
  show f: "free_in t (blk t) k = free_in s (blk s) k" for k using assms b by (auto simp: free_in_def)
  show n: "ino_blk t n = ino_blk s n" for n by (simp add: ino_blk_def assms)
  show a: "alloc_wf H t = alloc_wf H s" for H by (simp add: alloc_wf_def assms b f)
  show "fs_wf t = fs_wf s" "in_use t n = in_use s n" "nfree t = nfree s" by (simp_all add: fs_wf_def in_use_def a f n b assms)
qed

lemma put_inode_wf [simp]: "fs_wf (put_inode ip i s) = fs_wf s" "in_use (put_inode ip i s) n = in_use s n" "ino_blk (put_inode ip i s) n = ino_blk s n"
  by (rule wf_cong; simp)+

text \<open>Taking a block.\<close>

lemma took_wf:
  assumes i: "fsi H s" and wf: "fs_wf s" and aw: "alloc_wf H s" and f: "free_in s (blk s) k" and t: "took H s k s'"
  shows "fs_wf s'" "in_use s' (of_nat k)" "of_nat k \<noteq> (0 :: u32)" "blk s' (of_nat k) = replicate BSIZE 0" "unat (of_nat k :: u32) = k"
    "in_use s n \<Longrightarrow> in_use s' n \<and> n \<noteq> of_nat k \<and> blk s' n = blk s n" "ino_blk s n \<Longrightarrow> blk s' n = blk s n"
    "nfree s' = nfree s - 1" "sb s' = sb s" "ino_blk s' n = ino_blk s n"
proof -
  note d = fs_stepD [OF t [unfolded took_def]]
  note l = lsame_fs [OF d(2)]
  note fr = took_free [OF aw f t fsiD(1) [OF i]]
  have b: "bb s' j = bb s j" "ino_blk s' n = ino_blk s n" for j n by (simp_all add: bb_def ino_blk_def l)
  have ks: "k < unat (sb_size (sb s))" using f by (simp add: free_in_def)
  show u: "unat (of_nat k :: u32) = k" using wf ks by (intro unat_of_nat32) (simp add: fs_wf_def alloc_wf_def)
  have kd: "of_nat k \<notin> log_area (log s)" "\<And>j. j < unat (sb_size (sb s)) \<Longrightarrow> of_nat k \<noteq> bb s j" "\<not> ino_blk s (of_nat k)"
    using wf f ks by (auto simp: fs_wf_def alloc_wf_def)
  have "alloc_wf {} s'" using wf fr by (simp add: fs_wf_def alloc_wf_def l b)
  then show "fs_wf s'" using wf fr by (simp add: fs_wf_def l b)
  show "in_use s' (of_nat k)" using kd fr by (auto simp: in_use_def l b u)
  show "of_nat k \<noteq> (0 :: u32)" using wf f u by (metis fs_wf_def unat_0)
  show "blk s' (of_nat k) = replicate BSIZE 0" by (simp add: d(3))
  show "in_use s' n \<and> n \<noteq> of_nat k \<and> blk s' n = blk s n" if "in_use s n"
    using that f u ks fr d(3) by (auto simp: in_use_def l b)
  show "blk s' n = blk s n" if "ino_blk s n" using that wf kd ks d(3) by (auto simp: fs_wf_def)
  have "{j. free_in s' (blk s') j} = {j. free_in s (blk s) j} - {k}" using fr by auto
  then show "nfree s' = nfree s - 1" using f finite_free by simp
  show "sb s' = sb s" "ino_blk s' n = ino_blk s n" by (simp_all add: l b)
qed

lemma alloc_wf_hold: "fs_wf s \<Longrightarrow> (\<And>n. n \<in> H \<Longrightarrow> in_use s n) \<Longrightarrow> alloc_wf H s"
proof -
  assume wf: "fs_wf s" and H: "\<And>n. n \<in> H \<Longrightarrow> in_use s n"
  have "unat (of_nat k :: u32) = k" if "free_in s (blk s) k" for k
    using that wf by (intro unat_of_nat32) (auto simp: fs_wf_def alloc_wf_def free_in_def)
  then have "of_nat k \<notin> H" if "free_in s (blk s) k" for k using that H by (fastforce simp: in_use_def)
  moreover have "bb s k \<notin> H" if "k < unat (sb_size (sb s))" for k using that H by (fastforce simp: in_use_def)
  ultimately show ?thesis using wf by (simp add: fs_wf_def alloc_wf_def)
qed

lemma balloc_takes:
  assumes i: "fsi H s" and run: "running s p" and e: "0 < fst e" and wf: "fs_wf s" and H: "\<And>n. n \<in> H \<Longrightarrow> in_use s n"
    and sp: "rooms H s 2" and nf: "0 < nfree s"
  obtains k s' where "balloc e ROOTDEV s = Inr (of_nat k, s')" "took H s k s'" "free_in s (blk s) k" "running s' p"
proof -
  have "{k. free_in s (blk s) k} \<noteq> {}" using nf by (metis card.empty less_irrefl)
  then have ex: "\<exists>k. free_in s (blk s) k" by auto
  define k where "k = (LEAST k. free_in s (blk s) k)"
  have k: "free_in s (blk s) k" "\<forall>j < k. \<not> free_in s (blk s) j" using LeastI_ex [OF ex] not_less_Least by (auto simp: k_def)
  show thesis using balloc_ok(2) [OF i run e alloc_wf_hold [OF wf H] sp k] that k(1) by blast
qed

end
