(* ===== verification/Fsfile.thy ===== *)
theory Fsfile
  imports Fsinode
begin

text \<open>
  The content of a file: \<open>fblock\<close> is the mapping from the blocks of the file to blocks of the disk
  through the direct and indirect addresses, \<open>fmap\<close> the resulting map of block contents.
\<close>

section \<open>The blocks of a file\<close>

definition fblock :: "inode \<Rightarrow> (u32 \<Rightarrow> u8 list) \<Rightarrow> nat \<Rightarrow> u32" where
  "fblock i B bn = (if bn < NDIRECT then i_addrs i ! bn else if i_addrs i ! NDIRECT = 0 then 0
     else get32 (B (i_addrs i ! NDIRECT)) (4 * (bn - NDIRECT)))"

definition fmap :: "inode \<Rightarrow> (u32 \<Rightarrow> u8 list) \<Rightarrow> nat \<Rightarrow> u8 list option" where
  "fmap i B bn = (if fblock i B bn = 0 then None else Some (B (fblock i B bn)))"

text \<open>The blocks \<open>f\<close> of a file and its indirect block are allocated, and no block has two roles.\<close>

definition blocks_wf :: "'z kfs_scheme \<Rightarrow> (nat \<Rightarrow> u32) \<Rightarrow> u32 \<Rightarrow> bool" where
  "blocks_wf s f ind \<longleftrightarrow> (ind \<noteq> 0 \<longrightarrow> in_use s ind) \<and>
     (\<forall>bn < MAXFILE. f bn \<noteq> 0 \<longrightarrow> in_use s (f bn) \<and> f bn \<noteq> ind \<and> (\<forall>bm < MAXFILE. bm \<noteq> bn \<longrightarrow> f bm \<noteq> f bn))"

definition file_wf :: "'z kfs_scheme \<Rightarrow> inode \<Rightarrow> bool" where
  "file_wf s i \<longleftrightarrow> length (i_addrs i) = 13 \<and> blocks_wf s (fblock i (blk s)) (i_addrs i ! NDIRECT)"

lemma blocks_wfD:
  assumes "blocks_wf s f ind" "bn < MAXFILE" "f bn \<noteq> 0"
  shows "in_use s (f bn)" "f bn \<noteq> ind" "bm < MAXFILE \<Longrightarrow> bm \<noteq> bn \<Longrightarrow> f bm \<noteq> f bn"
  using assms by (auto simp: blocks_wf_def)

lemma blocks_wf_add:
  assumes "blocks_wf s f ind" "in_use s a" "a \<noteq> 0" "a \<noteq> ind" "\<And>bm. bm < MAXFILE \<Longrightarrow> f bm \<noteq> a"
    and "\<And>m. m < MAXFILE \<Longrightarrow> g m = (if m = bn then a else f m)"
  shows "blocks_wf s g ind"
  using assms unfolding blocks_wf_def by (metis (no_types, lifting))

lemma blocks_wf_ind:
  assumes "blocks_wf s f 0" "in_use s a" "\<And>bm. bm < MAXFILE \<Longrightarrow> f bm \<noteq> a" "\<And>m. m < MAXFILE \<Longrightarrow> g m = f m"
  shows "blocks_wf s g a"
  using assms by (simp add: blocks_wf_def)

lemma blocks_wf_mono:
  assumes "blocks_wf s f ind" "\<And>n. in_use s n \<Longrightarrow> in_use t n" "\<And>m. m < MAXFILE \<Longrightarrow> g m = f m"
  shows "blocks_wf t g ind"
  using assms by (simp add: blocks_wf_def)

lemma fblock_cong: "(i_addrs i ! NDIRECT \<noteq> 0 \<Longrightarrow> B' (i_addrs i ! NDIRECT) = B (i_addrs i ! NDIRECT)) \<Longrightarrow> fblock i B' bn = fblock i B bn"
  by (simp add: fblock_def)

lemma fmap_eq: "fblock i' B' m = fblock i B m \<Longrightarrow> (fblock i B m \<noteq> 0 \<Longrightarrow> B' (fblock i B m) = B (fblock i B m)) \<Longrightarrow> fmap i' B' m = fmap i B m"
  by (simp add: fmap_def)

text \<open>A block taken from the free ones does not disturb a file.\<close>

lemma took_file:
  assumes i: "fsi H s" and wf: "fs_wf s" and H: "alloc_wf H s" and f: "free_in s (blk s) k" and t: "took H s k s'" and fw: "file_wf s i"
  shows "file_wf s' i" "m < MAXFILE \<Longrightarrow> fmap i (blk s') m = fmap i (blk s) m" "fblock i (blk s') bn = fblock i (blk s) bn"
    "bm < MAXFILE \<Longrightarrow> fblock i (blk s) bm \<noteq> of_nat k" "i_addrs i ! NDIRECT \<noteq> of_nat k"
proof -
  note w = took_wf [OF i wf H f t]
  have b: "blocks_wf s (fblock i (blk s)) (i_addrs i ! NDIRECT)" using fw by (simp add: file_wf_def)
  show e: "fblock i (blk s') bn = fblock i (blk s) bn" for bn
    by (rule fblock_cong) (use b w(6) in \<open>auto simp: blocks_wf_def\<close>)
  show "file_wf s' i" using fw blocks_wf_mono [OF b, of s'] w(6) e by (simp add: file_wf_def)
  show ne: "fblock i (blk s) bm \<noteq> of_nat k" if "bm < MAXFILE" for bm using blocks_wfD(1) [OF b that] w(3,6) by metis
  show "i_addrs i ! NDIRECT \<noteq> of_nat k" using b w(3,6) by (auto simp: blocks_wf_def)
  show "fmap i (blk s') m = fmap i (blk s) m" if "m < MAXFILE"
    by (rule fmap_eq [OF e]) (use blocks_wfD(1) [OF b that] w(6) in blast)
qed

text \<open>Writes to an inode table entry: the address of block \<open>bn\<close>, directly or as the indirect block.\<close>

definition set_addr :: "nat \<Rightarrow> u32 \<Rightarrow> inode \<Rightarrow> inode" where
  "set_addr n a i = i\<lparr>i_addrs := (i_addrs i)[n := a]\<rparr>"

lemma set_addr_sel [simp]: "i_dev (set_addr n a i) = i_dev i" "i_inum (set_addr n a i) = i_inum i" "i_size (set_addr n a i) = i_size i"
  "i_ref (set_addr n a i) = i_ref i" "i_valid (set_addr n a i) = i_valid i" "i_type (set_addr n a i) = i_type i" "i_nlink (set_addr n a i) = i_nlink i"
  "i_addrs (set_addr n a i) = (i_addrs i)[n := a]" "i_major (set_addr n a i) = i_major i" "i_minor (set_addr n a i) = i_minor i"
  by (simp_all add: set_addr_def)

lemma fblock_direct:
  assumes "length (i_addrs i) = 13" "n < NDIRECT"
  shows "fblock (set_addr n a i) B m = (if m = n then a else fblock i B m)"
  using assms by (auto simp: fblock_def NDIRECT_def)

lemma get32_zero: "at + 4 \<le> BSIZE \<Longrightarrow> get32 (replicate BSIZE 0) at = 0"
  by (simp add: get32_def get_bytes_def un32_def)

lemma fblock_indirect_new:
  assumes "length (i_addrs i) = 13" "i_addrs i ! NDIRECT = 0" "B a = replicate BSIZE 0" "m < MAXFILE"
  shows "fblock (set_addr NDIRECT a i) B m = fblock i B m"
proof -
  have "4 * (m - NDIRECT) + 4 \<le> BSIZE" if "NDIRECT \<le> m" using assms(4) that by (simp add: MAXFILE_def NINDIRECT_def NDIRECT_def BSIZE_def)
  then show ?thesis using assms by (auto simp: fblock_def NDIRECT_def get32_zero)
qed

lemma fblock_indirect:
  assumes "length (B ind) = BSIZE" "i_addrs i ! NDIRECT = ind" "ind \<noteq> 0" "j < NINDIRECT" "m < MAXFILE"
  shows "fblock i (B(ind := put32 (4 * j) a (B ind))) m = (if m = NDIRECT + j then a else fblock i B m)"
proof -
  have "4 * (m - NDIRECT) + 4 \<le> BSIZE" "4 * j + 4 \<le> BSIZE" "m \<noteq> NDIRECT + j \<Longrightarrow> 4 * (m - NDIRECT) + 4 \<le> 4 * j \<or> 4 * j + 4 \<le> 4 * (m - NDIRECT)"
    if "NDIRECT \<le> m" using assms(4,5) that by (auto simp: MAXFILE_def NINDIRECT_def NDIRECT_def BSIZE_def)
  then show ?thesis using assms by (auto simp: fblock_def get32_put32_other)
qed

section \<open>Changes to one file\<close>

definition own :: "inode \<Rightarrow> (u32 \<Rightarrow> u8 list) \<Rightarrow> u32 set" where
  "own i B = insert (i_addrs i ! NDIRECT) (fblock i B ` {..<MAXFILE})"

text \<open>The state in which the content of file \<open>ip\<close> is read or written.\<close>

definition file_st :: "nat \<Rightarrow> nat \<Rightarrow> 'z kfs_scheme \<Rightarrow> bool" where
  "file_st p ip s \<longleftrightarrow> fsi {} s \<and> running s p \<and> fs_wf s \<and> file_wf s (itable s ip) \<and> i_dev (itable s ip) = ROOTDEV"

text \<open>
  \<open>fchg ip k j s s'\<close>: file \<open>ip\<close> may have got new blocks or new content. At most \<open>k\<close> blocks have joined the
  transaction and \<open>j\<close> blocks have been allocated; no inode block and no block of another file has changed.
\<close>

definition fchg :: "nat \<Rightarrow> nat \<Rightarrow> nat \<Rightarrow> 'z kfs_scheme \<Rightarrow> 'z kfs_scheme \<Rightarrow> bool" where
  "fchg ip k j s s' \<longleftrightarrow> fi_step {} ip (itable s' ip) s (blk s') (pins s') s' \<and> fs_wf s' \<and> file_wf s' (itable s' ip) \<and>
     (\<exists>ad. itable s' ip = (itable s ip)\<lparr>i_addrs := ad\<rparr>) \<and> card (pins s') \<le> card (pins s) + k \<and> nfree s \<le> nfree s' + j \<and>
     (\<forall>n. ino_blk s n \<longrightarrow> blk s' n = blk s n) \<and>
     (\<forall>n. in_use s n \<longrightarrow> in_use s' n \<and> (n \<notin> own (itable s ip) (blk s) \<longrightarrow> blk s' n = blk s n \<and> n \<notin> own (itable s' ip) (blk s')))"

lemma fchgI:
  assumes "fi_step {} ip (itable s' ip) s (blk s') (pins s') s'" "fs_wf s'" "file_wf s' (itable s' ip)" "itable s' ip = (itable s ip)\<lparr>i_addrs := ad\<rparr>"
    and "card (pins s') \<le> card (pins s) + k" "nfree s \<le> nfree s' + j" "\<And>n. ino_blk s n \<Longrightarrow> blk s' n = blk s n" "\<And>n. in_use s n \<Longrightarrow> in_use s' n"
    and "\<And>n. in_use s n \<Longrightarrow> n \<notin> own (itable s ip) (blk s) \<Longrightarrow> blk s' n = blk s n"
    and "\<And>n. in_use s n \<Longrightarrow> n \<notin> own (itable s ip) (blk s) \<Longrightarrow> n \<notin> own (itable s' ip) (blk s')"
  shows "fchg ip k j s s'"
  using assms unfolding fchg_def by blast

lemma fchg_st:
  assumes "fchg ip k j s s'" "file_st p ip s"
  shows "file_st p ip s'" "i_size (itable s' ip) = i_size (itable s ip)" "i_dev (itable s' ip) = i_dev (itable s ip)" "i_inum (itable s' ip) = i_inum (itable s ip)"
    "sb s' = sb s" "log_area (log s') = log_area (log s)" "card (pins s') \<le> card (pins s) + k" "nfree s \<le> nfree s' + j" "ino_blk s' n = ino_blk s n"
    "i_type (itable s' ip) = i_type (itable s ip)" "jp \<noteq> ip \<Longrightarrow> itable s' jp = itable s jp"
proof -
  have f: "fi_step {} ip (itable s' ip) s (blk s') (pins s') s'" and a: "\<exists>ad. itable s' ip = (itable s ip)\<lparr>i_addrs := ad\<rparr>"
    using assms(1) by (auto simp: fchg_def)
  note d = fi_stepD [OF f]
  show sz: "i_size (itable s' ip) = i_size (itable s ip)" "i_dev (itable s' ip) = i_dev (itable s ip)" "i_inum (itable s' ip) = i_inum (itable s ip)"
    "i_type (itable s' ip) = i_type (itable s ip)" using a by auto
  show "file_st p ip s'" using assms d sz by (simp add: file_st_def fchg_def)
  show "sb s' = sb s" "log_area (log s') = log_area (log s)" by (rule d(7,8))+
  then show "ino_blk s' n = ino_blk s n" by (simp add: ino_blk_def)
  show "jp \<noteq> ip \<Longrightarrow> itable s' jp = itable s jp" by (subst d(6)) simp
qed (use assms(1) [unfolded fchg_def] in blast)+

lemma fchg_trans:
  assumes "fchg ip k j s t" "fchg ip k' j' t u"
  shows "fchg ip (k + k') (j + j') s u"
proof -
  have f: "fi_step {} ip (itable t ip) s (blk t) (pins t) t" and g: "fi_step {} ip (itable u ip) t (blk u) (pins u) u"
    using assms unfolding fchg_def by blast+
  note st = fi_step_trans [OF f g]
  have n: "ino_blk t n = ino_blk s n" for n using fi_stepD(7) [OF f] by (simp add: ino_blk_def)
  have ad: "\<exists>ad. itable u ip = (itable s ip)\<lparr>i_addrs := ad\<rparr>" using assms by (auto simp: fchg_def)
  have w: "fs_wf u" "file_wf u (itable u ip)" using assms(2) by (simp_all add: fchg_def)
  have "card (pins t) \<le> card (pins s) + k" "nfree s \<le> nfree t + j" "card (pins u) \<le> card (pins t) + k'" "nfree t \<le> nfree u + j'"
    using assms by (simp_all add: fchg_def)
  then have c: "card (pins u) \<le> card (pins s) + (k + k')" "nfree s \<le> nfree u + (j + j')" by linarith+
  have i: "blk u n = blk s n" if "ino_blk s n" for n
  proof -
    have "blk t n = blk s n" using assms(1) that unfolding fchg_def by blast
    moreover have "blk u n = blk t n" using assms(2) that n unfolding fchg_def by blast
    ultimately show ?thesis by simp
  qed
  have o: "in_use u n \<and> (n \<notin> own (itable s ip) (blk s) \<longrightarrow> blk u n = blk s n \<and> n \<notin> own (itable u ip) (blk u))" if "in_use s n" for n
  proof -
    have 1: "in_use t n \<and> (n \<notin> own (itable s ip) (blk s) \<longrightarrow> blk t n = blk s n \<and> n \<notin> own (itable t ip) (blk t))"
      using assms(1) that unfolding fchg_def by blast
    then have "in_use u n \<and> (n \<notin> own (itable t ip) (blk t) \<longrightarrow> blk u n = blk t n \<and> n \<notin> own (itable u ip) (blk u))"
      using assms(2) unfolding fchg_def by blast
    then show ?thesis using 1 by auto
  qed
  show ?thesis unfolding fchg_def using st w ad c i o by blast
qed

lemma fs_step_fchg:
  assumes st: "file_st p ip s" and f: "fs_step {} s (blk s) (pins s) s'"
  shows "fchg ip 0 0 s s'"
proof -
  note d = fs_stepD [OF f]
  note l = lsame_fs [OF d(2)]
  note w = wf_cong [of s' s, OF l(1,6)]
  have fi: "fi_step {} ip (itable s' ip) s (blk s') (pins s') s'" using fi_step_id [OF f, of "itable s' ip" ip] l(2) d(3,4) by simp
  have ad: "\<exists>ad. itable s' ip = (itable s ip)\<lparr>i_addrs := ad\<rparr>" using l(2) by (intro exI [of _ "i_addrs (itable s ip)"]) simp
  have nf: "nfree s \<le> nfree s' + 0" using w(7) d(3) by simp
  have "file_wf s' (itable s' ip)" "fs_wf s'" using st w(4,5) l(2) d(3) by (simp_all add: file_st_def file_wf_def blocks_wf_def)
  then show ?thesis unfolding fchg_def using fi ad nf w(3,5) l(2) d(3,4) by simp
qed

lemma fchg_refl: "file_st p ip s \<Longrightarrow> fchg ip 0 0 s s"
  by (rule fs_step_fchg [OF _ fs_step_refl]) (auto simp: file_st_def)

lemma fchg_mono: "fchg ip k j s s' \<Longrightarrow> k \<le> k' \<Longrightarrow> j \<le> j' \<Longrightarrow> fchg ip k' j' s s'"
  by (auto simp: fchg_def)

section \<open>\<^verbatim>\<open>bmap\<close>\<close>

lemma file_stD:
  assumes "file_st p ip s"
  shows "fsi {} s" "running s p" "fs_wf s" "file_wf s (itable s ip)" "i_dev (itable s ip) = ROOTDEV" "length (i_addrs (itable s ip)) = 13"
    "blocks_wf s (fblock (itable s ip) (blk s)) (i_addrs (itable s ip) ! NDIRECT)"
  using assms by (auto simp: file_st_def file_wf_def)

lemma rooms_pins: "rooms H s k \<Longrightarrow> card (pins t \<union> H) + j \<le> card (pins s \<union> H) + k \<Longrightarrow> card (pins t) + j \<le> card (pins s) + k \<Longrightarrow> rooms H t j"
  by (simp add: rooms_def)

lemma took_pins: "took H s k s' \<Longrightarrow> card (pins s') \<le> card (pins s) + 2"
  using card_insert_Suc [of "of_nat k" "insert (bb s k) (pins s)"] card_insert_Suc [of "bb s k" "pins s"]
  by (auto simp: took_def fs_step_def)

text \<open>A new address for file \<open>ip\<close> after block \<open>a\<close> has been taken: the part of the argument that is the same for all of them.\<close>

lemma took_fchg:
  assumes st: "file_st p ip s" and f: "free_in s (blk s) k" and t: "took {} s k s1" and n: "n < 13" "i_addrs (itable s ip) ! n = 0"
    and s': "s' = put_inode ip (set_addr n (of_nat k) (itable s ip)) s1"
  shows "fchg ip 2 1 s s'" "m < MAXFILE \<Longrightarrow> fmap (itable s' ip) (blk s') m =
    (if m = n \<and> n < NDIRECT then Some (replicate BSIZE 0) else fmap (itable s ip) (blk s) m)"
proof -
  note d = file_stD [OF st]
  have aw: "alloc_wf {} s" using d(3) by (simp add: fs_wf_def)
  note w = took_wf [OF d(1,3) aw f t] and tf = took_file [OF d(1,3) aw f t d(4)]
  let ?i = "itable s ip" and ?a = "of_nat k :: u32" and ?i' = "set_addr n (of_nat k) (itable s ip)"
  note dt = fs_stepD [OF t [unfolded took_def]]
  have it: "itable s1 = itable s" using lsame_fs(2) [OF dt(2)] .
  have i': "itable s' ip = ?i'" "blk s' = blk s1" "pins s' = pins s1" using s' by simp_all
  have b1: "blocks_wf s1 (fblock ?i (blk s1)) (i_addrs ?i ! NDIRECT)" using tf(1) by (simp add: file_wf_def)
  have nd: "n < NDIRECT \<or> n = NDIRECT" using n(1) by (auto simp: NDIRECT_def)
  have nin: "fblock ?i (blk s1) bm \<noteq> ?a" if "bm < MAXFILE" for bm using tf(3,4) that by simp
  have fb: "fblock ?i' (blk s1) m = (if m = n \<and> n < NDIRECT then ?a else fblock ?i (blk s1) m)" if "m < MAXFILE" for m
    using nd
  proof
    assume "n < NDIRECT" then show ?thesis using fblock_direct [OF d(6)] by simp
  next
    assume "n = NDIRECT" then show ?thesis using fblock_indirect_new [where B = "blk s1" and a = ?a, OF d(6) _ _ that] n(2) w(4) by simp
  qed
  have fw: "file_wf s1 ?i'"
    using nd
  proof
    assume nn: "n < NDIRECT"
    have "blocks_wf s1 (fblock ?i' (blk s1)) (i_addrs ?i ! NDIRECT)"
      by (rule blocks_wf_add [OF b1 w(2,3) _ nin, where bn = n]) (use tf(5) fb nn in auto)
    then show ?thesis using d(6) nn by (simp add: file_wf_def)
  next
    assume nn: "n = NDIRECT"
    have "blocks_wf s1 (fblock ?i' (blk s1)) ?a"
      by (rule blocks_wf_ind [OF _ w(2) nin]) (use b1 n(2) nn fb in auto)
    then show ?thesis using d(6) nn n(1) by (simp add: file_wf_def)
  qed
  have fm: "fmap ?i' (blk s1) m = (if m = n \<and> n < NDIRECT then Some (replicate BSIZE 0) else fmap ?i (blk s) m)" if "m < MAXFILE" for m
  proof (cases "m = n \<and> n < NDIRECT")
    case True
    then show ?thesis using fb [OF that] w(3,4) by (simp add: fmap_def)
  next
    case False
    then have "fmap ?i' (blk s1) m = fmap ?i (blk s1) m" using fb [OF that] by (auto intro: fmap_eq)
    then show ?thesis using False tf(2) [OF that] by auto
  qed
  show "m < MAXFILE \<Longrightarrow> fmap (itable s' ip) (blk s') m =
    (if m = n \<and> n < NDIRECT then Some (replicate BSIZE 0) else fmap (itable s ip) (blk s) m)" using fm i' by simp
  have fs1: "fs_step {} s (blk s1) (pins s1) s1" using t dt(3,4) by (simp add: took_def)
  have fi: "fi_step {} ip (itable s' ip) s (blk s') (pins s') s'" using fi_step_upd [OF fi_step_id [OF fs1 refl], of ip ?i'] s' i' by simp
  have ow: "own ?i' (blk s1) \<subseteq> insert ?a (insert 0 (own ?i (blk s)))"
    using nd fb tf(3) d(6) by (auto simp: own_def NDIRECT_def nth_list_update)
  have u0: "x \<notin> own ?i' (blk s1)" if "in_use s x" "x \<notin> own ?i (blk s)" for x
  proof (cases "n = NDIRECT")
    case True
    then show ?thesis using that w(6) [OF that(1)] ow fb tf(3) d(6) by (auto simp: own_def NDIRECT_def)
  next
    case False
    then show ?thesis using that w(6) [OF that(1)] fb tf(3) d(6) n by (auto simp: own_def NDIRECT_def nth_list_update)
  qed
  show "fchg ip 2 1 s s'" unfolding fchg_def i'
  proof (intro conjI allI impI)
    show "fi_step {} ip ?i' s (blk s1) (pins s1) s'" using fi i' by simp
    show "fs_wf s'" using w(1) s' by simp
    show "file_wf s' ?i'" using fw s' by (simp add: file_wf_def blocks_wf_def)
    show "\<exists>ad. ?i' = ?i\<lparr>i_addrs := ad\<rparr>" by (auto simp: set_addr_def)
    show "card (pins s1) \<le> card (pins s) + 2" using took_pins [OF t] .
    show "nfree s \<le> card {k. free_in s' (blk s1) k} + 1" using w(8) s' by simp
    show "blk s1 x = blk s x" if "ino_blk s x" for x using w(7) [OF that] .
    show "in_use s' x" if "in_use s x" for x using w(6) [OF that] s' by simp
    show "blk s1 x = blk s x" "x \<notin> own ?i' (blk s1)" if "in_use s x" "x \<notin> own ?i (blk s)" for x using w(6) [OF that(1)] u0 [OF that] by auto
  qed
qed

lemma bmap_direct_ok:
  assumes st: "file_st p ip s" and e: "0 < fst e" and n: "n < 13" and sp: "rooms {} s 2" and nf: "i_addrs (itable s ip) ! n \<noteq> 0 \<or> 0 < nfree s"
  obtains a s' where "bmap_direct e ip n s = Inr (a, s')" "fchg ip 2 1 s s'" "a \<noteq> 0" "i_addrs (itable s' ip) ! n = a"
    "\<forall>m < MAXFILE. fmap (itable s' ip) (blk s') m =
      (if m = n \<and> n < NDIRECT \<and> i_addrs (itable s ip) ! n = 0 then Some (replicate BSIZE 0) else fmap (itable s ip) (blk s) m)"
proof (cases "i_addrs (itable s ip) ! n = 0")
  case False
  then show thesis using that [of "i_addrs (itable s ip) ! n" s] fchg_mono [OF fchg_refl [OF st], of 2 1] by (simp add: bmap_direct_def Let_def)
next
  case True
  note d = file_stD [OF st]
  obtain k s1 where k: "balloc e ROOTDEV s = Inr (of_nat k, s1)" "took {} s k s1" "free_in s (blk s) k"
    by (rule balloc_takes [OF d(1,2) e d(3) _ sp]) (use nf True in blast)+
  have aw: "alloc_wf {} s" using d(3) by (simp add: fs_wf_def)
  have a: "of_nat k \<noteq> (0 :: u32)" using took_wf(3) [OF d(1,3) aw k(3,2)] .
  have it: "itable s1 = itable s" using lsame_fs(2) [OF fs_stepD(2) [OF k(2) [unfolded took_def]]] .
  let ?s' = "put_inode ip (set_addr n (of_nat k) (itable s ip)) s1"
  note c = took_fchg [OF st k(3,2) n True refl]
  have "bmap_direct e ip n s = Inr (of_nat k, ?s')" using k(1) a True d(5) it by (simp add: bmap_direct_def Let_def upd_put set_addr_def)
  moreover have "i_addrs (itable ?s' ip) ! n = of_nat k" using n d(6) by simp
  ultimately show thesis using that [OF _ c(1) a] c(2) True by simp
qed

lemma bmap_indirect_old:
  assumes st: "file_st p ip s" and e: "0 < fst e" and ind: "i_addrs (itable s ip) ! NDIRECT = ind" "ind \<noteq> 0"
    and sp: "card (pins s) < NBUF" and a: "get32 (blk s ind) (4 * j) = a" "a \<noteq> 0"
  shows "\<exists>s'. bmap_indirect e ip j ind s = Inr (a, s') \<and> fchg ip 0 0 s s' \<and> blk s' = blk s \<and> itable s' = itable s"
proof -
  note d = file_stD [OF st]
  obtain b s1 s2 where 1: "bread e ROOTDEV ind s = Inr (b, s1)" "b_data (bcache s1 b) = blk s ind" "brelse b s1 = Inr s2"
    "fs_step {} s (blk s) (pins s) s2" by (rule read_block [OF d(1,2) e, of ind]) (use sp in \<open>simp, simp, blast\<close>)
  then have "bmap_indirect e ip j ind s = Inr (a, s2)" using a d(5) by (simp add: bmap_indirect_def Let_def)
  then show ?thesis using fs_step_fchg [OF st 1(4)] fs_stepD(3) [OF 1(4)] lsame_fs(2) [OF fs_stepD(2) [OF 1(4)]] by blast
qed

text \<open>The new entry in the indirect block.\<close>

lemma bmap_indirect_new:
  assumes st: "file_st p ip s" and e: "0 < fst e" and ind: "i_addrs (itable s ip) ! NDIRECT = ind" "ind \<noteq> 0" and j: "j < NINDIRECT"
    and sp: "rooms {} s 4" and a: "get32 (blk s ind) (4 * j) = 0" and nf: "0 < nfree s"
  obtains a s' where "bmap_indirect e ip j ind s = Inr (a, s')" "fs_step {} s (blk s') (pins s') s'" "card (pins s') \<le> card (pins s) + 3"
    "\<exists>k s1 s2. took {ind} s1 k s2 \<and> fsi {ind} s1 \<and> bsame s s1 \<and> blk s1 = blk s \<and> free_in s1 (blk s1) k \<and> a = of_nat k \<and> lsame s2 s' \<and>
       blk s' = (blk s2)(ind := put32 (4 * j) a (blk s ind))"
proof -
  note d = file_stD [OF st]
  have iu: "in_use s ind" using d(7) ind by (auto simp: blocks_wf_def)
  have spn: "card (pins s) < NBUF" using sp by (simp add: rooms_def)
  obtain b s1 where 1: "bread e ROOTDEV ind s = Inr (b, s1)" "fsi {ind} s1" "bsame s s1" "holds s1 b ind" "b_data (bcache s1 b) = blk s ind"
    "blk s1 = blk s" "pins s1 = pins s" "running s1 p" by (rule bread_fsi [OF d(1,2) e, of ind]) (use spn in \<open>simp, simp, blast\<close>)
  have l1: "sb s1 = sb s" "log_area (log s1) = log_area (log s)" "itable s1 = itable s" using lsame_fs [OF bsame_lsame [OF 1(3)]] by simp_all
  note w1 = wf_cong [of s1 s, OF l1(1,2)]
  have wf1: "fs_wf s1" "in_use s1 ind" "nfree s1 = nfree s" using d(3) iu w1 1(6) by simp_all
  have "card (pins s \<union> {ind}) \<le> card (pins s) + 1" using card_insert_Suc [of ind "pins s"] by simp
  then have r1: "rooms {ind} s1 3" using sp 1(7) by (simp add: rooms_def)
  obtain k s2 where k: "balloc e ROOTDEV s1 = Inr (of_nat k, s2)" "took {ind} s1 k s2" "free_in s1 (blk s1) k" "running s2 p"
    by (rule balloc_takes [OF 1(2,8) e wf1(1) _ rooms_mono [OF r1]]) (use wf1 nf in \<open>simp, simp, simp, blast\<close>)
  have aw: "alloc_wf {ind} s1" by (rule alloc_wf_hold [OF wf1(1)]) (use wf1 in simp)
  note tw = took_wf [OF 1(2) wf1(1) aw k(3,2)]
  note d2 = fs_stepD [OF k(2) [unfolded took_def]]
  have h2: "holds s2 b ind" using d2(5) 1(4) by (simp add: keep_def)
  have bi: "blk s2 ind = blk s ind" using tw(6) [OF wf1(2)] 1(6) by simp
  then have dt: "b_data (bcache s2 b) = blk s ind" using holds_view(1) [OF fsiD(1) [OF d2(1)] h2] by simp
  have len: "length (put32 (4 * j) (of_nat k) (blk s ind)) = BSIZE"
    using blk_length [OF fsiD(1) [OF d(1)]] j by (simp add: NINDIRECT_def BSIZE_def)
  have l2: "log_area (log s2) = log_area (log s)" "itable s2 = itable s" using lsame_fs [OF d2(2)] l1 by simp_all
  have p2: "card (pins s2) \<le> card (pins s) + 2" using took_pins [OF k(2)] 1(7) by simp
  have "ind \<notin> log_area (log s2)" "card (pins s2) < LOGSIZE - 1" using iu l2 p2 sp by (auto simp: in_use_def rooms_def)
  then obtain s3 where 3: "log_write b (set_data b (put32 (4 * j) (of_nat k) (blk s ind)) s2) = Inr s3" "fsi {ind} s3" "lsame s2 s3"
    "holds s3 b ind" "blk s3 = (blk s2)(ind := put32 (4 * j) (of_nat k) (blk s ind))" "pins s3 = insert ind (pins s2)" "running s3 p"
    using write_fsi [OF d2(1) k(4) h2 len] by blast
  obtain s4 where 4: "brelse b s3 = Inr s4" "fsi ({ind} - {ind}) s4" "bsame s3 s4" "blk s4 = blk s3" "pins s4 = pins s3"
    using brelse_fsi [OF 3(2,7,4)] by blast
  have ls: "lsame s2 s4" using lsame_trans [OF 3(3) bsame_lsame [OF 4(3)]] .
  have "lsame s s4" using lsame_trans [OF bsame_lsame [OF 1(3)] lsame_trans [OF d2(2) ls]] .
  then have f4: "fs_step {} s (blk s4) (pins s4) s4" using 4(2) by (simp add: fs_step_def keep_def)
  have dev: "i_dev (itable s1 ip) = ROOTDEV" using d(5) l1 by simp
  have r: "bmap_indirect e ip j ind s = Inr (of_nat k, s4)"
    using 1(1,5) a k(1) tw(3) dt 3(1) 4(1) d(5) dev by (simp add: bmap_indirect_def Let_def)
  have p4: "card (pins s4) \<le> card (pins s) + 3" using card_insert_Suc [of ind "pins s2"] p2 4(5) 3(6) by simp
  have b4: "blk s4 = (blk s2)(ind := put32 (4 * j) (of_nat k) (blk s ind))" using 3(5) 4(4) by simp
  show thesis by (rule that [OF r f4 p4]) (use k(2,3) 1(2,3,6) ls b4 in blast)
qed

lemma indirect_fchg:
  assumes st: "file_st p ip s" and ind: "i_addrs (itable s ip) ! NDIRECT = ind" "ind \<noteq> 0" and j: "j < NINDIRECT"
    and f: "fs_step {} s (blk s') (pins s') s'" "card (pins s') \<le> card (pins s) + 3"
    and t: "took {ind} s1 k s2" "fsi {ind} s1" "bsame s s1" "blk s1 = blk s" "free_in s1 (blk s1) k" "lsame s2 s'"
    and b: "blk s' = (blk s2)(ind := put32 (4 * j) (of_nat k) (blk s ind))"
  shows "fchg ip 3 1 s s'" "of_nat k \<noteq> (0 :: u32)" "fblock (itable s' ip) (blk s') (NDIRECT + j) = of_nat k"
    "m < MAXFILE \<Longrightarrow> fmap (itable s' ip) (blk s') m = (if m = NDIRECT + j then Some (replicate BSIZE 0) else fmap (itable s ip) (blk s) m)"
proof -
  let ?i = "itable s ip" and ?a = "of_nat k :: u32"
  note d = file_stD [OF st]
  have iu: "in_use s ind" using d(7) ind by (auto simp: blocks_wf_def)
  have l1: "sb s1 = sb s" "log_area (log s1) = log_area (log s)" "itable s1 = itable s" using lsame_fs [OF bsame_lsame [OF t(3)]] by simp_all
  note w1 = wf_cong [of s1 s, OF l1(1,2)]
  have wf1: "fs_wf s1" "in_use s1 n = in_use s n" "ino_blk s1 n = ino_blk s n" "nfree s1 = nfree s" for n using d(3) w1 t(4) by simp_all
  have aw: "alloc_wf {ind} s1" by (rule alloc_wf_hold [OF wf1(1)]) (use wf1 iu in simp)
  note tw = took_wf [OF t(2) wf1(1) aw t(5,1)]
  have "file_wf s1 ?i" using d(4) t(4) wf1(2) by (simp add: file_wf_def blocks_wf_def)
  note tf = took_file [OF t(2) wf1(1) aw t(5,1) this]
  have it: "itable s' = itable s" using lsame_fs(2) [OF fs_stepD(2) [OF f(1)]] .
  note l2 = lsame_fs [OF t(6)]
  have nb: "ind \<noteq> bb s2 i" if "i < unat (sb_size (sb s2))" for i using tw(6) [of ind] iu wf1(2) that by (auto simp: in_use_def)
  have "blk s' (bb s2 i) = blk s2 (bb s2 i)" if "i < unat (sb_size (sb s2))" for i using b nb [OF that] by auto
  note w2 = wf_cong(5,4,7) [OF l2(1,6) this]
  have bi: "blk s2 ind = blk s ind" using tw(6) [of ind] iu wf1(2) t(4) by simp
  have len: "length (blk s2 ind) = BSIZE" using bi blk_length [OF fsiD(1) [OF d(1)]] by simp
  have fb: "fblock ?i (blk s') m = (if m = NDIRECT + j then ?a else fblock ?i (blk s) m)" if "m < MAXFILE" for m
    using fblock_indirect [where B = "blk s2" and a = ?a, OF len ind(1,2) j that] b bi tf(3) t(4) by simp
  have nj: "NDIRECT + j < MAXFILE" using j by (simp add: MAXFILE_def)
  show a0: "?a \<noteq> 0" by (rule tw(3))
  show "fblock (itable s' ip) (blk s') (NDIRECT + j) = ?a" using fb [OF nj] it by simp
  have ai: "?a \<noteq> ind" using tf(5) ind by simp
  have old: "blk s' x = blk s x" if "in_use s x" "x \<noteq> ind" for x using tw(6) [of x] that wf1(2) b t(4) by simp
  have fm: "fmap ?i (blk s') m = (if m = NDIRECT + j then Some (replicate BSIZE 0) else fmap ?i (blk s) m)" if m: "m < MAXFILE" for m
  proof (cases "m = NDIRECT + j")
    case True
    then show ?thesis using fb [OF m] a0 ai b tw(4) by (simp add: fmap_def)
  next
    case False
    have "fmap ?i (blk s') m = fmap ?i (blk s) m"
      by (rule fmap_eq) (use fb [OF m] False old blocks_wfD(1,2) [OF d(7) m] ind in auto)
    then show ?thesis using False by simp
  qed
  then show "m < MAXFILE \<Longrightarrow> fmap (itable s' ip) (blk s') m = (if m = NDIRECT + j then Some (replicate BSIZE 0) else fmap (itable s ip) (blk s) m)"
    using it by simp
  have "blocks_wf s' (fblock ?i (blk s)) ind"
    by (rule blocks_wf_mono [OF d(7) [unfolded ind(1)]]) (use tw(6) wf1(2) w2 in auto)
  then have "blocks_wf s' (fblock ?i (blk s')) ind"
    by (rule blocks_wf_add [where a = ?a and bn = "NDIRECT + j"]) (use w2 tw(2) a0 ai tf(4) fb t(4) in auto)
  then have fw: "file_wf s' ?i" using d(6) ind by (simp add: file_wf_def)
  have fi: "fi_step {} ip ?i s (blk s') (pins s') s'" by (rule fi_step_id [OF f(1) refl])
  have ow: "x \<notin> own ?i (blk s')" if "in_use s x" "x \<notin> own ?i (blk s)" for x
    using that fb tw(6) [of x] wf1(2) by (auto simp: own_def)
  have ib: "blk s' x = blk s x" if "ino_blk s x" for x
    using that tw(7) [of x] wf1(3) b iu t(4) by (auto simp: in_use_def)
  have nf: "nfree s \<le> nfree s' + 1" using w2(3) tw(8) wf1(4) by linarith
  have "\<exists>ad. ?i = ?i\<lparr>i_addrs := ad\<rparr>" by (intro exI [of _ "i_addrs ?i"]) simp
  moreover have "x \<in> own ?i (blk s)" if "x = ind" for x using that ind by (simp add: own_def)
  ultimately show "fchg ip 3 1 s s'" unfolding fchg_def
    using fi fw w2 tw(1) f(2) nf ib ow old tw(6) wf1(2) it by (intro conjI allI impI) auto
qed

lemma bmap_bn:
  assumes "bn < MAXFILE"
  shows "unat (of_nat bn :: u32) = bn" "NDIRECT \<le> bn \<Longrightarrow> unat (of_nat bn - of_nat NDIRECT :: u32) = bn - NDIRECT"
    "NDIRECT \<le> bn \<Longrightarrow> bn - NDIRECT < NINDIRECT"
proof -
  have b: "bn < 268" using assms by (simp add: MAXFILE_def NINDIRECT_def NDIRECT_def BSIZE_def)
  show "unat (of_nat bn :: u32) = bn" using b by (intro unat_of_nat32) simp
  show "unat (of_nat bn - of_nat NDIRECT :: u32) = bn - NDIRECT" if "NDIRECT \<le> bn"
    using b unat_of_nat32 [of "bn - NDIRECT"] of_nat_diff [OF that, where 'a = u32] by simp
  show "NDIRECT \<le> bn \<Longrightarrow> bn - NDIRECT < NINDIRECT" using assms by (simp add: MAXFILE_def)
qed

text \<open>A block that is there: nothing changes.\<close>

lemma bmap_old:
  assumes st: "file_st p ip s" and e: "0 < fst e" and bn: "bn < MAXFILE" and a: "fblock (itable s ip) (blk s) bn = a" "a \<noteq> 0" and sp: "card (pins s) < NBUF"
  shows "\<exists>s'. bmap e ip (of_nat bn) s = Inr (a, s') \<and> fchg ip 0 0 s s' \<and> blk s' = blk s \<and> itable s' = itable s"
proof (cases "bn < NDIRECT")
  case True
  then show ?thesis using a bmap_bn(1) [OF bn] fchg_refl [OF st] by (simp add: bmap_def bmap_direct_def Let_def fblock_def)
next
  case False
  then have ind: "i_addrs (itable s ip) ! NDIRECT \<noteq> 0" "get32 (blk s (i_addrs (itable s ip) ! NDIRECT)) (4 * (bn - NDIRECT)) = a"
    using a by (auto simp: fblock_def split: if_splits)
  show ?thesis using bmap_indirect_old [OF st e refl ind(1) sp ind(2) a(2)] False bmap_bn [OF bn] ind(1)
    by (simp add: bmap_def bmap_direct_def Let_def)
qed

lemma bmap_ok:
  assumes st: "file_st p ip s" and e: "0 < fst e" and bn: "bn < MAXFILE" and sp: "rooms {} s 6" and nf: "2 \<le> nfree s"
  obtains a s' where "bmap e ip (of_nat bn) s = Inr (a, s')" "fchg ip 5 2 s s'" "a \<noteq> 0" "a = fblock (itable s' ip) (blk s') bn"
    "\<forall>m < MAXFILE. fmap (itable s' ip) (blk s') m =
      (if m = bn \<and> fmap (itable s ip) (blk s) m = None then Some (replicate BSIZE 0) else fmap (itable s ip) (blk s) m)"
proof (cases "bn < NDIRECT")
  case True
  have n: "bn < 13" using True by (simp add: NDIRECT_def)
  obtain a s' where b: "bmap_direct e ip bn s = Inr (a, s')" "fchg ip 2 1 s s'" "a \<noteq> 0" "i_addrs (itable s' ip) ! bn = a"
    "\<forall>m < MAXFILE. fmap (itable s' ip) (blk s') m =
      (if m = bn \<and> bn < NDIRECT \<and> i_addrs (itable s ip) ! bn = 0 then Some (replicate BSIZE 0) else fmap (itable s ip) (blk s) m)"
    by (rule bmap_direct_ok [OF st e n rooms_mono [OF sp]]) (use nf in \<open>simp, linarith, blast\<close>)
  show thesis by (rule that [of a s']) (use b True bmap_bn(1) [OF bn] fchg_mono [OF b(2), of 5 2] in \<open>auto simp: bmap_def fblock_def fmap_def\<close>)
next
  case False
  then have nd: "NDIRECT \<le> bn" by simp
  note ix = bmap_bn(1) [OF bn] bmap_bn(2,3) [OF bn nd]
  have n13: "NDIRECT < 13" by (simp add: NDIRECT_def)
  obtain ind s1 where b: "bmap_direct e ip NDIRECT s = Inr (ind, s1)" "fchg ip 2 1 s s1" "ind \<noteq> 0" "i_addrs (itable s1 ip) ! NDIRECT = ind"
    "\<forall>m < MAXFILE. fmap (itable s1 ip) (blk s1) m = fmap (itable s ip) (blk s) m"
    by (rule bmap_direct_ok [OF st e n13 rooms_mono [OF sp]]) (use nf in \<open>simp, linarith, simp\<close>)
  note c = fchg_st [OF b(2) st]
  have r: "bmap e ip (of_nat bn) s = bmap_indirect e ip (bn - NDIRECT) ind s1" using b(1,3) ix False by (simp add: bmap_def Let_def)
  have sp1: "rooms {} s1 4" using sp c(7) by (simp add: rooms_def)
  have fb: "fblock (itable s1 ip) (blk s1) bn = get32 (blk s1 ind) (4 * (bn - NDIRECT))" using b(3,4) False by (simp add: fblock_def)
  show thesis
  proof (cases "fblock (itable s1 ip) (blk s1) bn = 0")
    case z: False
    obtain s' where s': "bmap_indirect e ip (bn - NDIRECT) ind s1 = Inr (fblock (itable s1 ip) (blk s1) bn, s')" "fchg ip 0 0 s1 s'"
      "blk s' = blk s1" "itable s' = itable s1"
      using bmap_indirect_old [OF c(1) e b(4,3) _ fb [symmetric] z] sp1 by (auto simp: rooms_def)
    have "fmap (itable s ip) (blk s) bn \<noteq> None" using b(5) z bn by (metis fmap_def option.simps(3))
    then show thesis using that [of _ s'] r s' z b(5) fchg_mono [OF fchg_trans [OF b(2) s'(2)], of 5 2] by auto
  next
    case z: True
    have g0: "get32 (blk s1 ind) (4 * (bn - NDIRECT)) = 0" and nf1: "0 < nfree s1" using z fb c(8) nf by auto
    obtain a s' where s': "bmap_indirect e ip (bn - NDIRECT) ind s1 = Inr (a, s')" "fs_step {} s1 (blk s') (pins s') s'"
      "card (pins s') \<le> card (pins s1) + 3"
      "\<exists>k t1 t2. took {ind} t1 k t2 \<and> fsi {ind} t1 \<and> bsame s1 t1 \<and> blk t1 = blk s1 \<and> free_in t1 (blk t1) k \<and> a = of_nat k \<and> lsame t2 s' \<and>
         blk s' = (blk t2)(ind := put32 (4 * (bn - NDIRECT)) a (blk s1 ind))"
      using bmap_indirect_new [OF c(1) e b(4,3) ix(3) sp1 g0 nf1] .
    then obtain k t1 t2 where t: "took {ind} t1 k t2" "fsi {ind} t1" "bsame s1 t1" "blk t1 = blk s1" "free_in t1 (blk t1) k" "lsame t2 s'"
      "blk s' = (blk t2)(ind := put32 (4 * (bn - NDIRECT)) (of_nat k) (blk s1 ind))" "a = of_nat k" by blast
    note i = indirect_fchg [OF c(1) b(4,3) ix(3) s'(2,3) t(1-7)]
    have "fmap (itable s ip) (blk s) bn = None" using b(5) z bn by (metis fmap_def)
    then show thesis
      using that [of a s'] r s'(1) t(8) i nd b(5) fchg_mono [OF fchg_trans [OF b(2) i(1)], of 5 2] by auto
  qed
qed

end
