(* ===== verification/Fsdata.thy ===== *)
theory Fsdata
  imports Fsfile
begin

text \<open>
  \<^verbatim>\<open>readi\<close> and \<^verbatim>\<open>writei\<close> against a file as a list of bytes, \<open>content\<close>. A block that is not mapped reads as
  zeros in \<open>zbyte\<close>; \<open>file_full\<close> says that a file has all blocks below its size.
\<close>

section \<open>Bytes of a file\<close>

definition zbyte :: "inode \<Rightarrow> (u32 \<Rightarrow> u8 list) \<Rightarrow> nat \<Rightarrow> u8" where
  "zbyte i B x = (case fmap i B (x div BSIZE) of None \<Rightarrow> 0 | Some d \<Rightarrow> d ! (x mod BSIZE))"

definition zbytes :: "inode \<Rightarrow> (u32 \<Rightarrow> u8 list) \<Rightarrow> nat \<Rightarrow> nat \<Rightarrow> u8 list" where
  "zbytes i B off n = map (zbyte i B) [off..<off + n]"

definition content :: "inode \<Rightarrow> (u32 \<Rightarrow> u8 list) \<Rightarrow> u8 list" where
  "content i B = zbytes i B 0 (unat (i_size i))"

definition file_full :: "inode \<Rightarrow> (u32 \<Rightarrow> u8 list) \<Rightarrow> bool" where
  "file_full i B \<longleftrightarrow> unat (i_size i) \<le> MAXFILE * BSIZE \<and> (\<forall>x < unat (i_size i). fmap i B (x div BSIZE) \<noteq> None)"

lemma BSIZE_pos [simp]: "0 < BSIZE" by (simp add: BSIZE_def)

lemma block_lt: "x < MAXFILE * BSIZE \<Longrightarrow> x div BSIZE < MAXFILE"
  by (simp add: less_mult_imp_div_less)

lemma same_block: "off mod BSIZE + j < BSIZE \<Longrightarrow> (off + j) div BSIZE = off div BSIZE \<and> (off + j) mod BSIZE = off mod BSIZE + j"
proof -
  assume a: "off mod BSIZE + j < BSIZE"
  have "off + j = off div BSIZE * BSIZE + (off mod BSIZE + j)" by simp
  then show ?thesis using a by (metis BSIZE_pos div_less div_mult_self3 less_numeral_extra(3) mod_less mod_mult_self3 add.right_neutral)
qed

lemma chunk_facts:
  assumes "0 < k"
  shows "0 < min k (BSIZE - off mod BSIZE)" "off mod BSIZE + min k (BSIZE - off mod BSIZE) \<le> BSIZE" "min k (BSIZE - off mod BSIZE) \<le> k"
proof -
  have "off mod BSIZE < BSIZE" by simp
  then show "0 < min k (BSIZE - off mod BSIZE)" "off mod BSIZE + min k (BSIZE - off mod BSIZE) \<le> BSIZE" "min k (BSIZE - off mod BSIZE) \<le> k"
    using assms unfolding min_def by auto
qed

lemma zbytes_split: "m \<le> n \<Longrightarrow> zbytes i B off n = zbytes i B off m @ zbytes i B (off + m) (n - m)"
  using upt_add_eq_append [of off "off + m" "n - m"] by (simp add: zbytes_def)

lemma zbytes_block:
  assumes "fmap i B (off div BSIZE) = Some d" "length d = BSIZE" "off mod BSIZE + m \<le> BSIZE"
  shows "zbytes i B off m = get_bytes (off mod BSIZE) m d"
proof (rule nth_equalityI)
  show "length (zbytes i B off m) = length (get_bytes (off mod BSIZE) m d)" using assms by (simp add: zbytes_def get_bytes_def)
  fix j assume "j < length (zbytes i B off m)"
  then have j: "j < m" by (simp add: zbytes_def)
  then show "zbytes i B off m ! j = get_bytes (off mod BSIZE) m d ! j"
    using same_block [of off j] assms by (simp add: zbytes_def get_bytes_def zbyte_def)
qed

section \<open>\<^verbatim>\<open>readi\<close>\<close>

lemma readi_loop_ok:
  assumes "file_st p ip s" "0 < fst e" "card (pins s) < NBUF" "tot \<le> n" "off + (n - tot) \<le> MAXFILE * BSIZE"
    and "\<forall>x. off \<le> x \<and> x < off + (n - tot) \<longrightarrow> fmap (itable s ip) (blk s) (x div BSIZE) \<noteq> None"
  shows "\<exists>s'. readi_loop e ip False dst off tot n s = Inr (of_nat n, zbytes (itable s ip) (blk s) off (n - tot), s') \<and>
    fchg ip 0 0 s s' \<and> blk s' = blk s \<and> itable s' = itable s"
  using assms
proof (induction "n - tot" arbitrary: tot off dst s rule: less_induct)
  case less
  show ?case
  proof (cases "tot < n")
    case False
    then show ?thesis using less.prems(1,4) fchg_refl by (subst readi_loop.simps) (auto simp: zbytes_def)
  next
    case True
    define m where "m = min (n - tot) (BSIZE - off mod BSIZE)"
    let ?bn = "off div BSIZE" and ?i = "itable s ip"
    have m: "0 < m" "off mod BSIZE + m \<le> BSIZE" "m \<le> n - tot" using chunk_facts [of "n - tot" off] True unfolding m_def by auto
    have bn: "?bn < MAXFILE" using block_lt [of off] less.prems(5) True by simp
    obtain d where d: "fmap ?i (blk s) ?bn = Some d" using less.prems(6) True by fastforce
    then have a: "fblock ?i (blk s) ?bn \<noteq> 0" "blk s (fblock ?i (blk s) ?bn) = d" by (auto simp: fmap_def split: if_splits)
    obtain s1 where 1: "bmap e ip (of_nat ?bn) s = Inr (fblock ?i (blk s) ?bn, s1)" "fchg ip 0 0 s s1" "blk s1 = blk s" "itable s1 = itable s"
      using bmap_old [OF less.prems(1,2) bn refl a(1) less.prems(3)] by blast
    note c1 = fchg_st [OF 1(2) less.prems(1)]
    note f1 = file_stD [OF c1(1)]
    have sp1: "card (pins s1 \<union> {}) < NBUF" using c1(7) less.prems(3) by simp
    obtain b s2 s4 where 2: "bread e ROOTDEV (fblock ?i (blk s) ?bn) s1 = Inr (b, s2)" "b_data (bcache s2 b) = d" "brelse b s2 = Inr s4"
      "fs_step {} s1 (blk s1) (pins s1) s4"
      by (rule read_block [OF f1(1,2) less.prems(2), of "fblock ?i (blk s) ?bn"]) (use sp1 a(2) 1(3) in \<open>simp, simp, metis\<close>)
    have c4: "fchg ip 0 0 s1 s4" by (rule fs_step_fchg [OF c1(1) 2(4)])
    have v4: "blk s4 = blk s" "itable s4 = itable s" using fs_stepD(2,3) [OF 2(4)] lsame_fs(2) 1(3,4) by metis+
    have st4: "file_st p ip s4" by (rule fchg_st(1) [OF c4 c1(1)])
    have p4: "card (pins s4) < NBUF" using fchg_st(7) [OF c4 c1(1)] sp1 by simp
    have "\<exists>s'. readi_loop e ip False (dst + of_nat m) (off + m) (tot + m) n s4 =
        Inr (of_nat n, zbytes (itable s4 ip) (blk s4) (off + m) (n - (tot + m)), s') \<and> fchg ip 0 0 s4 s' \<and> blk s' = blk s4 \<and> itable s' = itable s4"
      by (rule less.hyps [OF _ st4 less.prems(2) p4]) (use m True less.prems(5,6) v4 in auto)
    then obtain s' where s': "readi_loop e ip False (dst + of_nat m) (off + m) (tot + m) n s4 =
        Inr (of_nat n, zbytes ?i (blk s) (off + m) (n - (tot + m)), s')" "fchg ip 0 0 s4 s'" "blk s' = blk s" "itable s' = itable s"
      using v4 by auto
    have ch: "fchg ip 0 0 s s'" using fchg_trans [OF 1(2) fchg_trans [OF c4 s'(2)]] by simp
    have gb: "get_bytes (off mod BSIZE) m d = zbytes ?i (blk s) off m"
      using zbytes_block [OF d _ m(2)] blk_length [OF fsiD(1) [OF file_stD(1) [OF less.prems(1)]]] a(2) by auto
    have "readi_loop e ip False dst off tot n s = Inr (of_nat n, zbytes ?i (blk s) off m @ zbytes ?i (blk s) (off + m) (n - (tot + m)), s')"
      using True 1(1) a(1) 2(1-3) f1(5) s'(1) gb by (subst readi_loop.simps) (simp add: either_copyout_def Let_def flip: m_def)
    then show ?thesis using ch s'(3,4) zbytes_split [OF m(3), of ?i "blk s" off] by auto
  qed
qed

lemma content_slice: "take n (drop off (content i B)) = zbytes i B off (min n (unat (i_size i) - off))"
  by (rule nth_equalityI) (auto simp: content_def zbytes_def)

lemma length_content [simp]: "length (content i B) = unat (i_size i)"
  by (simp add: content_def zbytes_def)

lemma readi_ok:
  assumes st: "file_st p ip s" and e: "0 < fst e" and sp: "card (pins s) < NBUF" and fl: "file_full (itable s ip) (blk s)"
    and off: "off \<le> i_size (itable s ip)" "unat off + unat n < 2 ^ 32"
  shows "\<exists>s'. readi e ip False dst off n s = Inr (of_nat (length (take (unat n) (drop (unat off) (content (itable s ip) (blk s))))),
      take (unat n) (drop (unat off) (content (itable s ip) (blk s))), s') \<and>
    fchg ip 0 0 s s' \<and> blk s' = blk s \<and> itable s' = itable s"
proof -
  let ?sz = "i_size (itable s ip)"
  define k where "k = min (unat n) (unat ?sz - unat off)"
  have o: "unat off \<le> unat ?sz" using off(1) by (simp add: word_le_nat_alt)
  have u: "unat (off + n) = unat off + unat n" using off(2) by (simp add: unat_word_ariths)
  have "\<not> off + n < off" using u by (simp add: word_less_nat_alt)
  moreover have "unat (if ?sz < off + n then ?sz - off else n) = k"
    using o u off(1) unat_sub [of off ?sz] by (auto simp: k_def word_less_nat_alt min_def)
  ultimately have r: "readi e ip False dst off n s = readi_loop e ip False dst (unat off) 0 k s"
    using leD [OF off(1)] by (simp add: readi_def Let_def)
  have "unat off + k \<le> unat ?sz" using o by (simp add: k_def)
  then have "\<exists>s'. readi_loop e ip False dst (unat off) 0 k s = Inr (of_nat k, zbytes (itable s ip) (blk s) (unat off) (k - 0), s') \<and>
      fchg ip 0 0 s s' \<and> blk s' = blk s \<and> itable s' = itable s"
    using fl by (intro readi_loop_ok [OF st e sp]) (auto simp: file_full_def)
  then show ?thesis using r by (auto simp: content_slice k_def zbytes_def)
qed

section \<open>\<^verbatim>\<open>writei\<close>\<close>

text \<open>A write to block \<open>bn\<close> of the file.\<close>

lemma write_fchg:
  assumes st: "file_st p ip s" and bn: "bn < MAXFILE" and a: "fblock (itable s ip) (blk s) bn = a" "a \<noteq> 0"
    and f: "fs_step {} s ((blk s)(a := d)) (insert a (pins s)) s'"
  shows "fchg ip 1 0 s s'" "m < MAXFILE \<Longrightarrow> fmap (itable s' ip) (blk s') m = (if m = bn then Some d else fmap (itable s ip) (blk s) m)"
    "itable s' = itable s"
proof -
  let ?i = "itable s ip"
  note d = file_stD [OF st] and x = fs_stepD [OF f]
  note l = lsame_fs [OF x(2)]
  show it: "itable s' = itable s" by (rule l(2))
  have iu: "in_use s a" "a \<noteq> i_addrs ?i ! NDIRECT" "\<And>bm. bm < MAXFILE \<Longrightarrow> bm \<noteq> bn \<Longrightarrow> fblock ?i (blk s) bm \<noteq> a"
    using blocks_wfD [OF d(7) bn] a by auto
  have "blk s' (bb s j) = blk s (bb s j)" if "j < unat (sb_size (sb s))" for j using iu(1) that x(3) by (auto simp: in_use_def)
  note w = wf_cong(3,4,5,7) [OF l(1,6) this]
  have fb: "fblock ?i (blk s') m = fblock ?i (blk s) m" for m by (rule fblock_cong) (use iu(2) x(3) in auto)
  show "fmap (itable s' ip) (blk s') m = (if m = bn then Some d else fmap ?i (blk s) m)" if "m < MAXFILE" for m
    using that fb x(3) a iu(3) [OF that] by (auto simp: fmap_def it)
  have fw: "file_wf s' ?i" using d(4) fb w(3) by (simp add: file_wf_def blocks_wf_def)
  have fi: "fi_step {} ip ?i s (blk s') (pins s') s'" using fi_step_id [OF f refl] x(3,4) by simp
  have ao: "a \<in> own ?i (blk s)" using a bn by (auto simp: own_def)
  have ow: "own ?i (blk s') = own ?i (blk s)" by (simp add: own_def fb)
  show "fchg ip 1 0 s s'"
  proof (rule fchgI [where ad = "i_addrs ?i"])
    show "card (pins s') \<le> card (pins s) + 1" using card_insert_Suc [of a "pins s"] x(4) by simp
    show "nfree s \<le> nfree s' + 0" using w(4) by simp
    show "blk s' n = blk s n" if "ino_blk s n" for n using that iu(1) x(3) by (auto simp: in_use_def)
    show "blk s' n = blk s n" if "n \<notin> own ?i (blk s)" for n using that ao x(3) by auto
  qed (use fi fw w(2,3) d(3) ow it in simp_all)
qed

text \<open>The number of blocks that \<open>n\<close> bytes from \<open>off\<close> touch.\<close>

definition nblk :: "nat \<Rightarrow> nat \<Rightarrow> nat" where
  "nblk off n = (if n = 0 then 0 else (off mod BSIZE + n + BSIZE - 1) div BSIZE)"

lemma nblk_step:
  assumes "0 < n" "m = min n (BSIZE - off mod BSIZE)"
  shows "nblk off n = Suc (nblk (off + m) (n - m))"
proof -
  have r: "off mod BSIZE < BSIZE" by simp
  have dv: "(y + BSIZE) div BSIZE = Suc (y div BSIZE)" for y by (subst div_add_self2) auto
  show ?thesis
  proof (cases "n \<le> BSIZE - off mod BSIZE")
    case True
    then have eq: "off mod BSIZE + n + BSIZE - 1 = (off mod BSIZE + n - 1) + BSIZE" "off mod BSIZE + n - 1 < BSIZE" using assms(1) r by auto
    have "(off mod BSIZE + n + BSIZE - 1) div BSIZE = 1" unfolding eq(1) dv using eq(2) by simp
    then show ?thesis using True assms by (simp add: nblk_def)
  next
    case False
    then have m: "m = BSIZE - off mod BSIZE" using assms(2) by simp
    have "off + m = off div BSIZE * BSIZE + BSIZE" using r div_mult_mod_eq [of off BSIZE] unfolding m by linarith
    then have z: "(off + m) mod BSIZE = 0" by simp
    have eq: "off mod BSIZE + n + BSIZE - 1 = (n - m + BSIZE - 1) + BSIZE" using m r False by simp
    have "(off mod BSIZE + n + BSIZE - 1) div BSIZE = Suc ((n - m + BSIZE - 1) div BSIZE)" unfolding eq dv ..
    then show ?thesis using False m z assms(1) by (simp add: nblk_def)
  qed
qed

lemma zbyte_cong: "fmap i' B' (x div BSIZE) = fmap i B (x div BSIZE) \<Longrightarrow> zbyte i' B' x = zbyte i B x"
  by (simp add: zbyte_def)

text \<open>One round of the loop of \<^verbatim>\<open>writei\<close>.\<close>

lemma write_chunk:
  assumes st: "file_st p ip s" and e: "0 < fst e" and bn: "off div BSIZE < MAXFILE" and sp: "rooms {} s 6" and nf: "2 \<le> nfree s"
    and bs: "off mod BSIZE + length bs \<le> BSIZE"
  obtains a b s1 s2 s3 s4 where "bmap e ip (of_nat (off div BSIZE)) s = Inr (a, s1)" "a \<noteq> 0" "i_dev (itable s1 ip) = ROOTDEV"
    "bread e ROOTDEV a s1 = Inr (b, s2)" "log_write b (set_data b (put_bytes (off mod BSIZE) bs (b_data (bcache s2 b))) s2) = Inr s3"
    "brelse b s3 = Inr s4" "fchg ip 6 2 s s4"
    "\<forall>x < MAXFILE * BSIZE. zbyte (itable s4 ip) (blk s4) x = (if off \<le> x \<and> x < off + length bs then bs ! (x - off) else zbyte (itable s ip) (blk s) x)"
    "\<forall>m < MAXFILE. fmap (itable s ip) (blk s) m \<noteq> None \<or> m = off div BSIZE \<longrightarrow> fmap (itable s4 ip) (blk s4) m \<noteq> None"
proof -
  let ?bn = "off div BSIZE" and ?i = "itable s ip"
  obtain a s1 where 1: "bmap e ip (of_nat ?bn) s = Inr (a, s1)" "fchg ip 5 2 s s1" "a \<noteq> 0" "a = fblock (itable s1 ip) (blk s1) ?bn"
    "\<forall>m < MAXFILE. fmap (itable s1 ip) (blk s1) m = (if m = ?bn \<and> fmap ?i (blk s) m = None then Some (replicate BSIZE 0) else fmap ?i (blk s) m)"
    using bmap_ok [OF st e bn sp nf] .
  note c1 = fchg_st [OF 1(2) st]
  note f1 = file_stD [OF c1(1)]
  have lenb: "length (blk s1 x) = BSIZE" for x using blk_length [OF fsiD(1) [OF f1(1)]] .
  have iu: "in_use s1 a" using blocks_wfD(1) [OF f1(7) bn] 1(3,4) by simp
  have sp1: "rooms {} s1 (Suc 0)" using sp c1(7) by (simp add: rooms_def)
  let ?d = "put_bytes (off mod BSIZE) bs (blk s1 a)"
  have ld: "length ?d = BSIZE" using bs lenb by simp
  have na: "a \<notin> {}" "a \<notin> log_area (log s1)" using iu by (auto simp: in_use_def)
  obtain b s2 where 2: "bread e ROOTDEV a s1 = Inr (b, s2)" "b_data (bcache s2 b) = blk s1 a"
    "\<exists>s3 s4. log_write b (set_data b ?d s2) = Inr s3 \<and> brelse b s3 = Inr s4 \<and> fs_step {} s1 ((blk s1)(a := ?d)) (insert a (pins s1)) s4"
    by (rule modify_block [OF f1(1,2) e na]) (use rooms_use [OF sp1] ld in \<open>simp, simp, blast\<close>)
  then obtain s3 s4 where 3: "log_write b (set_data b ?d s2) = Inr s3" "brelse b s3 = Inr s4"
    "fs_step {} s1 ((blk s1)(a := ?d)) (insert a (pins s1)) s4" by blast
  note w = write_fchg [OF c1(1) bn 1(4) [symmetric] 1(3) 3(3)]
  have zb: "zbyte (itable s1 ip) (blk s1) x = zbyte ?i (blk s) x" if "x < MAXFILE * BSIZE" for x
    using 1(5) block_lt [OF that] by (auto simp: zbyte_def)
  have bn1: "fmap (itable s1 ip) (blk s1) ?bn = Some (blk s1 a)" using 1(3,4) by (simp add: fmap_def)
  have z4: "zbyte (itable s4 ip) (blk s4) x = (if off \<le> x \<and> x < off + length bs then bs ! (x - off) else zbyte ?i (blk s) x)" if x: "x < MAXFILE * BSIZE" for x
  proof (cases "x div BSIZE = ?bn")
    case True
    have dx: "x = ?bn * BSIZE + x mod BSIZE" "off = ?bn * BSIZE + off mod BSIZE" using True by (metis div_mult_mod_eq)+
    have "zbyte (itable s4 ip) (blk s4) x = ?d ! (x mod BSIZE)" using w(2) [OF bn] True by (simp add: zbyte_def)
    also have "\<dots> = (if off mod BSIZE \<le> x mod BSIZE \<and> x mod BSIZE < off mod BSIZE + length bs then bs ! (x mod BSIZE - off mod BSIZE) else blk s1 a ! (x mod BSIZE))"
      using bs lenb by (intro nth_put_bytes) simp_all
    also have "blk s1 a ! (x mod BSIZE) = zbyte ?i (blk s) x" using zb [OF x] bn1 True by (simp add: zbyte_def)
    also have "off mod BSIZE \<le> x mod BSIZE \<and> x mod BSIZE < off mod BSIZE + length bs \<longleftrightarrow> off \<le> x \<and> x < off + length bs" using dx by linarith
    also have "x mod BSIZE - off mod BSIZE = x - off" using dx by linarith
    finally show ?thesis .
  next
    case False
    have "\<not> (off \<le> x \<and> x < off + length bs)"
    proof
      assume a: "off \<le> x \<and> x < off + length bs"
      then have "off mod BSIZE + (x - off) < BSIZE" using bs by linarith
      then show False using same_block [of off "x - off"] a False by simp
    qed
    moreover have "zbyte (itable s4 ip) (blk s4) x = zbyte (itable s1 ip) (blk s1) x"
      using w(2) [OF block_lt [OF x]] False by (intro zbyte_cong) simp
    ultimately show ?thesis using zb [OF x] by auto
  qed
  have fm: "\<forall>m < MAXFILE. fmap ?i (blk s) m \<noteq> None \<or> m = ?bn \<longrightarrow> fmap (itable s4 ip) (blk s4) m \<noteq> None" using w(2) 1(5) by auto
  have ch: "fchg ip 6 2 s s4" using fchg_trans [OF 1(2) w(1)] by simp
  show thesis by (rule that [of a s1 b s2 s3 s4]) (use 1(1,3) f1(5) 2(1,2) 3(1,2) ch z4 fm in simp_all)
qed

lemma writei_loop_ok:
  assumes "file_st p ip s" "0 < fst e" "tot \<le> n" "length bs = n - tot" "off + (n - tot) \<le> MAXFILE * BSIZE"
    and "rooms {} s (6 * nblk off (n - tot))" "2 * nblk off (n - tot) \<le> nfree s"
  shows "\<exists>s'. writei_loop e ip (KSrc bs) off tot n s = Inr (n, off + (n - tot), s') \<and> fchg ip (6 * nblk off (n - tot)) (2 * nblk off (n - tot)) s s' \<and>
    (\<forall>x < MAXFILE * BSIZE. zbyte (itable s' ip) (blk s') x = (if off \<le> x \<and> x < off + (n - tot) then bs ! (x - off) else zbyte (itable s ip) (blk s) x)) \<and>
    (\<forall>m < MAXFILE. fmap (itable s ip) (blk s) m \<noteq> None \<longrightarrow> fmap (itable s' ip) (blk s') m \<noteq> None) \<and>
    (\<forall>x. off \<le> x \<and> x < off + (n - tot) \<longrightarrow> fmap (itable s' ip) (blk s') (x div BSIZE) \<noteq> None)"
  using assms
proof (induction "n - tot" arbitrary: tot off bs s rule: less_induct)
  case less
  show ?case
  proof (cases "tot < n")
    case False
    then show ?thesis using less.prems(1,3) fchg_refl by (subst writei_loop.simps) (auto simp: nblk_def)
  next
    case True
    define m where "m = min (n - tot) (BSIZE - off mod BSIZE)"
    let ?k = "nblk (off + m) (n - (tot + m))"
    have m: "0 < m" "off mod BSIZE + m \<le> BSIZE" "m \<le> n - tot" using chunk_facts [of "n - tot" off] True unfolding m_def by auto
    have nb: "nblk off (n - tot) = Suc ?k" using nblk_step [of "n - tot" m off] True by (simp add: m_def)
    have bn: "off div BSIZE < MAXFILE" using block_lt [of off] less.prems(5) True by simp
    have tk: "length (take m bs) = m" using m less.prems(4) by simp
    have sp: "rooms {} s 6" "2 \<le> nfree s" using less.prems(6,7) nb by (auto simp: rooms_def)
    have lb: "off mod BSIZE + length (take m bs) \<le> BSIZE" using m tk by simp
    obtain a b s1 s2 s3 s4 where c: "bmap e ip (of_nat (off div BSIZE)) s = Inr (a, s1)" "a \<noteq> 0" "i_dev (itable s1 ip) = ROOTDEV"
      "bread e ROOTDEV a s1 = Inr (b, s2)" "log_write b (set_data b (put_bytes (off mod BSIZE) (take m bs) (b_data (bcache s2 b))) s2) = Inr s3"
      "brelse b s3 = Inr s4" "fchg ip 6 2 s s4"
      "\<forall>x < MAXFILE * BSIZE. zbyte (itable s4 ip) (blk s4) x = (if off \<le> x \<and> x < off + length (take m bs) then take m bs ! (x - off) else zbyte (itable s ip) (blk s) x)"
      "\<forall>m < MAXFILE. fmap (itable s ip) (blk s) m \<noteq> None \<or> m = off div BSIZE \<longrightarrow> fmap (itable s4 ip) (blk s4) m \<noteq> None"
      using write_chunk [OF less.prems(1,2) bn sp lb] .
    note c4 = fchg_st [OF c(7) less.prems(1)]
    have sp4: "rooms {} s4 (6 * ?k)" "2 * ?k \<le> nfree s4" using less.prems(6,7) nb c4(7,8) by (auto simp: rooms_def)
    have sm: "n - (tot + m) < n - tot" "tot + m \<le> n" "length (drop m bs) = n - (tot + m)" "off + m + (n - (tot + m)) \<le> MAXFILE * BSIZE"
      using m True less.prems(4,5) by auto
    obtain s' where s': "writei_loop e ip (KSrc (drop m bs)) (off + m) (tot + m) n s4 = Inr (n, off + m + (n - (tot + m)), s')"
      "fchg ip (6 * ?k) (2 * ?k) s4 s'"
      "\<forall>x < MAXFILE * BSIZE. zbyte (itable s' ip) (blk s') x =
        (if off + m \<le> x \<and> x < off + m + (n - (tot + m)) then drop m bs ! (x - (off + m)) else zbyte (itable s4 ip) (blk s4) x)"
      "\<forall>m < MAXFILE. fmap (itable s4 ip) (blk s4) m \<noteq> None \<longrightarrow> fmap (itable s' ip) (blk s') m \<noteq> None"
      "\<forall>x. off + m \<le> x \<and> x < off + m + (n - (tot + m)) \<longrightarrow> fmap (itable s' ip) (blk s') (x div BSIZE) \<noteq> None"
      using less.hyps [OF sm(1) c4(1) less.prems(2) sm(2-4) sp4] by blast
    have e1: "off + m + (n - (tot + m)) = off + (n - tot)" using m by simp
    have r: "writei_loop e ip (KSrc bs) off tot n s = Inr (n, off + (n - tot), s')"
      using True c(1-6) s'(1) m less.prems(4) e1 by (subst writei_loop.simps) (simp add: either_copyin_def Let_def flip: m_def)
    have "fchg ip (6 * nblk off (n - tot)) (2 * nblk off (n - tot)) s s'" using fchg_trans [OF c(7) s'(2)] nb by simp
    moreover have "zbyte (itable s' ip) (blk s') x = (if off \<le> x \<and> x < off + (n - tot) then bs ! (x - off) else zbyte (itable s ip) (blk s) x)"
      if "x < MAXFILE * BSIZE" for x
      using s'(3) [rule_format, OF that] c(8) [rule_format, OF that] m e1 tk less.prems(4) by (auto simp: nth_append)
    moreover have "fmap (itable s' ip) (blk s') (x div BSIZE) \<noteq> None" if x: "off \<le> x" "x < off + (n - tot)" for x
    proof (cases "x < off + m")
      case True
      then have "x div BSIZE = off div BSIZE" using same_block [of off "x - off"] m(2) x(1) by simp
      then show ?thesis using c(9) s'(4) bn by auto
    next
      case False
      then show ?thesis using s'(5) x e1 by auto
    qed
    ultimately show ?thesis using r c(9) s'(4) by auto
  qed
qed

text \<open>Writing the inode back leaves the content of the file alone.\<close>

definition with_size :: "nat \<Rightarrow> inode \<Rightarrow> inode" where
  "with_size n i = i\<lparr>i_size := of_nat n\<rparr>"

lemma with_size_sel [simp]:
  "i_addrs (with_size n i) = i_addrs i" "i_dev (with_size n i) = i_dev i" "i_inum (with_size n i) = i_inum i" "i_size (with_size n i) = of_nat n"
  "i_type (with_size n i) = i_type i" "i_nlink (with_size n i) = i_nlink i" "i_ref (with_size n i) = i_ref i" "i_valid (with_size n i) = i_valid i"
  by (simp_all add: with_size_def)

lemma fblock_size [simp]: "fblock (with_size n i) B bn = fblock i B bn" "fmap (with_size n i) B bn = fmap i B bn" "zbyte (with_size n i) B x = zbyte i B x"
  "own (with_size n i) B = own i B"
  by (simp_all add: fblock_def fmap_def zbyte_def own_def)

lemma iupdate_file:
  assumes st: "file_st p ip s" and e: "0 < fst e" and inum: "i_inum (itable s ip) < sb_ninodes (sb s)" and sp: "rooms {} s (Suc k)"
    and ib: "ib = IBLOCK (i_inum (itable s ip)) (sb s)"
  obtains s' where "iupdate e ip (put_inode ip (with_size z (itable s ip)) s) = Inr s'" "file_st p ip s'" "itable s' = (itable s)(ip := with_size z (itable s ip))"
    "blk s' = (blk s)(ib := put_dinode (ino_slot (i_inum (itable s ip))) (dinode_of (with_size z (itable s ip))) (blk s ib))"
    "\<forall>m < MAXFILE. fmap (itable s' ip) (blk s') m = fmap (itable s ip) (blk s) m" "card (pins s') \<le> card (pins s) + 1" "nfree s' = nfree s" "sb s' = sb s"
    "\<forall>n. in_use s n \<longrightarrow> in_use s' n \<and> n \<noteq> ib" "\<forall>n. ino_blk s' n = ino_blk s n" "log_area (log s') = log_area (log s)"
proof -
  let ?j = "with_size z (itable s ip)"
  let ?t = "put_inode ip ?j s"
  note d = file_stD [OF st]
  have nb: "ino_blk s ib" using inum ib by (auto simp: ino_blk_def)
  have nl: "ib \<notin> log_area (log s)" "\<And>j. j < unat (sb_size (sb s)) \<Longrightarrow> ib \<noteq> bb s j" using nb d(3) by (auto simp: fs_wf_def)
  have "\<exists>s'. iupdate e ip ?t = Inr s' \<and> running s' p \<and>
      fs_step {} ?t ((blk ?t)(ib := put_dinode (ino_slot (i_inum (itable ?t ip))) (dinode_of (itable ?t ip)) (blk ?t ib))) (insert ib (pins ?t)) s'"
    by (rule iupdate_ok) (use d e ib nl sp in auto)
  then obtain s' where s': "iupdate e ip ?t = Inr s'"
    "fs_step {} ?t ((blk s)(ib := put_dinode (ino_slot (i_inum (itable s ip))) (dinode_of ?j) (blk s ib))) (insert ib (pins s)) s'" by auto
  note x = fs_stepD [OF s'(2)] and l = lsame_fs [OF fs_stepD(2) [OF s'(2)]]
  have it: "itable s' = (itable s)(ip := ?j)" using l(2) by simp
  have "blk s' (bb s j) = blk s (bb s j)" if "j < unat (sb_size (sb s))" for j using nl(2) [OF that] x(3) by auto
  note w = wf_cong(3,4,5,7) [of s' s, OF _ _ this]
  have w': "fs_wf s'" "in_use s' n = in_use s n" "nfree s' = nfree s" "ino_blk s' n = ino_blk s n" for n using w l(1,6) d(3) by auto
  have iu: "in_use s n \<Longrightarrow> n \<noteq> ib" for n using nb by (auto simp: in_use_def)
  have fb: "fblock (itable s ip) (blk s') m = fblock (itable s ip) (blk s) m" for m
    by (rule fblock_cong) (use iu d(7) x(3) in \<open>auto simp: blocks_wf_def\<close>)
  have fm: "fmap (itable s ip) (blk s') m = fmap (itable s ip) (blk s) m" if "m < MAXFILE" for m
    by (rule fmap_eq [OF fb]) (use iu blocks_wfD(1) [OF d(7) that] x(3) in auto)
  have "file_wf s' ?j" using d(4) fb w'(2) by (simp add: file_wf_def blocks_wf_def)
  then have "file_st p ip s'" using x(1) x(6) [of p] d(2,5) w'(1) it by (simp add: file_st_def)
  then show thesis using that [OF s'(1)] it x(3,4) fm w' iu card_insert_Suc [of ib "pins s"] l(1,6) by simp
qed

lemma writei_ok:
  assumes st: "file_st p ip s" and e: "0 < fst e" and fl: "file_full (itable s ip) (blk s)" and inum: "i_inum (itable s ip) < sb_ninodes (sb s)"
    and off: "off \<le> i_size (itable s ip)" "unat off + length bs \<le> MAXFILE * BSIZE"
    and sp: "rooms {} s (6 * nblk (unat off) (length bs) + 1)" "2 * nblk (unat off) (length bs) \<le> nfree s"
    and ib: "ib = IBLOCK (i_inum (itable s ip)) (sb s)" and sl: "sl = ino_slot (i_inum (itable s ip))"
  obtains s' where "writei e ip (KSrc bs) off (of_nat (length bs)) s = Inr (of_nat (length bs), s')" "file_st p ip s'" "file_full (itable s' ip) (blk s')"
    "content (itable s' ip) (blk s') = take (unat off) (content (itable s ip) (blk s)) @ bs @ drop (unat off + length bs) (content (itable s ip) (blk s))"
    "get_dinode sl (blk s' ib) = dinode_of (itable s' ip)" "\<forall>n. in_use s n \<and> n \<notin> own (itable s ip) (blk s) \<longrightarrow> blk s' n = blk s n"
    "\<forall>n k. ino_blk s n \<and> k < IPB \<and> (n, k) \<noteq> (ib, sl) \<longrightarrow> get_dinode k (blk s' n) = get_dinode k (blk s n)"
    "\<exists>ad. itable s' = (itable s)(ip := (itable s ip)\<lparr>i_addrs := ad, i_size := of_nat (max (unat (i_size (itable s ip))) (unat off + length bs))\<rparr>)"
    "sb s' = sb s" "card (pins s') \<le> card (pins s) + 6 * nblk (unat off) (length bs) + 1" "nfree s \<le> nfree s' + 2 * nblk (unat off) (length bs)"
proof -
  let ?n = "length bs" and ?o = "unat off" and ?i = "itable s ip" and ?sz = "unat (i_size (itable s ip))"
  let ?K = "nblk (unat off) (length bs)" and ?z = "max (unat (i_size (itable s ip))) (unat off + length bs)"
  have mx: "MAXFILE * BSIZE = 274432" by (simp add: MAXFILE_def NINDIRECT_def NDIRECT_def BSIZE_def)
  have un: "unat (of_nat ?n :: u32) = ?n" using off(2) mx by (intro unat_of_nat32) simp
  have u: "unat (off + of_nat ?n) = ?o + ?n" using off(2) mx un by (simp add: unat_word_ariths)
  have o: "?o \<le> ?sz" using off(1) by (simp add: word_le_nat_alt)
  have g: "\<not> i_size ?i < off" "\<not> off + of_nat ?n < off" "\<not> MAXFILE * BSIZE < unat (off + of_nat ?n)"
    using off(2) o u by (auto simp: word_less_nat_alt)
  obtain s1 where 1: "writei_loop e ip (KSrc bs) ?o 0 ?n s = Inr (?n, ?o + ?n, s1)" "fchg ip (6 * ?K) (2 * ?K) s s1"
    "\<forall>x < MAXFILE * BSIZE. zbyte (itable s1 ip) (blk s1) x = (if ?o \<le> x \<and> x < ?o + ?n then bs ! (x - ?o) else zbyte ?i (blk s) x)"
    "\<forall>m < MAXFILE. fmap ?i (blk s) m \<noteq> None \<longrightarrow> fmap (itable s1 ip) (blk s1) m \<noteq> None"
    "\<forall>x. ?o \<le> x \<and> x < ?o + ?n \<longrightarrow> fmap (itable s1 ip) (blk s1) (x div BSIZE) \<noteq> None"
    using writei_loop_ok [of p ip s e 0 ?n bs ?o] st e off(2) sp by (auto simp: rooms_def)
  note c = fchg_st [OF 1(2) st]
  have zs: "?z \<le> MAXFILE * BSIZE" using fl off(2) by (simp add: file_full_def)
  have uz: "unat (of_nat ?z :: u32) = ?z" using zs mx by (intro unat_of_nat32) simp
  have sid: "(itable s1 ip)\<lparr>i_size := i_size ?i\<rparr> = itable s1 ip" using c(2) by (cases "itable s1 ip") simp
  have upd: "(if unat (i_size (itable s1 ip)) < ?o + ?n then upd_inode ip (\<lambda>x. x\<lparr>i_size := of_nat (?o + ?n)\<rparr>) s1 else s1) =
      put_inode ip (with_size ?z (itable s1 ip)) s1"
    using c(2) by (auto simp: upd_put with_size_def max_def sid)
  have sp1: "rooms {} s1 (Suc 0)" using sp(1) c(7) by (simp add: rooms_def)
  have inum1: "i_inum (itable s1 ip) < sb_ninodes (sb s1)" using inum c(4,5) by simp
  have ib1: "ib = IBLOCK (i_inum (itable s1 ip)) (sb s1)" using ib c(4,5) by simp
  obtain s2 where 2: "iupdate e ip (put_inode ip (with_size ?z (itable s1 ip)) s1) = Inr s2" "file_st p ip s2"
    "itable s2 = (itable s1)(ip := with_size ?z (itable s1 ip))"
    "blk s2 = (blk s1)(ib := put_dinode (ino_slot (i_inum (itable s1 ip))) (dinode_of (with_size ?z (itable s1 ip))) (blk s1 ib))"
    "\<forall>m < MAXFILE. fmap (itable s2 ip) (blk s2) m = fmap (itable s1 ip) (blk s1) m" "card (pins s2) \<le> card (pins s1) + 1" "nfree s2 = nfree s1" "sb s2 = sb s1"
    "\<forall>n. in_use s1 n \<longrightarrow> in_use s2 n \<and> n \<noteq> ib" "\<forall>n. ino_blk s2 n = ino_blk s1 n" "log_area (log s2) = log_area (log s1)"
    using iupdate_file [OF c(1) e inum1 sp1 ib1] .
  have r: "writei e ip (KSrc bs) off (of_nat ?n) s = Inr (of_nat ?n, s2)" using g un 1(1) upd 2(1) by (simp add: writei_def)
  have zb: "zbyte (itable s2 ip) (blk s2) x = (if ?o \<le> x \<and> x < ?o + ?n then bs ! (x - ?o) else zbyte ?i (blk s) x)" if "x < MAXFILE * BSIZE" for x
    using 1(3) that 2(5) block_lt [OF that] zbyte_cong [of "itable s2 ip" "blk s2" x "itable s1 ip" "blk s1"] by simp
  have sz2: "unat (i_size (itable s2 ip)) = ?z" using 2(3) uz by simp
  have ct: "content (itable s2 ip) (blk s2) = take ?o (content ?i (blk s)) @ bs @ drop (?o + ?n) (content ?i (blk s))"
  proof (rule nth_equalityI)
    fix x assume "x < length (content (itable s2 ip) (blk s2))"
    then have "x < ?z" "x < MAXFILE * BSIZE" using sz2 zs by auto
    then show "content (itable s2 ip) (blk s2) ! x = (take ?o (content ?i (blk s)) @ bs @ drop (?o + ?n) (content ?i (blk s))) ! x"
      using zb [of x] o sz2 by (auto simp: content_def zbytes_def nth_append)
  qed (use o sz2 in auto)
  have "fmap (itable s2 ip) (blk s2) (x div BSIZE) \<noteq> None" if x: "x < ?z" for x
  proof -
    have b: "x div BSIZE < MAXFILE" by (rule block_lt) (rule less_le_trans [OF x zs])
    have "fmap (itable s1 ip) (blk s1) (x div BSIZE) \<noteq> None"
    proof (cases "x < ?sz")
      case True
      then have "fmap ?i (blk s) (x div BSIZE) \<noteq> None" using fl unfolding file_full_def by blast
      then show ?thesis using 1(4) b by blast
    next
      case False
      then show ?thesis using 1(5) x o by auto
    qed
    then show ?thesis using 2(5) b by simp
  qed
  then have ff: "file_full (itable s2 ip) (blk s2)" using sz2 zs by (simp add: file_full_def)
  have l13: "length (d_addrs (dinode_of (with_size ?z (itable s1 ip)))) = 13" using file_stD(6) [OF c(1)] by (simp add: dinode_of_def)
  have sl1: "ino_slot (i_inum (itable s1 ip)) = sl" "sl < IPB" using c(4) sl by (simp_all add: IPB_def BSIZE_def)
  have bl: "length (blk s1 x) = BSIZE" for x using blk_length [OF fsiD(1) [OF file_stD(1) [OF c(1)]]] .
  have gd: "get_dinode sl (blk s2 ib) = dinode_of (itable s2 ip)" using get_put_dinode [OF l13 sl1(2) bl] 2(3,4) sl1(1) by simp
  have u1: "in_use s1 n" "n \<notin> own ?i (blk s) \<Longrightarrow> blk s1 n = blk s n" if "in_use s n" for n using 1(2) that unfolding fchg_def by blast+
  have ot: "\<forall>n. in_use s n \<and> n \<notin> own ?i (blk s) \<longrightarrow> blk s2 n = blk s n" using u1 2(4,9) by auto
  have i1: "blk s1 n = blk s n" if "ino_blk s n" for n using 1(2) that unfolding fchg_def by blast
  have di: "\<forall>n k. ino_blk s n \<and> k < IPB \<and> (n, k) \<noteq> (ib, sl) \<longrightarrow> get_dinode k (blk s2 n) = get_dinode k (blk s n)"
  proof (intro allI impI)
    fix n k assume a: "ino_blk s n \<and> k < IPB \<and> (n, k) \<noteq> (ib, sl)"
    have "get_dinode k (blk s2 n) = get_dinode k (blk s1 n)"
      using 2(4) get_put_dinode_other [OF l13 sl1(2) _ _ bl, of k] sl1(1) a by (cases "n = ib") auto
    then show "get_dinode k (blk s2 n) = get_dinode k (blk s n)" using i1 a by simp
  qed
  obtain ad where "itable s1 ip = ?i\<lparr>i_addrs := ad\<rparr>" using 1(2) unfolding fchg_def by blast
  moreover have "itable s1 = (itable s)(ip := itable s1 ip)" using c(11) by auto
  ultimately have it: "\<exists>ad. itable s2 = (itable s)(ip := ?i\<lparr>i_addrs := ad, i_size := of_nat ?z\<rparr>)"
    using 2(3) by (intro exI [of _ ad]) (metis fun_upd_upd with_size_def)
  show thesis by (rule that [OF r 2(2) ff ct gd ot di it]) (use 2(6-8) c(5,7,8) in simp_all)
qed

section \<open>The files of the small file system\<close>

lemma demo_ino: "ino_blk kfs0 n \<Longrightarrow> 32 \<le> unat n \<and> unat n < 45"
proof -
  assume "ino_blk kfs0 n"
  then obtain i where i: "i < 200" "n = i div 16 + 32"
    by (auto simp: ino_blk_def IBLOCK_def kfs0_facts IPB_def BSIZE_def) (auto simp: kfs_raw_def)
  have "unat i < 200" using i(1) by (simp add: word_less_nat_alt)
  then have "unat (i div 16) \<le> 12" by (simp add: unat_div)
  then have "unat n = unat (i div 16) + 32" unfolding i(2) by (subst unat_add_lem [THEN iffD1]) simp_all
  then show ?thesis using \<open>unat (i div 16) \<le> 12\<close> by simp
qed

lemma demo_sizes: "unat (sb_size (sb kfs0)) = 100" "sb_ninodes (sb kfs0) = 200"
  by (simp_all add: kfs0_facts) (simp_all add: kfs_raw_def)

lemma demo_fs_wf: "fs_wf kfs0"
proof -
  have "\<not> ino_blk kfs0 (of_nat k)" if "48 \<le> k" "k < 100" for k
    using demo_ino [of "of_nat k"] unat_of_nat32 [of k] that by auto
  moreover have "n \<notin> log_area (log kfs0)" "n \<noteq> 45" if "ino_blk kfs0 n" for n
    using demo_ino [OF that] demo_log_area [of n] by auto
  ultimately show ?thesis using demo_alloc_wf by (auto simp: fs_wf_def kfs0_facts(4) demo_free demo_sizes)
qed

lemma demo_in_use: "n = 46 \<or> n = 47 \<Longrightarrow> in_use kfs0 n"
  using demo_ino [of n] demo_log_area [of n] by (auto simp: in_use_def kfs0_facts(4) demo_free demo_sizes)

lemma demo_fblock: "i = 46 # replicate 12 0 \<or> i = 47 # replicate 12 0 \<Longrightarrow> i_addrs j = i \<Longrightarrow> fblock j B bn = (if bn = 0 then hd i else 0)"
  by (cases bn) (auto simp: fblock_def NDIRECT_def)

lemma demo_inodes: "itable kfs0 0 = demo_inode 1 demo_dir" "itable kfs0 1 = demo_inode 2 demo_file" "itable kfs0 (Suc 0) = demo_inode 2 demo_file"
  by (simp_all add: kfs0_facts(6)) (simp_all add: kfs_raw_def)

lemma demo_file_st: "ip \<le> 1 \<Longrightarrow> file_st 0 ip kfs0"
proof -
  assume ip: "ip \<le> 1"
  let ?i = "itable kfs0 ip"
  have i: "i_addrs ?i = 46 # replicate 12 0 \<or> i_addrs ?i = 47 # replicate 12 0" "i_dev ?i = ROOTDEV"
    using ip by (cases ip; simp add: demo_inodes demo_inode_def demo_dir_def demo_file_def)+
  have "file_wf kfs0 ?i"
    using i(1) demo_fblock [OF i(1) refl] demo_in_use by (auto simp: file_wf_def blocks_wf_def NDIRECT_def)
  then show ?thesis using kfs0_facts(1,2) demo_fs_wf i(2) by (simp add: file_st_def)
qed

lemma demo_file_full: "ip \<le> 1 \<Longrightarrow> file_full (itable kfs0 ip) (blk kfs0)"
proof -
  assume ip: "ip \<le> 1"
  let ?i = "itable kfs0 ip"
  have i: "i_addrs ?i = 46 # replicate 12 0 \<or> i_addrs ?i = 47 # replicate 12 0" "unat (i_size ?i) \<le> 48"
    using ip by (cases ip; simp add: demo_inodes demo_inode_def demo_dir_def demo_file_def)+
  have "x div BSIZE = 0" if "x < unat (i_size ?i)" for x using that i(2) by (simp add: BSIZE_def)
  then show ?thesis using i demo_fblock [OF i(1) refl]
    by (auto simp: file_full_def fmap_def MAXFILE_def NINDIRECT_def NDIRECT_def BSIZE_def)
qed

lemma binit_inode_locks: "slock (binit s) ''inode'' = slock (s :: 'z kbuf_scheme) ''inode''"
proof -
  have "slock (fold (\<lambda>b t. link_front b (initsleeplock ''buffer'' b t)) bs t) ''inode'' = slock t ''inode''" for bs and t :: "'z kbuf_scheme"
    by (induction bs arbitrary: t) (simp_all add: initsleeplock_def set_slock_def)
  then show ?thesis by (simp add: binit_def Let_def set_next_def set_prev_def upd_buf_def)
qed

lemma kfs0_inode_unlocked: "\<not> sl_locked (slock kfs0 ''inode'' ip)"
  by (simp add: kfs0_def binit_inode_locks) (simp add: kfs_raw_def)

lemma demo_nfree: "nfree kfs0 = 52"
proof -
  have "{k. free_in kfs0 (blk kfs0) k} = {48..<100}" by (auto simp: kfs0_facts(4) demo_free)
  then show ?thesis by simp
qed

section \<open>Properties\<close>

text \<open>C3: A file is a sequence of bytes. Inside a transaction with enough room, \<^verbatim>\<open>writei\<close> of \<open>bs\<close> at an offset up to
  the end of the file returns their number and replaces that part of the content, growing the file
  and allocating blocks as needed; the blocks of all other files are untouched. \<^verbatim>\<open>readi\<close> of the same range
  then delivers \<open>bs\<close>, and in general the part of the content asked for.\<close>

theorem file_is_bytes:
  assumes "file_st p ip s" "0 < fst e" "file_full (itable s ip) (blk s)" "i_inum (itable s ip) < sb_ninodes (sb s)"
    and "off \<le> i_size (itable s ip)" "unat off + length bs \<le> MAXFILE * BSIZE"
    and "rooms {} s (6 * nblk (unat off) (length bs) + 1)" "2 * nblk (unat off) (length bs) \<le> nfree s"
  shows "\<exists>s'. writei e ip (KSrc bs) off (of_nat (length bs)) s = Inr (of_nat (length bs), s') \<and> file_st p ip s' \<and>
    content (itable s' ip) (blk s') = take (unat off) (content (itable s ip) (blk s)) @ bs @ drop (unat off + length bs) (content (itable s ip) (blk s)) \<and>
    (\<forall>n. in_use s n \<and> n \<notin> own (itable s ip) (blk s) \<longrightarrow> blk s' n = blk s n) \<and>
    (\<exists>s''. readi e ip False dst off (of_nat (length bs)) s' = Inr (of_nat (length bs), bs, s'')) \<and>
    (\<forall>o' n'. o' \<le> i_size (itable s' ip) \<and> unat o' + unat n' < 2 ^ 32 \<longrightarrow>
      (\<exists>s''. readi e ip False dst o' n' s' =
         (let r = take (unat n') (drop (unat o') (content (itable s' ip) (blk s'))) in Inr (of_nat (length r), r, s'')) \<and> blk s'' = blk s'))"
proof -
  obtain s' where s': "writei e ip (KSrc bs) off (of_nat (length bs)) s = Inr (of_nat (length bs), s')" "file_st p ip s'" "file_full (itable s' ip) (blk s')"
    "content (itable s' ip) (blk s') = take (unat off) (content (itable s ip) (blk s)) @ bs @ drop (unat off + length bs) (content (itable s ip) (blk s))"
    "\<forall>n. in_use s n \<and> n \<notin> own (itable s ip) (blk s) \<longrightarrow> blk s' n = blk s n" "card (pins s') \<le> card (pins s) + 6 * nblk (unat off) (length bs) + 1"
    by (rule writei_ok [OF assms refl refl]) blast
  let ?c = "content (itable s' ip) (blk s')"
  have mx: "MAXFILE * BSIZE = 274432" by (simp add: MAXFILE_def NINDIRECT_def NDIRECT_def BSIZE_def)
  have o: "unat off \<le> unat (i_size (itable s ip))" using assms(5) by (simp add: word_le_nat_alt)
  have ln: "unat off + length bs \<le> unat (i_size (itable s' ip))" using arg_cong [OF s'(4), of length] o by simp
  have un: "unat (of_nat (length bs) :: u32) = length bs" using assms(6) mx by (intro unat_of_nat32) simp
  have "card (pins s') < NBUF" using s'(6) assms(7) by (simp add: rooms_def NBUF_def LOGSIZE_def MAXOPBLOCKS_def)
  note rd = readi_ok [OF s'(2) assms(2) this s'(3)]
  have "take (length bs) (drop (unat off) ?c) = bs" using o by (simp add: s'(4))
  moreover have "off \<le> i_size (itable s' ip)" "unat off + unat (of_nat (length bs) :: u32) < 2 ^ 32"
    using ln un assms(6) mx by (auto simp: word_le_nat_alt)
  ultimately have "\<exists>s''. readi e ip False dst off (of_nat (length bs)) s' = Inr (of_nat (length bs), bs, s'')"
    using rd [of off "of_nat (length bs)" dst] un by auto
  moreover have "\<exists>s''. readi e ip False dst o' n' s' = (let r = take (unat n') (drop (unat o') ?c) in Inr (of_nat (length r), r, s'')) \<and> blk s'' = blk s'"
    if "o' \<le> i_size (itable s' ip) \<and> unat o' + unat n' < 2 ^ 32" for o' n' using rd [of o' n' dst] that unfolding Let_def by blast
  ultimately show ?thesis using s'(1,2,4,5) by blast
qed

theorem file_is_bytes_witness:
  "\<exists>s'. writei (1, id) 1 (KSrc (asc '' world'')) 5 6 kfs0 = Inr (6, s') \<and>
    content (itable s' 1) (blk s') = asc ''hello world'' \<and> (\<exists>s''. readi (1, id) 1 False 0 5 6 s' = Inr (6, asc '' world'', s''))"
proof -
  have l: "length (asc '' world'') = 6" "length (asc ''hello'') = 5" by (simp_all add: asc_def)
  have sz: "i_size (itable kfs0 1) = 5" "i_inum (itable kfs0 1) = 2" by (simp_all add: demo_inodes demo_inode_def demo_file_def)
  have "zbyte (itable kfs0 1) (blk kfs0) x = asc ''hello'' ! x" if "x < 5" for x
    using that demo_fblock [of "47 # replicate 12 0" "itable kfs0 1" "blk kfs0" 0]
    by (simp add: zbyte_def fmap_def demo_inodes demo_inode_def demo_file_def BSIZE_def kfs0_facts(4) demo_disk_def pad_def nth_append l)
  then have c: "content (itable kfs0 1) (blk kfs0) = asc ''hello''"
    by (intro nth_equalityI) (simp_all add: content_def zbytes_def sz l del: One_nat_def)
  have k: "nblk 5 6 = 1" by (simp add: nblk_def BSIZE_def)
  show ?thesis
    using file_is_bytes [of 0 1 kfs0 "(1, id)" 5 "asc '' world''" 0] demo_file_st [of 1] demo_file_full [of 1] rooms_mono [OF kfs0_facts(9), of 7]
    by (auto simp: l sz c k demo_sizes demo_nfree MAXFILE_def NINDIRECT_def NDIRECT_def BSIZE_def simp del: One_nat_def) (auto simp: asc_def)
qed

text \<open>C36: Inodes survive on disk. What \<^verbatim>\<open>iupdate\<close> writes for an inode is what \<^verbatim>\<open>ilock\<close> loads into a table entry that
  has been given to it, and the other inodes on disk are unchanged; \<^verbatim>\<open>ilock\<close> returns with the inode locked
  by the caller.\<close>

theorem iupdate_ilock:
  assumes "fsi {} s" "running s p" "0 < fst e" "i_dev (itable s ip) = ROOTDEV" "IBLOCK (i_inum (itable s ip)) (sb s) \<notin> log_area (log s)"
    and "length (i_addrs (itable s ip)) = 13" "i_type (itable s ip) \<noteq> 0" "rooms {} s 1"
    and "i_dev (itable s jp) = ROOTDEV" "i_inum (itable s jp) = i_inum (itable s ip)" "1 \<le> sint (i_ref (itable s jp))" "\<not> i_valid (itable s jp)"
    and "\<not> sl_locked (slock s ''inode'' jp)"
  shows "\<exists>s1 s2. iupdate e ip s = Inr s1 \<and> ilock e (Some jp) s1 = Inr s2 \<and> i_valid (itable s2 jp) \<and>
    dinode_of (itable s2 jp) = dinode_of (itable s ip) \<and> mine s2 ''inode'' jp \<and>
    (\<forall>n k. k < IPB \<and> (n, k) \<noteq> (IBLOCK (i_inum (itable s ip)) (sb s), ino_slot (i_inum (itable s ip))) \<longrightarrow>
      get_dinode k (blk s2 n) = get_dinode k (blk s n))"
proof -
  define ib where "ib = IBLOCK (i_inum (itable s ip)) (sb s)"
  let ?k = "ino_slot (i_inum (itable s ip))" and ?d = "dinode_of (itable s ip)"
  have n: "ib \<notin> log_area (log s) \<union> {}" using assms(5) by (simp add: ib_def)
  have k: "?k < IPB" by (simp add: IPB_def BSIZE_def)
  have l13: "length (d_addrs ?d) = 13" using assms(6) by (simp add: dinode_of_def)
  have r: "rooms {} s (Suc 0)" using assms(8) by simp
  obtain s1 where s1: "iupdate e ip s = Inr s1" "running s1 p" "fs_step {} s ((blk s)(ib := put_dinode ?k ?d (blk s ib))) (insert ib (pins s)) s1"
    using iupdate_ok [OF assms(1-4) ib_def n assms(6) r] by blast
  note d = fs_stepD [OF s1(3)] and l = lsame_fs [OF fs_stepD(2) [OF s1(3)]]
  have bl: "length (blk s ib) = BSIZE" using blk_length [OF fsiD(1) [OF assms(1)]] .
  have gd: "get_dinode ?k (blk s1 ib) = ?d" using get_put_dinode [OF l13 k bl] d(3) by simp
  have ib1: "ib = IBLOCK (i_inum (itable s1 jp)) (sb s1)" using assms(10) l by (simp add: ib_def)
  have "card (pins s1 \<union> {}) < NBUF" using rooms_use(2) [OF r] card_insert_Suc [of ib "pins s"] d(4) by (simp add: NBUF_def LOGSIZE_def MAXOPBLOCKS_def)
  then have "\<exists>s2. ilock e (Some jp) s1 = Inr s2 \<and>
      locked_inode {} jp (if i_valid (itable s1 jp) then itable s1 jp else loaded ?d (itable s1 jp)) s1 s2"
    using ilock_ok [OF d(1) s1(2) assms(3) _ ib1, of ?d] assms(7,9-13) l gd by (auto simp: dinode_of_def)
  then obtain s2 where s2: "ilock e (Some jp) s1 = Inr s2" "locked_inode {} jp (loaded ?d (itable s1 jp)) s1 s2" using assms(12) l by auto
  have i2: "itable s2 jp = loaded ?d (itable s1 jp)" "blk s2 = blk s1" "mine s2 ''inode'' jp" using s2(2) by (auto simp: locked_inode_def)
  have "get_dinode k (blk s2 n) = get_dinode k (blk s n)" if "k < IPB" "(n, k) \<noteq> (ib, ?k)" for n k
    using that get_put_dinode_other [OF l13 \<open>?k < IPB\<close> that(1) _ bl] i2(2) d(3) by (cases "n = ib") auto
  moreover have "i_valid (itable s2 jp)" "dinode_of (itable s2 jp) = ?d" using i2(1) by (simp_all add: loaded_def dinode_of_def)
  ultimately show ?thesis using s1(1) s2(1) i2(3) by (auto simp: ib_def)
qed

theorem iupdate_ilock_witness:
  "\<exists>s1 s2. iupdate (1, id) 1 (put_inode 5 ((demo_inode 2 demo_dir)\<lparr>i_valid := False\<rparr>) kfs0) = Inr s1 \<and> ilock (1, id) (Some 5) s1 = Inr s2 \<and>
    i_valid (itable s2 5) \<and> dinode_of (itable s2 5) = demo_file"
proof -
  let ?s = "put_inode 5 ((demo_inode 2 demo_dir)\<lparr>i_valid := False\<rparr>) kfs0"
  have f: "itable ?s 1 = demo_inode 2 demo_file" "itable ?s 5 = (demo_inode 2 demo_dir)\<lparr>i_valid := False\<rparr>" by (simp_all add: demo_inodes)
  have ib: "IBLOCK 2 (sb kfs0) = 32" by (simp add: IBLOCK_def kfs0_facts(5) IPB_def BSIZE_def) (simp add: kfs_raw_def)
  have sl: "\<not> sl_locked (slock kfs0 ''inode'' 5)" by (rule kfs0_inode_unlocked)
  have "dinode_of (itable ?s 1) = demo_file" by (simp add: demo_inodes dinode_of_def demo_inode_def)
  then show ?thesis
    using iupdate_ilock [of ?s 0 "(1, id)" 1 5] kfs0_facts(1,2) rooms_mono [OF kfs0_facts(9), of 1] demo_log_area [of 32] sl
    by (fastforce simp: f ib demo_inodes demo_inode_def demo_file_def demo_dir_def T_FILE_def)
qed

end
