(* ===== verification/Fsdir.thy ===== *)
theory Fsdir
  imports Fsdata
begin

text \<open>
  Directories: \<^verbatim>\<open>dirlookup\<close> and \<^verbatim>\<open>dirlink\<close> against a directory as a map from names to inode numbers,
  read off the content of the directory file; and path names, \<^verbatim>\<open>skipelem\<close> against splitting at slashes.
\<close>

section \<open>A directory as a map\<close>

definition ent :: "u8 list \<Rightarrow> nat \<Rightarrow> u8 list" where
  "ent c k = take 16 (drop (16 * k) c)"

text \<open>The name a \<open>DIRSIZ\<close>-byte array or a longer string stands for.\<close>

definition fname :: "u8 list \<Rightarrow> u8 list" where
  "fname name = take DIRSIZ (cstr name)"

definition is_ent :: "u8 list \<Rightarrow> u8 list \<Rightarrow> nat \<Rightarrow> bool" where
  "is_ent c nm k \<longleftrightarrow> de_inum (ent c k) \<noteq> 0 \<and> fname (de_name (ent c k)) = nm"

definition dir_slot :: "u8 list \<Rightarrow> u8 list \<Rightarrow> nat option" where
  "dir_slot c nm = find (is_ent c nm) [0..<length c div 16]"

definition dir_get :: "u8 list \<Rightarrow> u8 list \<Rightarrow> u16 option" where
  "dir_get c nm = map_option (\<lambda>k. de_inum (ent c k)) (dir_slot c nm)"

text \<open>A directory whose entries can be read.\<close>

definition dir_st :: "nat \<Rightarrow> nat \<Rightarrow> 'z kfs_scheme \<Rightarrow> bool" where
  "dir_st p dp s \<longleftrightarrow> file_st p dp s \<and> file_full (itable s dp) (blk s) \<and> 16 dvd unat (i_size (itable s dp)) \<and>
     i_type (itable s dp) = T_DIR \<and> card (pins s) < NBUF"

abbreviation dcon :: "nat \<Rightarrow> 'z kfs_scheme \<Rightarrow> u8 list" where
  "dcon dp s \<equiv> content (itable s dp) (blk s)"

lemma dir_stD:
  assumes "dir_st p dp s"
  shows "file_st p dp s" "file_full (itable s dp) (blk s)" "16 dvd unat (i_size (itable s dp))" "i_type (itable s dp) = T_DIR" "card (pins s) < NBUF"
    "length (dcon dp s) = 16 * (length (dcon dp s) div 16)" "length (dcon dp s) \<le> MAXFILE * BSIZE"
  using assms by (auto simp: dir_st_def file_full_def)

lemma dir_st_fchg: "dir_st p dp s \<Longrightarrow> fchg dp 0 0 s s' \<Longrightarrow> blk s' = blk s \<Longrightarrow> itable s' = itable s \<Longrightarrow> dir_st p dp s'"
  using fchg_st(1,7) by (fastforce simp: dir_st_def)

lemma read_ent:
  assumes d: "dir_st p dp s" and e: "0 < fst e" and k: "k < length (dcon dp s) div 16"
  shows "\<exists>s'. readi e dp False 0 (of_nat (16 * k)) 16 s = Inr (16, ent (dcon dp s) k, s') \<and> dir_st p dp s' \<and> fchg dp 0 0 s s' \<and> blk s' = blk s \<and> itable s' = itable s"
    and "length (ent (dcon dp s) k) = 16"
proof -
  note f = dir_stD [OF d]
  have mx: "MAXFILE * BSIZE = 274432" by (simp add: MAXFILE_def NINDIRECT_def NDIRECT_def BSIZE_def)
  have le: "16 * k + 16 \<le> length (dcon dp s)" using k f(6) by linarith
  show l: "length (ent (dcon dp s) k) = 16" using le by (simp add: ent_def)
  have u: "unat (of_nat (16 * k) :: u32) = 16 * k" using le f(7) mx by (intro unat_of_nat32) simp
  have "of_nat (16 * k) \<le> i_size (itable s dp)" "unat (of_nat (16 * k) :: u32) + unat (16 :: u32) < 2 ^ 32"
    using le u f(7) mx unfolding word_le_nat_alt by simp_all
  then obtain s' where "readi e dp False 0 (of_nat (16 * k)) 16 s = Inr (16, ent (dcon dp s) k, s')" "fchg dp 0 0 s s'" "blk s' = blk s" "itable s' = itable s"
    using readi_ok [OF f(1) e f(5,2), of "of_nat (16 * k)" 16 0] l unfolding u by (auto simp: ent_def)
  then show "\<exists>s'. readi e dp False 0 (of_nat (16 * k)) 16 s = Inr (16, ent (dcon dp s) k, s') \<and> dir_st p dp s' \<and> fchg dp 0 0 s s' \<and> blk s' = blk s \<and> itable s' = itable s"
    using dir_st_fchg [OF d] by blast
qed

lemma namecmp_fname:
  assumes "readable DIRSIZ name" "length de = 16"
  shows "\<exists>r. namecmp name (de_name de) = Inr r \<and> (r = 0 \<longleftrightarrow> fname (de_name de) = fname name)"
proof -
  have "readable DIRSIZ (de_name de)" using assms(2) by (simp add: readable_def de_name_def DIRSIZ_def)
  from strncmp_0_iff [OF assms(1) this] obtain r where "strncmp name (de_name de) DIRSIZ = Inr r"
    "r = 0 \<longleftrightarrow> take DIRSIZ (cstr name) = take DIRSIZ (cstr (de_name de))" by auto
  then show ?thesis by (auto simp: namecmp_def fname_def)
qed

text \<open>What \<^verbatim>\<open>dirlookup\<close> returns: the entry found, with the inode taken from the table.\<close>

definition found_ent :: "nat \<Rightarrow> u8 list \<Rightarrow> nat option \<Rightarrow> 'z kfs_scheme \<Rightarrow> ((nat \<times> u32) option \<times> 'z kfs_scheme) res" where
  "found_ent dp c r s = (case r of None \<Rightarrow> Inr (None, s)
     | Some k \<Rightarrow> bindE (iget ROOTDEV (ucast (de_inum (ent c k))) s) (\<lambda>(ip, s2). Inr (Some (ip, of_nat (16 * k)), s2)))"

lemma dirlookup_loop_ok:
  assumes "dir_st p dp s" "0 < fst e" "readable DIRSIZ name" "\<forall>k \<in> set ks. k < length (dcon dp s) div 16"
  shows "\<exists>s1. dirlookup_loop e dp name (map (\<lambda>k. 16 * k) ks) s = found_ent dp (dcon dp s) (find (is_ent (dcon dp s) (fname name)) ks) s1 \<and>
    dir_st p dp s1 \<and> fchg dp 0 0 s s1 \<and> blk s1 = blk s \<and> itable s1 = itable s"
  using assms
proof (induction ks arbitrary: s)
  case Nil
  then show ?case using fchg_refl by (auto simp: found_ent_def dir_st_def)
next
  case (Cons k ks)
  let ?c = "dcon dp s"
  have k: "k < length ?c div 16" using Cons.prems(4) by simp
  obtain s1 where 1: "readi e dp False 0 (of_nat (16 * k)) 16 s = Inr (16, ent ?c k, s1)" "dir_st p dp s1" "fchg dp 0 0 s s1" "blk s1 = blk s" "itable s1 = itable s"
    using read_ent(1) [OF Cons.prems(1,2) k] by blast
  obtain r where r: "namecmp name (de_name (ent ?c k)) = Inr r" "r = 0 \<longleftrightarrow> fname (de_name (ent ?c k)) = fname name"
    using namecmp_fname [OF Cons.prems(3) read_ent(2) [OF Cons.prems(1,2) k]] by blast
  have dev: "i_dev (itable s1 dp) = ROOTDEV" using file_stD(5) [OF dir_stD(1) [OF 1(2)]] .
  show ?case
  proof (cases "is_ent ?c (fname name) k")
    case True
    then have "dirlookup_loop e dp name (map (\<lambda>k. 16 * k) (k # ks)) s = found_ent dp ?c (Some k) s1"
      using 1(1) r dev by (simp add: found_ent_def is_ent_def)
    then show ?thesis using True 1(2-5) by auto
  next
    case False
    have "dirlookup_loop e dp name (map (\<lambda>k. 16 * k) (k # ks)) s = dirlookup_loop e dp name (map (\<lambda>k. 16 * k) ks) s1"
      using False 1(1) r by (auto simp: is_ent_def)
    moreover obtain s2 where "dirlookup_loop e dp name (map (\<lambda>k. 16 * k) ks) s1 = found_ent dp ?c (find (is_ent ?c (fname name)) ks) s2"
      "dir_st p dp s2" "fchg dp 0 0 s1 s2" "blk s2 = blk s" "itable s2 = itable s"
      using Cons.IH [of s1] Cons.prems(2-4) 1(2,4,5) by auto
    ultimately show ?thesis using False fchg_trans [OF 1(3), of 0 0 s2] by auto
  qed
qed

lemma dir_offs: "dir_st p dp s \<Longrightarrow> dirent_offs (i_size (itable s dp)) = map (\<lambda>k. 16 * k) [0..<length (dcon dp s) div 16]"
proof -
  assume "dir_st p dp s"
  then obtain k where "unat (i_size (itable s dp)) = 16 * k" using dir_stD(3) by blast
  then show ?thesis by (simp add: dirent_offs_def)
qed

lemma dirlookup_ok:
  assumes "dir_st p dp s" "0 < fst e" "readable DIRSIZ name"
  shows "\<exists>s1. dirlookup e dp name s = found_ent dp (dcon dp s) (dir_slot (dcon dp s) (fname name)) s1 \<and>
    dir_st p dp s1 \<and> fchg dp 0 0 s s1 \<and> blk s1 = blk s \<and> itable s1 = itable s"
  using dirlookup_loop_ok [OF assms, of "[0..<length (dcon dp s) div 16]"] dir_stD(4) [OF assms(1)] dir_offs [OF assms(1)]
  by (simp add: dirlookup_def dir_slot_def)

section \<open>\<^verbatim>\<open>dirlink\<close>\<close>

definition free_slot :: "u8 list \<Rightarrow> nat" where
  "free_slot c = (case find (\<lambda>k. de_inum (ent c k) = 0) [0..<length c div 16] of None \<Rightarrow> length c div 16 | Some k \<Rightarrow> k)"

lemma dirlink_loop_ok:
  assumes "dir_st p dp s" "0 < fst e" "\<forall>k \<in> set ks. k < length (dcon dp s) div 16"
  shows "\<exists>s1. dirlink_loop e dp stop (map (\<lambda>k. 16 * k) ks) s =
      Inr (case find (\<lambda>k. de_inum (ent (dcon dp s) k) = 0) ks of None \<Rightarrow> stop | Some k \<Rightarrow> 16 * k, s1) \<and>
    dir_st p dp s1 \<and> fchg dp 0 0 s s1 \<and> blk s1 = blk s \<and> itable s1 = itable s"
  using assms
proof (induction ks arbitrary: s)
  case Nil
  then show ?case using fchg_refl by (auto simp: dir_st_def)
next
  case (Cons k ks)
  let ?c = "dcon dp s"
  have k: "k < length ?c div 16" using Cons.prems(3) by simp
  obtain s1 where 1: "readi e dp False 0 (of_nat (16 * k)) 16 s = Inr (16, ent ?c k, s1)" "dir_st p dp s1" "fchg dp 0 0 s s1" "blk s1 = blk s" "itable s1 = itable s"
    using read_ent(1) [OF Cons.prems(1,2) k] by blast
  show ?case
  proof (cases "de_inum (ent ?c k) = 0")
    case True
    then show ?thesis using 1 by auto
  next
    case False
    obtain s2 where "dirlink_loop e dp stop (map (\<lambda>k. 16 * k) ks) s1 = Inr (case find (\<lambda>k. de_inum (ent ?c k) = 0) ks of None \<Rightarrow> stop | Some k \<Rightarrow> 16 * k, s2)"
      "dir_st p dp s2" "fchg dp 0 0 s1 s2" "blk s2 = blk s" "itable s2 = itable s"
      using Cons.IH [of s1] Cons.prems(2,3) 1(2,4,5) by auto
    then show ?thesis using 1(1) False fchg_trans [OF 1(3), of 0 0 s2] by auto
  qed
qed

lemma free_slot_facts:
  "free_slot c \<le> length c div 16" "free_slot c < length c div 16 \<Longrightarrow> de_inum (ent c (free_slot c)) = 0"
proof -
  have "find (\<lambda>k. de_inum (ent c k) = 0) [0..<length c div 16] = Some k \<Longrightarrow> k < length c div 16 \<and> de_inum (ent c k) = 0" for k
    by (auto simp: find_Some_iff)
  then show "free_slot c \<le> length c div 16" "free_slot c < length c div 16 \<Longrightarrow> de_inum (ent c (free_slot c)) = 0"
    unfolding free_slot_def by (cases "find (\<lambda>k. de_inum (ent c k) = 0) [0..<length c div 16]"; fastforce)+
qed

text \<open>An entry stored over a free one, or appended.\<close>

lemma ent_stored:
  assumes c: "length c = 16 * N" "f \<le> N" "length de = 16" and c': "c' = take (16 * f) c @ de @ drop (16 * f + 16) c"
  shows "length c' = 16 * max N (Suc f)" "ent c' f = de" "k \<noteq> f \<Longrightarrow> k < N \<Longrightarrow> ent c' k = ent c k"
proof -
  show "length c' = 16 * max N (Suc f)" using c by (simp add: c' max_def)
  show "ent c' f = de" using c by (simp add: ent_def c')
  show "ent c' k = ent c k" if "k \<noteq> f" "k < N"
  proof (cases "k < f")
    case True
    then have "16 * k + 16 \<le> 16 * f" by simp
    then show ?thesis using c by (intro nth_equalityI) (auto simp: ent_def c' nth_append)
  next
    case False
    then have "16 * f + 16 \<le> 16 * k" using that by simp
    then show ?thesis using c that by (intro nth_equalityI) (auto simp: ent_def c' nth_append)
  qed
qed

lemma dir_get_stored:
  assumes c: "length c = 16 * N" "f = free_slot c" "length de = 16" and c': "c' = take (16 * f) c @ de @ drop (16 * f + 16) c"
    and de: "de_inum de \<noteq> 0" and no: "dir_get c (fname (de_name de)) = None"
  shows "dir_get c' nm = (if nm = fname (de_name de) then Some (de_inum de) else dir_get c nm)"
proof -
  have N: "length c div 16 = N" using c(1) by simp
  have f: "f \<le> N" "f < N \<Longrightarrow> de_inum (ent c f) = 0" using free_slot_facts [of c] c(2) N by auto
  note e = ent_stored [OF c(1) f(1) c(3) c']
  have N': "length c' div 16 = max N (Suc f)" using e(1) by simp
  have old: "\<not> is_ent c (fname (de_name de)) k" if "k < N" for k using no that N by (auto simp: dir_get_def dir_slot_def find_None_iff)
  have new: "is_ent c' nm k \<longleftrightarrow> (if k = f then nm = fname (de_name de) else is_ent c nm k)" if "k < max N (Suc f)" for k nm
  proof (cases "k = f")
    case False
    then have "k < N" using that f(1) by auto
    then show ?thesis using e(3) [OF False] False by (simp add: is_ent_def)
  qed (use e(2) de in \<open>auto simp: is_ent_def\<close>)
  show ?thesis
  proof (cases "nm = fname (de_name de)")
    case True
    have "find (is_ent c' nm) [0..<max N (Suc f)] = Some f"
      using new old True f(1) by (intro find_upt) auto
    then show ?thesis using True e(2) by (simp add: dir_get_def dir_slot_def N')
  next
    case False
    have nf: "\<not> is_ent c' nm f" using new False by simp
    have same: "is_ent c' nm k = is_ent c nm k" if "k < N" for k using new [of k nm] that f False by (auto simp: is_ent_def)
    have fe: "find (is_ent c' nm) [0..<N] = find (is_ent c nm) [0..<N]" by (rule find_cong) (use same in auto)
    have app: "find P (xs @ [x]) = (case find P xs of None \<Rightarrow> if P x then Some x else None | Some y \<Rightarrow> Some y)" for P and xs :: "nat list" and x
      by (induction xs) auto
    have "find (is_ent c' nm) [0..<max N (Suc f)] = find (is_ent c nm) [0..<N]"
    proof (cases "f < N")
      case True
      then have "max N (Suc f) = N" by simp
      then show ?thesis using fe by simp
    next
      case False
      then show ?thesis using f(1) nf fe app [of "is_ent c' nm" "[0..<N]" N] by (simp add: max_def split: option.split)
    qed
    moreover have "ent c' k = ent c k" if "find (is_ent c nm) [0..<N] = Some k" for k
    proof -
      have "k < N" "is_ent c nm k" using that by (auto simp: find_Some_iff)
      then show ?thesis using e(3) [of k] f(2) by (auto simp: is_ent_def)
    qed
    ultimately show ?thesis using False by (cases "find (is_ent c nm) [0..<N]") (simp_all add: dir_get_def dir_slot_def N N')
  qed
qed

lemma new_dirent:
  assumes "readable DIRSIZ name"
  obtains nm where "strncpy (replicate DIRSIZ 0) name DIRSIZ = Inr nm" "length nm = DIRSIZ" "fname nm = fname name"
    "length (le16 x @ nm) = 16" "de_inum (le16 x @ nm) = x" "de_name (le16 x @ nm) = nm"
proof -
  let ?nm = "take DIRSIZ (cstr name) @ replicate (DIRSIZ - length (cstr name)) 0"
  have s: "strncpy (replicate DIRSIZ 0) name DIRSIZ = Inr ?nm" using strncpy_eq [OF _ assms, of "replicate DIRSIZ 0"] by simp
  have l: "length ?nm = DIRSIZ" by simp
  have "0 \<notin> set (take DIRSIZ (cstr name))" by (auto simp: cstr_def dest: in_set_takeD set_takeWhileD)
  then have "fname ?nm = fname name" using cstr_take_NUL [of "take DIRSIZ (cstr name)" "DIRSIZ - length (cstr name)" "[]"]
    by (auto simp: fname_def)
  then show thesis using that [OF s l] by (simp add: de_inum_def de_name_def get16_def get_bytes_def DIRSIZ_def)
qed

lemma nblk_ent: "nblk (16 * f) 16 = 1"
proof -
  have "16 * f mod BSIZE = 16 * (f mod 64)" by (simp add: BSIZE_def mult_mod_right)
  moreover have "f mod 64 < 64" by simp
  ultimately have "16 * f mod BSIZE + 16 + BSIZE - 1 < 2 * BSIZE" "BSIZE \<le> 16 * f mod BSIZE + 16 + BSIZE - 1" by (auto simp: BSIZE_def)
  then show ?thesis by (simp add: nblk_def div_nat_eqI)
qed

lemma dirlink_ok:
  assumes d: "dir_st p dp s" and e: "0 < fst e" and nm: "readable DIRSIZ name" and no: "dir_get (dcon dp s) (fname name) = None"
    and i: "(ucast inum :: u16) \<noteq> 0" "i_inum (itable s dp) < sb_ninodes (sb s)" and sz: "length (dcon dp s) + 16 \<le> MAXFILE * BSIZE"
    and sp: "rooms {} s 7" "2 \<le> nfree s"
  obtains s' where "dirlink e dp name inum s = Inr (0, s')" "dir_st p dp s'"
    "\<forall>m. dir_get (dcon dp s') m = (if m = fname name then Some (ucast inum) else dir_get (dcon dp s) m)"
    "\<forall>n. in_use s n \<and> n \<notin> own (itable s dp) (blk s) \<longrightarrow> blk s' n = blk s n" "\<forall>jp. jp \<noteq> dp \<longrightarrow> itable s' jp = itable s jp"
proof -
  let ?c = "dcon dp s" and ?f = "free_slot (dcon dp s)" and ?N = "length (dcon dp s) div 16"
  have sl: "dir_slot ?c (fname name) = None" using no by (simp add: dir_get_def)
  obtain s1 where 1: "dirlookup e dp name s = Inr (None, s1)" "dir_st p dp s1" "fchg dp 0 0 s s1" "blk s1 = blk s" "itable s1 = itable s"
    using dirlookup_ok [OF d e nm] sl by (auto simp: found_ent_def)
  obtain s2 where 2: "dirlink_loop e dp (16 * ?N) (map (\<lambda>k. 16 * k) [0..<?N]) s1 = Inr (16 * ?f, s2)" "dir_st p dp s2" "fchg dp 0 0 s1 s2"
    "blk s2 = blk s" "itable s2 = itable s"
    using dirlink_loop_ok [OF 1(2) e, of "[0..<?N]" "16 * ?N"] 1(4,5) by (auto simp: free_slot_def split: option.splits)
  have ch: "fchg dp 0 0 s s2" using fchg_trans [OF 1(3) 2(3)] by simp
  note c2 = fchg_st [OF ch dir_stD(1) [OF d]]
  obtain n where n: "strncpy (replicate DIRSIZ 0) name DIRSIZ = Inr n" "length n = DIRSIZ" "fname n = fname name"
    "length (le16 (ucast inum) @ n) = 16" "de_inum (le16 (ucast inum) @ n) = ucast inum" "de_name (le16 (ucast inum) @ n) = n"
    using new_dirent [OF nm] .
  let ?de = "le16 (ucast inum) @ n"
  have mx: "MAXFILE * BSIZE = 274432" by (simp add: MAXFILE_def NINDIRECT_def NDIRECT_def BSIZE_def)
  have f: "?f \<le> ?N" by (rule free_slot_facts)
  have le: "16 * ?f \<le> length ?c" using f dir_stD(6) [OF d] by linarith
  have u: "unat (of_nat (16 * ?f) :: u32) = 16 * ?f" using le sz mx by (intro unat_of_nat32) simp
  have pre: "i_inum (itable s2 dp) < sb_ninodes (sb s2)" "of_nat (16 * ?f) \<le> i_size (itable s2 dp)"
    "unat (of_nat (16 * ?f) :: u32) + length ?de \<le> MAXFILE * BSIZE" "rooms {} s2 (6 * nblk (unat (of_nat (16 * ?f) :: u32)) (length ?de) + 1)"
    "2 * nblk (unat (of_nat (16 * ?f) :: u32)) (length ?de) \<le> nfree s2"
    using i(2) c2(4,5,7,8) le sz sp unfolding u n(4) nblk_ent word_le_nat_alt by (auto simp: u 2(5) rooms_def)
  obtain s3 where 3: "writei e dp (KSrc ?de) (of_nat (16 * ?f)) (of_nat (length ?de)) s2 = Inr (of_nat (length ?de), s3)" "file_st p dp s3"
    "file_full (itable s3 dp) (blk s3)"
    "dcon dp s3 = take (unat (of_nat (16 * ?f) :: u32)) (dcon dp s2) @ ?de @ drop (unat (of_nat (16 * ?f) :: u32) + length ?de) (dcon dp s2)"
    "\<forall>n. in_use s2 n \<and> n \<notin> own (itable s2 dp) (blk s2) \<longrightarrow> blk s3 n = blk s2 n"
    "\<exists>ad. itable s3 = (itable s2)(dp := (itable s2 dp)\<lparr>i_addrs := ad, i_size := of_nat (max (unat (i_size (itable s2 dp))) (unat (of_nat (16 * ?f) :: u32) + length ?de))\<rparr>)"
    "card (pins s3) \<le> card (pins s2) + 6 * nblk (unat (of_nat (16 * ?f) :: u32)) (length ?de) + 1"
    by (rule writei_ok [OF dir_stD(1) [OF 2(2)] e dir_stD(2) [OF 2(2)] pre refl refl]) blast
  have c': "dcon dp s3 = take (16 * ?f) ?c @ ?de @ drop (16 * ?f + 16) ?c" using 3(4) unfolding u n(4) 2(4,5) .
  have len: "length ?c = 16 * ?N" using dir_stD(6) [OF d] .
  have r: "dirlink e dp name inum s = Inr (0, s3)"
    using 1(1) dir_offs [OF 1(2)] 1(4,5) 2(1) n(1,4) 3(1) by (simp add: dirlink_def Let_def)
  have "length (dcon dp s3) = 16 * max ?N (Suc ?f)" by (rule ent_stored(1) [OF len f n(4) c'])
  moreover have "card (pins s3) < NBUF" using 3(7) c2(7) sp(1) unfolding u n(4) nblk_ent by (simp add: rooms_def NBUF_def LOGSIZE_def MAXOPBLOCKS_def)
  moreover have "i_type (itable s3 dp) = T_DIR" using 3(6) dir_stD(4) [OF 2(2)] by auto
  ultimately have "dir_st p dp s3" using 3(2,3) by (simp add: dir_st_def)
  moreover have "dir_get (dcon dp s3) m = (if m = fname name then Some (ucast inum) else dir_get ?c m)" for m
    using dir_get_stored [OF len refl n(4) c', of m] n(3,5,6) no i(1) by simp
  moreover have "in_use s2 x" if "in_use s x" for x using ch that unfolding fchg_def by blast
  ultimately show thesis using that [OF r] 3(5,6) 2(4,5) by auto
qed

section \<open>Path names\<close>

text \<open>The elements of a path: its maximal parts without slashes.\<close>

function path_elems :: "u8 list \<Rightarrow> u8 list list" where
  "path_elems p = (let q = dropWhile (\<lambda>c. c = slash) p in
     if q = [] then [] else takeWhile (\<lambda>c. c \<noteq> slash) q # path_elems (dropWhile (\<lambda>c. c \<noteq> slash) q))"
  by pat_completeness auto
termination
proof (relation "measure length")
  fix p q :: "u8 list" assume q: "q = dropWhile (\<lambda>c. c = slash) p" "q \<noteq> []"
  then have "hd q \<noteq> slash" using hd_dropWhile [of "\<lambda>c. c = slash" p] by auto
  then have "length (dropWhile (\<lambda>c. c \<noteq> slash) q) < length q" using q(2) by (cases q) (auto simp: le_imp_less_Suc length_dropWhile_le)
  also have "\<dots> \<le> length p" using q(1) by (simp add: length_dropWhile_le)
  finally show "(dropWhile (\<lambda>c. c \<noteq> slash) q, p) \<in> measure length" by simp
qed simp

declare path_elems.simps [simp del]

lemma path_elems_skip [simp]: "path_elems (dropWhile (\<lambda>c. c = slash) p) = path_elems p"
  by (subst path_elems.simps, subst (2) path_elems.simps) simp

lemma skip_slashes_eq: "skip_slashes (cs @ 0 # t) = Inr (dropWhile (\<lambda>c. c = slash) cs @ 0 # t)"
  by (induction cs) auto

lemma elem_len_eq: "0 \<notin> set cs \<Longrightarrow> elem_len (cs @ 0 # t) = Inr (length (takeWhile (\<lambda>c. c \<noteq> slash) cs))"
  by (induction cs) auto

lemma fname_elem:
  assumes "length name = DIRSIZ" "0 \<notin> set x" "length x = len"
  shows "length (if DIRSIZ \<le> len then take DIRSIZ (x @ r) else (put_bytes 0 (take len (x @ r)) name)[len := 0]) = DIRSIZ \<and>
    fname (if DIRSIZ \<le> len then take DIRSIZ (x @ r) else (put_bytes 0 (take len (x @ r)) name)[len := 0]) = take DIRSIZ x"
proof (cases "DIRSIZ \<le> len")
  case True
  have "0 \<notin> set (take DIRSIZ x)" using assms(2) by (metis in_set_takeD)
  then have "cstr (take DIRSIZ x) = take DIRSIZ x" unfolding cstr_def by (subst takeWhile_eq_all_conv) metis
  then show ?thesis using True assms by (simp add: fname_def)
next
  case False
  have "(put_bytes 0 (take len (x @ r)) name)[len := 0] = x @ 0 # drop (Suc len) name"
    using False assms by (simp add: put_bytes_def list_update_append Cons_nth_drop_Suc [symmetric])
  moreover have "cstr (x @ 0 # drop (Suc len) name) = x" using cstr_take_NUL [OF assms(2), of 1 "drop (Suc len) name"] by simp
  ultimately show ?thesis using False assms by (simp add: fname_def)
qed

lemma skipelem_ok:
  assumes "0 \<notin> set cs" "length name = DIRSIZ"
  shows "path_elems cs = [] \<Longrightarrow> skipelem (cs @ 0 # t) name = Inr None"
    and "path_elems cs = x # xs \<Longrightarrow> \<exists>cs' nm. skipelem (cs @ 0 # t) name = Inr (Some (cs' @ 0 # t, nm)) \<and> path_elems cs' = xs \<and>
      fname nm = take DIRSIZ x \<and> length nm = DIRSIZ \<and> (hd (cs' @ [0]) = 0 \<longleftrightarrow> xs = []) \<and> length cs' < length cs \<and> 0 \<notin> set cs'"
proof -
  define q where "q = dropWhile (\<lambda>c. c = slash) cs"
  have pe: "path_elems cs = (if q = [] then [] else takeWhile (\<lambda>c. c \<noteq> slash) q # path_elems (dropWhile (\<lambda>c. c \<noteq> slash) q))"
    by (subst path_elems.simps) (simp add: q_def Let_def)
  have q0: "0 \<notin> set q" using assms(1) set_dropWhileD [of 0 "\<lambda>c. c = slash" cs] by (auto simp: q_def)
  show "path_elems cs = [] \<Longrightarrow> skipelem (cs @ 0 # t) name = Inr None"
    using pe by (auto simp: skipelem_def skip_slashes_eq simp flip: q_def split: if_splits)
  assume e: "path_elems cs = x # xs"
  then have qn: "q \<noteq> []" and x: "x = takeWhile (\<lambda>c. c \<noteq> slash) q" and xs: "xs = path_elems (dropWhile (\<lambda>c. c \<noteq> slash) q)"
    using pe by (auto split: if_splits)
  define r where "r = dropWhile (\<lambda>c. c \<noteq> slash) q"
  define cs' where "cs' = dropWhile (\<lambda>c. c = slash) r"
  let ?len = "length x"
  let ?nm = "if DIRSIZ \<le> ?len then take DIRSIZ (x @ r @ 0 # t) else (put_bytes 0 (take ?len (x @ r @ 0 # t)) name)[?len := 0]"
  have qx: "q = x @ r" by (simp add: x r_def)
  have "hd q \<in> set q" using qn by simp
  then have hq: "hd q \<noteq> slash" "hd q \<noteq> 0" using hd_dropWhile [of "\<lambda>c. c = slash" cs] qn q0 unfolding q_def by metis+
  have x0: "0 \<notin> set x" "0 \<notin> set r" using q0 qx by auto
  have lx: "0 < ?len" using hq(1) qn x by (cases q) auto
  have el: "elem_len (q @ 0 # t) = Inr ?len" using elem_len_eq [OF q0] x by simp
  have dr: "drop ?len (q @ 0 # t) = r @ 0 # t" by (simp add: qx)
  have hd: "hd (q @ 0 # t) \<noteq> 0" using hq(2) qn by simp
  have "skipelem (cs @ 0 # t) name = Inr (Some (cs' @ 0 # t, ?nm))"
    using hd el dr skip_slashes_eq [of r t] unfolding cs'_def by (simp add: skipelem_def skip_slashes_eq qx [symmetric] Let_def flip: q_def append_assoc)
  moreover have "path_elems cs' = xs" using xs by (simp add: r_def cs'_def)
  moreover have "length cs' < length cs"
  proof -
    have "length cs' \<le> length r" by (simp add: cs'_def length_dropWhile_le)
    also have "\<dots> < length q" using lx qx by simp
    also have "\<dots> \<le> length cs" by (simp add: q_def length_dropWhile_le)
    finally show ?thesis .
  qed
  moreover have "0 \<notin> set cs'" using x0(2) set_dropWhileD unfolding cs'_def by fastforce
  moreover have "hd (cs' @ [0]) = 0 \<longleftrightarrow> xs = []"
  proof (cases "cs' = []")
    case True
    then show ?thesis using \<open>path_elems cs' = xs\<close> path_elems.simps [of "[]"] by simp
  next
    case False
    then have "hd cs' \<noteq> 0" using \<open>0 \<notin> set cs'\<close> by (cases cs') auto
    moreover have "xs \<noteq> []" using \<open>path_elems cs' = xs\<close> False path_elems.simps [of r] unfolding cs'_def by (auto simp: Let_def split: if_splits)
    ultimately show ?thesis using False by simp
  qed
  ultimately show "\<exists>cs' nm. skipelem (cs @ 0 # t) name = Inr (Some (cs' @ 0 # t, nm)) \<and> path_elems cs' = xs \<and>
      fname nm = take DIRSIZ x \<and> length nm = DIRSIZ \<and> (hd (cs' @ [0]) = 0 \<longleftrightarrow> xs = []) \<and> length cs' < length cs \<and> 0 \<notin> set cs'"
    using fname_elem [OF assms(2) x0(1) refl, of "r @ 0 # t"] by blast
qed

section \<open>Properties\<close>

text \<open>C4: Directories are maps from names to inode numbers. For a name that is not in the directory, \<^verbatim>\<open>dirlink\<close> returns 0
  and adds exactly this entry; all other names keep theirs, and blocks outside the directory and other
  inodes are untouched. \<^verbatim>\<open>dirlookup\<close> of any name then gives the inode the map has for it.\<close>

theorem dirlink_dirlookup:
  assumes "dir_st p dp s" "0 < fst e" "readable DIRSIZ name" "dir_get (dcon dp s) (fname name) = None"
    and "(ucast inum :: u16) \<noteq> 0" "i_inum (itable s dp) < sb_ninodes (sb s)" "length (dcon dp s) + 16 \<le> MAXFILE * BSIZE"
    and "rooms {} s 7" "2 \<le> nfree s"
  shows "\<exists>s'. dirlink e dp name inum s = Inr (0, s') \<and>
    (\<forall>m. dir_get (dcon dp s') m = (if m = fname name then Some (ucast inum) else dir_get (dcon dp s) m)) \<and>
    (\<forall>n. in_use s n \<and> n \<notin> own (itable s dp) (blk s) \<longrightarrow> blk s' n = blk s n) \<and> (\<forall>jp. jp \<noteq> dp \<longrightarrow> itable s' jp = itable s jp) \<and>
    (\<forall>nm. readable DIRSIZ nm \<longrightarrow> (\<exists>s1 off. blk s1 = blk s' \<and> itable s1 = itable s' \<and>
      dirlookup e dp nm s' = (case dir_get (dcon dp s') (fname nm) of None \<Rightarrow> Inr (None, s1)
        | Some i \<Rightarrow> bindE (iget ROOTDEV (ucast i) s1) (\<lambda>(ip, s2). Inr (Some (ip, off), s2)))))"
proof -
  obtain s' where s': "dirlink e dp name inum s = Inr (0, s')" "dir_st p dp s'"
    "\<forall>m. dir_get (dcon dp s') m = (if m = fname name then Some (ucast inum) else dir_get (dcon dp s) m)"
    "\<forall>n. in_use s n \<and> n \<notin> own (itable s dp) (blk s) \<longrightarrow> blk s' n = blk s n" "\<forall>jp. jp \<noteq> dp \<longrightarrow> itable s' jp = itable s jp"
    using dirlink_ok [OF assms] .
  have "\<exists>s1 off. blk s1 = blk s' \<and> itable s1 = itable s' \<and> dirlookup e dp nm s' = (case dir_get (dcon dp s') (fname nm) of None \<Rightarrow> Inr (None, s1)
      | Some i \<Rightarrow> bindE (iget ROOTDEV (ucast i) s1) (\<lambda>(ip, s2). Inr (Some (ip, off), s2)))" if nm: "readable DIRSIZ nm" for nm
  proof -
    obtain s1 where s1: "dirlookup e dp nm s' = found_ent dp (dcon dp s') (dir_slot (dcon dp s') (fname nm)) s1" "blk s1 = blk s'" "itable s1 = itable s'"
      using dirlookup_ok [OF s'(2) assms(2) nm] by blast
    show ?thesis
    proof (cases "dir_slot (dcon dp s') (fname nm)")
      case None
      then show ?thesis using s1 by (auto simp: found_ent_def dir_get_def)
    next
      case (Some k)
      then show ?thesis using s1 by (intro exI [of _ s1] exI [of _ "of_nat (16 * k)"]) (simp add: found_ent_def dir_get_def)
    qed
  qed
  then show ?thesis using s'(1,3-5) by blast
qed

lemma demo_content: "dcon 0 kfs0 = demo_dirent 1 ''.'' @ demo_dirent 1 ''..'' @ demo_dirent 2 ''a''"
proof -
  let ?c = "demo_dirent 1 ''.'' @ demo_dirent 1 ''..'' @ demo_dirent 2 ''a''"
  have l: "length ?c = 48" by (simp add: demo_dirent_def asc_def DIRSIZ_def)
  have sz: "i_size (itable kfs0 0) = 48" by (simp add: demo_inodes demo_inode_def demo_dir_def)
  have "zbyte (itable kfs0 0) (blk kfs0) x = ?c ! x" if "x < 48" for x
  proof -
    have "fblock (itable kfs0 0) (blk kfs0) 0 = 46" using demo_fblock [of "46 # replicate 12 0" "itable kfs0 0" "blk kfs0" 0]
      by (simp add: demo_inodes demo_inode_def demo_dir_def)
    moreover have "demo_disk 46 = pad ?c" by (simp add: demo_disk_def)
    ultimately show ?thesis using that l by (simp add: zbyte_def fmap_def BSIZE_def kfs0_facts(4) pad_def nth_append del: append_assoc)
  qed
  then show ?thesis using l sz by (intro nth_equalityI) (simp_all add: content_def zbytes_def)
qed

theorem dirlink_dirlookup_witness:
  "\<exists>s'. dirlink (1, id) 0 (asc ''new'' @ [0]) 7 kfs0 = Inr (0, s') \<and> dir_get (dcon 0 s') (asc ''new'') = Some 7 \<and> dir_get (dcon 0 s') (asc ''a'') = Some 2"
proof -
  have sz: "i_size (itable kfs0 0) = 48" "i_type (itable kfs0 0) = T_DIR" "i_inum (itable kfs0 0) = 1"
    by (simp_all add: demo_inodes demo_inode_def demo_dir_def)
  have d: "dir_st 0 0 kfs0" using demo_file_st [of 0] demo_file_full [of 0] kfs0_facts(3) sz by (simp add: dir_st_def NBUF_def MAXOPBLOCKS_def)
  have fn: "fname (asc ''new'' @ [0]) = asc ''new''" by (simp add: fname_def cstr_def asc_def DIRSIZ_def)
  have e: "ent (dcon 0 kfs0) 0 = demo_dirent 1 ''.''" "ent (dcon 0 kfs0) 1 = demo_dirent 1 ''..''" "ent (dcon 0 kfs0) 2 = demo_dirent 2 ''a''"
    by (simp_all add: ent_def demo_content demo_dirent_def asc_def DIRSIZ_def)
  have l: "length (dcon 0 kfs0) = 48" by (simp add: sz)
  have s3: "[0..<48 div 16] = [0, 1, 2 :: nat]" by (simp add: upt_rec)
  have a: "dir_get (dcon 0 kfs0) (asc ''new'') = None" "dir_get (dcon 0 kfs0) (asc ''a'') = Some 2"
    unfolding dir_get_def dir_slot_def l s3
    by (simp_all add: is_ent_def e [unfolded One_nat_def]) (simp_all add: e is_ent_def demo_dirent_def de_inum_def de_name_def get16_def get_bytes_def fname_def cstr_def asc_def DIRSIZ_def)
  show ?thesis
    using dirlink_dirlookup [of 0 0 kfs0 "(1, id)" "asc ''new'' @ [0]" 7] d a rooms_mono [OF kfs0_facts(9), of 7]
    by (auto simp: fn readable_def sz demo_sizes demo_nfree MAXFILE_def NINDIRECT_def NDIRECT_def BSIZE_def)
qed

text \<open>C37: Path names. \<^verbatim>\<open>skipelem\<close> splits a NUL-terminated path at its slashes: it returns null exactly if no element
  is left; otherwise it stores the first element, cut to \<open>DIRSIZ\<close> bytes, and returns a shorter path with
  the remaining elements, empty exactly if there are none.\<close>

theorem skipelem_splits:
  assumes "0 \<notin> set cs" "length name = DIRSIZ"
  shows "case path_elems cs of [] \<Rightarrow> skipelem (cs @ 0 # t) name = Inr None
    | x # xs \<Rightarrow> \<exists>cs' nm. skipelem (cs @ 0 # t) name = Inr (Some (cs' @ 0 # t, nm)) \<and> path_elems cs' = xs \<and>
        fname nm = take DIRSIZ x \<and> length nm = DIRSIZ \<and> (hd (cs' @ [0]) = 0 \<longleftrightarrow> xs = []) \<and> length cs' < length cs"
proof (cases "path_elems cs")
  case Nil
  then show ?thesis using skipelem_ok(1) [OF assms] by simp
next
  case (Cons x xs)
  then show ?thesis using skipelem_ok(2) [OF assms Cons, of t] by auto
qed

theorem skipelem_splits_witness:
  "\<exists>cs' nm. skipelem (asc ''//a//bb'' @ 0 # []) (replicate 14 1) = Inr (Some (cs' @ 0 # [], nm)) \<and> path_elems cs' = [asc ''bb''] \<and> fname nm = asc ''a''"
proof -
  have "path_elems (asc ''//a//bb'') = [asc ''a'', asc ''bb'']" by (simp add: path_elems.simps asc_def Let_def)
  then show ?thesis using skipelem_splits [of "asc ''//a//bb''" "replicate 14 1" "[]"] by (auto simp: asc_def DIRSIZ_def)
qed

end
