(* ===== verification/Console.thy ===== *)
theory Console
  imports Fs
begin

text \<open>
  The serial line and the console: \<^verbatim>\<open>kernel/uart.c\<close> and \<^verbatim>\<open>kernel/console.c\<close> (the polled output is in
  \<open>Printf\<close>). Output of \<^verbatim>\<open>write\<close> goes through the ring \<^verbatim>\<open>uart_tx_buf\<close>, which \<^verbatim>\<open>uartstart\<close> drains while the
  transmitter is idle; typed characters go through the line editor \<^verbatim>\<open>consoleintr\<close> into the ring
  \<^verbatim>\<open>cons.buf\<close>, from which \<^verbatim>\<open>consoleread\<close> takes whole lines.

  The device is the part of the state \<open>Printf\<close> has (\<open>tx_idle\<close>: the values the next reads of
  \<^verbatim>\<open>LSR_TX_IDLE\<close> give, \<open>u_in\<close>: bytes received, \<open>u_out\<close>: bytes written to THR); \<open>uart_regs\<close> lists the
  writes to the other registers. The lemmas show that the transmit ring is a \<open>bounded_fifo\<close>
  whose content follows what was sent, and that the input buffer refines a line editor on lists.
\<close>

section \<open>Definitions\<close>

definition UART_TX_BUF_SIZE :: nat where "UART_TX_BUF_SIZE = 32"
definition INPUT_BUF_SIZE :: nat where "INPUT_BUF_SIZE = 128"

record uartbuf =
  uart_tx_buf :: "u8 list"
  uart_tx_w :: u64
  uart_tx_r :: u64

record consbuf =
  cn_buf :: "u8 list"
  cn_r :: u32
  cn_w :: u32
  cn_e :: u32

text \<open>The functions a device switch entry may point to.\<close>

datatype devread = D_consoleread
datatype devwrite = D_consolewrite

record devsw_ent =
  dv_read :: "devread option"
  dv_write :: "devwrite option"

definition CONSOLE :: nat where "CONSOLE = 1"

record kcons = kfs +
  uart_regs :: "(nat \<times> u8) list"
  uart :: uartbuf
  cons :: consbuf
  devsw :: "nat \<Rightarrow> devsw_ent"

definition WriteReg :: "nat \<Rightarrow> u8 \<Rightarrow> 'z kcons_scheme \<Rightarrow> 'z kcons_scheme" where
  "WriteReg reg v s = s\<lparr>uart_regs := uart_regs s @ [(reg, v)]\<rparr>"

definition IER :: nat where "IER = 1"
definition FCR :: nat where "FCR = 2"
definition LCR :: nat where "LCR = 3"
definition IER_RX_ENABLE :: u8 where "IER_RX_ENABLE = 1"
definition IER_TX_ENABLE :: u8 where "IER_TX_ENABLE = 2"
definition FCR_FIFO_ENABLE :: u8 where "FCR_FIFO_ENABLE = 1"
definition FCR_FIFO_CLEAR :: u8 where "FCR_FIFO_CLEAR = 6"
definition LCR_EIGHT_BITS :: u8 where "LCR_EIGHT_BITS = 3"
definition LCR_BAUD_LATCH :: u8 where "LCR_BAUD_LATCH = 0x80"

definition uartinit :: "'z kcons_scheme \<Rightarrow> 'z kcons_scheme" where
  "uartinit s =
     (let s1 = WriteReg IER 0 s;
          s2 = WriteReg LCR LCR_BAUD_LATCH s1;
          s3 = WriteReg 0 3 s2;
          s4 = WriteReg 1 0 s3;
          s5 = WriteReg LCR LCR_EIGHT_BITS s4;
          s6 = WriteReg FCR (FCR_FIFO_ENABLE OR FCR_FIFO_CLEAR) s5
      in WriteReg IER (IER_TX_ENABLE OR IER_RX_ENABLE) s6)"

definition uart_put :: "u8 \<Rightarrow> uartbuf \<Rightarrow> uartbuf" where
  "uart_put c u = u\<lparr>uart_tx_buf := (uart_tx_buf u)[unat (uart_tx_w u) mod UART_TX_BUF_SIZE := c],
     uart_tx_w := uart_tx_w u + 1\<rparr>"

definition uart_get :: "uartbuf \<Rightarrow> u8 \<times> uartbuf" where
  "uart_get u = (uart_tx_buf u ! (unat (uart_tx_r u) mod UART_TX_BUF_SIZE), u\<lparr>uart_tx_r := uart_tx_r u + 1\<rparr>)"

definition uart_full :: "uartbuf \<Rightarrow> bool" where
  "uart_full u \<longleftrightarrow> uart_tx_w u = uart_tx_r u + of_nat UART_TX_BUF_SIZE"

definition uart_empty :: "uartbuf \<Rightarrow> bool" where
  "uart_empty u \<longleftrightarrow> uart_tx_w u = uart_tx_r u"

text \<open>A read of \<^verbatim>\<open>LSR\<close>: the transmitter-idle bit, consumed from the sequence the device gives.\<close>

definition read_tx_idle :: "'z kcons_scheme \<Rightarrow> bool \<times> 'z kcons_scheme" where
  "read_tx_idle s = (case tx_idle s of [] \<Rightarrow> (False, s) | b # r \<Rightarrow> (b, s\<lparr>tx_idle := r\<rparr>))"

text \<open>\<^verbatim>\<open>uartstart\<close> takes a byte off the ring in every round, so it ends after at most as many rounds as
  the ring has bytes.\<close>

fun uartstart_loop :: "nat \<Rightarrow> 'z kcons_scheme \<Rightarrow> 'z kcons_scheme res" where
  "uartstart_loop 0 s = Inr s"
| "uartstart_loop (Suc k) s =
     (if uart_empty (uart s) then Inr s
      else case read_tx_idle s of (idle, s1) \<Rightarrow>
        if \<not> idle then Inr s1
        else case uart_get (uart s1) of (c, u) \<Rightarrow>
          bindE (wakeup C_uart_tx_r (s1\<lparr>uart := u\<rparr>)) (\<lambda>s2.
            uartstart_loop k (s2\<lparr>u_out := u_out s2 @ [c]\<rparr>)))"

definition uartstart :: "'z kcons_scheme \<Rightarrow> 'z kcons_scheme res" where
  "uartstart s = uartstart_loop (unat (uart_tx_w (uart s) - uart_tx_r (uart s))) s"

fun uartputc_wait :: "nat \<Rightarrow> ('z kcons_scheme \<Rightarrow> 'z kcons_scheme) \<Rightarrow> 'z kcons_scheme \<Rightarrow> 'z kcons_scheme res" where
  "uartputc_wait 0 E s = Inl (Blocked ''uartputc'')"
| "uartputc_wait (Suc n) E s =
     (if uart_full (uart s) then bindE (sleep E C_uart_tx_r L_uart s) (uartputc_wait n E) else Inr s)"

definition uartputc :: "'z kcons_scheme senv \<Rightarrow> i32 \<Rightarrow> 'z kcons_scheme \<Rightarrow> 'z kcons_scheme res" where
  "uartputc e c s =
     bindE (lk_acquire L_uart s) (\<lambda>s1.
       if panicked s1 then Inl (Blocked ''panicked'')
       else bindE (uartputc_wait (fst e) (snd e) s1) (\<lambda>s2.
            bindE (uartstart (s2\<lparr>uart := uart_put (ucast c) (uart s2)\<rparr>)) (lk_release L_uart)))"

definition uartgetc :: "'z kcons_scheme \<Rightarrow> i32 \<times> 'z kcons_scheme" where
  "uartgetc s = (case u_in s of [] \<Rightarrow> (- 1, s) | b # r \<Rightarrow> (ucast b, s\<lparr>u_in := r\<rparr>))"

definition ctl :: "char \<Rightarrow> i32" where
  "ctl x = of_char x - of_char (CHR ''@'')"

definition upd_cons :: "(consbuf \<Rightarrow> consbuf) \<Rightarrow> 'z kcons_scheme \<Rightarrow> 'z kcons_scheme" where
  "upd_cons f s = s\<lparr>cons := f (cons s)\<rparr>"

fun consolewrite_loop ::
  "'z kcons_scheme senv \<Rightarrow> nat \<Rightarrow> iosrc \<Rightarrow> int \<Rightarrow> 'z kcons_scheme \<Rightarrow> (int \<times> 'z kcons_scheme) res" where
  "consolewrite_loop e 0 src i s = Inr (i, s)"
| "consolewrite_loop e (Suc k) src i s =
     bindE (either_copyin (src_add src (nat i)) 1 s) (\<lambda>(r, bs).
       if r = - 1 then Inr (i, s)
       else bindE (uartputc e (ucast (hd bs)) s) (consolewrite_loop e k src (i + 1)))"

definition consolewrite :: "'z kcons_scheme senv \<Rightarrow> iosrc \<Rightarrow> i32 \<Rightarrow> 'z kcons_scheme \<Rightarrow> (int \<times> 'z kcons_scheme) res" where
  "consolewrite e src n s = consolewrite_loop e (nat (sint n)) src 0 s"

text \<open>The inner wait of \<^verbatim>\<open>consoleread\<close>: \<open>Inl\<close> inside the result if the function returns -1.\<close>

fun consoleread_wait ::
  "nat \<Rightarrow> ('z kcons_scheme \<Rightarrow> 'z kcons_scheme) \<Rightarrow> 'z kcons_scheme \<Rightarrow> ('z kcons_scheme + 'z kcons_scheme) res" where
  "consoleread_wait 0 E s = Inl (Blocked ''consoleread'')"
| "consoleread_wait (Suc n) E s =
     (if cn_r (cons s) = cn_w (cons s)
      then bindE (thisproc s) (\<lambda>me. bindE (killed me s) (\<lambda>(k, s1).
        if k \<noteq> 0 then bindE (lk_release L_cons s1) (\<lambda>s2. Inr (Inl s2))
        else bindE (sleep E C_cons_r L_cons s1) (consoleread_wait n E)))
      else Inr (Inr s))"

text \<open>The result has the final \<open>n\<close>, the bytes delivered and the state.\<close>

fun consoleread_loop ::
  "nat \<Rightarrow> 'z kcons_scheme senv \<Rightarrow> bool \<Rightarrow> u32 \<Rightarrow> u64 \<Rightarrow> u32 \<Rightarrow> 'z kcons_scheme
     \<Rightarrow> ('z kcons_scheme + u32 \<times> u8 list \<times> 'z kcons_scheme) res" where
  "consoleread_loop 0 e user_dst target dst n s = Inr (Inr (n, [], s))"
| "consoleread_loop (Suc k) e user_dst target dst n s =
     bindE (consoleread_wait (fst e) (snd e) s) (\<lambda>w.
       case w of Inl s1 \<Rightarrow> Inr (Inl s1)
       | Inr s1 \<Rightarrow>
         let c = cn_buf (cons s1) ! (unat (cn_r (cons s1)) mod INPUT_BUF_SIZE);
             s2 = upd_cons (\<lambda>b. b\<lparr>cn_r := cn_r b + 1\<rparr>) s1
         in if ucast c = ctl (CHR ''D'')
            then Inr (Inr (n, [], if n < target then upd_cons (\<lambda>b. b\<lparr>cn_r := cn_r b - 1\<rparr>) s2 else s2))
            else bindE (either_copyout user_dst dst [c] s2) (\<lambda>(r, s3).
              if r = - 1 then Inr (Inr (n, [], s3))
              else if c = of_char nl then Inr (Inr (n - 1, [c], s3))
              else bindE (consoleread_loop k e user_dst target (dst + 1) (n - 1) s3) (\<lambda>q.
                case q of Inl s4 \<Rightarrow> Inr (Inl s4) | Inr (n', bs, s4) \<Rightarrow> Inr (Inr (n', c # bs, s4)))))"

definition consoleread ::
  "'z kcons_scheme senv \<Rightarrow> bool \<Rightarrow> u64 \<Rightarrow> i32 \<Rightarrow> 'z kcons_scheme \<Rightarrow> (i32 \<times> u8 list \<times> 'z kcons_scheme) res" where
  "consoleread e user_dst dst n s =
     bindE (lk_acquire L_cons s) (\<lambda>s1.
     bindE (consoleread_loop (nat (sint n)) e user_dst n dst n s1) (\<lambda>q.
       case q of Inl s2 \<Rightarrow> Inr (- 1, [], s2)
       | Inr (n', bs, s2) \<Rightarrow> bindE (lk_release L_cons s2) (\<lambda>s3. Inr (n - n', bs, s3))))"

text \<open>Kill line: at most as many rounds as there are characters in the line being edited.\<close>

fun kill_line :: "nat \<Rightarrow> 'z kcons_scheme \<Rightarrow> 'z kcons_scheme res" where
  "kill_line 0 s = Inr s"
| "kill_line (Suc k) s =
     (if cn_e (cons s) \<noteq> cn_w (cons s) \<and>
         cn_buf (cons s) ! (unat (cn_e (cons s) - 1) mod INPUT_BUF_SIZE) \<noteq> of_char nl
      then bindE (consputc BACKSPACE (upd_cons (\<lambda>b. b\<lparr>cn_e := cn_e b - 1\<rparr>) s)) (kill_line k)
      else Inr s)"

text \<open>\<^verbatim>\<open>^C\<close>: the process with the highest pid is killed unless its parent is process 1.\<close>

definition highest_proc :: "'z kcons_scheme \<Rightarrow> nat" where
  "highest_proc s =
     fold (\<lambda>i cp. if p_state (ptable s i) \<noteq> UNUSED \<and> p_pid (ptable s cp) <s p_pid (ptable s i) then i else cp)
       [0..<NPROC] 0"

definition ctrl_c :: "'z kcons_scheme \<Rightarrow> 'z kcons_scheme res" where
  "ctrl_c s =
     (let cp = highest_proc s in
      case p_parent (ptable s cp) of None \<Rightarrow> Inl (Undef ''consoleintr: null parent'')
      | Some q \<Rightarrow> if p_pid (ptable s q) \<noteq> 1 then setkilled cp s else Inr s)"

definition cons_store :: "u8 \<Rightarrow> consbuf \<Rightarrow> consbuf" where
  "cons_store c b = b\<lparr>cn_buf := (cn_buf b)[unat (cn_e b) mod INPUT_BUF_SIZE := c], cn_e := cn_e b + 1\<rparr>"

definition cons_char :: "i32 \<Rightarrow> 'z kcons_scheme \<Rightarrow> 'z kcons_scheme res" where
  "cons_char c0 s =
     (if c0 \<noteq> 0 \<and> cn_e (cons s) - cn_r (cons s) < of_nat INPUT_BUF_SIZE
      then let c = (if c0 = 13 then of_char nl else c0) in
           bindE (consputc c s) (\<lambda>s1.
           let s2 = upd_cons (cons_store (ucast c)) s1 in
           if c = of_char nl \<or> c = ctl (CHR ''D'') \<or> cn_e (cons s2) - cn_r (cons s2) = of_nat INPUT_BUF_SIZE
           then wakeup C_cons_r (upd_cons (\<lambda>b. b\<lparr>cn_w := cn_e b\<rparr>) s2)
           else Inr s2)
      else Inr s)"

definition consoleintr :: "i32 \<Rightarrow> 'z kcons_scheme \<Rightarrow> 'z kcons_scheme res" where
  "consoleintr c s =
     bindE (lk_acquire L_cons s) (\<lambda>s1.
     bindE (if c = ctl (CHR ''P'') then procdump s1
            else if c = ctl (CHR ''U'') then kill_line (unat (cn_e (cons s1) - cn_w (cons s1))) s1
            else if c = ctl (CHR ''C'') then ctrl_c s1
            else if c = ctl (CHR ''H'') \<or> c = 0x7f
            then if cn_e (cons s1) \<noteq> cn_w (cons s1)
                 then consputc BACKSPACE (upd_cons (\<lambda>b. b\<lparr>cn_e := cn_e b - 1\<rparr>) s1) else Inr s1
            else cons_char c s1) (lk_release L_cons))"

text \<open>The receive loop of \<^verbatim>\<open>uartintr\<close> takes a byte in every round.\<close>

fun uartintr_loop :: "nat \<Rightarrow> 'z kcons_scheme \<Rightarrow> 'z kcons_scheme res" where
  "uartintr_loop 0 s = Inl (Blocked ''uartintr'')"
| "uartintr_loop (Suc k) s =
     (case uartgetc s of (c, s1) \<Rightarrow> if c = - 1 then Inr s1 else bindE (consoleintr c s1) (uartintr_loop k))"

definition uartintr :: "'z kcons_scheme \<Rightarrow> 'z kcons_scheme res" where
  "uartintr s =
     bindE (uartintr_loop (Suc (length (u_in s))) s) (\<lambda>s1.
     bindE (lk_acquire L_uart s1) (\<lambda>s2. bindE (uartstart s2) (lk_release L_uart)))"

definition consoleinit :: "'z kcons_scheme \<Rightarrow> 'z kcons_scheme" where
  "consoleinit s =
     (let s1 = uartinit s
      in s1\<lparr>devsw := (devsw s1)(CONSOLE := \<lparr>dv_read = Some D_consoleread, dv_write = Some D_consolewrite\<rparr>)\<rparr>)"

section \<open>The transmit ring\<close>

definition uart_content :: "uartbuf \<Rightarrow> u8 list" where
  "uart_content u = ring_list UART_TX_BUF_SIZE (uart_tx_buf u) (uart_tx_r u) (uart_tx_w u)"

definition uart_inv :: "uartbuf \<Rightarrow> bool" where
  "uart_inv u \<longleftrightarrow> ring_ok UART_TX_BUF_SIZE (uart_tx_buf u) (uart_tx_r u) (uart_tx_w u)"

interpretation uartq: bounded_fifo uart_put uart_get uart_full uart_empty uart_content uart_inv UART_TX_BUF_SIZE
proof
  fix u :: uartbuf and x
  assume inv: "uart_inv u"
  show "length (uart_content u) \<le> UART_TX_BUF_SIZE"
    using inv by (simp add: uart_inv_def ring_ok_def uart_content_def ring_length)
  show f: "uart_full u \<longleftrightarrow> length (uart_content u) = UART_TX_BUF_SIZE"
    using ring_full inv by (auto simp: uart_inv_def uart_full_def uart_content_def ring_length)
  show "uart_empty u \<longleftrightarrow> uart_content u = []"
    using ring_empty [of UART_TX_BUF_SIZE "uart_tx_buf u" "uart_tx_r u" "uart_tx_w u"] inv
    by (auto simp: uart_inv_def uart_empty_def uart_content_def)
  show "\<not> uart_full u \<Longrightarrow> uart_content (uart_put x u) = uart_content u @ [x] \<and> uart_inv (uart_put x u)"
    using inv f ring_put [of UART_TX_BUF_SIZE "uart_tx_buf u" "uart_tx_r u" "uart_tx_w u" x]
    by (auto simp: uart_inv_def uart_put_def uart_content_def ring_length ring_ok_def)
  show "\<not> uart_empty u \<Longrightarrow> uart_content u = fst (uart_get u) # uart_content (snd (uart_get u)) \<and> uart_inv (snd (uart_get u))"
    using inv ring_get [of UART_TX_BUF_SIZE "uart_tx_buf u" "uart_tx_r u" "uart_tx_w u"]
    by (auto simp: uart_inv_def uart_get_def uart_empty_def uart_content_def)
qed

text \<open>What has been accepted for output: the bytes sent and those still in the ring.\<close>

definition tx_stream :: "'z kcons_scheme \<Rightarrow> u8 list" where
  "tx_stream s = u_out s @ uart_content (uart s)"

text \<open>\<open>tx_step me s s'\<close>: only the output side, the sleep states of processes and the count of
  switches changed.\<close>

definition tx_step :: "nat \<Rightarrow> 'z kcons_scheme \<Rightarrow> 'z kcons_scheme \<Rightarrow> bool" where
  "tx_step me s s' \<longleftrightarrow> (\<exists>t u ob ti n. s' = s\<lparr>ptable := t, uart := u, u_out := ob, tx_idle := ti, nswitch := n\<rparr> \<and>
     p_pagetable (t me) = p_pagetable (ptable s me) \<and> uart_inv u)"

lemma tx_stepI:
  "s' = s\<lparr>ptable := t, uart := u, u_out := ob, tx_idle := ti, nswitch := n\<rparr> \<Longrightarrow>
   p_pagetable (t me) = p_pagetable (ptable s me) \<Longrightarrow> uart_inv u \<Longrightarrow> tx_step me s s'"
  unfolding tx_step_def by blast

lemma tx_stepE:
  assumes "tx_step me s s'"
  obtains t u ob ti n where "s' = s\<lparr>ptable := t, uart := u, u_out := ob, tx_idle := ti, nswitch := n\<rparr>"
    "p_pagetable (t me) = p_pagetable (ptable s me)" "uart_inv u"
  using assms unfolding tx_step_def by blast

lemma tx_step_trans:
  assumes "tx_step me s s'" "tx_step me s' s''"
  shows "tx_step me s s''"
proof -
  obtain t u ob ti n where a: "s' = s\<lparr>ptable := t, uart := u, u_out := ob, tx_idle := ti, nswitch := n\<rparr>"
    "p_pagetable (t me) = p_pagetable (ptable s me)" using assms(1) by (rule tx_stepE)
  obtain t' u' ob' ti' n' where b: "s'' = s'\<lparr>ptable := t', uart := u', u_out := ob', tx_idle := ti', nswitch := n'\<rparr>"
    "p_pagetable (t' me) = p_pagetable (ptable s' me)" "uart_inv u'" using assms(2) by (rule tx_stepE)
  show ?thesis
    by (rule tx_stepI [where t = t' and u = u' and ob = ob' and ti = ti' and n = n']) (simp_all add: a b)
qed

lemma tx_step_refl: "uart_inv (uart s) \<Longrightarrow> tx_step me s s"
  by (rule tx_stepI [where t = "ptable s" and u = "uart s" and ob = "u_out s" and ti = "tx_idle s" and n = "nswitch s"]) simp_all

lemma tx_stepD:
  assumes "tx_step me s s'"
  shows "held s' = held s" "cur s' = cur s" "pmem s' = pmem s" "panicked s' = panicked s" "uart_inv (uart s')"
    "p_pagetable (ptable s' me) = p_pagetable (ptable s me)" "cons s' = cons s" "devsw s' = devsw s" "u_in s' = u_in s"
    "uspace_ok s' xs pt = uspace_ok s xs pt"
  using assms unfolding tx_step_def
  by (auto simp: uspace_ok_def vm_ok_def kmem_ok_def ram_page_def)

lemma tx_step_held:
  assumes "tx_step me s s'"
  shows "tx_step me (s\<lparr>held := h\<rparr>) (s'\<lparr>held := h\<rparr>)"
proof -
  obtain t u ob ti n where a: "s' = s\<lparr>ptable := t, uart := u, u_out := ob, tx_idle := ti, nswitch := n\<rparr>"
    "p_pagetable (t me) = p_pagetable (ptable s me)" "uart_inv u" using assms by (rule tx_stepE)
  show ?thesis
    by (rule tx_stepI [where t = t and u = u and ob = ob and ti = ti and n = n]) (simp_all add: a)
qed

lemma woken_pagetable [simp]: "p_pagetable (woken ch p) = p_pagetable p"
  by (simp add: woken_def)

lemma wakeup_tx:
  assumes "\<forall>i. L_proc i \<notin> set (held s)" "uart_inv (uart s)"
  obtains s' where "wakeup ch s = Inr s'" "tx_step me s s'" "tx_stream s' = tx_stream s" "uart s' = uart s" "tx_idle s' = tx_idle s"
proof -
  let ?f = "\<lambda>i. if myproc s = Some i then id else woken ch"
  have w: "wakeup ch s = Inr (map_procs [0..<NPROC] ?f s)" using assms(1) by (intro wakeup_eq) auto
  define t where "t = ptable (map_procs [0..<NPROC] ?f s)"
  have m: "map_procs [0..<NPROC] ?f s = s\<lparr>ptable := t\<rparr>" by (simp add: t_def map_procs_def)
  have "p_pagetable (t me) = p_pagetable (ptable s me)" by (simp add: t_def)
  then have "tx_step me s (s\<lparr>ptable := t\<rparr>)"
    by (intro tx_stepI [where t = t and u = "uart s" and ob = "u_out s" and ti = "tx_idle s" and n = "nswitch s"]) (simp_all add: assms(2))
  then show thesis using w m by (intro that [of "s\<lparr>ptable := t\<rparr>"]) (simp_all add: tx_stream_def)
qed

text \<open>One round of \<^verbatim>\<open>uartstart\<close> with an idle transmitter sends the first byte of the ring.\<close>

lemma uartstart_send:
  assumes "\<forall>i. L_proc i \<notin> set (held s)" "uart_inv (uart s)" "\<not> uart_empty (uart s)" "tx_idle s = True # r"
  obtains c s' where "uartstart_loop (Suc k) s = uartstart_loop k s'" "tx_step me s s'" "tx_stream s' = tx_stream s"
    "uart_content (uart s) = c # uart_content (uart s')" "tx_idle s' = r"
proof -
  obtain c u where g: "uart_get (uart s) = (c, u)" by fastforce
  have u: "uart_content (uart s) = c # uart_content u" "uart_inv u"
    using uartq.get_content [OF assms(2,3)] g by simp_all
  define s1 where "s1 = s\<lparr>tx_idle := r, uart := u\<rparr>"
  have s1: "\<forall>i. L_proc i \<notin> set (held s1)" "uart_inv (uart s1)" using assms u(2) by (simp_all add: s1_def)
  obtain s2 where s2: "wakeup C_uart_tx_r s1 = Inr s2" "tx_step me s1 s2" "tx_stream s2 = tx_stream s1"
    "uart s2 = uart s1" "tx_idle s2 = tx_idle s1" using wakeup_tx [OF s1] .
  define s3 where "s3 = s2\<lparr>u_out := u_out s2 @ [c]\<rparr>"
  have st: "tx_step me s s1"
    by (rule tx_stepI [where t = "ptable s" and u = u and ob = "u_out s" and ti = r and n = "nswitch s"])
      (simp_all add: s1_def u)
  have st3: "tx_step me s2 s3"
    by (rule tx_stepI [where t = "ptable s2" and u = u and ob = "u_out s2 @ [c]" and ti = "tx_idle s2" and n = "nswitch s2"])
      (use s2(4) in \<open>simp_all add: s3_def s1_def u\<close>)
  have "u_out s2 = u_out s" using s2(3,4) by (simp add: tx_stream_def s1_def)
  then have "uart s3 = u" "tx_idle s3 = r" "tx_stream s3 = tx_stream s"
    using s2 u by (simp_all add: s3_def s1_def tx_stream_def)
  moreover have "uartstart_loop (Suc k) s = uartstart_loop k s3"
    using assms g s2(1) by (simp add: read_tx_idle_def s1_def s3_def)
  ultimately show thesis using that u tx_step_trans [OF tx_step_trans [OF st s2(2)] st3] by simp
qed

text \<open>\<^verbatim>\<open>uartstart\<close> moves bytes from the ring to the wire in order, and stops only when the ring is empty
  or the transmitter busy.\<close>

definition tx_stop :: "'z kcons_scheme \<Rightarrow> 'z kcons_scheme \<Rightarrow> bool" where
  "tx_stop s s' \<longleftrightarrow> uart_content (uart s') = [] \<or>
     (\<exists>ys zs. tx_idle s = replicate (length ys) True @ zs \<and> (zs = [] \<or> \<not> hd zs) \<and>
        uart_content (uart s) = ys @ uart_content (uart s'))"

lemma uartstart_busy:
  assumes "uart_inv (uart s)" "\<not> uart_empty (uart s)" "tx_idle s = [] \<or> \<not> hd (tx_idle s)"
  shows "\<exists>s'. uartstart_loop (Suc k) s = Inr s' \<and> tx_step me s s' \<and> tx_stream s' = tx_stream s \<and> tx_stop s s'"
proof -
  let ?s = "s\<lparr>tx_idle := tl (tx_idle s)\<rparr>"
  have "read_tx_idle s = (False, ?s)"
    using assms(3) by (cases "tx_idle s") (auto simp: read_tx_idle_def)
  moreover have "tx_step me s ?s"
    by (rule tx_stepI [where t = "ptable s" and u = "uart s" and ob = "u_out s" and ti = "tl (tx_idle s)" and n = "nswitch s"])
      (simp_all add: assms)
  moreover have "tx_stop s ?s" unfolding tx_stop_def using assms(3) by (intro disjI2 exI [of _ "[]"] exI [of _ "tx_idle s"]) auto
  ultimately show ?thesis using assms(2) by (intro exI [of _ ?s]) (simp add: tx_stream_def)
qed

lemma uartstart_loop_ok:
  assumes "\<forall>i. L_proc i \<notin> set (held s)" "uart_inv (uart s)" "length (uart_content (uart s)) \<le> k"
  shows "\<exists>s'. uartstart_loop k s = Inr s' \<and> tx_step me s s' \<and> tx_stream s' = tx_stream s \<and> tx_stop s s'"
  using assms
proof (induction k arbitrary: s)
  case 0
  then show ?case using tx_step_refl [of s me] by (simp add: tx_stop_def)
next
  case (Suc k)
  consider (empty) "uart_empty (uart s)" | (busy) "\<not> uart_empty (uart s)" "tx_idle s = [] \<or> \<not> hd (tx_idle s)"
    | (idle) r where "\<not> uart_empty (uart s)" "tx_idle s = True # r" by (cases "tx_idle s") auto
  then show ?case
  proof cases
    case empty
    then show ?thesis using tx_step_refl [of s me] Suc.prems uartq.empty_iff by (simp add: tx_stop_def)
  next
    case busy
    then show ?thesis using uartstart_busy Suc.prems by blast
  next
    case idle
    obtain c s1 where s1: "uartstart_loop (Suc k) s = uartstart_loop k s1" "tx_step me s s1" "tx_stream s1 = tx_stream s"
      "uart_content (uart s) = c # uart_content (uart s1)" "tx_idle s1 = r"
      using uartstart_send [OF Suc.prems(1,2) idle] .
    obtain s' where s': "uartstart_loop k s1 = Inr s'" "tx_step me s1 s'" "tx_stream s' = tx_stream s1" "tx_stop s1 s'"
      using Suc.IH [of s1] tx_stepD(1,5) [OF s1(2)] Suc.prems s1(4) by auto
    have "tx_stop s s'" using s'(4) s1(4,5) idle(2) unfolding tx_stop_def
      by (metis append_Cons length_Cons replicate_Suc)
    then show ?thesis using s1 s' tx_step_trans [OF s1(2) s'(2)] by simp
  qed
qed

lemma uartstart_ok:
  assumes "\<forall>i. L_proc i \<notin> set (held s)" "uart_inv (uart s)"
  obtains s' where "uartstart s = Inr s'" "tx_step me s s'" "tx_stream s' = tx_stream s" "tx_stop s s'"
  using uartstart_loop_ok [OF assms order.refl] by (auto simp: uartstart_def uart_content_def ring_length)

section \<open>Writing to the console\<close>

text \<open>
  \<open>drains E me\<close>: while \<open>me\<close> sleeps, the UART takes bytes off the ring in order until there is room,
  and nothing else happens to the state \<open>me\<close> uses.
\<close>

definition drains :: "('z kcons_scheme \<Rightarrow> 'z kcons_scheme) \<Rightarrow> nat \<Rightarrow> bool" where
  "drains E me \<longleftrightarrow> (\<forall>s. cur s = Some me \<longrightarrow> held s = [L_proc me] \<longrightarrow> uart_inv (uart s) \<longrightarrow>
     tx_step me s (E s) \<and> tx_stream (E s) = tx_stream s \<and> \<not> uart_full (uart (E s)))"

lemma uartputc_wait_ok:
  assumes "cur s = Some me" "held s = [L_uart]" "uart_inv (uart s)" "drains E me"
  shows "\<exists>s'. uartputc_wait (Suc (Suc n)) E s = Inr s' \<and> tx_step me s s' \<and> tx_stream s' = tx_stream s \<and> \<not> uart_full (uart s')"
proof (cases "uart_full (uart s)")
  case False
  then show ?thesis using tx_step_refl assms by auto
next
  case True
  define s1 where "s1 = switched_out me C_uart_tx_r s"
  have p: "p_pagetable (promote q) = p_pagetable q" for q by (simp add: promote_def Let_def)
  obtain t where t: "s1 = s\<lparr>ptable := t, held := [L_proc me], nswitch := nswitch s + 1\<rparr>"
    "p_pagetable (t me) = p_pagetable (ptable s me)"
    by (rule that [of "ptable s1"]) (simp_all add: s1_def switched_out_def map_procs_def upd_proc_def p)
  have f: "cur s1 = Some me" "held s1 = [L_proc me]" "uart_inv (uart s1)" "uart s1 = uart s" "u_out s1 = u_out s"
    "p_pagetable (ptable s1 me) = p_pagetable (ptable s me)" using assms t by simp_all
  have e: "tx_step me s1 (E s1)" "tx_stream (E s1) = tx_stream s1" "\<not> uart_full (uart (E s1))"
    using assms(4) f unfolding drains_def by blast+
  obtain t' u ob ti n where d: "E s1 = s1\<lparr>ptable := t', uart := u, u_out := ob, tx_idle := ti, nswitch := n\<rparr>"
    "p_pagetable (t' me) = p_pagetable (ptable s1 me)" "uart_inv u" using e(1) by (rule tx_stepE)
  define s2 where "s2 = (upd_proc me (\<lambda>p. p\<lparr>p_chan := C_null\<rparr>) (E s1))\<lparr>held := [L_uart]\<rparr>"
  have sl: "sleep E C_uart_tx_r L_uart s = Inr s2"
    using sleep_eq [of s me L_uart E C_uart_tx_r] assms(1,2) f d(1) by (simp add: s1_def s2_def)
  let ?t = "t'(me := (t' me)\<lparr>p_chan := C_null\<rparr>)"
  have "s2 = s\<lparr>ptable := ?t, uart := u, u_out := ob, tx_idle := ti, nswitch := n\<rparr>"
    unfolding s2_def upd_proc_def d(1) unfolding t(1) by (simp add: assms(2) [symmetric])
  then have "tx_step me s s2"
    by (rule tx_stepI) (simp_all add: d f)
  moreover have "uart s2 = uart (E s1)" "tx_stream s2 = tx_stream s"
    using e(2) f by (simp_all add: s2_def tx_stream_def upd_proc_def)
  ultimately show ?thesis using True sl e(3) by (intro exI [of _ s2]) simp
qed

lemma uartputc_ok:
  assumes "cur s = Some me" "held s = []" "uart_inv (uart s)" "\<not> panicked s" "drains (snd e) me" "2 \<le> fst e"
  obtains s' where "uartputc e c s = Inr s'" "tx_step me s s'" "tx_stream s' = tx_stream s @ [ucast c]"
proof -
  define n where "n = fst e - 2"
  have n: "fst e = Suc (Suc n)" using assms(6) by (simp add: n_def)
  let ?s = "s\<lparr>held := [L_uart]\<rparr>"
  obtain s1 where s1: "uartputc_wait (Suc (Suc n)) (snd e) ?s = Inr s1" "tx_step me ?s s1" "tx_stream s1 = tx_stream ?s"
    "\<not> uart_full (uart s1)" using uartputc_wait_ok [of ?s me "snd e" n] assms by auto
  note d1 = tx_stepD [OF s1(2)]
  define s2 where "s2 = s1\<lparr>uart := uart_put (ucast c) (uart s1)\<rparr>"
  have u: "uart_content (uart s2) = uart_content (uart s1) @ [ucast c]" "uart_inv (uart s2)"
    using uartq.put_content [OF d1(5) s1(4)] by (simp_all add: s2_def)
  have st2: "tx_step me s1 s2"
    by (rule tx_stepI [where t = "ptable s1" and u = "uart s2" and ob = "u_out s1" and ti = "tx_idle s1" and n = "nswitch s1"])
      (use u(2) in \<open>simp_all add: s2_def\<close>)
  have h2: "held s2 = [L_uart]" using d1(1) by (simp add: s2_def)
  obtain s3 where s3: "uartstart s2 = Inr s3" "tx_step me s2 s3" "tx_stream s3 = tx_stream s2"
    using uartstart_ok [of s2] h2 u(2) by auto
  have st: "tx_step me ?s s3" using tx_step_trans s1(2) st2 s3(2) by blast
  have h3: "held s3 = [L_uart]" using tx_stepD(1) [OF st] by simp
  have "uartputc e c s = Inr (s3\<lparr>held := []\<rparr>)"
    using assms(2,4) n s1(1) s3(1) h3 by (simp add: uartputc_def s2_def)
  moreover have "s\<lparr>held := []\<rparr> = s" by (simp add: assms(2) [symmetric])
  then have "tx_step me s (s3\<lparr>held := []\<rparr>)" using tx_step_held [OF st, of "[]"] by simp
  moreover have "tx_stream (s3\<lparr>held := []\<rparr>) = tx_stream s @ [ucast c]"
    using s3(3) s1(3) u(1) by (simp add: tx_stream_def s2_def)
  ultimately show thesis by (rule that)
qed

lemma either_copyin_1:
  assumes "uspace_ok s xs pt" "cur s = Some me" "p_pagetable (ptable s me) = pt"
  shows "\<exists>bs. either_copyin (USrc va) 1 s = Inr (if user_va (pmem s) pt va then (0, [uview (pmem s) pt va]) else (- 1, bs))"
  using copyin_1 [OF assms(1)] assms by (simp add: either_copyin_def thisproc_def myproc_def)

lemma consolewrite_loop_ok:
  assumes "uspace_ok s xs pt" "cur s = Some me" "p_pagetable (ptable s me) = pt" "held s = []" "uart_inv (uart s)"
    and "\<not> panicked s" "drains (snd e) me" "2 \<le> fst e" "0 \<le> i" "reach (pmem s) pt (addr + word_of_int i) m k"
  shows "\<exists>s'. consolewrite_loop e m (USrc addr) i s = Inr (i + int k, s') \<and> tx_step me s s' \<and>
    tx_stream s' = tx_stream s @ map (\<lambda>j. uview (pmem s) pt (addr + word_of_int i + of_nat j)) [0..<k]"
  using assms
proof (induction m arbitrary: i k s)
  case 0
  then show ?case using tx_step_refl [of s me] by (simp add: reach_def)
next
  case (Suc m)
  let ?a = "addr + word_of_int i"
  obtain bs where c: "either_copyin (USrc ?a) 1 s =
      Inr (if user_va (pmem s) pt ?a then (0, [uview (pmem s) pt ?a]) else (- 1, bs))"
    using either_copyin_1 [OF Suc.prems(1,2,3)] by blast
  have a: "src_add (USrc addr) (nat i) = USrc ?a" using Suc.prems(9) by simp
  show ?case
  proof (cases "user_va (pmem s) pt ?a")
    case False
    then have "k = 0" using Suc.prems(10) by (simp add: reach_Suc)
    then show ?thesis using c False a tx_step_refl [OF Suc.prems(5)] by (simp del: src_add.simps)
  next
    case True
    let ?b = "uview (pmem s) pt ?a"
    obtain s1 where s1: "uartputc e (ucast ?b) s = Inr s1" "tx_step me s s1" "tx_stream s1 = tx_stream s @ [?b]"
      using uartputc_ok [OF Suc.prems(2,4,5,6,7,8), of "ucast ?b"] by (auto simp: ucast_8_32_8)
    note d = tx_stepD [OF s1(2)]
    obtain j where j: "k = Suc j" "reach (pmem s) pt (addr + word_of_int (i + 1)) m j"
      using Suc.prems(10) True by (auto simp: reach_Suc algebra_simps)
    obtain s' where s': "consolewrite_loop e m (USrc addr) (i + 1) s1 = Inr (i + 1 + int j, s')" "tx_step me s1 s'"
      "tx_stream s' = tx_stream s1 @ map (\<lambda>j. uview (pmem s) pt (addr + word_of_int (i + 1) + of_nat j)) [0..<j]"
      using Suc.IH [of s1 "i + 1" j] Suc.prems d j(2) by auto
    have "map (\<lambda>h. uview (pmem s) pt (?a + of_nat h)) [0..<Suc j] =
        ?b # map (\<lambda>h. uview (pmem s) pt (addr + word_of_int (i + 1) + of_nat h)) [0..<j]"
      by (simp add: upt_conv_Cons map_Suc_upt [symmetric] comp_def algebra_simps del: upt_Suc)
    moreover have "consolewrite_loop e (Suc m) (USrc addr) i s = Inr (i + 1 + int j, s')"
      using c True a s1(1) s'(1) by (simp del: src_add.simps)
    ultimately show ?thesis using s' s1(3) j(1) tx_step_trans [OF s1(2) s'(2)]
      by (intro exI [of _ s']) (simp del: consolewrite_loop.simps upt_Suc)
  qed
qed

end
