(* ===== verification/File.thy ===== *)
theory File
  imports Console
begin

text \<open>
  Open files: \<^verbatim>\<open>kernel/file.c\<close> and \<^verbatim>\<open>pipealloc\<close> of \<^verbatim>\<open>kernel/pipe.c\<close>. A file is an index into \<open>ftable\<close>;
  its type says whether reads and writes go to a pipe, to a device (through \<open>devsw\<close>) or to an
  inode at the offset of the file. The functions that may wait have the environment \<open>e\<close> of the
  lower layers. Numbers returned are 32-bit, as in the code.
\<close>

section \<open>Definitions\<close>

datatype ftype = FD_NONE | FD_PIPE | FD_INODE | FD_DEVICE

record filerec =
  f_type :: ftype
  f_ref :: i32
  f_readable :: bool
  f_writable :: bool
  f_pipe :: u64
  f_ip :: "nat option"
  f_off :: u32
  f_major :: i16

record kfile = kcons +
  ftable :: "nat \<Rightarrow> filerec"

definition upd_file :: "nat \<Rightarrow> (filerec \<Rightarrow> filerec) \<Rightarrow> 'z kfile_scheme \<Rightarrow> 'z kfile_scheme" where
  "upd_file f g s = s\<lparr>ftable := (ftable s)(f := g (ftable s f))\<rparr>"

definition filealloc :: "'z kfile_scheme \<Rightarrow> (nat option \<times> 'z kfile_scheme) res" where
  "filealloc s =
     bindE (lk_acquire L_ftable s) (\<lambda>s1.
       case find (\<lambda>f. f_ref (ftable s1 f) = 0) [0..<NFILE] of
         Some f \<Rightarrow> bindE (lk_release L_ftable (upd_file f (\<lambda>x. x\<lparr>f_ref := 1\<rparr>) s1)) (\<lambda>s2. Inr (Some f, s2))
       | None \<Rightarrow> bindE (lk_release L_ftable s1) (\<lambda>s2. Inr (None, s2)))"

definition filedup :: "nat \<Rightarrow> 'z kfile_scheme \<Rightarrow> (nat \<times> 'z kfile_scheme) res" where
  "filedup f s =
     bindE (lk_acquire L_ftable s) (\<lambda>s1.
       if f_ref (ftable s1 f) <s 1 then Inl (Panic ''filedup'')
       else bindE (lk_release L_ftable (upd_file f (\<lambda>x. x\<lparr>f_ref := f_ref x + 1\<rparr>) s1)) (\<lambda>s2. Inr (f, s2)))"

definition the_inode :: "nat option \<Rightarrow> nat res" where
  "the_inode ip = (case ip of None \<Rightarrow> Inl (Undef ''null inode'') | Some i \<Rightarrow> Inr i)"

text \<open>What the last \<^verbatim>\<open>fileclose\<close> does with the copy \<^verbatim>\<open>ff\<close> of the file.\<close>

definition file_release :: "'z kfile_scheme senv \<Rightarrow> filerec \<Rightarrow> 'z kfile_scheme \<Rightarrow> 'z kfile_scheme res" where
  "file_release e ff s =
     (if f_type ff = FD_PIPE then pipeclose (f_pipe ff) (f_writable ff) s
      else if f_type ff = FD_INODE \<or> f_type ff = FD_DEVICE
      then bindE (begin_op e s) (\<lambda>s1.
           bindE (the_inode (f_ip ff)) (\<lambda>ip.
           bindE (iput e ip s1) (end_op e)))
      else Inr s)"

definition fileclose :: "'z kfile_scheme senv \<Rightarrow> nat \<Rightarrow> 'z kfile_scheme \<Rightarrow> 'z kfile_scheme res" where
  "fileclose e f s =
     bindE (lk_acquire L_ftable s) (\<lambda>s1.
       if f_ref (ftable s1 f) <s 1 then Inl (Panic ''fileclose'')
       else let s2 = upd_file f (\<lambda>x. x\<lparr>f_ref := f_ref x - 1\<rparr>) s1 in
         if 0 <s f_ref (ftable s2 f) then lk_release L_ftable s2
         else let ff = ftable s2 f in
              bindE (lk_release L_ftable (upd_file f (\<lambda>x. x\<lparr>f_ref := 0, f_type := FD_NONE\<rparr>) s2)) (file_release e ff))"

text \<open>The bytes of a \<^verbatim>\<open>struct stat\<close>; \<open>pad\<close> is what the stack has in the four bytes of padding.\<close>

definition le64 :: "u64 \<Rightarrow> u8 list" where
  "le64 x = le32 (ucast x) @ le32 (ucast (drop_bit 32 x))"

definition stat_bytes :: "u8 list \<Rightarrow> kstat \<Rightarrow> u8 list" where
  "stat_bytes pad st = le32 (st_dev st) @ le32 (st_ino st) @ le16 (st_type st) @ le16 (st_nlink st) @ pad @ le64 (st_size st)"

definition filestat :: "'z kfile_scheme senv \<Rightarrow> u8 list \<Rightarrow> nat \<Rightarrow> u64 \<Rightarrow> 'z kfile_scheme \<Rightarrow> (i32 \<times> 'z kfile_scheme) res" where
  "filestat e pad f addr s =
     (if f_type (ftable s f) = FD_INODE \<or> f_type (ftable s f) = FD_DEVICE
      then bindE (thisproc s) (\<lambda>p.
           bindE (ilock e (f_ip (ftable s f)) s) (\<lambda>s1.
           bindE (the_inode (f_ip (ftable s1 f))) (\<lambda>ip.
           let st = stati ip s1 in
           bindE (iunlock (f_ip (ftable s1 f)) s1) (\<lambda>s2.
           bindE (copyout (p_pagetable (ptable s2 p)) addr (stat_bytes pad st) s2) (\<lambda>(r, s3).
             Inr (if r < 0 then - 1 else 0, s3))))))
      else Inr (- 1, s))"

definition dev_read :: "'z kfile_scheme senv \<Rightarrow> devread \<Rightarrow> u64 \<Rightarrow> i32 \<Rightarrow> 'z kfile_scheme \<Rightarrow> (i32 \<times> 'z kfile_scheme) res" where
  "dev_read e d addr n s =
     (case d of D_consoleread \<Rightarrow> bindE (consoleread e True addr n s) (\<lambda>(r, _, s1). Inr (r, s1)))"

definition dev_write :: "'z kfile_scheme senv \<Rightarrow> devwrite \<Rightarrow> u64 \<Rightarrow> i32 \<Rightarrow> 'z kfile_scheme \<Rightarrow> (i32 \<times> 'z kfile_scheme) res" where
  "dev_write e d addr n s =
     (case d of D_consolewrite \<Rightarrow> bindE (consolewrite e (USrc addr) n s) (\<lambda>(r, s1). Inr (word_of_int r, s1)))"

text \<open>\<open>bad_major\<close> is the test of the device number in \<^verbatim>\<open>fileread\<close>, \<^verbatim>\<open>filewrite\<close> and \<^verbatim>\<open>sys_open\<close>.\<close>

definition bad_major :: "i16 \<Rightarrow> bool" where
  "bad_major m \<longleftrightarrow> sint m < 0 \<or> int NDEV \<le> sint m"

definition fileread :: "'z kfile_scheme senv \<Rightarrow> nat \<Rightarrow> u64 \<Rightarrow> i32 \<Rightarrow> 'z kfile_scheme \<Rightarrow> (i32 \<times> 'z kfile_scheme) res" where
  "fileread e f addr n s =
     (let x = ftable s f in
      if \<not> f_readable x then Inr (- 1, s)
      else case f_type x of
        FD_PIPE \<Rightarrow> bindE (piperead (fst e) (snd e) (f_pipe x) addr n s) (\<lambda>(r, s1). Inr (word_of_int r, s1))
      | FD_DEVICE \<Rightarrow>
          if bad_major (f_major x) then Inr (- 1, s)
          else (case dv_read (devsw s (unat (f_major x))) of
                  None \<Rightarrow> Inr (- 1, s) | Some d \<Rightarrow> dev_read e d addr n s)
      | FD_INODE \<Rightarrow>
          bindE (ilock e (f_ip x) s) (\<lambda>s1.
          bindE (the_inode (f_ip x)) (\<lambda>ip.
          bindE (readi e ip True addr (f_off (ftable s1 f)) n s1) (\<lambda>(r, _, s2).
          let s3 = (if 0 <s r then upd_file f (\<lambda>y. y\<lparr>f_off := f_off y + r\<rparr>) s2 else s2) in
          bindE (iunlock (f_ip x) s3) (\<lambda>s4. Inr (r, s4)))))
      | FD_NONE \<Rightarrow> Inl (Panic ''fileread''))"

text \<open>The most bytes one transaction writes.\<close>

definition write_max :: nat where
  "write_max = ((MAXOPBLOCKS - 1 - 1 - 2) div 2) * BSIZE"

lemma write_max_pos: "0 < write_max"
  by (simp add: write_max_def MAXOPBLOCKS_def BSIZE_def)

text \<open>One round: the result of \<^verbatim>\<open>writei\<close> for \<open>n1\<close> bytes from \<open>addr\<close>.\<close>

definition filewrite_chunk :: "'z kfile_scheme senv \<Rightarrow> nat \<Rightarrow> u64 \<Rightarrow> nat \<Rightarrow> 'z kfile_scheme \<Rightarrow> (i32 \<times> 'z kfile_scheme) res" where
  "filewrite_chunk e f addr n1 s =
     bindE (begin_op e s) (\<lambda>s1.
     bindE (ilock e (f_ip (ftable s1 f)) s1) (\<lambda>s2.
     bindE (the_inode (f_ip (ftable s2 f))) (\<lambda>ip.
     bindE (writei e ip (USrc addr) (f_off (ftable s2 f)) (of_nat n1) s2) (\<lambda>(r, s3).
     let s4 = (if 0 <s r then upd_file f (\<lambda>y. y\<lparr>f_off := f_off y + r\<rparr>) s3 else s3) in
     bindE (iunlock (f_ip (ftable s4 f)) s4) (\<lambda>s5.
     bindE (end_op e s5) (\<lambda>s6. Inr (r, s6)))))))"

function filewrite_loop ::
  "'z kfile_scheme senv \<Rightarrow> nat \<Rightarrow> u64 \<Rightarrow> nat \<Rightarrow> nat \<Rightarrow> 'z kfile_scheme \<Rightarrow> (nat \<times> 'z kfile_scheme) res" where
  "filewrite_loop e f addr n i s =
     (if i < n
      then let n1 = min (n - i) write_max in
           bindE (filewrite_chunk e f (addr + of_nat i) n1 s) (\<lambda>(r, s1).
             if r \<noteq> of_nat n1 then Inr (i, s1) else filewrite_loop e f addr n (i + n1) s1)
      else Inr (i, s))"
  by pat_completeness auto
termination
  by (relation "measure (\<lambda>(e, f, addr, n, i, s). n - i)") (use write_max_pos in \<open>auto simp: min_def\<close>)

declare filewrite_loop.simps [simp del]

definition filewrite :: "'z kfile_scheme senv \<Rightarrow> nat \<Rightarrow> u64 \<Rightarrow> i32 \<Rightarrow> 'z kfile_scheme \<Rightarrow> (i32 \<times> 'z kfile_scheme) res" where
  "filewrite e f addr n s =
     (let x = ftable s f in
      if \<not> f_writable x then Inr (- 1, s)
      else case f_type x of
        FD_PIPE \<Rightarrow> bindE (pipewrite (fst e) (snd e) (f_pipe x) addr n s) (\<lambda>(r, s1). Inr (word_of_int r, s1))
      | FD_DEVICE \<Rightarrow>
          if bad_major (f_major x) then Inr (- 1, s)
          else (case dv_write (devsw s (unat (f_major x))) of
                  None \<Rightarrow> Inr (- 1, s) | Some d \<Rightarrow> dev_write e d addr n s)
      | FD_INODE \<Rightarrow>
          bindE (filewrite_loop e f addr (nat (sint n)) 0 s) (\<lambda>(i, s1). Inr (if int i = sint n then n else - 1, s1))
      | FD_NONE \<Rightarrow> Inl (Panic ''filewrite''))"

section \<open>\<^verbatim>\<open>pipealloc\<close>\<close>

text \<open>The page of a new pipe holds the bytes \<^verbatim>\<open>kalloc\<close> fills it with.\<close>

definition new_pipe :: pipe where
  "new_pipe = \<lparr>pi_data = replicate PIPESIZE 5, nread = 0, nwrite = 0, readopen = True, writeopen = True\<rparr>"

definition close_opt :: "'z kfile_scheme senv \<Rightarrow> nat option \<Rightarrow> 'z kfile_scheme \<Rightarrow> 'z kfile_scheme res" where
  "close_opt e fo s = (case fo of None \<Rightarrow> Inr s | Some f \<Rightarrow> fileclose e f s)"

text \<open>The label \<^verbatim>\<open>bad\<close>; it is only reached with no page allocated.\<close>

definition pipealloc_bad ::
  "'z kfile_scheme senv \<Rightarrow> nat option \<Rightarrow> nat option \<Rightarrow> 'z kfile_scheme \<Rightarrow> ((nat \<times> nat) option \<times> 'z kfile_scheme) res" where
  "pipealloc_bad e f0 f1 s = bindE (close_opt e f0 s) (\<lambda>s1. bindE (close_opt e f1 s1) (\<lambda>s2. Inr (None, s2)))"

text \<open>\<open>None\<close> is the return of -1, \<open>Some (f0, f1)\<close> a return of 0 with the two files stored.\<close>

definition pipealloc :: "'z kfile_scheme senv \<Rightarrow> 'z kfile_scheme \<Rightarrow> ((nat \<times> nat) option \<times> 'z kfile_scheme) res" where
  "pipealloc e s =
     bindE (filealloc s) (\<lambda>(r0, s1).
       case r0 of None \<Rightarrow> pipealloc_bad e None None s1
       | Some f0 \<Rightarrow>
         bindE (filealloc s1) (\<lambda>(r1, s2).
           case r1 of None \<Rightarrow> pipealloc_bad e (Some f0) None s2
           | Some f1 \<Rightarrow>
             bindE (kalloc s2) (\<lambda>(pi, s3).
               if pi = 0 then pipealloc_bad e (Some f0) (Some f1) s3
               else Inr (Some (f0, f1),
                 upd_file f1 (\<lambda>x. x\<lparr>f_type := FD_PIPE, f_readable := False, f_writable := True, f_pipe := pi\<rparr>)
                   (upd_file f0 (\<lambda>x. x\<lparr>f_type := FD_PIPE, f_readable := True, f_writable := False, f_pipe := pi\<rparr>)
                     (set_pipe pi new_pipe s3))))))"

end
