(* ===== verification/Process.thy ===== *)
theory Process
  imports File
begin

text \<open>
  Processes with their files and directories: \<^verbatim>\<open>fork\<close>, \<^verbatim>\<open>exit\<close> and \<^verbatim>\<open>userinit\<close> of \<^verbatim>\<open>kernel/proc.c\<close> (the
  rest of that file is in \<open>Proc\<close>), and the trap frame of a process, a \<^verbatim>\<open>struct trapframe\<close> stored in
  a page of the byte memory.
\<close>

section \<open>The trap frame\<close>

datatype tfreg =
    TF_kernel_satp | TF_kernel_sp | TF_kernel_trap | TF_epc | TF_kernel_hartid
  | TF_ra | TF_sp | TF_gp | TF_tp | TF_t0 | TF_t1 | TF_t2 | TF_s0 | TF_s1
  | TF_a0 | TF_a1 | TF_a2 | TF_a3 | TF_a4 | TF_a5 | TF_a6 | TF_a7
  | TF_s2 | TF_s3 | TF_s4 | TF_s5 | TF_s6 | TF_s7 | TF_s8 | TF_s9 | TF_s10 | TF_s11
  | TF_t3 | TF_t4 | TF_t5 | TF_t6

fun tf_off :: "tfreg \<Rightarrow> u64" where
  "tf_off TF_kernel_satp = 0" | "tf_off TF_kernel_sp = 8" | "tf_off TF_kernel_trap = 16" | "tf_off TF_epc = 24"
| "tf_off TF_kernel_hartid = 32" | "tf_off TF_ra = 40" | "tf_off TF_sp = 48" | "tf_off TF_gp = 56" | "tf_off TF_tp = 64"
| "tf_off TF_t0 = 72" | "tf_off TF_t1 = 80" | "tf_off TF_t2 = 88" | "tf_off TF_s0 = 96" | "tf_off TF_s1 = 104"
| "tf_off TF_a0 = 112" | "tf_off TF_a1 = 120" | "tf_off TF_a2 = 128" | "tf_off TF_a3 = 136" | "tf_off TF_a4 = 144"
| "tf_off TF_a5 = 152" | "tf_off TF_a6 = 160" | "tf_off TF_a7 = 168" | "tf_off TF_s2 = 176" | "tf_off TF_s3 = 184"
| "tf_off TF_s4 = 192" | "tf_off TF_s5 = 200" | "tf_off TF_s6 = 208" | "tf_off TF_s7 = 216" | "tf_off TF_s8 = 224"
| "tf_off TF_s9 = 232" | "tf_off TF_s10 = 240" | "tf_off TF_s11 = 248" | "tf_off TF_t3 = 256" | "tf_off TF_t4 = 264"
| "tf_off TF_t5 = 272" | "tf_off TF_t6 = 280"

definition TF_SIZE :: nat where "TF_SIZE = 288"

definition tf_load :: "nat \<Rightarrow> tfreg \<Rightarrow> 'z kproc_scheme \<Rightarrow> u64" where
  "tf_load i r s = load64 (pmem s) (p_trapframe (ptable s i) + tf_off r)"

definition tf_store :: "nat \<Rightarrow> tfreg \<Rightarrow> u64 \<Rightarrow> 'z kproc_scheme \<Rightarrow> 'z kproc_scheme" where
  "tf_store i r v s = s\<lparr>pmem := store64 (pmem s) (p_trapframe (ptable s i) + tf_off r) v\<rparr>"

section \<open>\<^verbatim>\<open>fork\<close>\<close>

definition set_ofile :: "nat \<Rightarrow> nat \<Rightarrow> nat option \<Rightarrow> 'z kproc_scheme \<Rightarrow> 'z kproc_scheme" where
  "set_ofile i fd f s = upd_proc i (\<lambda>p. p\<lparr>p_ofile := (p_ofile p)(fd := f)\<rparr>) s"

definition fork_file :: "nat \<Rightarrow> nat \<Rightarrow> nat \<Rightarrow> 'z kfile_scheme \<Rightarrow> 'z kfile_scheme res" where
  "fork_file p np fd s =
     (case p_ofile (ptable s p) fd of None \<Rightarrow> Inr s
      | Some f \<Rightarrow> bindE (filedup f s) (\<lambda>(g, s1). Inr (set_ofile np fd (Some g) s1)))"

definition fork :: "'z kfile_scheme \<Rightarrow> (i32 \<times> 'z kfile_scheme) res" where
  "fork s =
     bindE (thisproc s) (\<lambda>p.
     bindE (allocproc s) (\<lambda>(r, s1).
       case r of None \<Rightarrow> Inr (- 1, s1)
       | Some np \<Rightarrow>
         bindE (uvmcopy (p_pagetable (ptable s1 p)) (p_pagetable (ptable s1 np)) (p_sz (ptable s1 p)) s1) (\<lambda>(c, s2).
           if c < 0
           then bindE (freeproc np s2) (\<lambda>s3. bindE (lk_release (L_proc np) s3) (\<lambda>s4. Inr (- 1, s4)))
           else let s3 = upd_proc np (\<lambda>x. x\<lparr>p_sz := p_sz (ptable s2 p)\<rparr>) s2;
                    s4 = s3\<lparr>pmem := memmove (pmem s3) (p_trapframe (ptable s3 np)) (p_trapframe (ptable s3 p)) (of_nat TF_SIZE)\<rparr>;
                    s5 = tf_store np TF_a0 0 s4
           in bindE (foldE (fork_file p np) [0..<NOFILE] s5) (\<lambda>s6.
              bindE (the_inode (p_cwd (ptable s6 p))) (\<lambda>cwd.
              bindE (idup cwd s6) (\<lambda>(ip, s7).
              let s8 = upd_proc np (\<lambda>x. x\<lparr>p_cwd := Some ip\<rparr>) s7 in
              bindE (safestrcpy (p_name (ptable s8 np)) (p_name (ptable s8 p)) 16) (\<lambda>nm.
              let s9 = upd_proc np (\<lambda>x. x\<lparr>p_name := nm\<rparr>) s8;
                  pid = p_pid (ptable s9 np)
              in bindE (lk_release (L_proc np) s9) (\<lambda>s10.
                 bindE (lk_acquire L_wait s10) (\<lambda>s11.
                 bindE (lk_release L_wait (upd_proc np (\<lambda>x. x\<lparr>p_parent := Some p\<rparr>) s11)) (\<lambda>s12.
                 bindE (lk_acquire (L_proc np) s12) (\<lambda>s13.
                 bindE (lk_release (L_proc np) (upd_proc np (\<lambda>x. x\<lparr>p_state := RUNNABLE\<rparr>) s13)) (\<lambda>s14.
                   Inr (pid, s14)))))))))))))"

section \<open>\<^verbatim>\<open>exit\<close>\<close>

definition exit_file :: "'z kfile_scheme senv \<Rightarrow> nat \<Rightarrow> nat \<Rightarrow> 'z kfile_scheme \<Rightarrow> 'z kfile_scheme res" where
  "exit_file e p fd s =
     (case p_ofile (ptable s p) fd of None \<Rightarrow> Inr s
      | Some f \<Rightarrow> bindE (fileclose e f s) (\<lambda>s1. Inr (set_ofile p fd None s1)))"

text \<open>\<^verbatim>\<open>exit\<close> up to its last call, in the state in which it enters the scheduler.\<close>

definition exit_to_sched :: "'z kfile_scheme senv \<Rightarrow> i32 \<Rightarrow> 'z kfile_scheme \<Rightarrow> 'z kfile_scheme res" where
  "exit_to_sched e status s =
     bindE (thisproc s) (\<lambda>p.
       if initproc s = Some p then Inl (Panic ''init exiting'')
       else bindE (foldE (exit_file e p) [0..<NOFILE] s) (\<lambda>s1.
            bindE (begin_op e s1) (\<lambda>s2.
            bindE (the_inode (p_cwd (ptable s2 p))) (\<lambda>cwd.
            bindE (iput e cwd s2) (\<lambda>s3.
            bindE (end_op e s3) (\<lambda>s4.
            bindE (lk_acquire L_wait (upd_proc p (\<lambda>x. x\<lparr>p_cwd := None\<rparr>) s4)) (\<lambda>s5.
            bindE (reparent p s5) (\<lambda>s6.
            bindE (wakeup (proc_chan (p_parent (ptable s6 p))) s6) (\<lambda>s7.
            bindE (lk_acquire (L_proc p) s7) (\<lambda>s8.
              lk_release L_wait (upd_proc p (\<lambda>x. x\<lparr>p_xstate := status, p_state := ZOMBIE\<rparr>) s8)))))))))))"

definition exit :: "'z kfile_scheme senv \<Rightarrow> i32 \<Rightarrow> 'z kfile_scheme \<Rightarrow> 'z kfile_scheme res" where
  "exit e status s =
     bindE (exit_to_sched e status s) (\<lambda>s1. bindE (sched (snd e) s1) (\<lambda>_. Inl (Panic ''zombie exit'')))"

section \<open>\<^verbatim>\<open>userinit\<close>\<close>

definition initcode :: "u8 list" where
  "initcode = [
     0x17, 0x05, 0x00, 0x00, 0x13, 0x05, 0x45, 0x02,
     0x97, 0x05, 0x00, 0x00, 0x93, 0x85, 0x35, 0x02,
     0x93, 0x08, 0x70, 0x00, 0x73, 0x00, 0x00, 0x00,
     0x93, 0x08, 0x20, 0x00, 0x73, 0x00, 0x00, 0x00,
     0xef, 0xf0, 0x9f, 0xff, 0x2f, 0x69, 0x6e, 0x69,
     0x74, 0x00, 0x00, 0x24, 0x00, 0x00, 0x00, 0x00,
     0x00, 0x00, 0x00, 0x00]"

definition userinit :: "'z kfile_scheme senv \<Rightarrow> 'z kfile_scheme \<Rightarrow> 'z kfile_scheme res" where
  "userinit e s =
     bindE (allocproc s) (\<lambda>(r, s1).
       let s2 = s1\<lparr>initproc := r\<rparr> in
       case r of None \<Rightarrow> Inl (Undef ''null proc'')
       | Some p \<Rightarrow>
         bindE (uvmfirst (p_pagetable (ptable s2 p)) initcode s2) (\<lambda>s3.
         let s4 = upd_proc p (\<lambda>x. x\<lparr>p_sz := PGSIZE\<rparr>) s3;
             s5 = tf_store p TF_epc 0 s4;
             s6 = tf_store p TF_sp PGSIZE s5
         in bindE (safestrcpy (p_name (ptable s6 p)) (asc ''initcode'' @ [0]) 16) (\<lambda>nm.
            bindE (namei e [slash, 0] (upd_proc p (\<lambda>x. x\<lparr>p_name := nm\<rparr>) s6)) (\<lambda>(cwd, s7).
              lk_release (L_proc p) (upd_proc p (\<lambda>x. x\<lparr>p_cwd := cwd, p_state := RUNNABLE\<rparr>) s7)))))"

end
