(* ===== verification/Sysargs.thy ===== *)
theory Sysargs
  imports Process
begin

text \<open>
  Arguments of system calls, the first part of \<^verbatim>\<open>kernel/syscall.c\<close>: the argument registers of the trap
  frame, and 64-bit values and strings fetched from the memory of the calling process.
\<close>

definition un64 :: "u8 list \<Rightarrow> u64" where
  "un64 bs = ucast (un32 (take 4 bs)) OR push_bit 32 (ucast (un32 (drop 4 bs)))"

definition fetchaddr :: "u64 \<Rightarrow> 'z kproc_scheme \<Rightarrow> (i32 \<times> u64) res" where
  "fetchaddr addr s =
     bindE (thisproc s) (\<lambda>p.
       let sz = p_sz (ptable s p) in
       if sz \<le> addr \<or> sz < addr + 8 then Inr (- 1, 0)
       else bindE (copyin (p_pagetable (ptable s p)) addr 8 s) (\<lambda>(r, bs).
              if r \<noteq> 0 then Inr (- 1, 0) else Inr (0, un64 bs)))"

text \<open>The result has the bytes stored in \<^verbatim>\<open>buf\<close>.\<close>

definition fetchstr :: "u64 \<Rightarrow> nat \<Rightarrow> 'z kproc_scheme \<Rightarrow> (i32 \<times> u8 list) res" where
  "fetchstr addr mx s =
     bindE (thisproc s) (\<lambda>p.
     bindE (copyinstr (p_pagetable (ptable s p)) addr mx s) (\<lambda>(r, buf).
       if r < 0 then Inr (- 1, buf) else bindE (strlen buf) (\<lambda>n. Inr (of_nat n, buf))))"

definition argraw :: "nat \<Rightarrow> 'z kproc_scheme \<Rightarrow> u64 res" where
  "argraw n s =
     bindE (thisproc s) (\<lambda>p.
       if n = 0 then Inr (tf_load p TF_a0 s)
       else if n = 1 then Inr (tf_load p TF_a1 s)
       else if n = 2 then Inr (tf_load p TF_a2 s)
       else if n = 3 then Inr (tf_load p TF_a3 s)
       else if n = 4 then Inr (tf_load p TF_a4 s)
       else if n = 5 then Inr (tf_load p TF_a5 s)
       else Inl (Panic ''argraw''))"

definition argint :: "nat \<Rightarrow> 'z kproc_scheme \<Rightarrow> i32 res" where
  "argint n s = bindE (argraw n s) (\<lambda>v. Inr (ucast v))"

definition argaddr :: "nat \<Rightarrow> 'z kproc_scheme \<Rightarrow> u64 res" where
  "argaddr n s = argraw n s"

definition argstr :: "nat \<Rightarrow> nat \<Rightarrow> 'z kproc_scheme \<Rightarrow> (i32 \<times> u8 list) res" where
  "argstr n mx s = bindE (argaddr n s) (\<lambda>addr. fetchstr addr mx s)"

end
