(* ===== verification/Sysproc.thy ===== *)
theory Sysproc
  imports Sysargs
begin

text \<open>
  The system calls of \<^verbatim>\<open>kernel/sysproc.c\<close>: processes, memory, the clock, and the scheduler and \<^verbatim>\<open>ps\<close>
  calls. Handlers return the 64-bit value stored in \<^verbatim>\<open>a0\<close>; an \<^verbatim>\<open>int\<close> result is sign extended.
\<close>

definition sys_exit :: "'z kfile_scheme senv \<Rightarrow> 'z kfile_scheme \<Rightarrow> (u64 \<times> 'z kfile_scheme) res" where
  "sys_exit e s = bindE (argint 0 s) (\<lambda>n. bindE (exit e n s) (\<lambda>s1. Inr (0, s1)))"

definition sys_getpid :: "'z kproc_scheme \<Rightarrow> (u64 \<times> 'z kproc_scheme) res" where
  "sys_getpid s = bindE (thisproc s) (\<lambda>p. Inr (scast (p_pid (ptable s p)), s))"

definition sys_fork :: "'z kfile_scheme \<Rightarrow> (u64 \<times> 'z kfile_scheme) res" where
  "sys_fork s = bindE (fork s) (\<lambda>(r, s1). Inr (scast r, s1))"

definition sys_wait :: "'z kproc_scheme senv \<Rightarrow> 'z kproc_scheme \<Rightarrow> (u64 \<times> 'z kproc_scheme) res" where
  "sys_wait e s =
     bindE (argaddr 0 s) (\<lambda>p. bindE (wait (fst e) (snd e) p s) (\<lambda>(r, s1). Inr (of_int r, s1)))"

definition sys_sbrk :: "'z kproc_scheme \<Rightarrow> (u64 \<times> 'z kproc_scheme) res" where
  "sys_sbrk s =
     bindE (argint 0 s) (\<lambda>n.
     bindE (thisproc s) (\<lambda>p.
       let addr = p_sz (ptable s p) in
       bindE (growproc n s) (\<lambda>(r, s1). if r < 0 then Inr (- 1, s1) else Inr (addr, s1))))"

text \<open>The comparison is of unsigned values, as \<^verbatim>\<open>ticks\<close> is a \<^verbatim>\<open>uint\<close>.\<close>

fun sys_sleep_loop :: "nat \<Rightarrow> ('z kproc_scheme \<Rightarrow> 'z kproc_scheme) \<Rightarrow> u32 \<Rightarrow> i32 \<Rightarrow> 'z kproc_scheme \<Rightarrow> (u64 \<times> 'z kproc_scheme) res" where
  "sys_sleep_loop 0 E ticks0 n s = Inl (Blocked ''sys_sleep'')"
| "sys_sleep_loop (Suc k) E ticks0 n s =
     (if ticks s - ticks0 < n
      then bindE (thisproc s) (\<lambda>p.
           bindE (killed p s) (\<lambda>(kd, s1).
             if kd \<noteq> 0 then bindE (lk_release L_tick s1) (\<lambda>s2. Inr (- 1, s2))
             else bindE (sleep E C_ticks L_tick s1) (sys_sleep_loop k E ticks0 n)))
      else bindE (lk_release L_tick s) (\<lambda>s1. Inr (0, s1)))"

definition sys_sleep :: "'z kproc_scheme senv \<Rightarrow> 'z kproc_scheme \<Rightarrow> (u64 \<times> 'z kproc_scheme) res" where
  "sys_sleep e s =
     bindE (argint 0 s) (\<lambda>n.
     bindE (lk_acquire L_tick s) (\<lambda>s1. sys_sleep_loop (fst e) (snd e) (ticks s1) n s1))"

definition sys_kill :: "'z kproc_scheme \<Rightarrow> (u64 \<times> 'z kproc_scheme) res" where
  "sys_kill s = bindE (argint 0 s) (\<lambda>pid. bindE (kill pid s) (\<lambda>(r, s1). Inr (of_int r, s1)))"

definition sys_uptime :: "'z kproc_scheme \<Rightarrow> (u64 \<times> 'z kproc_scheme) res" where
  "sys_uptime s =
     bindE (lk_acquire L_tick s) (\<lambda>s1.
       let xticks = ticks s1 in
       bindE (lk_release L_tick s1) (\<lambda>s2. Inr (ucast xticks, s2)))"

text \<open>Both arguments are truncated to bytes; \<open>junk\<close> is the uninitialised array of \<^verbatim>\<open>ps\<close>.\<close>

definition sys_ps :: "u8 list \<Rightarrow> 'z kproc_scheme \<Rightarrow> (u64 \<times> 'z kproc_scheme) res" where
  "sys_ps junk s =
     bindE (argint 0 s) (\<lambda>start. bindE (argint 1 s) (\<lambda>count. ps (ucast start) (ucast count) junk s))"

definition sys_schedls :: "'z kproc_scheme \<Rightarrow> (u64 \<times> 'z kproc_scheme) res" where
  "sys_schedls s = bindE (schedls s) (\<lambda>s1. Inr (0, s1))"

definition sys_schedset :: "'z kproc_scheme \<Rightarrow> (u64 \<times> 'z kproc_scheme) res" where
  "sys_schedset s =
     bindE (argint 0 s) (\<lambda>ident. bindE (schedset ident s) (\<lambda>s1. Inr (0, s1)))"

end
