(* ===== verification/Sysfile.thy ===== *)
theory Sysfile
  imports Sysargs
begin

text \<open>
  The system calls on files, \<^verbatim>\<open>kernel/sysfile.c\<close> (\<^verbatim>\<open>sys_exec\<close> is with \<^verbatim>\<open>exec\<close>). A handler returns the 64-bit
  value that \<^verbatim>\<open>syscall\<close> stores in \<^verbatim>\<open>a0\<close>; an \<^verbatim>\<open>int\<close> is sign extended to it. Local name arrays start as
  zeros; the code writes them before it reads them.
\<close>

section \<open>File descriptors\<close>

definition argfd :: "nat \<Rightarrow> 'z kproc_scheme \<Rightarrow> (nat \<times> nat) option res" where
  "argfd n s =
     bindE (argint n s) (\<lambda>fd.
       if sint fd < 0 \<or> int NOFILE \<le> sint fd then Inr None
       else bindE (thisproc s) (\<lambda>p.
         case p_ofile (ptable s p) (unat fd) of None \<Rightarrow> Inr None | Some f \<Rightarrow> Inr (Some (unat fd, f))))"

definition fdalloc :: "nat \<Rightarrow> 'z kproc_scheme \<Rightarrow> (nat option \<times> 'z kproc_scheme) res" where
  "fdalloc f s =
     bindE (thisproc s) (\<lambda>p.
       case find (\<lambda>fd. p_ofile (ptable s p) fd = None) [0..<NOFILE] of
         None \<Rightarrow> Inr (None, s) | Some fd \<Rightarrow> Inr (Some fd, set_ofile p fd (Some f) s))"

definition sys_dup :: "'z kfile_scheme \<Rightarrow> (u64 \<times> 'z kfile_scheme) res" where
  "sys_dup s =
     bindE (argfd 0 s) (\<lambda>a.
       case a of None \<Rightarrow> Inr (- 1, s)
       | Some (_, f) \<Rightarrow>
         bindE (fdalloc f s) (\<lambda>(r, s1).
           case r of None \<Rightarrow> Inr (- 1, s1)
           | Some fd \<Rightarrow> bindE (filedup f s1) (\<lambda>(_, s2). Inr (of_nat fd, s2))))"

definition sys_read :: "'z kfile_scheme senv \<Rightarrow> 'z kfile_scheme \<Rightarrow> (u64 \<times> 'z kfile_scheme) res" where
  "sys_read e s =
     bindE (argaddr 1 s) (\<lambda>p.
     bindE (argint 2 s) (\<lambda>n.
     bindE (argfd 0 s) (\<lambda>a.
       case a of None \<Rightarrow> Inr (- 1, s)
       | Some (_, f) \<Rightarrow> bindE (fileread e f p n s) (\<lambda>(r, s1). Inr (scast r, s1)))))"

definition sys_write :: "'z kfile_scheme senv \<Rightarrow> 'z kfile_scheme \<Rightarrow> (u64 \<times> 'z kfile_scheme) res" where
  "sys_write e s =
     bindE (argaddr 1 s) (\<lambda>p.
     bindE (argint 2 s) (\<lambda>n.
     bindE (argfd 0 s) (\<lambda>a.
       case a of None \<Rightarrow> Inr (- 1, s)
       | Some (_, f) \<Rightarrow> bindE (filewrite e f p n s) (\<lambda>(r, s1). Inr (scast r, s1)))))"

definition sys_close :: "'z kfile_scheme senv \<Rightarrow> 'z kfile_scheme \<Rightarrow> (u64 \<times> 'z kfile_scheme) res" where
  "sys_close e s =
     bindE (argfd 0 s) (\<lambda>a.
       case a of None \<Rightarrow> Inr (- 1, s)
       | Some (fd, f) \<Rightarrow>
         bindE (thisproc s) (\<lambda>p.
         bindE (fileclose e f (set_ofile p fd None s)) (\<lambda>s1. Inr (0, s1))))"

definition sys_fstat :: "'z kfile_scheme senv \<Rightarrow> u8 list \<Rightarrow> 'z kfile_scheme \<Rightarrow> (u64 \<times> 'z kfile_scheme) res" where
  "sys_fstat e pad s =
     bindE (argaddr 1 s) (\<lambda>st.
     bindE (argfd 0 s) (\<lambda>a.
       case a of None \<Rightarrow> Inr (- 1, s)
       | Some (_, f) \<Rightarrow> bindE (filestat e pad f st s) (\<lambda>(r, s1). Inr (scast r, s1))))"

section \<open>Links\<close>

text \<open>A change of \<^verbatim>\<open>nlink\<close> that is written to disk.\<close>

definition nlink_add :: "'z kfs_scheme senv \<Rightarrow> nat \<Rightarrow> u16 \<Rightarrow> 'z kfs_scheme \<Rightarrow> 'z kfs_scheme res" where
  "nlink_add e ip d s = iupdate e ip (upd_inode ip (\<lambda>i. i\<lparr>i_nlink := i_nlink i + d\<rparr>) s)"

text \<open>\<^verbatim>\<open>end_op()\<close> and \<^verbatim>\<open>return -1\<close>, with and without a locked inode.\<close>

definition fail_op :: "'z kfs_scheme senv \<Rightarrow> 'z kfs_scheme \<Rightarrow> (u64 \<times> 'z kfs_scheme) res" where
  "fail_op e s = bindE (end_op e s) (\<lambda>s1. Inr (- 1, s1))"

definition fail_put :: "'z kfs_scheme senv \<Rightarrow> nat \<Rightarrow> 'z kfs_scheme \<Rightarrow> (u64 \<times> 'z kfs_scheme) res" where
  "fail_put e ip s = bindE (iunlockput e (Some ip) s) (fail_op e)"

text \<open>The label \<^verbatim>\<open>bad\<close> of \<^verbatim>\<open>sys_link\<close>.\<close>

definition link_bad :: "'z kfs_scheme senv \<Rightarrow> nat \<Rightarrow> 'z kfs_scheme \<Rightarrow> (u64 \<times> 'z kfs_scheme) res" where
  "link_bad e ip s =
     bindE (ilock e (Some ip) s) (\<lambda>s1.
     bindE (nlink_add e ip (- 1) s1) (fail_put e ip))"

definition sys_link :: "'z kfs_scheme senv \<Rightarrow> 'z kfs_scheme \<Rightarrow> (u64 \<times> 'z kfs_scheme) res" where
  "sys_link e s =
     bindE (argstr 0 MAXPATH s) (\<lambda>(r0, old).
       if r0 <s 0 then Inr (- 1, s)
       else bindE (argstr 1 MAXPATH s) (\<lambda>(r1, new).
         if r1 <s 0 then Inr (- 1, s)
         else bindE (begin_op e s) (\<lambda>s1.
              bindE (namei e old s1) (\<lambda>(ipo, s2).
              case ipo of None \<Rightarrow> fail_op e s2
              | Some ip \<Rightarrow>
                bindE (ilock e (Some ip) s2) (\<lambda>s3.
                if i_type (itable s3 ip) = T_DIR then fail_put e ip s3
                else bindE (nlink_add e ip 1 s3) (\<lambda>s4.
                     bindE (iunlock (Some ip) s4) (\<lambda>s5.
                     bindE (nameiparent e new (replicate DIRSIZ 0) s5) (\<lambda>(dpo, name, s6).
                     case dpo of None \<Rightarrow> link_bad e ip s6
                     | Some dp \<Rightarrow>
                       bindE (ilock e (Some dp) s6) (\<lambda>s7.
                       bindE (if i_dev (itable s7 dp) \<noteq> i_dev (itable s7 ip) then Inr (- 1, s7)
                              else dirlink e dp name (i_inum (itable s7 ip)) s7) (\<lambda>(d, s8).
                       if d < 0 then bindE (iunlockput e (Some dp) s8) (link_bad e ip)
                       else bindE (iunlockput e (Some dp) s8) (\<lambda>s9.
                            bindE (iput e ip s9) (\<lambda>s10.
                            bindE (end_op e s10) (\<lambda>s11. Inr (0, s11))))))))))))))"

fun isdirempty_loop :: "'z kfs_scheme senv \<Rightarrow> nat \<Rightarrow> nat list \<Rightarrow> 'z kfs_scheme \<Rightarrow> (bool \<times> 'z kfs_scheme) res" where
  "isdirempty_loop e dp [] s = Inr (True, s)"
| "isdirempty_loop e dp (off # offs) s =
     bindE (readi e dp False 0 (of_nat off) 16 s) (\<lambda>(r, de, s1).
       if r \<noteq> 16 then Inl (Panic ''isdirempty: readi'')
       else if de_inum de \<noteq> 0 then Inr (False, s1) else isdirempty_loop e dp offs s1)"

definition isdirempty :: "'z kfs_scheme senv \<Rightarrow> nat \<Rightarrow> 'z kfs_scheme \<Rightarrow> (bool \<times> 'z kfs_scheme) res" where
  "isdirempty e dp s = isdirempty_loop e dp (drop 2 (dirent_offs (i_size (itable s dp)))) s"

text \<open>\<^verbatim>\<open>sys_unlink\<close> from the point where both inodes are locked.\<close>

definition unlink_found :: "'z kfs_scheme senv \<Rightarrow> nat \<Rightarrow> nat \<Rightarrow> u32 \<Rightarrow> 'z kfs_scheme \<Rightarrow> (u64 \<times> 'z kfs_scheme) res" where
  "unlink_found e dp ip off s =
     (if sint (i_nlink (itable s ip)) < 1 then Inl (Panic ''unlink: nlink < 1'')
      else bindE (if i_type (itable s ip) = T_DIR then isdirempty e ip s else Inr (True, s)) (\<lambda>(empt, s1).
        if \<not> empt then bindE (iunlockput e (Some ip) s1) (fail_put e dp)
        else bindE (writei e dp (KSrc (replicate 16 0)) off 16 s1) (\<lambda>(w, s2).
          if w \<noteq> 16 then Inl (Panic ''unlink: writei'')
          else bindE (if i_type (itable s2 ip) = T_DIR then nlink_add e dp (- 1) s2 else Inr s2) (\<lambda>s3.
               bindE (iunlockput e (Some dp) s3) (\<lambda>s4.
               bindE (nlink_add e ip (- 1) s4) (\<lambda>s5.
               bindE (iunlockput e (Some ip) s5) (\<lambda>s6.
               bindE (end_op e s6) (\<lambda>s7. Inr (0, s7)))))))))"

definition dot :: "u8 list" where "dot = asc ''.'' @ [0]"
definition dotdot :: "u8 list" where "dotdot = asc ''..'' @ [0]"

definition sys_unlink :: "'z kfs_scheme senv \<Rightarrow> 'z kfs_scheme \<Rightarrow> (u64 \<times> 'z kfs_scheme) res" where
  "sys_unlink e s =
     bindE (argstr 0 MAXPATH s) (\<lambda>(r, path).
       if r <s 0 then Inr (- 1, s)
       else bindE (begin_op e s) (\<lambda>s1.
            bindE (nameiparent e path (replicate DIRSIZ 0) s1) (\<lambda>(dpo, name, s2).
            case dpo of None \<Rightarrow> fail_op e s2
            | Some dp \<Rightarrow>
              bindE (ilock e (Some dp) s2) (\<lambda>s3.
              bindE (namecmp name dot) (\<lambda>c1.
              bindE (if c1 = 0 then Inr 0 else namecmp name dotdot) (\<lambda>c2.
              if c2 = 0 then fail_put e dp s3
              else bindE (dirlookup e dp name s3) (\<lambda>(d, s4).
                case d of None \<Rightarrow> fail_put e dp s4
                | Some (ip, off) \<Rightarrow> bindE (ilock e (Some ip) s4) (unlink_found e dp ip off))))))))"

section \<open>Creating and opening\<close>

definition O_RDONLY :: i32 where "O_RDONLY = 0x000"
definition O_WRONLY :: i32 where "O_WRONLY = 0x001"
definition O_RDWR :: i32 where "O_RDWR = 0x002"
definition O_CREATE :: i32 where "O_CREATE = 0x200"
definition O_TRUNC :: i32 where "O_TRUNC = 0x400"

text \<open>The label \<^verbatim>\<open>fail\<close> of \<^verbatim>\<open>create\<close>.\<close>

definition create_fail :: "'z kfs_scheme senv \<Rightarrow> nat \<Rightarrow> nat \<Rightarrow> 'z kfs_scheme \<Rightarrow> (nat option \<times> 'z kfs_scheme) res" where
  "create_fail e dp ip s =
     bindE (iupdate e ip (upd_inode ip (\<lambda>i. i\<lparr>i_nlink := 0\<rparr>) s)) (\<lambda>s1.
     bindE (iunlockput e (Some ip) s1) (\<lambda>s2.
     bindE (iunlockput e (Some dp) s2) (\<lambda>s3. Inr (None, s3))))"

text \<open>The entries \<^verbatim>\<open>.\<close> and \<^verbatim>\<open>..\<close> of a new directory.\<close>

definition create_dots :: "'z kfs_scheme senv \<Rightarrow> nat \<Rightarrow> nat \<Rightarrow> 'z kfs_scheme \<Rightarrow> (int \<times> 'z kfs_scheme) res" where
  "create_dots e dp ip s =
     bindE (dirlink e ip dot (i_inum (itable s ip)) s) (\<lambda>(r, s1).
       if r < 0 then Inr (- 1, s1) else dirlink e ip dotdot (i_inum (itable s1 dp)) s1)"

text \<open>\<^verbatim>\<open>create\<close> of a name that is not there yet, in the locked directory \<open>dp\<close>.\<close>

definition create_new ::
  "'z kfs_scheme senv \<Rightarrow> nat \<Rightarrow> u8 list \<Rightarrow> u16 \<Rightarrow> u16 \<Rightarrow> u16 \<Rightarrow> 'z kfs_scheme \<Rightarrow> (nat option \<times> 'z kfs_scheme) res" where
  "create_new e dp name type major minor s =
     bindE (ialloc e (i_dev (itable s dp)) type s) (\<lambda>(ipo, s1).
       case ipo of None \<Rightarrow> bindE (iunlockput e (Some dp) s1) (\<lambda>s2. Inr (None, s2))
       | Some ip \<Rightarrow>
         bindE (ilock e (Some ip) s1) (\<lambda>s2.
         bindE (iupdate e ip (upd_inode ip (\<lambda>i. i\<lparr>i_major := major, i_minor := minor, i_nlink := 1\<rparr>) s2)) (\<lambda>s3.
         bindE (if type = T_DIR then create_dots e dp ip s3 else Inr (0, s3)) (\<lambda>(r, s4).
           if r < 0 then create_fail e dp ip s4
           else bindE (dirlink e dp name (i_inum (itable s4 ip)) s4) (\<lambda>(r, s5).
             if r < 0 then create_fail e dp ip s5
             else bindE (if type = T_DIR then nlink_add e dp 1 s5 else Inr s5) (\<lambda>s6.
                  bindE (iunlockput e (Some dp) s6) (\<lambda>s7. Inr (Some ip, s7))))))))"

definition create ::
  "'z kfs_scheme senv \<Rightarrow> u8 list \<Rightarrow> u16 \<Rightarrow> u16 \<Rightarrow> u16 \<Rightarrow> 'z kfs_scheme \<Rightarrow> (nat option \<times> 'z kfs_scheme) res" where
  "create e path type major minor s =
     bindE (nameiparent e path (replicate DIRSIZ 0) s) (\<lambda>(dpo, name, s1).
       case dpo of None \<Rightarrow> Inr (None, s1)
       | Some dp \<Rightarrow>
         bindE (ilock e (Some dp) s1) (\<lambda>s2.
         bindE (dirlookup e dp name s2) (\<lambda>(d, s3).
           case d of
             Some (ip, _) \<Rightarrow>
               bindE (iunlockput e (Some dp) s3) (\<lambda>s4.
               bindE (ilock e (Some ip) s4) (\<lambda>s5.
                 if type = T_FILE \<and> (i_type (itable s5 ip) = T_FILE \<or> i_type (itable s5 ip) = T_DEVICE)
                 then Inr (Some ip, s5)
                 else bindE (iunlockput e (Some ip) s5) (\<lambda>s6. Inr (None, s6))))
           | None \<Rightarrow> create_new e dp name type major minor s3)))"

text \<open>The inode \<^verbatim>\<open>sys_open\<close> goes on with, locked; \<open>None\<close> if it returns -1 here.\<close>

definition open_inode :: "'z kfs_scheme senv \<Rightarrow> u8 list \<Rightarrow> i32 \<Rightarrow> 'z kfs_scheme \<Rightarrow> (nat option \<times> 'z kfs_scheme) res" where
  "open_inode e path omode s =
     (if omode AND O_CREATE \<noteq> 0 then create e path T_FILE 0 0 s
      else bindE (namei e path s) (\<lambda>(ipo, s1).
        case ipo of None \<Rightarrow> Inr (None, s1)
        | Some ip \<Rightarrow>
          bindE (ilock e (Some ip) s1) (\<lambda>s2.
            if i_type (itable s2 ip) = T_DIR \<and> omode \<noteq> O_RDONLY
            then bindE (iunlockput e (Some ip) s2) (\<lambda>s3. Inr (None, s3))
            else Inr (Some ip, s2))))"

text \<open>The fields of the new file.\<close>

definition open_file :: "i32 \<Rightarrow> nat \<Rightarrow> inode \<Rightarrow> filerec \<Rightarrow> filerec" where
  "open_file omode ip i x =
     (if i_type i = T_DEVICE then x\<lparr>f_type := FD_DEVICE, f_major := i_major i\<rparr> else x\<lparr>f_type := FD_INODE, f_off := 0\<rparr>)
     \<lparr>f_ip := Some ip, f_readable := (omode AND O_WRONLY = 0),
      f_writable := (omode AND O_WRONLY \<noteq> 0 \<or> omode AND O_RDWR \<noteq> 0)\<rparr>"

definition sys_open :: "'z kfile_scheme senv \<Rightarrow> 'z kfile_scheme \<Rightarrow> (u64 \<times> 'z kfile_scheme) res" where
  "sys_open e s =
     bindE (argint 1 s) (\<lambda>omode.
     bindE (argstr 0 MAXPATH s) (\<lambda>(n, path).
       if n <s 0 then Inr (- 1, s)
       else bindE (begin_op e s) (\<lambda>s1.
            bindE (open_inode e path omode s1) (\<lambda>(ipo, s2).
            case ipo of None \<Rightarrow> fail_op e s2
            | Some ip \<Rightarrow>
              if i_type (itable s2 ip) = T_DEVICE \<and> bad_major (i_major (itable s2 ip)) then fail_put e ip s2
              else bindE (filealloc s2) (\<lambda>(fo, s3).
                case fo of None \<Rightarrow> fail_put e ip s3
                | Some f \<Rightarrow>
                  bindE (fdalloc f s3) (\<lambda>(fdo, s4).
                    case fdo of None \<Rightarrow> bindE (fileclose e f s4) (fail_put e ip)
                    | Some fd \<Rightarrow>
                      let s5 = upd_file f (open_file omode ip (itable s4 ip)) s4 in
                      bindE (if omode AND O_TRUNC \<noteq> 0 \<and> i_type (itable s5 ip) = T_FILE then itrunc e ip s5 else Inr s5) (\<lambda>s6.
                      bindE (iunlock (Some ip) s6) (\<lambda>s7.
                      bindE (end_op e s7) (\<lambda>s8. Inr (of_nat fd, s8))))))))))"

text \<open>The common end of \<^verbatim>\<open>sys_mkdir\<close> and \<^verbatim>\<open>sys_mknod\<close>.\<close>

definition created :: "'z kfs_scheme senv \<Rightarrow> nat option \<times> 'z kfs_scheme \<Rightarrow> (u64 \<times> 'z kfs_scheme) res" where
  "created e r =
     (case r of (None, s) \<Rightarrow> fail_op e s
      | (Some ip, s) \<Rightarrow> bindE (iunlockput e (Some ip) s) (\<lambda>s1. bindE (end_op e s1) (\<lambda>s2. Inr (0, s2))))"

definition sys_mkdir :: "'z kfs_scheme senv \<Rightarrow> 'z kfs_scheme \<Rightarrow> (u64 \<times> 'z kfs_scheme) res" where
  "sys_mkdir e s =
     bindE (begin_op e s) (\<lambda>s1.
     bindE (argstr 0 MAXPATH s1) (\<lambda>(n, path).
     bindE (if n <s 0 then Inr (None, s1) else create e path T_DIR 0 0 s1) (created e)))"

definition sys_mknod :: "'z kfs_scheme senv \<Rightarrow> 'z kfs_scheme \<Rightarrow> (u64 \<times> 'z kfs_scheme) res" where
  "sys_mknod e s =
     bindE (begin_op e s) (\<lambda>s1.
     bindE (argint 1 s1) (\<lambda>major.
     bindE (argint 2 s1) (\<lambda>minor.
     bindE (argstr 0 MAXPATH s1) (\<lambda>(n, path).
     bindE (if n <s 0 then Inr (None, s1) else create e path T_DEVICE (ucast major) (ucast minor) s1) (created e)))))"

definition sys_chdir :: "'z kfs_scheme senv \<Rightarrow> 'z kfs_scheme \<Rightarrow> (u64 \<times> 'z kfs_scheme) res" where
  "sys_chdir e s =
     bindE (thisproc s) (\<lambda>p.
     bindE (begin_op e s) (\<lambda>s1.
     bindE (argstr 0 MAXPATH s1) (\<lambda>(n, path).
     bindE (if n <s 0 then Inr (None, s1) else namei e path s1) (\<lambda>(ipo, s2).
       case ipo of None \<Rightarrow> fail_op e s2
       | Some ip \<Rightarrow>
         bindE (ilock e (Some ip) s2) (\<lambda>s3.
           if i_type (itable s3 ip) \<noteq> T_DIR then fail_put e ip s3
           else bindE (iunlock (Some ip) s3) (\<lambda>s4.
                bindE (the_inode (p_cwd (ptable s4 p))) (\<lambda>cwd.
                bindE (iput e cwd s4) (\<lambda>s5.
                bindE (end_op e s5) (\<lambda>s6. Inr (0, upd_proc p (\<lambda>x. x\<lparr>p_cwd := Some ip\<rparr>) s6))))))))))"

text \<open>The clean-up of \<^verbatim>\<open>sys_pipe\<close>: descriptors cleared, both files closed, -1.\<close>

definition pipe_undo :: "'z kfile_scheme senv \<Rightarrow> nat \<Rightarrow> nat list \<Rightarrow> nat \<Rightarrow> nat \<Rightarrow> 'z kfile_scheme \<Rightarrow> (u64 \<times> 'z kfile_scheme) res" where
  "pipe_undo e p fds rfile wfile s =
     bindE (fileclose e rfile (fold (\<lambda>fd. set_ofile p fd None) fds s)) (\<lambda>s1.
     bindE (fileclose e wfile s1) (\<lambda>s2. Inr (- 1, s2)))"

definition sys_pipe :: "'z kfile_scheme senv \<Rightarrow> 'z kfile_scheme \<Rightarrow> (u64 \<times> 'z kfile_scheme) res" where
  "sys_pipe e s =
     bindE (thisproc s) (\<lambda>p.
     bindE (argaddr 0 s) (\<lambda>fdarray.
     bindE (pipealloc e s) (\<lambda>(r, s1).
       case r of None \<Rightarrow> Inr (- 1, s1)
       | Some (rfile, wfile) \<Rightarrow>
         bindE (fdalloc rfile s1) (\<lambda>(fd0o, s2).
           case fd0o of None \<Rightarrow> pipe_undo e p [] rfile wfile s2
           | Some fd0 \<Rightarrow>
             bindE (fdalloc wfile s2) (\<lambda>(fd1o, s3).
               case fd1o of None \<Rightarrow> pipe_undo e p [fd0] rfile wfile s3
               | Some fd1 \<Rightarrow>
                 bindE (copyout (p_pagetable (ptable s3 p)) fdarray (le32 (of_nat fd0)) s3) (\<lambda>(c0, s4).
                   if c0 < 0 then pipe_undo e p [fd0, fd1] rfile wfile s4
                   else bindE (copyout (p_pagetable (ptable s4 p)) (fdarray + 4) (le32 (of_nat fd1)) s4) (\<lambda>(c1, s5).
                     if c1 < 0 then pipe_undo e p [fd0, fd1] rfile wfile s5 else Inr (0, s5))))))))"

end
