(* ===== verification/Exec.thy ===== *)
theory Exec
  imports Sysfile
begin

text \<open>
  Program execution: \<^verbatim>\<open>kernel/exec.c\<close>, the ELF structures of \<^verbatim>\<open>kernel/elf.h\<close>, and \<^verbatim>\<open>sys_exec\<close>. The headers are
  read into byte lists; their fields are read at the offsets the compiler gives them.
\<close>

section \<open>ELF headers\<close>

definition ELF_MAGIC :: u32 where "ELF_MAGIC = 0x464C457F"
definition ELF_PROG_LOAD :: u32 where "ELF_PROG_LOAD = 1"
definition ELFHDR_SIZE :: nat where "ELFHDR_SIZE = 64"
definition PROGHDR_SIZE :: nat where "PROGHDR_SIZE = 56"

definition get64 :: "u8 list \<Rightarrow> nat \<Rightarrow> u64" where "get64 buf off = un64 (get_bytes off 8 buf)"

record elfhdr =
  elf_magic :: u32
  elf_entry :: u64
  elf_phoff :: u64
  elf_phnum :: u16

definition get_elfhdr :: "u8 list \<Rightarrow> elfhdr" where
  "get_elfhdr bs = \<lparr>elf_magic = get32 bs 0, elf_entry = get64 bs 24, elf_phoff = get64 bs 32, elf_phnum = get16 bs 56\<rparr>"

record proghdr =
  ph_type :: u32
  ph_flags :: u32
  ph_off :: u64
  ph_vaddr :: u64
  ph_filesz :: u64
  ph_memsz :: u64

definition get_proghdr :: "u8 list \<Rightarrow> proghdr" where
  "get_proghdr bs = \<lparr>ph_type = get32 bs 0, ph_flags = get32 bs 4, ph_off = get64 bs 8, ph_vaddr = get64 bs 16,
     ph_filesz = get64 bs 32, ph_memsz = get64 bs 40\<rparr>"

definition flags2perm :: "u32 \<Rightarrow> u64" where
  "flags2perm flags =
     (let perm = (if flags AND 1 \<noteq> 0 then PTE_X else 0)
      in if flags AND 2 \<noteq> 0 then perm OR PTE_W else perm)"

section \<open>Loading\<close>

text \<open>\<open>i\<close> runs through the multiples of the page size below \<^verbatim>\<open>sz\<close>; what \<^verbatim>\<open>readi\<close> delivers is stored at the
  physical address of the page.\<close>

fun loadseg_loop :: "'z kfs_scheme senv \<Rightarrow> u64 \<Rightarrow> u64 \<Rightarrow> nat \<Rightarrow> u32 \<Rightarrow> u32 \<Rightarrow> nat list \<Rightarrow> 'z kfs_scheme \<Rightarrow> (int \<times> 'z kfs_scheme) res" where
  "loadseg_loop e pagetable va ip offset sz [] s = Inr (0, s)"
| "loadseg_loop e pagetable va ip offset sz (i # is) s =
     bindE (walkaddr pagetable (va + of_nat i) s) (\<lambda>pa.
       if pa = 0 then Inl (Panic ''loadseg: address should exist'')
       else let n = (if unat sz - i < unat PGSIZE then sz - of_nat i else ucast PGSIZE) in
         bindE (readi e ip False pa (offset + of_nat i) n s) (\<lambda>(r, ds, s1).
           let s2 = s1\<lparr>pmem := write_bytes (pmem s1) pa ds\<rparr> in
           if r \<noteq> n then Inr (- 1, s2) else loadseg_loop e pagetable va ip offset sz is s2))"

definition loadseg :: "'z kfs_scheme senv \<Rightarrow> u64 \<Rightarrow> u64 \<Rightarrow> nat \<Rightarrow> u32 \<Rightarrow> u32 \<Rightarrow> 'z kfs_scheme \<Rightarrow> (int \<times> 'z kfs_scheme) res" where
  "loadseg e pagetable va ip offset sz s =
     loadseg_loop e pagetable va ip offset sz (map (\<lambda>k. k * unat PGSIZE) [0..<(unat sz + unat PGSIZE - 1) div unat PGSIZE]) s"

text \<open>One program header: \<open>Inl\<close> inside the result is \<^verbatim>\<open>goto bad\<close>, with the size so far.\<close>

definition exec_segment ::
  "'z kfs_scheme senv \<Rightarrow> u64 \<Rightarrow> nat \<Rightarrow> proghdr \<Rightarrow> u64 \<Rightarrow> 'z kfs_scheme \<Rightarrow> (u64 \<times> 'z kfs_scheme + u64 \<times> 'z kfs_scheme) res" where
  "exec_segment e pagetable ip ph sz s =
     (if ph_type ph \<noteq> ELF_PROG_LOAD then Inr (Inr (sz, s))
      else if ph_memsz ph < ph_filesz ph then Inr (Inl (sz, s))
      else if ph_vaddr ph + ph_memsz ph < ph_vaddr ph then Inr (Inl (sz, s))
      else if ph_vaddr ph mod PGSIZE \<noteq> 0 then Inr (Inl (sz, s))
      else bindE (uvmalloc pagetable sz (ph_vaddr ph + ph_memsz ph) (flags2perm (ph_flags ph)) s) (\<lambda>(sz1, s1).
        if sz1 = 0 then Inr (Inl (sz, s1))
        else bindE (loadseg e pagetable (ph_vaddr ph) ip (ucast (ph_off ph)) (ucast (ph_filesz ph)) s1) (\<lambda>(r, s2).
          if r < 0 then Inr (Inl (sz1, s2)) else Inr (Inr (sz1, s2)))))"

fun exec_load ::
  "nat \<Rightarrow> 'z kfs_scheme senv \<Rightarrow> u64 \<Rightarrow> nat \<Rightarrow> u32 \<Rightarrow> u64 \<Rightarrow> 'z kfs_scheme \<Rightarrow> (u64 \<times> 'z kfs_scheme + u64 \<times> 'z kfs_scheme) res" where
  "exec_load 0 e pagetable ip off sz s = Inr (Inr (sz, s))"
| "exec_load (Suc k) e pagetable ip off sz s =
     bindE (readi e ip False 0 off (of_nat PROGHDR_SIZE) s) (\<lambda>(r, bs, s1).
       if r \<noteq> of_nat PROGHDR_SIZE then Inr (Inl (sz, s1))
       else bindE (exec_segment e pagetable ip (get_proghdr bs) sz s1) (\<lambda>q.
         case q of Inl b \<Rightarrow> Inr (Inl b)
         | Inr (sz', s2) \<Rightarrow> exec_load k e pagetable ip (off + of_nat PROGHDR_SIZE) sz' s2))"

section \<open>Arguments\<close>

text \<open>The strings are pushed one after the other; \<open>ustack\<close> collects their addresses.\<close>

fun exec_push ::
  "u64 \<Rightarrow> u64 \<Rightarrow> u8 list list \<Rightarrow> nat \<Rightarrow> u64 \<Rightarrow> u64 list \<Rightarrow> 'z kfs_scheme \<Rightarrow> ('z kfs_scheme + u64 \<times> u64 list \<times> 'z kfs_scheme) res" where
  "exec_push pagetable stackbase [] argc sp0 ustack s = Inr (Inr (sp0, ustack, s))"
| "exec_push pagetable stackbase (a # as) argc sp0 ustack s =
     (if MAXARG \<le> argc then Inr (Inl s)
      else bindE (strlen a) (\<lambda>n.
        let sp1 = sp0 - of_nat (n + 1);
            sp2 = sp1 - sp1 mod 16
        in if sp2 < stackbase then Inr (Inl s)
           else bindE (copyout pagetable sp2 (take (n + 1) a) s) (\<lambda>(r, s1).
             if r < 0 then Inr (Inl s1)
             else exec_push pagetable stackbase as (argc + 1) sp2 (ustack @ [sp2]) s1)))"

text \<open>The array of pointers below the strings.\<close>

definition exec_argv ::
  "u64 \<Rightarrow> u64 \<Rightarrow> u8 list list \<Rightarrow> u64 \<Rightarrow> 'z kfs_scheme \<Rightarrow> ('z kfs_scheme + u64 \<times> 'z kfs_scheme) res" where
  "exec_argv pagetable stackbase argv sp0 s =
     bindE (exec_push pagetable stackbase argv 0 sp0 [] s) (\<lambda>q.
       case q of Inl s1 \<Rightarrow> Inr (Inl s1)
       | Inr (sp1, ustack, s1) \<Rightarrow>
         if MAXARG \<le> length ustack then Inl (Undef ''exec: ustack'')
         else let sp2 = sp1 - of_nat ((length argv + 1) * 8);
                  sp3 = sp2 - sp2 mod 16
              in if sp3 < stackbase then Inr (Inl s1)
                 else bindE (copyout pagetable sp3 (concat (map le64 (ustack @ [0]))) s1) (\<lambda>(r, s2).
                   if r < 0 then Inr (Inl s2) else Inr (Inr (sp3, s2))))"

section \<open>\<^verbatim>\<open>exec\<close>\<close>

definition exec_bad :: "'z kfs_scheme senv \<Rightarrow> u64 \<Rightarrow> u64 \<Rightarrow> nat option \<Rightarrow> 'z kfs_scheme \<Rightarrow> (i32 \<times> 'z kfs_scheme) res" where
  "exec_bad e pagetable sz ipo s =
     bindE (if pagetable \<noteq> 0 then proc_freepagetable pagetable sz s else Inr s) (\<lambda>s1.
     bindE (case ipo of None \<Rightarrow> Inr s1 | Some ip \<Rightarrow> bindE (iunlockput e (Some ip) s1) (end_op e)) (\<lambda>s2. Inr (- 1, s2)))"

text \<open>The last component of a path, the name the process gets.\<close>

fun last_elem :: "u8 list \<Rightarrow> u8 list \<Rightarrow> u8 list" where
  "last_elem lst [] = lst"
| "last_elem lst (c # cs) = (if c = 0 then lst else if c = slash then last_elem cs cs else last_elem lst cs)"

text \<open>From the point of no return: the new image becomes that of the process.\<close>

definition exec_commit :: "nat \<Rightarrow> u8 list \<Rightarrow> u64 \<Rightarrow> u64 \<Rightarrow> u64 \<Rightarrow> u64 \<Rightarrow> u64 \<Rightarrow> nat \<Rightarrow> 'z kfs_scheme \<Rightarrow> (i32 \<times> 'z kfs_scheme) res" where
  "exec_commit p path pagetable sz oldsz sp0 entry argc s =
     (let s1 = tf_store p TF_a1 sp0 s in
      bindE (safestrcpy (p_name (ptable s1 p)) (last_elem path path) 16) (\<lambda>nm.
      let oldpagetable = p_pagetable (ptable s1 p);
          s2 = upd_proc p (\<lambda>x. x\<lparr>p_name := nm, p_pagetable := pagetable, p_sz := sz\<rparr>) s1;
          s3 = tf_store p TF_epc entry s2;
          s4 = tf_store p TF_sp sp0 s3
      in bindE (proc_freepagetable oldpagetable oldsz s4) (\<lambda>s5. Inr (of_nat argc, s5))))"

text \<open>Stack, arguments and commit, after the file has been closed.\<close>

definition exec_stack :: "'z kfs_scheme senv \<Rightarrow> nat \<Rightarrow> u8 list \<Rightarrow> u8 list list \<Rightarrow> u64 \<Rightarrow> u64 \<Rightarrow> u64 \<Rightarrow> 'z kfs_scheme \<Rightarrow> (i32 \<times> 'z kfs_scheme) res" where
  "exec_stack e p path argv pagetable sz0 entry s =
     (let oldsz = p_sz (ptable s p); sz = PGROUNDUP sz0 in
      bindE (uvmalloc pagetable sz (sz + 2 * PGSIZE) PTE_W s) (\<lambda>(sz1, s1).
        if sz1 = 0 then exec_bad e pagetable sz None s1
        else bindE (uvmclear pagetable (sz1 - 2 * PGSIZE) s1) (\<lambda>s2.
             bindE (exec_argv pagetable (sz1 - PGSIZE) argv sz1 s2) (\<lambda>q.
               case q of Inl s3 \<Rightarrow> exec_bad e pagetable sz1 None s3
               | Inr (sp0, s3) \<Rightarrow> exec_commit p path pagetable sz1 oldsz sp0 entry (length argv) s3))))"

definition exec :: "'z kfs_scheme senv \<Rightarrow> u8 list \<Rightarrow> u8 list list \<Rightarrow> 'z kfs_scheme \<Rightarrow> (i32 \<times> 'z kfs_scheme) res" where
  "exec e path argv s =
     bindE (thisproc s) (\<lambda>p.
     bindE (begin_op e s) (\<lambda>s1.
     bindE (namei e path s1) (\<lambda>(ipo, s2).
       case ipo of None \<Rightarrow> bindE (end_op e s2) (\<lambda>s3. Inr (- 1, s3))
       | Some ip \<Rightarrow>
         bindE (ilock e (Some ip) s2) (\<lambda>s3.
         bindE (readi e ip False 0 0 (of_nat ELFHDR_SIZE) s3) (\<lambda>(r, bs, s4).
           let elf = get_elfhdr bs in
           if r \<noteq> of_nat ELFHDR_SIZE then exec_bad e 0 0 (Some ip) s4
           else if elf_magic elf \<noteq> ELF_MAGIC then exec_bad e 0 0 (Some ip) s4
           else bindE (proc_pagetable p s4) (\<lambda>(pagetable, s5).
             if pagetable = 0 then exec_bad e 0 0 (Some ip) s5
             else bindE (exec_load (unat (elf_phnum elf)) e pagetable ip (ucast (elf_phoff elf)) 0 s5) (\<lambda>q.
               case q of Inl (sz, s6) \<Rightarrow> exec_bad e pagetable sz (Some ip) s6
               | Inr (sz, s6) \<Rightarrow>
                 bindE (iunlockput e (Some ip) s6) (\<lambda>s7.
                 bindE (end_op e s7) (exec_stack e p path argv pagetable sz (elf_entry elf))))))))))"

section \<open>\<^verbatim>\<open>sys_exec\<close>\<close>

text \<open>
  The loop that copies the arguments: \<open>k\<close> free places are left in \<^verbatim>\<open>argv\<close>. The result has whether
  the null pointer was found, and the pages allocated with the strings in them.
\<close>

fun exec_fetch :: "nat \<Rightarrow> u64 \<Rightarrow> 'z kproc_scheme \<Rightarrow> (bool \<times> (u64 \<times> u8 list) list \<times> 'z kproc_scheme) res" where
  "exec_fetch 0 ua s = Inr (False, [], s)"
| "exec_fetch (Suc k) ua s =
     bindE (fetchaddr ua s) (\<lambda>(r, uarg).
       if r <s 0 then Inr (False, [], s)
       else if uarg = 0 then Inr (True, [], s)
       else bindE (kalloc s) (\<lambda>(pg, s1).
         if pg = 0 then Inr (False, [], s1)
         else bindE (fetchstr uarg (unat PGSIZE) s1) (\<lambda>(n, bs).
           let s2 = s1\<lparr>pmem := write_bytes (pmem s1) pg bs\<rparr> in
           if n <s 0 then Inr (False, [(pg, bs)], s2)
           else bindE (exec_fetch k (ua + 8) s2) (\<lambda>(ok, rest, s3). Inr (ok, (pg, bs) # rest, s3)))))"

definition sys_exec :: "'z kfs_scheme senv \<Rightarrow> 'z kfs_scheme \<Rightarrow> (u64 \<times> 'z kfs_scheme) res" where
  "sys_exec e s =
     bindE (argaddr 1 s) (\<lambda>uargv.
     bindE (argstr 0 MAXPATH s) (\<lambda>(n, path).
       if n <s 0 then Inr (- 1, s)
       else bindE (exec_fetch MAXARG uargv s) (\<lambda>(ok, pgs, s1).
         bindE (if ok then exec e path (map snd pgs) s1 else Inr (- 1, s1)) (\<lambda>(ret, s2).
         bindE (foldE kfree (map fst pgs) s2) (\<lambda>s3. Inr (scast ret, s3))))))"

end
