(* ===== verification/Syscall.thy ===== *)
theory Syscall
  imports Sysproc Exec
begin

text \<open>
  The dispatch of system calls, the second part of \<^verbatim>\<open>kernel/syscall.c\<close>: the call numbers of
  \<^verbatim>\<open>kernel/syscall.h\<close>, the table of handlers and \<^verbatim>\<open>syscall\<close>.
\<close>

definition SYS_fork :: nat where "SYS_fork = 1"
definition SYS_exit :: nat where "SYS_exit = 2"
definition SYS_wait :: nat where "SYS_wait = 3"
definition SYS_pipe :: nat where "SYS_pipe = 4"
definition SYS_read :: nat where "SYS_read = 5"
definition SYS_kill :: nat where "SYS_kill = 6"
definition SYS_exec :: nat where "SYS_exec = 7"
definition SYS_fstat :: nat where "SYS_fstat = 8"
definition SYS_chdir :: nat where "SYS_chdir = 9"
definition SYS_dup :: nat where "SYS_dup = 10"
definition SYS_getpid :: nat where "SYS_getpid = 11"
definition SYS_sbrk :: nat where "SYS_sbrk = 12"
definition SYS_sleep :: nat where "SYS_sleep = 13"
definition SYS_uptime :: nat where "SYS_uptime = 14"
definition SYS_open :: nat where "SYS_open = 15"
definition SYS_write :: nat where "SYS_write = 16"
definition SYS_mknod :: nat where "SYS_mknod = 17"
definition SYS_unlink :: nat where "SYS_unlink = 18"
definition SYS_link :: nat where "SYS_link = 19"
definition SYS_mkdir :: nat where "SYS_mkdir = 20"
definition SYS_close :: nat where "SYS_close = 21"
definition SYS_ps :: nat where "SYS_ps = 22"
definition SYS_schedls :: nat where "SYS_schedls = 23"
definition SYS_schedset :: nat where "SYS_schedset = 24"

definition NSYSCALLS :: nat where "NSYSCALLS = 25"

lemmas SYS_defs = SYS_fork_def SYS_exit_def SYS_wait_def SYS_pipe_def SYS_read_def SYS_kill_def SYS_exec_def
  SYS_fstat_def SYS_chdir_def SYS_dup_def SYS_getpid_def SYS_sbrk_def SYS_sleep_def SYS_uptime_def SYS_open_def
  SYS_write_def SYS_mknod_def SYS_unlink_def SYS_link_def SYS_mkdir_def SYS_close_def SYS_ps_def
  SYS_schedls_def SYS_schedset_def

text \<open>
  The table of handlers; an entry with no initialiser (that of 0) is a null pointer. \<open>pad\<close> and
  \<open>junk\<close> are the padding and uninitialised bytes \<^verbatim>\<open>fstat\<close> and \<^verbatim>\<open>ps\<close> copy out.
\<close>

definition syscalls ::
  "'z kfile_scheme senv \<Rightarrow> u8 list \<Rightarrow> u8 list \<Rightarrow> nat \<Rightarrow> ('z kfile_scheme \<Rightarrow> (u64 \<times> 'z kfile_scheme) res) option" where
  "syscalls e pad junk = map_of [
     (SYS_fork, sys_fork), (SYS_exit, sys_exit e), (SYS_wait, sys_wait e), (SYS_pipe, sys_pipe e),
     (SYS_read, sys_read e), (SYS_kill, sys_kill), (SYS_exec, sys_exec e), (SYS_fstat, sys_fstat e pad),
     (SYS_chdir, sys_chdir e), (SYS_dup, sys_dup), (SYS_getpid, sys_getpid), (SYS_sbrk, sys_sbrk),
     (SYS_sleep, sys_sleep e), (SYS_uptime, sys_uptime), (SYS_open, sys_open e), (SYS_write, sys_write e),
     (SYS_mknod, sys_mknod e), (SYS_unlink, sys_unlink e), (SYS_link, sys_link e), (SYS_mkdir, sys_mkdir e),
     (SYS_close, sys_close e), (SYS_ps, sys_ps junk), (SYS_schedls, sys_schedls), (SYS_schedset, sys_schedset)]"

definition syscall :: "'z kfile_scheme senv \<Rightarrow> u8 list \<Rightarrow> u8 list \<Rightarrow> 'z kfile_scheme \<Rightarrow> 'z kfile_scheme res" where
  "syscall e pad junk s =
     bindE (thisproc s) (\<lambda>p.
       let num = sint (ucast (tf_load p TF_a7 s) :: i32);
           h = (if 0 < num \<and> num < int NSYSCALLS then syscalls e pad junk (nat num) else None)
       in case h of
            Some f \<Rightarrow> bindE (f s) (\<lambda>(r, s1). Inr (tf_store p TF_a0 r s1))
          | None \<Rightarrow>
              bindE (printf (''%d %s: unknown sys call %d'' @ [nl])
                [AInt (p_pid (ptable s p)), AStr (Some (cstr (p_name (ptable s p)))), AInt (of_int num)] s) (\<lambda>s1.
                Inr (tf_store p TF_a0 (- 1) s1)))"

text \<open>Every number from 1 to 24 has a handler, and no other.\<close>

lemma syscalls_dom: "(syscalls e pad junk n \<noteq> None) = (0 < n \<and> n < NSYSCALLS)"
proof -
  have "[1..<25] = [1, 2, 3, 4, 5, 6, 7, 8, 9, 10, 11, 12, 13, 14, 15, 16, 17, 18, 19, 20, 21, 22, 23, 24 :: nat]"
    by (simp add: upt_rec)
  then have "set [1, 2, 3, 4, 5, 6, 7, 8, 9, 10, 11, 12, 13, 14, 15, 16, 17, 18, 19, 20, 21, 22, 23, 24] = {1..<25 :: nat}"
    by (metis set_upt)
  then have "dom (syscalls e pad junk) = {1..<25}"
    unfolding syscalls_def dom_map_of_conv_image_fst SYS_defs by simp
  then show ?thesis unfolding NSYSCALLS_def dom_def by (auto simp: set_eq_iff)
qed

end
