(* ===== verification/Virtio.thy ===== *)
theory Virtio
  imports File
begin

text \<open>
  The disk driver, \<^verbatim>\<open>kernel/virtio_disk.c\<close> and \<^verbatim>\<open>kernel/virtio.h\<close>. The virtqueue (descriptor table, avail
  and used ring) is shared with the device; here it is the record \<open>vdisk\<close>, with the pointers of
  descriptors as values of \<open>vaddr\<close>. What the device answers when a register is read is the parameter
  \<open>rd\<close>, a function of the registers written so far; what it does with a request is a parameter too
  (see \<open>Virtiospec\<close>).
\<close>

section \<open>Constants and data\<close>

definition VIRTIO_MMIO_MAGIC_VALUE :: nat where "VIRTIO_MMIO_MAGIC_VALUE = 0x000"
definition VIRTIO_MMIO_VERSION :: nat where "VIRTIO_MMIO_VERSION = 0x004"
definition VIRTIO_MMIO_DEVICE_ID :: nat where "VIRTIO_MMIO_DEVICE_ID = 0x008"
definition VIRTIO_MMIO_VENDOR_ID :: nat where "VIRTIO_MMIO_VENDOR_ID = 0x00c"
definition VIRTIO_MMIO_DEVICE_FEATURES :: nat where "VIRTIO_MMIO_DEVICE_FEATURES = 0x010"
definition VIRTIO_MMIO_DRIVER_FEATURES :: nat where "VIRTIO_MMIO_DRIVER_FEATURES = 0x020"
definition VIRTIO_MMIO_QUEUE_SEL :: nat where "VIRTIO_MMIO_QUEUE_SEL = 0x030"
definition VIRTIO_MMIO_QUEUE_NUM_MAX :: nat where "VIRTIO_MMIO_QUEUE_NUM_MAX = 0x034"
definition VIRTIO_MMIO_QUEUE_NUM :: nat where "VIRTIO_MMIO_QUEUE_NUM = 0x038"
definition VIRTIO_MMIO_QUEUE_READY :: nat where "VIRTIO_MMIO_QUEUE_READY = 0x044"
definition VIRTIO_MMIO_QUEUE_NOTIFY :: nat where "VIRTIO_MMIO_QUEUE_NOTIFY = 0x050"
definition VIRTIO_MMIO_INTERRUPT_STATUS :: nat where "VIRTIO_MMIO_INTERRUPT_STATUS = 0x060"
definition VIRTIO_MMIO_INTERRUPT_ACK :: nat where "VIRTIO_MMIO_INTERRUPT_ACK = 0x064"
definition VIRTIO_MMIO_STATUS :: nat where "VIRTIO_MMIO_STATUS = 0x070"
definition VIRTIO_MMIO_QUEUE_DESC_LOW :: nat where "VIRTIO_MMIO_QUEUE_DESC_LOW = 0x080"
definition VIRTIO_MMIO_QUEUE_DESC_HIGH :: nat where "VIRTIO_MMIO_QUEUE_DESC_HIGH = 0x084"
definition VIRTIO_MMIO_DRIVER_DESC_LOW :: nat where "VIRTIO_MMIO_DRIVER_DESC_LOW = 0x090"
definition VIRTIO_MMIO_DRIVER_DESC_HIGH :: nat where "VIRTIO_MMIO_DRIVER_DESC_HIGH = 0x094"
definition VIRTIO_MMIO_DEVICE_DESC_LOW :: nat where "VIRTIO_MMIO_DEVICE_DESC_LOW = 0x0a0"
definition VIRTIO_MMIO_DEVICE_DESC_HIGH :: nat where "VIRTIO_MMIO_DEVICE_DESC_HIGH = 0x0a4"

definition VIRTIO_CONFIG_S_ACKNOWLEDGE :: u32 where "VIRTIO_CONFIG_S_ACKNOWLEDGE = 1"
definition VIRTIO_CONFIG_S_DRIVER :: u32 where "VIRTIO_CONFIG_S_DRIVER = 2"
definition VIRTIO_CONFIG_S_DRIVER_OK :: u32 where "VIRTIO_CONFIG_S_DRIVER_OK = 4"
definition VIRTIO_CONFIG_S_FEATURES_OK :: u32 where "VIRTIO_CONFIG_S_FEATURES_OK = 8"

definition VIRTIO_BLK_F_RO :: nat where "VIRTIO_BLK_F_RO = 5"
definition VIRTIO_BLK_F_SCSI :: nat where "VIRTIO_BLK_F_SCSI = 7"
definition VIRTIO_BLK_F_CONFIG_WCE :: nat where "VIRTIO_BLK_F_CONFIG_WCE = 11"
definition VIRTIO_BLK_F_MQ :: nat where "VIRTIO_BLK_F_MQ = 12"
definition VIRTIO_F_ANY_LAYOUT :: nat where "VIRTIO_F_ANY_LAYOUT = 27"
definition VIRTIO_RING_F_INDIRECT_DESC :: nat where "VIRTIO_RING_F_INDIRECT_DESC = 28"
definition VIRTIO_RING_F_EVENT_IDX :: nat where "VIRTIO_RING_F_EVENT_IDX = 29"

definition NUM :: nat where "NUM = 8"
definition VRING_DESC_F_NEXT :: u16 where "VRING_DESC_F_NEXT = 1"
definition VRING_DESC_F_WRITE :: u16 where "VRING_DESC_F_WRITE = 2"
definition VIRTIO_BLK_T_IN :: u32 where "VIRTIO_BLK_T_IN = 0"
definition VIRTIO_BLK_T_OUT :: u32 where "VIRTIO_BLK_T_OUT = 1"

text \<open>The pointers the driver stores in descriptors: null, \<^verbatim>\<open>&disk.ops[i]\<close>, \<^verbatim>\<open>b->data\<close>, \<^verbatim>\<open>&disk.info[i].status\<close>.\<close>

datatype vaddr = A_null | A_op nat | A_data nat | A_status nat

record virtq_desc =
  vq_addr :: vaddr
  vq_len :: u32
  vq_flags :: u16
  vq_next :: u16

record virtio_blk_req =
  vr_type :: u32
  vr_reserved :: u32
  vr_sector :: u64

record vdisk =
  v_desc :: "nat \<Rightarrow> virtq_desc"
  v_avail_idx :: u16
  v_avail_ring :: "nat \<Rightarrow> u16"
  v_dev_idx :: u16
  v_used_ring :: "nat \<Rightarrow> u32"
  v_free :: "nat \<Rightarrow> bool"
  v_used_idx :: u16
  v_info_b :: "nat \<Rightarrow> nat option"
  v_status :: "nat \<Rightarrow> u8"
  v_ops :: "nat \<Rightarrow> virtio_blk_req"
  v_writes :: "(nat \<times> u32) list"

record kvirt = kfile +
  vd :: vdisk

definition upd_vd :: "(vdisk \<Rightarrow> vdisk) \<Rightarrow> 'z kvirt_scheme \<Rightarrow> 'z kvirt_scheme" where
  "upd_vd f s = s\<lparr>vd := f (vd s)\<rparr>"

definition write_R :: "nat \<Rightarrow> u32 \<Rightarrow> 'z kvirt_scheme \<Rightarrow> 'z kvirt_scheme" where
  "write_R reg v s = upd_vd (\<lambda>d. d\<lparr>v_writes := v_writes d @ [(reg, v)]\<rparr>) s"

section \<open>Initialisation\<close>

definition zero_desc :: virtq_desc where
  "zero_desc = \<lparr>vq_addr = A_null, vq_len = 0, vq_flags = 0, vq_next = 0\<rparr>"

definition virtio_features :: "u32 \<Rightarrow> u32" where
  "virtio_features f = f AND NOT (push_bit VIRTIO_BLK_F_RO 1) AND NOT (push_bit VIRTIO_BLK_F_SCSI 1)
     AND NOT (push_bit VIRTIO_BLK_F_CONFIG_WCE 1) AND NOT (push_bit VIRTIO_BLK_F_MQ 1)
     AND NOT (push_bit VIRTIO_F_ANY_LAYOUT 1) AND NOT (push_bit VIRTIO_RING_F_EVENT_IDX 1)
     AND NOT (push_bit VIRTIO_RING_F_INDIRECT_DESC 1)"

text \<open>Reset, acknowledge, driver, features: the state in which the status is read again.\<close>

definition virtio_negotiate :: "((nat \<times> u32) list \<Rightarrow> nat \<Rightarrow> u32) \<Rightarrow> 'z kvirt_scheme \<Rightarrow> 'z kvirt_scheme" where
  "virtio_negotiate rd s =
     (let s1 = write_R VIRTIO_MMIO_STATUS 0 s;
          st1 = VIRTIO_CONFIG_S_ACKNOWLEDGE;
          s2 = write_R VIRTIO_MMIO_STATUS st1 s1;
          st2 = st1 OR VIRTIO_CONFIG_S_DRIVER;
          s3 = write_R VIRTIO_MMIO_STATUS st2 s2;
          s4 = write_R VIRTIO_MMIO_DRIVER_FEATURES (virtio_features (rd (v_writes (vd s3)) VIRTIO_MMIO_DEVICE_FEATURES)) s3
      in write_R VIRTIO_MMIO_STATUS (st2 OR VIRTIO_CONFIG_S_FEATURES_OK) s4)"

text \<open>The three pages, zeroed; the rings and descriptors in them start as zeros.\<close>

definition virtio_queue :: "u32 \<Rightarrow> 'z kvirt_scheme \<Rightarrow> 'z kvirt_scheme res" where
  "virtio_queue status s =
     bindE (kalloc s) (\<lambda>(desc, s1).
     bindE (kalloc s1) (\<lambda>(avail, s2).
     bindE (kalloc s2) (\<lambda>(used, s3).
       if desc = 0 \<or> avail = 0 \<or> used = 0 then Inl (Panic ''virtio disk kalloc'')
       else let s4 = s3\<lparr>pmem := memset (memset (memset (pmem s3) desc 0 4096) avail 0 4096) used 0 4096\<rparr>;
                s5 = upd_vd (\<lambda>d. d\<lparr>v_desc := \<lambda>_. zero_desc, v_avail_idx := 0, v_avail_ring := \<lambda>_. 0, v_dev_idx := 0,
                       v_used_ring := \<lambda>_. 0\<rparr>) s4;
                s6 = write_R VIRTIO_MMIO_QUEUE_NUM (of_nat NUM) s5;
                s7 = write_R VIRTIO_MMIO_QUEUE_DESC_LOW (ucast desc) s6;
                s8 = write_R VIRTIO_MMIO_QUEUE_DESC_HIGH (ucast (drop_bit 32 desc)) s7;
                s9 = write_R VIRTIO_MMIO_DRIVER_DESC_LOW (ucast avail) s8;
                s10 = write_R VIRTIO_MMIO_DRIVER_DESC_HIGH (ucast (drop_bit 32 avail)) s9;
                s11 = write_R VIRTIO_MMIO_DEVICE_DESC_LOW (ucast used) s10;
                s12 = write_R VIRTIO_MMIO_DEVICE_DESC_HIGH (ucast (drop_bit 32 used)) s11;
                s13 = write_R VIRTIO_MMIO_QUEUE_READY 1 s12;
                s14 = upd_vd (\<lambda>d. d\<lparr>v_free := \<lambda>i. i < NUM \<or> v_free d i\<rparr>) s13
            in Inr (write_R VIRTIO_MMIO_STATUS (status OR VIRTIO_CONFIG_S_DRIVER_OK) s14))))"

definition virtio_disk_init :: "((nat \<times> u32) list \<Rightarrow> nat \<Rightarrow> u32) \<Rightarrow> 'z kvirt_scheme \<Rightarrow> 'z kvirt_scheme res" where
  "virtio_disk_init rd s =
     (if rd (v_writes (vd s)) VIRTIO_MMIO_MAGIC_VALUE \<noteq> 0x74726976 \<or> rd (v_writes (vd s)) VIRTIO_MMIO_VERSION \<noteq> 2 \<or>
         rd (v_writes (vd s)) VIRTIO_MMIO_DEVICE_ID \<noteq> 2 \<or> rd (v_writes (vd s)) VIRTIO_MMIO_VENDOR_ID \<noteq> 0x554d4551
      then Inl (Panic ''could not find virtio disk'')
      else let s1 = virtio_negotiate rd s;
               status = rd (v_writes (vd s1)) VIRTIO_MMIO_STATUS
           in if status AND VIRTIO_CONFIG_S_FEATURES_OK = 0 then Inl (Panic ''virtio disk FEATURES_OK unset'')
              else let s2 = write_R VIRTIO_MMIO_QUEUE_SEL 0 s1;
                       mx = rd (v_writes (vd s2)) VIRTIO_MMIO_QUEUE_NUM_MAX
                   in if rd (v_writes (vd s2)) VIRTIO_MMIO_QUEUE_READY \<noteq> 0 then Inl (Panic ''virtio disk should not be ready'')
                      else if mx = 0 then Inl (Panic ''virtio disk has no queue 0'')
                      else if unat mx < NUM then Inl (Panic ''virtio disk max queue too short'')
                      else virtio_queue status s2)"

section \<open>Descriptors\<close>

definition alloc_desc :: "'z kvirt_scheme \<Rightarrow> nat option \<times> 'z kvirt_scheme" where
  "alloc_desc s =
     (case find (v_free (vd s)) [0..<NUM] of
        None \<Rightarrow> (None, s) | Some i \<Rightarrow> (Some i, upd_vd (\<lambda>d. d\<lparr>v_free := (v_free d)(i := False)\<rparr>) s))"

definition free_desc :: "nat \<Rightarrow> 'z kvirt_scheme \<Rightarrow> 'z kvirt_scheme res" where
  "free_desc i s =
     (if NUM \<le> i then Inl (Panic ''free_desc 1'')
      else if v_free (vd s) i then Inl (Panic ''free_desc 2'')
      else wakeup C_disk (upd_vd (\<lambda>d. d\<lparr>v_desc := (v_desc d)(i := zero_desc), v_free := (v_free d)(i := True)\<rparr>) s))"

text \<open>A chain visits no descriptor twice before the second visit panics, so \<open>NUM\<close> rounds and one are enough.\<close>

fun free_chain_loop :: "nat \<Rightarrow> nat \<Rightarrow> 'z kvirt_scheme \<Rightarrow> 'z kvirt_scheme res" where
  "free_chain_loop 0 i s = Inl (Blocked ''free_chain'')"
| "free_chain_loop (Suc k) i s =
     (let flag = vq_flags (v_desc (vd s) i); nx = vq_next (v_desc (vd s) i) in
      bindE (free_desc i s) (\<lambda>s1.
        if flag AND VRING_DESC_F_NEXT \<noteq> 0 then free_chain_loop k (unat nx) s1 else Inr s1))"

definition free_chain :: "nat \<Rightarrow> 'z kvirt_scheme \<Rightarrow> 'z kvirt_scheme res" where
  "free_chain i s = free_chain_loop (Suc NUM) i s"

text \<open>\<open>None\<close> is the return of -1, \<open>Some idx\<close> a return of 0; the descriptors already taken are given back.\<close>

definition alloc3_desc :: "'z kvirt_scheme \<Rightarrow> ((nat \<times> nat \<times> nat) option \<times> 'z kvirt_scheme) res" where
  "alloc3_desc s =
     (case alloc_desc s of (None, s1) \<Rightarrow> Inr (None, s1)
      | (Some i0, s1) \<Rightarrow>
        (case alloc_desc s1 of (None, s2) \<Rightarrow> bindE (free_desc i0 s2) (\<lambda>s3. Inr (None, s3))
         | (Some i1, s2) \<Rightarrow>
           (case alloc_desc s2 of
              (None, s3) \<Rightarrow> bindE (free_desc i0 s3) (\<lambda>s4. bindE (free_desc i1 s4) (\<lambda>s5. Inr (None, s5)))
            | (Some i2, s3) \<Rightarrow> Inr (Some (i0, i1, i2), s3))))"

section \<open>Requests\<close>

fun alloc3_wait :: "nat \<Rightarrow> ('z kvirt_scheme \<Rightarrow> 'z kvirt_scheme) \<Rightarrow> 'z kvirt_scheme \<Rightarrow> ((nat \<times> nat \<times> nat) \<times> 'z kvirt_scheme) res" where
  "alloc3_wait 0 E s = Inl (Blocked ''virtio_disk_rw: descriptors'')"
| "alloc3_wait (Suc n) E s =
     bindE (alloc3_desc s) (\<lambda>(r, s1).
       case r of Some idx \<Rightarrow> Inr (idx, s1)
       | None \<Rightarrow> bindE (sleep E C_disk L_vdisk s1) (alloc3_wait n E))"

text \<open>The request and its three descriptors, and the entry in the avail ring.\<close>

definition virtio_format :: "nat \<Rightarrow> bool \<Rightarrow> u64 \<Rightarrow> nat \<times> nat \<times> nat \<Rightarrow> vdisk \<Rightarrow> vdisk" where
  "virtio_format b write sector idx d =
     (case idx of (i0, i1, i2) \<Rightarrow>
      let d1 = d\<lparr>v_ops := (v_ops d)(i0 := \<lparr>vr_type = if write then VIRTIO_BLK_T_OUT else VIRTIO_BLK_T_IN,
                  vr_reserved = 0, vr_sector = sector\<rparr>)\<rparr>;
          d2 = d1\<lparr>v_desc := (v_desc d1)(i0 := \<lparr>vq_addr = A_op i0, vq_len = 16, vq_flags = VRING_DESC_F_NEXT, vq_next = of_nat i1\<rparr>)\<rparr>;
          d3 = d2\<lparr>v_desc := (v_desc d2)(i1 := \<lparr>vq_addr = A_data b, vq_len = of_nat BSIZE,
                  vq_flags = (if write then 0 else VRING_DESC_F_WRITE) OR VRING_DESC_F_NEXT, vq_next = of_nat i2\<rparr>)\<rparr>;
          d4 = d3\<lparr>v_status := (v_status d3)(i0 := 0xff)\<rparr>;
          d5 = d4\<lparr>v_desc := (v_desc d4)(i2 := \<lparr>vq_addr = A_status i0, vq_len = 1, vq_flags = VRING_DESC_F_WRITE, vq_next = 0\<rparr>)\<rparr>
      in d5\<lparr>v_info_b := (v_info_b d5)(i0 := Some b)\<rparr>)"

definition virtio_submit :: "nat \<Rightarrow> vdisk \<Rightarrow> vdisk" where
  "virtio_submit i0 d =
     (let d1 = d\<lparr>v_avail_ring := (v_avail_ring d)(unat (v_avail_idx d) mod NUM := of_nat i0)\<rparr>
      in d1\<lparr>v_avail_idx := v_avail_idx d1 + 1\<rparr>)"

fun virtio_wait :: "nat \<Rightarrow> ('z kvirt_scheme \<Rightarrow> 'z kvirt_scheme) \<Rightarrow> nat \<Rightarrow> 'z kvirt_scheme \<Rightarrow> 'z kvirt_scheme res" where
  "virtio_wait 0 E b s = Inl (Blocked ''virtio_disk_rw'')"
| "virtio_wait (Suc n) E b s =
     (if b_disk (bcache s b) then bindE (sleep E (C_buf b) L_vdisk s) (virtio_wait n E b) else Inr s)"

definition virtio_disk_rw :: "'z kvirt_scheme senv \<Rightarrow> nat \<Rightarrow> bool \<Rightarrow> 'z kvirt_scheme \<Rightarrow> 'z kvirt_scheme res" where
  "virtio_disk_rw e b write s =
     (let sector = ucast (b_blockno (bcache s b) * of_nat (BSIZE div 512)) in
      bindE (lk_acquire L_vdisk s) (\<lambda>s1.
      bindE (alloc3_wait (fst e) (snd e) s1) (\<lambda>(idx, s2).
      let s3 = upd_buf b (\<lambda>x. x\<lparr>b_disk := True\<rparr>) (upd_vd (virtio_format b write sector idx) s2);
          s4 = write_R VIRTIO_MMIO_QUEUE_NOTIFY 0 (upd_vd (virtio_submit (fst idx)) s3)
      in bindE (virtio_wait (fst e) (snd e) b s4) (\<lambda>s5.
         bindE (free_chain (fst idx) (upd_vd (\<lambda>d. d\<lparr>v_info_b := (v_info_b d)(fst idx := None)\<rparr>) s5)) (lk_release L_vdisk)))))"

section \<open>The interrupt\<close>

text \<open>The ring has at most as many new entries as the counters differ.\<close>

fun virtio_intr_loop :: "nat \<Rightarrow> 'z kvirt_scheme \<Rightarrow> 'z kvirt_scheme res" where
  "virtio_intr_loop 0 s = Inr s"
| "virtio_intr_loop (Suc k) s =
     (if v_used_idx (vd s) = v_dev_idx (vd s) then Inr s
      else let i = unat (v_used_ring (vd s) (unat (v_used_idx (vd s)) mod NUM)) in
        if NUM \<le> i then Inl (Undef ''virtio_disk_intr: id'')
        else if v_status (vd s) i \<noteq> 0 then Inl (Panic ''virtio_disk_intr status'')
        else (case v_info_b (vd s) i of None \<Rightarrow> Inl (Undef ''virtio_disk_intr: null buf'')
              | Some b \<Rightarrow>
                bindE (wakeup (C_buf b) (upd_buf b (\<lambda>x. x\<lparr>b_disk := False\<rparr>) s)) (\<lambda>s1.
                  virtio_intr_loop k (upd_vd (\<lambda>d. d\<lparr>v_used_idx := v_used_idx d + 1\<rparr>) s1))))"

definition virtio_disk_intr :: "((nat \<times> u32) list \<Rightarrow> nat \<Rightarrow> u32) \<Rightarrow> 'z kvirt_scheme \<Rightarrow> 'z kvirt_scheme res" where
  "virtio_disk_intr rd s =
     bindE (lk_acquire L_vdisk s) (\<lambda>s1.
     let s2 = write_R VIRTIO_MMIO_INTERRUPT_ACK (rd (v_writes (vd s1)) VIRTIO_MMIO_INTERRUPT_STATUS AND 3) s1 in
     bindE (virtio_intr_loop (unat (v_dev_idx (vd s2) - v_used_idx (vd s2))) s2) (lk_release L_vdisk))"

end
