(* ===== verification/Trap.thy ===== *)
theory Trap
  imports Syscall Virtio
begin

text \<open>
  Traps and interrupts: \<^verbatim>\<open>kernel/trap.c\<close>, the interrupt controller of \<^verbatim>\<open>kernel/plic.c\<close> and \<^verbatim>\<open>forkret\<close> of
  \<^verbatim>\<open>kernel/proc.c\<close>. The supervisor registers of this CPU are a record. The bit \<^verbatim>\<open>SIE\<close> of \<^verbatim>\<open>sstatus\<close> is the
  value outside of critical sections: \<^verbatim>\<open>push_off\<close> and \<^verbatim>\<open>pop_off\<close> (theory \<open>Spinlock\<close>) clear it and put it
  back. Claims read from the controller are a list of values, writes to it are recorded.
\<close>

section \<open>Registers\<close>

record csrs =
  sstatus :: u64
  scause :: u64
  sepc :: u64
  stval :: u64
  stvec :: u64
  sip :: u64
  sie :: u64
  tp :: u64

record ktrap = kvirt +
  csr :: csrs
  plic_claims :: "u32 list"
  plic_writes :: "(u64 \<times> u32) list"
  k_kernelvec :: u64
  k_uservec :: u64
  k_userret :: u64
  k_usertrap :: u64

definition upd_csr :: "(csrs \<Rightarrow> csrs) \<Rightarrow> 'z ktrap_scheme \<Rightarrow> 'z ktrap_scheme" where
  "upd_csr f s = s\<lparr>csr := f (csr s)\<rparr>"

definition SSTATUS_SPP :: u64 where "SSTATUS_SPP = push_bit 8 1"
definition SSTATUS_SPIE :: u64 where "SSTATUS_SPIE = push_bit 5 1"
definition SSTATUS_SIE :: u64 where "SSTATUS_SIE = push_bit 1 1"

definition intr_on_csr :: "'z ktrap_scheme \<Rightarrow> 'z ktrap_scheme" where
  "intr_on_csr s = upd_csr (\<lambda>c. c\<lparr>sstatus := sstatus c OR SSTATUS_SIE\<rparr>) s"

definition intr_off_csr :: "'z ktrap_scheme \<Rightarrow> 'z ktrap_scheme" where
  "intr_off_csr s = upd_csr (\<lambda>c. c\<lparr>sstatus := sstatus c AND NOT SSTATUS_SIE\<rparr>) s"

definition intr_get_csr :: "'z ktrap_scheme \<Rightarrow> bool" where
  "intr_get_csr s \<longleftrightarrow> sstatus (csr s) AND SSTATUS_SIE \<noteq> 0"

definition cpuid :: "'z ktrap_scheme \<Rightarrow> i32" where
  "cpuid s = ucast (tp (csr s))"

section \<open>The interrupt controller\<close>

definition UART0_IRQ :: i32 where "UART0_IRQ = 10"
definition VIRTIO0_IRQ :: i32 where "VIRTIO0_IRQ = 1"
definition PLIC_SENABLE :: "i32 \<Rightarrow> u64" where "PLIC_SENABLE hart = PLIC + 0x2080 + scast (hart * 0x100)"
definition PLIC_SPRIORITY :: "i32 \<Rightarrow> u64" where "PLIC_SPRIORITY hart = PLIC + 0x201000 + scast (hart * 0x2000)"
definition PLIC_SCLAIM :: "i32 \<Rightarrow> u64" where "PLIC_SCLAIM hart = PLIC + 0x201004 + scast (hart * 0x2000)"

definition plic_write :: "u64 \<Rightarrow> u32 \<Rightarrow> 'z ktrap_scheme \<Rightarrow> 'z ktrap_scheme" where
  "plic_write a v s = s\<lparr>plic_writes := plic_writes s @ [(a, v)]\<rparr>"

definition plicinit :: "'z ktrap_scheme \<Rightarrow> 'z ktrap_scheme" where
  "plicinit s = plic_write (PLIC + scast (VIRTIO0_IRQ * 4)) 1 (plic_write (PLIC + scast (UART0_IRQ * 4)) 1 s)"

definition plicinithart :: "'z ktrap_scheme \<Rightarrow> 'z ktrap_scheme" where
  "plicinithart s =
     (let hart = cpuid s;
          s1 = plic_write (PLIC_SENABLE hart) (push_bit (nat (sint UART0_IRQ)) 1 OR push_bit (nat (sint VIRTIO0_IRQ)) 1) s
      in plic_write (PLIC_SPRIORITY hart) 0 s1)"

text \<open>The controller answers 0 when no interrupt is pending.\<close>

definition plic_claim :: "'z ktrap_scheme \<Rightarrow> i32 \<times> 'z ktrap_scheme" where
  "plic_claim s = (case plic_claims s of [] \<Rightarrow> (0, s) | irq # r \<Rightarrow> (irq, s\<lparr>plic_claims := r\<rparr>))"

definition plic_complete :: "i32 \<Rightarrow> 'z ktrap_scheme \<Rightarrow> 'z ktrap_scheme" where
  "plic_complete irq s = plic_write (PLIC_SCLAIM (cpuid s)) irq s"

section \<open>Interrupts\<close>

text \<open>\<^verbatim>\<open>trapinit\<close> initialises \<^verbatim>\<open>tickslock\<close>; a lock is free at the start of the model.\<close>

definition trapinithart :: "'z ktrap_scheme \<Rightarrow> 'z ktrap_scheme" where
  "trapinithart s = upd_csr (\<lambda>c. c\<lparr>stvec := k_kernelvec s\<rparr>) s"

definition clockintr :: "'z kproc_scheme \<Rightarrow> 'z kproc_scheme res" where
  "clockintr s =
     bindE (lk_acquire L_tick s) (\<lambda>s1.
     bindE (wakeup C_ticks (s1\<lparr>ticks := ticks s1 + 1\<rparr>)) (\<lambda>s2. lk_release L_tick s2))"

definition dev_external :: "((nat \<times> u32) list \<Rightarrow> nat \<Rightarrow> u32) \<Rightarrow> i32 \<Rightarrow> 'z ktrap_scheme \<Rightarrow> 'z ktrap_scheme res" where
  "dev_external rd irq s =
     (if irq = UART0_IRQ then uartintr s
      else if irq = VIRTIO0_IRQ then virtio_disk_intr rd s
      else if irq \<noteq> 0 then printf (''unexpected interrupt irq=%d'' @ [nl]) [AInt irq] s
      else Inr s)"

definition devintr :: "((nat \<times> u32) list \<Rightarrow> nat \<Rightarrow> u32) \<Rightarrow> 'z ktrap_scheme \<Rightarrow> (i32 \<times> 'z ktrap_scheme) res" where
  "devintr rd s =
     (let cause = scause (csr s) in
      if cause AND 0x8000000000000000 \<noteq> 0 \<and> cause AND 0xff = 9
      then let (irq, s1) = plic_claim s in
           bindE (dev_external rd irq s1) (\<lambda>s2. Inr (1, if irq \<noteq> 0 then plic_complete irq s2 else s2))
      else if cause = 0x8000000000000001
      then bindE (if cpuid s = 0 then clockintr s else Inr s) (\<lambda>s1.
             Inr (2, upd_csr (\<lambda>c. c\<lparr>sip := sip c AND NOT 2\<rparr>) s1))
      else Inr (0, s))"

section \<open>Traps from and returns to user space\<close>

text \<open>The result of \<open>usertrapret\<close> is the address jumped to and the argument passed in \<^verbatim>\<open>a0\<close>.\<close>

definition usertrapret :: "'z ktrap_scheme \<Rightarrow> (u64 \<times> u64 \<times> 'z ktrap_scheme) res" where
  "usertrapret s =
     bindE (thisproc s) (\<lambda>p.
       let s1 = intr_off_csr s;
           s2 = upd_csr (\<lambda>c. c\<lparr>stvec := TRAMPOLINE + (k_uservec s1 - k_trampoline s1)\<rparr>) s1;
           s3 = tf_store p TF_kernel_satp (satp s2) s2;
           s4 = tf_store p TF_kernel_sp (p_kstack (ptable s3 p) + PGSIZE) s3;
           s5 = tf_store p TF_kernel_trap (k_usertrap s4) s4;
           s6 = tf_store p TF_kernel_hartid (tp (csr s5)) s5;
           x = sstatus (csr s6) AND NOT SSTATUS_SPP OR SSTATUS_SPIE;
           s7 = upd_csr (\<lambda>c. c\<lparr>sstatus := x\<rparr>) s6;
           s8 = upd_csr (\<lambda>c. c\<lparr>sepc := tf_load p TF_epc s7\<rparr>) s7
       in Inr (TRAMPOLINE + (k_userret s8 - k_trampoline s8), MAKE_SATP (p_pagetable (ptable s8 p)), s8))"

definition usertrap_unexpected :: "nat \<Rightarrow> 'z ktrap_scheme \<Rightarrow> 'z ktrap_scheme res" where
  "usertrap_unexpected p s =
     bindE (printf (''usertrap(): unexpected scause %p pid=%d'' @ [nl]) [APtr (scause (csr s)), AInt (p_pid (ptable s p))] s) (\<lambda>s1.
     bindE (printf (''            sepc=%p stval=%p'' @ [nl]) [APtr (sepc (csr s1)), APtr (stval (csr s1))] s1) (\<lambda>s2.
       setkilled p s2))"

text \<open>The part of \<^verbatim>\<open>usertrap\<close> for a system call.\<close>

definition usertrap_ecall ::
  "'z ktrap_scheme senv \<Rightarrow> u8 list \<Rightarrow> u8 list \<Rightarrow> nat \<Rightarrow> 'z ktrap_scheme \<Rightarrow> 'z ktrap_scheme res" where
  "usertrap_ecall e pad junk p s =
     bindE (killed p s) (\<lambda>(k, s1).
     bindE (if k \<noteq> 0 then exit e (- 1) s1 else Inr s1) (\<lambda>s2.
     let s3 = tf_store p TF_epc (tf_load p TF_epc s2 + 4) s2 in
       syscall e pad junk (intr_on_csr s3)))"

definition usertrap ::
  "'z ktrap_scheme senv \<Rightarrow> ((nat \<times> u32) list \<Rightarrow> nat \<Rightarrow> u32) \<Rightarrow> u8 list \<Rightarrow> u8 list \<Rightarrow> 'z ktrap_scheme
     \<Rightarrow> (u64 \<times> u64 \<times> 'z ktrap_scheme) res" where
  "usertrap e rd pad junk s =
     (if sstatus (csr s) AND SSTATUS_SPP \<noteq> 0 then Inl (Panic ''usertrap: not from user mode'')
      else let s1 = upd_csr (\<lambda>c. c\<lparr>stvec := k_kernelvec s\<rparr>) s in
        bindE (thisproc s1) (\<lambda>p.
        let s2 = tf_store p TF_epc (sepc (csr s1)) s1 in
        bindE (if scause (csr s2) = 8
               then bindE (usertrap_ecall e pad junk p s2) (\<lambda>s3. Inr (0, s3))
               else bindE (devintr rd s2) (\<lambda>(which_dev, s3).
                      if which_dev \<noteq> 0 then Inr (which_dev, s3)
                      else bindE (usertrap_unexpected p s3) (\<lambda>s4. Inr (0, s4)))) (\<lambda>(which_dev, s5).
        bindE (killed p s5) (\<lambda>(k, s6).
        bindE (if k \<noteq> 0 then exit e (- 1) s6 else Inr s6) (\<lambda>s7.
        bindE (if which_dev = 2 then yield (snd e) YIELD_TIMER s7 else Inr s7) usertrapret)))))"

section \<open>Traps in the kernel\<close>

definition kerneltrap :: "'z ktrap_scheme senv \<Rightarrow> ((nat \<times> u32) list \<Rightarrow> nat \<Rightarrow> u32) \<Rightarrow> 'z ktrap_scheme \<Rightarrow> 'z ktrap_scheme res" where
  "kerneltrap e rd s =
     (let pc = sepc (csr s); status = sstatus (csr s); cause = scause (csr s) in
      if status AND SSTATUS_SPP = 0 then Inl (Panic ''kerneltrap: not from supervisor mode'')
      else if intr_get_csr s then Inl (Panic ''kerneltrap: interrupts enabled'')
      else bindE (devintr rd s) (\<lambda>(which_dev, s1).
        if which_dev = 0
        then bindE (printf (''scause %p'' @ [nl]) [APtr cause] s1) (\<lambda>s2.
             bindE (printf (''sepc=%p stval=%p'' @ [nl]) [APtr (sepc (csr s2)), APtr (stval (csr s2))] s2) (\<lambda>_.
               Inl (Panic ''kerneltrap'')))
        else bindE (case myproc s1 of
                      Some p \<Rightarrow> if which_dev = 2 \<and> p_state (ptable s1 p) = RUNNING then yield (snd e) YIELD_OTHER s1 else Inr s1
                    | None \<Rightarrow> Inr s1) (\<lambda>s2.
               Inr (upd_csr (\<lambda>c. c\<lparr>sepc := pc, sstatus := status\<rparr>) s2))))"

section \<open>The first run of a process\<close>

definition forkret :: "'z ktrap_scheme senv \<Rightarrow> 'z ktrap_scheme \<Rightarrow> (u64 \<times> u64 \<times> 'z ktrap_scheme) res" where
  "forkret e s =
     bindE (thisproc s) (\<lambda>p.
     bindE (lk_release (L_proc p) s) (\<lambda>s1.
     bindE (if forkret_first s1 then fsinit e ROOTDEV (s1\<lparr>forkret_first := False\<rparr>) else Inr s1) usertrapret))"

end
