(* ===== verification/Boot.thy ===== *)
theory Boot
  imports Trap
begin

text \<open>
  The start of the machine: \<^verbatim>\<open>start\<close> and \<^verbatim>\<open>timerinit\<close> of \<^verbatim>\<open>kernel/start.c\<close> on the machine-mode registers of
  one CPU, and \<^verbatim>\<open>main\<close> of \<^verbatim>\<open>kernel/main.c\<close>.
\<close>

section \<open>Machine mode\<close>

record mregs =
  mstatus :: u64
  mepc :: u64
  medeleg :: u64
  mideleg :: u64
  mie :: u64
  mtvec :: u64
  mscratch :: u64
  mhartid :: u64
  pmpaddr0 :: u64
  pmpcfg0 :: u64

record kboot = ktrap +
  mreg :: mregs
  timer_scratch :: "int \<Rightarrow> nat \<Rightarrow> u64"
  clint_mtime :: u64
  clint_writes :: "(u64 \<times> u64) list"
  started :: i32
  k_main :: u64
  k_timervec :: u64
  k_timer_scratch :: u64

definition upd_mreg :: "(mregs \<Rightarrow> mregs) \<Rightarrow> 'z kboot_scheme \<Rightarrow> 'z kboot_scheme" where
  "upd_mreg f s = s\<lparr>mreg := f (mreg s)\<rparr>"

definition MSTATUS_MPP_MASK :: u64 where "MSTATUS_MPP_MASK = push_bit 11 3"
definition MSTATUS_MPP_S :: u64 where "MSTATUS_MPP_S = push_bit 11 1"
definition MSTATUS_MIE :: u64 where "MSTATUS_MIE = push_bit 3 1"
definition SIE_SEIE :: u64 where "SIE_SEIE = push_bit 9 1"
definition SIE_STIE :: u64 where "SIE_STIE = push_bit 5 1"
definition SIE_SSIE :: u64 where "SIE_SSIE = push_bit 1 1"
definition MIE_MTIE :: u64 where "MIE_MTIE = push_bit 7 1"
definition CLINT :: u64 where "CLINT = 0x2000000"
definition CLINT_MTIMECMP :: "i32 \<Rightarrow> u64" where "CLINT_MTIMECMP hartid = CLINT + 0x4000 + scast (8 * hartid)"

definition timerinit :: "'z kboot_scheme \<Rightarrow> 'z kboot_scheme" where
  "timerinit s =
     (let hart = ucast (mhartid (mreg s)) :: i32;
          interval = 1000000;
          s1 = s\<lparr>clint_writes := clint_writes s @ [(CLINT_MTIMECMP hart, clint_mtime s + interval)]\<rparr>;
          k = sint hart;
          s2 = s1\<lparr>timer_scratch := (timer_scratch s1)(k := (timer_scratch s1 k)(3 := CLINT_MTIMECMP hart, 4 := interval))\<rparr>
      in upd_mreg (\<lambda>m. m\<lparr>mscratch := k_timer_scratch s2 + 40 * scast hart,
                         mtvec := k_timervec s2,
                         mstatus := mstatus m OR MSTATUS_MIE,
                         mie := mie m OR MIE_MTIE\<rparr>) s2)"

text \<open>\<^verbatim>\<open>start\<close> ends with an \<^verbatim>\<open>mret\<close> to the address in \<^verbatim>\<open>mepc\<close>, in the mode \<^verbatim>\<open>mstatus\<close> has.\<close>

definition start :: "'z kboot_scheme \<Rightarrow> 'z kboot_scheme" where
  "start s =
     (let x = mstatus (mreg s) AND NOT MSTATUS_MPP_MASK OR MSTATUS_MPP_S;
          s1 = upd_mreg (\<lambda>m. m\<lparr>mstatus := x, mepc := k_main s\<rparr>) s;
          s2 = upd_mreg (\<lambda>m. m\<lparr>medeleg := 0xffff, mideleg := 0xffff\<rparr>) (s1\<lparr>satp := 0\<rparr>);
          s3 = upd_csr (\<lambda>c. c\<lparr>sie := sie c OR SIE_SEIE OR SIE_STIE OR SIE_SSIE\<rparr>) s2;
          s4 = upd_mreg (\<lambda>m. m\<lparr>pmpaddr0 := 0x3fffffffffffff, pmpcfg0 := 0xf\<rparr>) s3;
          s5 = timerinit s4
      in upd_csr (\<lambda>c. c\<lparr>tp := scast (ucast (mhartid (mreg s5)) :: i32)\<rparr>) s5)"

section \<open>\<^verbatim>\<open>main\<close>\<close>

text \<open>The initialisation on CPU 0; \<open>rd\<close> is what the registers of the disk answer. \<^verbatim>\<open>fileinit\<close> and \<^verbatim>\<open>trapinit\<close>
  initialise locks, which are free at the start of the model.\<close>

definition main_first :: "'z kboot_scheme senv \<Rightarrow> ((nat \<times> u32) list \<Rightarrow> nat \<Rightarrow> u32) \<Rightarrow> 'z kboot_scheme \<Rightarrow> 'z kboot_scheme res" where
  "main_first e rd s =
     bindE (printf [nl] [] (printfinit (consoleinit s))) (\<lambda>s1.
     bindE (printf (''xv6 kernel is booting'' @ [nl]) [] s1) (\<lambda>s2.
     bindE (printf [nl] [] s2) (\<lambda>s3.
     bindE (kinit s3) (\<lambda>s4.
     bindE (kvminit s4) (\<lambda>s5.
     let s6 = iinit (binit (plicinithart (plicinit (trapinithart (procinit (kvminithart s5)))))) in
     bindE (virtio_disk_init rd s6) (\<lambda>s7.
     bindE (userinit e s7) (\<lambda>s8. Inr (s8\<lparr>started := 1\<rparr>))))))))"

text \<open>The other CPUs wait for CPU 0; \<open>E\<close> is what happens elsewhere between two looks at \<^verbatim>\<open>started\<close>.\<close>

fun main_wait :: "nat \<Rightarrow> ('z kboot_scheme \<Rightarrow> 'z kboot_scheme) \<Rightarrow> 'z kboot_scheme \<Rightarrow> 'z kboot_scheme res" where
  "main_wait 0 E s = Inl (Blocked ''main'')"
| "main_wait (Suc n) E s = (if started s = 0 then main_wait n E (E s) else Inr s)"

definition main_other :: "'z kboot_scheme senv \<Rightarrow> 'z kboot_scheme \<Rightarrow> 'z kboot_scheme res" where
  "main_other e s =
     bindE (main_wait (fst e) (snd e) s) (\<lambda>s1.
     bindE (printf (''hart %d starting'' @ [nl]) [AInt (cpuid s1)] s1) (\<lambda>s2.
       Inr (plicinithart (trapinithart (kvminithart s2)))))"

text \<open>\<^verbatim>\<open>main\<close> with \<open>rounds\<close> rounds of the scheduler; \<open>R i\<close> is a run of process \<open>i\<close>.\<close>

definition main ::
  "'z kboot_scheme senv \<Rightarrow> ((nat \<times> u32) list \<Rightarrow> nat \<Rightarrow> u32) \<Rightarrow> nat \<Rightarrow> nat \<Rightarrow> (nat \<Rightarrow> 'z kboot_scheme \<Rightarrow> 'z kboot_scheme)
     \<Rightarrow> 'z kboot_scheme \<Rightarrow> 'z kboot_scheme res" where
  "main e rd rounds passes R s =
     bindE (if cpuid s = 0 then main_first e rd s else main_other e s) (scheduler rounds passes R)"

end
