(* ===== verification/Memframe.thy ===== *)
theory Memframe
  imports Vm
begin

text \<open>
  What a function leaves alone. \<open>safeE G m Q\<close> says that the result of \<open>m\<close> satisfies \<open>Q\<close> or that \<open>m\<close>
  ends in a fault allowed by \<open>G\<close>. The locale \<open>mem_frame\<close> has a property \<open>K\<close> of states that does not
  depend on physical memory, the free list and the locks held; every function of \<^verbatim>\<open>kalloc.c\<close> and
  \<^verbatim>\<open>vm.c\<close> keeps such a property. The proofs go through the code with one rule per construct.
\<close>

named_theorems frame \<open>functions keep the property\<close>

definition safeE :: "(fault \<Rightarrow> bool) \<Rightarrow> 'a res \<Rightarrow> ('a \<Rightarrow> bool) \<Rightarrow> bool" where
  "safeE G m Q \<longleftrightarrow> (case m of Inl f \<Rightarrow> G f | Inr x \<Rightarrow> Q x)"

lemma safeE_bind: "safeE G m P \<Longrightarrow> (\<And>x. P x \<Longrightarrow> safeE G (f x) Q) \<Longrightarrow> safeE G (bindE m f) Q"
  by (cases m) (auto simp: safeE_def)

lemma safeE_mono: "safeE G m P \<Longrightarrow> (\<And>x. P x \<Longrightarrow> Q x) \<Longrightarrow> safeE G m Q"
  by (cases m) (auto simp: safeE_def)

lemma safeE_conj: "safeE G m P \<Longrightarrow> safeE G m Q \<Longrightarrow> safeE G m (\<lambda>x. P x \<and> Q x)"
  by (cases m) (auto simp: safeE_def)

lemma safeE_InrD: "safeE G m Q \<Longrightarrow> m = Inr x \<Longrightarrow> Q x"
  by (simp add: safeE_def)

lemma safeE_InlD: "safeE G m Q \<Longrightarrow> m = Inl f \<Longrightarrow> G f"
  by (simp add: safeE_def)

lemma safeE_if: "(c \<Longrightarrow> safeE G a Q) \<Longrightarrow> (\<not> c \<Longrightarrow> safeE G b Q) \<Longrightarrow> safeE G (if c then a else b) Q"
  by simp

lemma safeE_let: "safeE G (f x) Q \<Longrightarrow> safeE G (Let x f) Q"
  by simp

lemma safeE_pair: "safeE G (g a b) Q \<Longrightarrow> safeE G (case (a, b) of (x, y) \<Rightarrow> g x y) Q"
  by simp

lemma safeE_prod: "(\<And>a b. x = (a, b) \<Longrightarrow> safeE G (g a b) Q) \<Longrightarrow> safeE G (case x of (a, b) \<Rightarrow> g a b) Q"
  by (cases x) simp

lemma safeE_option:
  "safeE G a Q \<Longrightarrow> (\<And>y. x = Some y \<Longrightarrow> safeE G (b y) Q) \<Longrightarrow> safeE G (case x of None \<Rightarrow> a | Some y \<Rightarrow> b y) Q"
  by (cases x) simp_all

lemma safeE_Inl: "G f \<Longrightarrow> safeE G (Inl f) Q"
  by (simp add: safeE_def)

lemma safeE_Inr: "Q x \<Longrightarrow> safeE G (Inr x) Q"
  by (simp add: safeE_def)

lemma safeE_bind0: "safeE G m (\<lambda>_. True) \<Longrightarrow> (\<And>x. m = Inr x \<Longrightarrow> safeE G (f x) Q) \<Longrightarrow> safeE G (bindE m f) Q"
  by (cases m) (auto simp: safeE_def)

lemma safeE_foldE:
  "(\<And>x s. K s \<Longrightarrow> safeE G (f x s) K) \<Longrightarrow> K s \<Longrightarrow> safeE G (foldE f xs s) K"
proof (induction xs arbitrary: s)
  case (Cons x xs)
  show ?case unfolding foldE.simps by (rule safeE_bind [OF Cons.prems(1) [OF Cons.prems(2)] Cons.IH [OF Cons.prems(1)]])
qed (simp add: safeE_Inr)

lemmas safe_code = safeE_if safeE_let safeE_pair safeE_prod safeE_option safeE_Inl

text \<open>Properties of the state after a call with a result.\<close>

definition on_st :: "('s \<Rightarrow> bool) \<Rightarrow> 'a \<times> 's \<Rightarrow> bool" where
  "on_st K r \<longleftrightarrow> K (snd r)"

definition on_st2 :: "('s \<Rightarrow> bool) \<Rightarrow> 'a \<times> 'b \<times> 's \<Rightarrow> bool" where
  "on_st2 K r \<longleftrightarrow> K (snd (snd r))"

locale mem_frame =
  fixes K :: "'z kmach_scheme \<Rightarrow> bool" and G :: "fault \<Rightarrow> bool"
  assumes K_held: "K s \<Longrightarrow> K (s\<lparr>held := h\<rparr>)"
    and K_pmem: "K s \<Longrightarrow> K (s\<lparr>pmem := m\<rparr>)"
    and K_freelist: "K s \<Longrightarrow> K (s\<lparr>freelist := r\<rparr>)"
    and G_fault: "f \<noteq> Panic ''filedup'' \<Longrightarrow> f \<noteq> Panic ''fileclose'' \<Longrightarrow> G f"
begin

lemma bind_s: "safeE G m K \<Longrightarrow> (\<And>s. m = Inr s \<Longrightarrow> K s \<Longrightarrow> safeE G (f s) Q) \<Longrightarrow> safeE G (bindE m f) Q"
  by (cases m) (auto simp: safeE_def)

lemma bind_vs: "safeE G m (on_st K) \<Longrightarrow> (\<And>v s. m = Inr (v, s) \<Longrightarrow> K s \<Longrightarrow> safeE G (f (v, s)) Q) \<Longrightarrow> safeE G (bindE m f) Q"
  by (cases m) (auto simp: safeE_def on_st_def)

lemma bind_vws:
  "safeE G m (on_st2 K) \<Longrightarrow> (\<And>v w s. m = Inr (v, w, s) \<Longrightarrow> K s \<Longrightarrow> safeE G (f (v, w, s)) Q) \<Longrightarrow> safeE G (bindE m f) Q"
  by (cases m) (auto simp: safeE_def on_st2_def)

lemma inr_s: "K s \<Longrightarrow> safeE G (Inr s) K"
  by (rule safeE_Inr)

lemma inr_vs: "K s \<Longrightarrow> safeE G (Inr (v, s)) (on_st K)"
  by (rule safeE_Inr) (simp add: on_st_def)

lemma inr_vws: "K s \<Longrightarrow> safeE G (Inr (v, w, s)) (on_st2 K)"
  by (rule safeE_Inr) (simp add: on_st2_def)

lemma inr_T: "safeE G (Inr x) (\<lambda>_. True)"
  by (rule safeE_Inr) simp

lemma K_if: "(c \<Longrightarrow> K a) \<Longrightarrow> (\<not> c \<Longrightarrow> K b) \<Longrightarrow> K (if c then a else b)"
  by simp

lemma G_panic: "x \<noteq> ''filedup'' \<Longrightarrow> x \<noteq> ''fileclose'' \<Longrightarrow> G (Panic x)"
  by (rule G_fault) simp_all

lemma G_undef: "G (Undef x)"
  by (rule G_fault) simp_all

lemma G_blocked: "G (Blocked x)"
  by (rule G_fault) simp_all

lemma prod_s:
  "on_st K x \<Longrightarrow> (\<And>a b. K b \<Longrightarrow> safeE G (g a b) Q) \<Longrightarrow> safeE G (case x of (a, b) \<Rightarrow> g a b) Q"
  by (cases x) (simp add: on_st_def)

lemmas code = safeE_if safeE_let safeE_pair prod_s safeE_prod safeE_option safeE_Inl inr_s inr_vs inr_vws inr_T
  bind_s bind_vs bind_vws safeE_bind0 K_if K_held K_pmem K_freelist G_undef G_blocked G_panic safeE_foldE

lemma lk_acquire_keeps [frame]: "K s \<Longrightarrow> safeE G (lk_acquire lk s) K"
  unfolding lk_acquire_def by (rule code | assumption | (simp; fail))+

lemma lk_release_keeps [frame]: "K s \<Longrightarrow> safeE G (lk_release lk s) K"
  unfolding lk_release_def by (rule code | assumption | (simp; fail))+

lemma kfree_keeps [frame]: "K s \<Longrightarrow> safeE G (kfree pa s) K"
  unfolding kfree_def by (rule frame code | assumption | (simp; fail))+

lemma kalloc_keeps [frame]: "K s \<Longrightarrow> safeE G (kalloc s) (on_st K)"
  unfolding kalloc_def by (rule frame code | assumption | (simp; fail))+

lemma walk_loop_keeps [frame]: "K s \<Longrightarrow> safeE G (walk_loop l pt va al s) (on_st K)"
proof (induction l arbitrary: pt s)
  case 0
  then show ?case unfolding walk_loop.simps by (rule frame code)
next
  case (Suc l)
  show ?case unfolding walk_loop.simps by (rule Suc.IH Suc.prems frame code | assumption | (simp; fail))+
qed

lemma walk_keeps [frame]: "K s \<Longrightarrow> safeE G (walk pt va al s) (on_st K)"
  unfolding walk_def by (rule frame code | assumption | (simp; fail))+

lemma walkaddr_safe [frame]: "K s \<Longrightarrow> safeE G (walkaddr pt va s) (\<lambda>_. True)"
  unfolding walkaddr_def by (rule frame code | assumption | (simp; fail))+

lemma mappages_loop_keeps [frame]: "K s \<Longrightarrow> safeE G (mappages_loop pt a l pa perm s) (on_st K)"
proof (induction pt a l pa perm s rule: mappages_loop.induct)
  case (1 pt a l pa perm s)
  show ?case
    by (subst mappages_loop.simps) (rule "1.IH" "1.prems" frame code | assumption | (simp; fail))+
qed

lemma mappages_keeps [frame]: "K s \<Longrightarrow> safeE G (mappages pt va sz pa perm s) (on_st K)"
  unfolding mappages_def by (rule frame code | assumption | (simp; fail))+

lemma uvmunmap_loop_keeps [frame]: "K s \<Longrightarrow> safeE G (uvmunmap_loop pt a l fr s) K"
proof (induction pt a l fr s rule: uvmunmap_loop.induct)
  case (1 pt a l fr s)
  show ?case
    by (subst uvmunmap_loop.simps) (rule "1.IH" "1.prems" frame code | assumption | (simp; fail))+
qed

lemma uvmunmap_keeps [frame]: "K s \<Longrightarrow> safeE G (uvmunmap pt va n fr s) K"
  unfolding uvmunmap_def by (rule frame code | assumption | (simp; fail))+

lemma uvmcreate_keeps [frame]: "K s \<Longrightarrow> safeE G (uvmcreate s) (on_st K)"
  unfolding uvmcreate_def by (rule frame code | assumption | (simp; fail))+

lemma uvmdealloc_keeps [frame]: "K s \<Longrightarrow> safeE G (uvmdealloc pt a b s) (on_st K)"
  unfolding uvmdealloc_def by (rule frame code | assumption | (simp; fail))+

lemma uvmalloc_loop_keeps [frame]: "K s \<Longrightarrow> safeE G (uvmalloc_loop pt a b c x s) (on_st K)"
proof (induction pt a b c x s rule: uvmalloc_loop.induct)
  case (1 pt a b c x s)
  show ?case by (subst uvmalloc_loop.simps) (rule "1.IH" "1.prems" frame code | assumption | (simp; fail))+
qed

lemma uvmalloc_keeps [frame]: "K s \<Longrightarrow> safeE G (uvmalloc pt a b x s) (on_st K)"
  unfolding uvmalloc_def by (rule frame code | assumption | (simp; fail))+

lemma freewalk_depth_keeps [frame]: "K s \<Longrightarrow> safeE G (freewalk_depth n pt s) K"
proof (induction n arbitrary: pt s)
  case 0
  show ?case unfolding freewalk_depth.simps by (rule "0.prems" frame code | assumption | (simp; fail))+
next
  case (Suc n)
  show ?case unfolding freewalk_depth.simps by (rule Suc.IH Suc.prems frame code | assumption | (simp; fail))+
qed

lemma freewalk_keeps [frame]: "K s \<Longrightarrow> safeE G (freewalk pt s) K"
  unfolding freewalk_def by (rule frame code | assumption | (simp; fail))+

lemma uvmfree_keeps [frame]: "K s \<Longrightarrow> safeE G (uvmfree pt sz s) K"
  unfolding uvmfree_def by (rule frame code | assumption | (simp; fail))+

lemma uvmcopy_loop_keeps [frame]: "K s \<Longrightarrow> safeE G (uvmcopy_loop old new i sz s) (on_st K)"
proof (induction old new i sz s rule: uvmcopy_loop.induct)
  case (1 old new i sz s)
  show ?case by (subst uvmcopy_loop.simps) (rule "1.IH" "1.prems" frame code | assumption | (simp; fail))+
qed

lemma uvmcopy_keeps [frame]: "K s \<Longrightarrow> safeE G (uvmcopy old new sz s) (on_st K)"
  unfolding uvmcopy_def by (rule frame code | assumption | (simp; fail))+

lemma uvmclear_keeps [frame]: "K s \<Longrightarrow> safeE G (uvmclear pt va s) K"
  unfolding uvmclear_def by (rule frame code | assumption | (simp; fail))+

lemma copyout_keeps [frame]: "K s \<Longrightarrow> safeE G (copyout pt va src s) (on_st K)"
proof (induction pt va src s rule: copyout.induct)
  case (1 pt va src s)
  show ?case by (subst copyout.simps) (rule "1.IH" "1.prems" frame code | assumption | (simp; fail))+
qed

lemma copyin_keeps [frame]: "K s \<Longrightarrow> safeE G (copyin pt va n s) (\<lambda>_. True)"
proof (induction pt va n s rule: copyin.induct)
  case (1 pt va n s)
  show ?case by (subst copyin.simps) (rule "1.IH" "1.prems" frame code | assumption | (simp; fail))+
qed

lemma copyinstr_keeps [frame]: "K s \<Longrightarrow> safeE G (copyinstr pt va n s) (\<lambda>_. True)"
proof (induction pt va n s rule: copyinstr.induct)
  case (1 pt va n s)
  show ?case by (subst copyinstr.simps) (rule "1.IH" "1.prems" frame code | assumption | (simp; fail))+
qed

end

end
