(* ===== verification/Frame.thy ===== *)
theory Frame
  imports Memframe Syscall
begin

text \<open>
  The frame of the kernel functions: which of them touch open files. The locale \<open>fd_frame\<close> extends
  \<open>mem_frame\<close> to properties \<open>K\<close> of the whole state that depend on the file table only through the
  reference counts, on processes only through their open files and on which slots are unused or
  zombies. Everything from \<^verbatim>\<open>printf\<close> to \<^verbatim>\<open>exec\<close> keeps such a property, with the effect of other processes
  keeping it too (\<open>K_env\<close>). The slot \<open>me\<close> is that of a process which is not idle.
\<close>

section \<open>More rules for code\<close>

lemma safeE_list:
  "safeE G a Q \<Longrightarrow> (\<And>y ys. x = y # ys \<Longrightarrow> safeE G (b y ys) Q) \<Longrightarrow> safeE G (case x of [] \<Rightarrow> a | y # ys \<Rightarrow> b y ys) Q"
  by (cases x) simp_all

lemma safeE_varg:
  "(\<And>i. x = AInt i \<Longrightarrow> safeE G (a i) Q) \<Longrightarrow> (\<And>i. x = APtr i \<Longrightarrow> safeE G (b i) Q) \<Longrightarrow> (\<And>i. x = AStr i \<Longrightarrow> safeE G (c i) Q)
    \<Longrightarrow> safeE G (case x of AInt i \<Rightarrow> a i | APtr i \<Rightarrow> b i | AStr i \<Rightarrow> c i) Q"
  by (cases x) simp_all

lemma safeE_ftype:
  "safeE G a Q \<Longrightarrow> safeE G b Q \<Longrightarrow> safeE G c Q \<Longrightarrow> safeE G d Q
    \<Longrightarrow> safeE G (case x of FD_NONE \<Rightarrow> a | FD_PIPE \<Rightarrow> b | FD_INODE \<Rightarrow> c | FD_DEVICE \<Rightarrow> d) Q"
  by (cases x) simp_all

lemma safeE_prod_app: "(\<And>a b. x = (a, b) \<Longrightarrow> safeE G (g a b s) Q) \<Longrightarrow> safeE G ((case x of (a, b) \<Rightarrow> g a b) s) Q"
  by (cases x) simp

lemma safeE_bind_sum:
  "safeE G m (case_sum P R) \<Longrightarrow> (\<And>a. m = Inr (Inl a) \<Longrightarrow> P a \<Longrightarrow> safeE G (f (Inl a)) Q)
    \<Longrightarrow> (\<And>b. m = Inr (Inr b) \<Longrightarrow> R b \<Longrightarrow> safeE G (f (Inr b)) Q) \<Longrightarrow> safeE G (bindE m f) Q"
  by (cases m) (auto simp: safeE_def split: sum.splits)

lemma safeE_case_Inl: "safeE G (g a) Q \<Longrightarrow> safeE G (case Inl a of Inl x \<Rightarrow> g x | Inr y \<Rightarrow> h y) Q"
  by simp

lemma safeE_case_Inr: "safeE G (h b) Q \<Longrightarrow> safeE G (case Inr b of Inl x \<Rightarrow> g x | Inr y \<Rightarrow> h y) Q"
  by simp

lemma safeE_Inr_Inl: "P a \<Longrightarrow> safeE G (Inr (Inl a)) (case_sum P R)"
  by (simp add: safeE_def)

lemma safeE_Inr_Inr: "R b \<Longrightarrow> safeE G (Inr (Inr b)) (case_sum P R)"
  by (simp add: safeE_def)

lemma on_stI: "K s \<Longrightarrow> on_st K (v, s)"
  by (simp add: on_st_def)

lemma on_st2I: "K s \<Longrightarrow> on_st2 K (v, w, s)"
  by (simp add: on_st2_def)

lemma on_st_prodE: "on_st K p \<Longrightarrow> (\<And>v s. p = (v, s) \<Longrightarrow> K s \<Longrightarrow> T) \<Longrightarrow> T"
  by (cases p) (simp add: on_st_def)

lemma K_fold: "(\<And>x s. K s \<Longrightarrow> K (f x s)) \<Longrightarrow> K s \<Longrightarrow> K (fold f xs s)"
  by (induction xs arbitrary: s) auto

text \<open>A slot of the process table without a program that could have files open.\<close>

abbreviation idle :: "proc \<Rightarrow> bool" where
  "idle p \<equiv> p_state p = UNUSED \<or> p_state p = ZOMBIE"

lemma find_unused_spec:
  "find_unused xs s = Inr (Some i, s') \<Longrightarrow> i \<in> set xs \<and> p_state (ptable s i) = UNUSED \<and> ptable s' = ptable s"
  by (induction xs arbitrary: s) (auto simp: lk_acquire_def lk_release_def split: if_splits)

definition bare :: "proc \<Rightarrow> bool" where
  "bare p \<longleftrightarrow> (\<forall>fd < NOFILE. p_ofile p fd = None)"

section \<open>The frame\<close>

locale fd_frame = mem_frame K G
  for K :: "'z kfile_scheme \<Rightarrow> bool" and G :: "fault \<Rightarrow> bool" +
  fixes e :: "'z kfile_scheme senv" and me :: nat
  assumes K_u_out: "K s \<Longrightarrow> K (s\<lparr>u_out := x1\<rparr>)"
    and K_u_in: "K s \<Longrightarrow> K (s\<lparr>u_in := x2\<rparr>)"
    and K_tx_idle: "K s \<Longrightarrow> K (s\<lparr>tx_idle := x3\<rparr>)"
    and K_nextpid: "K s \<Longrightarrow> K (s\<lparr>nextpid := x4\<rparr>)"
    and K_sched_pointer: "K s \<Longrightarrow> K (s\<lparr>sched_pointer := x5\<rparr>)"
    and K_nswitch: "K s \<Longrightarrow> K (s\<lparr>nswitch := x6\<rparr>)"
    and K_pipes: "K s \<Longrightarrow> K (s\<lparr>pipes := x7\<rparr>)"
    and K_slock: "K s \<Longrightarrow> K (s\<lparr>slock := x8\<rparr>)"
    and K_bcache: "K s \<Longrightarrow> K (s\<lparr>bcache := x9\<rparr>)"
    and K_disk: "K s \<Longrightarrow> K (s\<lparr>disk := x10\<rparr>)"
    and K_dwrites: "K s \<Longrightarrow> K (s\<lparr>dwrites := x11\<rparr>)"
    and K_log: "K s \<Longrightarrow> K (s\<lparr>log := x12\<rparr>)"
    and K_itable: "K s \<Longrightarrow> K (s\<lparr>itable := x13\<rparr>)"
    and K_uart: "K s \<Longrightarrow> K (s\<lparr>uart := x14\<rparr>)"
    and K_cons: "K s \<Longrightarrow> K (s\<lparr>cons := x15\<rparr>)"
    and K_proc: "(\<And>p. p_ofile (f p) = p_ofile p) \<Longrightarrow> (\<And>p. idle (f p) \<Longrightarrow> idle p) \<Longrightarrow> K s \<Longrightarrow> K (upd_proc i f s)"
    and K_idle: "K s \<Longrightarrow> i < NPROC \<Longrightarrow> idle (ptable s i) \<Longrightarrow> bare (ptable s i) \<and> i \<noteq> me"
    and K_bare: "bare (ptable s i) \<and> i \<noteq> me \<Longrightarrow> (\<And>p. p_ofile (f p) = p_ofile p) \<Longrightarrow> K s \<Longrightarrow> K (upd_proc i f s)"
    and K_file: "(\<And>x. f_ref (g x) = f_ref x) \<Longrightarrow> K s \<Longrightarrow> K (upd_file k g s)"
    and K_env: "K s \<Longrightarrow> K (snd e s)"
begin

lemmas fields = K_u_out K_u_in K_tx_idle K_nextpid K_sched_pointer K_nswitch K_pipes K_slock K_bcache K_disk K_dwrites
  K_log K_itable K_uart K_cons K_env K_fold [of K]

text \<open>A call whose result is one of two continuations, with values beside the state or without.\<close>

lemma sum_s_s:
  "safeE G m (case_sum K K) \<Longrightarrow> (\<And>s. m = Inr (Inl s) \<Longrightarrow> K s \<Longrightarrow> safeE G (f (Inl s)) Q)
    \<Longrightarrow> (\<And>s. m = Inr (Inr s) \<Longrightarrow> K s \<Longrightarrow> safeE G (f (Inr s)) Q) \<Longrightarrow> safeE G (bindE m f) Q"
  by (rule safeE_bind_sum)

lemma sum_s_vs:
  "safeE G m (case_sum K (on_st K)) \<Longrightarrow> (\<And>s. m = Inr (Inl s) \<Longrightarrow> K s \<Longrightarrow> safeE G (f (Inl s)) Q)
    \<Longrightarrow> (\<And>v s. m = Inr (Inr (v, s)) \<Longrightarrow> K s \<Longrightarrow> safeE G (f (Inr (v, s))) Q) \<Longrightarrow> safeE G (bindE m f) Q"
  by (cases m) (auto simp: safeE_def on_st_def split: sum.splits)

lemma sum_vs_vs:
  "safeE G m (case_sum (on_st K) (on_st K)) \<Longrightarrow> (\<And>v s. m = Inr (Inl (v, s)) \<Longrightarrow> K s \<Longrightarrow> safeE G (f (Inl (v, s))) Q)
    \<Longrightarrow> (\<And>v s. m = Inr (Inr (v, s)) \<Longrightarrow> K s \<Longrightarrow> safeE G (f (Inr (v, s))) Q) \<Longrightarrow> safeE G (bindE m f) Q"
  by (cases m) (auto simp: safeE_def on_st_def split: sum.splits)

lemma sum_s_vws:
  "safeE G m (case_sum K (on_st2 K)) \<Longrightarrow> (\<And>s. m = Inr (Inl s) \<Longrightarrow> K s \<Longrightarrow> safeE G (f (Inl s)) Q)
    \<Longrightarrow> (\<And>v w s. m = Inr (Inr (v, w, s)) \<Longrightarrow> K s \<Longrightarrow> safeE G (f (Inr (v, w, s))) Q) \<Longrightarrow> safeE G (bindE m f) Q"
  by (cases m) (auto simp: safeE_def on_st2_def split: sum.splits)

lemmas more = safeE_list safeE_varg safeE_ftype safeE_prod_app sum_s_s sum_s_vs sum_vs_vs sum_s_vws safeE_case_Inl safeE_case_Inr safeE_Inr_Inl safeE_Inr_Inr
  on_stI on_st2I

lemmas code2 = safeE_if safeE_let safeE_pair prod_s safeE_prod safeE_option safeE_Inl more inr_s inr_vs inr_vws inr_T
  bind_s bind_vs bind_vws safeE_bind0 K_if K_held K_pmem K_freelist fields G_undef G_blocked G_panic safeE_foldE

subsection \<open>Updates\<close>

lemma K_upd_buf [frame]: "K s \<Longrightarrow> K (upd_buf b f s)"
  unfolding upd_buf_def by (rule fields)

lemma K_set_next [frame]: "K s \<Longrightarrow> K (set_next b n s)"
  unfolding set_next_def by (rule frame)

lemma K_set_prev [frame]: "K s \<Longrightarrow> K (set_prev b n s)"
  unfolding set_prev_def by (rule frame)

lemma K_link_front [frame]: "K s \<Longrightarrow> K (link_front b s)"
  unfolding link_front_def Let_def by (rule frame | assumption)+

lemma K_unlink [frame]: "K s \<Longrightarrow> K (unlink b s)"
  unfolding unlink_def Let_def by (rule frame | assumption)+

lemma K_set_data [frame]: "K s \<Longrightarrow> K (set_data b d s)"
  unfolding set_data_def by (rule frame)

lemma K_disk_rw [frame]: "K s \<Longrightarrow> K (disk_rw b w s)"
  unfolding disk_rw_def Let_def by (rule frame fields K_if | assumption)+

lemma K_upd_log [frame]: "K s \<Longrightarrow> K (upd_log f s)"
  unfolding upd_log_def by (rule fields)

lemma K_upd_inode [frame]: "K s \<Longrightarrow> K (upd_inode ip f s)"
  unfolding upd_inode_def by (rule fields)

lemma K_set_slock [frame]: "K s \<Longrightarrow> K (set_slock nm i l s)"
  unfolding set_slock_def by (rule fields)

lemma K_set_pipe [frame]: "K s \<Longrightarrow> K (set_pipe pi p s)"
  unfolding set_pipe_def by (rule fields)

lemma K_upd_cons [frame]: "K s \<Longrightarrow> K (upd_cons f s)"
  unfolding upd_cons_def by (rule fields)

lemma K_tf_store [frame]: "K s \<Longrightarrow> K (tf_store i r v s)"
  unfolding tf_store_def by (rule K_pmem)

lemma K_read_tx_idle [frame]: "K s \<Longrightarrow> on_st K (read_tx_idle s)"
  unfolding read_tx_idle_def by (cases "tx_idle s") (simp_all add: on_st_def K_tx_idle)

lemma K_promote [frame]: "K s \<Longrightarrow> K (upd_proc i promote s)"
  by (rule K_proc) (auto simp: promote_def Let_def split: if_splits)

subsection \<open>Printing\<close>

lemma uartputc_sync_keeps [frame]: "K s \<Longrightarrow> safeE G (uartputc_sync c s) K"
  unfolding uartputc_sync_def by (rule frame code2 K_proc K_file | assumption | (simp; fail))+

lemma consputc_keeps [frame]: "K s \<Longrightarrow> safeE G (consputc c s) K"
  unfolding consputc_def by (rule frame code2 K_proc K_file | assumption | (simp; fail))+

lemma putbytes_keeps [frame]: "K s \<Longrightarrow> safeE G (putbytes bs s) K"
  unfolding putbytes_def by (rule frame code2 K_proc K_file | assumption | (simp; fail))+

lemma printint_loop_safe [frame]: "safeE G (printint_loop n x b) (\<lambda>_. True)"
proof (induction n arbitrary: x)
  case (Suc n)
  show ?case unfolding printint_loop.simps by (rule Suc.IH code2 | (simp; fail))+
qed (simp, rule code2, rule code2)

lemma printint_keeps [frame]: "K s \<Longrightarrow> safeE G (printint x b sg s) K"
  unfolding printint_def by (rule frame code2 K_proc K_file | assumption | (simp; fail))+

lemma printptr_keeps [frame]: "K s \<Longrightarrow> safeE G (printptr x s) K"
  unfolding printptr_def by (rule frame code2 K_proc K_file | assumption | (simp; fail))+

lemma printf_loop_keeps [frame]: "K s \<Longrightarrow> safeE G (printf_loop fmt ap s) K"
proof (induction fmt ap s rule: printf_loop.induct)
  case (3 c d fmt ap s)
  show ?case unfolding printf_loop.simps by (rule "3.IH" "3.prems" frame code2 | assumption | (simp; fail))+
qed (unfold printf_loop.simps, (rule frame code2 | assumption)+)

lemma printf_keeps [frame]: "K s \<Longrightarrow> safeE G (printf fmt ap s) K"
  unfolding printf_def by (rule frame code2 K_proc K_file | assumption | (simp; fail))+

subsection \<open>Processes\<close>

lemma thisproc_safe [frame]: "safeE G (thisproc s) (\<lambda>_. True)"
  unfolding thisproc_def by (rule frame code2 K_proc K_file | assumption | (simp; fail))+

lemma sched_keeps [frame]: "K s \<Longrightarrow> safeE G (sched (snd e) s) K"
  unfolding sched_def by (rule frame code2 K_proc K_file | assumption | (simp; fail))+

lemma sleep_keeps [frame]: "K s \<Longrightarrow> safeE G (sleep (snd e) ch lk s) K"
  unfolding sleep_def by (rule frame code2 K_proc K_file | assumption | (simp; fail))+

lemma wake_one_keeps [frame]: "K s \<Longrightarrow> safeE G (wake_one ch i s) K"
  unfolding wake_one_def by (rule frame code2 K_proc K_file | assumption | (simp; fail))+

lemma wakeup_keeps [frame]: "K s \<Longrightarrow> safeE G (wakeup ch s) K"
  unfolding wakeup_def by (rule frame code2 K_proc K_file | assumption | (simp; fail))+

lemma kill_loop_keeps [frame]: "K s \<Longrightarrow> safeE G (kill_loop xs pid s) (on_st K)"
proof (induction xs arbitrary: s)
  case Nil
  show ?case unfolding kill_loop.simps by (rule Nil.prems frame code2 K_proc K_file | assumption | (simp; fail))+
next
  case (Cons i xs)
  show ?case unfolding kill_loop.simps by (rule Cons.IH Cons.prems frame code2 K_proc K_file | assumption | (simp; fail))+
qed

lemma kill_keeps [frame]: "K s \<Longrightarrow> safeE G (kill pid s) (on_st K)"
  unfolding kill_def by (rule frame code2 K_proc K_file | assumption | (simp; fail))+

lemma setkilled_keeps [frame]: "K s \<Longrightarrow> safeE G (setkilled i s) K"
  unfolding setkilled_def by (rule frame code2 K_proc K_file | assumption | (simp; fail))+

lemma killed_keeps [frame]: "K s \<Longrightarrow> safeE G (killed i s) (on_st K)"
  unfolding killed_def by (rule frame code2 K_proc K_file | assumption | (simp; fail))+

lemma reparent_keeps [frame]: "K s \<Longrightarrow> safeE G (reparent i s) K"
  unfolding reparent_def by (rule frame code2 K_proc K_file | assumption | (simp; fail))+

lemma allocpid_keeps [frame]: "K s \<Longrightarrow> safeE G (allocpid s) (on_st K)"
  unfolding allocpid_def by (rule frame code2 K_proc K_file | assumption | (simp; fail))+

lemma growproc_keeps [frame]: "K s \<Longrightarrow> safeE G (growproc n s) (on_st K)"
  unfolding growproc_def by (rule frame code2 K_proc K_file | assumption | (simp; fail))+

lemma ps_loop_keeps [frame]: "K s \<Longrightarrow> safeE G (ps_loop xs lc cnt buf s) (on_st2 K)"
proof (induction xs arbitrary: lc buf s)
  case Nil
  show ?case unfolding ps_loop.simps by (rule Nil.prems frame code2 K_proc K_file | assumption | (simp; fail))+
next
  case (Cons i xs)
  show ?case unfolding ps_loop.simps by (rule Cons.IH Cons.prems frame code2 K_proc K_file | assumption | (simp; fail))+
qed

lemma ps_keeps [frame]: "K s \<Longrightarrow> safeE G (ps st cnt junk s) (on_st K)"
  unfolding ps_def by (rule frame code2 K_proc K_file | assumption | (simp; fail))+

lemma either_copyout_keeps [frame]: "K s \<Longrightarrow> safeE G (either_copyout u d src s) (on_st K)"
  unfolding either_copyout_def by (rule frame code2 K_proc K_file | assumption | (simp; fail))+

lemma either_copyin_safe [frame]: "K s \<Longrightarrow> safeE G (either_copyin src n s) (\<lambda>_. True)"
  unfolding either_copyin_def by (cases src) (simp_all only: iosrc.case, (rule frame code2 | assumption)+)

lemma schedls_keeps [frame]: "K s \<Longrightarrow> safeE G (schedls s) K"
  unfolding schedls_def by (rule frame code2 | assumption)+

lemma schedset_keeps [frame]: "K s \<Longrightarrow> safeE G (schedset n s) K"
  unfolding schedset_def by (rule frame code2 K_proc K_file | assumption | (simp; fail))+

subsection \<open>Pipes\<close>

lemma the_pipe_safe [frame]: "safeE G (the_pipe pi s) (\<lambda>_. True)"
  unfolding the_pipe_def by (rule frame code2 K_proc K_file | assumption | (simp; fail))+

lemma pipeclose_keeps [frame]: "K s \<Longrightarrow> safeE G (pipeclose pi w s) K"
  unfolding pipeclose_def by (rule frame code2 K_proc K_file | assumption | (simp; fail))+

lemma pipewrite_end_keeps [frame]: "K s \<Longrightarrow> safeE G (pipewrite_end pi i s) (on_st K)"
  unfolding pipewrite_end_def by (rule frame code2 K_proc K_file | assumption | (simp; fail))+

lemma pipewrite_loop_keeps [frame]: "K s \<Longrightarrow> safeE G (pipewrite_loop n (snd e) pr pi addr m i s) (on_st K)"
proof (induction n arbitrary: i s)
  case 0
  show ?case unfolding pipewrite_loop.simps by (rule "0.prems" frame code2 K_proc K_file | assumption | (simp; fail))+
next
  case (Suc n)
  show ?case unfolding pipewrite_loop.simps by (rule Suc.IH Suc.prems frame code2 K_proc K_file | assumption | (simp; fail))+
qed

lemma pipewrite_keeps [frame]: "K s \<Longrightarrow> safeE G (pipewrite (fst e) (snd e) pi addr n s) (on_st K)"
  unfolding pipewrite_def by (rule frame code2 K_proc K_file | assumption | (simp; fail))+

lemma piperead_wait_keeps [frame]: "K s \<Longrightarrow> safeE G (piperead_wait n (snd e) pr pi s) (case_sum K K)"
proof (induction n arbitrary: s)
  case 0
  show ?case unfolding piperead_wait.simps by (rule "0.prems" frame code2 K_proc K_file | assumption | (simp; fail))+
next
  case (Suc n)
  show ?case unfolding piperead_wait.simps by (rule Suc.IH Suc.prems frame code2 K_proc K_file | assumption | (simp; fail))+
qed

lemma piperead_copy_keeps [frame]: "K s \<Longrightarrow> safeE G (piperead_copy n pr pi addr i s) (on_st K)"
proof (induction n arbitrary: i s)
  case 0
  show ?case unfolding piperead_copy.simps by (rule "0.prems" frame code2 K_proc K_file | assumption | (simp; fail))+
next
  case (Suc n)
  show ?case unfolding piperead_copy.simps by (rule Suc.IH Suc.prems frame code2 K_proc K_file | assumption | (simp; fail))+
qed

lemma piperead_keeps [frame]: "K s \<Longrightarrow> safeE G (piperead (fst e) (snd e) pi addr n s) (on_st K)"
  unfolding piperead_def by (rule frame code2 K_proc K_file | assumption | (simp; fail))+

subsection \<open>Sleep locks, buffers and the log\<close>

lemma acquiresleep_loop_keeps [frame]: "K s \<Longrightarrow> safeE G (acquiresleep_loop n (snd e) nm i s) K"
proof (induction n arbitrary: s)
  case 0
  show ?case unfolding acquiresleep_loop.simps by (rule "0.prems" frame code2 K_proc K_file | assumption | (simp; fail))+
next
  case (Suc n)
  show ?case unfolding acquiresleep_loop.simps by (rule Suc.IH Suc.prems frame code2 K_proc K_file | assumption | (simp; fail))+
qed

lemma acquiresleep_keeps [frame]: "K s \<Longrightarrow> safeE G (acquiresleep e nm i s) K"
  unfolding acquiresleep_def by (rule frame code2 K_proc K_file | assumption | (simp; fail))+

lemma releasesleep_keeps [frame]: "K s \<Longrightarrow> safeE G (releasesleep nm i s) K"
  unfolding releasesleep_def by (rule frame code2 K_proc K_file | assumption | (simp; fail))+

lemma holdingsleep_keeps [frame]: "K s \<Longrightarrow> safeE G (holdingsleep nm i s) (on_st K)"
  unfolding holdingsleep_def by (rule frame code2 K_proc K_file | assumption | (simp; fail))+

lemma bget_cached_safe [frame]: "safeE G (bget_cached n dev bno b s) (\<lambda>_. True)"
proof (induction n arbitrary: b)
  case 0
  show ?case unfolding bget_cached.simps by (rule frame code2 K_proc K_file | assumption | (simp; fail))+
next
  case (Suc n)
  show ?case unfolding bget_cached.simps by (rule Suc.IH frame code2 K_proc K_file | assumption | (simp; fail))+
qed

lemma bget_unused_safe [frame]: "safeE G (bget_unused n b s) (\<lambda>_. True)"
proof (induction n arbitrary: b)
  case 0
  show ?case unfolding bget_unused.simps by (rule frame code2 K_proc K_file | assumption | (simp; fail))+
next
  case (Suc n)
  show ?case unfolding bget_unused.simps by (rule Suc.IH frame code2 K_proc K_file | assumption | (simp; fail))+
qed

lemma bget_keeps [frame]: "K s \<Longrightarrow> safeE G (bget e dev bno s) (on_st K)"
  unfolding bget_def by (rule frame code2 K_proc K_file | assumption | (simp; fail))+

lemma bread_keeps [frame]: "K s \<Longrightarrow> safeE G (bread e dev bno s) (on_st K)"
  unfolding bread_def by (rule frame code2 K_proc K_file | assumption | (simp; fail))+

lemma bwrite_keeps [frame]: "K s \<Longrightarrow> safeE G (bwrite b s) K"
  unfolding bwrite_def by (rule frame code2 K_proc K_file | assumption | (simp; fail))+

lemma brelse_keeps [frame]: "K s \<Longrightarrow> safeE G (brelse b s) K"
  unfolding brelse_def by (rule frame code2 K_proc K_file | assumption | (simp; fail))+

lemma bpin_keeps [frame]: "K s \<Longrightarrow> safeE G (bpin b s) K"
  unfolding bpin_def by (rule frame code2 K_proc K_file | assumption | (simp; fail))+

lemma bunpin_keeps [frame]: "K s \<Longrightarrow> safeE G (bunpin b s) K"
  unfolding bunpin_def by (rule frame code2 K_proc K_file | assumption | (simp; fail))+

lemma install_one_keeps [frame]: "K s \<Longrightarrow> safeE G (install_one e r t s) K"
  unfolding install_one_def by (rule frame code2 K_proc K_file | assumption | (simp; fail))+

lemma install_trans_keeps [frame]: "K s \<Longrightarrow> safeE G (install_trans e r s) K"
  unfolding install_trans_def by (rule frame code2 K_proc K_file | assumption | (simp; fail))+

lemma write_head_keeps [frame]: "K s \<Longrightarrow> safeE G (write_head e s) K"
  unfolding write_head_def by (rule frame code2 K_proc K_file | assumption | (simp; fail))+

lemma begin_op_loop_keeps [frame]: "K s \<Longrightarrow> safeE G (begin_op_loop n (snd e) s) K"
proof (induction n arbitrary: s)
  case 0
  show ?case unfolding begin_op_loop.simps by (rule "0.prems" frame code2 K_proc K_file | assumption | (simp; fail))+
next
  case (Suc n)
  show ?case unfolding begin_op_loop.simps by (rule Suc.IH Suc.prems frame code2 K_proc K_file | assumption | (simp; fail))+
qed

lemma begin_op_keeps [frame]: "K s \<Longrightarrow> safeE G (begin_op e s) K"
  unfolding begin_op_def by (rule frame code2 K_proc K_file | assumption | (simp; fail))+

lemma write_log_one_keeps [frame]: "K s \<Longrightarrow> safeE G (write_log_one e t s) K"
  unfolding write_log_one_def by (rule frame code2 K_proc K_file | assumption | (simp; fail))+

lemma write_log_keeps [frame]: "K s \<Longrightarrow> safeE G (write_log e s) K"
  unfolding write_log_def by (rule frame code2 K_proc K_file | assumption | (simp; fail))+

lemma commit_keeps [frame]: "K s \<Longrightarrow> safeE G (commit e s) K"
  unfolding commit_def by (rule frame code2 K_proc K_file | assumption | (simp; fail))+

lemma end_op_keeps [frame]: "K s \<Longrightarrow> safeE G (end_op e s) K"
  unfolding end_op_def by (rule frame code2 K_proc K_file | assumption | (simp; fail))+

lemma log_write_keeps [frame]: "K s \<Longrightarrow> safeE G (log_write b s) K"
  unfolding log_write_def by (rule frame code2 K_proc K_file | assumption | (simp; fail))+

subsection \<open>Inodes and directories\<close>

lemma bzero_keeps [frame]: "K s \<Longrightarrow> safeE G (bzero e dev bno s) K"
  unfolding bzero_def by (rule frame code2 K_proc K_file | assumption | (simp; fail))+

lemma balloc_loop_keeps [frame]: "K s \<Longrightarrow> safeE G (balloc_loop e dev gs s) (on_st K)"
proof (induction gs arbitrary: s)
  case Nil
  show ?case unfolding balloc_loop.simps by (rule Nil.prems frame code2 K_proc K_file | assumption | (simp; fail))+
next
  case (Cons g gs)
  show ?case unfolding balloc_loop.simps by (rule Cons.IH Cons.prems frame code2 K_proc K_file | assumption | (simp; fail))+
qed

lemma balloc_keeps [frame]: "K s \<Longrightarrow> safeE G (balloc e dev s) (on_st K)"
  unfolding balloc_def by (rule frame code2 K_proc K_file | assumption | (simp; fail))+

lemma bfree_keeps [frame]: "K s \<Longrightarrow> safeE G (bfree e dev b s) K"
  unfolding bfree_def by (rule frame code2 K_proc K_file | assumption | (simp; fail))+

lemma iget_keeps [frame]: "K s \<Longrightarrow> safeE G (iget dev inum s) (on_st K)"
  unfolding iget_def by (rule frame code2 K_proc K_file | assumption | (simp; fail))+

lemma ialloc_loop_keeps [frame]: "K s \<Longrightarrow> safeE G (ialloc_loop e dev ty gs s) (on_st K)"
proof (induction gs arbitrary: s)
  case Nil
  show ?case unfolding ialloc_loop.simps by (rule Nil.prems frame code2 K_proc K_file | assumption | (simp; fail))+
next
  case (Cons g gs)
  show ?case unfolding ialloc_loop.simps by (rule Cons.IH Cons.prems frame code2 K_proc K_file | assumption | (simp; fail))+
qed

lemma ialloc_keeps [frame]: "K s \<Longrightarrow> safeE G (ialloc e dev ty s) (on_st K)"
  unfolding ialloc_def by (rule frame code2 K_proc K_file | assumption | (simp; fail))+

lemma iupdate_keeps [frame]: "K s \<Longrightarrow> safeE G (iupdate e ip s) K"
  unfolding iupdate_def by (rule frame code2 K_proc K_file | assumption | (simp; fail))+

lemma idup_keeps [frame]: "K s \<Longrightarrow> safeE G (idup ip s) (on_st K)"
  unfolding idup_def by (rule frame code2 K_proc K_file | assumption | (simp; fail))+

lemma ilock_keeps [frame]: "K s \<Longrightarrow> safeE G (ilock e ip s) K"
  unfolding ilock_def by (rule frame code2 K_proc K_file | assumption | (simp; fail))+

lemma iunlock_keeps [frame]: "K s \<Longrightarrow> safeE G (iunlock ip s) K"
  unfolding iunlock_def by (rule frame code2 K_proc K_file | assumption | (simp; fail))+

lemma itrunc_direct_keeps [frame]: "K s \<Longrightarrow> safeE G (itrunc_direct e ip i s) K"
  unfolding itrunc_direct_def by (rule frame code2 K_proc K_file | assumption | (simp; fail))+

lemma itrunc_entry_keeps [frame]: "K s \<Longrightarrow> safeE G (itrunc_entry e ip bp j s) K"
  unfolding itrunc_entry_def by (rule frame code2 K_proc K_file | assumption | (simp; fail))+

lemma itrunc_keeps [frame]: "K s \<Longrightarrow> safeE G (itrunc e ip s) K"
  unfolding itrunc_def by (rule frame code2 K_proc K_file | assumption | (simp; fail))+

lemma iput_keeps [frame]: "K s \<Longrightarrow> safeE G (iput e ip s) K"
  unfolding iput_def by (rule frame code2 K_proc K_file | assumption | (simp; fail))+

lemma iunlockput_keeps [frame]: "K s \<Longrightarrow> safeE G (iunlockput e ip s) K"
  unfolding iunlockput_def by (rule frame code2 K_proc K_file | assumption | (simp; fail))+

lemma bmap_direct_keeps [frame]: "K s \<Longrightarrow> safeE G (bmap_direct e ip i s) (on_st K)"
  unfolding bmap_direct_def by (rule frame code2 K_proc K_file | assumption | (simp; fail))+

lemma bmap_indirect_keeps [frame]: "K s \<Longrightarrow> safeE G (bmap_indirect e ip i a s) (on_st K)"
  unfolding bmap_indirect_def by (rule frame code2 K_proc K_file | assumption | (simp; fail))+

lemma bmap_keeps [frame]: "K s \<Longrightarrow> safeE G (bmap e ip bn s) (on_st K)"
  unfolding bmap_def by (rule frame code2 K_proc K_file | assumption | (simp; fail))+

lemma readi_loop_keeps1: "e' = e \<Longrightarrow> K s \<Longrightarrow> safeE G (readi_loop e' ip u dst off tot n s) (on_st2 K)"
proof (induction e' ip u dst off tot n s rule: readi_loop.induct)
  case (1 e' ip u dst off tot n s)
  show ?case unfolding "1.prems"(1)
    by (subst readi_loop.simps) (rule "1.IH" [unfolded "1.prems"(1)] refl "1.prems" frame code2 K_file | assumption | (simp; fail))+
qed

lemmas readi_loop_keeps [frame] = readi_loop_keeps1 [OF refl]

lemma readi_keeps [frame]: "K s \<Longrightarrow> safeE G (readi e ip u dst off n s) (on_st2 K)"
  unfolding readi_def by (rule frame code2 K_proc K_file | assumption | (simp; fail))+

lemma writei_loop_keeps1: "e' = e \<Longrightarrow> K s \<Longrightarrow> safeE G (writei_loop e' ip src off tot n s) (on_st2 K)"
proof (induction e' ip src off tot n s rule: writei_loop.induct)
  case (1 e' ip src off tot n s)
  show ?case unfolding "1.prems"(1)
    by (subst writei_loop.simps) (rule "1.IH" [unfolded "1.prems"(1)] refl "1.prems" frame code2 K_file | assumption | (simp; fail))+
qed

lemmas writei_loop_keeps [frame] = writei_loop_keeps1 [OF refl]

lemma writei_keeps [frame]: "K s \<Longrightarrow> safeE G (writei e ip src off n s) (on_st K)"
  unfolding writei_def by (rule frame code2 K_proc K_file | assumption | (simp; fail))+

lemma strncmp_safe [frame]: "safeE G (strncmp xs ys n) (\<lambda>_. True)"
  by (induction xs ys n rule: strncmp.induct) (auto simp: safeE_def split: sum.splits intro: G_undef)

lemma namecmp_safe [frame]: "safeE G (namecmp xs ys) (\<lambda>_. True)"
  unfolding namecmp_def by (rule frame)

lemma strncpy_fill_safe [frame]: "safeE G (strncpy_fill xs n) (\<lambda>_. True)"
  by (induction xs n rule: strncpy_fill.induct) (auto simp: safeE_def bindE_def split: sum.splits intro: G_undef)

lemma strncpy_safe [frame]: "safeE G (strncpy xs ys n) (\<lambda>_. True)"
proof (induction xs ys n rule: strncpy.induct)
  case (2 x s c t n)
  show ?case unfolding strncpy.simps by (rule "2.IH" frame code2 | assumption)+
qed (auto simp: safeE_def intro: G_undef)

lemma skip_slashes_safe [frame]: "safeE G (skip_slashes xs) (\<lambda>_. True)"
  by (induction xs) (auto simp: safeE_def split: sum.splits intro: G_undef)

lemma elem_len_safe [frame]: "safeE G (elem_len xs) (\<lambda>_. True)"
  by (induction xs) (auto simp: safeE_def bindE_def split: sum.splits intro: G_undef)

lemma skipelem_safe [frame]: "safeE G (skipelem p nm) (\<lambda>_. True)"
  unfolding skipelem_def by (rule frame code2)+

lemma dirlookup_loop_keeps [frame]: "K s \<Longrightarrow> safeE G (dirlookup_loop e dp nm gs s) (on_st K)"
proof (induction gs arbitrary: s)
  case Nil
  show ?case unfolding dirlookup_loop.simps by (rule Nil.prems frame code2 K_proc K_file | assumption | (simp; fail))+
next
  case (Cons g gs)
  show ?case unfolding dirlookup_loop.simps by (rule Cons.IH Cons.prems frame code2 K_proc K_file | assumption | (simp; fail))+
qed

lemma dirlookup_keeps [frame]: "K s \<Longrightarrow> safeE G (dirlookup e dp nm s) (on_st K)"
  unfolding dirlookup_def by (rule frame code2 K_proc K_file | assumption | (simp; fail))+

lemma dirlink_loop_keeps [frame]: "K s \<Longrightarrow> safeE G (dirlink_loop e dp st gs s) (on_st K)"
proof (induction gs arbitrary: s)
  case Nil
  show ?case unfolding dirlink_loop.simps by (rule Nil.prems frame code2 K_proc K_file | assumption | (simp; fail))+
next
  case (Cons g gs)
  show ?case unfolding dirlink_loop.simps by (rule Cons.IH Cons.prems frame code2 K_proc K_file | assumption | (simp; fail))+
qed

lemma dirlink_keeps [frame]: "K s \<Longrightarrow> safeE G (dirlink e dp nm inum s) (on_st K)"
  unfolding dirlink_def by (rule frame code2 K_proc K_file | assumption | (simp; fail))+

lemma namex_loop_keeps [frame]: "K s \<Longrightarrow> safeE G (namex_loop n e path np nm ip s) (on_st2 K)"
proof (induction n arbitrary: path nm ip s)
  case 0
  show ?case unfolding namex_loop.simps by (rule "0.prems" frame code2 K_proc K_file | assumption | (simp; fail))+
next
  case (Suc n)
  show ?case unfolding namex_loop.simps by (rule Suc.IH Suc.prems frame code2 K_proc K_file | assumption | (simp; fail))+
qed

lemma namex_keeps [frame]: "K s \<Longrightarrow> safeE G (namex e path np nm s) (on_st2 K)"
  unfolding namex_def by (rule frame code2 K_proc K_file | assumption | (simp; fail))+

lemma namei_keeps [frame]: "K s \<Longrightarrow> safeE G (namei e path s) (on_st K)"
  unfolding namei_def by (rule frame code2 K_proc K_file | assumption | (simp; fail))+

lemma nameiparent_keeps [frame]: "K s \<Longrightarrow> safeE G (nameiparent e path nm s) (on_st2 K)"
  unfolding nameiparent_def by (rule frame code2 K_proc K_file | assumption | (simp; fail))+

subsection \<open>Console\<close>

lemma uartstart_loop_keeps [frame]: "K s \<Longrightarrow> safeE G (uartstart_loop n s) K"
proof (induction n arbitrary: s)
  case 0
  show ?case unfolding uartstart_loop.simps by (rule "0.prems" frame code2 K_proc K_file | assumption | (simp; fail))+
next
  case (Suc n)
  show ?case unfolding uartstart_loop.simps by (rule Suc.IH Suc.prems frame code2 K_proc K_file | assumption | (simp; fail))+
qed

lemma uartstart_keeps [frame]: "K s \<Longrightarrow> safeE G (uartstart s) K"
  unfolding uartstart_def by (rule frame code2 K_proc K_file | assumption | (simp; fail))+

lemma uartputc_wait_keeps [frame]: "K s \<Longrightarrow> safeE G (uartputc_wait n (snd e) s) K"
proof (induction n arbitrary: s)
  case 0
  show ?case unfolding uartputc_wait.simps by (rule "0.prems" frame code2 K_proc K_file | assumption | (simp; fail))+
next
  case (Suc n)
  show ?case unfolding uartputc_wait.simps by (rule Suc.IH Suc.prems frame code2 K_proc K_file | assumption | (simp; fail))+
qed

lemma uartputc_keeps [frame]: "K s \<Longrightarrow> safeE G (uartputc e c s) K"
  unfolding uartputc_def by (rule frame code2 K_proc K_file | assumption | (simp; fail))+

lemma consolewrite_loop_keeps [frame]: "K s \<Longrightarrow> safeE G (consolewrite_loop e n src i s) (on_st K)"
proof (induction n arbitrary: i s)
  case 0
  show ?case unfolding consolewrite_loop.simps by (rule "0.prems" frame code2 K_proc K_file | assumption | (simp; fail))+
next
  case (Suc n)
  show ?case unfolding consolewrite_loop.simps by (rule Suc.IH Suc.prems frame code2 K_proc K_file | assumption | (simp; fail))+
qed

lemma consolewrite_keeps [frame]: "K s \<Longrightarrow> safeE G (consolewrite e src n s) (on_st K)"
  unfolding consolewrite_def by (rule frame code2 K_proc K_file | assumption | (simp; fail))+

lemma consoleread_wait_keeps [frame]: "K s \<Longrightarrow> safeE G (consoleread_wait n (snd e) s) (case_sum K K)"
proof (induction n arbitrary: s)
  case 0
  show ?case unfolding consoleread_wait.simps by (rule "0.prems" frame code2 K_proc K_file | assumption | (simp; fail))+
next
  case (Suc n)
  show ?case unfolding consoleread_wait.simps by (rule Suc.IH Suc.prems frame code2 K_proc K_file | assumption | (simp; fail))+
qed

lemma consoleread_loop_keeps [frame]: "K s \<Longrightarrow> safeE G (consoleread_loop k e u tg dst n s) (case_sum K (on_st2 K))"
proof (induction k arbitrary: dst n s)
  case 0
  show ?case unfolding consoleread_loop.simps by (rule "0.prems" frame code2 K_proc K_file | assumption | (simp; fail))+
next
  case (Suc k)
  show ?case unfolding consoleread_loop.simps by (rule Suc.IH Suc.prems frame code2 K_proc K_file | assumption | (simp; fail))+
qed

lemma consoleread_keeps [frame]: "K s \<Longrightarrow> safeE G (consoleread e u dst n s) (on_st2 K)"
  unfolding consoleread_def by (rule frame code2 K_proc K_file | assumption | (simp; fail))+

subsection \<open>Files and programs\<close>

lemma the_inode_safe [frame]: "safeE G (the_inode ip) (\<lambda>_. True)"
  unfolding the_inode_def by (rule frame code2 K_proc K_file | assumption | (simp; fail))+

lemma file_release_keeps [frame]: "K s \<Longrightarrow> safeE G (file_release e ff s) K"
  unfolding file_release_def by (rule frame code2 K_proc K_file | assumption | (simp; fail))+

lemma filestat_keeps [frame]: "K s \<Longrightarrow> safeE G (filestat e pad f a s) (on_st K)"
  unfolding filestat_def by (rule frame code2 K_proc K_file | assumption | (simp; fail))+

lemma dev_read_keeps [frame]: "K s \<Longrightarrow> safeE G (dev_read e d a n s) (on_st K)"
  unfolding dev_read_def by (cases d) (simp only: devread.case, (rule frame code2 | assumption)+)

lemma dev_write_keeps [frame]: "K s \<Longrightarrow> safeE G (dev_write e d a n s) (on_st K)"
  unfolding dev_write_def by (cases d) (simp only: devwrite.case, (rule frame code2 | assumption)+)

lemma fileread_keeps [frame]: "K s \<Longrightarrow> safeE G (fileread e f a n s) (on_st K)"
  unfolding fileread_def by (rule frame code2 K_proc K_file | assumption | (simp; fail))+

lemma filewrite_chunk_keeps [frame]: "K s \<Longrightarrow> safeE G (filewrite_chunk e f a n s) (on_st K)"
  unfolding filewrite_chunk_def by (rule frame code2 K_proc K_file | assumption | (simp; fail))+

lemma filewrite_loop_keeps1: "e' = e \<Longrightarrow> K s \<Longrightarrow> safeE G (filewrite_loop e' f a n i s) (on_st K)"
proof (induction e' f a n i s rule: filewrite_loop.induct)
  case (1 e' f a n i s)
  show ?case unfolding "1.prems"(1)
    by (subst filewrite_loop.simps) (rule "1.IH" [unfolded "1.prems"(1)] refl "1.prems" frame code2 K_file | assumption | (simp; fail))+
qed

lemmas filewrite_loop_keeps [frame] = filewrite_loop_keeps1 [OF refl]

lemma filewrite_keeps [frame]: "K s \<Longrightarrow> safeE G (filewrite e f a n s) (on_st K)"
  unfolding filewrite_def by (rule frame code2 K_proc K_file | assumption | (simp; fail))+

lemma fetchaddr_safe [frame]: "K s \<Longrightarrow> safeE G (fetchaddr a s) (\<lambda>_. True)"
  unfolding fetchaddr_def by (rule frame code2 K_proc K_file | assumption | (simp; fail))+

lemma strlen_safe [frame]: "safeE G (strlen xs) (\<lambda>_. True)"
  by (induction xs) (auto simp: safeE_def bindE_def split: sum.splits intro: G_undef)

lemma safestrcpy_loop_safe [frame]: "safeE G (safestrcpy_loop xs ys n) (\<lambda>_. True)"
  by (induction xs ys n rule: safestrcpy_loop.induct) (auto simp: safeE_def bindE_def split: sum.splits list.splits intro: G_undef)

lemma safestrcpy_safe [frame]: "safeE G (safestrcpy xs ys n) (\<lambda>_. True)"
  unfolding safestrcpy_def by (rule frame code2 K_proc K_file | assumption | (simp; fail))+

lemma fetchstr_safe [frame]: "K s \<Longrightarrow> safeE G (fetchstr a n s) (\<lambda>_. True)"
  unfolding fetchstr_def by (rule frame code2 K_proc K_file | assumption | (simp; fail))+

lemma argraw_safe [frame]: "safeE G (argraw n s) (\<lambda>_. True)"
  unfolding argraw_def by (rule frame code2 K_proc K_file | assumption | (simp; fail))+

lemma argint_safe [frame]: "safeE G (argint n s) (\<lambda>_. True)"
  unfolding argint_def by (rule frame code2 K_proc K_file | assumption | (simp; fail))+

lemma argaddr_safe [frame]: "safeE G (argaddr n s) (\<lambda>_. True)"
  unfolding argaddr_def by (rule frame code2 K_proc K_file | assumption | (simp; fail))+

lemma argstr_safe [frame]: "K s \<Longrightarrow> safeE G (argstr n mx s) (\<lambda>_. True)"
  unfolding argstr_def by (rule frame code2 K_proc K_file | assumption | (simp; fail))+

lemma argfd_safe [frame]: "safeE G (argfd n s) (\<lambda>_. True)"
  unfolding argfd_def by (rule frame code2 K_proc K_file | assumption | (simp; fail))+

lemma sys_read_keeps [frame]: "K s \<Longrightarrow> safeE G (sys_read e s) (on_st K)"
  unfolding sys_read_def by (rule frame code2 K_proc K_file | assumption | (simp; fail))+

lemma sys_write_keeps [frame]: "K s \<Longrightarrow> safeE G (sys_write e s) (on_st K)"
  unfolding sys_write_def by (rule frame code2 K_proc K_file | assumption | (simp; fail))+

lemma sys_fstat_keeps [frame]: "K s \<Longrightarrow> safeE G (sys_fstat e pad s) (on_st K)"
  unfolding sys_fstat_def by (rule frame code2 K_proc K_file | assumption | (simp; fail))+

lemma nlink_add_keeps [frame]: "K s \<Longrightarrow> safeE G (nlink_add e ip dl s) K"
  unfolding nlink_add_def by (rule frame code2 K_proc K_file | assumption | (simp; fail))+

lemma fail_op_keeps [frame]: "K s \<Longrightarrow> safeE G (fail_op e s) (on_st K)"
  unfolding fail_op_def by (rule frame code2 K_proc K_file | assumption | (simp; fail))+

lemma fail_put_keeps [frame]: "K s \<Longrightarrow> safeE G (fail_put e ip s) (on_st K)"
  unfolding fail_put_def by (rule frame code2 K_proc K_file | assumption | (simp; fail))+

lemma link_bad_keeps [frame]: "K s \<Longrightarrow> safeE G (link_bad e ip s) (on_st K)"
  unfolding link_bad_def by (rule frame code2 K_proc K_file | assumption | (simp; fail))+

lemma sys_link_keeps [frame]: "K s \<Longrightarrow> safeE G (sys_link e s) (on_st K)"
  unfolding sys_link_def by (rule frame code2 K_proc K_file | assumption | (simp; fail))+

lemma isdirempty_loop_keeps [frame]: "K s \<Longrightarrow> safeE G (isdirempty_loop e dp gs s) (on_st K)"
proof (induction gs arbitrary: s)
  case Nil
  show ?case unfolding isdirempty_loop.simps by (rule Nil.prems frame code2 K_proc K_file | assumption | (simp; fail))+
next
  case (Cons g gs)
  show ?case unfolding isdirempty_loop.simps by (rule Cons.IH Cons.prems frame code2 K_proc K_file | assumption | (simp; fail))+
qed

lemma isdirempty_keeps [frame]: "K s \<Longrightarrow> safeE G (isdirempty e dp s) (on_st K)"
  unfolding isdirempty_def by (rule frame code2 K_proc K_file | assumption | (simp; fail))+

lemma unlink_found_keeps [frame]: "K s \<Longrightarrow> safeE G (unlink_found e dp ip off s) (on_st K)"
  unfolding unlink_found_def by (rule frame code2 K_proc K_file | assumption | (simp; fail))+

lemma sys_unlink_keeps [frame]: "K s \<Longrightarrow> safeE G (sys_unlink e s) (on_st K)"
  unfolding sys_unlink_def by (rule frame code2 K_proc K_file | assumption | (simp; fail))+

lemma create_fail_keeps [frame]: "K s \<Longrightarrow> safeE G (create_fail e dp ip s) (on_st K)"
  unfolding create_fail_def by (rule frame code2 K_proc K_file | assumption | (simp; fail))+

lemma create_dots_keeps [frame]: "K s \<Longrightarrow> safeE G (create_dots e dp ip s) (on_st K)"
  unfolding create_dots_def by (rule frame code2 K_proc K_file | assumption | (simp; fail))+

lemma create_new_keeps [frame]: "K s \<Longrightarrow> safeE G (create_new e dp nm ty mj mn s) (on_st K)"
  unfolding create_new_def by (rule frame code2 K_proc K_file | assumption | (simp; fail))+

lemma create_keeps [frame]: "K s \<Longrightarrow> safeE G (create e path ty mj mn s) (on_st K)"
  unfolding create_def by (rule frame code2 K_proc K_file | assumption | (simp; fail))+

lemma open_inode_keeps [frame]: "K s \<Longrightarrow> safeE G (open_inode e path om s) (on_st K)"
  unfolding open_inode_def by (rule frame code2 K_proc K_file | assumption | (simp; fail))+

lemma created_keeps [frame]: "on_st K r \<Longrightarrow> safeE G (created e r) (on_st K)"
  unfolding created_def by (erule on_st_prodE) (simp only: prod.case, (rule frame code2 | assumption)+)

lemma created_keeps2 [frame]: "K s \<Longrightarrow> safeE G (created e (v, s)) (on_st K)"
  by (rule created_keeps) (rule on_stI)

lemma sys_mkdir_keeps [frame]: "K s \<Longrightarrow> safeE G (sys_mkdir e s) (on_st K)"
  unfolding sys_mkdir_def by (rule frame code2 K_proc K_file | assumption | (simp; fail))+

lemma sys_mknod_keeps [frame]: "K s \<Longrightarrow> safeE G (sys_mknod e s) (on_st K)"
  unfolding sys_mknod_def by (rule frame code2 K_proc K_file | assumption | (simp; fail))+

lemma sys_chdir_keeps [frame]: "K s \<Longrightarrow> safeE G (sys_chdir e s) (on_st K)"
  unfolding sys_chdir_def by (rule frame code2 K_proc K_file | assumption | (simp; fail))+

lemma loadseg_loop_keeps [frame]: "K s \<Longrightarrow> safeE G (loadseg_loop e pt va ip off sz gs s) (on_st K)"
proof (induction gs arbitrary: s)
  case Nil
  show ?case unfolding loadseg_loop.simps by (rule Nil.prems frame code2 K_proc K_file | assumption | (simp; fail))+
next
  case (Cons g gs)
  show ?case unfolding loadseg_loop.simps by (rule Cons.IH Cons.prems frame code2 K_proc K_file | assumption | (simp; fail))+
qed

lemma loadseg_keeps [frame]: "K s \<Longrightarrow> safeE G (loadseg e pt va ip off sz s) (on_st K)"
  unfolding loadseg_def by (rule frame code2 K_proc K_file | assumption | (simp; fail))+

lemma exec_segment_keeps [frame]: "K s \<Longrightarrow> safeE G (exec_segment e pt ip ph sz s) (case_sum (on_st K) (on_st K))"
  unfolding exec_segment_def by (rule frame code2 K_proc K_file | assumption | (simp; fail))+

lemma exec_load_keeps [frame]: "K s \<Longrightarrow> safeE G (exec_load n e pt ip off sz s) (case_sum (on_st K) (on_st K))"
proof (induction n arbitrary: off sz s)
  case 0
  show ?case unfolding exec_load.simps by (rule "0.prems" frame code2 K_proc K_file | assumption | (simp; fail))+
next
  case (Suc n)
  show ?case unfolding exec_load.simps by (rule Suc.IH Suc.prems frame code2 K_proc K_file | assumption | (simp; fail))+
qed

lemma exec_push_keeps [frame]: "K s \<Longrightarrow> safeE G (exec_push pt base gs ac sp0 us s) (case_sum K (on_st2 K))"
proof (induction gs arbitrary: ac sp0 us s)
  case Nil
  show ?case unfolding exec_push.simps by (rule Nil.prems frame code2 K_proc K_file | assumption | (simp; fail))+
next
  case (Cons g gs)
  show ?case unfolding exec_push.simps by (rule Cons.IH Cons.prems frame code2 K_proc K_file | assumption | (simp; fail))+
qed

lemma exec_argv_keeps [frame]: "K s \<Longrightarrow> safeE G (exec_argv pt base av sp0 s) (case_sum K (on_st K))"
  unfolding exec_argv_def by (rule frame code2 K_proc K_file | assumption | (simp; fail))+

lemma proc_pagetable_keeps [frame]: "K s \<Longrightarrow> safeE G (proc_pagetable p s) (on_st K)"
  unfolding proc_pagetable_def by (rule frame code2 K_proc K_file | assumption | (simp; fail))+

lemma proc_freepagetable_keeps [frame]: "K s \<Longrightarrow> safeE G (proc_freepagetable pt sz s) K"
  unfolding proc_freepagetable_def by (rule frame code2 K_proc K_file | assumption | (simp; fail))+

lemma exec_bad_keeps [frame]: "K s \<Longrightarrow> safeE G (exec_bad e pt sz ip s) (on_st K)"
  unfolding exec_bad_def by (rule frame code2 K_proc K_file | assumption | (simp; fail))+

lemma exec_commit_keeps [frame]: "K s \<Longrightarrow> safeE G (exec_commit p path pt sz osz sp0 en ac s) (on_st K)"
  unfolding exec_commit_def by (rule frame code2 K_proc K_file | assumption | (simp; fail))+

lemma exec_stack_keeps [frame]: "K s \<Longrightarrow> safeE G (exec_stack e p path av pt sz en s) (on_st K)"
  unfolding exec_stack_def by (rule frame code2 K_proc K_file | assumption | (simp; fail))+

lemma exec_keeps [frame]: "K s \<Longrightarrow> safeE G (exec e path av s) (on_st K)"
  unfolding exec_def by (rule frame code2 K_proc K_file | assumption | (simp; fail))+

lemma exec_fetch_keeps [frame]: "K s \<Longrightarrow> safeE G (exec_fetch n ua s) (on_st2 K)"
proof (induction n arbitrary: ua s)
  case 0
  show ?case unfolding exec_fetch.simps by (rule "0.prems" frame code2 K_proc K_file | assumption | (simp; fail))+
next
  case (Suc n)
  show ?case unfolding exec_fetch.simps by (rule Suc.IH Suc.prems frame code2 K_proc K_file | assumption | (simp; fail))+
qed

lemma sys_exec_keeps [frame]: "K s \<Longrightarrow> safeE G (sys_exec e s) (on_st K)"
  unfolding sys_exec_def by (rule frame code2 K_proc K_file | assumption | (simp; fail))+

subsection \<open>Other system calls\<close>

lemma sys_getpid_keeps [frame]: "K s \<Longrightarrow> safeE G (sys_getpid s) (on_st K)"
  unfolding sys_getpid_def by (rule frame code2 K_proc K_file | assumption | (simp; fail))+

lemma sys_sbrk_keeps [frame]: "K s \<Longrightarrow> safeE G (sys_sbrk s) (on_st K)"
  unfolding sys_sbrk_def by (rule frame code2 K_proc K_file | assumption | (simp; fail))+

lemma sys_sleep_loop_keeps [frame]: "K s \<Longrightarrow> safeE G (sys_sleep_loop k (snd e) t n s) (on_st K)"
proof (induction k arbitrary: s)
  case 0
  show ?case unfolding sys_sleep_loop.simps by (rule "0.prems" frame code2 K_proc K_file | assumption | (simp; fail))+
next
  case (Suc k)
  show ?case unfolding sys_sleep_loop.simps by (rule Suc.IH Suc.prems frame code2 K_proc K_file | assumption | (simp; fail))+
qed

lemma sys_sleep_keeps [frame]: "K s \<Longrightarrow> safeE G (sys_sleep e s) (on_st K)"
  unfolding sys_sleep_def by (rule frame code2 K_proc K_file | assumption | (simp; fail))+

lemma sys_kill_keeps [frame]: "K s \<Longrightarrow> safeE G (sys_kill s) (on_st K)"
  unfolding sys_kill_def by (rule frame code2 K_proc K_file | assumption | (simp; fail))+

lemma sys_uptime_keeps [frame]: "K s \<Longrightarrow> safeE G (sys_uptime s) (on_st K)"
  unfolding sys_uptime_def by (rule frame code2 K_proc K_file | assumption | (simp; fail))+

lemma sys_ps_keeps [frame]: "K s \<Longrightarrow> safeE G (sys_ps junk s) (on_st K)"
  unfolding sys_ps_def by (rule frame code2 K_proc K_file | assumption | (simp; fail))+

lemma sys_schedls_keeps [frame]: "K s \<Longrightarrow> safeE G (sys_schedls s) (on_st K)"
  unfolding sys_schedls_def by (rule frame code2 K_proc K_file | assumption | (simp; fail))+

lemma sys_schedset_keeps [frame]: "K s \<Longrightarrow> safeE G (sys_schedset s) (on_st K)"
  unfolding sys_schedset_def by (rule frame code2 K_proc K_file | assumption | (simp; fail))+

subsection \<open>Slots of the process table\<close>

text \<open>The memory functions also keep that a slot has no open files.\<close>

definition Kb :: "nat \<Rightarrow> 'z kfile_scheme \<Rightarrow> bool" where
  "Kb i s \<longleftrightarrow> K s \<and> bare (ptable s i) \<and> i \<noteq> me"

lemma Kb_frame: "mem_frame (Kb i) G"
  by unfold_locales (auto simp: Kb_def K_held K_pmem K_freelist G_fault)

lemma Kb_upd: "(\<And>p. p_ofile (f p) = p_ofile p) \<Longrightarrow> Kb i s \<Longrightarrow> Kb i (upd_proc i f s)"
  using K_bare [of s i f] by (simp add: Kb_def upd_proc_def bare_def)

lemma KbD: "Kb i s \<Longrightarrow> K s" and KbI: "K s \<Longrightarrow> bare (ptable s i) \<and> i \<noteq> me \<Longrightarrow> Kb i s"
  by (simp_all add: Kb_def)

lemmas Kb_code = safeE_if safeE_let safeE_pair safeE_Inl mem_frame.bind_s [OF Kb_frame] mem_frame.bind_vs [OF Kb_frame]
  mem_frame.inr_s [OF Kb_frame] mem_frame.inr_vs [OF Kb_frame]
  mem_frame.kfree_keeps [OF Kb_frame] mem_frame.uvmunmap_keeps [OF Kb_frame] mem_frame.uvmfree_keeps [OF Kb_frame]
  mem_frame.uvmcreate_keeps [OF Kb_frame] mem_frame.mappages_keeps [OF Kb_frame] mem_frame.kalloc_keeps [OF Kb_frame]

lemma proc_freepagetable_Kb: "Kb i s \<Longrightarrow> safeE G (proc_freepagetable pt sz s) (Kb i)"
  unfolding proc_freepagetable_def by (rule Kb_code | assumption)+

lemma proc_pagetable_Kb: "Kb i s \<Longrightarrow> safeE G (proc_pagetable p s) (on_st (Kb i))"
  unfolding proc_pagetable_def by (rule Kb_code | assumption)+

lemma freeproc_Kb: "Kb i s \<Longrightarrow> safeE G (freeproc i s) (Kb i)"
  unfolding freeproc_def by (rule proc_freepagetable_Kb Kb_code Kb_upd | assumption | (simp; fail))+

lemma freeproc_keeps [frame]: "bare (ptable s i) \<and> i \<noteq> me \<Longrightarrow> K s \<Longrightarrow> safeE G (freeproc i s) K"
  by (rule safeE_mono [OF freeproc_Kb [OF KbI]]) (auto dest: KbD)

lemma find_unused_keeps [frame]: "K s \<Longrightarrow> safeE G (find_unused xs s) (on_st K)"
proof (induction xs arbitrary: s)
  case Nil
  show ?case unfolding find_unused.simps by (rule Nil.prems frame code2 K_proc K_file | assumption | (simp; fail))+
next
  case (Cons i xs)
  show ?case unfolding find_unused.simps by (rule Cons.IH Cons.prems frame code2 K_proc K_file | assumption | (simp; fail))+
qed

lemma Kb_nextpid: "Kb i s \<Longrightarrow> Kb i (s\<lparr>nextpid := n\<rparr>)"
  by (simp add: Kb_def K_nextpid)

lemma allocpid_Kb: "Kb i s \<Longrightarrow> safeE G (allocpid s) (on_st (Kb i))"
  unfolding allocpid_def
  by (rule Kb_code Kb_nextpid mem_frame.lk_acquire_keeps [OF Kb_frame] mem_frame.lk_release_keeps [OF Kb_frame] | assumption)+

definition got_slot :: "nat option \<times> 'z kfile_scheme \<Rightarrow> bool" where
  "got_slot r \<longleftrightarrow> K (snd r) \<and> (\<forall>i. fst r = Some i \<longrightarrow> i < NPROC \<and> bare (ptable (snd r) i) \<and> i \<noteq> me)"

lemma got_none: "Kb i s \<Longrightarrow> safeE G (Inr (None, s)) got_slot"
  by (rule safeE_Inr) (simp add: got_slot_def Kb_def)

lemma got_some: "i < NPROC \<Longrightarrow> Kb i s \<Longrightarrow> safeE G (Inr (Some i, s)) got_slot"
  by (rule safeE_Inr) (simp add: got_slot_def Kb_def)

lemma allocproc_keeps: "K s \<Longrightarrow> safeE G (allocproc s) got_slot"
  unfolding allocproc_def
  apply (rule bind_vs [OF find_unused_keeps], assumption, rule safeE_pair, rule safeE_option)
  subgoal by (intro safeE_Inr) (simp add: got_slot_def)
  subgoal premises p for r s1 i
  proof -
    have i: "i < NPROC" and st: "p_state (ptable s1 i) = UNUSED"
      using find_unused_spec p by fastforce+
    have kb: "Kb i s1" by (rule KbI [OF p(3) K_idle [OF p(3) i]]) (simp add: st)
    show ?thesis
      by (rule kb i got_none got_some allocpid_Kb proc_pagetable_Kb freeproc_Kb mem_frame.lk_release_keeps [OF Kb_frame]
          Kb_code Kb_upd | assumption | (simp; fail))+
  qed
  done

lemma wait_found_keeps:
  "Kb j s \<Longrightarrow> safeE G (bindE (if addr \<noteq> 0 then copyout pt addr bs s else Inr (0, s)) (\<lambda>(r, s2).
     if r < 0 then bindE (lk_release (L_proc j) s2) (\<lambda>s3. bindE (lk_release L_wait s3) (\<lambda>s4. Inr (Inl (- 1, s4))))
     else bindE (freeproc j s2) (\<lambda>s3. bindE (lk_release (L_proc j) s3) (\<lambda>s4.
          bindE (lk_release L_wait s4) (\<lambda>s5. Inr (Inl (v, s5))))))) (case_sum (on_st K) (on_st K))"
  by (rule mem_frame.copyout_keeps [OF Kb_frame] mem_frame.lk_release_keeps [OF Kb_frame] freeproc_Kb Kb_code
      safeE_Inr_Inl on_stI KbD | assumption)+

lemma wait_scan_keeps [frame]:
  "(\<And>j. j \<in> set xs \<Longrightarrow> j < NPROC) \<Longrightarrow> K s \<Longrightarrow> safeE G (wait_scan xs hk pp addr s) (case_sum (on_st K) (on_st K))"
proof (induction xs arbitrary: hk s)
  case Nil
  show ?case unfolding wait_scan.simps by (rule code2 Nil.prems)+
next
  case (Cons j xs)
  have j: "j < NPROC" and js: "\<And>j. j \<in> set xs \<Longrightarrow> j < NPROC" using Cons.prems(1) by auto
  show ?case unfolding wait_scan.simps Let_def
    by (rule Cons.IH js wait_found_keeps KbI K_idle j frame code2 Cons.prems(2) | assumption | (simp; fail))+
qed

lemma wait_all: "j \<in> set [0..<NPROC] \<Longrightarrow> j < NPROC"
  by simp

lemma wait_loop_keeps [frame]: "K s \<Longrightarrow> safeE G (wait_loop n (snd e) pp addr s) (on_st K)"
proof (induction n arbitrary: s)
  case 0
  show ?case unfolding wait_loop.simps by (rule code2)+
next
  case (Suc n)
  show ?case unfolding wait_loop.simps by (rule Suc.IH wait_all frame code2 Suc.prems | assumption | (simp; fail))+
qed

lemma wait_keeps [frame]: "K s \<Longrightarrow> safeE G (wait (fst e) (snd e) p s) (on_st K)"
  unfolding wait_def by (rule frame code2 K_proc K_file | assumption | (simp; fail))+

lemma sys_wait_keeps [frame]: "K s \<Longrightarrow> safeE G (sys_wait e s) (on_st K)"
  unfolding sys_wait_def by (rule frame code2 K_proc K_file | assumption | (simp; fail))+

end

end
