(* ===== verification/Consline.thy ===== *)
theory Consline
  imports Console
begin

text \<open>
  The line discipline of the console. The input buffer is abstracted to two lists, the finished
  lines \<^verbatim>\<open>consoleread\<close> may take and the line being edited; \<open>tty\<close> is what one typed character does
  to them and \<open>echo\<close> what is printed. \<^verbatim>\<open>consoleintr\<close> refines \<open>tty\<close>, \<^verbatim>\<open>uartintr\<close> refines its iteration
  over the bytes received, and \<^verbatim>\<open>consoleread\<close> takes off what \<open>get_line\<close> says.
\<close>

section \<open>The editor on lists\<close>

definition NLb :: u8 where "NLb = 10"
definition EOTb :: u8 where "EOTb = 4"

text \<open>The character stored for a typed \<open>c\<close>, and whether it is taken at all.\<close>

definition typed :: "u8 \<Rightarrow> u8" where
  "typed c = (if c = 13 then NLb else c)"

fun tty :: "u8 \<Rightarrow> u8 list \<times> u8 list \<Rightarrow> u8 list \<times> u8 list" where
  "tty c (ls, ed) =
     (if c = 21 then (ls, [])
      else if c = 8 \<or> c = 127 then (ls, butlast ed)
      else if c = 0 \<or> INPUT_BUF_SIZE \<le> length ls + length ed then (ls, ed)
      else if typed c = NLb \<or> typed c = EOTb \<or> Suc (length ls + length ed) = INPUT_BUF_SIZE
      then (ls @ ed @ [typed c], []) else (ls, ed @ [typed c]))"

fun echo :: "u8 \<Rightarrow> u8 list \<times> u8 list \<Rightarrow> u8 list" where
  "echo c (ls, ed) =
     (if c = 21 then concat (replicate (length ed) [8, 32, 8])
      else if c = 8 \<or> c = 127 then if ed = [] then [] else [8, 32, 8]
      else if c = 0 \<or> INPUT_BUF_SIZE \<le> length ls + length ed then [] else [typed c])"

text \<open>A read of \<open>n\<close> bytes: what is delivered and what stays, \<open>None\<close> if it has to wait for input. A
  control-D that is not the first character read stays for the next read.\<close>

fun get_line :: "nat \<Rightarrow> bool \<Rightarrow> u8 list \<Rightarrow> (u8 list \<times> u8 list) option" where
  "get_line 0 started ls = Some ([], ls)"
| "get_line (Suc n) started [] = None"
| "get_line (Suc n) started (c # ls) =
     (if c = EOTb then Some ([], if started then c # ls else ls)
      else if c = NLb then Some ([c], ls)
      else map_option (\<lambda>(d, r). (c # d, r)) (get_line n True ls))"

section \<open>The buffer as two lists\<close>

definition cons_all :: "consbuf \<Rightarrow> u8 list" where
  "cons_all b = ring_list INPUT_BUF_SIZE (cn_buf b) (cn_r b) (cn_e b)"

definition cons_abs :: "consbuf \<Rightarrow> u8 list \<times> u8 list" where
  "cons_abs b = (take (unat (cn_w b - cn_r b)) (cons_all b), drop (unat (cn_w b - cn_r b)) (cons_all b))"

definition cons_inv :: "consbuf \<Rightarrow> bool" where
  "cons_inv b \<longleftrightarrow> ring_ok INPUT_BUF_SIZE (cn_buf b) (cn_r b) (cn_e b) \<and>
     unat (cn_w b - cn_r b) \<le> unat (cn_e b - cn_r b) \<and> NLb \<notin> set (snd (cons_abs b))"

lemma length_cons_all: "length (cons_all b) = unat (cn_e b - cn_r b)"
  by (simp add: cons_all_def ring_length)

lemma cons_abs_append: "fst (cons_abs b) @ snd (cons_abs b) = cons_all b"
  by (simp add: cons_abs_def)

lemma length_cons_abs:
  assumes "cons_inv b"
  shows "length (fst (cons_abs b)) = unat (cn_w b - cn_r b)"
    "length (snd (cons_abs b)) = unat (cn_e b - cn_r b) - unat (cn_w b - cn_r b)"
    "length (fst (cons_abs b)) + length (snd (cons_abs b)) = unat (cn_e b - cn_r b)"
  using assms by (simp_all add: cons_abs_def cons_inv_def length_cons_all)

text \<open>The line being edited is empty exactly if \<^verbatim>\<open>e\<close> and \<^verbatim>\<open>w\<close> agree.\<close>

lemma edit_empty: "cons_inv b \<Longrightarrow> snd (cons_abs b) = [] \<longleftrightarrow> cn_e b = cn_w b"
proof -
  assume i: "cons_inv b"
  have "snd (cons_abs b) = [] \<longleftrightarrow> unat (cn_e b - cn_r b) = unat (cn_w b - cn_r b)"
    using length_cons_abs(2) [OF i] i by (auto simp: cons_inv_def simp flip: length_0_conv)
  also have "\<dots> \<longleftrightarrow> cn_e b = cn_w b" by (simp add: word_unat_eq_iff [symmetric])
  finally show ?thesis .
qed

lemma edit_length: "cons_inv b \<Longrightarrow> unat (cn_e b - cn_w b) = length (snd (cons_abs b))"
proof -
  assume i: "cons_inv b"
  have "cn_e b - cn_w b = (cn_e b - cn_r b) - (cn_w b - cn_r b)" by simp
  also have "unat \<dots> = unat (cn_e b - cn_r b) - unat (cn_w b - cn_r b)"
    using i by (intro unat_sub) (simp add: cons_inv_def word_le_nat_alt)
  finally show ?thesis using length_cons_abs(2) [OF i] by simp
qed

text \<open>Erasing the last character of the line.\<close>

lemma cons_erase:
  assumes i: "cons_inv b" and ne: "cn_e b \<noteq> cn_w b"
  defines "b' \<equiv> b\<lparr>cn_e := cn_e b - 1\<rparr>"
  shows "cons_abs b' = (fst (cons_abs b), butlast (snd (cons_abs b)))" "cons_inv b'"
    "cn_buf b ! (unat (cn_e b - 1) mod INPUT_BUF_SIZE) = last (snd (cons_abs b))"
proof -
  let ?n = "unat (cn_w b - cn_r b)"
  have ok: "ring_ok INPUT_BUF_SIZE (cn_buf b) (cn_r b) (cn_e b)" using i by (simp add: cons_inv_def)
  have sn: "snd (cons_abs b) \<noteq> []" using edit_empty [OF i] ne by simp
  have lt: "?n < length (cons_all b)" using sn by (simp add: cons_abs_def)
  then have re: "cn_r b \<noteq> cn_e b" by (auto simp: length_cons_all)
  note u = ring_unput [OF ok re]
  have a: "cons_all b = cons_all b' @ [cn_buf b ! (unat (cn_e b - 1) mod INPUT_BUF_SIZE)]"
    using u(1) by (simp add: cons_all_def b'_def)
  then have le: "?n \<le> length (cons_all b')" using lt by simp
  have s: "snd (cons_abs b) = snd (cons_abs b') @ [cn_buf b ! (unat (cn_e b - 1) mod INPUT_BUF_SIZE)]"
    "fst (cons_abs b') = fst (cons_abs b)" using le a by (simp_all add: cons_abs_def b'_def)
  show "cn_buf b ! (unat (cn_e b - 1) mod INPUT_BUF_SIZE) = last (snd (cons_abs b))"
    "cons_abs b' = (fst (cons_abs b), butlast (snd (cons_abs b)))" using s by (simp_all add: prod_eq_iff)
  have "set (snd (cons_abs b')) \<subseteq> set (snd (cons_abs b))" using s by auto
  then show "cons_inv b'" using i u le by (auto simp: cons_inv_def b'_def length_cons_all)
qed

text \<open>Storing a character at the end, with and without finishing the line.\<close>

lemma cons_store_ok:
  fixes c :: u8 and b :: consbuf
  assumes i: "cons_inv b" and room: "unat (cn_e b - cn_r b) < INPUT_BUF_SIZE"
  defines "b' \<equiv> cons_store c b"
  shows "cons_all b' = cons_all b @ [c]" "ring_ok INPUT_BUF_SIZE (cn_buf b') (cn_r b') (cn_e b')"
    "unat (cn_e b' - cn_r b') = Suc (unat (cn_e b - cn_r b))" "cn_w b' = cn_w b" "cn_r b' = cn_r b"
    "cons_abs b' = (fst (cons_abs b), snd (cons_abs b) @ [c])" "c \<noteq> NLb \<Longrightarrow> cons_inv b'"
    "cons_abs (b'\<lparr>cn_w := cn_e b'\<rparr>) = (cons_all b @ [c], [])" "cons_inv (b'\<lparr>cn_w := cn_e b'\<rparr>)"
proof -
  have ok: "ring_ok INPUT_BUF_SIZE (cn_buf b) (cn_r b) (cn_e b)" using i by (simp add: cons_inv_def)
  show w: "cn_w b' = cn_w b" and r: "cn_r b' = cn_r b" by (simp_all add: b'_def cons_store_def)
  show a: "cons_all b' = cons_all b @ [c]" and k: "ring_ok INPUT_BUF_SIZE (cn_buf b') (cn_r b') (cn_e b')"
    using ring_put [OF ok room, of c] by (simp_all add: cons_all_def b'_def cons_store_def)
  show l: "unat (cn_e b' - cn_r b') = Suc (unat (cn_e b - cn_r b))"
    using a length_cons_all [of b'] length_cons_all [of b] by simp
  show ab: "cons_abs b' = (fst (cons_abs b), snd (cons_abs b) @ [c])"
    using i a by (simp add: cons_abs_def cons_inv_def length_cons_all w r)
  show "c \<noteq> NLb \<Longrightarrow> cons_inv b'" using i k l ab w r by (simp add: cons_inv_def)
  have all: "cons_all (b'\<lparr>cn_w := cn_e b'\<rparr>) = cons_all b'" by (simp add: cons_all_def)
  show ab': "cons_abs (b'\<lparr>cn_w := cn_e b'\<rparr>) = (cons_all b @ [c], [])"
    using a l all by (simp add: cons_abs_def length_cons_all)
  show "cons_inv (b'\<lparr>cn_w := cn_e b'\<rparr>)" using k ab' by (simp add: cons_inv_def)
qed

text \<open>Taking the first character of the finished lines.\<close>

lemma cons_take:
  assumes i: "cons_inv b" and ne: "cn_r b \<noteq> cn_w b"
  defines "b' \<equiv> b\<lparr>cn_r := cn_r b + 1\<rparr>"
  shows "cons_abs b = (cn_buf b ! (unat (cn_r b) mod INPUT_BUF_SIZE) # fst (cons_abs b'), snd (cons_abs b'))" "cons_inv b'"
proof -
  have ok: "ring_ok INPUT_BUF_SIZE (cn_buf b) (cn_r b) (cn_e b)" using i by (simp add: cons_inv_def)
  have nz: "cn_w b - cn_r b \<noteq> 0" using ne by simp
  then have pos: "0 < unat (cn_w b - cn_r b)" by (simp add: unat_gt_0)
  then have re: "cn_r b \<noteq> cn_e b" using i by (auto simp: cons_inv_def)
  have "cn_w b - (cn_r b + 1) = (cn_w b - cn_r b) - 1" by (simp add: algebra_simps)
  then have n: "unat (cn_w b - (cn_r b + 1)) = unat (cn_w b - cn_r b) - 1" using unat_minus_one [OF nz] by (simp only:)
  have a: "cons_all b = cn_buf b ! (unat (cn_r b) mod INPUT_BUF_SIZE) # cons_all b'"
    using ring_get(1) [OF ok re] by (simp add: cons_all_def b'_def)
  show ab: "cons_abs b = (cn_buf b ! (unat (cn_r b) mod INPUT_BUF_SIZE) # fst (cons_abs b'), snd (cons_abs b'))"
    using a n pos by (cases "unat (cn_w b - cn_r b)") (simp_all add: cons_abs_def b'_def)
  show "cons_inv b'"
    using i ab n ring_get(2,3) [OF ok re] by (auto simp: cons_inv_def b'_def)
qed

section \<open>Characters typed\<close>

text \<open>\<open>in_step bs s s'\<close>: \<open>bs\<close> was printed; of the rest of the state only the input buffer and the
  process table may differ.\<close>

definition in_step :: "u8 list \<Rightarrow> 'z kcons_scheme \<Rightarrow> 'z kcons_scheme \<Rightarrow> bool" where
  "in_step bs s s' \<longleftrightarrow> held s' = held s \<and> cur s' = cur s \<and> u_in s' = u_in s \<and> uart s' = uart s \<and> pmem s' = pmem s \<and>
     u_out s' = u_out s @ bs \<and> (\<forall>n. ready s (length bs + n) \<longrightarrow> ready s' n)"

lemma in_step_refl [simp]: "in_step [] s s"
  by (simp add: in_step_def)

lemma in_step_trans: "in_step as s s' \<Longrightarrow> in_step bs s' s'' \<Longrightarrow> in_step (as @ bs) s s''"
  by (auto simp: in_step_def add.assoc)

lemma in_step_ready: "in_step bs s s' \<Longrightarrow> ready s (length bs + n) \<Longrightarrow> ready s' n"
  by (simp add: in_step_def)

lemma in_step_cons [simp]: "in_step [] s (upd_cons f s)" "in_step [] s (s\<lparr>ptable := t\<rparr>)"
  by (simp_all add: in_step_def upd_cons_def ready_def)

lemma sent_in_step:
  assumes "sent bs s s'"
  shows "in_step bs s s'" "cons s' = cons s"
proof -
  obtain n where n: "s' = s\<lparr>tx_idle := drop n (tx_idle s), u_out := u_out s @ bs\<rparr>"
    using assms unfolding sent_def by blast
  then show "cons s' = cons s" by simp
  show "in_step bs s s'" using n sent_ready [OF assms] by (simp add: in_step_def)
qed

lemma consputc_backspace: "ready s 3 \<Longrightarrow> \<exists>s'. consputc BACKSPACE s = Inr s' \<and> sent [8, 32, 8] s s'"
proof -
  assume r: "ready s 3"
  obtain s1 where s1: "uartputc_sync 8 s = Inr s1" "sent [8] s s1"
    using uartputc_sync_sent [of s 8] r by (auto simp: ready_def)
  have r1: "ready s1 2" using sent_ready [OF s1(2), of 2] r by (simp add: numeral_eq_Suc)
  obtain s2 where s2: "uartputc_sync 32 s1 = Inr s2" "sent [32] s1 s2"
    using uartputc_sync_sent [of s1 32] r1 by (auto simp: ready_def)
  have r2: "ready s2 1" using sent_ready [OF s2(2), of 1] r1 by (simp add: numeral_eq_Suc)
  obtain s3 where s3: "uartputc_sync 8 s2 = Inr s3" "sent [8] s2 s3"
    using uartputc_sync_sent [of s2 8] r2 by auto
  show ?thesis using s1 s2 s3 sent_trans [OF sent_trans [OF s1(2) s2(2)] s3(2)] by (simp add: consputc_def)
qed

lemma erase_char:
  assumes "cons_inv (cons s)" "cn_e (cons s) \<noteq> cn_w (cons s)" "ready s 3"
  obtains s' where "consputc BACKSPACE (upd_cons (\<lambda>b. b\<lparr>cn_e := cn_e b - 1\<rparr>) s) = Inr s'" "in_step [8, 32, 8] s s'"
    "cons s' = (cons s)\<lparr>cn_e := cn_e (cons s) - 1\<rparr>"
proof -
  let ?s = "upd_cons (\<lambda>b. b\<lparr>cn_e := cn_e b - 1\<rparr>) s"
  have r: "ready ?s 3" using assms(3) by (simp add: ready_def upd_cons_def)
  obtain s' where s': "consputc BACKSPACE ?s = Inr s'" "sent [8, 32, 8] ?s s'"
    using consputc_backspace [OF r] by blast
  have c: "cons s' = (cons s)\<lparr>cn_e := cn_e (cons s) - 1\<rparr>"
    using sent_in_step(2) [OF s'(2)] by (simp add: upd_cons_def)
  have "in_step ([] @ [8, 32, 8]) s s'"
    by (rule in_step_trans [OF in_step_cons(1) sent_in_step(1) [OF s'(2)]])
  then show thesis using that [OF s'(1) _ c] by simp
qed

lemma kill_line_ok:
  assumes "cons_inv (cons s)" "k = length (snd (cons_abs (cons s)))" "ready s (3 * k)"
  shows "\<exists>s'. kill_line k s = Inr s' \<and> in_step (concat (replicate k [8, 32, 8])) s s' \<and> cons_inv (cons s') \<and>
    cons_abs (cons s') = (fst (cons_abs (cons s)), [])"
  using assms
proof (induction k arbitrary: s)
  case 0
  then show ?case by (auto simp: prod_eq_iff)
next
  case (Suc k)
  have ne: "snd (cons_abs (cons s)) \<noteq> []" using Suc.prems(2) by auto
  then have ew: "cn_e (cons s) \<noteq> cn_w (cons s)" using edit_empty Suc.prems by auto
  note er = cons_erase [OF Suc.prems(1) ew]
  have "last (snd (cons_abs (cons s))) \<in> set (snd (cons_abs (cons s)))" using ne by simp
  then have "cn_buf (cons s) ! (unat (cn_e (cons s) - 1) mod INPUT_BUF_SIZE) \<noteq> of_char nl"
    using er(3) Suc.prems(1) by (auto simp: cons_inv_def NLb_def nl_def)
  moreover obtain s1 where s1: "consputc BACKSPACE (upd_cons (\<lambda>b. b\<lparr>cn_e := cn_e b - 1\<rparr>) s) = Inr s1"
      "in_step [8, 32, 8] s s1" "cons s1 = (cons s)\<lparr>cn_e := cn_e (cons s) - 1\<rparr>"
    using erase_char [OF Suc.prems(1) ew] Suc.prems(3) by (auto simp: ready_def)
  ultimately have st: "kill_line (Suc k) s = kill_line k s1" using ew by simp
  have "ready s1 (3 * k)" by (rule in_step_ready [OF s1(2)]) (use Suc.prems(3) in \<open>simp add: ready_def\<close>)
  moreover have "cons_inv (cons s1)" "k = length (snd (cons_abs (cons s1)))"
    using er s1(3) Suc.prems(2) [symmetric] by simp_all
  ultimately obtain s' where s': "kill_line k s1 = Inr s'" "in_step (concat (replicate k [8, 32, 8])) s1 s'" "cons_inv (cons s')"
    "cons_abs (cons s') = (fst (cons_abs (cons s1)), [])" using Suc.IH [of s1] by blast
  show ?case using st s' er(1) s1(3) in_step_trans [OF s1(2) s'(2)] by (intro exI [of _ s']) (simp del: kill_line.simps)
qed

lemma ucast_is: "unat w < 256 \<Longrightarrow> (ucast (b :: u8) = (w :: i32)) \<longleftrightarrow> b = ucast w"
proof -
  assume w: "unat w < 256"
  then have "unat (ucast w :: u8) = unat w" by (simp add: unsigned_ucast_eq take_bit_nat_eq_self)
  then show ?thesis by (simp add: word_unat_eq_iff)
qed

lemma byte_cases:
  fixes c :: u8
  shows "ucast c = ctl (CHR ''P'') \<longleftrightarrow> c = 16" "ucast c = ctl (CHR ''U'') \<longleftrightarrow> c = 21"
    "ucast c = ctl (CHR ''C'') \<longleftrightarrow> c = 3" "ucast c = ctl (CHR ''H'') \<longleftrightarrow> c = 8"
    "ucast c = ctl (CHR ''D'') \<longleftrightarrow> c = EOTb" "ucast c = (127 :: i32) \<longleftrightarrow> c = 127"
    "ucast c = (0 :: i32) \<longleftrightarrow> c = 0" "ucast c = (13 :: i32) \<longleftrightarrow> c = 13" "ucast c = (of_char nl :: i32) \<longleftrightarrow> c = NLb"
  by (simp_all add: ucast_is ctl_def EOTb_def NLb_def nl_def)

lemma typed_char: "(if ucast c = (13 :: i32) then of_char nl else ucast c) = (ucast (typed c) :: i32)"
  by (simp add: byte_cases typed_def NLb_def nl_def)

lemma cons_char_ok:
  assumes i: "cons_inv (cons s)" and h: "\<forall>i. L_proc i \<notin> set (held s)" and r: "ready s 1" and c: "c \<notin> {21, 8, 127}"
  shows "\<exists>s'. cons_char (ucast c) s = Inr s' \<and> in_step (echo c (cons_abs (cons s))) s s' \<and> cons_inv (cons s') \<and>
    cons_abs (cons s') = tty c (cons_abs (cons s))"
proof -
  let ?A = "cons_abs (cons s)" and ?b = "cons_store (typed c) (cons s)"
  let ?n = "unat (cn_e (cons s) - cn_r (cons s))"
  have n: "length (fst ?A) + length (snd ?A) = ?n" using length_cons_abs(3) [OF i] .
  have lt: "cn_e (cons s) - cn_r (cons s) < of_nat INPUT_BUF_SIZE \<longleftrightarrow> ?n < INPUT_BUF_SIZE"
    by (simp add: word_less_nat_alt INPUT_BUF_SIZE_def)
  show ?thesis
  proof (cases "c \<noteq> 0 \<and> ?n < INPUT_BUF_SIZE")
    case False
    moreover obtain ls ed where "?A = (ls, ed)" by fastforce
    ultimately have "echo c ?A = []" "tty c ?A = ?A" using c n by auto
    then show ?thesis using False i lt by (auto simp: cons_char_def byte_cases)
  next
    case True
    note st = cons_store_ok [OF i conjunct2 [OF True], of "typed c"]
    obtain s1 where s1: "consputc (ucast (typed c)) s = Inr s1" "sent [typed c] s s1"
      using consputc_sent [OF r] by blast
    note s1' = sent_in_step [OF s1(2)]
    define s2 where "s2 = upd_cons (cons_store (typed c)) s1"
    have s2: "cons s2 = ?b" "in_step [typed c] s s2"
      using s1' in_step_trans [OF s1'(1) in_step_cons(1)] by (simp_all add: s2_def upd_cons_def)
    let ?fin = "typed c = NLb \<or> typed c = EOTb \<or> Suc ?n = INPUT_BUF_SIZE"
    have full: "cn_e ?b - cn_r ?b = of_nat INPUT_BUF_SIZE \<longleftrightarrow> Suc ?n = INPUT_BUF_SIZE"
      using st(3) by (simp add: word_unat_eq_iff INPUT_BUF_SIZE_def)
    have step: "cons_char (ucast c) s =
        (if ?fin then wakeup C_cons_r (upd_cons (\<lambda>b. b\<lparr>cn_w := cn_e b\<rparr>) s2) else Inr s2)"
      unfolding cons_char_def Let_def typed_char
      using True lt s1(1) full s2(1) by (simp add: byte_cases s2_def [symmetric])
    have e: "echo c ?A = [typed c]" using True c n by (cases ?A) auto
    show ?thesis
    proof (cases ?fin)
      case fin: True
      let ?s = "upd_cons (\<lambda>b. b\<lparr>cn_w := cn_e b\<rparr>) s2"
      have "held ?s = held s" using s2(2) by (simp add: in_step_def upd_cons_def)
      then obtain t where t: "wakeup C_cons_r ?s = Inr (?s\<lparr>ptable := t\<rparr>)" using wakeup_frame [of ?s] h by auto
      have "in_step (([typed c] @ []) @ []) s (?s\<lparr>ptable := t\<rparr>)"
        by (rule in_step_trans [OF in_step_trans [OF s2(2) in_step_cons(1)] in_step_cons(2)])
      moreover have "tty c ?A = (cons_all (cons s) @ [typed c], [])"
        using True c n fin cons_abs_append [of "cons s"] by (cases ?A) auto
      ultimately show ?thesis using step fin t e st(8,9) s2(1)
        by (intro exI [of _ "?s\<lparr>ptable := t\<rparr>"]) (simp add: upd_cons_def)
    next
      case mid: False
      then have "tty c ?A = (fst ?A, snd ?A @ [typed c])" using True c n by (cases ?A) auto
      then show ?thesis using step mid e st(6,7) s2 by (intro exI [of _ s2]) simp
    qed
  qed
qed

lemma length_echo:
  "cons_inv b \<Longrightarrow> length (echo c (cons_abs b)) \<le> 3 * INPUT_BUF_SIZE"
proof -
  assume i: "cons_inv b"
  then have "length (snd (cons_abs b)) \<le> INPUT_BUF_SIZE"
    using length_cons_abs(3) [OF i] by (simp add: cons_inv_def ring_ok_def)
  then show ?thesis by (cases "cons_abs b") (auto simp: length_concat comp_def sum_list_replicate INPUT_BUF_SIZE_def)
qed

lemma consoleintr_ok:
  assumes i: "cons_inv (cons s)" and h: "held s = []" and r: "ready s (3 * INPUT_BUF_SIZE)" and c: "c \<noteq> 16" "c \<noteq> 3"
  shows "\<exists>s'. consoleintr (ucast c) s = Inr s' \<and> in_step (echo c (cons_abs (cons s))) s s' \<and> cons_inv (cons s') \<and>
    cons_abs (cons s') = tty c (cons_abs (cons s))"
proof -
  let ?s = "s\<lparr>held := [L_cons]\<rparr>" and ?A = "cons_abs (cons s)"
  define body where "body = (if c = 21 then kill_line (unat (cn_e (cons s) - cn_w (cons s))) ?s
      else if c = 8 \<or> c = 127
      then if cn_e (cons s) \<noteq> cn_w (cons s)
           then consputc BACKSPACE (upd_cons (\<lambda>b. b\<lparr>cn_e := cn_e b - 1\<rparr>) ?s) else Inr ?s
      else cons_char (ucast c) ?s)"
  have eq: "consoleintr (ucast c) s = bindE body (lk_release L_cons)"
    using h c unfolding consoleintr_def byte_cases body_def by simp
  have i': "cons_inv (cons ?s)" using i by simp
  have rd: "ready ?s (3 * INPUT_BUF_SIZE)" using r by (simp add: ready_def)
  have "\<exists>s'. body = Inr s' \<and> in_step (echo c ?A) ?s s' \<and> cons_inv (cons s') \<and> cons_abs (cons s') = tty c ?A"
  proof -
    consider "c = 21" | "c = 8 \<or> c = 127" "snd ?A = []" | "c = 8 \<or> c = 127" "snd ?A \<noteq> []" | "c \<notin> {21, 8, 127}" by blast
    then show ?thesis
    proof cases
      case 1
      have l: "unat (cn_e (cons ?s) - cn_w (cons ?s)) = length (snd ?A)" using edit_length [OF i] by simp
      have "length (snd ?A) \<le> INPUT_BUF_SIZE" using length_cons_abs(3) [OF i] i by (simp add: cons_inv_def ring_ok_def)
      then have "ready ?s (3 * length (snd ?A))" using rd by (simp add: ready_def)
      then show ?thesis using kill_line_ok [OF i', of "length (snd ?A)"] 1 l
        by (cases ?A) (auto simp: body_def)
    next
      case 2
      then show ?thesis using edit_empty [OF i] i
        by (cases ?A) (auto simp: body_def)
    next
      case 3
      then have ne: "cn_e (cons ?s) \<noteq> cn_w (cons ?s)" using edit_empty [OF i] by simp
      obtain s' where "consputc BACKSPACE (upd_cons (\<lambda>b. b\<lparr>cn_e := cn_e b - 1\<rparr>) ?s) = Inr s'" "in_step [8, 32, 8] ?s s'"
        "cons s' = (cons ?s)\<lparr>cn_e := cn_e (cons ?s) - 1\<rparr>"
        using erase_char [OF i' ne] rd by (auto simp: ready_def INPUT_BUF_SIZE_def)
      then show ?thesis using 3 ne cons_erase [OF i' ne]
        by (cases ?A) (auto simp: body_def)
    next
      case 4
      have "ready ?s 1" using rd by (simp add: ready_def INPUT_BUF_SIZE_def)
      then show ?thesis using cons_char_ok [OF i' _ _ 4] 4 c by (simp add: body_def)
    qed
  qed
  then obtain s' where s': "body = Inr s'" "in_step (echo c ?A) ?s s'" "cons_inv (cons s')" "cons_abs (cons s') = tty c ?A" by blast
  have "held s' = [L_cons]" using s'(2) by (simp add: in_step_def)
  then have "consoleintr (ucast c) s = Inr (s'\<lparr>held := []\<rparr>)" using eq s'(1) by simp
  moreover have "in_step (echo c ?A) s (s'\<lparr>held := []\<rparr>)" using s'(2) h by (auto simp: in_step_def ready_def)
  ultimately show ?thesis using s'(3,4) by (intro exI [of _ "s'\<lparr>held := []\<rparr>"]) simp
qed

fun echoes :: "u8 list \<Rightarrow> u8 list \<times> u8 list \<Rightarrow> u8 list" where
  "echoes [] A = []"
| "echoes (c # cs) A = echo c A @ echoes cs (tty c A)"

lemma ucast_ne_minus1: "(ucast (b :: u8) :: i32) \<noteq> - 1"
proof
  assume "(ucast b :: i32) = - 1"
  then have "unat (ucast b :: i32) = unat (- 1 :: i32)" by simp
  moreover have "unat b < 256" using unsigned_less [of b, where 'a = nat] by simp
  ultimately show False by (simp add: unsigned_minus_1_eq_mask mask_eq_exp_minus_1)
qed

lemma uartintr_loop_ok:
  assumes "cons_inv (cons s)" "held s = []" "16 \<notin> set (u_in s)" "3 \<notin> set (u_in s)"
    and "ready s (3 * INPUT_BUF_SIZE * length (u_in s))"
  shows "\<exists>s'. uartintr_loop (Suc (length (u_in s))) s = Inr s' \<and> cons_inv (cons s') \<and>
    cons_abs (cons s') = fold tty (u_in s) (cons_abs (cons s)) \<and> u_in s' = [] \<and> held s' = [] \<and> uart s' = uart s \<and>
    u_out s' = u_out s @ echoes (u_in s) (cons_abs (cons s))"
  using assms
proof (induction "u_in s" arbitrary: s)
  case Nil
  then show ?case by (simp add: uartgetc_def Nil.hyps [symmetric])
next
  case (Cons c cs)
  let ?s = "s\<lparr>u_in := cs\<rparr>" and ?N = "3 * INPUT_BUF_SIZE"
  have cs: "u_in s = c # cs" using Cons.hyps(2) by simp
  have r: "ready ?s (?N + ?N * length cs)" using Cons.prems(5) cs by (simp add: ready_def)
  then have r1: "ready ?s ?N" by (simp add: ready_def)
  obtain s1 where s1: "consoleintr (ucast c) ?s = Inr s1" "in_step (echo c (cons_abs (cons s))) ?s s1" "cons_inv (cons s1)"
    "cons_abs (cons s1) = tty c (cons_abs (cons s))"
    using consoleintr_ok [of ?s c] Cons.prems cs r1 by auto
  have f: "u_in s1 = cs" "held s1 = []" "uart s1 = uart s" "u_out s1 = u_out s @ echo c (cons_abs (cons s))"
    using s1(2) Cons.prems(2) by (simp_all add: in_step_def)
  have "length (echo c (cons_abs (cons s))) \<le> ?N" using length_echo Cons.prems(1) .
  then have "ready ?s (length (echo c (cons_abs (cons s))) + ?N * length cs)" using r by (simp add: ready_def)
  then have "ready s1 (?N * length cs)" by (rule in_step_ready [OF s1(2)])
  then have IH: "\<exists>s'. uartintr_loop (Suc (length cs)) s1 = Inr s' \<and> cons_inv (cons s') \<and>
      cons_abs (cons s') = fold tty cs (cons_abs (cons s1)) \<and> u_in s' = [] \<and> held s' = [] \<and> uart s' = uart s1 \<and>
      u_out s' = u_out s1 @ echoes cs (cons_abs (cons s1))"
    using Cons.hyps(1) [of s1] f Cons.prems cs s1(3) by simp
  have "uartintr_loop (Suc (length (u_in s))) s = uartintr_loop (Suc (length cs)) s1"
    using s1(1) by (simp add: uartgetc_def cs ucast_ne_minus1)
  then show ?case using IH s1(4) f cs by auto
qed

section \<open>Reading a line\<close>

lemma consoleread_wait_ready:
  "cn_r (cons s) \<noteq> cn_w (cons s) \<Longrightarrow> 0 < f \<Longrightarrow> consoleread_wait f E s = Inr (Inr s)"
  by (cases f) auto

lemma either_copyout_1:
  assumes "uspace_ok s xs pt" "cur s = Some me" "p_pagetable (ptable s me) = pt" "user_va (pmem s) pt va"
  obtains m where "either_copyout True va [b] s = Inr (0, s\<lparr>pmem := m\<rparr>)" "copied s pt xs va [b] 1 (s\<lparr>pmem := m\<rparr>)"
proof -
  obtain s' where s': "copyout pt va [b] s = Inr (0, s')" "copied s pt xs va [b] 1 s'"
    using copyout_1 [OF assms(1), of va b] assms(4) by auto
  then have "s' = s\<lparr>pmem := pmem s'\<rparr>" by (simp add: copied_def)
  then show thesis using that [of "pmem s'"] s' assms(2,3)
    by (simp add: either_copyout_def thisproc_def myproc_def)
qed

lemma taken_Nil: "uspace_ok s xs pt \<Longrightarrow> taken s xs pt va [] s"
  by (simp add: taken_def)

lemma uspace_upd_cons [simp]: "uspace_ok (upd_cons f s) xs pt = uspace_ok s xs pt"
  by (simp add: uspace_ok_def vm_ok_def kmem_ok_def ram_page_def upd_cons_def)

lemma upd_cons_sel [simp]:
  "cons (upd_cons f s) = f (cons s)" "pmem (upd_cons f s) = pmem s" "ptable (upd_cons f s) = ptable s"
  "cur (upd_cons f s) = cur s" "held (upd_cons f s) = held s"
  by (simp_all add: upd_cons_def)

lemma get_line_length: "get_line n st ls = Some (d, r) \<Longrightarrow> length d \<le> n \<and> length d \<le> length ls"
  by (induction n st ls arbitrary: d rule: get_line.induct) (auto split: if_splits)

text \<open>One character that is not control-D is copied to the caller, and the loop goes on unless it ends a line.\<close>

lemma consoleread_char:
  assumes "uspace_ok s xs pt" "cur s = Some me" "p_pagetable (ptable s me) = pt" "0 < fst e"
    and "cn_r (cons s) \<noteq> cn_w (cons s)" "c = cn_buf (cons s) ! (unat (cn_r (cons s)) mod INPUT_BUF_SIZE)" "c \<noteq> EOTb"
    and "user_va (pmem s) pt dst"
  obtains s1 m where "s1 = s\<lparr>cons := (cons s)\<lparr>cn_r := cn_r (cons s) + 1\<rparr>, pmem := m\<rparr>" "taken s xs pt dst [c] s1"
    "consoleread_loop (Suc k) e True target dst n s =
      (if c = NLb then Inr (Inr (n - 1, [c], s1))
       else bindE (consoleread_loop k e True target (dst + 1) (n - 1) s1) (\<lambda>q.
              case q of Inl s4 \<Rightarrow> Inr (Inl s4) | Inr (n', bs, s4) \<Rightarrow> Inr (Inr (n', c # bs, s4))))"
proof -
  let ?s = "upd_cons (\<lambda>b. b\<lparr>cn_r := cn_r b + 1\<rparr>) s"
  have s: "?s = s\<lparr>cons := (cons s)\<lparr>cn_r := cn_r (cons s) + 1\<rparr>\<rparr>" by (simp add: upd_cons_def)
  have w: "consoleread_wait (fst e) (snd e) s = Inr (Inr s)" using consoleread_wait_ready assms(4,5) by blast
  obtain m where m: "either_copyout True dst [c] ?s = Inr (0, ?s\<lparr>pmem := m\<rparr>)" "copied ?s pt xs dst [c] 1 (?s\<lparr>pmem := m\<rparr>)"
    using either_copyout_1 [of ?s xs pt me dst] assms by auto
  have t: "taken s xs pt dst [c] (?s\<lparr>pmem := m\<rparr>)" using copied_taken [OF m(2)] by (simp add: taken_def)
  have "consoleread_loop (Suc k) e True target dst n s =
      (if c = NLb then Inr (Inr (n - 1, [c], ?s\<lparr>pmem := m\<rparr>))
       else bindE (consoleread_loop k e True target (dst + 1) (n - 1) (?s\<lparr>pmem := m\<rparr>)) (\<lambda>q.
              case q of Inl s4 \<Rightarrow> Inr (Inl s4) | Inr (n', bs, s4) \<Rightarrow> Inr (Inr (n', c # bs, s4))))"
    using w m(1) assms(7) by (simp add: byte_cases NLb_def nl_def flip: assms(6))
  then show thesis using t by (intro that [of "?s\<lparr>pmem := m\<rparr>" m]) (simp_all add: s)
qed

lemma consoleread_eot:
  assumes "uspace_ok s xs pt" "0 < fst e" "cn_r (cons s) \<noteq> cn_w (cons s)"
    and "cn_buf (cons s) ! (unat (cn_r (cons s)) mod INPUT_BUF_SIZE) = EOTb"
    and "b = (if n < target then cons s else (cons s)\<lparr>cn_r := cn_r (cons s) + 1\<rparr>)"
  shows "consoleread_loop (Suc k) e True target dst n s = Inr (Inr (n, [], s\<lparr>cons := b, pmem := pmem s\<rparr>))"
    and "taken s xs pt dst [] (s\<lparr>cons := b, pmem := pmem s\<rparr>)"
proof -
  have "consoleread_wait (fst e) (snd e) s = Inr (Inr s)" using consoleread_wait_ready assms(2,3) by blast
  then show "consoleread_loop (Suc k) e True target dst n s = Inr (Inr (n, [], s\<lparr>cons := b, pmem := pmem s\<rparr>))"
    using assms(4,5) by (simp add: byte_cases upd_cons_def)
  show "taken s xs pt dst [] (s\<lparr>cons := b, pmem := pmem s\<rparr>)"
    using assms(1) by (simp add: taken_def uspace_ok_def vm_ok_def kmem_ok_def ram_page_def)
qed

lemma pred_word:
  fixes n t :: "'b::len word"
  assumes "unat n = Suc k" "n \<le> t"
  shows "unat (n - 1) = k" "n - 1 < t"
proof -
  have "n \<noteq> 0" using assms(1) by auto
  then show "unat (n - 1) = k" using assms(1) unat_minus_one by fastforce
  then show "n - 1 < t" using assms by (simp add: word_less_nat_alt word_le_nat_alt)
qed

lemma consoleread_loop_ok:
  assumes "uspace_ok s xs pt" "cur s = Some me" "p_pagetable (ptable s me) = pt" "cons_inv (cons s)" "0 < fst e"
    and "get_line k (n < target) (fst (cons_abs (cons s))) = Some (d, rest)" "unat n = k" "n \<le> target"
    and "\<forall>j < length d. user_va (pmem s) pt (dst + of_nat j)"
  shows "\<exists>b m. consoleread_loop k e True target dst n s = Inr (Inr (n - of_nat (length d), d, s\<lparr>cons := b, pmem := m\<rparr>)) \<and>
    cons_inv b \<and> cons_abs b = (rest, snd (cons_abs (cons s))) \<and> taken s xs pt dst d (s\<lparr>cons := b, pmem := m\<rparr>)"
  using assms
proof (induction k arbitrary: s dst n d)
  case 0
  then show ?case using taken_Nil [OF 0(1)] by (intro exI [of _ "cons s"] exI [of _ "pmem s"]) (simp add: prod_eq_iff)
next
  case (Suc k)
  let ?b = "(cons s)\<lparr>cn_r := cn_r (cons s) + 1\<rparr>"
  define c where "c = cn_buf (cons s) ! (unat (cn_r (cons s)) mod INPUT_BUF_SIZE)"
  have "fst (cons_abs (cons s)) \<noteq> []" using Suc.prems(6) by auto
  then have ne: "cn_r (cons s) \<noteq> cn_w (cons s)" by (auto simp: cons_abs_def)
  note tk = cons_take [OF Suc.prems(4) ne, folded c_def]
  have gl: "get_line (Suc k) (n < target) (c # fst (cons_abs ?b)) = Some (d, rest)" using Suc.prems(6) tk(1) by simp
  show ?case
  proof (cases "c = EOTb")
    case True
    define b where "b = (if n < target then cons s else ?b)"
    have "d = []" "cons_abs b = (rest, snd (cons_abs (cons s)))" "cons_inv b"
      using gl True tk Suc.prems(4) by (auto simp: b_def split: if_splits)
    then show ?thesis using consoleread_eot [OF Suc.prems(1,5) ne True [unfolded c_def] b_def]
      by (intro exI [of _ b] exI [of _ "pmem s"]) (simp del: consoleread_loop.simps)
  next
    case False
    then obtain d1 where d1: "d = c # d1" "if c = NLb then d1 = [] \<and> rest = fst (cons_abs ?b)
        else get_line k True (fst (cons_abs ?b)) = Some (d1, rest)" using gl by (auto split: if_splits)
    have u: "user_va (pmem s) pt dst" using Suc.prems(9) d1(1) by auto
    obtain s1 m where s1: "s1 = s\<lparr>cons := ?b, pmem := m\<rparr>" "taken s xs pt dst [c] s1"
      "consoleread_loop (Suc k) e True target dst n s = (if c = NLb then Inr (Inr (n - 1, [c], s1))
         else bindE (consoleread_loop k e True target (dst + 1) (n - 1) s1) (\<lambda>q.
              case q of Inl s4 \<Rightarrow> Inr (Inl s4) | Inr (n', bs, s4) \<Rightarrow> Inr (Inr (n', c # bs, s4))))"
      using consoleread_char [OF Suc.prems(1,2,3,5) ne c_def False u] .
    show ?thesis
    proof (cases "c = NLb")
      case nl: True
      show ?thesis by (intro exI [of _ ?b] exI [of _ m])
        (use d1 s1 nl tk in \<open>simp del: consoleread_loop.simps\<close>)
    next
      case more: False
      note n = pred_word [OF Suc.prems(7,8)]
      have st: "uspace_ok s1 xs pt" "\<And>w. pte_of (pmem s1) pt w = pte_of (pmem s) pt w" using s1(2) by (simp_all add: taken_def)
      have f: "cur s1 = Some me" "p_pagetable (ptable s1 me) = pt" "cons_inv (cons s1)" "cons s1 = ?b"
        using Suc.prems(2,3) tk(2) s1(1) by simp_all
      have g1: "get_line k (n - 1 < target) (fst (cons_abs (cons s1))) = Some (d1, rest)" using d1(2) more n(2) f(4) by simp
      have u1: "\<forall>j < length d1. user_va (pmem s1) pt (dst + 1 + of_nat j)"
        using Suc.prems(9) user_va_cong [OF st(2)] d1(1) by (auto simp: algebra_simps dest: spec [of _ "Suc _"])
      obtain b m1 where IH: "consoleread_loop k e True target (dst + 1) (n - 1) s1 =
          Inr (Inr (n - 1 - of_nat (length d1), d1, s1\<lparr>cons := b, pmem := m1\<rparr>))" "cons_inv b"
        "cons_abs b = (rest, snd (cons_abs (cons s1)))" "taken s1 xs pt (dst + 1) d1 (s1\<lparr>cons := b, pmem := m1\<rparr>)"
        using Suc.IH [OF st(1) f(1-3) Suc.prems(5) g1 n(1) less_imp_le [OF n(2)] u1] by blast
      have "length d1 < 2 ^ 32" using get_line_length [OF g1] n(1) unsigned_less [of "n - 1", where 'a = nat] by simp
      then have "taken s xs pt dst d (s1\<lparr>cons := b, pmem := m1\<rparr>)" unfolding d1(1) by (rule taken_Cons [OF s1(2) IH(4)])
      then show ?thesis by (intro exI [of _ b] exI [of _ m1])
        (use d1 s1 more IH tk f(4) in \<open>simp del: consoleread_loop.simps\<close>)
    qed
  qed
qed

section \<open>Properties\<close>

text \<open>A machine with the address space of \<open>demo\<close>, a full transmit ring, and an input buffer with the
  line \<open>hi\<close> finished and \<open>x\<close> being typed, its counters about to wrap around.\<close>

definition uart0 :: uartbuf where
  "uart0 = \<lparr>uart_tx_buf = map of_nat [0..<32], uart_tx_w = 37, uart_tx_r = 5\<rparr>"

definition cons0 :: consbuf where
  "cons0 = \<lparr>cn_buf = [NLb, 120] @ replicate 124 0 @ [104, 105], cn_r = 0xFFFFFFFE, cn_w = 1, cn_e = 2\<rparr>"

definition kcons0 :: kcons where
  "kcons0 = \<lparr>held = [], pmem = pmem demo, freelist = freelist demo, k_end = k_end demo, k_etext = 0x80008000,
     k_trampoline = 0x80007000, kernel_pagetable = 0, satp = 0, u_out = [], u_in = [98, 127, 8, 99, 13],
     tx_idle = replicate 2000 True, panicked = False, pr_locking = True,
     ptable = (\<lambda>i. (proc_at i)\<lparr>p_pagetable := demo_pt\<rparr>), nextpid = 4,
     initproc = Some 0, cur = Some 0, sched_pointer = rr_impl, forkret_first = False, ticks = 0,
     nswitch = 0, k_forkret = 0x80001000, pipes = Map.empty, slock = (\<lambda>_ _. \<lparr>sl_locked = False, sl_pid = 0\<rparr>),
     bcache = bcache kbuf_raw, disk = (\<lambda>_. replicate BSIZE 0), dwrites = [],
     log = \<lparr>l_start = 2, l_size = 30, l_outstanding = 0, l_committing = False, l_dev = ROOTDEV, lh_n = 0, lh_block = replicate 30 0\<rparr>,
     sb = \<lparr>sb_magic = FSMAGIC, sb_size = 100, sb_nblocks = 54, sb_ninodes = 200, sb_nlog = 30, sb_logstart = 2, sb_inodestart = 32, sb_bmapstart = 45\<rparr>,
     itable = (\<lambda>_. \<lparr>i_dev = 0, i_inum = 0, i_ref = 0, i_valid = False, i_type = 0, i_major = 0, i_minor = 0, i_nlink = 0,
       i_size = 0, i_addrs = replicate 13 0\<rparr>),
     uart_regs = [], uart = uart0, cons = cons0, devsw = (\<lambda>_. \<lparr>dv_read = None, dv_write = None\<rparr>)\<rparr>"

text \<open>The effect of the other processes on a sleeping writer: the UART sends the whole ring.\<close>

definition drain_demo :: "kcons \<Rightarrow> kcons" where
  "drain_demo s = s\<lparr>uart := (uart s)\<lparr>uart_tx_r := uart_tx_w (uart s)\<rparr>, u_out := u_out s @ uart_content (uart s)\<rparr>"

lemma drain_demo_drains: "drains drain_demo me"
proof -
  have "tx_step me s (drain_demo s) \<and> tx_stream (drain_demo s) = tx_stream s \<and> \<not> uart_full (uart (drain_demo s))"
    if "uart_inv (uart s)" for s
  proof (intro conjI)
    let ?u = "(uart s)\<lparr>uart_tx_r := uart_tx_w (uart s)\<rparr>"
    have u: "uart_inv ?u" "uart_content ?u = []" using that
      by (simp_all add: uart_inv_def ring_ok_def uart_content_def ring_list_def UART_TX_BUF_SIZE_def)
    show "tx_step me s (drain_demo s)"
      by (rule tx_stepI [where t = "ptable s" and u = ?u and ob = "u_out s @ uart_content (uart s)" and ti = "tx_idle s" and n = "nswitch s"])
        (simp_all add: drain_demo_def u)
    show "tx_stream (drain_demo s) = tx_stream s" using u(2) by (simp add: tx_stream_def drain_demo_def)
    show "\<not> uart_full (uart (drain_demo s))" using uartq.full_iff [OF u(1)] u(2)
      by (simp add: drain_demo_def UART_TX_BUF_SIZE_def)
  qed
  then show ?thesis by (simp add: drains_def)
qed

lemma kcons0_facts:
  obtains ys where "uspace_ok kcons0 ys demo_pt" "\<And>w. user_va (pmem kcons0) demo_pt w \<longleftrightarrow> w < 4096"
    "cur kcons0 = Some 0" "held kcons0 = []" "p_pagetable (ptable kcons0 0) = demo_pt" "\<not> panicked kcons0"
    "uart_inv (uart kcons0)" "cons_inv (cons kcons0)" "cons_abs (cons kcons0) = ([104, 105, NLb], [120])"
    "ready kcons0 2000" "u_in kcons0 = [98, 127, 8, 99, 13]"
proof (rule demo_space)
  fix ys assume ok: "uspace_ok demo ys demo_pt" and u: "\<And>w. user_va (pmem demo) demo_pt w \<longleftrightarrow> w < 4096"
  have "uspace_ok kcons0 ys demo_pt" using ok
    by (auto simp: uspace_ok_def vm_ok_def kmem_ok_def ram_page_def kcons0_def)
  moreover have "uart_inv uart0" by (simp add: uart_inv_def uart0_def ring_ok_def UART_TX_BUF_SIZE_def)
  moreover have a: "cons_all cons0 = [104, 105, NLb, 120]"
    by (simp add: cons_all_def cons0_def ring_list_def INPUT_BUF_SIZE_def upt_conv_Cons nth_append)
  then have "cons_abs cons0 = ([104, 105, NLb], [120])" by (simp add: cons_abs_def cons0_def)
  moreover from this have "cons_inv cons0" by (simp add: cons_inv_def cons0_def ring_ok_def INPUT_BUF_SIZE_def NLb_def)
  moreover have "count_list (replicate n True) True = n" for n by (induction n) simp_all
  then have "ready kcons0 2000" by (simp add: ready_def kcons0_def)
  ultimately show thesis using u by (intro that [of ys]) (simp_all add: kcons0_def proc_at_def)
qed

text \<open>C27: A \<^verbatim>\<open>write\<close> to the console returns even when the transmit ring is full, given that the UART drains
  it while the writer sleeps. It returns the number of bytes readable in the caller's memory (all \<open>n\<close>,
  or up to the first unmapped address), and exactly these bytes follow, in order, what had been
  accepted for output before. No lock stays held.\<close>

theorem consolewrite_streams:
  assumes "uspace_ok s xs pt" "cur s = Some me" "p_pagetable (ptable s me) = pt" "held s = []" "uart_inv (uart s)"
    and "\<not> panicked s" "drains (snd e) me" "2 \<le> fst e"
  shows "\<exists>k s'. consolewrite e (USrc addr) n s = Inr (int k, s') \<and>
    k \<le> nat (sint n) \<and> (\<forall>j < k. user_va (pmem s) pt (addr + of_nat j)) \<and>
    (k < nat (sint n) \<longrightarrow> \<not> user_va (pmem s) pt (addr + of_nat k)) \<and>
    u_out s' @ uart_content (uart s') =
      u_out s @ uart_content (uart s) @ map (\<lambda>j. uview (pmem s) pt (addr + of_nat j)) [0..<k] \<and>
    uart_inv (uart s') \<and> held s' = [] \<and> pmem s' = pmem s"
proof -
  obtain k where k: "reach (pmem s) pt addr (nat (sint n)) k" using reach_ex by blast
  obtain s' where s': "consolewrite_loop e (nat (sint n)) (USrc addr) 0 s = Inr (int k, s')" "tx_step me s s'"
    "tx_stream s' = tx_stream s @ map (\<lambda>j. uview (pmem s) pt (addr + of_nat j)) [0..<k]"
    using consolewrite_loop_ok [OF assms, of 0 addr "nat (sint n)" k] k by auto
  then show ?thesis using k tx_stepD [OF s'(2)] assms(4)
    by (intro exI [of _ k] exI [of _ s']) (simp add: consolewrite_def reach_def tx_stream_def)
qed

theorem consolewrite_streams_witness:
  "\<exists>k s'. consolewrite (2, drain_demo) (USrc 0xFFE) 3 kcons0 = Inr (int k, s') \<and>
    k \<le> nat (sint (3 :: i32)) \<and> (\<forall>j < k. user_va (pmem kcons0) demo_pt (0xFFE + of_nat j)) \<and>
    (k < nat (sint (3 :: i32)) \<longrightarrow> \<not> user_va (pmem kcons0) demo_pt (0xFFE + of_nat k)) \<and>
    u_out s' @ uart_content (uart s') =
      u_out kcons0 @ uart_content (uart kcons0) @ map (\<lambda>j. uview (pmem kcons0) demo_pt (0xFFE + of_nat j)) [0..<k] \<and>
    uart_inv (uart s') \<and> held s' = [] \<and> pmem s' = pmem kcons0"
proof (rule kcons0_facts)
  fix ys assume "uspace_ok kcons0 ys demo_pt" "cur kcons0 = Some 0" "held kcons0 = []" "p_pagetable (ptable kcons0 0) = demo_pt"
    "\<not> panicked kcons0" "uart_inv (uart kcons0)"
  then show ?thesis
    by (intro consolewrite_streams [where xs = ys and me = 0]) (simp_all add: drain_demo_drains)
qed

text \<open>C25: On input without \<^verbatim>\<open>^P\<close> (process listing) and \<^verbatim>\<open>^C\<close> (kill) the UART interrupt implements a line editor. It
  takes all the bytes received; the finished lines
  and the line being edited change as the editor \<open>tty\<close> on two lists prescribes, character by
  character (erase, kill line, carriage return as newline, end of file, a full buffer), and the
  terminal shows the echo of the editor followed by what waits in the transmit ring.\<close>

theorem uartintr_edits:
  assumes "cons_inv (cons s)" "uart_inv (uart s)" "held s = []" "16 \<notin> set (u_in s)" "3 \<notin> set (u_in s)"
    and "ready s (3 * INPUT_BUF_SIZE * length (u_in s))"
  shows "\<exists>s'. uartintr s = Inr s' \<and> cons_inv (cons s') \<and> cons_abs (cons s') = fold tty (u_in s) (cons_abs (cons s)) \<and>
    u_in s' = [] \<and> held s' = [] \<and> uart_inv (uart s') \<and>
    u_out s' @ uart_content (uart s') = u_out s @ echoes (u_in s) (cons_abs (cons s)) @ uart_content (uart s)"
proof -
  obtain s1 where s1: "uartintr_loop (Suc (length (u_in s))) s = Inr s1" "cons_inv (cons s1)"
    "cons_abs (cons s1) = fold tty (u_in s) (cons_abs (cons s))" "u_in s1 = []" "held s1 = []" "uart s1 = uart s"
    "u_out s1 = u_out s @ echoes (u_in s) (cons_abs (cons s))"
    using uartintr_loop_ok [OF assms(1,3,4,5,6)] by blast
  let ?s = "s1\<lparr>held := [L_uart]\<rparr>"
  obtain s2 where s2: "uartstart ?s = Inr s2" "tx_step 0 ?s s2" "tx_stream s2 = tx_stream ?s"
    using uartstart_ok [of ?s] assms(2) s1(6) by auto
  note d = tx_stepD [OF s2(2)]
  have "uartintr s = Inr (s2\<lparr>held := []\<rparr>)"
    using s1(1,5) s2(1) d(1) by (simp add: uartintr_def del: uartintr_loop.simps)
  then show ?thesis using s1 s2(3) d
    by (intro exI [of _ "s2\<lparr>held := []\<rparr>"]) (simp add: tx_stream_def)
qed

theorem uartintr_edits_witness:
  "\<exists>s'. uartintr kcons0 = Inr s' \<and> cons_inv (cons s') \<and>
    cons_abs (cons s') = fold tty (u_in kcons0) (cons_abs (cons kcons0)) \<and>
    u_in s' = [] \<and> held s' = [] \<and> uart_inv (uart s') \<and>
    u_out s' @ uart_content (uart s') =
      u_out kcons0 @ echoes (u_in kcons0) (cons_abs (cons kcons0)) @ uart_content (uart kcons0)"
proof (rule kcons0_facts)
  assume "held kcons0 = []" "uart_inv (uart kcons0)" "cons_inv (cons kcons0)" "ready kcons0 2000" "u_in kcons0 = [98, 127, 8, 99, 13]"
  then show ?thesis by (intro uartintr_edits) (simp_all add: ready_def INPUT_BUF_SIZE_def)
qed

text \<open>C26: A \<^verbatim>\<open>read\<close> of the console delivers one line. When the finished lines have enough for it
  (a newline, an end of file, or \<open>n\<close> characters), it returns at once; the bytes \<open>get_line\<close> gives
  are stored in the caller's buffer and nothing else there changes, the rest of the lines stays, a
  control-D after other characters included, and the line being edited is not touched.\<close>

theorem consoleread_line:
  assumes "uspace_ok s xs pt" "cur s = Some me" "p_pagetable (ptable s me) = pt" "held s = []" "cons_inv (cons s)" "0 < fst e"
    and "0 \<le> sint n" "get_line (nat (sint n)) False (fst (cons_abs (cons s))) = Some (d, rest)"
    and "\<forall>j < length d. user_va (pmem s) pt (dst + of_nat j)"
  shows "\<exists>s'. consoleread e True dst n s = Inr (of_nat (length d), d, s') \<and> cons_inv (cons s') \<and>
    cons_abs (cons s') = (rest, snd (cons_abs (cons s))) \<and> held s' = [] \<and>
    (\<forall>w. user_va (pmem s) pt w \<longrightarrow> uview (pmem s') pt w =
       (if unat (w - dst) < length d then d ! unat (w - dst) else uview (pmem s) pt w))"
proof -
  let ?s = "s\<lparr>held := [L_cons]\<rparr>"
  have u: "uspace_ok ?s xs pt" using assms(1) by (simp add: uspace_ok_def vm_ok_def kmem_ok_def ram_page_def)
  have n: "nat (sint n) = unat n" using pos32 [of n] assms(7) by (simp add: word_sless_alt flip: nat_uint_eq)
  obtain b m where r: "consoleread_loop (unat n) e True n dst n ?s =
      Inr (Inr (n - of_nat (length d), d, ?s\<lparr>cons := b, pmem := m\<rparr>))" "cons_inv b"
    "cons_abs b = (rest, snd (cons_abs (cons s)))" "taken ?s xs pt dst d (?s\<lparr>cons := b, pmem := m\<rparr>)"
    using consoleread_loop_ok [OF u, of me e "unat n" n n d rest dst] assms n by auto
  have "consoleread e True dst n s = Inr (of_nat (length d), d, s\<lparr>held := [], cons := b, pmem := m\<rparr>)"
    using assms(4) r(1) n by (simp add: consoleread_def)
  then show ?thesis using r(2-4)
    by (intro exI [of _ "s\<lparr>held := [], cons := b, pmem := m\<rparr>"]) (simp add: taken_def in_area_def)
qed

theorem consoleread_line_witness:
  "\<exists>s'. consoleread (1, id) True 100 9 kcons0 = Inr (of_nat (length [104, 105, NLb]), [104, 105, NLb], s') \<and> cons_inv (cons s') \<and>
    cons_abs (cons s') = ([], snd (cons_abs (cons kcons0))) \<and> held s' = [] \<and>
    (\<forall>w. user_va (pmem kcons0) demo_pt w \<longrightarrow> uview (pmem s') demo_pt w =
       (if unat (w - 100) < length [104, 105, NLb] then [104, 105, NLb] ! unat (w - 100) else uview (pmem kcons0) demo_pt w))"
proof (rule kcons0_facts)
  fix ys assume "uspace_ok kcons0 ys demo_pt" "cur kcons0 = Some 0" "held kcons0 = []" "p_pagetable (ptable kcons0 0) = demo_pt"
    "cons_inv (cons kcons0)" "cons_abs (cons kcons0) = ([104, 105, NLb], [120])" "\<And>w. user_va (pmem kcons0) demo_pt w \<longleftrightarrow> w < 4096"
  moreover have "get_line (nat (sint (9 :: i32))) False [104, 105, NLb] = Some ([104, 105, NLb], [])"
    by code_simp
  ultimately show ?thesis
    by (intro consoleread_line [where xs = ys and me = 0 and n = 9]) (simp_all add: All_less_Suc2)
qed

end
