(* ===== verification/Fdtable.thy ===== *)
theory Fdtable
  imports Frame Consline
begin

text \<open>
  Open files are counted exactly: the reference count of every entry of the file table is the
  number of descriptors, of all processes, that refer to it. \<open>fd_bal d\<close> is that statement with an
  allowance \<open>d f\<close> for references a system call holds in a variable (or has already dropped) while
  it runs. Every system call starts and ends with no allowance, so \<^verbatim>\<open>filedup\<close> and \<^verbatim>\<open>fileclose\<close> never
  find a count below one.
\<close>

section \<open>Counting references\<close>

definition nrefs :: "'z kproc_scheme \<Rightarrow> nat \<Rightarrow> nat" where
  "nrefs s f = (\<Sum>i<NPROC. \<Sum>fd<NOFILE. of_bool (p_ofile (ptable s i) fd = Some f))"

definition fd_bal :: "(nat \<Rightarrow> int) \<Rightarrow> 'z kfile_scheme \<Rightarrow> bool" where
  "fd_bal d s \<longleftrightarrow>
     (\<forall>i<NPROC. \<forall>fd<NOFILE. \<forall>f. p_ofile (ptable s i) fd = Some f \<longrightarrow> f < NFILE) \<and>
     (\<forall>f<NFILE. sint (f_ref (ftable s f)) = int (nrefs s f) + d f) \<and>
     (\<forall>i<NPROC. idle (ptable s i) \<longrightarrow> bare (ptable s i))"

definition kept :: "(nat \<Rightarrow> int) \<Rightarrow> (nat \<Rightarrow> nat option) \<Rightarrow> nat \<Rightarrow> 'z kfile_scheme \<Rightarrow> bool" where
  "kept d ofs me s \<longleftrightarrow> fd_bal d s \<and> cur s = Some me \<and> \<not> idle (ptable s me) \<and> p_ofile (ptable s me) = ofs"

text \<open>The table of files is well typed, with process \<open>me\<close> running.\<close>

definition fd_typed :: "nat \<Rightarrow> 'z kfile_scheme \<Rightarrow> bool" where
  "fd_typed me s \<longleftrightarrow> fd_bal (\<lambda>_. 0) s \<and> cur s = Some me \<and> \<not> idle (ptable s me)"

definition fd_fault_free :: "fault \<Rightarrow> bool" where
  "fd_fault_free f \<longleftrightarrow> f \<noteq> Panic ''filedup'' \<and> f \<noteq> Panic ''fileclose''"

text \<open>What other processes do while this one waits: they may open and close files, but leave every
  count in step with the descriptors, and do not touch the descriptors of this process.\<close>

definition fd_env :: "nat \<Rightarrow> 'z kfile_scheme senv \<Rightarrow> bool" where
  "fd_env me e \<longleftrightarrow> (\<forall>d ofs s. kept d ofs me s \<longrightarrow> kept d ofs me (snd e s))"

lemma nrefs_upd_other:
  "(\<And>p. p_ofile (f p) = p_ofile p) \<Longrightarrow> nrefs (upd_proc i f s) = nrefs s"
  unfolding nrefs_def upd_proc_def by (intro ext sum.cong refl) simp

lemma nrefs_le: "nrefs s f \<le> 1024"
proof -
  have "nrefs s f \<le> (\<Sum>i<NPROC. \<Sum>fd<NOFILE. 1)"
    unfolding nrefs_def by (intro sum_mono) simp
  then show ?thesis by (simp add: NPROC_def NOFILE_def)
qed

lemma nrefs_pos: "p_ofile (ptable s i) fd = Some f \<Longrightarrow> i < NPROC \<Longrightarrow> fd < NOFILE \<Longrightarrow> 1 \<le> nrefs s f"
proof -
  assume a: "p_ofile (ptable s i) fd = Some f" "i < NPROC" "fd < NOFILE"
  have "1 \<le> (\<Sum>fd<NOFILE. of_bool (p_ofile (ptable s i) fd = Some f) :: nat)"
    using a member_le_sum [of fd "{..<NOFILE}" "\<lambda>fd. of_bool (p_ofile (ptable s i) fd = Some f) :: nat"] by simp
  also have "\<dots> \<le> nrefs s f"
    unfolding nrefs_def using a(2)
    by (intro member_le_sum [of i "{..<NPROC}" "\<lambda>i. \<Sum>fd<NOFILE. of_bool (p_ofile (ptable s i) fd = Some f) :: nat"]) auto
  finally show ?thesis .
qed

lemma sum_upd: "k < n \<Longrightarrow> (\<Sum>i<n. (g(k := v)) i) + g k = (\<Sum>i<n. g i) + (v :: nat)" for g :: "nat \<Rightarrow> nat"
proof -
  assume k: "k < n"
  have "(\<Sum>i<n. (g(k := v)) i) = v + (\<Sum>i\<in>{..<n} - {k}. g i)"
    using k by (subst sum.remove [of _ k]) (auto intro: sum.cong)
  moreover have "(\<Sum>i<n. g i) = g k + (\<Sum>i\<in>{..<n} - {k}. g i)"
    using k by (subst sum.remove [of _ k]) auto
  ultimately show ?thesis by simp
qed

lemma nrefs_set_ofile:
  assumes i: "i < NPROC" and fd: "fd < NOFILE"
  shows "nrefs (set_ofile i fd v s) f + of_bool (p_ofile (ptable s i) fd = Some f) = nrefs s f + of_bool (v = Some f)"
proof -
  define row where "row p = (\<Sum>fd<NOFILE. of_bool (p_ofile p fd = Some f) :: nat)" for p :: proc
  define q where "q = (ptable s i)\<lparr>p_ofile := (p_ofile (ptable s i))(fd := v)\<rparr>"
  have "row q + of_bool (p_ofile (ptable s i) fd = Some f) = row (ptable s i) + of_bool (v = Some f)"
    using sum_upd [OF fd, of "\<lambda>fd. of_bool (p_ofile (ptable s i) fd = Some f)" "of_bool (v = Some f)"]
    unfolding row_def q_def by (simp add: fun_upd_def if_distrib [of "\<lambda>x. of_bool (x = Some f)"] cong: if_cong)
  moreover have "nrefs (set_ofile i fd v s) f + row (ptable s i) = nrefs s f + row q"
    using sum_upd [OF i, of "\<lambda>j. row (ptable s j)" "row q"]
    unfolding nrefs_def row_def q_def set_ofile_def upd_proc_def
    by (simp add: fun_upd_def if_distrib [of "\<lambda>p. \<Sum>fd<NOFILE. of_bool (p_ofile p fd = Some f)"] cong: if_cong)
  ultimately show ?thesis by simp
qed

section \<open>The frame of the counts\<close>

lemma kept_same:
  "ftable s' = ftable s \<Longrightarrow> ptable s' = ptable s \<Longrightarrow> cur s' = cur s \<Longrightarrow> kept d ofs me s \<Longrightarrow> kept d ofs me s'"
  by (simp add: kept_def fd_bal_def nrefs_def)

lemma bare_cong: "p_ofile p = p_ofile q \<Longrightarrow> bare p = bare q"
  by (simp add: bare_def)

lemma kept_upd_proc:
  assumes "\<And>p. p_ofile (f p) = p_ofile p" and "idle (f (ptable s i)) \<Longrightarrow> (i < NPROC \<longrightarrow> bare (ptable s i)) \<and> i \<noteq> me" and k: "kept d ofs me s"
  shows "kept d ofs me (upd_proc i f s)"
proof -
  have n: "nrefs (upd_proc i f s) = nrefs s" by (rule nrefs_upd_other) fact
  have "bare (f (ptable s i)) = bare (ptable s i)" by (rule bare_cong) (rule assms(1))
  then show ?thesis using k assms(1,2) unfolding kept_def fd_bal_def n by (auto simp: upd_proc_def)
qed

lemma kept_upd_file:
  "(\<And>x. f_ref (g x) = f_ref x) \<Longrightarrow> kept d ofs me s \<Longrightarrow> kept d ofs me (upd_file k g s)"
  by (simp add: kept_def fd_bal_def nrefs_def upd_file_def)

lemma kept_idle: "kept d ofs me s \<Longrightarrow> i < NPROC \<Longrightarrow> idle (ptable s i) \<Longrightarrow> bare (ptable s i) \<and> i \<noteq> me"
  by (auto simp: kept_def fd_bal_def)

locale fds =
  fixes e :: "'z kfile_scheme senv" and me :: nat
  assumes env: "fd_env me e" and me: "me < NPROC"
begin

lemma kept_frame: "fd_frame (kept d ofs me) fd_fault_free e me"
proof
  fix s :: "'z kfile_scheme" and i and f :: "proc \<Rightarrow> proc"
  show "kept d ofs me s \<Longrightarrow> kept d ofs me (snd e s)" using env by (auto simp: fd_env_def)
  show "kept d ofs me s \<Longrightarrow> i < NPROC \<Longrightarrow> idle (ptable s i) \<Longrightarrow> bare (ptable s i) \<and> i \<noteq> me" by (rule kept_idle)
  assume f: "\<And>p. p_ofile (f p) = p_ofile p" and k: "kept d ofs me s"
  show "(\<And>p. idle (f p) \<Longrightarrow> idle p) \<Longrightarrow> kept d ofs me (upd_proc i f s)"
    using kept_idle [OF k] k by (intro kept_upd_proc f k) (auto simp: kept_def)
  show "bare (ptable s i) \<and> i \<noteq> me \<Longrightarrow> kept d ofs me (upd_proc i f s)"
    by (intro kept_upd_proc f k) simp
qed (auto simp: fd_fault_free_def intro: kept_upd_file kept_same [rotated 3])

end

sublocale fds \<subseteq> fr: fd_frame "kept d ofs me" fd_fault_free e me for d ofs
  by (rule kept_frame)

section \<open>Operations that change the counts\<close>

lemma kept_ref: "kept d ofs me s \<Longrightarrow> f < NFILE \<Longrightarrow> sint (f_ref (ftable s f)) = int (nrefs s f) + d f"
  by (simp add: kept_def fd_bal_def)

lemma kept_count:
  assumes k: "kept d ofs me s" and c: "sint (f_ref (g (ftable s f))) = sint (f_ref (ftable s f)) + c"
  shows "kept (d(f := d f + c)) ofs me (upd_file f g s)"
  using k c by (auto simp: kept_def fd_bal_def upd_file_def nrefs_def)

lemma sint_inc: "sint r < 2 ^ 31 - 1 \<Longrightarrow> sint (r + 1) = sint r + 1" for r :: i32
  using sint_ge [of r] by (simp add: sint_word_ariths signed_take_bit_int_eq_self)

lemma sint_dec: "1 \<le> sint r \<Longrightarrow> sint (r - 1) = sint r - 1" for r :: i32
  using sint_lt [of r] by (simp add: sint_word_ariths signed_take_bit_int_eq_self)

lemma kept_held [simp]: "kept d ofs me (s\<lparr>held := h\<rparr>) = kept d ofs me s"
  by (simp add: kept_def fd_bal_def nrefs_def)

lemma held_upd_file [simp]: "held (upd_file f g s) = held s" "ftable (upd_file f g s) f = g (ftable s f)"
  by (simp_all add: upd_file_def)

lemma upd_file_ptable: "ptable (upd_file f g s) = ptable s"
  by (simp add: upd_file_def)

lemma filedup_bal:
  assumes "kept d ofs me s" and "1 \<le> sint (f_ref (ftable s f))" "sint (f_ref (ftable s f)) < 2 ^ 31 - 1"
  shows "safeE fd_fault_free (filedup f s) (\<lambda>r. fst r = f \<and> kept (d(f := d f + 1)) ofs me (snd r) \<and> ptable (snd r) = ptable s)"
  using assms by (auto simp: upd_file_ptable filedup_def lk_acquire_def lk_release_def safeE_def fd_fault_free_def word_sless_alt sint_inc
      intro!: kept_count)

lemma filealloc_bal:
  assumes "kept d ofs me s"
  shows "safeE fd_fault_free (filealloc s) (\<lambda>r. case fst r of None \<Rightarrow> kept d ofs me (snd r)
    | Some f \<Rightarrow> f < NFILE \<and> f_ref (ftable s f) = 0 \<and> kept (d(f := d f + 1)) ofs me (snd r))"
  using assms by (auto simp: filealloc_def lk_acquire_def lk_release_def safeE_def fd_fault_free_def find_Some_iff
      split: option.splits intro!: kept_count)

lemma kept_set_ofile:
  assumes k: "kept d ofs me s" and fd: "fd < NOFILE" and i: "i < NPROC" and v: "\<And>f. v = Some f \<Longrightarrow> f < NFILE"
    and st: "v \<noteq> None \<Longrightarrow> \<not> idle (ptable s i)"
  shows "kept (\<lambda>f. d f + of_bool (p_ofile (ptable s i) fd = Some f) - of_bool (v = Some f))
    (if i = me then ofs(fd := v) else ofs) me (set_ofile i fd v s)"
proof -
  have n: "int (nrefs (set_ofile i fd v s) f) = int (nrefs s f) + of_bool (v = Some f) - of_bool (p_ofile (ptable s i) fd = Some f)" for f
    using nrefs_set_ofile [OF i fd, of v s f] by (auto simp: of_bool_def split: if_splits)
  have b: "idle (ptable s j) \<Longrightarrow> j < NPROC \<Longrightarrow> bare (ptable (set_ofile i fd v s) j)" for j
    using kept_idle [OF k, of j] st by (cases v) (auto simp: bare_def set_ofile_def upd_proc_def)
  have "p_state (ptable (set_ofile i fd v s) j) = p_state (ptable s j)" for j
    by (simp add: set_ofile_def upd_proc_def)
  then have idle: "\<forall>j<NPROC. idle (ptable (set_ofile i fd v s) j) \<longrightarrow> bare (ptable (set_ofile i fd v s) j)"
    using b by simp
  have rng: "\<forall>j<NPROC. \<forall>n<NOFILE. \<forall>f. p_ofile (ptable (set_ofile i fd v s) j) n = Some f \<longrightarrow> f < NFILE"
    using k v by (auto simp: kept_def fd_bal_def set_ofile_def upd_proc_def)
  have "cur (set_ofile i fd v s) = cur s" "ftable (set_ofile i fd v s) = ftable s"
      "p_ofile (ptable (set_ofile i fd v s) me) = (if i = me then (p_ofile (ptable s me))(fd := v) else p_ofile (ptable s me))"
      "p_state (ptable (set_ofile i fd v s) me) = p_state (ptable s me)"
    by (simp_all add: set_ofile_def upd_proc_def)
  then show ?thesis using k idle rng unfolding kept_def fd_bal_def n by simp
qed

lemma fdalloc_bal:
  assumes k: "kept d ofs me s" and me: "me < NPROC" and f: "f < NFILE" and d': "d' = d(f := d f - 1)"
  shows "safeE fd_fault_free (fdalloc f s) (\<lambda>r. case fst r of None \<Rightarrow> snd r = s
    | Some fd \<Rightarrow> fd < NOFILE \<and> ofs fd = None \<and> ftable (snd r) = ftable s
        \<and> kept d' (ofs(fd := Some f)) me (snd r))"
proof -
  have c: "cur s = Some me" and o: "p_ofile (ptable s me) = ofs" using k by (auto simp: kept_def)
  have "kept d' (ofs(fd := Some f)) me (set_ofile me fd (Some f) s)" if "fd < NOFILE" "ofs fd = None" for fd
  proof -
    have "(\<lambda>g. d g + of_bool (p_ofile (ptable s me) fd = Some g) - of_bool (Some f = Some g)) = d'"
      using that o d' by auto
    then show ?thesis using kept_set_ofile [OF k that(1) me, of "Some f"] f k by (simp add: kept_def)
  qed
  then show ?thesis
    using c o by (auto simp: fdalloc_def thisproc_def myproc_def safeE_def find_Some_iff set_ofile_def upd_proc_def split: option.splits)
qed

lemma kept_clear:
  assumes k: "kept d ofs me s" and me: "me < NPROC" and fd: "fd < NOFILE" and f: "ofs fd = Some f"
  shows "kept (d(f := d f + 1)) (ofs(fd := None)) me (set_ofile me fd None s)"
proof -
  have "(\<lambda>g. d g + of_bool (p_ofile (ptable s me) fd = Some g) - of_bool (None = Some g)) = d(f := d f + 1)"
    using f k by (auto simp: kept_def)
  then show ?thesis using kept_set_ofile [OF k fd me, of None] by simp
qed

lemma kept_fd:
  assumes k: "kept d ofs me s" and me: "me < NPROC" and fd: "fd < NOFILE" and f: "ofs fd = Some f"
  shows "f < NFILE" "sint (f_ref (ftable s f)) = int (nrefs s f) + d f" "1 \<le> nrefs s f"
proof -
  show n: "f < NFILE" using k me fd f by (auto simp: kept_def fd_bal_def)
  show "sint (f_ref (ftable s f)) = int (nrefs s f) + d f" by (rule kept_ref [OF k n])
  show "1 \<le> nrefs s f" using nrefs_pos [of s me fd f] k me fd f by (auto simp: kept_def)
qed

text \<open>The slot \<^verbatim>\<open>allocproc\<close> returns is in state \<^verbatim>\<open>USED\<close>: the memory functions leave the table alone.\<close>

lemma used_frame: "mem_frame (\<lambda>s :: 'z kproc_scheme. p_state (ptable s i) = USED) (\<lambda>_. True)"
  by unfold_locales simp_all

lemma used_upd:
  "(\<And>p. p_state p = USED \<Longrightarrow> p_state (f p) = USED) \<Longrightarrow> p_state (ptable s i) = USED \<Longrightarrow> p_state (ptable (upd_proc i f s) i) = USED"
  by (simp add: upd_proc_def)

lemmas used_code = safeE_if safeE_let safeE_pair safeE_Inl mem_frame.bind_s [OF used_frame] mem_frame.bind_vs [OF used_frame]
  mem_frame.inr_s [OF used_frame] mem_frame.inr_vs [OF used_frame] mem_frame.uvmunmap_keeps [OF used_frame]
  mem_frame.uvmfree_keeps [OF used_frame] mem_frame.uvmcreate_keeps [OF used_frame] mem_frame.mappages_keeps [OF used_frame]
  mem_frame.kalloc_keeps [OF used_frame]

lemma proc_pagetable_used:
  "p_state (ptable s i) = USED \<Longrightarrow> safeE (\<lambda>_. True) (proc_pagetable p s) (on_st (\<lambda>s. p_state (ptable s i) = USED))"
  unfolding proc_pagetable_def by (rule used_code | assumption | (simp; fail))+

lemma kalloc_used: "kalloc s = Inr (v, s') \<Longrightarrow> p_state (ptable s i) = USED \<Longrightarrow> p_state (ptable s' i) = USED"
  using safeE_InrD [OF mem_frame.kalloc_keeps [OF used_frame, of s i]] by (simp add: on_st_def)

lemma pagetable_used: "proc_pagetable p s = Inr (v, s') \<Longrightarrow> p_state (ptable s i) = USED \<Longrightarrow> p_state (ptable s' i) = USED"
  using safeE_InrD [OF proc_pagetable_used [of s i p]] by (simp add: on_st_def)

lemma allocproc_used: "allocproc s = Inr (Some i, s') \<Longrightarrow> p_state (ptable s' i) = USED"
  unfolding allocproc_def Let_def
  by (clarsimp split: option.splits if_splits) (frule kalloc_used [of _ _ _ i], simp add: upd_proc_def,
    drule pagetable_used [of _ _ _ _ i], simp_all add: upd_proc_def)

context fds
begin

lemma fileclose_bal:
  assumes k: "kept d ofs me s" and r: "1 \<le> sint (f_ref (ftable s f))"
  shows "safeE fd_fault_free (fileclose e f s) (kept (d(f := d f - 1)) ofs me)"
proof (cases "L_ftable \<in> set (held s)")
  case True
  then show ?thesis by (simp add: fileclose_def lk_acquire_def safeE_def fd_fault_free_def)
next
  case False
  define s1 where "s1 = s\<lparr>held := L_ftable # held s\<rparr>"
  define s2 where "s2 = upd_file f (\<lambda>x. x\<lparr>f_ref := f_ref x - 1\<rparr>) s1"
  have k2: "kept (d(f := d f - 1)) ofs me s2"
    using kept_count [of d ofs me s1 "\<lambda>x. x\<lparr>f_ref := f_ref x - 1\<rparr>" f "- 1"] k r
    by (simp add: s2_def s1_def sint_dec)
  have k3: "kept (d(f := d f - 1)) ofs me (upd_file f (\<lambda>x. x\<lparr>f_ref := 0, f_type := FD_NONE\<rparr>) s2)"
    if "\<not> 0 <s f_ref (ftable s2 f)"
    using kept_count [OF k2, of "\<lambda>x. x\<lparr>f_ref := 0, f_type := FD_NONE\<rparr>" f 0] that r
    by (simp add: s2_def s1_def word_sless_alt sint_dec)
  have u: "fileclose e f s = (if 0 <s f_ref (ftable s2 f) then lk_release L_ftable s2
     else bindE (lk_release L_ftable (upd_file f (\<lambda>x. x\<lparr>f_ref := 0, f_type := FD_NONE\<rparr>) s2)) (file_release e (ftable s2 f)))"
    using r False by (simp add: fileclose_def lk_acquire_def Let_def s2_def s1_def word_sless_alt)
  show ?thesis unfolding u by (rule k2 k3 frame fr.code2 | assumption)+
qed

lemma typedI: "kept (\<lambda>_. 0) ofs me s \<Longrightarrow> fd_typed me s"
  by (simp add: kept_def fd_typed_def)

lemma typedD: "fd_typed me s \<Longrightarrow> kept (\<lambda>_. 0) (p_ofile (ptable s me)) me s"
  by (simp add: kept_def fd_typed_def)

lemma typed_frame: "safeE G m (on_st (kept (\<lambda>_. 0) ofs me)) \<Longrightarrow> safeE G m (on_st (fd_typed me))"
  by (erule safeE_mono) (auto simp: on_st_def intro: typedI)

lemma typed_ret: "kept (\<lambda>_. 0) ofs me s \<Longrightarrow> safeE G (Inr (v, s)) (on_st (fd_typed me))"
  by (rule safeE_Inr) (auto simp: on_st_def intro: typedI)

lemma fd_range: "\<not> sint x < 0 \<Longrightarrow> \<not> int NOFILE \<le> sint x \<Longrightarrow> unat x < NOFILE" for x :: i32
proof -
  assume a: "\<not> sint x < 0" "\<not> int NOFILE \<le> sint x"
  have "int (unat x) = sint x" by (rule pos32) (use a in \<open>simp add: word_sless_alt\<close>)
  then show ?thesis using a by linarith
qed

text \<open>A call that returns a value and a state, or only a state.\<close>

lemma safe_opt:
  "safeE G m (\<lambda>r. case fst r of None \<Rightarrow> P (snd r) | Some x \<Rightarrow> R x (snd r)) \<Longrightarrow>
    (\<And>s. P s \<Longrightarrow> safeE G (f (None, s)) Q) \<Longrightarrow> (\<And>x s. R x s \<Longrightarrow> safeE G (f (Some x, s)) Q) \<Longrightarrow> safeE G (bindE m f) Q"
  by (cases m) (auto simp: safeE_def split: option.splits)

lemma argfd_spec: "argfd n s = Inr (Some (fd, f)) \<Longrightarrow> kept d ofs me s \<Longrightarrow> fd < NOFILE \<and> ofs fd = Some f"
  by (auto simp: argfd_def thisproc_def myproc_def kept_def fd_range split: if_splits option.splits)

lemma sys_close_typed: "fd_typed me s \<Longrightarrow> safeE fd_fault_free (sys_close e s) (on_st (fd_typed me))"
proof -
  assume t: "fd_typed me s"
  note k = typedD [OF t]
  show ?thesis unfolding sys_close_def
  proof (rule safeE_bind0 [OF fr.argfd_safe], rule safeE_option, goal_cases)
    case 1
    show ?case by (rule typed_ret [OF k])
  next
    case (2 a q)
    obtain fd f where q: "q = (fd, f)" by (cases q)
    have fd: "fd < NOFILE" and o: "p_ofile (ptable s me) fd = Some f" using argfd_spec [OF _ k, of 0 fd f] 2 q by auto
    note kf = kept_fd [OF k me fd o]
    have c: "thisproc s = Inr me" using k by (simp add: thisproc_def myproc_def kept_def)
    have r: "1 \<le> sint (f_ref (ftable (set_ofile me fd None s) f))"
      using kf by (simp add: set_ofile_def upd_proc_def)
    have "safeE fd_fault_free (fileclose e f (set_ofile me fd None s))
        (kept (\<lambda>_. 0) ((p_ofile (ptable s me))(fd := None)) me)"
      using fileclose_bal [OF kept_clear [OF k me fd o] r] by (simp add: fun_upd_idem)
    then show ?case unfolding q c by (simp add: safeE_bind typed_ret)
  qed
qed

lemma sys_dup_typed: "fd_typed me s \<Longrightarrow> safeE fd_fault_free (sys_dup s) (on_st (fd_typed me))"
proof -
  assume t: "fd_typed me s"
  note k = typedD [OF t]
  show ?thesis unfolding sys_dup_def
  proof (rule safeE_bind0 [OF fr.argfd_safe], rule safeE_option, goal_cases)
    case 1
    show ?case by (rule typed_ret [OF k])
  next
    case (2 a q)
    obtain fd f where q: "q = (fd, f)" by (cases q)
    have fd: "fd < NOFILE" and o: "p_ofile (ptable s me) fd = Some f" using argfd_spec [OF _ k, of 0 fd f] 2 q by auto
    note kf = kept_fd [OF k me fd o]
    show ?case unfolding q prod.case
    proof (rule safe_opt [OF fdalloc_bal [OF k me kf(1) refl]], goal_cases)
      case 1
      then show ?case using typed_ret [OF k] by simp
    next
      case (2 fd' s1)
      then have k1: "kept ((\<lambda>_. 0)(f := - 1)) ((p_ofile (ptable s me))(fd' := Some f)) me s1" and ft: "ftable s1 = ftable s"
        by (simp_all add: fun_upd_def)
      have "safeE fd_fault_free (filedup f s1) (\<lambda>r. fst r = f \<and> kept (\<lambda>_. 0) ((p_ofile (ptable s me))(fd' := Some f)) me (snd r))"
        using filedup_bal [OF k1, of f] kf nrefs_le [of s f] unfolding ft by (auto simp: fun_upd_idem elim: safeE_mono)
      then show ?case by (auto elim!: safeE_bind intro: typed_ret)
    qed
  qed
qed

text \<open>A new file: its count is one, held by the call until it has a descriptor.\<close>

lemma close_held:
  assumes "kept d ofs me s" "f < NFILE" "1 \<le> d f" "d' = d(f := d f - 1)"
  shows "safeE fd_fault_free (fileclose e f s) (kept d' ofs me)"
  using fileclose_bal [OF assms(1), of f] kept_ref [OF assms(1,2)] assms(3,4) by simp

lemma open_new_typed:
  assumes k: "kept (\<lambda>_. 0) ofs me s"
  shows "safeE fd_fault_free (bindE (filealloc s) (\<lambda>(fo, s3).
      case fo of None \<Rightarrow> fail_put e ip s3
      | Some f \<Rightarrow> bindE (fdalloc f s3) (\<lambda>(fdo, s4).
          case fdo of None \<Rightarrow> bindE (fileclose e f s4) (fail_put e ip)
          | Some fd \<Rightarrow>
            let s5 = upd_file f (open_file omode ip (itable s4 ip)) s4 in
            bindE (if omode AND O_TRUNC \<noteq> 0 \<and> i_type (itable s5 ip) = T_FILE then itrunc e ip s5 else Inr s5) (\<lambda>s6.
            bindE (iunlock (Some ip) s6) (\<lambda>s7.
            bindE (end_op e s7) (\<lambda>s8. Inr (of_nat fd, s8))))))) (on_st (fd_typed me))"
proof (rule safe_opt [OF filealloc_bal [OF k]], goal_cases)
  case (1 s3)
  then show ?case by (auto intro!: typed_frame fr.fail_put_keeps)
next
  case (2 f s3)
  then have f: "f < NFILE" and k3: "kept ((\<lambda>_. 0)(f := 1)) ofs me s3" by (simp_all add: fun_upd_def)
  show ?case unfolding prod.case option.case
  proof (rule safe_opt [OF fdalloc_bal [OF k3 me f, of "\<lambda>_. 0"]], simp add: fun_eq_iff, goal_cases)
    case (1 s4)
    have "safeE fd_fault_free (fileclose e f s3) (kept (\<lambda>_. 0) ofs me)"
      by (rule close_held [OF k3 f]) (simp_all add: fun_eq_iff)
    then show ?case unfolding 1 prod.case option.case
      by (rule fr.bind_s) (rule typed_frame fr.fail_put_keeps | assumption)+
  next
    case (2 fd s4)
    then have k4: "kept (\<lambda>_. 0) (ofs(fd := Some f)) me s4" by (simp add: fun_upd_def)
    have k5: "kept (\<lambda>_. 0) (ofs(fd := Some f)) me (upd_file f (open_file omode ip (itable s4 ip)) s4)"
      by (rule kept_upd_file [OF _ k4]) (simp add: open_file_def)
    show ?case unfolding prod.case option.case Let_def
      by (rule typed_frame) (rule k5 frame fr.code2 | assumption)+
  qed
qed

lemma sys_open_typed: "fd_typed me s \<Longrightarrow> safeE fd_fault_free (sys_open e s) (on_st (fd_typed me))"
  unfolding sys_open_def
  by (drule typedD) (rule open_new_typed typed_ret typed_frame [OF fr.fail_op_keeps] typed_frame [OF fr.fail_put_keeps]
      frame fr.code2 | assumption)+

lemma close_both:
  assumes k: "kept ((\<lambda>_. 0)(f := 1, g := 1)) ofs me s" and f: "f < NFILE" "g < NFILE" "f \<noteq> g"
  shows "safeE fd_fault_free (bindE (fileclose e f s) (\<lambda>s1. bindE (fileclose e g s1) (\<lambda>s2. Inr (v, s2))))
    (on_st (kept (\<lambda>_. 0) ofs me))"
proof -
  have a: "safeE fd_fault_free (fileclose e f s) (kept ((\<lambda>_. 0)(g := 1)) ofs me)"
    by (rule close_held [OF k f(1)]) (use f in \<open>auto simp: fun_eq_iff\<close>)
  have b: "safeE fd_fault_free (fileclose e g s1) (kept (\<lambda>_. 0) ofs me)" if "kept ((\<lambda>_. 0)(g := 1)) ofs me s1" for s1
    by (rule close_held [OF that f(2)]) (simp_all add: fun_eq_iff)
  show ?thesis by (rule fr.bind_s [OF a], rule fr.bind_s [OF b], assumption, rule fr.inr_vs, assumption)
qed

text \<open>The two files of a new pipe.\<close>

definition pipe_post :: "(nat \<Rightarrow> nat option) \<Rightarrow> (nat \<times> nat) option \<times> 'z kfile_scheme \<Rightarrow> bool" where
  "pipe_post ofs r \<longleftrightarrow> (case fst r of None \<Rightarrow> kept (\<lambda>_. 0) ofs me (snd r)
     | Some q \<Rightarrow> fst q < NFILE \<and> snd q < NFILE \<and> fst q \<noteq> snd q \<and> kept ((\<lambda>_. 0)(fst q := 1, snd q := 1)) ofs me (snd r))"

lemma pipe_none: "safeE G m (on_st (kept (\<lambda>_. 0) ofs me)) \<Longrightarrow> (\<And>r. m = Inr r \<Longrightarrow> fst r = None) \<Longrightarrow> safeE G m (pipe_post ofs)"
  by (cases m) (auto simp: safeE_def on_st_def pipe_post_def)

lemma pipealloc_bal:
  assumes k: "kept (\<lambda>_. 0) ofs me s"
  shows "safeE fd_fault_free (pipealloc e s) (pipe_post ofs)"
  unfolding pipealloc_def
proof (rule safe_opt [OF filealloc_bal [OF k]], goal_cases)
  case (1 s1)
  then show ?case by (simp add: pipealloc_bad_def close_opt_def safeE_def pipe_post_def)
next
  case (2 f s1)
  then have f: "f < NFILE" and k1: "kept ((\<lambda>_. 0)(f := 1)) ofs me s1" by (simp_all add: fun_upd_def)
  show ?case unfolding prod.case option.case
  proof (rule safe_opt [OF filealloc_bal [OF k1]], goal_cases)
    case (1 s2)
    have "safeE fd_fault_free (fileclose e f s2) (kept (\<lambda>_. 0) ofs me)" by (rule close_held [OF 1 f]) (simp_all add: fun_eq_iff)
    then show ?case unfolding prod.case option.case pipealloc_bad_def close_opt_def bindE_Inr
      by (intro pipe_none fr.bind_s [of _ "\<lambda>_. 0" ofs] fr.inr_vs) auto
  next
    case (2 g s2)
    have ne: "f \<noteq> g" using kept_ref [OF k1 f] 2 by auto
    then have g: "g < NFILE" and k2: "kept ((\<lambda>_. 0)(f := 1, g := 1)) ofs me s2" using 2 by (simp_all add: fun_upd_def)
    show ?case unfolding prod.case option.case
    proof (rule fr.bind_vs [OF fr.kalloc_keeps [OF k2]], unfold prod.case, rule safeE_if, goal_cases)
      case (1 pi s3)
      show ?case unfolding pipealloc_bad_def close_opt_def option.case
        by (rule pipe_none [OF close_both [OF 1(2) f g ne]]) auto
    next
      case (2 pi s3)
      then show ?case using f g ne
        by (intro safeE_Inr) (auto simp: pipe_post_def intro!: kept_upd_file fr.K_set_pipe)
    qed
  qed
qed

lemma pipe_undo_typed:
  assumes k: "kept ((\<lambda>_. 0)(f := 1, g := 1)) ofs me (fold (\<lambda>fd. set_ofile me fd None) ds s)"
    and f: "f < NFILE" "g < NFILE" "f \<noteq> g"
  shows "safeE fd_fault_free (pipe_undo e me ds f g s) (on_st (fd_typed me))"
  unfolding pipe_undo_def by (rule typed_frame [OF close_both [OF k f]])

lemma undo_one:
  assumes k: "kept d ofs me s" and fd: "fd < NOFILE" "ofs fd = Some f" and d: "d' = d(f := d f + 1)"
  shows "kept d' (ofs(fd := None)) me (set_ofile me fd None s)"
  using kept_clear [OF k me fd] unfolding d .

lemma sys_pipe_typed:
  assumes t: "fd_typed me s"
  shows "safeE fd_fault_free (sys_pipe e s) (on_st (fd_typed me))"
proof -
  note k = typedD [OF t]
  let ?o = "p_ofile (ptable s me)"
  have c: "thisproc s = Inr me" using k by (simp add: thisproc_def myproc_def kept_def)
  show ?thesis unfolding sys_pipe_def c bindE_Inr
  proof (rule safeE_bind0 [OF fr.argaddr_safe], rule safe_opt [OF pipealloc_bal [OF k, unfolded pipe_post_def]], goal_cases)
    case (1 a s1)
    then show ?case by (auto intro: typed_ret)
  next
    case (2 a q s1)
    obtain f g where q: "q = (f, g)" by (cases q)
    have fg: "f < NFILE" "g < NFILE" "f \<noteq> g" and k1: "kept ((\<lambda>_. 0)(f := 1, g := 1)) ?o me s1"
      using 2 q by (auto simp: fun_upd_def)
    show ?case unfolding q prod.case option.case
    proof (rule safe_opt [OF fdalloc_bal [OF k1 me fg(1), of "(\<lambda>_. 0)(g := 1)"]], use fg in \<open>simp add: fun_eq_iff\<close>, goal_cases)
      case (1 s2)
      then show ?case using pipe_undo_typed [of f g ?o "[]" s1, OF _ fg] k1 by simp
    next
      case (2 fd s2)
      have fd: "fd < NOFILE" and k2: "kept ((\<lambda>_. 0)(g := 1)) (?o(fd := Some f)) me s2"
        using 2 by (auto simp: fun_upd_def)
      show ?case unfolding prod.case option.case
      proof (rule safe_opt [OF fdalloc_bal [OF k2 me fg(2), of "\<lambda>_. 0"]], simp add: fun_eq_iff, goal_cases)
        case (1 s3)
        have "kept ((\<lambda>_. 0)(f := 1, g := 1)) ((?o(fd := Some f))(fd := None)) me (set_ofile me fd None s2)"
          by (rule undo_one [OF k2 fd]) (use fg in \<open>auto simp: fun_eq_iff\<close>)
        then show ?case using pipe_undo_typed [of f g _ "[fd]" s2, OF _ fg] 1 by simp
      next
        case (2 fd' s3)
        have fd': "fd' < NOFILE" "fd' \<noteq> fd" and k3: "kept (\<lambda>_. 0) (?o(fd := Some f, fd' := Some g)) me s3"
          using 2 by (auto simp: fun_upd_def split: if_splits)
        have u: "safeE fd_fault_free (pipe_undo e me [fd, fd'] f g s4) (on_st (fd_typed me))"
          if k4: "kept (\<lambda>_. 0) (?o(fd := Some f, fd' := Some g)) me s4" for s4
        proof -
          have k5: "kept ((\<lambda>_. 0)(f := 1)) ((?o(fd := Some f, fd' := Some g))(fd := None)) me (set_ofile me fd None s4)"
            by (rule undo_one [OF k4 fd]) (use fd' in auto)
          have "kept ((\<lambda>_. 0)(f := 1, g := 1)) ((?o(fd := Some f, fd' := Some g))(fd := None, fd' := None)) me
              (set_ofile me fd' None (set_ofile me fd None s4))"
            by (rule undo_one [OF k5 fd'(1)]) (use fd' fg in \<open>auto simp: fun_eq_iff\<close>)
          then show ?thesis using pipe_undo_typed [of f g _ "[fd, fd']" s4, OF _ fg] by simp
        qed
        show ?case unfolding prod.case option.case by (rule u k3 typed_ret frame fr.code2 | assumption)+
      qed
    qed
  qed
qed

text \<open>The loop of \<^verbatim>\<open>exit\<close> that closes the files.\<close>

lemma exit_file_bal:
  assumes k: "kept (\<lambda>_. 0) ofs me s" and fd: "fd < NOFILE"
  shows "safeE fd_fault_free (exit_file e me fd s) (kept (\<lambda>_. 0) (ofs(fd := None)) me)"
proof (cases "ofs fd")
  case None
  then show ?thesis using k by (auto simp: exit_file_def kept_def safeE_def fun_upd_idem)
next
  case (Some f)
  note kf = kept_fd [OF k me fd Some]
  have u: "exit_file e me fd s = bindE (fileclose e f s) (\<lambda>s1. Inr (set_ofile me fd None s1))"
    using k Some by (auto simp: exit_file_def kept_def)
  have c: "safeE fd_fault_free (fileclose e f s) (kept ((\<lambda>_. 0)(f := - 1)) ofs me)"
    using fileclose_bal [OF k, of f] kf by simp
  show ?thesis unfolding u
    by (rule fr.bind_s [OF c], rule safeE_Inr, rule undo_one [where ofs = ofs and fd = fd and f = f, OF _ fd Some]) (auto simp: fun_eq_iff)
qed

lemma exit_files_bal:
  assumes k: "kept (\<lambda>_. 0) ofs me s" and n: "n \<le> NOFILE"
  shows "safeE fd_fault_free (foldE (exit_file e me) [0..<n] s) (kept (\<lambda>_. 0) (\<lambda>fd. if fd < n then None else ofs fd) me)"
  using n
proof (induction n)
  case 0
  show ?case using k by (simp add: safeE_def)
next
  case (Suc n)
  have o: "(\<lambda>fd. if fd < Suc n then None else ofs fd) = (\<lambda>fd. if fd < n then None else ofs fd)(n := None)" by auto
  show ?case unfolding upt_Suc_append [OF le0] foldE_snoc o
    by (rule fr.bind_s [OF Suc.IH], use Suc.prems in simp, rule exit_file_bal) (use Suc.prems in simp_all)
qed

text \<open>A process that enters the scheduler for the last time has no open files.\<close>

definition exited :: "'z kfile_scheme \<Rightarrow> bool" where
  "exited s \<longleftrightarrow> fd_bal (\<lambda>_. 0) s \<and> p_state (ptable s me) = ZOMBIE \<and> bare (ptable s me)"

lemma zombie_typed:
  assumes k: "kept (\<lambda>_. 0) ofs me s" and o: "\<And>fd. fd < NOFILE \<Longrightarrow> ofs fd = None"
  shows "safeE fd_fault_free (lk_release lk (upd_proc me (\<lambda>x. x\<lparr>p_xstate := st, p_state := ZOMBIE\<rparr>) s)) exited"
proof -
  have b: "bare (ptable s me)" using k o by (auto simp: kept_def bare_def)
  have n: "nrefs (upd_proc me (\<lambda>x. x\<lparr>p_xstate := st, p_state := ZOMBIE\<rparr>) s) = nrefs s" by (rule nrefs_upd_other) simp
  have "fd_bal (\<lambda>_. 0) (upd_proc me (\<lambda>x. x\<lparr>p_xstate := st, p_state := ZOMBIE\<rparr>) s)"
    using k b unfolding kept_def fd_bal_def n by (auto simp: upd_proc_def bare_def)
  then have ex: "exited ((upd_proc me (\<lambda>x. x\<lparr>p_xstate := st, p_state := ZOMBIE\<rparr>) s)\<lparr>held := h\<rparr>)" for h
    using b by (auto simp: exited_def fd_bal_def nrefs_def upd_proc_def bare_def)
  show ?thesis unfolding lk_release_def
    by (rule safeE_if, rule safeE_Inr, rule ex, rule safeE_Inl, simp add: fd_fault_free_def)
qed

lemma exit_typed:
  assumes t: "fd_typed me s"
  shows "safeE fd_fault_free (exit_to_sched e st s) exited"
proof -
  note k = typedD [OF t]
  have c: "thisproc s = Inr me" using k by (simp add: thisproc_def myproc_def kept_def)
  show ?thesis unfolding exit_to_sched_def c bindE_Inr
    by (rule safeE_if, rule safeE_Inl, simp add: fd_fault_free_def, rule fr.bind_s [OF exit_files_bal [OF k order.refl]])
      (rule zombie_typed fr.K_proc frame fr.code2 | assumption | (simp; fail))+
qed

text \<open>
  \<^verbatim>\<open>fork\<close>. Until the files are copied the new slot \<open>np\<close> has no files and is in state \<^verbatim>\<open>USED\<close>; after \<open>n\<close>
  descriptors the ones from \<open>n\<close> on are still empty.
\<close>

definition child :: "nat \<Rightarrow> (nat \<Rightarrow> nat option) \<Rightarrow> nat \<Rightarrow> 'z kfile_scheme \<Rightarrow> bool" where
  "child np ofs n s \<longleftrightarrow> kept (\<lambda>_. 0) ofs me s \<and> p_state (ptable s np) = USED \<and>
     (\<forall>fd<NOFILE. n \<le> fd \<longrightarrow> p_ofile (ptable s np) fd = None)"

lemma child_frame: "mem_frame (child np ofs n) fd_fault_free"
  by unfold_locales (auto simp: child_def fd_fault_free_def intro: fr.K_pmem fr.K_freelist)

lemma child_upd: "(\<And>p. p_ofile (f p) = p_ofile p) \<Longrightarrow> (\<And>p. p_state (f p) = p_state p) \<Longrightarrow> child np ofs n s \<Longrightarrow> child np ofs n (upd_proc np f s)"
  unfolding child_def using fr.K_proc [of f "\<lambda>_. 0" ofs s np] by (simp add: upd_proc_def)

lemma child_kept: "child np ofs n s \<Longrightarrow> kept (\<lambda>_. 0) ofs me s"
  by (simp add: child_def)

lemma child_bare: "child np ofs 0 s \<Longrightarrow> bare (ptable s np)"
  by (simp add: child_def bare_def)

lemma fork_file_bal:
  assumes c: "child np ofs n s" and np: "np < NPROC" "np \<noteq> me" and n: "n < NOFILE"
  shows "safeE fd_fault_free (fork_file me np n s) (child np ofs (Suc n))"
proof (cases "ofs n")
  case None
  then show ?thesis using c by (auto simp: fork_file_def child_def kept_def safeE_def)
next
  case (Some f)
  have k: "kept (\<lambda>_. 0) ofs me s" using c by (rule child_kept)
  note kf = kept_fd [OF k me n Some]
  have u: "fork_file me np n s = bindE (filedup f s) (\<lambda>(g, s1). Inr (set_ofile np n (Some g) s1))"
    using k Some by (auto simp: fork_file_def kept_def)
  have dup: "safeE fd_fault_free (filedup f s) (\<lambda>r. fst r = f \<and> kept ((\<lambda>_. 0)(f := 1)) ofs me (snd r) \<and> ptable (snd r) = ptable s)"
    using filedup_bal [OF k, of f] kf nrefs_le [of s f] by simp
  have "child np ofs (Suc n) (set_ofile np n (Some f) s1)" if k1: "kept ((\<lambda>_. 0)(f := 1)) ofs me s1" and p: "ptable s1 = ptable s" for s1
  proof -
    have e: "p_ofile (ptable s1 np) n = None" "p_state (ptable s1 np) = USED" using c n p by (auto simp: child_def)
    have "(\<lambda>g. ((\<lambda>_. 0)(f := 1)) g + of_bool (p_ofile (ptable s1 np) n = Some g) - of_bool (Some f = Some g)) = (\<lambda>_. 0 :: int)"
      using e by auto
    then have "kept (\<lambda>_. 0) ofs me (set_ofile np n (Some f) s1)"
      using kept_set_ofile [OF k1 n np(1), of "Some f"] kf(1) e np(2) by simp
    then show ?thesis using c p by (auto simp: child_def set_ofile_def upd_proc_def)
  qed
  then show ?thesis unfolding u by (intro safeE_bind [OF dup]) (auto intro!: safeE_Inr split: prod.splits)
qed

lemma fork_files_bal:
  assumes c: "child np ofs 0 s" and np: "np < NPROC" "np \<noteq> me" and n: "n \<le> NOFILE"
  shows "safeE fd_fault_free (foldE (fork_file me np) [0..<n] s) (child np ofs n)"
  using n
proof (induction n)
  case 0
  show ?case using c by (simp add: safeE_def)
next
  case (Suc n)
  show ?case unfolding upt_Suc_append [OF le0] foldE_snoc
    by (rule safeE_bind [OF Suc.IH], use Suc.prems in simp, rule fork_file_bal [OF _ np]) (use Suc.prems in simp_all)
qed

lemma alloc_post:
  assumes k: "kept (\<lambda>_. 0) ofs me s"
  shows "safeE fd_fault_free (allocproc s) (\<lambda>r. case fst r of None \<Rightarrow> kept (\<lambda>_. 0) ofs me (snd r)
    | Some np \<Rightarrow> np < NPROC \<and> np \<noteq> me \<and> child np ofs 0 (snd r))"
  using fr.allocproc_keeps [OF k] allocproc_used [of s]
  by (cases "allocproc s") (auto simp: safeE_def fr.got_slot_def child_def bare_def split: option.splits)

lemma tf_store_child: "child np ofs n s \<Longrightarrow> child np ofs n (tf_store i r v s)"
  unfolding tf_store_def by (rule mem_frame.K_pmem [OF child_frame])

lemma fork_typed:
  fixes s :: "'z kfile_scheme"
  assumes t: "fd_typed me s"
  shows "safeE fd_fault_free (fork s) (on_st (fd_typed me))"
proof -
  note k = typedD [OF t]
  have c: "thisproc s = Inr me" using k by (simp add: thisproc_def myproc_def kept_def)
  show ?thesis unfolding fork_def c bindE_Inr
  proof (rule safe_opt [OF alloc_post [OF k]], goal_cases)
    case (1 s1)
    then show ?case by (auto intro: typed_ret)
  next
    case (2 np s1)
    then have np: "np < NPROC" "np \<noteq> me" and c1: "child np (p_ofile (ptable s me)) 0 s1" by auto
    show ?case unfolding prod.case option.case
    proof (rule mem_frame.bind_vs [OF child_frame mem_frame.uvmcopy_keeps [OF child_frame c1]], unfold prod.case,
        rule safeE_if, goal_cases)
      case (1 r s2)
      have b: "bare (ptable s2 np) \<and> np \<noteq> me" using child_bare [OF 1(2)] np by simp
      show ?case by (rule typed_frame) (rule b child_kept [OF 1(2)] frame fr.code2 | assumption)+
    next
      case (2 r s2)
      show ?case unfolding Let_def
        by (rule safeE_bind [OF fork_files_bal [OF _ np order.refl]],
            (rule tf_store_child mem_frame.K_pmem [OF child_frame] child_upd 2(2) | (simp; fail))+,
            drule child_kept, rule typed_frame)
          (rule frame fr.code2 fr.K_proc | assumption | (simp; fail))+
    qed
  qed
qed

lemma sched_safe: "safeE fd_fault_free (sched E s) (\<lambda>_. True)"
  unfolding sched_def Let_def thisproc_def by (auto simp: safeE_def fd_fault_free_def split: option.splits)

lemma sys_exit_typed: "fd_typed me s \<Longrightarrow> safeE fd_fault_free (sys_exit e s) (on_st (fd_typed me))"
  unfolding sys_exit_def exit_def bindE_assoc
  by (rule safeE_bind0 [OF fr.argint_safe], rule safeE_bind [OF exit_typed], assumption, rule safeE_bind [OF sched_safe])
    (simp add: safeE_def fd_fault_free_def)

lemma sys_fork_typed:
  fixes s :: "'z kfile_scheme"
  shows "fd_typed me s \<Longrightarrow> safeE fd_fault_free (sys_fork s) (on_st (fd_typed me))"
  unfolding sys_fork_def by (rule safeE_bind [OF fork_typed]) (auto simp: on_st_def safeE_def)

lemmas handlers = sys_exit_typed sys_fork_typed sys_pipe_typed sys_open_typed sys_dup_typed sys_close_typed
  typed_frame [OF fr.sys_wait_keeps [OF typedD]] typed_frame [OF fr.sys_read_keeps [OF typedD]]
  typed_frame [OF fr.sys_kill_keeps [OF typedD]] typed_frame [OF fr.sys_exec_keeps [OF typedD]]
  typed_frame [OF fr.sys_fstat_keeps [OF typedD]] typed_frame [OF fr.sys_chdir_keeps [OF typedD]]
  typed_frame [OF fr.sys_getpid_keeps [OF typedD]] typed_frame [OF fr.sys_sbrk_keeps [OF typedD]]
  typed_frame [OF fr.sys_sleep_keeps [OF typedD]] typed_frame [OF fr.sys_uptime_keeps [OF typedD]]
  typed_frame [OF fr.sys_write_keeps [OF typedD]] typed_frame [OF fr.sys_mknod_keeps [OF typedD]]
  typed_frame [OF fr.sys_unlink_keeps [OF typedD]] typed_frame [OF fr.sys_link_keeps [OF typedD]]
  typed_frame [OF fr.sys_mkdir_keeps [OF typedD]] typed_frame [OF fr.sys_ps_keeps [OF typedD]]
  typed_frame [OF fr.sys_schedls_keeps [OF typedD]] typed_frame [OF fr.sys_schedset_keeps [OF typedD]]

lemma handler_typed:
  "syscalls e pad junk n = Some h \<Longrightarrow> fd_typed me s \<Longrightarrow> safeE fd_fault_free (h s) (on_st (fd_typed me))"
  unfolding syscalls_def by (auto split: if_splits intro: handlers)

lemma typed_tf_store: "fd_typed me s \<Longrightarrow> fd_typed me (tf_store p r v (s :: 'z kfile_scheme))"
  by (rule typedI) (rule fr.K_tf_store [OF typedD])

lemma syscall_typed: "fd_typed me s \<Longrightarrow> safeE fd_fault_free (syscall e pad junk s) (fd_typed me)"
  unfolding syscall_def Let_def
  apply (rule safeE_bind0 [OF fr.thisproc_safe], rule safeE_option)
  subgoal by (rule fr.bind_s [OF fr.printf_keeps [OF typedD]], assumption, rule safeE_Inr, rule typed_tf_store, rule typedI)
  subgoal for p h
    by (rule safeE_bind [OF handler_typed]) (auto split: if_splits simp: on_st_def intro!: safeE_Inr typed_tf_store)
  done

end

section \<open>An environment\<close>

text \<open>A clock tick wakes the sleepers, then this process runs again.\<close>

definition tick_env :: "nat \<Rightarrow> 'z kfile_scheme \<Rightarrow> 'z kfile_scheme" where
  "tick_env me s = (case wakeup C_ticks s of Inl _ \<Rightarrow> s | Inr s1 \<Rightarrow> upd_proc me (\<lambda>p. p\<lparr>p_state := RUNNING\<rparr>) s1)"

lemma fds_id: "me < NPROC \<Longrightarrow> fds (n, \<lambda>s. s) me"
  by unfold_locales (simp_all add: fd_env_def)

lemma tick_env_ok: "me < NPROC \<Longrightarrow> fd_env me (n, tick_env me)"
  unfolding fd_env_def
proof (intro allI impI)
  fix d ofs and s :: "'z kfile_scheme"
  assume me: "me < NPROC" and k: "kept d ofs me s"
  have "safeE fd_fault_free (wakeup C_ticks s) (kept d ofs me)"
    by (rule fd_frame.wakeup_keeps [OF fds.kept_frame [OF fds_id [OF me]] k])
  then show "kept d ofs me (snd (n, tick_env me) s)"
    using k by (auto simp: tick_env_def safeE_def split: sum.splits intro!: kept_upd_proc)
qed

interpretation init_clock: fds "(n, tick_env 0)" 0
  by unfold_locales (simp_all add: tick_env_ok NPROC_def)

section \<open>The property\<close>

text \<open>C5: Open files are counted exactly. In every state in which the reference count of each entry of
  the file table is the number of descriptors referring to it, every descriptor refers to an entry
  of the table and unused and zombie slots have no descriptors, each of the 24 system calls, an
  unknown number and \<^verbatim>\<open>exit\<close> up to its switch to the scheduler leave such a state, on every path,
  error paths included; an exited process has no descriptors left; and none of them ends in the
  panics of \<^verbatim>\<open>filedup\<close> and \<^verbatim>\<open>fileclose\<close>. What other processes do while a call waits has to keep the counts too.\<close>

theorem fd_counts_exact:
  assumes "fd_env me e" and "me < NPROC" and "fd_typed me s"
  shows "(case syscall e pad junk s of Inr s' \<Rightarrow> fd_typed me s'
      | Inl f \<Rightarrow> f \<noteq> Panic ''filedup'' \<and> f \<noteq> Panic ''fileclose'') \<and>
    (case exit_to_sched e st s of Inr s' \<Rightarrow> fd_bal (\<lambda>_. 0) s' \<and> p_state (ptable s' me) = ZOMBIE \<and> bare (ptable s' me)
      | Inl f \<Rightarrow> f \<noteq> Panic ''filedup'' \<and> f \<noteq> Panic ''fileclose'')"
proof -
  have f: "fds e me" by unfold_locales (rule assms)+
  show ?thesis using fds.syscall_typed [OF f assms(3), of pad junk] fds.exit_typed [OF f assms(3), of st]
    by (simp add: safeE_def fd_fault_free_def fds.exited_def [OF f] split: sum.splits)
qed

text \<open>Process 0 has file 0 open as descriptor 0 and calls \<^verbatim>\<open>dup(0)\<close>.\<close>

definition kfile0 :: kfile where
  "kfile0 = (kcons.extend kcons0 (kfile.fields (\<lambda>f. \<lparr>f_type = FD_NONE, f_ref = (if f = 0 then 1 else 0), f_readable = False,
       f_writable = False, f_pipe = 0, f_ip = None, f_off = 0, f_major = 0\<rparr>)))
     \<lparr>ptable := (\<lambda>i. (proc_at i)\<lparr>p_state := (if i = 0 then RUNNING else UNUSED),
        p_ofile := (\<lambda>fd. if i = 0 \<and> fd = 0 then Some 0 else None), p_trapframe := 0x80060000\<rparr>),
      pmem := (\<lambda>a. if a = 0x800600A8 then 10 else 0)\<rparr>"

lemma kfile0_typed: "fd_typed 0 kfile0"
proof -
  have "nrefs kfile0 f = of_bool (f = 0)" for f
  proof -
    have "nrefs kfile0 f = (\<Sum>i<NPROC. \<Sum>fd<NOFILE. (if i = 0 then if fd = 0 then of_bool (f = 0) else 0 else 0))"
      unfolding nrefs_def by (intro sum.cong refl) (simp add: kfile0_def)
    also have "\<dots> = (\<Sum>i<NPROC. if i = 0 then of_bool (f = 0) else 0)"
      by (intro sum.cong refl) (simp add: NOFILE_def)
    finally show ?thesis by (simp add: NPROC_def)
  qed
  then show ?thesis
    by (auto simp: fd_typed_def fd_bal_def bare_def kfile0_def NFILE_def kcons.defs kfile.defs kcons0_def)
qed

lemma kfile0_fields:
  "cur kfile0 = Some 0" "held kfile0 = []" "ftable kfile0 0 = \<lparr>f_type = FD_NONE, f_ref = 1, f_readable = False,
     f_writable = False, f_pipe = 0, f_ip = None, f_off = 0, f_major = 0\<rparr>"
  "p_ofile (ptable kfile0 0) fd = (if fd = 0 then Some 0 else None)" "tf_load 0 TF_a7 kfile0 = 10" "tf_load 0 TF_a0 kfile0 = 0"
  by (simp_all add: kfile0_def kcons.defs kfile.defs kcons0_def tf_load_def load64_def)

lemma kfile0_dup: "\<exists>s'. syscall (0, tick_env 0) [] [] kfile0 = Inr s' \<and> f_ref (ftable s' 0) = 2 \<and> p_ofile (ptable s' 0) 1 = Some 0"
proof -
  have t: "thisproc kfile0 = Inr 0" by (simp add: thisproc_def myproc_def kfile0_fields)
  have a: "argfd 0 kfile0 = Inr (Some (0, 0))"
    by (simp add: argfd_def argint_def argraw_def t kfile0_fields NOFILE_def)
  have n: "[0..<NOFILE] = 0 # 1 # [2..<NOFILE]" by (simp add: NOFILE_def upt_conv_Cons)
  have f: "fdalloc 0 kfile0 = Inr (Some 1, set_ofile 0 1 (Some 0) kfile0)"
    unfolding fdalloc_def t n by (simp add: kfile0_fields)
  have d: "sys_dup kfile0 = Inr (1, (upd_file 0 (\<lambda>x. x\<lparr>f_ref := f_ref x + 1\<rparr>) (set_ofile 0 1 (Some 0) kfile0))\<lparr>held := []\<rparr>)"
    unfolding sys_dup_def a by (simp add: f filedup_def lk_acquire_def lk_release_def set_ofile_def upd_proc_def kfile0_fields upd_file_def word_sless_alt)
  have h: "syscalls (0, tick_env 0) [] [] 10 = Some sys_dup" by (simp add: syscalls_def SYS_defs)
  have "syscall (0, tick_env 0) [] [] kfile0 = Inr (tf_store 0 TF_a0 1
      ((upd_file 0 (\<lambda>x. x\<lparr>f_ref := f_ref x + 1\<rparr>) (set_ofile 0 1 (Some 0) kfile0))\<lparr>held := []\<rparr>))"
    unfolding syscall_def t by (simp add: kfile0_fields h NSYSCALLS_def d)
  then show ?thesis by (simp add: tf_store_def set_ofile_def upd_proc_def upd_file_def kfile0_fields)
qed

theorem fd_counts_exact_witness:
  "\<exists>s'. syscall (0, tick_env 0) [] [] kfile0 = Inr s' \<and> fd_typed 0 s' \<and> f_ref (ftable s' 0) = 2 \<and> p_ofile (ptable s' 0) 1 = Some 0"
proof -
  obtain s' where "syscall (0, tick_env 0) [] [] kfile0 = Inr s'" "f_ref (ftable s' 0) = 2" "p_ofile (ptable s' 0) 1 = Some 0"
    using kfile0_dup by blast
  then show ?thesis
    using fd_counts_exact [OF tick_env_ok [of 0 0] _ kfile0_typed, of "[]" "[]"] by (auto simp: NPROC_def)
qed

end
