(* ===== verification/Virtiospec.thy ===== *)
theory Virtiospec
  imports Virtio Consline
begin

text \<open>
  The driver of \<open>Virtio\<close> implements the transfers the buffer cache is verified against. The device is
  a parameter \<open>D\<close>: the hypothesis \<open>vdev_ok D\<close> says what the virtio specification says of a block
  device with one request pending, a chain of a request header, a data buffer and a status byte.
  While the driver sleeps, the device serves the request and the interrupt handler runs
  (\<open>vintr_env\<close>).
\<close>

section \<open>The device\<close>

text \<open>The chain from \<open>h\<close> is a request for sector \<open>sec\<close> with the data of buffer \<open>b\<close> and status byte \<open>k\<close>.\<close>

definition vchain :: "vdisk \<Rightarrow> nat \<Rightarrow> nat \<Rightarrow> bool \<Rightarrow> u64 \<Rightarrow> nat \<Rightarrow> bool" where
  "vchain d h b w sec k \<longleftrightarrow>
     (\<exists>i1 i2. v_desc d h = \<lparr>vq_addr = A_op h, vq_len = 16, vq_flags = VRING_DESC_F_NEXT, vq_next = i1\<rparr> \<and>
        v_ops d h = \<lparr>vr_type = if w then VIRTIO_BLK_T_OUT else VIRTIO_BLK_T_IN, vr_reserved = 0, vr_sector = sec\<rparr> \<and>
        v_desc d (unat i1) = \<lparr>vq_addr = A_data b, vq_len = of_nat BSIZE,
          vq_flags = (if w then 0 else VRING_DESC_F_WRITE) OR VRING_DESC_F_NEXT, vq_next = i2\<rparr> \<and>
        v_desc d (unat i2) = \<lparr>vq_addr = A_status k, vq_len = 1, vq_flags = VRING_DESC_F_WRITE, vq_next = 0\<rparr>)"

text \<open>The transfer of the two sectors from \<open>sec\<close>, which is even, to or from the buffer.\<close>

definition vtransfer :: "bool \<Rightarrow> u64 \<Rightarrow> nat \<Rightarrow> 'z kbuf_scheme \<Rightarrow> 'z kbuf_scheme" where
  "vtransfer w sec b s =
     (let n = ucast (sec div 2) :: u32 in
      if w then s\<lparr>disk := (disk s)(n := b_data (bcache s b)), dwrites := dwrites s @ [(n, b_data (bcache s b))]\<rparr>
      else upd_buf b (\<lambda>x. x\<lparr>b_data := disk s n\<rparr>) s)"

definition vdone :: "nat \<Rightarrow> nat \<Rightarrow> vdisk \<Rightarrow> vdisk" where
  "vdone h k d = d\<lparr>v_status := (v_status d)(k := 0),
     v_used_ring := (v_used_ring d)(unat (v_dev_idx d) mod NUM := of_nat h), v_dev_idx := v_dev_idx d + 1\<rparr>"

definition vhead :: "vdisk \<Rightarrow> nat" where
  "vhead d = unat (v_avail_ring d (unat (v_dev_idx d) mod NUM))"

definition vdev_ok :: "('z kvirt_scheme \<Rightarrow> 'z kvirt_scheme) \<Rightarrow> bool" where
  "vdev_ok D \<longleftrightarrow> (\<forall>s b w sec k. v_avail_idx (vd s) = v_dev_idx (vd s) + 1 \<longrightarrow> even (unat sec) \<longrightarrow>
     vchain (vd s) (vhead (vd s)) b w sec k \<longrightarrow>
     D s = upd_vd (vdone (vhead (vd s)) k) (vtransfer w sec b s))"

text \<open>The handler runs on another CPU, with no locks held there and no process.\<close>

definition vintr_env ::
  "((nat \<times> u32) list \<Rightarrow> nat \<Rightarrow> u32) \<Rightarrow> ('z kvirt_scheme \<Rightarrow> 'z kvirt_scheme) \<Rightarrow> nat \<Rightarrow> 'z kvirt_scheme \<Rightarrow> 'z kvirt_scheme" where
  "vintr_env rd D me s =
     (case virtio_disk_intr rd ((D s)\<lparr>held := [], cur := None\<rparr>) of
        Inl _ \<Rightarrow> s
      | Inr s1 \<Rightarrow> upd_proc me (\<lambda>p. p\<lparr>p_state := RUNNING\<rparr>) (s1\<lparr>held := held s, cur := cur s\<rparr>))"

text \<open>No request in flight.\<close>

definition vd_quiet :: "vdisk \<Rightarrow> bool" where
  "vd_quiet d \<longleftrightarrow> (\<forall>i<NUM. v_free d i) \<and> v_used_idx d = v_dev_idx d \<and> v_avail_idx d = v_dev_idx d"

section \<open>Steps of a request\<close>

lemma alloc3_all_free:
  assumes "\<forall>i<NUM. v_free (vd s) i"
  shows "alloc3_desc s = Inr (Some (0, 1, 2), upd_vd (\<lambda>d. d\<lparr>v_free := (v_free d)(0 := False, 1 := False, 2 := False)\<rparr>) s)"
proof -
  have n: "[0..<NUM] = [0, 1, 2] @ [3..<NUM]" by (simp add: NUM_def upt_conv_Cons)
  have f: "v_free (vd s) 0" "v_free (vd s) 1" "v_free (vd s) 2" using assms by (auto simp: NUM_def)
  show ?thesis unfolding alloc3_desc_def alloc_desc_def n using f by (simp add: upd_vd_def)
qed

lemma wakeup_free: "\<forall>i < NPROC. L_proc i \<notin> set (held s) \<Longrightarrow> \<exists>t. wakeup ch s = Inr (s\<lparr>ptable := t\<rparr>)"
  using wakeup_eq [of s ch] by (auto simp: map_procs_def)

text \<open>The interrupt for one served request.\<close>

lemma intr_one:
  assumes u: "held u = []" "cur u = None" and idx: "v_dev_idx (vd u) = v_used_idx (vd u) + 1"
    and ring: "v_used_ring (vd u) (unat (v_used_idx (vd u)) mod NUM) = 0"
    and st: "v_status (vd u) 0 = 0" and info: "v_info_b (vd u) 0 = Some b"
  shows "\<exists>p wr. virtio_disk_intr rd u = Inr ((upd_buf b (\<lambda>x. x\<lparr>b_disk := False\<rparr>) u)
    \<lparr>ptable := p, vd := (vd u)\<lparr>v_writes := wr, v_used_idx := v_used_idx (vd u) + 1\<rparr>\<rparr>)"
proof -
  define s2 where "s2 = write_R VIRTIO_MMIO_INTERRUPT_ACK
    (rd (v_writes (vd u)) VIRTIO_MMIO_INTERRUPT_STATUS AND 3) (u\<lparr>held := [L_vdisk]\<rparr>)"
  have n: "unat (v_dev_idx (vd s2) - v_used_idx (vd s2)) = Suc 0"
    using idx by (simp add: s2_def write_R_def upd_vd_def)
  have h: "\<forall>i < NPROC. L_proc i \<notin> set (held (upd_buf b (\<lambda>x. x\<lparr>b_disk := False\<rparr>) s2))"
    by (simp add: s2_def write_R_def upd_vd_def upd_buf_def)
  obtain p where w: "wakeup (C_buf b) (upd_buf b (\<lambda>x. x\<lparr>b_disk := False\<rparr>) s2) =
      Inr ((upd_buf b (\<lambda>x. x\<lparr>b_disk := False\<rparr>) s2)\<lparr>ptable := p\<rparr>)"
    using wakeup_free [OF h] by blast
  have ne: "v_used_idx (vd u) \<noteq> v_used_idx (vd u) + 1" by simp
  have l: "virtio_intr_loop (Suc 0) s2 = Inr (upd_vd (\<lambda>d. d\<lparr>v_used_idx := v_used_idx d + 1\<rparr>)
      ((upd_buf b (\<lambda>x. x\<lparr>b_disk := False\<rparr>) s2)\<lparr>ptable := p\<rparr>))"
    using idx ring st info w ne by (simp add: s2_def write_R_def upd_vd_def NUM_def)
  have "virtio_disk_intr rd u = Inr ((upd_vd (\<lambda>d. d\<lparr>v_used_idx := v_used_idx d + 1\<rparr>)
      ((upd_buf b (\<lambda>x. x\<lparr>b_disk := False\<rparr>) s2)\<lparr>ptable := p\<rparr>))\<lparr>held := []\<rparr>)"
    using u l n unfolding virtio_disk_intr_def
    by (simp add: lk_acquire_def lk_release_def s2_def [symmetric] Let_def)
      (simp add: s2_def write_R_def upd_vd_def upd_buf_def)
  then show ?thesis using u
    by (intro exI [of _ p] exI [of _ "v_writes (vd s2)"])
      (auto simp: s2_def write_R_def upd_vd_def upd_buf_def intro!: kvirt.equality)
qed

lemma intr_env_eq:
  assumes D: "vdev_ok D" and ev: "even (unat sec)" and ch: "vchain (vd u) 0 b w sec 0" and hd: "vhead (vd u) = 0"
    and idx: "v_avail_idx (vd u) = v_dev_idx (vd u) + 1" "v_used_idx (vd u) = v_dev_idx (vd u)"
    and info: "v_info_b (vd u) 0 = Some b"
  shows "\<exists>p wr. vintr_env rd D me u = (upd_buf b (\<lambda>x. x\<lparr>b_disk := False\<rparr>) (vtransfer w sec b u))
    \<lparr>ptable := p, vd := (vdone 0 0 (vd u))\<lparr>v_writes := wr, v_used_idx := v_used_idx (vd u) + 1\<rparr>\<rparr>"
proof -
  have d: "D u = upd_vd (vdone 0 0) (vtransfer w sec b u)"
    using D idx(1) ev ch hd unfolding vdev_ok_def by metis
  let ?u = "(D u)\<lparr>held := [], cur := None\<rparr>"
  have v: "vd (vtransfer w sec b u) = vd u" by (simp add: vtransfer_def Let_def upd_buf_def)
  have "\<exists>p wr. virtio_disk_intr rd ?u = Inr ((upd_buf b (\<lambda>x. x\<lparr>b_disk := False\<rparr>) ?u)
    \<lparr>ptable := p, vd := (vd ?u)\<lparr>v_writes := wr, v_used_idx := v_used_idx (vd ?u) + 1\<rparr>\<rparr>)"
    by (rule intr_one) (use idx info in \<open>simp_all add: d upd_vd_def v vdone_def\<close>)
  then obtain p wr where "virtio_disk_intr rd ?u = Inr ((upd_buf b (\<lambda>x. x\<lparr>b_disk := False\<rparr>) ?u)
    \<lparr>ptable := p, vd := (vd ?u)\<lparr>v_writes := wr, v_used_idx := v_used_idx (vd ?u) + 1\<rparr>\<rparr>)" by blast
  then show ?thesis unfolding vintr_env_def
    by (intro exI [of _ "p(me := (p me)\<lparr>p_state := RUNNING\<rparr>)"] exI [of _ wr])
      (auto simp: d upd_vd_def v upd_proc_def upd_buf_def vdone_def vtransfer_def Let_def intro!: kvirt.equality)
qed

lemma free_desc_eq:
  assumes "i < NUM" "\<not> v_free (vd s) i" "held s = [L_vdisk]"
  shows "\<exists>p. free_desc i s = Inr (s\<lparr>ptable := p, vd := (vd s)\<lparr>v_desc := (v_desc (vd s))(i := zero_desc), v_free := (v_free (vd s))(i := True)\<rparr>\<rparr>)"
proof -
  let ?u = "upd_vd (\<lambda>d. d\<lparr>v_desc := (v_desc d)(i := zero_desc), v_free := (v_free d)(i := True)\<rparr>) s"
  have "\<forall>i < NPROC. L_proc i \<notin> set (held ?u)" using assms by (simp add: upd_vd_def)
  then obtain p where "wakeup C_disk ?u = Inr (?u\<lparr>ptable := p\<rparr>)" using wakeup_free by blast
  then show ?thesis using assms by (intro exI [of _ p]) (simp add: free_desc_def upd_vd_def)
qed

text \<open>The three descriptors of a request are given back, whatever their other fields.\<close>

lemma free_chain_eq:
  assumes f: "\<not> v_free (vd s) 0" "\<not> v_free (vd s) 1" "\<not> v_free (vd s) 2" and h: "held s = [L_vdisk]"
    and d0: "vq_flags (v_desc (vd s) 0) AND VRING_DESC_F_NEXT \<noteq> 0" "vq_next (v_desc (vd s) 0) = 1"
    and d1: "vq_flags (v_desc (vd s) 1) AND VRING_DESC_F_NEXT \<noteq> 0" "vq_next (v_desc (vd s) 1) = 2"
    and d2: "vq_flags (v_desc (vd s) 2) AND VRING_DESC_F_NEXT = 0"
  shows "\<exists>p. free_chain 0 s = Inr (s\<lparr>ptable := p, vd := (vd s)\<lparr>v_desc := (v_desc (vd s))(0 := zero_desc, 1 := zero_desc, 2 := zero_desc),
    v_free := (v_free (vd s))(0 := True, 1 := True, 2 := True)\<rparr>\<rparr>)"
proof -
  define v1 where "v1 = (vd s)\<lparr>v_desc := (v_desc (vd s))(0 := zero_desc), v_free := (v_free (vd s))(0 := True)\<rparr>"
  define v2 where "v2 = v1\<lparr>v_desc := (v_desc v1)(1 := zero_desc), v_free := (v_free v1)(1 := True)\<rparr>"
  define v3 where "v3 = v2\<lparr>v_desc := (v_desc v2)(2 := zero_desc), v_free := (v_free v2)(2 := True)\<rparr>"
  obtain p1 where 1: "free_desc 0 s = Inr (s\<lparr>ptable := p1, vd := v1\<rparr>)"
    using free_desc_eq [of 0 s] f h unfolding v1_def by (auto simp: NUM_def)
  obtain p2 where 2: "free_desc 1 (s\<lparr>ptable := p1, vd := v1\<rparr>) = Inr (s\<lparr>ptable := p2, vd := v2\<rparr>)"
    using free_desc_eq [of 1 "s\<lparr>ptable := p1, vd := v1\<rparr>"] f h unfolding v2_def v1_def by (auto simp: NUM_def)
  obtain p3 where 3: "free_desc 2 (s\<lparr>ptable := p2, vd := v2\<rparr>) = Inr (s\<lparr>ptable := p3, vd := v3\<rparr>)"
    using free_desc_eq [of 2 "s\<lparr>ptable := p2, vd := v2\<rparr>"] f h unfolding v3_def v2_def v1_def by (auto simp: NUM_def)
  obtain k where n: "Suc NUM = Suc (Suc (Suc k))" by (simp add: NUM_def)
  have e1: "v_desc v1 1 = v_desc (vd s) 1" by (simp add: v1_def)
  have e2: "v_desc v2 2 = v_desc (vd s) 2" by (simp add: v2_def v1_def)
  have "free_chain 0 s = Inr (s\<lparr>ptable := p3, vd := v3\<rparr>)"
    unfolding free_chain_def n using d0 d1 d2 1 2 3 e1 e2 by (simp add: Let_def)
  then show ?thesis by (intro exI [of _ p3]) (simp add: v3_def v2_def v1_def)
qed

text \<open>The wait: one sleep, in which the device serves the request and the handler clears \<open>disk\<close>.\<close>

lemma virtio_wait_served:
  assumes D: "vdev_ok D" and ev: "even (unat sec)" and ch: "vchain (vd s) 0 b w sec 0" and hd: "vhead (vd s) = 0"
    and idx: "v_avail_idx (vd s) = v_dev_idx (vd s) + 1" "v_used_idx (vd s) = v_dev_idx (vd s)"
    and info: "v_info_b (vd s) 0 = Some b" and bd: "b_disk (bcache s b)"
    and me: "cur s = Some me" "held s = [L_vdisk]"
  shows "\<exists>p n wr. virtio_wait (Suc (Suc k)) (vintr_env rd D me) b s =
    Inr ((upd_buf b (\<lambda>x. x\<lparr>b_disk := False\<rparr>) (vtransfer w sec b s))
      \<lparr>ptable := p, nswitch := n, vd := (vdone 0 0 (vd s))\<lparr>v_writes := wr, v_used_idx := v_used_idx (vd s) + 1\<rparr>\<rparr>)"
proof -
  define u where "u = switched_out me (C_buf b) s"
  have u: "vd u = vd s" by (simp add: u_def switched_out_def map_procs_def upd_proc_def)
  obtain p wr where e: "vintr_env rd D me u = (upd_buf b (\<lambda>x. x\<lparr>b_disk := False\<rparr>) (vtransfer w sec b u))
    \<lparr>ptable := p, vd := (vdone 0 0 (vd s))\<lparr>v_writes := wr, v_used_idx := v_used_idx (vd s) + 1\<rparr>\<rparr>"
    using intr_env_eq [OF D ev, of u b w rd me] ch hd idx info unfolding u by blast
  have "held (vintr_env rd D me u) = [L_proc me]"
    unfolding e by (simp add: vtransfer_def Let_def upd_buf_def u_def switched_out_sel)
  from sleep_eq [where E = "vintr_env rd D me" and ch = "C_buf b", OF me _ this [unfolded u_def]]
  have sl: "sleep (vintr_env rd D me) (C_buf b) L_vdisk s =
      Inr ((upd_proc me (\<lambda>p. p\<lparr>p_chan := C_null\<rparr>) (vintr_env rd D me u))\<lparr>held := [L_vdisk]\<rparr>)"
    by (simp add: u_def)
  have "\<not> b_disk (bcache (vintr_env rd D me u) b)"
    unfolding e by (simp add: upd_buf_def)
  then have "virtio_wait (Suc (Suc k)) (vintr_env rd D me) b s =
      Inr ((upd_proc me (\<lambda>p. p\<lparr>p_chan := C_null\<rparr>) (vintr_env rd D me u))\<lparr>held := [L_vdisk]\<rparr>)"
    using bd sl by (simp add: upd_proc_def)
  then show ?thesis using me unfolding e
    by (intro exI [of _ "p(me := (p me)\<lparr>p_chan := C_null\<rparr>)"] exI [of _ "nswitch u"] exI [of _ wr])
      (auto simp: u_def switched_out_def map_procs_def upd_proc_def upd_buf_def vtransfer_def Let_def intro!: kvirt.equality)
qed

text \<open>Below \<open>2\<^sup>3\<^sup>1\<close> the product that gives the sector does not wrap.\<close>

lemma sector_of_block:
  assumes "unat (n :: u32) < 2 ^ 31"
  shows "even (unat (ucast (n * of_nat (BSIZE div 512)) :: u64))" "(ucast ((ucast (n * of_nat (BSIZE div 512)) :: u64) div 2) :: u32) = n"
proof -
  have "unat (n * of_nat (BSIZE div 512)) = 2 * unat n"
    using assms by (simp add: BSIZE_def unat_word_ariths)
  moreover have up: "unat (ucast x :: u64) = unat x" for x :: u32
    using unsigned_less [of x, where 'a = nat] by (simp add: unsigned_ucast_eq take_bit_nat_eq_self)
  ultimately have u: "unat (ucast (n * of_nat (BSIZE div 512)) :: u64) = 2 * unat n" by simp
  then show "even (unat (ucast (n * of_nat (BSIZE div 512)) :: u64))" by simp
  have "unat ((ucast (n * of_nat (BSIZE div 512)) :: u64) div 2) = unat n" using u by (simp add: unat_div)
  then show "(ucast ((ucast (n * of_nat (BSIZE div 512)) :: u64) div 2) :: u32) = n"
    by (subst word_unat_eq_iff) (simp add: unsigned_ucast_eq take_bit_nat_eq_self unsigned_less [of n, where 'a = nat, simplified])
qed

lemma transfer_is_disk_rw:
  assumes "\<not> b_disk (bcache s b)" "ucast (sec div 2) = b_blockno (bcache s b)"
  shows "upd_buf b (\<lambda>x. x\<lparr>b_disk := False\<rparr>) (vtransfer w sec b ((upd_buf b (\<lambda>x. x\<lparr>b_disk := True\<rparr>) s)\<lparr>held := h, vd := v\<rparr>)) =
    (disk_rw b w s)\<lparr>held := h, vd := v\<rparr>"
proof -
  have 1: "(bcache s b)\<lparr>b_disk := False\<rparr> = bcache s b" using assms(1) by (simp add: buf.equality)
  have 2: "(bcache s b)\<lparr>b_data := x, b_disk := False\<rparr> = (bcache s b)\<lparr>b_data := x\<rparr>" for x
    using assms(1) by (simp add: buf.equality)
  show ?thesis
    by (cases w; simp only: vtransfer_def disk_rw_def upd_buf_def Let_def assms(2) if_True if_False)
      (simp_all add: assms(2) 1 2)
qed

lemmas virtio_request = virtio_format_def virtio_submit_def write_R_def upd_vd_def upd_buf_def Let_def

lemma request_chain:
  assumes "v_avail_idx d = v_dev_idx d" "d' = virtio_submit 0 (virtio_format b w sec (0, 1, 2) d)"
  shows "vchain (d'\<lparr>v_writes := wr\<rparr>) 0 b w sec 0" "vhead (d'\<lparr>v_writes := wr\<rparr>) = 0" "v_info_b d' 0 = Some b"
    "v_avail_idx d' = v_avail_idx d + 1" "v_dev_idx d' = v_dev_idx d" "v_used_idx d' = v_used_idx d" "v_free d' = v_free d"
    "vq_flags (v_desc d' 0) AND VRING_DESC_F_NEXT \<noteq> 0" "vq_next (v_desc d' 0) = 1"
    "vq_flags (v_desc d' 1) AND VRING_DESC_F_NEXT \<noteq> 0" "vq_next (v_desc d' 1) = 2"
    "vq_flags (v_desc d' 2) AND VRING_DESC_F_NEXT = 0"
  using assms by (simp_all add: vchain_def vhead_def virtio_request VRING_DESC_F_NEXT_def VRING_DESC_F_WRITE_def)

lemma virtio_transfer_ok:
  assumes D: "vdev_ok D" and q: "vd_quiet (vd s)" and me: "cur s = Some me" "held s = []"
    and b: "\<not> b_disk (bcache s b)" "unat (b_blockno (bcache s b)) < 2 ^ 31"
  shows "\<exists>p n d. virtio_disk_rw (Suc (Suc k), vintr_env rd D me) b w s = Inr ((disk_rw b w s)\<lparr>ptable := p, nswitch := n, vd := d\<rparr>) \<and>
    vd_quiet d \<and> v_avail_idx d = v_avail_idx (vd s) + 1"
proof -
  define sec :: u64 where "sec = ucast (b_blockno (bcache s b) * of_nat (BSIZE div 512))"
  note sec = sector_of_block [OF b(2), folded sec_def]
  define v where "v = virtio_submit 0 (virtio_format b w sec (0, 1, 2) ((vd s)\<lparr>v_free := (v_free (vd s))(0 := False, 1 := False, 2 := False)\<rparr>))"
  define v' where "v' = v\<lparr>v_writes := v_writes v @ [(VIRTIO_MMIO_QUEUE_NOTIFY, 0)]\<rparr>"
  define s4 where "s4 = (upd_buf b (\<lambda>x. x\<lparr>b_disk := True\<rparr>) s)\<lparr>held := [L_vdisk], vd := v'\<rparr>"
  have qs: "\<forall>i<NUM. v_free (vd s) i" "v_used_idx (vd s) = v_dev_idx (vd s)" "v_avail_idx (vd s) = v_dev_idx (vd s)"
    using q by (simp_all add: vd_quiet_def)
  note rc = request_chain [OF _ v_def, simplified, OF qs(3)]
  have al: "alloc3_wait (Suc (Suc k)) (vintr_env rd D me) (s\<lparr>held := [L_vdisk]\<rparr>) =
      Inr ((0, 1, 2), s\<lparr>held := [L_vdisk], vd := (vd s)\<lparr>v_free := (v_free (vd s))(0 := False, 1 := False, 2 := False)\<rparr>\<rparr>)"
    using alloc3_all_free [of "s\<lparr>held := [L_vdisk]\<rparr>"] qs(1) by (simp add: upd_vd_def)
  obtain p n wr where w: "virtio_wait (Suc (Suc k)) (vintr_env rd D me) b s4 =
      Inr ((upd_buf b (\<lambda>x. x\<lparr>b_disk := False\<rparr>) (vtransfer w sec b s4))
        \<lparr>ptable := p, nswitch := n, vd := (vdone 0 0 v')\<lparr>v_writes := wr, v_used_idx := v_used_idx v' + 1\<rparr>\<rparr>)"
    using virtio_wait_served [OF D sec(1), of s4 b w me k rd] rc qs me unfolding s4_def v'_def by (auto simp: upd_buf_def)
  define s5 where "s5 = (upd_buf b (\<lambda>x. x\<lparr>b_disk := False\<rparr>) (vtransfer w sec b s4))\<lparr>ptable := p, nswitch := n,
    vd := (vdone 0 0 v')\<lparr>v_writes := wr, v_used_idx := v_used_idx v' + 1, v_info_b := (v_info_b v')(0 := None)\<rparr>\<rparr>"
  have v5: "vd s5 = (vdone 0 0 v')\<lparr>v_writes := wr, v_used_idx := v_used_idx v' + 1, v_info_b := (v_info_b v')(0 := None)\<rparr>"
    by (simp add: s5_def)
  have h5: "held s5 = [L_vdisk]" by (simp add: s5_def s4_def vtransfer_def Let_def upd_buf_def)
  have s4: "write_R VIRTIO_MMIO_QUEUE_NOTIFY 0 (upd_vd (virtio_submit 0) (upd_buf b (\<lambda>x. x\<lparr>b_disk := True\<rparr>)
      (upd_vd (virtio_format b w sec (0, 1, 2)) (s\<lparr>held := [L_vdisk], vd := (vd s)\<lparr>v_free := (v_free (vd s))(0 := False, 1 := False, 2 := False)\<rparr>\<rparr>)))) = s4"
    by (simp add: s4_def v'_def v_def write_R_def upd_vd_def upd_buf_def)
  have s5: "upd_vd (\<lambda>d. d\<lparr>v_info_b := (v_info_b d)(0 := None)\<rparr>) ((upd_buf b (\<lambda>x. x\<lparr>b_disk := False\<rparr>) (vtransfer w sec b s4))
        \<lparr>ptable := p, nswitch := n, vd := (vdone 0 0 v')\<lparr>v_writes := wr, v_used_idx := v_used_idx v' + 1\<rparr>\<rparr>) = s5"
    by (simp add: s5_def upd_vd_def vdone_def)
  define d where "d = (vd s5)\<lparr>v_desc := (v_desc (vd s5))(0 := zero_desc, 1 := zero_desc, 2 := zero_desc),
      v_free := (v_free (vd s5))(0 := True, 1 := True, 2 := True)\<rparr>"
  have "\<exists>p. free_chain 0 s5 = Inr (s5\<lparr>ptable := p, vd := d\<rparr>)"
    unfolding d_def by (rule free_chain_eq) (simp_all add: v5 h5 vdone_def v'_def rc)
  then obtain p' where f: "free_chain 0 s5 = Inr (s5\<lparr>ptable := p', vd := d\<rparr>)" by blast
  have "virtio_disk_rw (Suc (Suc k), vintr_env rd D me) b w s = lk_release L_vdisk (s5\<lparr>ptable := p', vd := d\<rparr>)"
    using me al w f unfolding virtio_disk_rw_def Let_def sec_def [symmetric]
    by (simp add: lk_acquire_def s4 s5 del: alloc3_wait.simps virtio_wait.simps One_nat_def)
  also have "\<dots> = Inr ((disk_rw b w s)\<lparr>ptable := p', nswitch := n, vd := d\<rparr>)"
    using me(2) unfolding s5_def s4_def transfer_is_disk_rw [OF b(1) sec(2)]
    by (simp add: lk_release_def) (simp add: disk_rw_def Let_def upd_buf_def)
  finally have r: "virtio_disk_rw (Suc (Suc k), vintr_env rd D me) b w s = Inr ((disk_rw b w s)\<lparr>ptable := p', nswitch := n, vd := d\<rparr>)" .
  have "vd_quiet d \<and> v_avail_idx d = v_avail_idx (vd s) + 1"
    using qs rc(4-7) by (simp add: d_def v5 vd_quiet_def vdone_def v'_def)
  with r show ?thesis by blast
qed

section \<open>The driver implements the transfer of the buffer cache\<close>

text \<open>C6: The disk driver refines the atomic transfer that the buffer cache, the log and the file system
  are verified over. With no request in flight and a device that serves a well-formed request chain
  while the caller sleeps, \<^verbatim>\<open>virtio_disk_rw\<close> returns, and the state is that after the atomic transfer
  of the block, in either direction: the sector named in the request, the three descriptors, the
  interrupt that clears \<^verbatim>\<open>b->disk\<close> and the release of the chain fit together. Only the process table
  (woken sleepers), the switch counter and the driver's own fields differ; all descriptors are free
  again and the ring index has advanced by one. Block numbers are below 2^31, where the sector
  product does not wrap.\<close>

theorem virtio_disk_rw_refines:
  assumes "vdev_ok D" and "vd_quiet (vd s)" and "cur s = Some me" and "held s = []"
    and "\<not> b_disk (bcache s b)" and "unat (b_blockno (bcache s b)) < 2 ^ 31" and "2 \<le> n"
  shows "\<exists>p sw d. virtio_disk_rw (n, vintr_env rd D me) b write s = Inr ((disk_rw b write s)\<lparr>ptable := p, nswitch := sw, vd := d\<rparr>) \<and>
    vd_quiet d \<and> v_avail_idx d = v_avail_idx (vd s) + 1"
proof -
  obtain k where "n = Suc (Suc k)" using assms(7) by (metis add_2_eq_Suc le_Suc_ex)
  then show ?thesis using virtio_transfer_ok [OF assms(1-6)] by simp
qed

text \<open>A device that reads the chain from the ring and the descriptors.\<close>

definition blk_device :: "'z kvirt_scheme \<Rightarrow> 'z kvirt_scheme" where
  "blk_device s =
     (let d = vd s; h = vhead d; d1 = v_desc d (unat (vq_next (v_desc d h))); d2 = v_desc d (unat (vq_next d1)) in
      case (vq_addr d1, vq_addr d2) of
        (A_data b, A_status k) \<Rightarrow>
          upd_vd (vdone h k) (vtransfer (vr_type (v_ops d h) = VIRTIO_BLK_T_OUT) (vr_sector (v_ops d h)) b s)
      | _ \<Rightarrow> s)"

lemma blk_device_ok: "vdev_ok blk_device"
  by (auto simp: vdev_ok_def vchain_def blk_device_def Let_def VIRTIO_BLK_T_IN_def VIRTIO_BLK_T_OUT_def)

definition kvirt0 :: kvirt where
  "kvirt0 = kfile.extend (kcons.extend kcons0 (kfile.fields (\<lambda>f. \<lparr>f_type = FD_NONE, f_ref = 0, f_readable = False,
       f_writable = False, f_pipe = 0, f_ip = None, f_off = 0, f_major = 0\<rparr>)))
     (kvirt.fields \<lparr>v_desc = \<lambda>_. zero_desc, v_avail_idx = 0xffff, v_avail_ring = \<lambda>_. 0, v_dev_idx = 0xffff, v_used_ring = \<lambda>_. 0,
       v_free = \<lambda>_. True, v_used_idx = 0xffff, v_info_b = \<lambda>_. None, v_status = \<lambda>_. 0,
       v_ops = \<lambda>_. \<lparr>vr_type = 0, vr_reserved = 0, vr_sector = 0\<rparr>, v_writes = []\<rparr>)"

text \<open>The ring index of this state wraps to zero.\<close>

theorem virtio_disk_rw_refines_witness:
  "\<exists>p sw d. virtio_disk_rw (2, vintr_env (\<lambda>_ _. 1) blk_device 0) 3 True kvirt0 =
      Inr ((disk_rw 3 True kvirt0)\<lparr>ptable := p, nswitch := sw, vd := d\<rparr>) \<and> vd_quiet d \<and> v_avail_idx d = 0"
proof -
  have "vd_quiet (vd kvirt0)" "cur kvirt0 = Some 0" "held kvirt0 = []" "\<not> b_disk (bcache kvirt0 3)"
    "unat (b_blockno (bcache kvirt0 3)) < 2 ^ 31" "v_avail_idx (vd kvirt0) + 1 = 0"
    by (simp_all add: kvirt0_def kfile.defs kvirt.defs kcons.defs kcons0_def kbuf_raw_def vd_quiet_def)
  then show ?thesis using virtio_disk_rw_refines [OF blk_device_ok, of kvirt0 0 3 2 "\<lambda>_ _. 1" True] by simp
qed

end
