(* ===== verification/Umalloc.thy ===== *)
theory Umalloc
  imports Cmem
begin

text \<open>
  The user memory allocator \<^verbatim>\<open>user/umalloc.c\<close> (the allocator of Kernighan and Ritchie): a circular list
  of free blocks in address order, threaded through the 16-byte headers in front of the blocks. The
  user memory is a map from addresses to bytes; \<open>hptr\<close> and \<open>hsize\<close> read the two fields of a header.
  The system call stub \<^verbatim>\<open>sbrk\<close> is a parameter. The invariant says that the headers form such a list
  and that the free blocks and the blocks handed out are a partition of the memory obtained.
\<close>

section \<open>Headers in memory\<close>

definition load32 :: "mem \<Rightarrow> u64 \<Rightarrow> u32" where
  "load32 m a = ucast (m a) OR push_bit 8 (ucast (m (a + 1))) OR push_bit 16 (ucast (m (a + 2))) OR push_bit 24 (ucast (m (a + 3)))"

definition store32 :: "mem \<Rightarrow> u64 \<Rightarrow> u32 \<Rightarrow> mem" where
  "store32 m a v = m(a := ucast v, a + 1 := ucast (drop_bit 8 v), a + 2 := ucast (drop_bit 16 v), a + 3 := ucast (drop_bit 24 v))"

definition hptr :: "mem \<Rightarrow> u64 \<Rightarrow> u64" where "hptr m p = load64 m p"
definition hsize :: "mem \<Rightarrow> u64 \<Rightarrow> u32" where "hsize m p = load32 m (p + 8)"
definition set_ptr :: "u64 \<Rightarrow> u64 \<Rightarrow> mem \<Rightarrow> mem" where "set_ptr p v m = store64 m p v"
definition set_size :: "u64 \<Rightarrow> u32 \<Rightarrow> mem \<Rightarrow> mem" where "set_size p n m = store32 m (p + 8) n"

text \<open>\<open>p + n\<close> on pointers to headers.\<close>

definition hadd :: "u64 \<Rightarrow> u32 \<Rightarrow> u64" where "hadd p n = p + 16 * ucast n"

record uheap =
  um :: mem
  u_base :: u64
  u_freep :: u64
  u_brk :: u64

section \<open>\<^verbatim>\<open>free\<close>\<close>

text \<open>The place in the list: the header after which \<open>bp\<close> belongs.\<close>

partial_function (option) free_find :: "mem \<Rightarrow> u64 \<Rightarrow> u64 \<Rightarrow> u64 option" where
  "free_find m bp p =
     (if p < bp \<and> bp < hptr m p then Some p
      else if hptr m p \<le> p \<and> (p < bp \<or> bp < hptr m p) then Some p
      else free_find m bp (hptr m p))"

definition free_upper :: "u64 \<Rightarrow> u64 \<Rightarrow> mem \<Rightarrow> mem" where
  "free_upper bp p m =
     (if hadd bp (hsize m bp) = hptr m p
      then let m1 = set_size bp (hsize m bp + hsize m (hptr m p)) m in set_ptr bp (hptr m1 (hptr m1 p)) m1
      else set_ptr bp (hptr m p) m)"

definition free_lower :: "u64 \<Rightarrow> u64 \<Rightarrow> mem \<Rightarrow> mem" where
  "free_lower bp p m =
     (if hadd p (hsize m p) = bp
      then let m1 = set_size p (hsize m p + hsize m bp) m in set_ptr p (hptr m1 bp) m1
      else set_ptr p bp m)"

definition free :: "u64 \<Rightarrow> uheap \<Rightarrow> uheap option" where
  "free ap s =
     (let bp = ap - 16 in
      Option.bind (free_find (um s) bp (u_freep s)) (\<lambda>p.
        Some (s\<lparr>um := free_lower bp p (free_upper bp p (um s)), u_freep := p\<rparr>)))"

section \<open>\<^verbatim>\<open>malloc\<close>\<close>

text \<open>The argument of \<^verbatim>\<open>sbrk\<close> is an \<^verbatim>\<open>int\<close>: the 64-bit product is cut to 32 bits.\<close>

definition morecore :: "(i32 \<Rightarrow> uheap \<Rightarrow> u64 \<times> uheap) \<Rightarrow> u32 \<Rightarrow> uheap \<Rightarrow> (u64 \<times> uheap) option" where
  "morecore sbrk nu0 s =
     (let nu = (if nu0 < 4096 then 4096 else nu0);
          (p, s1) = sbrk (ucast (ucast nu * 16 :: u64)) s
      in if p = - 1 then Some (0, s1)
         else Option.bind (free (hadd p 1) (s1\<lparr>um := set_size p nu (um s1)\<rparr>)) (\<lambda>s2. Some (u_freep s2, s2)))"

definition malloc_take :: "u32 \<Rightarrow> u64 \<Rightarrow> u64 \<Rightarrow> uheap \<Rightarrow> u64 \<times> uheap" where
  "malloc_take nunits prevp p s =
     (let m = um s in
      if hsize m p = nunits then (hadd p 1, s\<lparr>um := set_ptr prevp (hptr m p) m, u_freep := prevp\<rparr>)
      else let m1 = set_size p (hsize m p - nunits) m; q = hadd p (hsize m1 p)
           in (hadd q 1, s\<lparr>um := set_size q nunits m1, u_freep := prevp\<rparr>))"

partial_function (option) malloc_loop ::
  "(i32 \<Rightarrow> uheap \<Rightarrow> u64 \<times> uheap) \<Rightarrow> u32 \<Rightarrow> u64 \<Rightarrow> u64 \<Rightarrow> uheap \<Rightarrow> (u64 \<times> uheap) option" where
  "malloc_loop sbrk nunits prevp p s =
     (if nunits \<le> hsize (um s) p then Some (malloc_take nunits prevp p s)
      else if p = u_freep s then
        Option.bind (morecore sbrk nunits s) (\<lambda>(q, s1).
          if q = 0 then Some (0, s1) else malloc_loop sbrk nunits q (hptr (um s1) q) s1)
      else malloc_loop sbrk nunits p (hptr (um s) p) s)"

definition malloc :: "(i32 \<Rightarrow> uheap \<Rightarrow> u64 \<times> uheap) \<Rightarrow> u32 \<Rightarrow> uheap \<Rightarrow> (u64 \<times> uheap) option" where
  "malloc sbrk nbytes s =
     (let nunits = ucast ((ucast nbytes + 16 - 1 :: u64) div 16 + 1) :: u32;
          s1 = (if u_freep s = 0
                then s\<lparr>um := set_size (u_base s) 0 (set_ptr (u_base s) (u_base s) (um s)), u_freep := u_base s\<rparr>
                else s)
      in malloc_loop sbrk nunits (u_freep s1) (hptr (um s1) (u_freep s1)) s1)"

section \<open>Reading and writing headers\<close>

lemma load32_store32 [simp]: "load32 (store32 m a v) a = v"
proof (rule bit_word_eqI)
  fix n assume "n < LENGTH(32)"
  then consider "n < 8" | "8 \<le> n" "n < 16" | "16 \<le> n" "n < 24" | "24 \<le> n" "n < 32" by fastforce
  then show "bit (load32 (store32 m a v) a) n = bit v n"
    by cases (auto simp: load32_def store32_def bit_simps)
qed

lemma unat_off: "unat (a :: u64) + 16 \<le> 2 ^ 64 \<Longrightarrow> unat k < 16 \<Longrightarrow> unat (a + k) = unat a + unat k"
  by (simp add: unat_add_lem [symmetric])

lemma hsize_set_size [simp]: "hsize (set_size p n m) p = n"
  by (simp add: hsize_def set_size_def)

lemma hptr_set_ptr [simp]: "hptr (set_ptr p v m) p = v"
  by (simp add: hptr_def set_ptr_def)

lemma hptr_set_size [simp]: "hptr (set_size p n m) p = hptr m p"
  by (simp add: hptr_def set_size_def load64_def store32_def add.assoc)

lemma hsize_set_ptr [simp]: "hsize (set_ptr p v m) p = hsize m p"
  by (simp add: hsize_def set_ptr_def load32_def store64_def add.assoc)

text \<open>The bytes of a header are those from its address up to the next sixteen.\<close>

definition hbytes :: "u64 \<Rightarrow> u64 set" where
  "hbytes p = {x. unat p \<le> unat x \<and> unat x < unat p + 16}"

lemma in_hbytes: "unat p + 16 \<le> 2 ^ 64 \<Longrightarrow> unat k < 16 \<Longrightarrow> p + k \<in> hbytes p"
  by (simp add: hbytes_def unat_off)

lemma header_cong:
  assumes "\<And>x. x \<in> hbytes p \<Longrightarrow> m x = m' x" "unat p + 16 \<le> 2 ^ 64"
  shows "hptr m p = hptr m' p" "hsize m p = hsize m' p"
proof -
  have "m (p + k) = m' (p + k)" if "unat k < 16" for k
    using assms in_hbytes [OF assms(2) that] by blast
  from this [of 0] this [of 1] this [of 2] this [of 3] this [of 4] this [of 5] this [of 6] this [of 7] this [of 8]
    this [of 9] this [of 10] this [of 11]
  show "hptr m p = hptr m' p" "hsize m p = hsize m' p"
    by (simp_all add: hptr_def hsize_def load64_def load32_def add.assoc)
qed

lemma header_frame:
  assumes "x \<notin> hbytes p" "unat p + 16 \<le> 2 ^ 64"
  shows "set_ptr p v m x = m x" "set_size p n m x = m x"
proof -
  have "x \<noteq> p + k" if "unat k < 16" for k
    using assms in_hbytes [OF assms(2) that] by blast
  from this [of 0] this [of 1] this [of 2] this [of 3] this [of 4] this [of 5] this [of 6] this [of 7] this [of 8]
    this [of 9] this [of 10] this [of 11]
  show "set_ptr p v m x = m x" "set_size p n m x = m x"
    by (simp_all add: set_ptr_def set_size_def store64_def store32_def add.assoc)
qed

section \<open>Blocks and lists of blocks\<close>

text \<open>A block is a header address and a number of 16-byte units, header included; \<^verbatim>\<open>base\<close> has no units,
  only its header.\<close>

type_synonym blk = "u64 \<times> nat"

definition bspan :: "blk \<Rightarrow> u64 set" where
  "bspan x = {a. unat (fst x) \<le> unat a \<and> unat a < unat (fst x) + 16 * max 1 (snd x)}"

definition bend :: "blk \<Rightarrow> nat" where
  "bend x = unat (fst x) + 16 * max 1 (snd x)"

definition apart :: "blk \<Rightarrow> blk \<Rightarrow> bool" where
  "apart x y \<longleftrightarrow> bend x \<le> unat (fst y) \<or> bend y \<le> unat (fst x)"

text \<open>\<open>x\<close> is below \<open>y\<close> and does not touch it.\<close>

definition gap :: "blk \<Rightarrow> blk \<Rightarrow> bool" where
  "gap x y \<longleftrightarrow> unat (fst x) + 16 * snd x < unat (fst y) \<and> unat (fst x) + 16 \<le> unat (fst y)"

lemma gap_less: "gap x y \<Longrightarrow> fst x < fst y"
  by (simp add: gap_def word_less_nat_alt)

text \<open>The headers from \<open>p\<close> to \<open>q\<close>, following the pointers.\<close>

fun seg :: "mem \<Rightarrow> u64 \<Rightarrow> blk list \<Rightarrow> u64 \<Rightarrow> bool" where
  "seg m p [] q \<longleftrightarrow> p = q"
| "seg m p (x # xs) q \<longleftrightarrow> p = fst x \<and> hsize m p = of_nat (snd x) \<and> seg m (hptr m p) xs q"

lemma seg_append: "seg m p (xs @ ys) q \<longleftrightarrow> (\<exists>r. seg m p xs r \<and> seg m r ys q)"
  by (induction xs arbitrary: p) auto

lemma seg_cong:
  "\<forall>x \<in> set xs. hptr m (fst x) = hptr m' (fst x) \<and> hsize m (fst x) = hsize m' (fst x) \<Longrightarrow> seg m p xs q = seg m' p xs q"
  by (induction xs arbitrary: p) auto

lemma seg_start: "seg m p xs q \<Longrightarrow> p = (case xs of [] \<Rightarrow> q | x # _ \<Rightarrow> fst x)"
  by (cases xs) auto

lemma seg_next: "seg m p (ys @ x # zs) q \<Longrightarrow> hptr m (fst x) = (case zs of [] \<Rightarrow> q | z # _ \<Rightarrow> fst z)"
  by (auto simp: seg_append dest: seg_start)

section \<open>Finding the place\<close>

definition free_stop :: "mem \<Rightarrow> u64 \<Rightarrow> u64 \<Rightarrow> bool" where
  "free_stop m bp p \<longleftrightarrow> p < bp \<and> bp < hptr m p \<or> hptr m p \<le> p \<and> (p < bp \<or> bp < hptr m p)"

lemma free_find_step: "free_find m bp p = (if free_stop m bp p then Some p else free_find m bp (hptr m p))"
  by (subst free_find.simps) (auto simp: free_stop_def)

lemma free_find_skip:
  "seg m p xs r \<Longrightarrow> \<forall>x \<in> set xs. \<not> free_stop m bp (fst x) \<Longrightarrow> free_find m bp p = free_find m bp r"
  by (induction xs arbitrary: p) (auto simp: free_find_step [of m bp])

lemma free_find_place:
  assumes sg: "seg m b (us @ x # vs) b" and so: "sorted_wrt gap (us @ x # vs)" and b: "fst (hd (us @ x # vs)) = b"
    and lo: "fst x < bp" and hi: "\<forall>v \<in> set vs. bp < fst v" and f: "f \<in> fst ` set (us @ x # vs)"
  shows "free_find m bp f = Some (fst x)"
proof -
  have bx: "b \<le> fst x" using b so by (cases us) (auto dest!: gap_less)
  have x: "free_stop m bp (fst x)"
    using seg_next [OF sg] lo hi bx by (auto simp: free_stop_def split: list.splits)
  have u: "\<not> free_stop m bp (fst y)" if "y \<in> set us" for y
  proof -
    from that obtain u1 u2 where us: "us = u1 @ y # u2" by (auto dest: split_list)
    have "fst y < hptr m (fst y) \<and> hptr m (fst y) < bp"
      using seg_next [of m b u1 y "u2 @ x # vs" b] sg so lo unfolding us
      by (cases u2) (auto simp: sorted_wrt_append dest!: gap_less intro: less_trans)
    then show ?thesis by (auto simp: free_stop_def)
  qed
  have v: "\<not> free_stop m bp (fst y)" if "y \<in> set vs" for y
  proof -
    from that obtain v1 v2 where vs: "vs = v1 @ y # v2" by (auto dest: split_list)
    have "hptr m (fst y) = b \<or> fst y < hptr m (fst y)"
      using seg_next [of m b "us @ x # v1" y v2 b] sg so unfolding vs
      by (cases v2) (auto simp: sorted_wrt_append dest!: gap_less)
    moreover have "bp < fst y" "b < bp" using hi that bx lo by auto
    ultimately show ?thesis by (auto simp: free_stop_def)
  qed
  obtain r where sb: "seg m b us (fst x)" using sg by (auto simp: seg_append)
  have fx: "free_find m bp b = Some (fst x)"
    using free_find_skip [OF sb] u x free_find_step by auto
  from f consider "f = fst x" | u1 y u2 where "us = u1 @ y # u2" "f = fst y" | v1 y v2 where "vs = v1 @ y # v2" "f = fst y"
    by (auto dest!: split_list)
  then show ?thesis
  proof cases
    case 1 then show ?thesis using x free_find_step by auto
  next
    case 2
    then have "seg m f (y # u2) (fst x)" using sb by (auto simp: seg_append)
    from free_find_skip [OF this] show ?thesis using u 2 x free_find_step by auto
  next
    case 3
    then have "seg m f (y # v2) b" using sg by (auto simp: seg_append)
    from free_find_skip [OF this] show ?thesis using v 3 fx by auto
  qed
qed

section \<open>Inserting a block\<close>

lemma unat_hadd:
  assumes "unat p + 16 * n < 2 ^ 36"
  shows "unat (hadd p (of_nat n)) = unat p + 16 * n"
proof -
  have "n < 2 ^ 32" using assms by simp
  then have "unat (of_nat n :: u32) = n" by (simp add: unat_of_nat)
  then have "unat (ucast (of_nat n :: u32) :: u64) = n"
    using \<open>n < 2 ^ 32\<close> by (simp add: unsigned_ucast_eq take_bit_nat_eq_self)
  then show ?thesis using assms by (simp add: hadd_def unat_word_ariths)
qed

lemma header_other:
  assumes "apart x y" "bend x \<le> 2 ^ 36" "bend y \<le> 2 ^ 36"
  shows "hptr (set_ptr (fst x) v m) (fst y) = hptr m (fst y)" "hsize (set_ptr (fst x) v m) (fst y) = hsize m (fst y)"
    "hptr (set_size (fst x) n m) (fst y) = hptr m (fst y)" "hsize (set_size (fst x) n m) (fst y) = hsize m (fst y)"
proof -
  have y: "unat (fst y) + 16 \<le> 2 ^ 64" and x: "unat (fst x) + 16 \<le> 2 ^ 64" using assms by (auto simp: bend_def)
  have "hbytes (fst x) \<inter> hbytes (fst y) = {}" using assms(1) by (auto simp: apart_def bend_def hbytes_def)
  then have "set_ptr (fst x) v m a = m a" "set_size (fst x) n m a = m a" if "a \<in> hbytes (fst y)" for a
    using header_frame [OF _ x, of a] that by blast+
  from header_cong [OF this(1) y] header_cong [OF this(2) y]
  show "hptr (set_ptr (fst x) v m) (fst y) = hptr m (fst y)" "hsize (set_ptr (fst x) v m) (fst y) = hsize m (fst y)"
    "hptr (set_size (fst x) n m) (fst y) = hptr m (fst y)" "hsize (set_size (fst x) n m) (fst y) = hsize m (fst y)" by simp_all
qed

lemma seg_other:
  assumes "\<forall>y \<in> set ys. apart x y \<and> bend y \<le> 2 ^ 36" "bend x \<le> 2 ^ 36"
  shows "seg (set_ptr (fst x) v m) p ys q = seg m p ys q" "seg (set_size (fst x) n m) p ys q = seg m p ys q"
  by (rule seg_cong, use assms header_other in blast)+

lemma apart_commute: "apart x y = apart y x"
  by (auto simp: apart_def)

lemma free_upper_ok:
  assumes sg: "seg m b us (fst x)" "hsize m (fst x) = of_nat (snd x)" "seg m (hptr m (fst x)) vs b"
    and n: "hsize m (fst y) = of_nat (snd y)" "0 < snd y"
    and ap: "\<forall>z \<in> set (us @ x # vs). apart y z \<and> bend z \<le> 2 ^ 36" and lo: "b < fst y"
    and hi: "\<forall>v \<in> set vs. fst y < fst v" and so: "sorted_wrt gap vs" and bd: "bend y < 2 ^ 36"
  shows "\<exists>n' vs'. let m1 = free_upper (fst y) (fst x) m in
    seg m1 b us (fst x) \<and> hsize m1 (fst x) = of_nat (snd x) \<and> hsize m1 (fst y) = of_nat n' \<and> seg m1 (hptr m1 (fst y)) vs' b \<and>
    (\<forall>a. a \<notin> hbytes (fst y) \<longrightarrow> m1 a = m a) \<and> (\<forall>v \<in> set vs'. gap (fst y, n') v) \<and>
    (vs' = vs \<and> n' = snd y \<or> (\<exists>r. vs = r # vs' \<and> n' = snd y + snd r \<and> unat (fst r) = unat (fst y) + 16 * snd y))"
proof -
  have e: "unat (hadd (fst y) (hsize m (fst y))) = unat (fst y) + 16 * snd y"
    unfolding n(1) by (rule unat_hadd) (use bd n(2) in \<open>simp add: bend_def\<close>)
  have y64: "unat (fst y) + 16 \<le> 2 ^ 64" using bd by (simp add: bend_def)
  have bd': "bend y \<le> 2 ^ 36" using bd by simp
  have apx: "apart y x" "bend x \<le> 2 ^ 36" and apu: "\<forall>z \<in> set us. apart y z \<and> bend z \<le> 2 ^ 36" and apv: "\<forall>z \<in> set vs. apart y z \<and> bend z \<le> 2 ^ 36"
    using ap by auto
  have hiv: "bend y \<le> unat (fst v)" if "v \<in> set vs" for v
    using apv hi that by (force simp: apart_def bend_def word_less_nat_alt)
  note other = header_other [OF apx(1) bd' apx(2)] seg_other [OF apu bd'] header_frame [OF _ y64]
  show ?thesis
  proof (cases "hadd (fst y) (hsize m (fst y)) = hptr m (fst x)")
    case False
    have "gap y v" if v: "v \<in> set vs" for v
    proof -
      obtain r vs1 where vs: "vs = r # vs1" using v by (cases vs) auto
      have "unat (fst y) + 16 * snd y \<noteq> unat (fst r)" using False e sg(3) vs by (auto simp: word_unat_eq_iff)
      then have "unat (fst y) + 16 * snd y < unat (fst r)" using hiv [of r] n(2) vs by (simp add: bend_def)
      then show ?thesis using v so n(2) by (auto simp: vs gap_def)
    qed
    then show ?thesis using False sg n(1) other seg_other [OF apv bd']
      by (intro exI [of _ "snd y"] exI [of _ vs]) (simp add: free_upper_def Let_def)
  next
    case True
    then obtain r vs1 where vs: "vs = r # vs1" and r: "hptr m (fst x) = fst r"
      using sg(3) lo e by (cases vs) (auto simp: word_less_nat_alt)
    have ry: "unat (fst r) = unat (fst y) + 16 * snd y" using True e r by simp
    have apr: "apart y r" "bend r \<le> 2 ^ 36" "\<forall>z \<in> set vs1. apart y z \<and> bend z \<le> 2 ^ 36" using apv vs by auto
    have g: "\<forall>v \<in> set vs1. gap (fst y, snd y + snd r) v" using so ry by (auto simp: vs gap_def)
    show ?thesis using True sg n(1) other header_other [OF apr(1) bd' apr(2)] seg_other [OF apr(3) bd'] r ry g
      by (intro exI [of _ "snd y + snd r"] exI [of _ vs1]) (auto simp: free_upper_def Let_def vs)
  qed
qed

lemma free_lower_ok:
  assumes sg: "seg m b us (fst x)" "hsize m (fst x) = of_nat (snd x)"
    and y: "hsize m (fst y) = of_nat (snd y)" "seg m (hptr m (fst y)) vs b"
    and ap: "\<forall>z \<in> set (us @ y # vs). apart x z \<and> bend z \<le> 2 ^ 36" and bd: "bend x < 2 ^ 36"
  shows "let m1 = free_lower (fst y) (fst x) m in
    (if unat (fst x) + 16 * snd x = unat (fst y) then seg m1 b (us @ (fst x, snd x + snd y) # vs) b else seg m1 b (us @ x # y # vs) b) \<and>
    (\<forall>a. a \<notin> hbytes (fst x) \<longrightarrow> m1 a = m a)"
proof -
  have e: "unat (hadd (fst x) (hsize m (fst x))) = unat (fst x) + 16 * snd x"
    unfolding sg(2) by (rule unat_hadd) (use bd in \<open>simp add: bend_def max_def split: if_splits\<close>)
  have x64: "unat (fst x) + 16 \<le> 2 ^ 64" using bd by (simp add: bend_def)
  have bd': "bend x \<le> 2 ^ 36" using bd by simp
  have apy: "apart x y" "bend y \<le> 2 ^ 36" and apu: "\<forall>z \<in> set us. apart x z \<and> bend z \<le> 2 ^ 36" and apv: "\<forall>z \<in> set vs. apart x z \<and> bend z \<le> 2 ^ 36"
    using ap by auto
  note other = header_other [OF apy(1) bd' apy(2)] seg_other [OF apu bd'] seg_other [OF apv bd'] header_frame [OF _ x64]
  show ?thesis
  proof (cases "hadd (fst x) (hsize m (fst x)) = fst y")
    case True
    then have "unat (fst x) + 16 * snd x = unat (fst y)" using e by simp
    then show ?thesis using True sg y other by (auto simp: free_lower_def Let_def seg_append)
  next
    case False
    then have "unat (fst x) + 16 * snd x \<noteq> unat (fst y)" using e by (simp add: word_unat_eq_iff)
    then show ?thesis using False sg y other by (auto simp: free_lower_def Let_def seg_append)
  qed
qed

text \<open>Two adjacent blocks as one; what holds of the parts of a list still holds after merging.\<close>

definition joins :: "blk \<Rightarrow> blk \<Rightarrow> blk \<Rightarrow> bool" where
  "joins y r z \<longleftrightarrow> 0 < snd y \<and> unat (fst r) = unat (fst y) + 16 * snd y \<and> z = (fst y, snd y + snd r)"

definition join_closed :: "(blk \<Rightarrow> bool) \<Rightarrow> bool" where
  "join_closed P \<longleftrightarrow> (\<forall>y r z. P y \<longrightarrow> P r \<longrightarrow> joins y r z \<longrightarrow> P z)"

lemma join_closed_apart: "join_closed (\<lambda>z. apart z w)"
  by (auto simp: join_closed_def joins_def apart_def bend_def max_def)

lemma join_closed_bend: "join_closed (\<lambda>z. bend z \<le> n)"
  by (auto simp: join_closed_def joins_def bend_def max_def)

lemma join_closed_low: "join_closed (\<lambda>z. z = (b, 0) \<or> k \<le> unat (fst z) \<and> 0 < snd z)"
  by (auto simp: join_closed_def joins_def)

lemma free_place:
  assumes "fl \<noteq> []" "fst (hd fl) < fst y" "sorted_wrt gap fl" "\<forall>z \<in> set fl. apart y z"
  shows "\<exists>us x vs. fl = us @ x # vs \<and> fst x < fst y \<and> (\<forall>v \<in> set vs. fst y < fst v)"
  using assms
proof (induction fl rule: list_nonempty_induct)
  case (single x)
  then show ?case by (intro exI [of _ "[]"] exI [of _ x]) simp
next
  case (cons a fl)
  show ?case
  proof (cases "fst (hd fl) < fst y")
    case True
    have "\<exists>us x vs. fl = us @ x # vs \<and> fst x < fst y \<and> (\<forall>v \<in> set vs. fst y < fst v)"
      by (rule cons.IH [OF True]) (use cons.prems in simp_all)
    then obtain us x vs where "fl = us @ x # vs" "fst x < fst y" "\<forall>v \<in> set vs. fst y < fst v" by blast
    then show ?thesis by (intro exI [of _ "a # us"] exI [of _ x] exI [of _ vs]) simp
  next
    case False
    have "apart y (hd fl)" using cons by simp
    then have "fst y < fst (hd fl)" using False by (force simp: apart_def bend_def word_less_nat_alt)
    moreover have "fst (hd fl) \<le> fst v" if "v \<in> set fl" for v
      using that cons by (cases fl) (auto dest!: gap_less)
    ultimately have "\<forall>v \<in> set fl. fst y < fst v" by (meson less_le_trans)
    then show ?thesis using cons.prems by (intro exI [of _ "[]"] exI [of _ a] exI [of _ fl]) simp
  qed
qed

lemma gap_apart: "gap x y \<Longrightarrow> apart x y"
  by (auto simp: gap_def apart_def bend_def max_def)

lemma hbytes_bspan: "hbytes (fst x) \<subseteq> bspan x"
  by (auto simp: hbytes_def bspan_def)

text \<open>The free list with a block put in: where it goes, what it is merged with.\<close>

definition free_inserted :: "blk list \<Rightarrow> blk \<Rightarrow> blk list \<Rightarrow> blk \<Rightarrow> blk list \<Rightarrow> bool" where
  "free_inserted us x vs y fl' \<longleftrightarrow>
     (\<exists>y' vs'. (y' = y \<and> vs' = vs \<or> (\<exists>r. vs = r # vs' \<and> joins y r y')) \<and> (\<forall>v \<in> set vs'. gap y' v) \<and>
        (if unat (fst x) + 16 * snd x = unat (fst y) then fl' = us @ (fst x, snd x + snd y') # vs' else fl' = us @ x # y' # vs'))"

lemma free_inserted_facts:
  assumes i: "free_inserted us x vs y fl'" and so: "sorted_wrt gap (us @ x # vs)" and xy: "fst x < fst y" "apart x y" and n: "0 < snd y"
  shows "sorted_wrt gap fl'" "fst x \<in> fst ` set fl'" "sum_list (map snd fl') = sum_list (map snd (us @ x # vs)) + snd y"
    "\<exists>z \<in> set fl'. snd y \<le> snd z" "hd (us @ x # vs) = (b, 0) \<Longrightarrow> hd fl' = (b, 0)"
    "join_closed P \<Longrightarrow> \<forall>z \<in> set (us @ x # vs). P z \<Longrightarrow> P y \<Longrightarrow> \<forall>z \<in> set fl'. P z"
proof -
  obtain y' vs' where y': "y' = y \<and> vs' = vs \<or> (\<exists>r. vs = r # vs' \<and> joins y r y')" "\<forall>v \<in> set vs'. gap y' v"
    and fl': "if unat (fst x) + 16 * snd x = unat (fst y) then fl' = us @ (fst x, snd x + snd y') # vs' else fl' = us @ x # y' # vs'"
    using i unfolding free_inserted_def by blast
  have f: "fst y' = fst y" "snd y \<le> snd y'" "snd y' + sum_list (map snd vs') = snd y + sum_list (map snd vs)"
    and v': "set vs' \<subseteq> set vs" "sorted_wrt gap vs'" using y'(1) so by (auto simp: joins_def sorted_wrt_append)
  have x: "unat (fst x) + 16 * max 1 (snd x) \<le> unat (fst y)" using xy by (force simp: apart_def bend_def word_less_nat_alt)
  have g: "\<forall>u \<in> set us. gap u x \<and> gap u y' \<and> (\<forall>v \<in> set vs'. gap u v)" "sorted_wrt gap us" "\<forall>v \<in> set vs'. gap x v"
    using so v'(1) f(1) xy(1) by (auto simp: sorted_wrt_append gap_def word_less_nat_alt)
  have gx: "unat (fst x) + 16 * snd x \<noteq> unat (fst y) \<Longrightarrow> gap x y'" using x f(1) by (auto simp: gap_def max_def split: if_splits)
  have gz: "gap u (fst x, snd x + snd y')" if "gap u x" for u using that by (simp add: gap_def)
  have gv: "gap (fst x, snd x + snd y') v" if "unat (fst x) + 16 * snd x = unat (fst y)" "gap y' v" for v
    using that f(1) by (auto simp: gap_def)
  show "sorted_wrt gap fl'"
    using v'(2) y'(2) fl' g gx gz gv by (cases "unat (fst x) + 16 * snd x = unat (fst y)") (auto simp: sorted_wrt_append)
  show "fst x \<in> fst ` set fl'" using fl' by (auto split: if_splits)
  show "sum_list (map snd fl') = sum_list (map snd (us @ x # vs)) + snd y" using fl' f(3) by (auto split: if_splits)
  show "\<exists>z \<in> set fl'. snd y \<le> snd z" using fl' f(2) by (auto split: if_splits)
  show "hd fl' = (b, 0)" if "hd (us @ x # vs) = (b, 0)" using that fl' xy(1) by (cases us) (auto simp: word_less_nat_alt split: if_splits)
  assume P: "join_closed P" "\<forall>z \<in> set (us @ x # vs). P z" "P y"
  have j: "P u \<Longrightarrow> P r \<Longrightarrow> joins u r z \<Longrightarrow> P z" for u r z using P(1) unfolding join_closed_def by blast
  have y'P: "P y'" using y'(1) P(2,3) by (auto intro: j)
  have "joins x y' (fst x, snd x + snd y')" if "unat (fst x) + 16 * snd x = unat (fst y)"
    using that x f(1) by (auto simp: joins_def)
  then have "P (fst x, snd x + snd y')" if "unat (fst x) + 16 * snd x = unat (fst y)"
    using that P(2) y'P by (auto intro: j)
  then show "\<forall>z \<in> set fl'. P z" using P(2) y'P fl' v'(1) by (auto split: if_splits)
qed

lemma free_link_ok:
  assumes sg: "seg m b (us @ x # vs) b" and so: "sorted_wrt gap (us @ x # vs)" and n: "hsize m (fst y) = of_nat (snd y)" "0 < snd y"
    and ap: "\<forall>z \<in> set (us @ x # vs). apart y z \<and> bend z \<le> B" and B: "B < 2 ^ 36" and y: "bend y \<le> B" "b < fst y"
    and xy: "fst x < fst y" "\<forall>v \<in> set vs. fst y < fst v"
  shows "\<exists>fl'. free_inserted us x vs y fl' \<and> (let m' = free_lower (fst y) (fst x) (free_upper (fst y) (fst x) m) in
    seg m' b fl' b \<and> (\<forall>a. a \<notin> hbytes (fst x) \<longrightarrow> a \<notin> hbytes (fst y) \<longrightarrow> m' a = m a))"
proof -
  define m1 where "m1 = free_upper (fst y) (fst x) m"
  have le: "k \<le> B \<Longrightarrow> k \<le> 2 ^ 36" for k using B by simp
  have ap': "\<forall>z \<in> set (us @ x # vs). apart y z \<and> bend z \<le> 2 ^ 36" using ap le by blast
  have bd: "bend y < 2 ^ 36" using B y(1) by simp
  have s3: "seg m b us (fst x)" "hsize m (fst x) = of_nat (snd x)" "seg m (hptr m (fst x)) vs b" and sv: "sorted_wrt gap vs"
    using sg so by (auto simp: seg_append sorted_wrt_append)
  obtain n' vs' where u: "seg m1 b us (fst x)" "hsize m1 (fst x) = of_nat (snd x)" "hsize m1 (fst y) = of_nat n'" "seg m1 (hptr m1 (fst y)) vs' b"
    "\<forall>a. a \<notin> hbytes (fst y) \<longrightarrow> m1 a = m a" "\<forall>v \<in> set vs'. gap (fst y, n') v"
    and c: "vs' = vs \<and> n' = snd y \<or> (\<exists>r. vs = r # vs' \<and> n' = snd y + snd r \<and> unat (fst r) = unat (fst y) + 16 * snd y)"
    using free_upper_ok [OF s3 n ap' y(2) xy(2) sv bd] unfolding Let_def m1_def [symmetric] by blast
  let ?y = "(fst y, n')"
  have y': "?y = y \<and> vs' = vs \<or> (\<exists>r. vs = r # vs' \<and> joins y r ?y)" using c n(2) by (auto simp: joins_def prod_eq_iff)
  have P: "P ?y" if "join_closed P" "P y" "\<forall>z \<in> set vs. P z" for P
    using y' that unfolding join_closed_def by (metis list.set_intros(1))
  have "apart x z \<and> bend z \<le> 2 ^ 36" if z: "z \<in> set us \<union> {?y} \<union> set vs'" for z
  proof -
    have g: "\<forall>u \<in> set us. gap u x" "\<forall>v \<in> set vs. gap x v" using so by (auto simp: sorted_wrt_append)
    have ga: "\<forall>u \<in> set us. apart x u" "\<forall>v \<in> set vs. apart x v \<and> apart v x" using g gap_apart apart_commute by blast+
    have "apart ?y x" by (rule P [OF join_closed_apart]) (use ap ga in auto)
    then have "apart x ?y" using apart_commute by blast
    moreover have "bend ?y \<le> B" by (rule P [OF join_closed_bend]) (use ap y(1) in auto)
    moreover have "set vs' \<subseteq> set vs" using y' by auto
    ultimately show ?thesis using z ga ap' le by auto
  qed
  moreover have "bend x < 2 ^ 36" using ap B by auto
  ultimately have l: "let m' = free_lower (fst y) (fst x) m1 in
      (if unat (fst x) + 16 * snd x = unat (fst y) then seg m' b (us @ (fst x, snd x + n') # vs') b else seg m' b (us @ x # ?y # vs') b) \<and>
      (\<forall>a. a \<notin> hbytes (fst x) \<longrightarrow> m' a = m1 a)"
    using free_lower_ok [of m1 b us x ?y vs', unfolded fst_conv snd_conv] u by simp
  define fl' where "fl' = (if unat (fst x) + 16 * snd x = unat (fst y) then us @ (fst x, snd x + n') # vs' else us @ x # ?y # vs')"
  have "free_inserted us x vs y fl'" unfolding free_inserted_def fl'_def using y' u(6)
    by (intro exI [of _ ?y] exI [of _ vs']) simp
  then show ?thesis using l u(5) unfolding fl'_def m1_def [symmetric] by (intro exI [of _ fl'] conjI) (auto simp: fl'_def Let_def split: if_splits)
qed

section \<open>The invariant\<close>

text \<open>
  \<open>fl\<close> is the free list in address order, starting at \<^verbatim>\<open>base\<close>; \<open>A\<close> the blocks handed out; \<open>b0\<close> the break
  before the first allocation. No two free blocks touch; all blocks are apart from each other; together
  they are exactly the memory between \<open>b0\<close> and the break.
\<close>

definition flist_ok :: "nat \<Rightarrow> uheap \<Rightarrow> blk list \<Rightarrow> bool" where
  "flist_ok b0 s fl \<longleftrightarrow> fl \<noteq> [] \<and> hd fl = (u_base s, 0) \<and> seg (um s) (u_base s) fl (u_base s) \<and> u_freep s \<in> fst ` set fl \<and>
     sorted_wrt gap fl \<and> (\<forall>z \<in> set fl. z = (u_base s, 0) \<or> b0 \<le> unat (fst z) \<and> 0 < snd z)"

definition alloc_ok :: "nat \<Rightarrow> uheap \<Rightarrow> blk set \<Rightarrow> bool" where
  "alloc_ok b0 s A \<longleftrightarrow> finite A \<and> (\<forall>y \<in> A. b0 \<le> unat (fst y) \<and> 0 < snd y \<and> hsize (um s) (fst y) = of_nat (snd y)) \<and>
     (\<forall>y \<in> A. \<forall>z \<in> A. y \<noteq> z \<longrightarrow> apart y z)"

definition heap_parts :: "nat \<Rightarrow> uheap \<Rightarrow> blk list \<Rightarrow> blk set \<Rightarrow> bool" where
  "heap_parts b0 s fl A \<longleftrightarrow> flist_ok b0 s fl \<and> alloc_ok b0 s A \<and> (\<forall>z \<in> set fl. \<forall>y \<in> A. apart z y) \<and>
     (\<forall>z \<in> set fl \<union> A. bend z \<le> unat (u_brk s)) \<and> unat (u_brk s) = b0 + 16 * (sum_list (map snd fl) + sum snd A) \<and>
     unat (u_brk s) < 2 ^ 36 \<and> 0 < u_base s \<and> bend (u_base s, 0) \<le> b0"

lemma bend64: "bend z \<le> k \<Longrightarrow> k < 2 ^ 36 \<Longrightarrow> unat (fst z) + 16 \<le> 2 ^ 64"
  by (simp add: bend_def)

lemma hadd_1: "hadd p 1 - 16 = p"
  by (simp add: hadd_def)

lemma free_ok:
  assumes ok: "heap_parts b0 s fl A" and y: "y \<in> A"
  shows "\<exists>s' fl'. free (hadd (fst y) 1) s = Some s' \<and> heap_parts b0 s' fl' (A - {y}) \<and> (\<exists>z \<in> set fl'. snd y \<le> snd z) \<and>
    u_base s' = u_base s \<and> u_brk s' = u_brk s \<and> (\<forall>z \<in> A - {y}. \<forall>a \<in> bspan z. um s' a = um s a)"
proof -
  let ?b = "u_base s"
  have f: "fl \<noteq> []" "hd fl = (?b, 0)" "seg (um s) ?b fl ?b" "u_freep s \<in> fst ` set fl" "sorted_wrt gap fl"
    "\<forall>z \<in> set fl. z = (?b, 0) \<or> b0 \<le> unat (fst z) \<and> 0 < snd z"
    using ok by (auto simp: heap_parts_def flist_ok_def)
  have a: "finite A" "\<forall>y \<in> A. b0 \<le> unat (fst y) \<and> 0 < snd y \<and> hsize (um s) (fst y) = of_nat (snd y)" "\<forall>y \<in> A. \<forall>z \<in> A. y \<noteq> z \<longrightarrow> apart y z"
    using ok by (auto simp: heap_parts_def alloc_ok_def)
  have h: "\<forall>z \<in> set fl. \<forall>y \<in> A. apart z y" "\<forall>z \<in> set fl \<union> A. bend z \<le> unat (u_brk s)" "unat (u_brk s) < 2 ^ 36" "bend (?b, 0) \<le> b0"
    "unat (u_brk s) = b0 + 16 * (sum_list (map snd fl) + sum snd A)" "0 < ?b"
    using ok by (auto simp: heap_parts_def)
  have by_less: "?b < fst y" using a(2) y h(4) by (auto simp: bend_def word_less_nat_alt)
  have ay: "\<forall>z \<in> set fl. apart y z" using h(1) y apart_commute by blast
  obtain us x vs where fl: "fl = us @ x # vs" and xy: "fst x < fst y" "\<forall>v \<in> set vs. fst y < fst v"
    using free_place [OF f(1) _ f(5) ay] f(2) by_less by auto
  have find: "free_find (um s) (fst y) (u_freep s) = Some (fst x)"
    by (rule free_find_place [of _ ?b us x vs]) (use f xy fl in auto)
  define m' where "m' = free_lower (fst y) (fst x) (free_upper (fst y) (fst x) (um s))"
  obtain fl' where i: "free_inserted us x vs y fl'" and m: "seg m' ?b fl' ?b"
    "\<forall>a. a \<notin> hbytes (fst x) \<longrightarrow> a \<notin> hbytes (fst y) \<longrightarrow> m' a = um s a"
    using free_link_ok [of "um s" ?b us x vs y "unat (u_brk s)"] f(3,5) a(2) y ay h(2,3) by_less xy
    unfolding fl m'_def Let_def by auto
  have xyap: "apart x y" "0 < snd y" using h(1) y a(2) fl by auto
  note g = free_inserted_facts [OF i f(5) [unfolded fl] xy(1) xyap, folded fl]
  define s' where "s' = s\<lparr>um := m', u_freep := fst x\<rparr>"
  have fr: "free (hadd (fst y) 1) s = Some s'" by (simp add: free_def hadd_1 find s'_def m'_def Let_def)
  have keep: "um s' a = um s a" if "z \<in> A - {y}" "a \<in> bspan z" for z a
  proof -
    have "apart x z" "apart y z" using that h(1) a(3) y fl by auto
    then have "a \<notin> bspan x" "a \<notin> bspan y" using that(2) by (auto simp: apart_def bend_def bspan_def)
    then show ?thesis using m(2) hbytes_bspan [of x] hbytes_bspan [of y] by (auto simp: s'_def)
  qed
  have "flist_ok b0 s' fl'" using g(1,2,5) f(2) m(1) g(6) [OF join_closed_low f(6)] a(2) y
    by (auto simp: flist_ok_def s'_def)
  moreover have "alloc_ok b0 s' (A - {y})"
  proof -
    have "hsize (um s') (fst z) = hsize (um s) (fst z)" if "z \<in> A - {y}" for z
      using keep [OF that] hbytes_bspan [of z] bend64 [OF _ h(3)] h(2) that by (intro header_cong) auto
    then show ?thesis using a by (auto simp: alloc_ok_def)
  qed
  moreover have "\<forall>z \<in> set fl'. apart z w" if "w \<in> A - {y}" for w
    by (rule g(6) [OF join_closed_apart]) (use that h(1) a(3) y in auto)
  moreover have "\<forall>z \<in> set fl'. bend z \<le> unat (u_brk s)"
    by (rule g(6) [OF join_closed_bend]) (use h(2) y in auto)
  then have "\<forall>z \<in> set fl' \<union> (A - {y}). bend z \<le> unat (u_brk s)" using h(2) by auto
  moreover have "sum snd A = snd y + sum snd (A - {y})" using a(1) y by (simp add: sum.remove)
  ultimately have "heap_parts b0 s' fl' (A - {y})" using g(3) h by (simp add: heap_parts_def s'_def)
  then show ?thesis using fr g(4) keep by (auto simp: s'_def)
qed

end
