(* ===== verification/Umallocspec.thy ===== *)
theory Umallocspec
  imports Umalloc
begin

text \<open>
  The user memory allocator is correct: \<^verbatim>\<open>malloc\<close> and \<^verbatim>\<open>free\<close> keep the invariant of \<open>Umalloc\<close>, return, and
  never touch the memory of the blocks handed out.
\<close>

section \<open>Taking a block\<close>

lemma heap_partsD:
  assumes "heap_parts b0 s fl A"
  shows "fl \<noteq> []" "hd fl = (u_base s, 0)" "seg (um s) (u_base s) fl (u_base s)" "u_freep s \<in> fst ` set fl" "sorted_wrt gap fl"
    "\<forall>z \<in> set fl. z = (u_base s, 0) \<or> b0 \<le> unat (fst z) \<and> 0 < snd z"
    "finite A" "\<forall>y \<in> A. b0 \<le> unat (fst y) \<and> 0 < snd y \<and> hsize (um s) (fst y) = of_nat (snd y)" "\<forall>y \<in> A. \<forall>z \<in> A. y \<noteq> z \<longrightarrow> apart y z"
    "\<forall>z \<in> set fl. \<forall>y \<in> A. apart z y" "\<forall>z \<in> set fl \<union> A. bend z \<le> unat (u_brk s)" "unat (u_brk s) < 2 ^ 36" "bend (u_base s, 0) \<le> b0"
    "unat (u_brk s) = b0 + 16 * (sum_list (map snd fl) + sum snd A)" "0 < u_base s"
  using assms unfolding heap_parts_def flist_ok_def alloc_ok_def by blast+

lemma apart_irrefl: "\<not> apart x x"
  by (auto simp: apart_def bend_def)

lemma apart_inside:
  assumes "apart z w" "unat (fst z) \<le> unat (fst y)" "bend y \<le> bend z"
  shows "apart y w"
  using assms by (auto simp: apart_def bend_def)

text \<open>A block that leaves the free list: all of \<open>z\<close>, or its upper part.\<close>

lemma taken_parts:
  assumes ok: "heap_parts b0 s (l1 @ w # z # l3) A" and zr: "zr = [] \<and> y = z \<or> (\<exists>k. zr = [(fst z, k)] \<and> 0 < k \<and> 0 < snd y \<and>
      k + snd y = snd z \<and> unat (fst y) = unat (fst z) + 16 * k)"
    and m: "seg m' (u_base s) (l1 @ w # zr @ l3) (u_base s)" "hsize m' (fst y) = of_nat (snd y)"
    "\<forall>x \<in> A. \<forall>a \<in> bspan x. m' a = um s a" and z: "0 < snd z"
  shows "heap_parts b0 (s\<lparr>um := m', u_freep := fst w\<rparr>) (l1 @ w # zr @ l3) (insert y A) \<and> y \<notin> A"
proof -
  note d = heap_partsD [OF ok]
  have in_z: "unat (fst z) \<le> unat (fst x)" "bend x \<le> bend z" if "x = y \<or> x \<in> set zr" for x
    using zr z that by (auto simp: bend_def max_def)
  have b0z: "b0 \<le> unat (fst z)" using d(6) z by auto
  have ay: "apart y x" if "x \<in> A" for x using apart_inside [of z x y] in_z [of y] d(10) that by auto
  have yA: "y \<notin> A" using ay apart_irrefl by blast
  have hs: "hsize m' (fst x) = of_nat (snd x)" if "x \<in> A" for x
    using d(8) that header_cong(2) [of "fst x" m' "um s"] m(3) hbytes_bspan [of x] bend64 [OF _ d(12)] d(11) by auto
  have so: "sorted_wrt gap (l1 @ w # zr @ l3)" using d(5) zr by (auto simp: sorted_wrt_append gap_def)
  have fl: "flist_ok b0 (s\<lparr>um := m', u_freep := fst w\<rparr>) (l1 @ w # zr @ l3)"
    using d(2,6) m(1) so zr b0z by (cases l1) (auto simp: flist_ok_def)
  have al: "alloc_ok b0 (s\<lparr>um := m', u_freep := fst w\<rparr>) (insert y A)"
    using d(7,8,9) ay hs m(2) zr z b0z by (auto simp: alloc_ok_def apart_commute)
  have zy: "apart x y" if "x \<in> set zr" for x using zr that by (auto simp: apart_def bend_def max_def)
  have "apart x y" if "x \<in> set (l1 @ w # l3)" for x
  proof -
    have "gap x z \<or> gap z x" using d(5) that by (auto simp: sorted_wrt_append)
    then have "apart z x" using gap_apart apart_commute by blast
    then show ?thesis using apart_inside [of z x y] in_z [of y] apart_commute by blast
  qed
  moreover have "apart x u" if "x \<in> set zr" "u \<in> A" for x u
    using apart_inside [of z u x] in_z [of x] d(10) that by auto
  ultimately have ap: "\<forall>x \<in> set (l1 @ w # zr @ l3). \<forall>u \<in> insert y A. apart x u" using d(10) zy by auto
  have bd: "\<forall>x \<in> set (l1 @ w # zr @ l3) \<union> insert y A. bend x \<le> unat (u_brk s)"
  proof -
    have zb: "bend z \<le> unat (u_brk s)" using d(11) by simp
    have "bend x \<le> unat (u_brk s)" if "x = y \<or> x \<in> set zr" for x using in_z(2) [OF that] zb by simp
    then show ?thesis using d(11) by auto
  qed
  have "sum snd (insert y A) = snd y + sum snd A" using d(7) yA by simp
  then have "unat (u_brk s) = b0 + 16 * (sum_list (map snd (l1 @ w # zr @ l3)) + sum snd (insert y A))" using d(14) zr by auto
  then show ?thesis using fl al ap bd d(12,13,15) yA by (simp add: heap_parts_def)
qed

lemma block_frame:
  assumes "apart x y" "bend x \<le> 2 ^ 36" "a \<in> bspan y"
  shows "set_ptr (fst x) v m a = m a" "set_size (fst x) n m a = m a"
proof -
  have "unat (fst x) + 16 \<le> bend x" "unat (fst y) \<le> unat a" "unat a < bend y" using assms(3) by (simp_all add: bend_def bspan_def)
  then have "a \<notin> hbytes (fst x)" using assms(1) unfolding apart_def hbytes_def by auto
  moreover have "unat (fst x) + 16 \<le> 2 ^ 64" using assms(2) by (simp add: bend_def)
  ultimately show "set_ptr (fst x) v m a = m a" "set_size (fst x) n m a = m a" using header_frame by blast+
qed

lemma before_node:
  assumes "heap_parts b0 s fl A" "z \<in> set fl" "0 < snd z" "prev \<in> fst ` set fl" "hptr (um s) prev = fst z"
  shows "\<exists>l1 w l3. fl = l1 @ w # z # l3 \<and> fst w = prev"
proof -
  note d = heap_partsD [OF assms(1)]
  have inj: "x = y" if "x \<in> set fl" "y \<in> set fl" "fst x = fst y" for x y
  proof (rule ccontr)
    assume "x \<noteq> y"
    then have "gap x y \<or> gap y x" using d(5) that(1,2) by (metis in_set_conv_nth linorder_neqE_nat sorted_wrt_iff_nth_less)
    then show False using that(3) by (auto simp: gap_def)
  qed
  have nb: "fst z \<noteq> u_base s" using inj [of z "hd fl"] hd_in_set [OF d(1)] d(2) assms(2,3) by auto
  obtain l1 w l2 where w: "fl = l1 @ w # l2" "fst w = prev" using assms(4) by (auto dest!: split_list)
  have "hptr (um s) (fst w) = (case l2 of [] \<Rightarrow> u_base s | x # _ \<Rightarrow> fst x)" using seg_next d(3) w(1) by blast
  then obtain x l3 where l2: "l2 = x # l3" "fst x = fst z" using nb assms(5) w(2) by (cases l2) auto
  then have "x = z" using inj [of x z] w(1) assms(2) by simp
  then show ?thesis using w l2 by blast
qed

text \<open>Two neighbours \<open>w\<close> and \<open>z\<close> of the free list.\<close>

lemma node_facts:
  assumes ok: "heap_parts b0 s (l1 @ w # z # l3) A"
  shows "bend z < 2 ^ 36" "bend w < 2 ^ 36" "snd z < 2 ^ 32" "apart w z"
    "seg (um s) (u_base s) l1 (fst w)" "hsize (um s) (fst w) = of_nat (snd w)" "hptr (um s) (fst w) = fst z"
    "hsize (um s) (fst z) = of_nat (snd z)" "seg (um s) (hptr (um s) (fst z)) l3 (u_base s)"
    "\<forall>x \<in> set l1 \<union> set l3 \<union> A. apart w x \<and> bend x \<le> 2 ^ 36" "\<forall>x \<in> set l1 \<union> set l3 \<union> {w} \<union> A. apart z x \<and> bend x \<le> 2 ^ 36"
proof -
  note d = heap_partsD [OF ok]
  show b: "bend z < 2 ^ 36" "bend w < 2 ^ 36" using d(11,12) by (auto intro: le_less_trans)
  show "snd z < 2 ^ 32" using b(1) by (simp add: bend_def)
  show "seg (um s) (u_base s) l1 (fst w)" "hsize (um s) (fst w) = of_nat (snd w)" "hptr (um s) (fst w) = fst z"
    "hsize (um s) (fst z) = of_nat (snd z)" "seg (um s) (hptr (um s) (fst z)) l3 (u_base s)"
    using d(3) by (auto simp: seg_append)
  have gp: "\<forall>x \<in> set l1. gap x w \<and> gap x z" "\<forall>x \<in> set l3. gap w x \<and> gap z x" "gap w z" using d(5) by (auto simp: sorted_wrt_append)
  show "apart w z" using gp(3) by (rule gap_apart)
  have le: "bend x \<le> 2 ^ 36" if "x \<in> set (l1 @ w # z # l3) \<union> A" for x using bspec [OF d(11) that] d(12) by simp
  have c: "\<forall>x \<in> set l1 \<union> set l3. apart w x \<and> apart z x" "apart z w" using gp gap_apart apart_commute by blast+
  show "\<forall>x \<in> set l1 \<union> set l3 \<union> A. apart w x \<and> bend x \<le> 2 ^ 36"
    "\<forall>x \<in> set l1 \<union> set l3 \<union> {w} \<union> A. apart z x \<and> bend x \<le> 2 ^ 36"
    using c d(10) le by (simp_all add: ball_Un)
qed

lemma take_whole:
  assumes ok: "heap_parts b0 s (l1 @ w # z # l3) A" and nu: "0 < unat nu" and eq: "snd z = unat nu"
  shows "\<exists>y s' fl'. malloc_take nu (fst w) (fst z) s = (hadd (fst y) 1, s') \<and> snd y = unat nu \<and> y \<notin> A \<and> heap_parts b0 s' fl' (insert y A) \<and>
    u_base s' = u_base s \<and> u_brk s' = u_brk s \<and> (\<forall>x \<in> A. \<forall>a \<in> bspan x. um s' a = um s a)"
proof -
  note nf = node_facts [OF ok]
  note bz = nf(1,2) and sz = nf(3) and wz = nf(4) and sg = nf(5-9) and apw = nf(10) and apz = nf(11)
  have e: "hsize (um s) (fst z) = nu" using sg(4) eq by simp
  let ?m = "set_ptr (fst w) (hptr (um s) (fst z)) (um s)"
  have "heap_parts b0 (s\<lparr>um := ?m, u_freep := fst w\<rparr>) (l1 @ w # [] @ l3) (insert z A) \<and> z \<notin> A"
  proof (rule taken_parts [OF ok])
    show "seg ?m (u_base s) (l1 @ w # [] @ l3) (u_base s)"
      using sg seg_other apw bz by (auto simp: seg_append)
    show "hsize ?m (fst z) = of_nat (snd z)" using sg(4) header_other(2) [OF wz] bz by simp
    show "\<forall>x \<in> A. \<forall>a \<in> bspan x. ?m a = um s a" by (intro ballI block_frame(1)) (use apw bz(2) in auto)
  qed (use eq nu in simp_all)
  moreover have "malloc_take nu (fst w) (fst z) s = (hadd (fst z) 1, s\<lparr>um := ?m, u_freep := fst w\<rparr>)"
    using e by (simp add: malloc_take_def Let_def)
  moreover have "\<forall>x \<in> A. \<forall>a \<in> bspan x. ?m a = um s a" by (intro ballI block_frame(1)) (use apw bz(2) in auto)
  ultimately show ?thesis using eq
    by (intro exI [of _ z] exI [of _ "s\<lparr>um := ?m, u_freep := fst w\<rparr>"] exI [of _ "l1 @ w # [] @ l3"]) simp
qed

lemma take_split:
  assumes ok: "heap_parts b0 s (l1 @ w # z # l3) A" and nu: "0 < unat nu" and lt: "unat nu < snd z"
  shows "\<exists>y s' fl'. malloc_take nu (fst w) (fst z) s = (hadd (fst y) 1, s') \<and> snd y = unat nu \<and> y \<notin> A \<and> heap_parts b0 s' fl' (insert y A) \<and>
    u_base s' = u_base s \<and> u_brk s' = u_brk s \<and> (\<forall>x \<in> A. \<forall>a \<in> bspan x. um s' a = um s a)"
proof -
  note nf = node_facts [OF ok]
  note bz = nf(1,2) and sz = nf(3) and wz = nf(4) and sg = nf(5-9) and apw = nf(10) and apz = nf(11)
  define k where "k = snd z - unat nu"
  define y where "y = (hadd (fst z) (of_nat k), unat nu)"
  have k: "0 < k" "k + unat nu = snd z" using lt by (auto simp: k_def)
  have e: "hsize (um s) (fst z) \<noteq> nu" using sg(4) lt sz by (auto simp: unat_of_nat)
  have e': "of_nat (snd z) - nu = of_nat k" unfolding k(2) [symmetric] by simp
  have q: "unat (fst y) = unat (fst z) + 16 * k" unfolding y_def fst_conv
    by (rule unat_hadd) (use bz(1) k in \<open>simp add: bend_def\<close>)
  let ?m1 = "set_size (fst z) (of_nat k) (um s)" let ?m = "set_size (fst y) nu ?m1"
  have yb: "bend y \<le> bend z" "apart z' y" if "z' = (fst z, k)" for z'
    using q k nu that by (auto simp: y_def bend_def apart_def max_def)
  have apy: "\<forall>x \<in> set l1 \<union> set l3 \<union> {w} \<union> A. apart y x" using apz apart_inside [of z _ y] yb(1) q by auto
  have apy': "apart y (fst z, k)" using yb(2) apart_commute by blast
  have zk: "bend (fst z, k) \<le> 2 ^ 36" "bend y \<le> 2 ^ 36" using bz(1) yb(1) k by (auto simp: bend_def max_def)
  have keep: "\<forall>x \<in> A. \<forall>a \<in> bspan x. ?m a = um s a"
  proof (intro ballI)
    fix x a assume x: "x \<in> A" "a \<in> bspan x"
    have "?m a = ?m1 a" by (rule block_frame(2)) (use apy zk x in auto)
    also have "\<dots> = um s a" by (rule block_frame(2)) (use apz bz x in auto)
    finally show "?m a = um s a" .
  qed
  have "heap_parts b0 (s\<lparr>um := ?m, u_freep := fst w\<rparr>) (l1 @ w # [(fst z, k)] @ l3) (insert y A) \<and> y \<notin> A"
  proof (rule taken_parts [OF ok])
    show "[(fst z, k)] = [] \<and> y = z \<or> (\<exists>k'. [(fst z, k)] = [(fst z, k')] \<and> 0 < k' \<and> 0 < snd y \<and> k' + snd y = snd z \<and>
        unat (fst y) = unat (fst z) + 16 * k')" using k nu q by (simp add: y_def)
    have "seg ?m1 (u_base s) (l1 @ w # (fst z, k) # l3) (u_base s)"
      using sg seg_other(2) [of _ z] header_other(3,4) [of z w] apz bz by (auto simp: seg_append)
    then show "seg ?m (u_base s) (l1 @ w # [(fst z, k)] @ l3) (u_base s)"
      using seg_other(2) [of "l1 @ w # (fst z, k) # l3" y] apy apy' apz zk by auto
    show "hsize ?m (fst y) = of_nat (snd y)" by (simp add: y_def)
    show "\<forall>x \<in> A. \<forall>a \<in> bspan x. ?m a = um s a" by (rule keep)
  qed (use k nu in simp)
  moreover have "malloc_take nu (fst w) (fst z) s = (hadd (fst y) 1, s\<lparr>um := ?m, u_freep := fst w\<rparr>)"
    using e e' sg(4) by (simp add: malloc_take_def Let_def y_def)
  ultimately show ?thesis using keep
    by (intro exI [of _ y] exI [of _ "s\<lparr>um := ?m, u_freep := fst w\<rparr>"] exI [of _ "l1 @ w # [(fst z, k)] @ l3"]) (simp add: y_def)
qed

lemma malloc_take_ok:
  assumes ok: "heap_parts b0 s fl A" and z: "z \<in> set fl" "unat nu \<le> snd z" "0 < nu" and prev: "prev \<in> fst ` set fl" "hptr (um s) prev = fst z"
  shows "\<exists>y s' fl'. malloc_take nu prev (fst z) s = (hadd (fst y) 1, s') \<and> snd y = unat nu \<and> y \<notin> A \<and> heap_parts b0 s' fl' (insert y A) \<and>
    u_base s' = u_base s \<and> u_brk s' = u_brk s \<and> (\<forall>x \<in> A. \<forall>a \<in> bspan x. um s' a = um s a)"
proof -
  have nu: "0 < unat nu" using z(3) by (simp add: word_less_nat_alt)
  obtain l1 w l3 where fl: "fl = l1 @ w # z # l3" and w: "fst w = prev"
    using before_node [OF ok z(1) _ prev] z(2) nu by auto
  show ?thesis using take_whole [OF ok [unfolded fl] nu] take_split [OF ok [unfolded fl] nu] z(2) unfolding w by (cases "snd z = unat nu") simp_all
qed

section \<open>Scanning the list\<close>

lemma malloc_loop_step:
  "malloc_loop sbrk nu prevp p s =
     (if nu \<le> hsize (um s) p then Some (malloc_take nu prevp p s)
      else if p = u_freep s then Option.bind (morecore sbrk nu s) (\<lambda>(q, s1).
          if q = 0 then Some (0, s1) else malloc_loop sbrk nu q (hptr (um s1) q) s1)
      else malloc_loop sbrk nu p (hptr (um s) p) s)"
  by (subst malloc_loop.simps) simp

lemma malloc_skip:
  "seg (um s) p xs r \<Longrightarrow> \<forall>x \<in> set xs. snd x < unat nu \<and> fst x \<noteq> u_freep s \<Longrightarrow> hptr (um s) prevp = p \<Longrightarrow>
   \<exists>prev. prev \<in> insert prevp (fst ` set xs) \<and> hptr (um s) prev = r \<and> malloc_loop sbrk nu prevp p s = malloc_loop sbrk nu prev r s"
proof (induction xs arbitrary: p prevp)
  case (Cons x xs)
  have "\<not> nu \<le> hsize (um s) p"
  proof -
    have "snd x < 2 ^ 32" using Cons.prems(2) unsigned_less [of nu, where 'a = nat] by (auto intro: less_trans)
    moreover have "hsize (um s) p = of_nat (snd x)" "snd x < unat nu" using Cons.prems(1,2) by auto
    ultimately show ?thesis by (simp add: word_le_nat_alt unat_of_nat)
  qed
  then have "malloc_loop sbrk nu prevp p s = malloc_loop sbrk nu p (hptr (um s) p) s"
    using Cons.prems(1,2) by (subst malloc_loop_step) auto
  then show ?case using Cons.IH [of "hptr (um s) p" p] Cons.prems by auto
qed auto

lemma distinct_nodes: "sorted_wrt gap fl \<Longrightarrow> distinct (map fst fl)"
  by (induction fl) (auto dest!: gap_less)

text \<open>A block that is big enough is found and taken; without one, the memory is extended.\<close>

lemma malloc_scan:
  assumes ok: "heap_parts b0 s fl A"
  shows "(\<exists>z \<in> set fl. unat nu \<le> snd z) \<Longrightarrow> \<exists>prev z. malloc_loop sbrk nu (u_freep s) (hptr (um s) (u_freep s)) s = Some (malloc_take nu prev (fst z) s) \<and>
      z \<in> set fl \<and> unat nu \<le> snd z \<and> prev \<in> fst ` set fl \<and> hptr (um s) prev = fst z"
    "\<forall>z \<in> set fl. snd z < unat nu \<Longrightarrow> malloc_loop sbrk nu (u_freep s) (hptr (um s) (u_freep s)) s =
      Option.bind (morecore sbrk nu s) (\<lambda>(q, s1). if q = 0 then Some (0, s1) else malloc_loop sbrk nu q (hptr (um s1) q) s1)"
proof -
  note d = heap_partsD [OF ok]
  obtain us x vs where fl: "fl = us @ x # vs" and x: "fst x = u_freep s" using d(4) by (auto dest!: split_list)
  have ring: "seg (um s) (hptr (um s) (u_freep s)) (vs @ us @ [x]) (hptr (um s) (u_freep s))"
    using d(3) x by (auto simp: fl seg_append)
  have nx: "fst y \<noteq> u_freep s" if "y \<in> set (vs @ us)" for y
    using distinct_nodes [OF d(5)] that x by (force simp: fl)
  have small: "hsize (um s) (fst z) = of_nat (snd z)" "snd z < 2 ^ 32" if "z \<in> set fl" for z
  proof -
    show "hsize (um s) (fst z) = of_nat (snd z)" using that d(3) by (auto dest!: split_list simp: seg_append)
    show "snd z < 2 ^ 32" using bspec [OF d(11), of z] d(12) that by (simp add: bend_def)
  qed
  show "\<exists>prev z. malloc_loop sbrk nu (u_freep s) (hptr (um s) (u_freep s)) s = Some (malloc_take nu prev (fst z) s) \<and>
      z \<in> set fl \<and> unat nu \<le> snd z \<and> prev \<in> fst ` set fl \<and> hptr (um s) prev = fst z" if "\<exists>z \<in> set fl. unat nu \<le> snd z"
  proof -
    from that have "\<exists>z \<in> set (vs @ us @ [x]). unat nu \<le> snd z" by (auto simp: fl)
    then obtain ys z zs where r: "vs @ us @ [x] = ys @ z # zs" "unat nu \<le> snd z" "\<forall>y \<in> set ys. \<not> unat nu \<le> snd y"
      by (rule split_list_first_propE)
    have ys: "set ys \<subseteq> set (vs @ us)" using r(1) by (cases zs rule: rev_cases) (auto simp flip: append_assoc)
    have sg: "seg (um s) (hptr (um s) (u_freep s)) ys (fst z)" using ring unfolding r(1) by (auto simp: seg_append)
    have "\<forall>y \<in> set ys. snd y < unat nu \<and> fst y \<noteq> u_freep s" using nx ys r(3) by (meson not_le subsetD)
    then obtain prev where p: "prev \<in> insert (u_freep s) (fst ` set ys)" "hptr (um s) prev = fst z"
      "malloc_loop sbrk nu (u_freep s) (hptr (um s) (u_freep s)) s = malloc_loop sbrk nu prev (fst z) s"
      using malloc_skip [OF sg, of nu "u_freep s" sbrk] by blast
    have z: "z \<in> set fl" using arg_cong [OF r(1), of set] by (auto simp: fl)
    then have "nu \<le> hsize (um s) (fst z)" using small [OF z] r(2) by (simp add: word_le_nat_alt unat_of_nat)
    then have "malloc_loop sbrk nu prev (fst z) s = Some (malloc_take nu prev (fst z) s)" by (subst malloc_loop_step) simp
    moreover have "prev \<in> fst ` set fl" using p(1) ys x by (auto simp: fl)
    ultimately show ?thesis using p(2,3) z r(2) by (intro exI [of _ prev] exI [of _ z]) simp
  qed
  assume no: "\<forall>z \<in> set fl. snd z < unat nu"
  have sg: "seg (um s) (hptr (um s) (u_freep s)) (vs @ us) (u_freep s)" using ring x by (auto simp: seg_append)
  have "\<forall>y \<in> set (vs @ us). snd y < unat nu \<and> fst y \<noteq> u_freep s" using nx no by (simp add: fl ball_Un)
  then obtain prev where "malloc_loop sbrk nu (u_freep s) (hptr (um s) (u_freep s)) s = malloc_loop sbrk nu prev (u_freep s) s"
    using malloc_skip [OF sg, of nu "u_freep s" sbrk] by blast
  moreover have "\<not> nu \<le> hsize (um s) (u_freep s)" using small [of x] no x by (auto simp: fl word_le_nat_alt unat_of_nat)
  ultimately show "malloc_loop sbrk nu (u_freep s) (hptr (um s) (u_freep s)) s =
      Option.bind (morecore sbrk nu s) (\<lambda>(q, s1). if q = 0 then Some (0, s1) else malloc_loop sbrk nu q (hptr (um s1) q) s1)"
    by (simp add: malloc_loop_step [of sbrk nu prev "u_freep s"])
qed

section \<open>More memory\<close>

text \<open>What the allocator relies on of \<^verbatim>\<open>sbrk\<close> with a positive argument: it fails and changes nothing, or it
  returns the old break and the memory below it is as before; a process is smaller than \<open>2\<^sup>3\<^sup>6\<close> bytes.\<close>

definition sbrk_ok :: "(i32 \<Rightarrow> uheap \<Rightarrow> u64 \<times> uheap) \<Rightarrow> bool" where
  "sbrk_ok sbrk \<longleftrightarrow> (\<forall>n s. unat n < 2 ^ 31 \<longrightarrow>
     sbrk n s = (- 1, s) \<or>
     (\<exists>m. sbrk n s = (u_brk s, s\<lparr>u_brk := u_brk s + ucast n, um := m\<rparr>) \<and> unat (u_brk s) + unat n < 2 ^ 36 \<and>
        (\<forall>a. unat a < unat (u_brk s) \<longrightarrow> m a = um s a)))"

text \<open>The new memory as a block handed out: \<^verbatim>\<open>morecore\<close> then frees it.\<close>

lemma extended_parts:
  assumes ok: "heap_parts b0 s fl A" and n: "0 < unat nu" "unat (u_brk s) + 16 * unat nu < 2 ^ 36"
    and m: "\<forall>a. unat a < unat (u_brk s) \<longrightarrow> m a = um s a" and brk: "unat b = unat (u_brk s) + 16 * unat nu"
  defines "y \<equiv> (u_brk s, unat nu)" and "s1 \<equiv> s\<lparr>u_brk := b, um := set_size (u_brk s) nu m\<rparr>"
  shows "heap_parts b0 s1 fl (insert y A) \<and> y \<notin> A \<and> (\<forall>x \<in> A. \<forall>a \<in> bspan x. um s1 a = um s a)"
proof -
  note d = heap_partsD [OF ok]
  have y: "bend y = unat b" "bend y \<le> 2 ^ 36" "fst y = u_brk s" using n brk by (simp_all add: y_def bend_def)
  have ap: "apart y x" if "x \<in> set fl \<union> A" for x using bspec [OF d(11) that] by (auto simp: apart_def y_def)
  have yA: "y \<notin> A" using ap apart_irrefl by blast
  have same: "um s1 a = um s a" if "x \<in> set fl \<union> A" "a \<in> bspan x" for x a
  proof -
    have "um s1 a = m a" using block_frame(2) [OF ap [OF that(1)] y(2) that(2)] by (simp add: s1_def y_def)
    moreover have "unat a < unat (u_brk s)" using bspec [OF d(11) that(1)] that(2) by (simp add: bspan_def bend_def)
    ultimately show ?thesis using m by simp
  qed
  have hd: "hptr (um s1) (fst x) = hptr (um s) (fst x)" "hsize (um s1) (fst x) = hsize (um s) (fst x)" if "x \<in> set fl \<union> A" for x
    using header_cong [of "fst x" "um s1" "um s"] same [OF that] hbytes_bspan [of x] bend64 [OF bspec [OF d(11) that] d(12)] by blast+
  have "seg (um s1) (u_base s) fl (u_base s)" using d(3) seg_cong [of fl "um s1" "um s"] hd by simp
  then have "flist_ok b0 s1 fl" using d(1,2,4,5,6) by (simp add: flist_ok_def s1_def)
  moreover have "hsize (um s1) (fst y) = of_nat (snd y)" by (simp add: s1_def y_def)
  then have "alloc_ok b0 s1 (insert y A)"
  proof -
    have "\<forall>x \<in> A. apart y x \<and> apart x y" using ap apart_commute by blast
    moreover have "b0 \<le> unat (fst y)" "0 < snd y" using d(14) n(1) by (simp_all add: y_def)
    moreover have "\<forall>x \<in> A. hsize (um s1) (fst x) = of_nat (snd x)" using d(8) hd(2) by simp
    ultimately show ?thesis using d(7,8,9) \<open>hsize (um s1) (fst y) = of_nat (snd y)\<close> by (simp add: alloc_ok_def)
  qed
  moreover have "\<forall>z \<in> set fl. \<forall>x \<in> insert y A. apart z x" using d(10) ap apart_commute by blast
  moreover have "\<forall>z \<in> set fl \<union> insert y A. bend z \<le> unat (u_brk s1)"
  proof -
    have "bend z \<le> unat b" if "z \<in> set fl \<union> A" for z using bspec [OF d(11) that] brk by simp
    then show ?thesis using y(1) by (auto simp: s1_def)
  qed
  moreover have "sum snd (insert y A) = unat nu + sum snd A" using d(7) yA by (simp add: y_def)
  ultimately have "heap_parts b0 s1 fl (insert y A)" using d(12-15) n brk by (simp add: heap_parts_def s1_def)
  then show ?thesis using yA same by blast
qed

lemma morecore_ok:
  assumes ok: "heap_parts b0 s fl A" and sb: "sbrk_ok sbrk" and n: "0 < nu" "16 * unat nu < 2 ^ 31"
  shows "morecore sbrk nu s = Some (0, s) \<and> sbrk (of_nat (16 * max 4096 (unat nu))) s = (- 1, s) \<or>
    (\<exists>s' fl'. morecore sbrk nu s = Some (u_freep s', s') \<and> heap_parts b0 s' fl' A \<and> (\<exists>z \<in> set fl'. unat nu \<le> snd z) \<and>
      u_base s' = u_base s \<and> (\<forall>x \<in> A. \<forall>a \<in> bspan x. um s' a = um s a))"
proof -
  define nu' :: u32 where "nu' = (if nu < 4096 then 4096 else nu)"
  have nu': "0 < unat nu'" "16 * unat nu' < 2 ^ 31" "unat nu \<le> unat nu'"
    using n by (auto simp: nu'_def word_less_nat_alt)
  have up: "unat (ucast x :: u64) = unat x" for x :: u32
    using unsigned_less [of x, where 'a = nat] by (simp add: unsigned_ucast_eq take_bit_nat_eq_self)
  have "unat (ucast nu' * 16 :: u64) = 16 * unat nu'" using nu'(2) by (simp add: unat_word_ariths up)
  then have arg: "unat (ucast (ucast nu' * 16 :: u64) :: i32) = 16 * unat nu'"
    using nu'(2) by (simp add: unsigned_ucast_eq take_bit_nat_eq_self)
  let ?n = "ucast (ucast nu' * 16 :: u64) :: i32"
  have "unat ?n < 2 ^ 31" using arg nu'(2) by simp
  from sb [unfolded sbrk_ok_def, rule_format, OF this, of s] consider "sbrk ?n s = (- 1, s)" |
    m where "sbrk ?n s = (u_brk s, s\<lparr>u_brk := u_brk s + ucast ?n, um := m\<rparr>)" "unat (u_brk s) + unat ?n < 2 ^ 36"
      "\<forall>a. unat a < unat (u_brk s) \<longrightarrow> m a = um s a"
    by blast
  then show ?thesis
  proof cases
    case 1
    have "?n = of_nat (16 * unat nu')" unfolding arg [symmetric] by simp
    also have "unat nu' = max 4096 (unat nu)" by (simp add: nu'_def word_less_nat_alt)
    finally have "sbrk (of_nat (16 * max 4096 (unat nu))) s = (- 1, s)" using 1 by argo
    then show ?thesis using 1 by (simp add: morecore_def Let_def nu'_def [symmetric])
  next
    case (2 m)
    let ?s = "s\<lparr>u_brk := u_brk s + ucast ?n, um := set_size (u_brk s) nu' m\<rparr>" and ?y = "(u_brk s, unat nu')"
    have brk: "unat (u_brk s + ucast ?n) = unat (u_brk s) + 16 * unat nu'"
      using 2(2) arg by (simp add: unat_word_ariths up)
    have ext: "heap_parts b0 ?s fl (insert ?y A)" "?y \<notin> A" "\<forall>x \<in> A. \<forall>a \<in> bspan x. um ?s a = um s a"
      using extended_parts [OF ok nu'(1) _ 2(3) brk] 2(2) arg by simp_all
    obtain s' fl' where f: "free (hadd (u_brk s) 1) ?s = Some s'" "heap_parts b0 s' fl' A" "\<exists>z \<in> set fl'. unat nu' \<le> snd z"
      "u_base s' = u_base s" "\<forall>x \<in> A. \<forall>a \<in> bspan x. um s' a = um ?s a"
      using free_ok [OF ext(1), of ?y] ext(2) by auto
    have "u_brk s \<noteq> - 1" using 2(2) by (auto simp: unsigned_minus_1_eq_mask mask_eq_exp_minus_1)
    then have "morecore sbrk nu s = Some (u_freep s', s')"
      using 2(1) f(1) by (simp add: morecore_def Let_def nu'_def [symmetric])
    then show ?thesis using f ext(3) nu'(3) by (intro disjI2 exI [of _ s'] exI [of _ fl']) (auto intro: order_trans)
  qed
qed

lemma malloc_loop_ok:
  assumes ok: "heap_parts b0 s fl A" and sb: "sbrk_ok sbrk" and n: "0 < nu" "16 * unat nu < 2 ^ 31"
  shows "\<exists>p s'. malloc_loop sbrk nu (u_freep s) (hptr (um s) (u_freep s)) s = Some (p, s') \<and>
    (p = 0 \<and> s' = s \<and> sbrk (of_nat (16 * max 4096 (unat nu))) s = (- 1, s) \<or>
     (\<exists>y fl'. p = hadd (fst y) 1 \<and> snd y = unat nu \<and> y \<notin> A \<and> heap_parts b0 s' fl' (insert y A) \<and>
        (\<forall>x \<in> A. \<forall>a \<in> bspan x. um s' a = um s a)))"
proof -
  have hit: "\<exists>y s' fl'. malloc_loop sbrk nu (u_freep t) (hptr (um t) (u_freep t)) t = Some (hadd (fst y) 1, s') \<and> snd y = unat nu \<and> y \<notin> A \<and>
      heap_parts b0 s' fl' (insert y A) \<and> (\<forall>x \<in> A. \<forall>a \<in> bspan x. um s' a = um t a)"
    if t: "heap_parts b0 t ft A" "\<exists>z \<in> set ft. unat nu \<le> snd z" for t ft
  proof -
    obtain prev z where z: "malloc_loop sbrk nu (u_freep t) (hptr (um t) (u_freep t)) t = Some (malloc_take nu prev (fst z) t)"
      "z \<in> set ft" "unat nu \<le> snd z" "prev \<in> fst ` set ft" "hptr (um t) prev = fst z"
      using malloc_scan(1) [OF t, of sbrk] by blast
    obtain y s' fl' where y: "malloc_take nu prev (fst z) t = (hadd (fst y) 1, s')" "snd y = unat nu" "y \<notin> A"
      "heap_parts b0 s' fl' (insert y A)" "\<forall>x \<in> A. \<forall>a \<in> bspan x. um s' a = um t a"
      using malloc_take_ok [OF t(1) z(2,3) n(1) z(4,5)] by blast
    have "malloc_loop sbrk nu (u_freep t) (hptr (um t) (u_freep t)) t = Some (hadd (fst y) 1, s')" using z(1) y(1) by simp
    then show ?thesis using y(2-5) by (intro exI [of _ y] exI [of _ s'] exI [of _ fl']) simp
  qed
  show ?thesis
  proof (cases "\<exists>z \<in> set fl. unat nu \<le> snd z")
    case True
    then show ?thesis using hit [OF ok] by blast
  next
    case False
    then have no: "\<forall>z \<in> set fl. snd z < unat nu" by (simp add: not_le)
    note l = malloc_scan(2) [OF ok no, of sbrk]
    from morecore_ok [OF ok sb n] consider "morecore sbrk nu s = Some (0, s)" "sbrk (of_nat (16 * max 4096 (unat nu))) s = (- 1, s)" |
      s1 fl1 where "morecore sbrk nu s = Some (u_freep s1, s1)" "heap_parts b0 s1 fl1 A" "\<exists>z \<in> set fl1. unat nu \<le> snd z"
        "\<forall>x \<in> A. \<forall>a \<in> bspan x. um s1 a = um s a" by blast
    then show ?thesis
    proof cases
      case 1
      then show ?thesis using l by (intro exI [of _ 0] exI [of _ s]) simp
    next
      case (2 s1 fl1)
      note d = heap_partsD [OF 2(2)]
      have "u_freep s1 \<noteq> 0" using d(4,6,13,15) by (auto simp: bend_def)
      then have "malloc_loop sbrk nu (u_freep s) (hptr (um s) (u_freep s)) s =
          malloc_loop sbrk nu (u_freep s1) (hptr (um s1) (u_freep s1)) s1" using l 2(1) by simp
      then show ?thesis using hit [OF 2(2,3)] 2(4) by auto
    qed
  qed
qed

section \<open>The contract\<close>

text \<open>Before the first call \<^verbatim>\<open>freep\<close> is null and no memory has been obtained.\<close>

definition heap_ok :: "nat \<Rightarrow> uheap \<Rightarrow> blk set \<Rightarrow> bool" where
  "heap_ok b0 s A \<longleftrightarrow>
     (u_freep s = 0 \<and> A = {} \<and> unat (u_brk s) = b0 \<and> b0 < 2 ^ 36 \<and> 0 < u_base s \<and> bend (u_base s, 0) \<le> b0) \<or>
     (\<exists>fl. heap_parts b0 s fl A)"

text \<open>The state in which the scan starts.\<close>

definition heap_start :: "uheap \<Rightarrow> uheap" where
  "heap_start s = (if u_freep s = 0 then s\<lparr>um := set_size (u_base s) 0 (set_ptr (u_base s) (u_base s) (um s)), u_freep := u_base s\<rparr> else s)"

lemma heap_start_ok:
  assumes "heap_ok b0 s A"
  shows "\<exists>fl. heap_parts b0 (heap_start s) fl A" "\<forall>x \<in> A. \<forall>a \<in> bspan x. um (heap_start s) a = um s a"
proof -
  have z: "u_freep s \<noteq> 0" if "heap_parts b0 s fl A" for fl
    using heap_partsD(4,6,13,15) [OF that] by (auto simp: bend_def)
  show "\<exists>fl. heap_parts b0 (heap_start s) fl A"
  proof (cases "u_freep s = 0")
    case False
    then show ?thesis using assms by (auto simp: heap_ok_def heap_start_def)
  next
    case True
    then have "heap_parts b0 (heap_start s) [(u_base s, 0)] A" using assms z
      by (auto simp: heap_ok_def heap_start_def heap_parts_def flist_ok_def alloc_ok_def)
    then show ?thesis ..
  qed
  show "\<forall>x \<in> A. \<forall>a \<in> bspan x. um (heap_start s) a = um s a" using assms z by (auto simp: heap_ok_def heap_start_def)
qed

text \<open>The number of units for a request, which does not wrap.\<close>

lemma malloc_units:
  assumes "unat (n :: u32) < 2 ^ 31 - 32"
  shows "unat (ucast ((ucast n + 16 - 1 :: u64) div 16 + 1) :: u32) = (unat n + 15) div 16 + 1"
proof -
  have "unat (ucast n :: u64) = unat n"
    using unsigned_less [of n, where 'a = nat] by (simp add: unsigned_ucast_eq take_bit_nat_eq_self)
  then have "unat (ucast n + 16 - 1 :: u64) = unat n + 15" using assms by (simp add: unat_word_ariths)
  then have "unat ((ucast n + 16 - 1 :: u64) div 16) = (unat n + 15) div 16" by (simp add: unat_div)
  then have "unat ((ucast n + 16 - 1 :: u64) div 16 + 1) = (unat n + 15) div 16 + 1"
    using assms by (simp add: unat_word_ariths)
  then show ?thesis using assms by (simp add: unsigned_ucast_eq take_bit_nat_eq_self)
qed

lemma malloc_ok:
  assumes ok: "heap_ok b0 s A" and sb: "sbrk_ok sbrk" and n: "unat n < 2 ^ 31 - 32"
  shows "\<exists>p s'. malloc sbrk n s = Some (p, s') \<and> (\<forall>x \<in> A. \<forall>a \<in> bspan x. um s' a = um s a) \<and>
    (p = 0 \<and> heap_ok b0 s' A \<and> u_brk s' = u_brk s \<and> sbrk (of_nat (16 * max 4096 ((unat n + 15) div 16 + 1))) s' = (- 1, s') \<or>
     (\<exists>y fl. p = hadd (fst y) 1 \<and> snd y = (unat n + 15) div 16 + 1 \<and> y \<notin> A \<and> heap_parts b0 s' fl (insert y A)))"
proof -
  define nu :: u32 where "nu = ucast ((ucast n + 16 - 1 :: u64) div 16 + 1)"
  have nu: "unat nu = (unat n + 15) div 16 + 1" unfolding nu_def by (rule malloc_units [OF n])
  have b: "0 < nu" "16 * unat nu < 2 ^ 31" unfolding word_less_nat_alt nu using n by auto
  obtain fl where fl: "heap_parts b0 (heap_start s) fl A" using heap_start_ok(1) [OF ok] by blast
  have "malloc sbrk n s = malloc_loop sbrk nu (u_freep (heap_start s)) (hptr (um (heap_start s)) (u_freep (heap_start s))) (heap_start s)"
    by (simp add: malloc_def Let_def nu_def heap_start_def)
  then show ?thesis using malloc_loop_ok [OF fl sb b] heap_start_ok(2) [OF ok] fl nu
    by (fastforce simp: heap_ok_def heap_start_def)
qed

text \<open>C7: The user memory allocator is correct. Blocks handed out never overlap, lie in memory the process
  owns and keep their contents: from any state reached by allocations and releases, \<^verbatim>\<open>malloc\<close> of up to
  2^31 - 33 bytes returns: null only if \<^verbatim>\<open>sbrk\<close> refuses, else a block that is large enough and apart from every block in
  use, and \<^verbatim>\<open>free\<close> of a block in use returns; both leave every other block in use untouched, byte for
  byte, and keep the invariant, in which free blocks and blocks in use are exactly the memory obtained
  from \<^verbatim>\<open>sbrk\<close>, so none is lost, and no two free blocks touch.\<close>

theorem malloc_free_correct:
  assumes "heap_ok b0 s A" and "sbrk_ok sbrk" and "unat n < 2 ^ 31 - 32"
  shows "(\<exists>p s'. malloc sbrk n s = Some (p, s') \<and> (\<forall>x \<in> A. \<forall>a \<in> bspan x. um s' a = um s a) \<and>
      (p = 0 \<and> heap_ok b0 s' A \<and> u_brk s' = u_brk s \<and> sbrk (of_nat (16 * max 4096 ((unat n + 15) div 16 + 1))) s' = (- 1, s') \<or>
       (\<exists>y. heap_ok b0 s' (insert y A) \<and> unat p = unat (fst y) + 16 \<and> unat p + unat n \<le> bend y \<and> bend y \<le> unat (u_brk s') \<and>
          (\<forall>x \<in> A. bspan x \<inter> bspan y = {})))) \<and>
    (\<forall>y \<in> A. \<exists>s'. free (hadd (fst y) 1) s = Some s' \<and> heap_ok b0 s' (A - {y}) \<and> (\<forall>x \<in> A - {y}. \<forall>a \<in> bspan x. um s' a = um s a))"
proof (intro conjI ballI)
  obtain p s' where m: "malloc sbrk n s = Some (p, s')" "\<forall>x \<in> A. \<forall>a \<in> bspan x. um s' a = um s a"
    and c: "p = 0 \<and> heap_ok b0 s' A \<and> u_brk s' = u_brk s \<and> sbrk (of_nat (16 * max 4096 ((unat n + 15) div 16 + 1))) s' = (- 1, s') \<or>
      (\<exists>y fl. p = hadd (fst y) 1 \<and> snd y = (unat n + 15) div 16 + 1 \<and> y \<notin> A \<and> heap_parts b0 s' fl (insert y A))"
    using malloc_ok [OF assms] by blast
  show "\<exists>p s'. malloc sbrk n s = Some (p, s') \<and> (\<forall>x \<in> A. \<forall>a \<in> bspan x. um s' a = um s a) \<and>
      (p = 0 \<and> heap_ok b0 s' A \<and> u_brk s' = u_brk s \<and> sbrk (of_nat (16 * max 4096 ((unat n + 15) div 16 + 1))) s' = (- 1, s') \<or>
       (\<exists>y. heap_ok b0 s' (insert y A) \<and> unat p = unat (fst y) + 16 \<and> unat p + unat n \<le> bend y \<and> bend y \<le> unat (u_brk s') \<and>
          (\<forall>x \<in> A. bspan x \<inter> bspan y = {})))"
  proof (cases "p = 0 \<and> heap_ok b0 s' A \<and> u_brk s' = u_brk s \<and> sbrk (of_nat (16 * max 4096 ((unat n + 15) div 16 + 1))) s' = (- 1, s')")
    case True
    then show ?thesis using m by blast
  next
    case False
    with c obtain y fl where y: "p = hadd (fst y) 1" "snd y = (unat n + 15) div 16 + 1" "y \<notin> A" "heap_parts b0 s' fl (insert y A)" by blast
    note d = heap_partsD [OF y(4)]
    have be: "bend y \<le> unat (u_brk s')" using d(11) by simp
    then have p: "unat p = unat (fst y) + 16" using unat_hadd [of "fst y" 1] d(12) y(1) by (simp add: bend_def)
    have "unat p + unat n \<le> bend y" using p y(2) by (simp add: bend_def)
    moreover have "bspan x \<inter> bspan y = {}" if "x \<in> A" for x
    proof -
      have "x \<noteq> y" using y(3) that by auto
      then have "apart x y" using bspec [OF bspec [OF d(9)], of x y] that by simp
      then show ?thesis unfolding apart_def bspan_def bend_def [symmetric] by auto
    qed
    moreover have "heap_ok b0 s' (insert y A)" using y(4) unfolding heap_ok_def by blast
    ultimately show ?thesis using m p be by blast
  qed
next
  fix y assume y: "y \<in> A"
  then obtain fl where "heap_parts b0 s fl A" using assms(1) unfolding heap_ok_def by blast
  from free_ok [OF this y] show "\<exists>s'. free (hadd (fst y) 1) s = Some s' \<and> heap_ok b0 s' (A - {y}) \<and>
      (\<forall>x \<in> A - {y}. \<forall>a \<in> bspan x. um s' a = um s a)" unfolding heap_ok_def by blast
qed

text \<open>A process whose data end at \<open>0x4000\<close> and that may grow to 128 megabytes.\<close>

definition sbrk_demo :: "i32 \<Rightarrow> uheap \<Rightarrow> u64 \<times> uheap" where
  "sbrk_demo n s = (if unat (u_brk s) + unat n \<le> 2 ^ 27 then (u_brk s, s\<lparr>u_brk := u_brk s + ucast n\<rparr>) else (- 1, s))"

definition heap0 :: uheap where
  "heap0 = \<lparr>um = \<lambda>_. 0, u_base = 0x1010, u_freep = 0, u_brk = 0x4000\<rparr>"

lemma sbrk_demo_ok: "sbrk_ok sbrk_demo"
proof -
  have "sbrk_demo n s = (- 1, s) \<or> (\<exists>m. sbrk_demo n s = (u_brk s, s\<lparr>u_brk := u_brk s + ucast n, um := m\<rparr>) \<and>
      unat (u_brk s) + unat n < 2 ^ 36 \<and> (\<forall>a. unat a < unat (u_brk s) \<longrightarrow> m a = um s a))" for n s
    by (cases "unat (u_brk s) + unat n \<le> 2 ^ 27") (auto simp: sbrk_demo_def intro!: exI [of _ "um s"])
  then show ?thesis unfolding sbrk_ok_def by blast
qed

theorem malloc_free_correct_witness:
  "\<exists>p s' y. malloc sbrk_demo 100 heap0 = Some (p, s') \<and> heap_ok 0x4000 s' {y} \<and> unat p = unat (fst y) + 16 \<and> unat p + 100 \<le> bend y \<and>
    (\<exists>s2. free (hadd (fst y) 1) s' = Some s2 \<and> heap_ok 0x4000 s2 {})"
proof -
  have h: "heap_ok 0x4000 heap0 {}" by (simp add: heap_ok_def heap0_def bend_def)
  have no: "u_brk s' = u_brk heap0 \<Longrightarrow> sbrk_demo (of_nat (16 * max 4096 ((unat (100 :: u32) + 15) div 16 + 1))) s' \<noteq> (- 1, s')" for s'
    by (simp add: sbrk_demo_def heap0_def)
  obtain p s' y where m: "malloc sbrk_demo 100 heap0 = Some (p, s')" "heap_ok 0x4000 s' {y}" "unat p = unat (fst y) + 16" "unat p + 100 \<le> bend y"
    using malloc_free_correct [OF h sbrk_demo_ok, of 100] no by auto
  have "\<exists>s2. free (hadd (fst y) 1) s' = Some s2 \<and> heap_ok 0x4000 s2 {}"
    using malloc_free_correct [OF m(2) sbrk_demo_ok, of 100] by auto
  then show ?thesis using m by blast
qed

text \<open>Above that size the argument of \<^verbatim>\<open>sbrk\<close> wraps: for 2^32 - 1 bytes, \<^verbatim>\<open>morecore\<close> asks for 16 bytes and
  enters a block of more than 2^32 bytes into the free list.\<close>

lemma malloc_size_wraps:
  "(ucast ((ucast (0xFFFFFFFF :: u32) + 16 - 1 :: u64) div 16 + 1) :: u32) = 0x10000001 \<and>
   morecore sbrk 0x10000001 s = (case sbrk 16 s of (p, s1) \<Rightarrow>
     if p = - 1 then Some (0, s1)
     else Option.bind (free (hadd p 1) (s1\<lparr>um := set_size p 0x10000001 (um s1)\<rparr>)) (\<lambda>s2. Some (u_freep s2, s2)))"
proof -
  have w: "(4294967312 :: u32) = 16" by (subst word_unat_eq_iff) simp
  show ?thesis by (simp add: morecore_def Let_def w)
qed

end
