(* ===== verification/Uthread.thy ===== *)
theory Uthread
  imports Umalloc
begin

text \<open>
  User-level threads: \<^verbatim>\<open>user/uthread.c\<close>, the context switch \<^verbatim>\<open>user/tswtch.S\<close>, the setup of the main thread
  in \<^verbatim>\<open>_main\<close> of \<^verbatim>\<open>user/ulib.c\<close> and the locks of \<^verbatim>\<open>user/lock.c\<close>. A \<^verbatim>\<open>struct thread\<close> is a record at its
  address; \<open>ut_regs\<close> are the registers a switch saves and loads, so after \<^verbatim>\<open>tswtch\<close> they are those of the
  thread that runs. Functions that return only after other threads have run take the effect of those
  threads as a parameter \<open>E\<close> and a bound on the number of switches.
\<close>

section \<open>Threads\<close>

datatype ustate = U_UNUSED | U_USED | U_SLEEPING | U_RUNNABLE | U_RUNNING | U_ZOMBIE | U_EXITED

record tcontext =
  tc_ra :: u64
  tc_sp :: u64
  tc_s :: "u64 list"

record thread =
  t_tid :: u8
  t_ctx :: tcontext
  t_state :: ustate
  t_arg :: u64
  t_func :: u64
  t_ret :: u64

record uthr =
  ut_heap :: uheap
  ut_mem :: "u64 \<Rightarrow> thread"
  threads :: "u64 list"
  current_thread :: u64
  next_tid :: i32
  ut_regs :: tcontext
  k_thread_wrapper :: u64

definition upd_thr :: "u64 \<Rightarrow> (thread \<Rightarrow> thread) \<Rightarrow> uthr \<Rightarrow> uthr" where
  "upd_thr t f s = s\<lparr>ut_mem := (ut_mem s)(t := f (ut_mem s t))\<rparr>"

definition tswtch :: "u64 \<Rightarrow> u64 \<Rightarrow> uthr \<Rightarrow> uthr" where
  "tswtch old new s =
     (let s1 = upd_thr old (\<lambda>t. t\<lparr>t_ctx := ut_regs s\<rparr>) s in s1\<lparr>ut_regs := t_ctx (ut_mem s1 new)\<rparr>)"

section \<open>The scheduler\<close>

definition current_index :: "uthr \<Rightarrow> nat" where
  "current_index s = (case find (\<lambda>i. threads s ! i = current_thread s) [0..<16] of Some i \<Rightarrow> i | None \<Rightarrow> 0)"

definition slot_runnable :: "uthr \<Rightarrow> nat \<Rightarrow> bool" where
  "slot_runnable s i \<longleftrightarrow> threads s ! i \<noteq> 0 \<and> t_state (ut_mem s (threads s ! i)) = U_RUNNABLE"

definition tsched :: "uthr \<Rightarrow> uthr" where
  "tsched s =
     (case find (\<lambda>i. slot_runnable s ((current_index s + i) mod 16)) [1..<17] of
        None \<Rightarrow> s
      | Some i \<Rightarrow>
        let next_thread = threads s ! ((current_index s + i) mod 16); prev_thread = current_thread s
        in tswtch prev_thread next_thread (s\<lparr>current_thread := next_thread\<rparr>))"

definition tyield :: "uthr \<Rightarrow> uthr" where
  "tyield s = tsched (upd_thr (current_thread s) (\<lambda>t. t\<lparr>t_state := U_RUNNABLE\<rparr>) s)"

text \<open>A thread whose function has returned.\<close>

definition thread_exit :: "uthr \<Rightarrow> uthr" where
  "thread_exit s = tsched (upd_thr (current_thread s) (\<lambda>t. t\<lparr>t_state := U_EXITED\<rparr>) s)"

text \<open>\<open>call\<close> is the effect of the thread's function on its argument, with the switches it makes.\<close>

definition thread_wrapper :: "(u64 \<Rightarrow> u64 \<Rightarrow> uthr \<Rightarrow> uthr) \<Rightarrow> uthr \<Rightarrow> uthr" where
  "thread_wrapper call s =
     (let t = ut_mem s (current_thread s) in thread_exit (call (t_func t) (t_arg t) s))"

definition twhoami :: "uthr \<Rightarrow> u8" where
  "twhoami s = t_tid (ut_mem s (current_thread s))"

section \<open>Creation\<close>

definition sizeof_thread :: u32 where "sizeof_thread = 152"

definition ut_malloc :: "(i32 \<Rightarrow> uheap \<Rightarrow> u64 \<times> uheap) \<Rightarrow> u32 \<Rightarrow> uthr \<Rightarrow> (u64 \<times> uthr) res" where
  "ut_malloc sbrk n s =
     (case malloc sbrk n (ut_heap s) of None \<Rightarrow> Inl (Blocked ''malloc'') | Some (p, h) \<Rightarrow> Inr (p, s\<lparr>ut_heap := h\<rparr>))"

definition add_thread :: "u64 \<Rightarrow> uthr \<Rightarrow> uthr" where
  "add_thread t s =
     (case find (\<lambda>i. threads s ! i = 0) [0..<16] of None \<Rightarrow> s | Some i \<Rightarrow> s\<lparr>threads := (threads s)[i := t]\<rparr>)"

text \<open>The results of \<^verbatim>\<open>malloc\<close> are used unchecked: a store through a null pointer faults.\<close>

definition tcreate :: "(i32 \<Rightarrow> uheap \<Rightarrow> u64 \<times> uheap) \<Rightarrow> u64 \<Rightarrow> u64 \<Rightarrow> uthr \<Rightarrow> (u64 \<times> uthr) res" where
  "tcreate sbrk func arg s =
     bindE (ut_malloc sbrk sizeof_thread s) (\<lambda>(t, s1).
       if t = 0 then Inl (Undef ''tcreate: null thread'')
       else let s2 = upd_thr t (\<lambda>x. x\<lparr>t_state := U_RUNNABLE, t_func := func, t_arg := arg, t_tid := ucast (next_tid s1)\<rparr>) s1;
                s3 = s2\<lparr>next_tid := next_tid s2 + 1\<rparr>
            in bindE (ut_malloc sbrk 4096 s3) (\<lambda>(stk, s4).
                 Inr (t, add_thread t (upd_thr t (\<lambda>x. x\<lparr>t_ctx := (t_ctx x)\<lparr>tc_sp := stk + 4096, tc_ra := k_thread_wrapper s4\<rparr>\<rparr>) s4))))"

text \<open>\<^verbatim>\<open>_main\<close> up to the call of \<^verbatim>\<open>main\<close>.\<close>

definition main_thread_init :: "(i32 \<Rightarrow> uheap \<Rightarrow> u64 \<times> uheap) \<Rightarrow> uthr \<Rightarrow> uthr res" where
  "main_thread_init sbrk s =
     bindE (ut_malloc sbrk sizeof_thread s) (\<lambda>(t, s1).
       if t = 0 then Inl (Undef ''_main: null thread'')
       else let s2 = upd_thr t (\<lambda>x. x\<lparr>t_tid := 1, t_state := U_RUNNING\<rparr>) s1;
                s3 = s2\<lparr>current_thread := t, threads := replicate 16 0\<rparr>
            in Inr (s3\<lparr>threads := (threads s3)[0 := t]\<rparr>))"

section \<open>Waiting for a thread\<close>

text \<open>\<open>E\<close> is what the other threads do from the switch away from the caller to the switch back.\<close>

fun tjoin_loop :: "nat \<Rightarrow> (uthr \<Rightarrow> uthr) \<Rightarrow> u64 \<Rightarrow> uthr \<Rightarrow> (i32 \<times> uthr) res" where
  "tjoin_loop 0 E t s = Inl (Blocked ''tjoin'')"
| "tjoin_loop (Suc n) E t s =
     (if t_state (ut_mem s t) \<noteq> U_EXITED then tjoin_loop n E t (E (tyield s)) else Inr (0, s))"

definition tjoin :: "nat \<Rightarrow> (uthr \<Rightarrow> uthr) \<Rightarrow> i32 \<Rightarrow> uthr \<Rightarrow> (i32 \<times> uthr) res" where
  "tjoin n E tid s =
     (case find (\<lambda>t. t \<noteq> 0 \<and> ucast (t_tid (ut_mem s t)) = tid) (threads s) of
        None \<Rightarrow> Inr (- 1, s) | Some t \<Rightarrow> tjoin_loop n E t s)"

section \<open>Locks\<close>

record ulock =
  ul_locked :: u8
  ul_name :: u64
  ul_tid :: u8

definition ul_initlock :: "u64 \<Rightarrow> ulock" where
  "ul_initlock name = \<lparr>ul_locked = 0, ul_name = name, ul_tid = - 1\<rparr>"

definition ul_holding :: "ulock \<Rightarrow> uthr \<Rightarrow> bool" where
  "ul_holding lk s \<longleftrightarrow> ul_locked lk \<noteq> 0 \<and> ul_tid lk = twhoami s"

text \<open>The atomic exchange on the lock word; \<open>E\<close> also gives the lock as the other threads leave it.
  \<^verbatim>\<open>exit(-1)\<close> ends the process.\<close>

fun ul_acquire_loop :: "nat \<Rightarrow> (ulock \<times> uthr \<Rightarrow> ulock \<times> uthr) \<Rightarrow> ulock \<Rightarrow> uthr \<Rightarrow> (ulock \<times> uthr) res" where
  "ul_acquire_loop 0 E lk s = Inl (Blocked ''acquire'')"
| "ul_acquire_loop (Suc n) E lk s =
     (let old = ul_locked lk; lk1 = lk\<lparr>ul_locked := 1\<rparr> in
      if old \<noteq> 0 then (case E (lk1, tyield s) of (lk2, s2) \<Rightarrow> ul_acquire_loop n E lk2 s2)
      else Inr (lk1\<lparr>ul_tid := twhoami s\<rparr>, s))"

definition ul_acquire :: "nat \<Rightarrow> (ulock \<times> uthr \<Rightarrow> ulock \<times> uthr) \<Rightarrow> ulock \<Rightarrow> uthr \<Rightarrow> (ulock \<times> uthr) res" where
  "ul_acquire n E lk s =
     (if ul_holding lk s then Inl (Panic ''re-acquiring lock we already hold'') else ul_acquire_loop n E lk s)"

definition ul_release :: "(ulock \<times> uthr \<Rightarrow> ulock \<times> uthr) \<Rightarrow> ulock \<Rightarrow> uthr \<Rightarrow> (ulock \<times> uthr) res" where
  "ul_release E lk s =
     (if \<not> ul_holding lk s then Inl (Panic ''releasing lock we are not holding'')
      else Inr (E (lk\<lparr>ul_tid := - 1, ul_locked := 0\<rparr>, tyield s)))"

end
