(* ===== verification/Uthreadspec.thy ===== *)
theory Uthreadspec
  imports Uthread
begin

text \<open>
  The thread library schedules round robin: the threads that can run take turns in the order of their
  slots, and each goes on with the registers it was switched out with.
\<close>

section \<open>Well-formed thread tables\<close>

text \<open>The running thread is in the table, and no thread is there twice.\<close>

definition ut_ok :: "uthr \<Rightarrow> bool" where
  "ut_ok s \<longleftrightarrow> length (threads s) = 16 \<and> current_thread s \<noteq> 0 \<and> current_thread s \<in> set (threads s) \<and>
     (\<forall>i < 16. \<forall>j < 16. threads s ! i = threads s ! j \<longrightarrow> threads s ! i \<noteq> 0 \<longrightarrow> i = j)"

text \<open>The slots that take part: the runnable ones and that of the running thread.\<close>

definition can_run :: "uthr \<Rightarrow> nat \<Rightarrow> bool" where
  "can_run s i \<longleftrightarrow> slot_runnable s i \<or> threads s ! i = current_thread s"

text \<open>The registers with which a thread goes on.\<close>

definition ctx_of :: "uthr \<Rightarrow> u64 \<Rightarrow> tcontext" where
  "ctx_of s t = (if t = current_thread s then ut_regs s else t_ctx (ut_mem s t))"

lemma find_range:
  assumes "a \<le> i" "i < b" "P i" "\<forall>j. a \<le> j \<longrightarrow> j < i \<longrightarrow> \<not> P j"
  shows "find P [a..<b] = Some i"
  unfolding find_Some_iff by (intro exI [of _ "i - a"]) (use assms in auto)

lemma ut_ok_inj: "ut_ok s \<Longrightarrow> i < 16 \<Longrightarrow> j < 16 \<Longrightarrow> threads s ! i = threads s ! j \<Longrightarrow> threads s ! i \<noteq> 0 \<Longrightarrow> i = j"
  unfolding ut_ok_def by blast

lemma current_index_eq:
  assumes "ut_ok s" "i < 16" "threads s ! i = current_thread s"
  shows "current_index s = i"
proof -
  have "threads s ! j \<noteq> current_thread s" if "j < i" for j
    using ut_ok_inj [OF assms(1), of j i] assms that by (auto simp: ut_ok_def)
  then have "find (\<lambda>i. threads s ! i = current_thread s) [0..<16] = Some i"
    by (intro find_range) (simp_all add: assms)
  then show ?thesis by (simp only: current_index_def option.case)
qed

lemma current_index_slot:
  assumes "ut_ok s"
  shows "current_index s < 16" "threads s ! current_index s = current_thread s"
proof -
  obtain i where i: "i < 16" "threads s ! i = current_thread s" using assms by (auto simp: ut_ok_def in_set_conv_nth)
  then show "current_index s < 16" "threads s ! current_index s = current_thread s" using current_index_eq [OF assms i] by simp_all
qed

section \<open>One yield\<close>

lemma tyield_step:
  assumes ok: "ut_ok s"
  defines "c \<equiv> current_index s"
  shows "\<exists>i. 1 \<le> i \<and> i \<le> 16 \<and> can_run s ((c + i) mod 16) \<and> (\<forall>j. 1 \<le> j \<longrightarrow> j < i \<longrightarrow> \<not> can_run s ((c + j) mod 16)) \<and>
    threads (tyield s) = threads s \<and> current_index (tyield s) = (c + i) mod 16 \<and> ut_ok (tyield s) \<and>
    (\<forall>x < 16. can_run (tyield s) x = can_run s x) \<and> (\<forall>t. ctx_of (tyield s) t = ctx_of s t)"
proof -
  define s1 where "s1 = upd_thr (current_thread s) (\<lambda>t. t\<lparr>t_state := U_RUNNABLE\<rparr>) s"
  note c = current_index_slot [OF ok, folded c_def]
  have s1: "threads s1 = threads s" "current_thread s1 = current_thread s" "ut_regs s1 = ut_regs s"
    "ut_mem s1 = (ut_mem s)(current_thread s := (ut_mem s (current_thread s))\<lparr>t_state := U_RUNNABLE\<rparr>)"
    by (simp_all add: s1_def upd_thr_def)
  have ci: "current_index s1 = c" by (simp only: current_index_def c_def s1)
  have nz: "current_thread s \<noteq> 0" using ok by (simp add: ut_ok_def)
  have run: "slot_runnable s1 x \<longleftrightarrow> can_run s x" for x using nz by (auto simp: slot_runnable_def can_run_def s1)
  define P where "P = (\<lambda>i. can_run s ((c + i) mod 16))"
  have "P 16" using c by (simp add: P_def can_run_def)
  define i where "i = (LEAST i. 1 \<le> i \<and> P i)"
  have i: "1 \<le> i \<and> P i" unfolding i_def by (rule LeastI [of _ 16]) (use \<open>P 16\<close> in simp)
  have i16: "i \<le> 16" unfolding i_def by (rule Least_le) (use \<open>P 16\<close> in simp)
  have no: "\<not> P j" if "1 \<le> j" "j < i" for j using not_less_Least [of j "\<lambda>i. 1 \<le> i \<and> P i"] that by (auto simp: i_def)
  have fd: "find P [1..<17] = Some i" by (rule find_range) (use i i16 no in auto)
  let ?n = "threads s ! ((c + i) mod 16)"
  have ty: "tyield s = tswtch (current_thread s) ?n (s1\<lparr>current_thread := ?n\<rparr>)"
    unfolding tyield_def s1_def [symmetric] tsched_def run ci P_def [symmetric] fd by (simp add: s1 Let_def)
  have t: "threads (tyield s) = threads s" "current_thread (tyield s) = ?n"
    "ut_mem (tyield s) = (ut_mem s1)(current_thread s := (ut_mem s1 (current_thread s))\<lparr>t_ctx := ut_regs s\<rparr>)"
    "ut_regs (tyield s) = t_ctx (ut_mem (tyield s) ?n)"
    by (simp_all add: ty tswtch_def upd_thr_def s1 Let_def)
  have nn: "?n \<noteq> 0" using i nz by (auto simp: P_def can_run_def slot_runnable_def)
  have ok': "ut_ok (tyield s)" using ok nn by (auto simp: ut_ok_def t)
  have "current_index (tyield s) = (c + i) mod 16" by (rule current_index_eq [OF ok']) (simp_all add: t)
  moreover have "can_run (tyield s) x = can_run s x" if "x < 16" for x
  proof -
    have "t_state (ut_mem (tyield s) u) = t_state (ut_mem s1 u)" for u by (simp add: t(3))
    then have "slot_runnable (tyield s) x = can_run s x" using run [of x] by (simp add: slot_runnable_def t(1) s1(1))
    moreover have "can_run s x" if "threads s ! x = ?n"
      using i ut_ok_inj [OF ok \<open>x < 16\<close> _ that] nn that by (simp add: P_def)
    ultimately show ?thesis by (auto simp: can_run_def [of "tyield s"] t)
  qed
  moreover have "ctx_of (tyield s) u = ctx_of s u" for u by (auto simp: ctx_of_def t s1)
  ultimately show ?thesis using i i16 no t(1) ok' unfolding P_def by (intro exI [of _ i]) auto
qed

section \<open>Taking turns\<close>

text \<open>The number of threads that take part among the next \<open>d\<close> slots.\<close>

definition turns :: "uthr \<Rightarrow> nat \<Rightarrow> nat" where
  "turns s d = length (filter (\<lambda>i. can_run s ((current_index s + i) mod 16)) [1..<Suc d])"

lemma turns_step:
  assumes "ut_ok s" "1 \<le> i" "i < d" "can_run s ((current_index s + i) mod 16)"
    and no: "\<forall>j. 1 \<le> j \<longrightarrow> j < i \<longrightarrow> \<not> can_run s ((current_index s + j) mod 16)"
    and s': "current_index s' = (current_index s + i) mod 16" "\<forall>x < 16. can_run s' x = can_run s x"
  shows "turns s d = Suc (turns s' (d - i))"
proof -
  let ?P = "\<lambda>i. can_run s ((current_index s + i) mod 16)"
  have l: "[1..<Suc d] = [1..<i] @ [i] @ map (\<lambda>j. i + j) [1..<Suc (d - i)]"
  proof -
    have "[1..<Suc d] = [1..<i] @ [i..<Suc d]" using upt_add_eq_append [of 1 i "Suc d - i"] assms(2,3) by simp
    also have "[i..<Suc d] = i # [Suc i..<Suc d]" using assms(3) by (simp add: upt_conv_Cons del: upt_Suc)
    also have "[Suc i..<Suc d] = map (\<lambda>j. j + i) [1..<Suc (d - i)]" 
      by (rule nth_equalityI) (use assms(3) in \<open>auto simp del: upt_Suc\<close>)
    finally show ?thesis by (simp add: add.commute)
  qed
  have "filter ?P [1..<i] = []" using no by (auto simp: filter_empty_conv)
  moreover have "?P (i + j) = can_run s' ((current_index s' + j) mod 16)" for j
    using s' by (simp add: mod_simps add.assoc)
  ultimately show ?thesis using assms(4) unfolding turns_def l by (simp add: filter_map comp_def del: upt_Suc)
qed

text \<open>C8: The thread library schedules round robin and switches contexts correctly. Count the threads that
  can run, by slot, from the one after the running thread up to slot \<open>c + d\<close>: when the running threads
  yield that many times, exactly the thread in that slot runs. So with at most 16 yields every runnable
  thread has its turn, the running thread itself last, and each thread goes on with the registers it
  was switched out with, or those \<^verbatim>\<open>tcreate\<close> gave it. The table stays well-formed.\<close>

theorem tyield_round_robin:
  assumes "ut_ok s" and "1 \<le> d" and "d \<le> 16" and "can_run s ((current_index s + d) mod 16)"
  shows "turns s d \<le> d \<and> ut_ok ((tyield ^^ turns s d) s) \<and>
    current_thread ((tyield ^^ turns s d) s) = threads s ! ((current_index s + d) mod 16) \<and>
    ut_regs ((tyield ^^ turns s d) s) = ctx_of s (threads s ! ((current_index s + d) mod 16))"
  using assms
proof (induction d arbitrary: s rule: less_induct)
  case (less d)
  obtain i where i: "1 \<le> i" "i \<le> 16" "can_run s ((current_index s + i) mod 16)"
    "\<forall>j. 1 \<le> j \<longrightarrow> j < i \<longrightarrow> \<not> can_run s ((current_index s + j) mod 16)"
    and t: "threads (tyield s) = threads s" "current_index (tyield s) = (current_index s + i) mod 16" "ut_ok (tyield s)"
      "\<forall>x < 16. can_run (tyield s) x = can_run s x" "\<forall>t. ctx_of (tyield s) t = ctx_of s t"
    using tyield_step [OF less.prems(1)] by blast
  have le: "turns s d \<le> d" unfolding turns_def by (rule order_trans [OF length_filter_le]) simp
  have "i \<le> d" using i(4) less.prems(2,4) by (meson not_le)
  show ?case
  proof (cases "i = d")
    case True
    have "filter (\<lambda>i. can_run s ((current_index s + i) mod 16)) [1..<d] = []" using i(4) True by (auto simp: filter_empty_conv)
    then have "turns s d = 1" using less.prems(2,4) by (simp add: turns_def upt_Suc_append)
    moreover note cs = current_index_slot(2) [OF t(3)]
    ultimately show ?thesis using le t True by (simp add: ctx_of_def [of "tyield s"]) (metis ctx_of_def)
  next
    case False
    then have id: "i < d" using \<open>i \<le> d\<close> by simp
    have n: "turns s d = Suc (turns (tyield s) (d - i))" by (rule turns_step [OF less.prems(1) i(1) id i(3,4) t(2,4)])
    have sl: "(current_index (tyield s) + (d - i)) mod 16 = (current_index s + d) mod 16"
      unfolding t(2) mod_add_left_eq using id by simp
    have "can_run (tyield s) ((current_index (tyield s) + (d - i)) mod 16)" using t(4) less.prems(4) sl by simp
    from less.IH [OF _ t(3) _ _ this] id i(1) less.prems(3)
    show ?thesis unfolding n sl using le n t(1,5) by (simp add: funpow_swap1 [symmetric])
  qed
qed

text \<open>The main thread in slot 0, two threads that can run in slots 1 and 3, one that has exited in between.\<close>

definition uthr0 :: uthr where
  "uthr0 = \<lparr>ut_heap = \<lparr>um = \<lambda>_. 0, u_base = 0x1010, u_freep = 0, u_brk = 0x4000\<rparr>,
     ut_mem = (\<lambda>t. \<lparr>t_tid = 1, t_ctx = \<lparr>tc_ra = 0x100, tc_sp = t + 4096, tc_s = replicate 12 0\<rparr>,
        t_state = (if t = 0x5000 then U_RUNNING else if t = 0x7000 then U_EXITED else U_RUNNABLE), t_arg = 0, t_func = 0, t_ret = 0\<rparr>),
     threads = [0x5000, 0x6000, 0x7000, 0x8000] @ replicate 12 0, current_thread = 0x5000, next_tid = 4,
     ut_regs = \<lparr>tc_ra = 0x200, tc_sp = 0x3F00, tc_s = replicate 12 7\<rparr>, k_thread_wrapper = 0x100\<rparr>"

lemma uthr0_ok: "ut_ok uthr0"
proof -
  have "\<forall>i \<in> set [0..<16]. \<forall>j \<in> set [0..<16]. threads uthr0 ! i = threads uthr0 ! j \<longrightarrow> threads uthr0 ! i \<noteq> 0 \<longrightarrow> i = j" by code_simp
  then show ?thesis unfolding ut_ok_def by (simp add: uthr0_def)
qed

theorem tyield_round_robin_witness:
  "current_thread (tyield (tyield uthr0)) = 0x8000 \<and> tc_sp (ut_regs (tyield (tyield uthr0))) = 0x9000 \<and>
   current_thread (tyield (tyield (tyield uthr0))) = 0x5000 \<and> ut_regs (tyield (tyield (tyield uthr0))) = ut_regs uthr0"
proof -
  have t: "turns uthr0 3 = 2" "turns uthr0 16 = 3" "current_index uthr0 = 0" "can_run uthr0 3" "can_run uthr0 0" by code_simp+
  have f: "threads uthr0 ! 3 = 0x8000" "threads uthr0 ! 0 = 0x5000" "ctx_of uthr0 0x5000 = ut_regs uthr0"
    "tc_sp (ctx_of uthr0 0x8000) = 0x9000" by (simp_all add: uthr0_def ctx_of_def)
  have m: "(0 + 3) mod 16 = (3 :: nat)" "(0 + 16) mod 16 = (0 :: nat)" by simp_all
  have p: "(tyield ^^ 2) u = tyield (tyield u)" "(tyield ^^ 3) u = tyield (tyield (tyield u))" for u by (simp_all add: eval_nat_numeral)
  have "current_thread (tyield (tyield uthr0)) = 0x8000 \<and> ut_regs (tyield (tyield uthr0)) = ctx_of uthr0 0x8000"
    using tyield_round_robin [OF uthr0_ok, of 3, unfolded t m p f] t(4) by simp
  moreover have "current_thread (tyield (tyield (tyield uthr0))) = 0x5000 \<and> ut_regs (tyield (tyield (tyield uthr0))) = ut_regs uthr0"
    using tyield_round_robin [OF uthr0_ok, of 16, unfolded t m p f] t(5) by simp
  ultimately show ?thesis using f(4) by simp
qed

section \<open>Thread identifiers\<close>

text \<open>The main thread has the identifier 1 and \<^verbatim>\<open>next_tid\<close> starts at 1, so the first thread created has the same;
  a lock it holds counts as held by the main thread too.\<close>

lemma first_thread_tid:
  assumes init: "main_thread_init sbrk s = Inr s1" "next_tid s = 1" and new: "tcreate sbrk f a s1 = Inr (t, s2)" "t \<noteq> current_thread s1"
  shows "t_tid (ut_mem s2 t) = 1 \<and> twhoami s2 = 1 \<and> ul_holding \<lparr>ul_locked = 1, ul_name = n, ul_tid = t_tid (ut_mem s2 t)\<rparr> s2"
proof -
  obtain h where s1: "next_tid s1 = 1" "t_tid (ut_mem s1 (current_thread s1)) = 1"
    using init by (auto simp: main_thread_init_def ut_malloc_def bindE_def upd_thr_def Let_def split: option.splits prod.splits if_splits)
  then have "t_tid (ut_mem s2 t) = 1 \<and> current_thread s2 = current_thread s1 \<and> t_tid (ut_mem s2 (current_thread s1)) = 1" using new
    by (auto simp: tcreate_def ut_malloc_def bindE_def upd_thr_def Let_def add_thread_def split: option.splits prod.splits if_splits)
  then show ?thesis by (simp add: twhoami_def ul_holding_def)
qed

end
