(* ===== verification/Grep.thy ===== *)
theory Grep
  imports Prelude
begin

text \<open>
  \<^verbatim>\<open>user/grep.c\<close>: the matcher for patterns with \<open>^\<close>, \<open>.\<close>, \<open>*\<close> and \<open>$\<close>, and the loop that reads a file in pieces
  and prints the matching lines. C strings are lists of bytes without the terminating zero. The
  matcher is proved equivalent to the language of the pattern, the loop to a filter on the lines.
\<close>

section \<open>The matcher\<close>

definition CARET :: u8 where "CARET = 94"
definition DOLLAR :: u8 where "DOLLAR = 36"
definition DOT :: u8 where "DOT = 46"
definition STAR :: u8 where "STAR = 42"
definition LF :: u8 where "LF = 10"

function matchhere :: "u8 list \<Rightarrow> u8 list \<Rightarrow> bool"
  and matchstar :: "u8 \<Rightarrow> u8 list \<Rightarrow> u8 list \<Rightarrow> bool" where
  "matchhere re t =
     (if re = [] then True
      else if tl re \<noteq> [] \<and> hd (tl re) = STAR then matchstar (hd re) (tl (tl re)) t
      else if hd re = DOLLAR \<and> tl re = [] then t = []
      else if t \<noteq> [] \<and> (hd re = DOT \<or> hd re = hd t) then matchhere (tl re) (tl t)
      else False)"
| "matchstar c re t =
     (if matchhere re t then True
      else if t \<noteq> [] \<and> (hd t = c \<or> c = DOT) then matchstar c re (tl t)
      else False)"
  by pat_completeness auto

termination
  by (relation "inv_image (less_than <*lex*> less_than <*lex*> less_than)
      (\<lambda>x. case x of Inl (re, t) \<Rightarrow> (length re, length t, 0) | Inr (c, re, t) \<Rightarrow> (length re, length t, 1 :: nat))")
    (auto simp: neq_Nil_conv)

declare matchhere.simps [simp del] matchstar.simps [simp del]

fun match_loop :: "u8 list \<Rightarrow> u8 list \<Rightarrow> bool" where
  "match_loop re [] = matchhere re []"
| "match_loop re (x # t) = (if matchhere re (x # t) then True else match_loop re t)"

definition match :: "u8 list \<Rightarrow> u8 list \<Rightarrow> bool" where
  "match re t = (if re \<noteq> [] \<and> hd re = CARET then matchhere (tl re) t else match_loop re t)"

section \<open>The loop over a file\<close>

text \<open>The file is the input still to come; the k-th read delivers as many bytes as the k-th number says,
  at least one, unless the buffer is full or the input ends.\<close>

definition read_in :: "nat \<Rightarrow> u8 list \<times> nat list \<Rightarrow> u8 list \<times> u8 list \<times> nat list" where
  "read_in n f =
     (case f of (inp, ks) \<Rightarrow>
      let j = min n (case ks of [] \<Rightarrow> length inp | k # _ \<Rightarrow> max 1 k) in (take j inp, drop j inp, tl ks))"

text \<open>The lines in the buffer: those that match are printed; what follows the last newline stays. A zero
  byte hides what follows it from \<^verbatim>\<open>strchr\<close>.\<close>

definition strchr_lf :: "u8 list \<Rightarrow> nat option" where
  "strchr_lf p = find (\<lambda>i. p ! i = LF) [0..<length (takeWhile (\<lambda>b. b \<noteq> 0) p)]"

function grep_scan :: "u8 list \<Rightarrow> u8 list \<Rightarrow> u8 list \<times> u8 list" where
  "grep_scan pat p =
     (case strchr_lf p of None \<Rightarrow> ([], p)
      | Some q \<Rightarrow>
        (case grep_scan pat (drop (Suc q) p) of (out, rest) \<Rightarrow>
           ((if match pat (take q p) then take (Suc q) p else []) @ out, rest)))"
  by pat_completeness auto

termination
proof (relation "measure (\<lambda>(pat, p). length p)")
  fix p :: "u8 list" and q and pat :: "u8 list" assume "strchr_lf p = Some q"
  then have "q < length (takeWhile (\<lambda>b. b \<noteq> 0) p)" by (auto simp: strchr_lf_def find_Some_iff)
  then have "q < length p" using length_takeWhile_le [of "\<lambda>b. b \<noteq> 0" p] by linarith
  then show "((pat, drop (Suc q) p), (pat, p)) \<in> measure (\<lambda>(pat, p). length p)" by simp
qed simp

declare grep_scan.simps [simp del]

text \<open>Each round takes at least one byte of the input, so its length and one rounds are enough.\<close>

definition BUFSZ :: nat where "BUFSZ = 1024"

fun grep_loop :: "nat \<Rightarrow> u8 list \<Rightarrow> u8 list \<Rightarrow> u8 list \<times> nat list \<Rightarrow> u8 list option" where
  "grep_loop 0 pat buf f = None"
| "grep_loop (Suc k) pat buf f =
     (case read_in (BUFSZ - length buf - 1) f of (bs, f1) \<Rightarrow>
      if bs = [] then Some []
      else case grep_scan pat (buf @ bs) of (out, rest) \<Rightarrow> map_option (\<lambda>o2. out @ o2) (grep_loop k pat rest f1))"

definition grep :: "u8 list \<Rightarrow> u8 list \<times> nat list \<Rightarrow> u8 list option" where
  "grep pat f = grep_loop (Suc (length (fst f))) pat [] f"

section \<open>The language of a pattern\<close>

datatype item = One u8 | Many u8

text \<open>The items of a pattern and whether it ends with the anchor.\<close>

fun pat_items :: "u8 list \<Rightarrow> item list \<times> bool" where
  "pat_items [] = ([], False)"
| "pat_items [c] = (if c = DOLLAR then ([], True) else ([One c], False))"
| "pat_items (c # d # re) =
     (if d = STAR then (Many c # fst (pat_items re), snd (pat_items re))
      else (One c # fst (pat_items (d # re)), snd (pat_items (d # re))))"

definition atom :: "u8 \<Rightarrow> u8 \<Rightarrow> bool" where
  "atom c x \<longleftrightarrow> c = DOT \<or> c = x"

fun lang :: "item list \<Rightarrow> u8 list set" where
  "lang [] = {[]}"
| "lang (One c # its) = {x # w | x w. atom c x \<and> w \<in> lang its}"
| "lang (Many c # its) = {u @ w | u w. (\<forall>x \<in> set u. atom c x) \<and> w \<in> lang its}"

text \<open>A beginning of \<open>t\<close> is in the language of \<open>re\<close>, all of \<open>t\<close> if the pattern is anchored.\<close>

definition begins :: "u8 list \<Rightarrow> u8 list \<Rightarrow> bool" where
  "begins re t \<longleftrightarrow> (\<exists>w v. t = w @ v \<and> w \<in> lang (fst (pat_items re)) \<and> (snd (pat_items re) \<longrightarrow> v = []))"

definition re_matches :: "u8 list \<Rightarrow> u8 list \<Rightarrow> bool" where
  "re_matches re t \<longleftrightarrow>
     (if re \<noteq> [] \<and> hd re = CARET then begins (tl re) t else (\<exists>u v. t = u @ v \<and> begins re v))"

lemma begins_Nil: "begins [] t"
  by (simp add: begins_def)

lemma begins_end: "begins [DOLLAR] t \<longleftrightarrow> t = []"
  by (simp add: begins_def)

lemma begins_one:
  assumes "\<not> (re \<noteq> [] \<and> hd re = STAR)" "\<not> (c = DOLLAR \<and> re = [])"
  shows "begins (c # re) t \<longleftrightarrow> t \<noteq> [] \<and> atom c (hd t) \<and> begins re (tl t)"
proof -
  have "pat_items (c # re) = (One c # fst (pat_items re), snd (pat_items re))" using assms by (cases re) auto
  then show ?thesis by (cases t) (auto simp: begins_def Cons_eq_append_conv)
qed

lemma begins_star: "begins (c # STAR # re) t \<longleftrightarrow> (\<exists>u v. t = u @ v \<and> (\<forall>x \<in> set u. atom c x) \<and> begins re v)"
proof
  assume "begins (c # STAR # re) t"
  then obtain x v where x: "t = x @ v" "x \<in> lang (Many c # fst (pat_items re))" "snd (pat_items re) \<longrightarrow> v = []"
    unfolding begins_def by force
  then obtain u w where u: "x = u @ w" "\<forall>x \<in> set u. atom c x" "w \<in> lang (fst (pat_items re))" by auto
  have "begins re (w @ v)" unfolding begins_def using u(3) x(3) by blast
  then show "\<exists>u v. t = u @ v \<and> (\<forall>x \<in> set u. atom c x) \<and> begins re v" using x(1) u(1,2) by auto
next
  assume "\<exists>u v. t = u @ v \<and> (\<forall>x \<in> set u. atom c x) \<and> begins re v"
  then obtain u w v where u: "t = u @ w @ v" "\<forall>x \<in> set u. atom c x" "w \<in> lang (fst (pat_items re))" "snd (pat_items re) \<longrightarrow> v = []"
    unfolding begins_def by blast
  then have "u @ w \<in> lang (Many c # fst (pat_items re))" by auto
  then show "begins (c # STAR # re) t" unfolding begins_def using u(1,4) by (intro exI [of _ "u @ w"] exI [of _ v]) simp
qed

lemma star_step:
  "(\<exists>u v. t = u @ v \<and> (\<forall>x \<in> set u. atom c x) \<and> P v) \<longleftrightarrow>
   P t \<or> t \<noteq> [] \<and> atom c (hd t) \<and> (\<exists>u v. tl t = u @ v \<and> (\<forall>x \<in> set u. atom c x) \<and> P v)" (is "?l \<longleftrightarrow> ?r")
proof
  assume ?l
  then obtain u v where "t = u @ v" "\<forall>x \<in> set u. atom c x" "P v" by blast
  then show ?r by (cases u) auto
next
  assume ?r
  then show ?l
  proof
    assume "t \<noteq> [] \<and> atom c (hd t) \<and> (\<exists>u v. tl t = u @ v \<and> (\<forall>x \<in> set u. atom c x) \<and> P v)"
    then obtain u v where "t = (hd t # u) @ v" "\<forall>x \<in> set (hd t # u). atom c x" "P v" 
      by (cases t) auto
    then show ?l by blast
  next
    assume "P t"
    then show ?l by (intro exI [of _ "[]"] exI [of _ t]) simp
  qed
qed

lemma matchhere_begins:
  "matchhere re t \<longleftrightarrow> begins re t"
  "matchstar c re t \<longleftrightarrow> (\<exists>u v. t = u @ v \<and> (\<forall>x \<in> set u. atom c x) \<and> begins re v)"
proof (induction re t and c re t rule: matchhere_matchstar.induct)
  case (1 re t)
  show ?case
  proof (cases re)
    case Nil
    then show ?thesis by (simp add: matchhere.simps begins_Nil)
  next
    case (Cons c re1)
    consider "re1 \<noteq> [] \<and> hd re1 = STAR" | "\<not> (re1 \<noteq> [] \<and> hd re1 = STAR)" "c = DOLLAR \<and> re1 = []" |
      "\<not> (re1 \<noteq> [] \<and> hd re1 = STAR)" "\<not> (c = DOLLAR \<and> re1 = [])" by blast
    then show ?thesis
    proof cases
      case 1
      then obtain re2 where "re1 = STAR # re2" by (cases re1) auto
      then show ?thesis using "1.IH"(1) Cons unfolding matchhere.simps [of re t] by (simp add: begins_star)
    next
      case 2
      then show ?thesis using Cons unfolding matchhere.simps [of re t] by (simp add: begins_end)
    next
      case 3
      then show ?thesis using "1.IH"(2) Cons unfolding matchhere.simps [of re t] by (auto simp: begins_one atom_def)
    qed
  qed
next
  case (2 c re t)
  show ?case unfolding star_step [of t] matchstar.simps [of c re t] using 2 by (auto simp: atom_def)
qed

lemma match_re: "match re t \<longleftrightarrow> re_matches re t"
proof -
  have "match_loop re t \<longleftrightarrow> (\<exists>u v. t = u @ v \<and> begins re v)"
    by (induction t) (auto simp: matchhere_begins Cons_eq_append_conv)
  then show ?thesis unfolding match_def re_matches_def by (simp only: matchhere_begins)
qed

section \<open>Lines\<close>

text \<open>The complete lines of a text after the bytes \<open>cur\<close>, and what follows the last newline.\<close>

fun lines_from :: "u8 list \<Rightarrow> u8 list \<Rightarrow> u8 list list" where
  "lines_from cur [] = []"
| "lines_from cur (x # xs) = (if x = LF then cur # lines_from [] xs else lines_from (cur @ [x]) xs)"

fun last_part :: "u8 list \<Rightarrow> u8 list \<Rightarrow> u8 list" where
  "last_part cur [] = cur"
| "last_part cur (x # xs) = (if x = LF then last_part [] xs else last_part (cur @ [x]) xs)"

definition emit :: "u8 list \<Rightarrow> u8 list list \<Rightarrow> u8 list" where
  "emit pat ls = concat (map (\<lambda>l. l @ [LF]) (filter (match pat) ls))"

lemma lines_append: "lines_from cur (xs @ ys) = lines_from cur xs @ lines_from (last_part cur xs) ys"
  "last_part cur (xs @ ys) = last_part (last_part cur xs) ys"
  by (induction xs arbitrary: cur) auto

lemma lines_no_lf: "LF \<notin> set xs \<Longrightarrow> lines_from cur xs = []" "LF \<notin> set xs \<Longrightarrow> last_part cur xs = cur @ xs"
  by (induction xs arbitrary: cur) auto

lemma lines_extend: "l \<in> set (take 1 (lines_from cur xs)) \<Longrightarrow> length cur \<le> length l"
  by (induction xs arbitrary: cur) (auto split: if_splits, fastforce)

lemma last_part_set: "set (last_part cur xs) \<subseteq> set cur \<union> set xs" "LF \<notin> set cur \<Longrightarrow> LF \<notin> set (last_part cur xs)"
  by (induction xs arbitrary: cur) (auto, fastforce+)

lemma grep_scan_lines:
  "0 \<notin> set p \<Longrightarrow> grep_scan pat p = (emit pat (lines_from [] p), last_part [] p)"
proof (induction pat p rule: grep_scan.induct)
  case (1 pat p)
  then have tw: "takeWhile (\<lambda>b. b \<noteq> 0) p = p" by (auto simp: takeWhile_eq_all_conv)
  show ?case
  proof (cases "strchr_lf p")
    case None
    then have "LF \<notin> set p" by (auto simp: strchr_lf_def tw find_None_iff in_set_conv_nth)
    then show ?thesis using None by (simp add: grep_scan.simps [of pat p] lines_no_lf emit_def)
  next
    case (Some q)
    then have q: "q < length p" "p ! q = LF" "\<forall>j < q. p ! j \<noteq> LF" by (auto simp: strchr_lf_def tw find_Some_iff)
    then have p: "p = take q p @ LF # drop (Suc q) p" by (metis id_take_nth_drop)
    have n: "LF \<notin> set (take q p)" using q by (auto simp: in_set_conv_nth)
    have l: "lines_from [] p = take q p # lines_from [] (drop (Suc q) p)" "last_part [] p = last_part [] (drop (Suc q) p)"
      using lines_append [of "[]" "take q p" "LF # drop (Suc q) p"] lines_no_lf [OF n, of "[]"] p by simp_all
    have z: "0 \<notin> set (drop (Suc q) p)" using "1.prems" set_drop_subset by fastforce
    have t: "take (Suc q) p = take q p @ [LF]" using q by (simp add: take_Suc_conv_app_nth)
    show ?thesis unfolding grep_scan.simps [of pat p] l using Some "1.IH" [OF Some z] t by (simp add: emit_def)
  qed
qed

lemma grep_loop_lines:
  assumes "0 \<notin> set buf" "0 \<notin> set inp" "LF \<notin> set buf" "\<forall>l \<in> set (lines_from buf inp). length l < BUFSZ - 1" "length inp < k"
  shows "grep_loop k pat buf (inp, ks) = Some (emit pat (lines_from buf inp))"
  using assms
proof (induction k arbitrary: buf inp ks)
  case (Suc k)
  obtain bs inp' ks' where r: "read_in (BUFSZ - length buf - 1) (inp, ks) = (bs, inp', ks')" by (metis prod_cases3)
  then have e: "inp = bs @ inp'" by (auto simp: read_in_def Let_def)
  show ?case
  proof (cases "bs = []")
    case True
    then have "inp = [] \<or> BUFSZ - 1 \<le> length buf" using r by (auto simp: read_in_def Let_def min_def split: list.splits if_splits)
    moreover have "lines_from buf inp = []" if "BUFSZ - 1 \<le> length buf"
    proof (cases "lines_from buf inp")
      case (Cons l ls)
      then show ?thesis using lines_extend [of l buf inp] Suc.prems(4) that by simp
    qed simp
    ultimately have "lines_from buf inp = []" by auto
    then show ?thesis using True r by (simp add: emit_def)
  next
    case False
    let ?rest = "last_part [] (buf @ bs)"
    have n: "last_part [] buf = buf" "lines_from [] buf = []" using lines_no_lf [OF Suc.prems(3)] by simp_all
    have l: "lines_from buf inp = lines_from buf bs @ lines_from ?rest inp'" using n by (simp add: e lines_append)
    have g: "grep_scan pat (buf @ bs) = (emit pat (lines_from buf bs), ?rest)"
      using grep_scan_lines [of "buf @ bs" pat] Suc.prems(1,2) n by (simp add: e lines_append)
    have "grep_loop k pat ?rest (inp', ks') = Some (emit pat (lines_from ?rest inp'))"
    proof (rule Suc.IH)
      show "0 \<notin> set ?rest" using last_part_set(1) [of "[]" "buf @ bs"] Suc.prems(1,2) by (auto simp: e)
      show "LF \<notin> set ?rest" using last_part_set(2) [of "[]"] by simp
      show "length inp' < k" using False Suc.prems(5) by (cases bs) (auto simp: e)
    qed (use Suc.prems(2,4) l e in auto)
    then show ?thesis using False r g by (simp add: l emit_def)
  qed
qed simp

text \<open>C9: \<^verbatim>\<open>grep\<close> prints exactly the lines that match. For a text without zero bytes whose complete lines are
  shorter than 1023 bytes, and however the reads cut it into pieces, \<^verbatim>\<open>grep\<close> ends and its output is the
  complete lines of the text, in order, in which some part is in the language of the pattern: at the
  beginning of the line after \<open>^\<close>, up to its end before \<open>$\<close>, with \<open>.\<close> for any byte and \<open>c*\<close> for any
  number of \<open>c\<close>. An unfinished last line is not looked at.\<close>

theorem grep_prints_matching_lines:
  assumes "0 \<notin> set inp" and "\<forall>l \<in> set (lines_from [] inp). length l < 1023"
  shows "grep pat (inp, ks) = Some (concat (map (\<lambda>l. l @ [LF]) (filter (re_matches pat) (lines_from [] inp))))"
proof -
  have "filter (re_matches pat) = filter (match pat)" by (rule arg_cong [where f = filter]) (simp add: match_re fun_eq_iff)
  then show ?thesis using grep_loop_lines [of "[]" inp "Suc (length inp)" pat ks] assms
    by (simp add: grep_def emit_def BUFSZ_def)
qed

text \<open>The pattern \<open>^a.*c$\<close> on the lines \<open>abc\<close>, \<open>ab\<close>, \<open>ac\<close> and an unfinished \<open>ac\<close>, read in pieces of 2, 1 and 5 bytes.\<close>

theorem grep_prints_matching_lines_witness:
  "grep [94, 97, 46, 42, 99, 36] ([97, 98, 99, 10, 97, 98, 10, 97, 99, 10, 97, 99], [2, 1, 5]) = Some [97, 98, 99, 10, 97, 99, 10] \<and>
   [97, 98, 99, 10, 97, 99, 10] = concat (map (\<lambda>l. l @ [LF]) (filter (re_matches [94, 97, 46, 42, 99, 36]) [[97, 98, 99], [97, 98], [97, 99]]))"
proof -
  let ?p = "[94, 97, 46, 42, 99, 36] :: u8 list" and ?t = "[97, 98, 99, 10, 97, 98, 10, 97, 99, 10, 97, 99] :: u8 list"
  have g: "grep ?p (?t, [2, 1, 5]) = Some [97, 98, 99, 10, 97, 99, 10]" by code_simp
  have l: "lines_from [] ?t = [[97, 98, 99], [97, 98], [97, 99]]" by (simp add: LF_def)
  show ?thesis using grep_prints_matching_lines [of ?t ?p "[2, 1, 5]"] g unfolding l by simp
qed

end
