(* ===== verification/Spec2Isabelle.thy ===== *)
theory Spec2Isabelle
  imports Sleepwake Psspec Fsdir Boot Fdtable Virtiospec Umallocspec Uthreadspec Grep
begin

text \<open>
  A verification library for xv6-riscv: the teaching kernel under \<^verbatim>\<open>src/kernel\<close>, with the schedulers,
  \<^verbatim>\<open>ps\<close>, \<^verbatim>\<open>schedls\<close> and \<^verbatim>\<open>schedset\<close> added in this repository, and of the user side under \<^verbatim>\<open>src/user\<close> the
  memory allocator, the thread library with its locks, and \<^verbatim>\<open>grep\<close>.

  \<^bold>\<open>The program and how its parts interact.\<close> \<^verbatim>\<open>start\<close> and \<^verbatim>\<open>main\<close> bring the machine up and initialise every
  other part. Traps (\<^verbatim>\<open>trap.c\<close>) lead to \<^verbatim>\<open>syscall\<close>, to the device interrupts or to \<^verbatim>\<open>yield\<close>. System calls
  work on processes (\<^verbatim>\<open>proc.c\<close>) and on open files (\<^verbatim>\<open>file.c\<close>), which are pipes, devices or inodes. Inodes
  and directories (\<^verbatim>\<open>fs.c\<close>) live in disk blocks that are changed only inside transactions of the redo log
  (\<^verbatim>\<open>log.c\<close>), over the buffer cache (\<^verbatim>\<open>bio.c\<close>) and the disk driver (\<^verbatim>\<open>virtio_disk.c\<close>). All of it rests on spin
  locks, sleep locks, \<^verbatim>\<open>sleep\<close> and \<^verbatim>\<open>wakeup\<close>, the page allocator, page tables and the C string routines.

  \<^bold>\<open>Results and state.\<close> A C function is a function from states to results: \<open>Inr\<close> a normal return, \<open>Inl\<close> a
  panic, an access C gives no meaning to, or a process that sleeps for good (\<open>Prelude\<close>). Integers are
  words of their C width; an \<^verbatim>\<open>int\<close> is read with \<open>sint\<close> where its sign matters. The state is a chain of
  records, each theory adding the globals of its source file: locks held (\<open>kbase\<close>), physical memory and
  free list (\<open>kmach\<close>), kernel page table (\<open>kvm\<close>), UART (\<open>kdev\<close>), process table and scheduler (\<open>kproc\<close>),
  pipes (\<open>kpipe\<close>), sleep locks (\<open>kslp\<close>), buffers and disk (\<open>kbuf\<close>), log (\<open>kfslog\<close>), superblock and inodes
  (\<open>kfs\<close>), console (\<open>kcons\<close>), files (\<open>kfile\<close>), the disk queue (\<open>kvirt\<close>), trap registers (\<open>ktrap\<close>) and
  machine registers (\<open>kboot\<close>). A definition is on the smallest record it needs, so the theorems about it
  hold in every larger state.

  \<^bold>\<open>Which theory models what.\<close>
  \<^item> \<open>Prelude\<close>, \<open>Endian\<close>, \<open>Cmem\<close>, \<open>Ring\<close>: \<^verbatim>\<open>param.h\<close>, \<^verbatim>\<open>riscv.h\<close>, \<^verbatim>\<open>memlayout.h\<close>; results, bytes in memory and in
    blocks, and ring buffers with wrapping counters, a locale interpreted for pipes, UART and console.
  \<^item> \<open>Cstring\<close>: \<^verbatim>\<open>string.c\<close>. \<open>Spinlock\<close>: \<^verbatim>\<open>spinlock.c\<close>, also as an interleaved step relation.
    \<open>Kalloc\<close>: \<^verbatim>\<open>kalloc.c\<close>. \<open>Vm\<close>, \<open>Pagetable\<close>, \<open>Usermem\<close>: \<^verbatim>\<open>vm.c\<close>. \<open>Printf\<close>: \<^verbatim>\<open>printf.c\<close>.
  \<^item> \<open>Proc\<close>, \<open>Procspec\<close>, \<open>Process\<close>: \<^verbatim>\<open>proc.c\<close>, the schedulers, \<^verbatim>\<open>sleep\<close>, \<^verbatim>\<open>wakeup\<close>, \<^verbatim>\<open>fork\<close>, \<^verbatim>\<open>exit\<close>, \<^verbatim>\<open>wait\<close>, \<^verbatim>\<open>ps\<close>.
    \<open>Sleepwake\<close>: \<^verbatim>\<open>sleep\<close> and \<^verbatim>\<open>wakeup\<close> cut into atomic actions, which run as the two functions and are interleaved
    in a step relation. \<open>Psspec\<close>: what \<^verbatim>\<open>ps\<close> leaves in user memory.
    \<open>Pipe\<close>: \<^verbatim>\<open>pipe.c\<close>. \<open>Sleeplock\<close>: \<^verbatim>\<open>sleeplock.c\<close>.
  \<^item> \<open>Bio\<close>: \<^verbatim>\<open>bio.c\<close>. \<open>Log\<close>, \<open>Logspec\<close>: \<^verbatim>\<open>log.c\<close>. \<open>Fs\<close>, \<open>Fsspec\<close>, \<open>Fsinode\<close>, \<open>Fsfile\<close>, \<open>Fsdata\<close>, \<open>Fsdir\<close>: \<^verbatim>\<open>fs.c\<close>, from
    block allocation over inodes and file contents to directories and paths.
  \<^item> \<open>Console\<close>, \<open>Consline\<close>: \<^verbatim>\<open>uart.c\<close> and \<^verbatim>\<open>console.c\<close>. \<open>Virtio\<close>, \<open>Virtiospec\<close>: \<^verbatim>\<open>virtio_disk.c\<close>.
  \<^item> \<open>File\<close>: \<^verbatim>\<open>file.c\<close>. \<open>Sysargs\<close>, \<open>Sysfile\<close>, \<open>Sysproc\<close>, \<open>Exec\<close>, \<open>Syscall\<close>: \<^verbatim>\<open>syscall.c\<close>, \<^verbatim>\<open>sysfile.c\<close>, \<^verbatim>\<open>sysproc.c\<close>,
    \<^verbatim>\<open>exec.c\<close>. \<open>Trap\<close>: \<^verbatim>\<open>trap.c\<close> and \<^verbatim>\<open>plic.c\<close>. \<open>Boot\<close>: \<^verbatim>\<open>start.c\<close> and \<^verbatim>\<open>main.c\<close>.
  \<^item> \<open>Memframe\<close>, \<open>Frame\<close>, \<open>Fdtable\<close>: which kernel functions leave open files alone (locales \<open>mem_frame\<close> and
    \<open>fd_frame\<close>), and the typing of descriptors over all system calls (locale \<open>fds\<close>).
  \<^item> \<open>Umalloc\<close>, \<open>Umallocspec\<close>: \<^verbatim>\<open>user/umalloc.c\<close>. \<open>Uthread\<close>, \<open>Uthreadspec\<close>: \<^verbatim>\<open>user/uthread.c\<close>, \<^verbatim>\<open>tswtch.S\<close>,
    \<^verbatim>\<open>lock.c\<close> and the main thread of \<^verbatim>\<open>ulib.c\<close>. \<open>Grep\<close>: \<^verbatim>\<open>user/grep.c\<close>.

  \<^bold>\<open>What the lemmas show.\<close> Storage: commits are atomic under a crash after any disk write; the log space
  \<^verbatim>\<open>begin_op\<close> hands out, and how much of it can be used; the buffer cache reads and writes like an array
  of blocks; files are byte sequences, directories maps from names, block allocation and
  inode updates round trips; the disk driver with its interrupt implements the atomic transfer the cache
  is verified over. Memory: pages are owned by one holder and none is lost; mappings are exact; copies
  between kernel and user stay inside user pages. Processes: mutual exclusion and no lost wakeup in
  every interleaving; what each scheduler may run and when, and how long a demotion lasts; sleep, wakeup,
  kill and the process listing exactly. Files: the
  reference counts are exact over every path of every system call. Devices: pipes and the console are
  queues and a line editor. User side: the allocator hands out disjoint memory and loses none, threads
  are scheduled round robin with their registers, \<^verbatim>\<open>grep\<close> prints the lines in the language of the pattern.

  \<^bold>\<open>Bounds and fuel.\<close> A loop that waits for other processes takes a bound on its rounds and the effect of
  the others between two of them (\<open>senv\<close>); theorems that such a call returns give a bound that is enough.
  Loops over tables run over index lists; the search loops of the user allocator, which need not end on
  a corrupt list, are \<open>partial_function (option)\<close> and are proved to return; \<^verbatim>\<open>free_chain\<close> runs \<open>NUM + 1\<close> rounds,
  as a second visit of a descriptor panics; \<^verbatim>\<open>grep\<close> runs once for every input byte and once more.

  \<^bold>\<open>Parameters.\<close> The disk device, the registers of UART and PLIC, user programs and interrupts between two
  steps, \<^verbatim>\<open>sbrk\<close> as the user allocator sees it and the function of a thread are arguments of the
  definitions; what is relied on of them is a named hypothesis (\<open>vdev_ok\<close>, \<open>resumes\<close>, \<open>drains\<close>, \<open>fd_env\<close>,
  \<open>sbrk_ok\<close>), with a concrete instance in the witness of each theorem that has one.

  \<^bold>\<open>Not modelled.\<close> The assembly (\<^verbatim>\<open>entry.S\<close>, \<^verbatim>\<open>kernelvec.S\<close>, \<^verbatim>\<open>swtch.S\<close>, \<^verbatim>\<open>trampoline.S\<close>) saves and restores registers
  around the C code, and its effect is in the model of the functions it connects; \<^verbatim>\<open>ramdisk.c\<close> is not built;
  \<^verbatim>\<open>mkfs.c\<close> runs on the host. The shell, the command line tools, \<^verbatim>\<open>main\<close> of \<^verbatim>\<open>grep\<close> and the user versions of the
  string routines and of \<^verbatim>\<open>printf\<close> are clients of the system calls and repeat kernel code; the test programs
  implement nothing. Concurrency is modelled where it is the point (locks, sleep and wakeup, threads);
  other code runs between its switches without interference, as its locks and disabled interrupts ensure.
\<close>

end
